(* ===== verification/Prelude.thy ===== *)
theory Prelude
  imports Main "HOL-Library.Word"
begin

text \<open>
  Shared vocabulary of the development: the machine integer types and byte strings of the
  Rust code, the error values of \<^verbatim>\<open>src/src/core/error.rs\<close> with the result type built on
  them, a small state-and-error discipline for code that mutates its state and may fail,
  byte slices, little-endian codecs (as a locale with one interpretation per width), and the
  checked and saturating operations of Rust's unsigned integers.
\<close>

named_theorems bytes_simps \<open>rewriting of slices and splices of byte buffers\<close>
named_theorems io_simps \<open>unfolding of the state-and-error combinators\<close>

section \<open>Machine integers and byte strings\<close>

type_synonym u8 = "8 word"
type_synonym u16 = "16 word"
type_synonym u32 = "32 word"
type_synonym u64 = "64 word"
type_synonym bytes = "u8 list"

lemma unat_word_less:
  shows "unat (a :: u8) < 256" and "unat (b :: u16) < 65536"
    and "unat (c :: u32) < 4294967296" and "unat (d :: u64) < 18446744073709551616"
  using unsigned_less [of a] unsigned_less [of b] unsigned_less [of c] unsigned_less [of d]
  by simp_all

text \<open>
  File offsets, lengths and segment numbers are kept as natural numbers; the points where
  the code narrows, saturates, wraps or checks them use the operations below.
\<close>

abbreviation u64_max :: nat where
  "u64_max \<equiv> 18446744073709551615"

abbreviation u32_max :: nat where
  "u32_max \<equiv> 4294967295"

definition sat_add64 :: "nat \<Rightarrow> nat \<Rightarrow> nat" where
  "sat_add64 a b = min (a + b) u64_max"

definition sat_mul64 :: "nat \<Rightarrow> nat \<Rightarrow> nat" where
  "sat_mul64 a b = min (a * b) u64_max"

definition sat_sub64 :: "nat \<Rightarrow> nat \<Rightarrow> nat" where
  "sat_sub64 a b = a - b"

definition checked_add64 :: "nat \<Rightarrow> nat \<Rightarrow> nat option" where
  "checked_add64 a b = (if a + b \<le> u64_max then Some (a + b) else None)"

definition as_u32 :: "nat \<Rightarrow> nat" where
  "as_u32 n = n mod 4294967296"

definition as_u64 :: "nat \<Rightarrow> nat" where
  "as_u64 n = n mod 18446744073709551616"

lemma as_u64_id [simp]: "n \<le> u64_max \<Longrightarrow> as_u64 n = n"
  by (simp add: as_u64_def)

lemma as_u32_id [simp]: "n \<le> u32_max \<Longrightarrow> as_u32 n = n"
  by (simp add: as_u32_def)

lemma as_u32_le: "as_u32 n \<le> u32_max"
  using mod_less_divisor [of 4294967296 n] by (simp add: as_u32_def)

lemma sat_add64_exact: "a + b \<le> u64_max \<Longrightarrow> sat_add64 a b = a + b"
  by (simp add: sat_add64_def)

lemma sat_mul64_exact: "a * b \<le> u64_max \<Longrightarrow> sat_mul64 a b = a * b"
  by (simp add: sat_mul64_def)

lemma sat_add64_mono: "a \<le> a' \<Longrightarrow> b \<le> b' \<Longrightarrow> sat_add64 a b \<le> sat_add64 a' b'"
  by (simp add: sat_add64_def)

lemma sat_mul64_mono: "a \<le> a' \<Longrightarrow> b \<le> b' \<Longrightarrow> sat_mul64 a b \<le> sat_mul64 a' b'"
  by (simp add: sat_mul64_def min_le_iff_disj mult_le_mono)

section \<open>Errors, results and stateful computations\<close>

text \<open>
  \<open>error\<close> is the enum \<open>Error\<close> of \<^verbatim>\<open>core/error.rs\<close>. An \<open>std::io::Error\<close> is represented
  by its kind, the only part of it the code inspects. \<open>Anyhow\<close> is the message of an \<open>anyhow\<close>
  error, which the modules above the core use. \<open>Panic\<close> is not a constructor of the enum: it stands for a Rust panic (a slice index out of range, an arithmetic overflow),
  which ends the computation in the same way. Neither is \<open>Blocked\<close>: it stands for a call that
  is still waiting when the observations of its environment that the model was given end.
\<close>

datatype io_kind =
  NotFound | AlreadyExists | UnexpectedEof | BrokenPipe | TimedOut | WouldBlock | OtherIo

datatype error =
    Io io_kind
  | Corrupt string
  | CorruptMetadata string
  | Unsupported string
  | UnsupportedVersion u32
  | PayloadTooLarge
  | QueueFull
  | WriterAlreadyActive
  | InvalidPartition string
  | Anyhow string
  | Panic string
  | Blocked

type_synonym 'a result = "error + 'a"

text \<open>
  A fallible operation on a mutable state returns its result and the state it leaves. The
  state is returned on failure too: what the code wrote before an early return stays
  written.
\<close>

type_synonym ('s, 'a) io = "'s \<Rightarrow> 'a result \<times> 's"

definition ret :: "'a \<Rightarrow> ('s, 'a) io" where
  "ret x s = (Inr x, s)"

definition fail :: "error \<Rightarrow> ('s, 'a) io" where
  "fail e s = (Inl e, s)"

definition bind :: "('s, 'a) io \<Rightarrow> ('a \<Rightarrow> ('s, 'b) io) \<Rightarrow> ('s, 'b) io" where
  "bind m f s = (case m s of (Inl e, s') \<Rightarrow> (Inl e, s') | (Inr x, s') \<Rightarrow> f x s')"

definition lift :: "'a result \<Rightarrow> ('s, 'a) io" where
  "lift r s = (r, s)"

definition get :: "('s \<Rightarrow> 'a) \<Rightarrow> ('s, 'a) io" where
  "get f s = (Inr (f s), s)"

text \<open>\<open>attempt\<close> hands a failure to the caller as a value, for code that matches on it.\<close>

definition attempt :: "('s, 'a) io \<Rightarrow> ('s, 'a result) io" where
  "attempt m s = (case m s of (r, s') \<Rightarrow> (Inr r, s'))"

definition modify :: "('s \<Rightarrow> 's) \<Rightarrow> ('s, unit) io" where
  "modify f s = (Inr (), f s)"

lemmas [io_simps] = ret_def fail_def bind_def lift_def get_def modify_def attempt_def

definition rbind :: "'a result \<Rightarrow> ('a \<Rightarrow> 'b result) \<Rightarrow> 'b result" where
  "rbind r f = (case r of Inl e \<Rightarrow> Inl e | Inr x \<Rightarrow> f x)"

lemma rbind_simps [simp]: "rbind (Inl e) f = Inl e" "rbind (Inr x) f = f x"
  by (simp_all add: rbind_def)

lemma rbind_InrD: "rbind r f = Inr y \<Longrightarrow> \<exists>x. r = Inr x \<and> f x = Inr y"
  by (cases r) simp_all

lemma bind_ok: "m s = (Inr x, s') \<Longrightarrow> bind m f s = f x s'"
  and bind_err: "m s = (Inl e, s') \<Longrightarrow> bind m f s = (Inl e, s')"
  by (simp_all add: bind_def)

lemma bind_simps [simp]:
  "bind (ret x) f = f x" "bind (fail e) f = fail e"
  "bind (get g) f s = f (g s) s" "bind (modify h) k s = k () (h s)"
  "bind (lift (Inr x)) f = f x" "bind (lift (Inl e)) f = fail e"
  by (simp_all add: fun_eq_iff io_simps)

lemma bind_InrD:
  assumes "bind m f s = (Inr y, s')"
  shows "\<exists>x t. m s = (Inr x, t) \<and> f x t = (Inr y, s')"
  using assms by (auto simp: bind_def split: prod.splits sum.splits)

section \<open>Byte slices\<close>

text \<open>
  \<open>bslice bs a b\<close> is \<open>&bs[a..b]\<close>; \<open>bsplice bs a xs\<close> is
  \<open>bs[a..a + xs.len()].copy_from_slice(xs)\<close>, both for ranges inside the buffer.
\<close>

definition bslice :: "'a list \<Rightarrow> nat \<Rightarrow> nat \<Rightarrow> 'a list" where
  "bslice bs a b = take (b - a) (drop a bs)"

definition bsplice :: "'a list \<Rightarrow> nat \<Rightarrow> 'a list \<Rightarrow> 'a list" where
  "bsplice bs a xs = take a bs @ xs @ drop (a + length xs) bs"

lemma length_bslice [simp]: "length (bslice bs a b) = min (b - a) (length bs - a)"
  by (simp add: bslice_def)

lemma length_bsplice [simp]:
  "a + length xs \<le> length bs \<Longrightarrow> length (bsplice bs a xs) = length bs"
  by (simp add: bsplice_def)

lemma nth_bsplice:
  "a + length xs \<le> length bs \<Longrightarrow> i < length bs \<Longrightarrow>
   bsplice bs a xs ! i = (if i < a then bs ! i else if i < a + length xs then xs ! (i - a) else bs ! i)"
  by (auto simp: bsplice_def nth_append min_def)

lemma nth_bslice: "i < b - a \<Longrightarrow> i < length bs - a \<Longrightarrow> bslice bs a b ! i = bs ! (a + i)"
  by (simp add: bslice_def)

lemma bslice_splice_same [bytes_simps]:
  "a + length xs \<le> length bs \<Longrightarrow> b = a + length xs \<Longrightarrow> bslice (bsplice bs a xs) a b = xs"
  by (simp add: bslice_def bsplice_def)

lemma bslice_cong_nth:
  assumes "length xs = length ys" "\<And>i. a \<le> i \<Longrightarrow> i < b \<Longrightarrow> i < length xs \<Longrightarrow> xs ! i = ys ! i"
  shows "bslice xs a b = bslice ys a b"
  using assms by (intro nth_equalityI) (auto simp: nth_bslice)

lemma bslice_splice_before [bytes_simps]:
  "a + length xs \<le> length bs \<Longrightarrow> d \<le> a \<Longrightarrow> bslice (bsplice bs a xs) c d = bslice bs c d"
  by (rule bslice_cong_nth) (auto simp: nth_bsplice)

lemma bslice_splice_after [bytes_simps]:
  "a + length xs \<le> length bs \<Longrightarrow> a + length xs \<le> c \<Longrightarrow> bslice (bsplice bs a xs) c d = bslice bs c d"
  by (rule bslice_cong_nth) (auto simp: nth_bsplice)

lemma take_bsplice:
  "a + length xs \<le> length bs \<Longrightarrow> d \<le> a \<Longrightarrow> take d (bsplice bs a xs) = take d bs"
  by (simp add: bsplice_def)

lemma drop_bsplice:
  "a + length xs \<le> length bs \<Longrightarrow> a + length xs \<le> c \<Longrightarrow> drop c (bsplice bs a xs) = drop c bs"
  by (rule nth_equalityI) (auto simp: nth_bsplice)

lemma bslice_of_slice:
  assumes "b \<le> d - c"
  shows "bslice (bslice bs c d) a b = bslice bs (c + a) (c + b)"
proof -
  have "min (b - a) (d - c - a) = b - a" using assms by linarith
  then show ?thesis by (simp add: bslice_def drop_take add.commute)
qed

lemma bslice_full [simp]: "length bs \<le> b \<Longrightarrow> bslice bs 0 b = bs"
  by (simp add: bslice_def)

lemma bslice_replicate: "bslice (replicate n x) a b = replicate (min (b - a) (n - a)) x"
  by (simp add: bslice_def min.commute)

lemma bslice_take: "b \<le> n \<Longrightarrow> bslice (take n bs) a b = bslice bs a b"
  by (simp add: bslice_def drop_take)

lemma bslice_eq_of_take: "take n xs = take n ys \<Longrightarrow> b \<le> n \<Longrightarrow> bslice xs a b = bslice ys a b"
  by (metis bslice_take)

section \<open>Little-endian codecs\<close>

primrec le_bytes :: "nat \<Rightarrow> nat \<Rightarrow> bytes" where
  "le_bytes 0 n = []"
| "le_bytes (Suc k) n = word_of_nat (n mod 256) # le_bytes k (n div 256)"

primrec le_nat :: "bytes \<Rightarrow> nat" where
  "le_nat [] = 0"
| "le_nat (b # bs) = unat b + 256 * le_nat bs"

lemma length_le_bytes [simp]: "length (le_bytes k n) = k"
  by (induction k arbitrary: n) auto

lemma le_nat_le_bytes: "le_nat (le_bytes k n) = n mod 256 ^ k"
proof (induction k arbitrary: n)
  case (Suc k)
  have "unat (word_of_nat (n mod 256) :: u8) = n mod 256"
    by (simp add: unat_of_nat)
  then show ?case by (simp add: Suc mod_mult2_eq)
qed simp

lemma le_bytes_0 [simp]: "le_bytes k 0 = replicate k 0"
  by (induction k) auto

lemma le_nat_replicate_0 [simp]: "le_nat (replicate k 0) = 0"
  by (induction k) auto

lemma le_nat_less: "le_nat bs < 256 ^ length bs"
proof (induction bs)
  case (Cons b bs)
  have "unat b < 256" by (rule unat_word_less)
  with Cons show ?case by simp
qed simp

lemma le_bytes_le_nat: "le_bytes (length bs) (le_nat bs) = bs"
proof (induction bs)
  case (Cons b bs)
  have "unat b < 256" by (rule unat_word_less)
  then show ?case by (simp add: Cons)
qed simp

definition u16_to_le :: "u16 \<Rightarrow> bytes" where "u16_to_le w = le_bytes 2 (unat w)"
definition u32_to_le :: "u32 \<Rightarrow> bytes" where "u32_to_le w = le_bytes 4 (unat w)"
definition u64_to_le :: "u64 \<Rightarrow> bytes" where "u64_to_le w = le_bytes 8 (unat w)"
definition u16_from_le :: "bytes \<Rightarrow> u16" where "u16_from_le bs = word_of_nat (le_nat bs)"
definition u32_from_le :: "bytes \<Rightarrow> u32" where "u32_from_le bs = word_of_nat (le_nat bs)"
definition u64_from_le :: "bytes \<Rightarrow> u64" where "u64_from_le bs = word_of_nat (le_nat bs)"

text \<open>
  What every fixed-width codec promises, and what its clients (the headers, index files and
  metadata slots) use of it: a field read back from the buffer it was written to.
\<close>

locale le_codec =
  fixes enc :: "'a \<Rightarrow> bytes"
    and dec :: "bytes \<Rightarrow> 'a"
    and width :: nat
  assumes length_enc: "length (enc x) = width"
    and dec_enc: "dec (enc x) = x"
begin

lemma field_same: "a + width \<le> length bs \<Longrightarrow> b = a + width \<Longrightarrow> dec (bslice (bsplice bs a (enc x)) a b) = x"
  by (simp add: bslice_splice_same length_enc dec_enc)

lemma field_length: "a + width \<le> length bs \<Longrightarrow> length (bsplice bs a (enc x)) = length bs"
  by (simp add: length_enc)

lemma enc_inject: "enc x = enc y \<longleftrightarrow> x = y"
  by (metis dec_enc)

end

interpretation u16_codec: le_codec u16_to_le u16_from_le 2
  by unfold_locales (simp_all add: u16_to_le_def u16_from_le_def le_nat_le_bytes unsigned_less [where w = "_ :: u16", simplified])

interpretation u32_codec: le_codec u32_to_le u32_from_le 4
  by unfold_locales (simp_all add: u32_to_le_def u32_from_le_def le_nat_le_bytes unsigned_less [where w = "_ :: u32", simplified])

interpretation u64_codec: le_codec u64_to_le u64_from_le 8
  by unfold_locales (simp_all add: u64_to_le_def u64_from_le_def le_nat_le_bytes unsigned_less [where w = "_ :: u64", simplified])

lemmas codec_lengths [simp] = u16_codec.length_enc u32_codec.length_enc u64_codec.length_enc
lemmas codec_inverse [simp] = u16_codec.dec_enc u32_codec.dec_enc u64_codec.dec_enc

lemma u32_zero_codec: "u32_to_le 0 = replicate 4 0" "u32_from_le (replicate 4 0) = 0"
  by (simp_all add: u32_to_le_def u32_from_le_def)

end
