(* ===== verification/Fs.thy ===== *)
theory Fs
  imports Prelude "HOL-Library.AList"
begin

text \<open>
  The file system as the queue code sees it, and \<^verbatim>\<open>src/src/core/mmap.rs\<close> on top of it.
  Directory entries name inodes and inodes hold bytes, so that a memory map keeps referring
  to its file when the entry is renamed or removed, and two maps of one file share its
  bytes. The operations fail as the state dictates (a missing file, an existing one, a short
  read); failures of the device itself are outside the model.
\<close>

section \<open>Directory entries and inodes\<close>

type_synonym path = "string list"
type_synonym inode = nat

record fs =
  fs_dirs :: "path list"
  fs_names :: "(path \<times> inode) list"
  fs_data :: "inode \<Rightarrow> bytes"
  fs_next :: inode

definition fs_empty :: fs where
  "fs_empty = \<lparr>fs_dirs = [[]], fs_names = [], fs_data = (\<lambda>_. []), fs_next = 0\<rparr>"

text \<open>A file system with one regular file in the root directory, for concrete examples.\<close>

definition single_file :: "string \<Rightarrow> bytes \<Rightarrow> fs" where
  "single_file name bs = \<lparr>fs_dirs = [[]], fs_names = [([name], 0)], fs_data = (\<lambda>_. bs), fs_next = 1\<rparr>"

definition lookup_path :: "fs \<Rightarrow> path \<Rightarrow> inode option" where
  "lookup_path s p = map_of (fs_names s) p"

definition is_dir :: "fs \<Rightarrow> path \<Rightarrow> bool" where
  "is_dir s p \<longleftrightarrow> p \<in> set (fs_dirs s)"

definition path_exists :: "fs \<Rightarrow> path \<Rightarrow> bool" where
  "path_exists s p \<longleftrightarrow> lookup_path s p \<noteq> None \<or> is_dir s p"

text \<open>\<open>read_dir\<close> lists the entries of a directory, each with whether it is a regular file.\<close>

definition read_dir :: "path \<Rightarrow> fs \<Rightarrow> (string \<times> bool) list" where
  "read_dir d s =
     map (\<lambda>(p, _). (last p, True)) (filter (\<lambda>(p, _). p \<noteq> [] \<and> butlast p = d) (fs_names s)) @
     map (\<lambda>p. (last p, False)) (filter (\<lambda>p. p \<noteq> [] \<and> butlast p = d) (fs_dirs s))"

definition fs_set :: "inode \<Rightarrow> bytes \<Rightarrow> fs \<Rightarrow> fs" where
  "fs_set i bs s = s\<lparr>fs_data := (fs_data s)(i := bs)\<rparr>"

definition fs_link :: "path \<Rightarrow> inode \<Rightarrow> fs \<Rightarrow> fs" where
  "fs_link p i s = s\<lparr>fs_names := AList.update p i (fs_names s)\<rparr>"

definition fs_unlink :: "path \<Rightarrow> fs \<Rightarrow> fs" where
  "fs_unlink p s = s\<lparr>fs_names := AList.delete p (fs_names s)\<rparr>"

text \<open>Creating a regular file that is not there yet: a fresh, empty inode.\<close>

definition fs_creat :: "path \<Rightarrow> fs \<Rightarrow> inode \<times> fs" where
  "fs_creat p s = (fs_next s, fs_set (fs_next s) [] (fs_link p (fs_next s) (s\<lparr>fs_next := Suc (fs_next s)\<rparr>)))"

definition create_dir_all :: "path \<Rightarrow> fs \<Rightarrow> fs" where
  "create_dir_all p s = s\<lparr>fs_dirs := fs_dirs s @ filter (\<lambda>d. \<not> is_dir s d) (map (\<lambda>n. take n p) [0..<Suc (length p)])\<rparr>"

text \<open>
  \<open>open_read\<close> opens an existing file; \<open>open_write\<close> is \<open>OpenOptions\<close> with \<open>create\<close> (and
  \<open>truncate\<close> when the flag is set); \<open>open_new\<close> is \<open>create_new\<close>. The directory of the file
  has to exist.
\<close>

definition open_read :: "path \<Rightarrow> (fs, inode) io" where
  "open_read p s = (case lookup_path s p of Some i \<Rightarrow> (Inr i, s) | None \<Rightarrow> (Inl (Io NotFound), s))"

definition open_write :: "path \<Rightarrow> bool \<Rightarrow> (fs, inode) io" where
  "open_write p trunc s =
     (case lookup_path s p of
        Some i \<Rightarrow> (Inr i, if trunc then fs_set i [] s else s)
      | None \<Rightarrow>
          if is_dir s (butlast p) then (let (i, s') = fs_creat p s in (Inr i, s'))
          else (Inl (Io NotFound), s))"

definition open_new :: "path \<Rightarrow> (fs, inode) io" where
  "open_new p s =
     (case lookup_path s p of
        Some i \<Rightarrow> (Inl (Io AlreadyExists), s)
      | None \<Rightarrow>
          if is_dir s (butlast p) then (let (i, s') = fs_creat p s in (Inr i, s'))
          else (Inl (Io NotFound), s))"

definition set_len :: "inode \<Rightarrow> nat \<Rightarrow> (fs, unit) io" where
  "set_len i n = modify (\<lambda>s. fs_set i (take n (fs_data s i) @ replicate (n - length (fs_data s i)) 0) s)"

definition write_at :: "inode \<Rightarrow> nat \<Rightarrow> bytes \<Rightarrow> (fs, unit) io" where
  "write_at i off bs = modify (\<lambda>s.
     fs_set i (bsplice (fs_data s i @ replicate (off + length bs - length (fs_data s i)) 0) off bs) s)"

text \<open>\<open>read_exact\<close> of \<open>n\<close> bytes at an offset: \<open>UnexpectedEof\<close> when the file is shorter.\<close>

definition read_exact :: "inode \<Rightarrow> nat \<Rightarrow> nat \<Rightarrow> (fs, bytes) io" where
  "read_exact i off n s =
     (if off + n \<le> length (fs_data s i) then (Inr (bslice (fs_data s i) off (off + n)), s)
      else (Inl (Io UnexpectedEof), s))"

definition remove_file :: "path \<Rightarrow> (fs, unit) io" where
  "remove_file p s =
     (case lookup_path s p of
        Some _ \<Rightarrow> (Inr (), fs_unlink p s)
      | None \<Rightarrow> (Inl (Io (if is_dir s p then OtherIo else NotFound)), s))"

text \<open>\<open>rename\<close> replaces an existing target; \<open>rename_noreplace\<close> is \<open>renameat2(RENAME_NOREPLACE)\<close>.\<close>

definition rename :: "path \<Rightarrow> path \<Rightarrow> (fs, unit) io" where
  "rename p q s =
     (case lookup_path s p of
        Some i \<Rightarrow> (Inr (), fs_link q i (fs_unlink p s))
      | None \<Rightarrow> (Inl (Io NotFound), s))"

definition rename_noreplace :: "path \<Rightarrow> path \<Rightarrow> (fs, unit) io" where
  "rename_noreplace p q s =
     (case lookup_path s p of
        None \<Rightarrow> (Inl (Io NotFound), s)
      | Some i \<Rightarrow> if path_exists s q then (Inl (Io AlreadyExists), s)
                  else (Inr (), fs_link q i (fs_unlink p s)))"

text \<open>
  An object that works on files is a record next to the file system (or a larger world);
  \<open>on_fs\<close> runs an operation of the world in such a pair and \<open>upd\<close> assigns fields of the object.
\<close>

definition on_fs :: "('s, 'a) io \<Rightarrow> ('w \<times> 's, 'a) io" where
  "on_fs m = (\<lambda>(w, s). case m s of (r, s') \<Rightarrow> (r, w, s'))"

definition upd :: "('w \<Rightarrow> 'w) \<Rightarrow> ('w \<times> 's, unit) io" where
  "upd f = (\<lambda>(w, s). (Inr (), f w, s))"

lemma bind_on_fs: "bind (on_fs m) f (w, s) = (case m s of (Inl e, s') \<Rightarrow> (Inl e, w, s') | (Inr x, s') \<Rightarrow> f x (w, s'))"
  by (simp add: bind_def on_fs_def split: prod.splits sum.splits)

lemma upd_apply [simp]: "upd f (w, s) = (Inr (), f w, s)"
  by (simp add: upd_def)

lemma bind_upd [simp]: "bind (upd g) f (w, s) = f () (g w, s)"
  by (simp add: bind_def upd_def)

section \<open>Memory-mapped files\<close>

text \<open>\<open>MmapFile\<close>: the mapped file and the length of the map.\<close>

record mmap_file =
  mm_ino :: inode
  mm_len :: nat

definition mmap_create :: "path \<Rightarrow> nat \<Rightarrow> (fs, mmap_file) io" where
  "mmap_create p len =
     (if len = 0 then fail (Unsupported ''mmap length must be non-zero'')
      else bind (open_write p True) (\<lambda>i.
           bind (set_len i len) (\<lambda>_.
           ret \<lparr>mm_ino = i, mm_len = len\<rparr>)))"

definition mmap_create_new :: "path \<Rightarrow> nat \<Rightarrow> (fs, mmap_file) io" where
  "mmap_create_new p len =
     (if len = 0 then fail (Unsupported ''mmap length must be non-zero'')
      else bind (open_new p) (\<lambda>i.
           bind (set_len i len) (\<lambda>_.
           ret \<lparr>mm_ino = i, mm_len = len\<rparr>)))"

definition mmap_open :: "path \<Rightarrow> (fs, mmap_file) io" where
  "mmap_open p =
     bind (open_read p) (\<lambda>i.
     bind (get (\<lambda>s. length (fs_data s i))) (\<lambda>len.
     if len = 0 then fail (Unsupported ''mmap length must be non-zero'')
     else ret \<lparr>mm_ino = i, mm_len = len\<rparr>))"

definition as_slice :: "mmap_file \<Rightarrow> fs \<Rightarrow> bytes" where
  "as_slice m s = take (mm_len m) (fs_data s (mm_ino m))"

definition mmap_range :: "mmap_file \<Rightarrow> nat \<Rightarrow> nat \<Rightarrow> (fs, bytes) io" where
  "mmap_range m off len =
     (case checked_add64 off len of
        None \<Rightarrow> fail (Corrupt ''range overflow'')
      | Some e \<Rightarrow> if e > mm_len m then fail (Corrupt ''range out of bounds'')
                  else get (\<lambda>s. bslice (as_slice m s) off e))"

text \<open>\<open>range_mut\<close> with the bytes then written to the returned slice.\<close>

definition mmap_store :: "mmap_file \<Rightarrow> nat \<Rightarrow> bytes \<Rightarrow> (fs, unit) io" where
  "mmap_store m off bs =
     (case checked_add64 off (length bs) of
        None \<Rightarrow> fail (Corrupt ''range overflow'')
      | Some e \<Rightarrow> if e > mm_len m then fail (Corrupt ''range out of bounds'')
                  else modify (\<lambda>s. fs_set (mm_ino m) (bsplice (fs_data s (mm_ino m)) off bs) s))"

section \<open>Reading back what was written\<close>

lemma fs_set_data [simp]: "fs_data (fs_set i bs s) = (fs_data s)(i := bs)"
  and fs_set_names [simp]: "fs_names (fs_set i bs s) = fs_names s"
  and fs_set_dirs [simp]: "fs_dirs (fs_set i bs s) = fs_dirs s"
  and fs_set_next [simp]: "fs_next (fs_set i bs s) = fs_next s"
  by (simp_all add: fs_set_def)

lemma fs_link_data [simp]: "fs_data (fs_link p i s) = fs_data s"
  and fs_link_dirs [simp]: "fs_dirs (fs_link p i s) = fs_dirs s"
  and fs_link_next [simp]: "fs_next (fs_link p i s) = fs_next s"
  by (simp_all add: fs_link_def)

lemma fs_unlink_data [simp]: "fs_data (fs_unlink p s) = fs_data s"
  and fs_unlink_dirs [simp]: "fs_dirs (fs_unlink p s) = fs_dirs s"
  and fs_unlink_next [simp]: "fs_next (fs_unlink p s) = fs_next s"
  by (simp_all add: fs_unlink_def)

lemma lookup_set [simp]: "lookup_path (fs_set i bs s) = lookup_path s"
  by (simp add: lookup_path_def fun_eq_iff)

lemma lookup_next [simp]: "lookup_path (s\<lparr>fs_next := n\<rparr>) = lookup_path s"
  by (simp add: lookup_path_def fun_eq_iff)

lemma lookup_link [simp]: "lookup_path (fs_link p i s) = (lookup_path s)(p \<mapsto> i)"
  by (simp add: lookup_path_def fs_link_def fun_eq_iff update_conv')

lemma lookup_unlink [simp]: "lookup_path (fs_unlink p s) = (lookup_path s)(p := None)"
  by (simp add: lookup_path_def fs_unlink_def fun_eq_iff delete_conv')

lemma is_dir_set [simp]: "is_dir (fs_set i bs s) = is_dir s"
  and is_dir_link [simp]: "is_dir (fs_link p i s) = is_dir s"
  and is_dir_unlink [simp]: "is_dir (fs_unlink p s) = is_dir s"
  and is_dir_next [simp]: "is_dir (s\<lparr>fs_next := n\<rparr>) = is_dir s"
  by (simp_all add: is_dir_def fun_eq_iff)

text \<open>
  Well-formed file systems: a path has one entry, every entry names an allocated inode and no
  two entries name the same one (the code never makes hard links).
\<close>

definition fs_wf :: "fs \<Rightarrow> bool" where
  "fs_wf s \<longleftrightarrow> distinct (map fst (fs_names s)) \<and> (\<forall>p i. lookup_path s p = Some i \<longrightarrow> i < fs_next s) \<and>
     (\<forall>p q i. lookup_path s p = Some i \<longrightarrow> lookup_path s q = Some i \<longrightarrow> p = q)"

lemma fs_wf_less: "fs_wf s \<Longrightarrow> lookup_path s p = Some i \<Longrightarrow> i < fs_next s"
  and fs_wf_inj: "fs_wf s \<Longrightarrow> lookup_path s p = Some i \<Longrightarrow> lookup_path s q = Some i \<Longrightarrow> p = q"
  by (simp_all add: fs_wf_def)

lemma names_distinct:
  "distinct (map fst (fs_names s)) \<Longrightarrow> distinct (map fst (fs_names (fs_link p i s)))"
  "distinct (map fst (fs_names s)) \<Longrightarrow> distinct (map fst (fs_names (fs_unlink p s)))"
  "distinct (map fst (fs_names s)) \<Longrightarrow> distinct (map fst (fs_names (fs_link p i (s\<lparr>fs_next := n\<rparr>))))"
  by (simp_all add: fs_link_def fs_unlink_def distinct_update distinct_delete)

lemma fs_wf_empty: "fs_wf fs_empty"
  by (simp add: fs_wf_def fs_empty_def lookup_path_def)

lemma fs_wf_set [simp]: "fs_wf (fs_set i bs s) = fs_wf s"
  by (simp add: fs_wf_def)

lemma fs_wf_unlink: "fs_wf s \<Longrightarrow> fs_wf (fs_unlink p s)"
  by (auto simp: fs_wf_def names_distinct split: if_splits)

lemma fs_wf_rename: "fs_wf s \<Longrightarrow> lookup_path s p = Some i \<Longrightarrow> fs_wf (fs_link q i (fs_unlink p s))"
  by (auto simp: fs_wf_def names_distinct split: if_splits)

lemma fs_wf_creat: "fs_wf s \<Longrightarrow> fs_wf (snd (fs_creat p s))"
  by (force simp: fs_wf_def fs_creat_def names_distinct split: if_splits)

lemma as_slice_set: "as_slice m (fs_set i bs s) = (if i = mm_ino m then take (mm_len m) bs else as_slice m s)"
  by (simp add: as_slice_def)

text \<open>A map whose file has the length of the map.\<close>

definition mm_ok :: "mmap_file \<Rightarrow> fs \<Rightarrow> bool" where
  "mm_ok m s \<longleftrightarrow> length (fs_data s (mm_ino m)) = mm_len m \<and> mm_len m \<le> u64_max"

lemma as_slice_ok: "mm_ok m s \<Longrightarrow> as_slice m s = fs_data s (mm_ino m)"
  by (simp add: mm_ok_def as_slice_def)

lemma mmap_range_ok:
  "mm_ok m s \<Longrightarrow> off + len \<le> mm_len m \<Longrightarrow>
   mmap_range m off len s = (Inr (bslice (fs_data s (mm_ino m)) off (off + len)), s)"
  by (simp add: mmap_range_def checked_add64_def mm_ok_def as_slice_ok io_simps)

lemma mmap_store_ok:
  "mm_ok m s \<Longrightarrow> off + length bs \<le> mm_len m \<Longrightarrow>
   mmap_store m off bs s = (Inr (), fs_set (mm_ino m) (bsplice (fs_data s (mm_ino m)) off bs) s)"
  by (simp add: mmap_store_def checked_add64_def mm_ok_def io_simps)

lemma mmap_create_spec:
  assumes "len \<noteq> 0" "is_dir s (butlast p)"
  shows "\<exists>i s'. mmap_create p len s = (Inr \<lparr>mm_ino = i, mm_len = len\<rparr>, s') \<and>
     lookup_path s' = (lookup_path s)(p \<mapsto> i) \<and> fs_data s' = (fs_data s)(i := replicate len 0) \<and>
     fs_dirs s' = fs_dirs s \<and> fs_next s' \<ge> fs_next s \<and> (fs_wf s \<longrightarrow> fs_wf s') \<and>
     i = (case lookup_path s p of Some j \<Rightarrow> j | None \<Rightarrow> fs_next s)"
proof (cases "lookup_path s p")
  case None
  with assms show ?thesis
    using fs_wf_creat [of s p]
    by (auto simp: mmap_create_def open_write_def fs_creat_def set_len_def io_simps Let_def)
next
  case (Some j)
  with assms show ?thesis
    by (auto simp: mmap_create_def open_write_def set_len_def io_simps)
qed

lemma mmap_open_spec:
  "mmap_open p s =
     (case lookup_path s p of
        None \<Rightarrow> (Inl (Io NotFound), s)
      | Some i \<Rightarrow>
          if fs_data s i = [] then (Inl (Unsupported ''mmap length must be non-zero''), s)
          else (Inr \<lparr>mm_ino = i, mm_len = length (fs_data s i)\<rparr>, s))"
  by (simp add: mmap_open_def open_read_def io_simps split: option.splits)

end
