(* ===== verification/Header.thy ===== *)
theory Header
  imports Fs
begin

unbundle bit_operations_syntax

text \<open>
  The message header of \<^verbatim>\<open>src/src/core/header.rs\<close>: 64 bytes in front of every payload,
  whose first word is the commit word, and the record length built from it. The CRC-32 of
  the crate \<open>crc32fast\<close> is a parameter \<open>crc\<close> of every definition that checks or stores a
  checksum. Atomic loads and stores of the commit word read and write four bytes in the
  byte order of a little-endian host.
\<close>

section \<open>Layout\<close>

abbreviation (input) HEADER_SIZE :: nat where "HEADER_SIZE \<equiv> 64"
abbreviation (input) RECORD_ALIGN :: nat where "RECORD_ALIGN \<equiv> 64"
abbreviation (input) MAX_PAYLOAD_LEN :: nat where "MAX_PAYLOAD_LEN \<equiv> 4294967294"
abbreviation (input) PAD_TYPE_ID :: u16 where "PAD_TYPE_ID \<equiv> 65535"
abbreviation (input) MSG_VERSION :: u8 where "MSG_VERSION \<equiv> 1"

type_synonym crc_fun = "bytes \<Rightarrow> u32"

record message_header =
  mh_commit_len :: u32
  mh_version :: u8
  mh_pad0 :: bytes
  mh_seq :: u64
  mh_timestamp_ns :: u64
  mh_type_id :: u16
  mh_flags :: u16
  mh_checksum :: u32
  mh_pad :: bytes

text \<open>The two padding fields are the arrays \<open>[u8; 3]\<close> and \<open>[u8; 32]\<close>.\<close>

definition mh_wf :: "message_header \<Rightarrow> bool" where
  "mh_wf h \<longleftrightarrow> length (mh_pad0 h) = 3 \<and> length (mh_pad h) = 32"

definition new_uncommitted :: "u64 \<Rightarrow> u64 \<Rightarrow> u16 \<Rightarrow> u16 \<Rightarrow> u32 \<Rightarrow> message_header" where
  "new_uncommitted seq timestamp_ns type_id flags checksum =
     \<lparr>mh_commit_len = 0, mh_version = MSG_VERSION, mh_pad0 = replicate 3 0, mh_seq = seq,
      mh_timestamp_ns = timestamp_ns, mh_type_id = type_id, mh_flags = flags,
      mh_checksum = checksum, mh_pad = replicate 32 0\<rparr>"

definition to_bytes :: "message_header \<Rightarrow> bytes" where
  "to_bytes h =
     (let buf = replicate 64 0;
          buf = bsplice buf 0 (u32_to_le (mh_commit_len h));
          buf = buf[4 := mh_version h];
          buf = bsplice buf 5 (mh_pad0 h);
          buf = bsplice buf 8 (u64_to_le (mh_seq h));
          buf = bsplice buf 16 (u64_to_le (mh_timestamp_ns h));
          buf = bsplice buf 24 (u16_to_le (mh_type_id h));
          buf = bsplice buf 26 (u16_to_le (mh_flags h));
          buf = bsplice buf 28 (u32_to_le (mh_checksum h))
      in bsplice buf 32 (mh_pad h))"

definition from_bytes :: "bytes \<Rightarrow> message_header result" where
  "from_bytes bs =
     (let commit_len = u32_from_le (bslice bs 0 4);
          version = bs ! 4
      in if version \<noteq> MSG_VERSION then Inl (UnsupportedVersion (ucast version))
         else Inr
           \<lparr>mh_commit_len = commit_len, mh_version = version, mh_pad0 = bslice bs 5 8,
            mh_seq = u64_from_le (bslice bs 8 16),
            mh_timestamp_ns = u64_from_le (bslice bs 16 24),
            mh_type_id = u16_from_le (bslice bs 24 26),
            mh_flags = u16_from_le (bslice bs 26 28),
            mh_checksum = u32_from_le (bslice bs 28 32), mh_pad = bslice bs 32 64\<rparr>)"

section \<open>The commit word\<close>

definition commit_len_for_payload :: "nat \<Rightarrow> u32 result" where
  "commit_len_for_payload payload_len =
     (if payload_len > MAX_PAYLOAD_LEN then Inl PayloadTooLarge
      else Inr (word_of_nat payload_len + 1))"

definition payload_len_from_commit :: "u32 \<Rightarrow> nat result" where
  "payload_len_from_commit commit_len =
     (if commit_len = 0 then Inl (Corrupt ''commit length is zero'')
      else Inr (unat (commit_len - 1)))"

definition load_commit_len :: "bytes \<Rightarrow> nat \<Rightarrow> u32" where
  "load_commit_len bs off = u32_from_le (bslice bs off (off + 4))"

definition store_commit_len :: "bytes \<Rightarrow> nat \<Rightarrow> u32 \<Rightarrow> bytes" where
  "store_commit_len bs off c = bsplice bs off (u32_to_le c)"

definition validate_crc :: "crc_fun \<Rightarrow> message_header \<Rightarrow> bytes \<Rightarrow> unit result" where
  "validate_crc crc h payload =
     (if crc payload = mh_checksum h then Inr () else Inl (Corrupt ''crc mismatch''))"

section \<open>Record alignment\<close>

text \<open>
  \<open>align_up\<close> on machine words, as the code computes it, and on natural numbers through it.
\<close>

definition align_up_word :: "u64 \<Rightarrow> u64 \<Rightarrow> u64" where
  "align_up_word v a = (if a = 0 then v else (v + a - 1) AND NOT (a - 1))"

definition align_up :: "nat \<Rightarrow> nat \<Rightarrow> nat" where
  "align_up v a = unat (align_up_word (word_of_nat v) (word_of_nat a))"

abbreviation record_len :: "nat \<Rightarrow> nat" where
  "record_len payload_len \<equiv> align_up (HEADER_SIZE + payload_len) RECORD_ALIGN"

lemma word_and_not_mask: "(x :: u64) AND NOT (mask n) = push_bit n (drop_bit n x)"
  by (rule bit_eqI) (auto simp: bit_simps)

lemma word_and_not_63: "(x :: u64) AND NOT 63 = push_bit 6 (drop_bit 6 x)"
proof -
  have "(63 :: u64) = mask 6" by (simp add: mask_eq_exp_minus_1)
  then show ?thesis by (simp only: word_and_not_mask)
qed

lemma unat_and_not_63: "unat ((x :: u64) AND NOT 63) = unat x div 64 * 64"
proof -
  have lt: "unat x div 64 * 64 < 2 ^ 64"
    using unat_word_less(4) [of x] by simp
  have "take_bit 64 (unat x) = unat x"
    using unat_word_less(4) [of x] by (simp add: take_bit_eq_mod)
  then have "unat (push_bit 6 (drop_bit 6 x)) = take_bit 64 (push_bit 6 (drop_bit 6 (unat x)))"
    by (simp add: unsigned_push_bit_eq unsigned_drop_bit_eq)
  also have "\<dots> = unat x div 64 * 64"
    using lt by (simp add: push_bit_eq_mult drop_bit_eq_div take_bit_eq_mod)
  finally show ?thesis by (simp only: word_and_not_63)
qed

lemma align_up_64: "v + 63 < 2 ^ 64 \<Longrightarrow> align_up v 64 = (v + 63) div 64 * 64"
proof -
  assume v: "v + 63 < 2 ^ 64"
  have "align_up_word (word_of_nat v) (word_of_nat 64) = word_of_nat (v + 63) AND NOT 63"
    by (simp add: align_up_word_def) (simp add: add.commute)
  moreover have "unat (word_of_nat (v + 63) :: u64) = v + 63"
    using v by (simp add: unat_of_nat del: of_nat_add)
  ultimately show ?thesis
    by (simp only: align_up_def unat_and_not_63)
qed

text \<open>The length of a record as the readers and writers compute it, for every payload.\<close>

lemma record_len_eq:
  assumes "n \<le> 4294967295"
  shows "record_len n = 64 + (n + 63) div 64 * 64"
proof -
  have "record_len n = (64 + (n + 63)) div 64 * 64"
    using align_up_64 [of "64 + n"] assms by (simp add: add.assoc)
  also have "\<dots> = (1 + (n + 63) div 64) * 64" by (subst div_add_self1) simp_all
  finally show ?thesis by simp
qed

lemma record_len_bounds:
  assumes "n \<le> 4294967295"
  shows "64 \<le> record_len n" "64 + n \<le> record_len n" "record_len n \<le> 127 + n"
    "64 dvd record_len n" "record_len n \<le> 4294967424"
  using assms by (simp_all add: record_len_eq)

lemma payload_len_bound: "payload_len_from_commit c = Inr n \<Longrightarrow> n \<le> MAX_PAYLOAD_LEN"
proof -
  assume a: "payload_len_from_commit c = Inr n"
  then have "c \<noteq> 0" and n: "n = unat (c - 1)"
    by (auto simp: payload_len_from_commit_def split: if_splits)
  then have "unat (c - 1) = unat c - 1" by (simp add: unat_minus_one)
  with n unat_word_less(3) [of c] show ?thesis by simp
qed

lemma commit_of_payload:
  assumes "n \<le> MAX_PAYLOAD_LEN"
  shows "commit_len_for_payload n = Inr (word_of_nat (Suc n))"
    and "(word_of_nat (Suc n) :: u32) \<noteq> 0"
    and "payload_len_from_commit (word_of_nat (Suc n)) = Inr n"
proof -
  have u: "unat (word_of_nat (Suc n) :: u32) = Suc n" using assms by (simp add: unat_of_nat del: of_nat_Suc)
  show "commit_len_for_payload n = Inr (word_of_nat (Suc n))"
    using assms by (simp add: commit_len_for_payload_def add.commute)
  show nz: "(word_of_nat (Suc n) :: u32) \<noteq> 0" using u by (metis nat.distinct(1) unsigned_0)
  show "payload_len_from_commit (word_of_nat (Suc n)) = Inr n"
    using nz u by (simp add: payload_len_from_commit_def unat_minus_one del: of_nat_Suc)
qed

section \<open>Header bytes\<close>

lemma length_to_bytes [simp]: "mh_wf h \<Longrightarrow> length (to_bytes h) = 64"
  by (simp add: to_bytes_def mh_wf_def)

lemma list_update_bsplice: "i < length bs \<Longrightarrow> bs[i := x] = bsplice bs i [x]"
  by (simp add: bsplice_def upd_conv_take_nth_drop)

lemma to_bytes_fields:
  assumes "mh_wf h"
  shows "bslice (to_bytes h) 0 4 = u32_to_le (mh_commit_len h)"
    and "to_bytes h ! 4 = mh_version h"
    and "bslice (to_bytes h) 5 8 = mh_pad0 h"
    and "bslice (to_bytes h) 8 16 = u64_to_le (mh_seq h)"
    and "bslice (to_bytes h) 16 24 = u64_to_le (mh_timestamp_ns h)"
    and "bslice (to_bytes h) 24 26 = u16_to_le (mh_type_id h)"
    and "bslice (to_bytes h) 26 28 = u16_to_le (mh_flags h)"
    and "bslice (to_bytes h) 28 32 = u32_to_le (mh_checksum h)"
    and "bslice (to_bytes h) 32 64 = mh_pad h"
  using assms
  by (simp_all add: to_bytes_def mh_wf_def list_update_bsplice bytes_simps nth_bsplice)

lemma header_round_trip:
  assumes "mh_wf h" "mh_version h = MSG_VERSION"
  shows "from_bytes (to_bytes h) = Inr h"
  using assms by (simp add: from_bytes_def to_bytes_fields)

text \<open>Two well-formed headers with the same bytes are equal, whatever their version.\<close>

lemma to_bytes_inject:
  assumes "mh_wf h" "mh_wf k" "to_bytes h = to_bytes k"
  shows "h = k"
  using to_bytes_fields [OF assms(1)] to_bytes_fields [OF assms(2)] assms(3)
  by (simp add: u16_codec.enc_inject u32_codec.enc_inject u64_codec.enc_inject)

end
