(* ===== verification/Records.thy ===== *)
theory Records
  imports Header
begin

text \<open>
  Committed records inside a segment, as all readers and writers see them: a message or a
  padding record at an offset, and chains of adjacent records. The predicates are about the
  bytes of a segment only; the code that walks, appends and repairs is related to them by
  the lemmas here.
\<close>

section \<open>Messages, padding and their bytes\<close>

text \<open>\<open>OwnedMessage\<close> (and the borrowed \<open>MessageView\<close>) of \<^verbatim>\<open>reader.rs\<close>.\<close>

record message =
  msg_seq :: u64
  msg_timestamp_ns :: u64
  msg_type_id :: u16
  msg_payload :: bytes

text \<open>The message that an append with these arguments stores.\<close>

abbreviation new_msg :: "u64 \<Rightarrow> u64 \<Rightarrow> u16 \<Rightarrow> bytes \<Rightarrow> message" where
  "new_msg seq timestamp_ns type_id payload \<equiv>
     \<lparr>msg_seq = seq, msg_timestamp_ns = timestamp_ns, msg_type_id = type_id, msg_payload = payload\<rparr>"

datatype entry = Msg message | Pad nat

fun entry_payload :: "entry \<Rightarrow> bytes" where
  "entry_payload (Msg m) = msg_payload m"
| "entry_payload (Pad n) = replicate n 0"

definition msg_header :: "crc_fun \<Rightarrow> message \<Rightarrow> message_header" where
  "msg_header crc m =
     new_uncommitted (msg_seq m) (msg_timestamp_ns m) (msg_type_id m) 0 (crc (msg_payload m))"

definition pad_header :: message_header where
  "pad_header = new_uncommitted 0 0 PAD_TYPE_ID 0 0"

fun entry_header :: "crc_fun \<Rightarrow> entry \<Rightarrow> message_header" where
  "entry_header crc (Msg m) = (msg_header crc m)\<lparr>mh_commit_len := word_of_nat (Suc (length (msg_payload m)))\<rparr>"
| "entry_header crc (Pad n) = pad_header\<lparr>mh_commit_len := word_of_nat (Suc n)\<rparr>"

definition entry_len :: "entry \<Rightarrow> nat" where
  "entry_len e = record_len (length (entry_payload e))"

definition entry_at :: "crc_fun \<Rightarrow> bytes \<Rightarrow> nat \<Rightarrow> entry \<Rightarrow> bool" where
  "entry_at crc bs off e \<longleftrightarrow>
     length (entry_payload e) \<le> MAX_PAYLOAD_LEN \<and> off + entry_len e \<le> length bs \<and>
     bslice bs off (off + 64) = to_bytes (entry_header crc e) \<and>
     bslice bs (off + 64) (off + 64 + length (entry_payload e)) = entry_payload e"

fun chain :: "crc_fun \<Rightarrow> bytes \<Rightarrow> nat \<Rightarrow> entry list \<Rightarrow> nat \<Rightarrow> bool" where
  "chain crc bs off [] e = (off = e)"
| "chain crc bs off (x # xs) e = (entry_at crc bs off x \<and> chain crc bs (off + entry_len x) xs e)"

fun messages :: "entry list \<Rightarrow> message list" where
  "messages [] = []"
| "messages (Msg m # es) = m # messages es"
| "messages (Pad n # es) = messages es"

lemma messages_append [simp]: "messages (xs @ ys) = messages xs @ messages ys"
  by (induction xs rule: messages.induct) simp_all

lemma messages_map_Msg [simp]: "messages (map Msg ms) = ms"
  by (induction ms) simp_all

text \<open>The part of a segment from an offset on holds nothing yet.\<close>

definition zeros_from :: "bytes \<Rightarrow> nat \<Rightarrow> bool" where
  "zeros_from bs off \<longleftrightarrow> drop off bs = replicate (length bs - off) 0"

section \<open>Facts about single records\<close>

lemma mh_wf_new [simp]: "mh_wf (new_uncommitted a b c d e)"
  by (simp add: mh_wf_def new_uncommitted_def)

lemma mh_wf_commit [simp]: "mh_wf (h\<lparr>mh_commit_len := c\<rparr>) = mh_wf h"
  by (simp add: mh_wf_def)

lemma mh_wf_msg_header [simp]: "mh_wf (msg_header crc m)"
  by (simp add: msg_header_def)

lemma mh_wf_pad_header [simp]: "mh_wf pad_header"
  by (simp add: pad_header_def)

lemma mh_wf_entry [simp]: "mh_wf (entry_header crc e)"
  by (cases e) simp_all

lemma entry_header_simps [simp]:
  "mh_version (entry_header crc e) = MSG_VERSION"
  "mh_commit_len (entry_header crc e) = word_of_nat (Suc (length (entry_payload e)))"
  by (cases e; simp add: msg_header_def pad_header_def new_uncommitted_def)+

lemma entry_len_bounds:
  assumes "length (entry_payload e) \<le> MAX_PAYLOAD_LEN"
  shows "64 \<le> entry_len e" "64 + length (entry_payload e) \<le> entry_len e" "64 dvd entry_len e"
  using assms record_len_bounds [of "length (entry_payload e)"] by (simp_all add: entry_len_def)

lemma bslice_join: "a \<le> b \<Longrightarrow> b \<le> c \<Longrightarrow> bslice bs a b @ bslice bs b c = bslice bs a c"
proof -
  assume "a \<le> b" "b \<le> c"
  then have "take (c - a) (drop a bs) = take (b - a) (drop a bs) @ take (c - a - (b - a)) (drop (b - a) (drop a bs))"
    by (metis diff_le_mono le_add_diff_inverse take_add)
  with \<open>a \<le> b\<close> \<open>b \<le> c\<close> show ?thesis by (simp add: bslice_def)
qed

lemma to_bytes_commit:
  assumes "mh_wf h"
  shows "bsplice (to_bytes h) 0 (u32_to_le c) = to_bytes (h\<lparr>mh_commit_len := c\<rparr>)"
proof -
  have split: "bs = bslice bs 0 4 @ [bs ! 4] @ bslice bs 5 8 @ bslice bs 8 16 @ bslice bs 16 24 @
      bslice bs 24 26 @ bslice bs 26 28 @ bslice bs 28 32 @ bslice bs 32 64"
    if "length bs = 64" for bs :: bytes
  proof -
    have "[bs ! 4] = bslice bs 4 5"
      using that by (simp add: bslice_def take_Suc_conv_app_nth hd_drop_conv_nth take_Suc)
    then show ?thesis using that by (simp add: bslice_join)
  qed
  let ?l = "bsplice (to_bytes h) 0 (u32_to_le c)" and ?r = "to_bytes (h\<lparr>mh_commit_len := c\<rparr>)"
  have "length ?l = 64" "length ?r = 64" using assms by simp_all
  moreover have "bslice ?l 0 4 = bslice ?r 0 4" "?l ! 4 = ?r ! 4" "bslice ?l 5 8 = bslice ?r 5 8"
    "bslice ?l 8 16 = bslice ?r 8 16" "bslice ?l 16 24 = bslice ?r 16 24"
    "bslice ?l 24 26 = bslice ?r 24 26" "bslice ?l 26 28 = bslice ?r 26 28"
    "bslice ?l 28 32 = bslice ?r 28 32" "bslice ?l 32 64 = bslice ?r 32 64"
    using assms by (simp_all add: bytes_simps nth_bsplice to_bytes_fields)
  ultimately show ?thesis using split [of ?l] split [of ?r] by argo
qed

lemma entry_at_commit:
  assumes "entry_at crc bs off e"
  shows "load_commit_len bs off = word_of_nat (Suc (length (entry_payload e)))"
proof -
  have "bslice bs off (off + 4) = bslice (bslice bs off (off + 64)) 0 4"
    by (simp add: bslice_of_slice)
  then show ?thesis
    using assms by (simp add: load_commit_len_def entry_at_def to_bytes_fields)
qed

lemma entry_at_header:
  assumes "entry_at crc bs off e"
  shows "from_bytes (bslice bs off (off + 64)) = Inr (entry_header crc e)"
  using assms by (simp add: entry_at_def header_round_trip)

lemma entry_at_cong:
  assumes "take n bs = take n bs'" "length bs = length bs'" "off + entry_len e \<le> n"
  shows "entry_at crc bs off e = entry_at crc bs' off e"
proof (cases "length (entry_payload e) \<le> MAX_PAYLOAD_LEN")
  case True
  note b = entry_len_bounds [OF True]
  have "bslice bs off (off + 64) = bslice bs' off (off + 64)"
    using assms b by (intro bslice_eq_of_take [OF assms(1)]) linarith
  moreover have "bslice bs (off + 64) (off + 64 + length (entry_payload e)) =
      bslice bs' (off + 64) (off + 64 + length (entry_payload e))"
    using assms b by (intro bslice_eq_of_take [OF assms(1)]) linarith
  ultimately show ?thesis using assms(2) by (simp add: entry_at_def)
qed (simp add: entry_at_def)

section \<open>Facts about chains\<close>

lemma chain_le: "chain crc bs off es e \<Longrightarrow> off \<le> e"
  by (induction es arbitrary: off) (auto, fastforce)

lemma chain_bound: "chain crc bs off es e \<Longrightarrow> off \<le> length bs \<Longrightarrow> e \<le> length bs"
  by (induction es arbitrary: off) (auto simp: entry_at_def)

lemma chain_append:
  "chain crc bs off (xs @ ys) e \<longleftrightarrow> (\<exists>m. chain crc bs off xs m \<and> chain crc bs m ys e)"
  by (induction xs arbitrary: off) auto

abbreviation entries_len :: "entry list \<Rightarrow> nat" where
  "entries_len es \<equiv> sum_list (map entry_len es)"

lemma chain_end: "chain crc bs off es e \<Longrightarrow> e = off + entries_len es"
  by (induction es arbitrary: off) (fastforce+)

lemma chain_cong:
  assumes "take e bs = take e bs'" "length bs = length bs'"
  shows "chain crc bs off es e \<longleftrightarrow> chain crc bs' off es e"
proof (induction es arbitrary: off)
  case (Cons x xs)
  show ?case
  proof (cases "off + entry_len x \<le> e")
    case True
    then show ?thesis using Cons assms by (simp add: entry_at_cong [OF assms])
  next
    case False
    then have "\<not> chain crc bs (off + entry_len x) xs e" "\<not> chain crc bs' (off + entry_len x) xs e"
      using chain_le by blast+
    then show ?thesis by simp
  qed
qed simp

lemma chain_aligned: "chain crc bs off es e \<Longrightarrow> 64 dvd off \<Longrightarrow> 64 dvd e"
proof (induction es arbitrary: off)
  case (Cons x xs)
  then have "64 dvd entry_len x" using entry_len_bounds(3) [of x] by (simp add: entry_at_def)
  with Cons.prems have "64 dvd off + entry_len x" by simp
  with Cons.prems Cons.IH [of "off + entry_len x"] show ?case by simp
qed simp

lemma chain_length: "chain crc bs off es e \<Longrightarrow> off + 64 * length es \<le> e"
proof (induction es arbitrary: off)
  case (Cons x xs)
  then have "64 \<le> entry_len x" using entry_len_bounds(1) [of x] by (simp add: entry_at_def)
  moreover have "off + entry_len x + 64 * length xs \<le> e" using Cons by simp
  ultimately show ?case by simp
qed simp

section \<open>Writing one record\<close>

text \<open>
  The bytes of a segment after the writers' sequence of stores for one message: the payload,
  the header with a zero commit word, then the commit word.
\<close>

definition put_record :: "crc_fun \<Rightarrow> bytes \<Rightarrow> nat \<Rightarrow> message \<Rightarrow> bytes" where
  "put_record crc bs off m =
     store_commit_len
       (bsplice (bsplice bs (off + 64) (msg_payload m)) off (to_bytes (msg_header crc m)))
       off (word_of_nat (Suc (length (msg_payload m))))"

lemma zeros_fromI: "(\<And>i. off \<le> i \<Longrightarrow> i < length bs \<Longrightarrow> bs ! i = 0) \<Longrightarrow> zeros_from bs off"
  by (auto simp: zeros_from_def intro!: nth_equalityI)

lemma zeros_fromD:
  assumes "zeros_from bs off" "off \<le> i" "i < length bs"
  shows "bs ! i = 0"
proof -
  have "bs ! i = drop off bs ! (i - off)" using assms(2,3) by simp
  also have "\<dots> = 0" using assms by (simp add: zeros_from_def)
  finally show ?thesis .
qed

lemma zeros_from_mono: "zeros_from bs a \<Longrightarrow> a \<le> b \<Longrightarrow> zeros_from bs b"
  by (rule zeros_fromI) (simp add: zeros_fromD)

lemma zeros_from_slice:
  assumes "zeros_from bs off" "off \<le> a" "b \<le> length bs"
  shows "bslice bs a b = replicate (b - a) 0"
  using assms by (intro nth_equalityI) (auto simp: nth_bslice zeros_fromD)

lemma zeros_from_commit:
  assumes "zeros_from bs off" "off \<le> a" "a + 4 \<le> length bs"
  shows "load_commit_len bs a = 0"
  using zeros_from_slice [OF assms] by (simp add: load_commit_len_def u32_zero_codec)

lemma put_record_length:
  assumes "off + 64 + length (msg_payload m) \<le> length bs"
  shows "length (put_record crc bs off m) = length bs"
  using assms by (simp add: put_record_def store_commit_len_def)

lemma put_record_take:
  assumes "off + 64 + length (msg_payload m) \<le> length bs"
  shows "take off (put_record crc bs off m) = take off bs"
  using assms by (simp add: put_record_def store_commit_len_def take_bsplice)

lemma bsplice_inner:
  assumes "a + length xs \<le> length bs" "length ys \<le> length xs"
  shows "bsplice (bsplice bs a xs) a ys = bsplice bs a (bsplice xs 0 ys)"
  using assms by (simp add: bsplice_def)

lemma put_record_eq:
  assumes "off + 64 + length (msg_payload m) \<le> length bs"
  shows "put_record crc bs off m =
    bsplice (bsplice bs (off + 64) (msg_payload m)) off (to_bytes (entry_header crc (Msg m)))"
  using assms by (simp add: put_record_def store_commit_len_def bsplice_inner to_bytes_commit)

lemma put_record_zeros:
  assumes "off + 64 + length (msg_payload m) \<le> length bs" "zeros_from bs off"
  shows "zeros_from (put_record crc bs off m) (off + 64 + length (msg_payload m))"
  using assms put_record_length [OF assms(1), of crc]
  by (intro zeros_fromI) (simp add: put_record_eq nth_bsplice zeros_fromD)

lemma put_record_entry:
  assumes "length (msg_payload m) \<le> MAX_PAYLOAD_LEN" "off + entry_len (Msg m) \<le> length bs"
  shows "entry_at crc (put_record crc bs off m) off (Msg m)"
proof -
  have le: "off + 64 + length (msg_payload m) \<le> length bs"
    using entry_len_bounds(2) [of "Msg m"] assms by simp
  then show ?thesis
    using assms put_record_length [OF le, of crc]
    by (simp add: entry_at_def put_record_eq bytes_simps)
qed

lemma put_record_chain:
  assumes "chain crc bs 64 es off" "64 \<le> length bs"
    and "length (msg_payload m) \<le> MAX_PAYLOAD_LEN" "off + entry_len (Msg m) \<le> length bs"
  shows "chain crc (put_record crc bs off m) 64 (es @ [Msg m]) (off + entry_len (Msg m))"
proof -
  have le: "off + 64 + length (msg_payload m) \<le> length bs"
    using entry_len_bounds(2) [of "Msg m"] assms by simp
  have "chain crc (put_record crc bs off m) 64 es off"
    using assms(1) chain_cong [OF put_record_take [OF le, of crc] put_record_length [OF le, of crc]] by simp
  then show ?thesis using put_record_entry [OF assms(3,4)] by (auto simp: chain_append)
qed

end
