(* ===== verification/Names.thy ===== *)
theory Names
  imports Fs
begin

text \<open>
  File names of a queue directory: the formatting functions of \<^verbatim>\<open>core/segment.rs\<close>,
  \<^verbatim>\<open>core/segment_store.rs\<close> and \<^verbatim>\<open>core/seek_index.rs\<close>, the three parsers the code has for
  segment names, and the directory scans built on them. A name is its list of bytes.
\<close>

section \<open>Decimal numbers\<close>

definition digit_char :: "nat \<Rightarrow> char" where
  "digit_char d = char_of (48 + d)"

definition is_ascii_digit :: "char \<Rightarrow> bool" where
  "is_ascii_digit c \<longleftrightarrow> 48 \<le> (of_char c :: nat) \<and> (of_char c :: nat) \<le> 57"

fun dec_digits :: "nat \<Rightarrow> string" where
  "dec_digits n = (if n < 10 then [digit_char n] else dec_digits (n div 10) @ [digit_char (n mod 10)])"

declare dec_digits.simps [simp del]

text \<open>\<open>format!("{:09}", n)\<close>: at least nine digits, filled with zeros.\<close>

definition fmt09 :: "nat \<Rightarrow> string" where
  "fmt09 n = (let ds = dec_digits n in replicate (9 - length ds) (digit_char 0) @ ds)"

fun dec_value :: "nat \<Rightarrow> string \<Rightarrow> nat option" where
  "dec_value acc [] = Some acc"
| "dec_value acc (c # cs) =
     (if is_ascii_digit c then dec_value (acc * 10 + (of_char c - 48)) cs else None)"

text \<open>\<open>str::parse::<u64>\<close>: an optional plus sign, then digits; an error when the value does not fit.\<close>

definition parse_u64 :: "string \<Rightarrow> nat option" where
  "parse_u64 s =
     (let ds = (case s of [] \<Rightarrow> [] | c # r \<Rightarrow> if c = CHR ''+'' then r else s)
      in if ds = [] then None
         else case dec_value 0 ds of
                None \<Rightarrow> None
              | Some n \<Rightarrow> if n \<le> u64_max then Some n else None)"

definition ends_with :: "string \<Rightarrow> string \<Rightarrow> bool" where
  "ends_with s suf \<longleftrightarrow> length suf \<le> length s \<and> drop (length s - length suf) s = suf"

definition strip_suffix :: "string \<Rightarrow> string \<Rightarrow> string option" where
  "strip_suffix s suf = (if ends_with s suf then Some (take (length s - length suf) s) else None)"

section \<open>Segment and index names\<close>

definition segment_filename :: "nat \<Rightarrow> string" where
  "segment_filename i = fmt09 i @ ''.q''"

definition segment_temp_filename :: "nat \<Rightarrow> string" where
  "segment_temp_filename i = fmt09 i @ ''.q.tmp''"

definition index_filename :: "nat \<Rightarrow> string" where
  "index_filename i = fmt09 i @ ''.idx''"

definition segment_path :: "path \<Rightarrow> nat \<Rightarrow> path" where
  "segment_path root i = root @ [segment_filename i]"

definition segment_temp_path :: "path \<Rightarrow> nat \<Rightarrow> path" where
  "segment_temp_path root i = root @ [segment_temp_filename i]"

definition index_path :: "path \<Rightarrow> nat \<Rightarrow> path" where
  "index_path root i = root @ [index_filename i]"

text \<open>\<open>parse_segment_filename\<close> of \<^verbatim>\<open>segment_store.rs\<close>: exactly nine digits and \<open>.q\<close>.\<close>

definition parse_segment_filename :: "string \<Rightarrow> nat option" where
  "parse_segment_filename name =
     (if \<not> ends_with name ''.q'' \<or> ends_with name ''.q.tmp'' then None
      else case strip_suffix name ''.q'' of
             None \<Rightarrow> None
           | Some base \<Rightarrow>
               if length base \<noteq> 9 then None
               else if \<not> list_all is_ascii_digit base then None
               else parse_u64 base)"

text \<open>
  The test that \<open>list_segments\<close> and \<open>find_oldest_segment\<close> of \<^verbatim>\<open>reader.rs\<close> write inline, and
  \<open>parse_segment_id\<close> of \<^verbatim>\<open>retention.rs\<close>, which accepts any number of digits.
\<close>

definition reader_segment_id :: "string \<Rightarrow> nat option" where
  "reader_segment_id name =
     (if ends_with name ''.q'' \<and> length name = 11 then parse_u64 (take 9 name) else None)"

definition parse_segment_id :: "string \<Rightarrow> nat option" where
  "parse_segment_id name =
     (case strip_suffix name ''.q'' of
        None \<Rightarrow> None
      | Some stem \<Rightarrow> if stem = [] then None else parse_u64 stem)"

section \<open>Directory scans\<close>

definition discover_segments :: "path \<Rightarrow> (fs, nat list) io" where
  "discover_segments dir =
     get (\<lambda>s. if \<not> path_exists s dir then []
              else sort (List.map_filter (\<lambda>(name, is_file). if is_file then parse_segment_filename name else None)
                          (read_dir dir s)))"

definition next_segment_id :: "path \<Rightarrow> (fs, nat) io" where
  "next_segment_id dir =
     bind (discover_segments dir) (\<lambda>segments.
     ret (if segments = [] then 0 else sat_add64 (last segments) 1))"

definition list_segments :: "path \<Rightarrow> (fs, nat list) io" where
  "list_segments dir s =
     (if \<not> is_dir s dir then (Inl (Io NotFound), s)
      else (Inr (sort (List.map_filter (\<lambda>(name, _). reader_segment_id name) (read_dir dir s))), s))"

definition find_oldest_segment :: "path \<Rightarrow> (fs, nat) io" where
  "find_oldest_segment dir s =
     (if \<not> is_dir s dir then (Inl (Io NotFound), s)
      else case List.map_filter (\<lambda>(name, _). reader_segment_id name) (read_dir dir s) of
             [] \<Rightarrow> (Inl (Corrupt ''no segments found''), s)
           | i # is \<Rightarrow> (Inr (fold min is i), s))"

section \<open>Formatting and parsing are inverse\<close>

lemma digit_char [simp]: "d < 10 \<Longrightarrow> is_ascii_digit (digit_char d)"
  "d < 10 \<Longrightarrow> (of_char (digit_char d) :: nat) = 48 + d"
  by (simp_all add: digit_char_def is_ascii_digit_def)

lemma dec_value_append:
  "dec_value acc (xs @ ys) = (case dec_value acc xs of None \<Rightarrow> None | Some a \<Rightarrow> dec_value a ys)"
  by (induction xs arbitrary: acc) simp_all

lemma dec_digits_ascii: "list_all is_ascii_digit (dec_digits n)"
  by (induction n rule: dec_digits.induct) (subst dec_digits.simps, simp)

lemma dec_digits_nonempty [simp]: "dec_digits n \<noteq> []"
  by (subst dec_digits.simps) simp

lemma dec_value_digits: "dec_value 0 (dec_digits n) = Some n"
proof (induction n rule: dec_digits.induct)
  case (1 n)
  then show ?case
    by (subst dec_digits.simps) (simp add: dec_value_append)
qed

lemma dec_value_zeros: "dec_value 0 (replicate k (digit_char 0) @ ds) = dec_value 0 ds"
  by (induction k) simp_all

lemma length_dec_digits: "0 < k \<Longrightarrow> n < 10 ^ k \<Longrightarrow> length (dec_digits n) \<le> k"
proof (induction k arbitrary: n)
  case (Suc k)
  show ?case
  proof (cases "n < 10")
    case True
    then show ?thesis by (subst dec_digits.simps) simp
  next
    case False
    with Suc.prems have "0 < k" by (cases k) auto
    moreover have "n div 10 < 10 ^ k" using Suc.prems by (simp add: less_mult_imp_div_less mult.commute)
    ultimately have "length (dec_digits (n div 10)) \<le> k" by (rule Suc.IH)
    with False show ?thesis by (subst dec_digits.simps) simp
  qed
qed simp

lemma length_dec_digits_ge: "10 ^ k \<le> n \<Longrightarrow> k < length (dec_digits n)"
proof (induction k arbitrary: n)
  case (Suc k)
  then have "10 ^ k \<le> n div 10" by (simp add: less_eq_div_iff_mult_less_eq mult.commute)
  then have "k < length (dec_digits (n div 10))" by (rule Suc.IH)
  moreover have "\<not> n < 10"
  proof -
    have "(1 :: nat) \<le> 10 ^ k" by simp
    moreover have "10 * 10 ^ k \<le> n" using Suc.prems by simp
    ultimately have "10 \<le> n" by linarith
    then show ?thesis by simp
  qed
  ultimately show ?case by (subst dec_digits.simps) simp
qed simp

lemma length_fmt09: "n < 1000000000 \<Longrightarrow> length (fmt09 n) = 9"
  using length_dec_digits [of 9 n] by (simp add: fmt09_def Let_def)

lemma length_fmt09_ge: "1000000000 \<le> n \<Longrightarrow> 10 \<le> length (fmt09 n)"
  using length_dec_digits_ge [of 9 n] by (simp add: fmt09_def Let_def)

lemma dec_value_fmt09: "dec_value 0 (fmt09 n) = Some n"
  by (simp add: fmt09_def Let_def dec_value_zeros dec_value_digits)

lemma fmt09_ascii: "list_all is_ascii_digit (fmt09 n)"
  by (simp add: fmt09_def Let_def dec_digits_ascii) (simp add: list_all_iff)

lemma fmt09_nonempty [simp]: "fmt09 n \<noteq> []"
  by (simp add: fmt09_def Let_def)

lemma parse_u64_digits:
  assumes "list_all is_ascii_digit s" "s \<noteq> []" "dec_value 0 s = Some n" "n \<le> u64_max"
  shows "parse_u64 s = Some n"
proof -
  obtain c r where s: "s = c # r" using assms(2) by (cases s) auto
  with assms(1) have "c \<noteq> CHR ''+''" by (auto simp: is_ascii_digit_def)
  with s assms show ?thesis by (simp add: parse_u64_def)
qed

lemma parse_u64_fmt09: "n \<le> u64_max \<Longrightarrow> parse_u64 (fmt09 n) = Some n"
  by (rule parse_u64_digits) (simp_all add: fmt09_ascii dec_value_fmt09)

lemma fmt09_inject: "fmt09 m = fmt09 n \<longleftrightarrow> m = n"
  by (metis dec_value_fmt09 option.inject)

lemma ends_with_append [simp]: "ends_with (s @ suf) suf"
  by (simp add: ends_with_def)

lemma strip_suffix_append [simp]: "strip_suffix (s @ suf) suf = Some s"
  by (simp add: strip_suffix_def)

lemma segment_filename_inject [simp]: "segment_filename m = segment_filename n \<longleftrightarrow> m = n"
  by (simp add: segment_filename_def fmt09_inject)

lemma segment_path_inject [simp]: "segment_path root m = segment_path root n \<longleftrightarrow> m = n"
  by (simp add: segment_path_def)

lemma butlast_segment_path [simp]: "butlast (segment_path root i) = root"
  by (simp add: segment_path_def)

lemma butlast_segment_temp_path [simp]: "butlast (segment_temp_path root i) = root"
  by (simp add: segment_temp_path_def)

lemma ends_with_last: "ends_with s suf \<Longrightarrow> suf \<noteq> [] \<Longrightarrow> last s = last suf"
  by (metis append_take_drop_id ends_with_def last_appendR)

lemma segment_filename_not_tmp [simp]: "\<not> ends_with (segment_filename i) ''.q.tmp''"
  using ends_with_last [of "segment_filename i" "''.q.tmp''"] by (auto simp: segment_filename_def)

lemma segment_temp_not_q [simp]: "\<not> ends_with (segment_temp_filename i) ''.q''"
  using ends_with_last [of "segment_temp_filename i" "''.q''"] by (auto simp: segment_temp_filename_def)

lemma segment_index_not_q [simp]: "\<not> ends_with (index_filename i) ''.q''"
  using ends_with_last [of "index_filename i" "''.q''"] by (auto simp: index_filename_def)

lemma filenames_distinct [simp]:
  "segment_filename i \<noteq> segment_temp_filename j" "segment_temp_filename j \<noteq> segment_filename i"
  "segment_filename i \<noteq> index_filename j" "index_filename j \<noteq> segment_filename i"
  by (metis segment_filename_not_tmp segment_temp_filename_def ends_with_append append.assoc
      segment_temp_not_q segment_filename_def segment_index_not_q)+

lemma paths_distinct [simp]:
  "segment_path root i \<noteq> segment_temp_path root j" "segment_temp_path root j \<noteq> segment_path root i"
  "segment_path root i \<noteq> index_path root j" "index_path root j \<noteq> segment_path root i"
  by (simp_all add: segment_path_def segment_temp_path_def index_path_def)

lemma temp_index_distinct [simp]: "segment_temp_path root j \<noteq> index_path root i" "index_path root i \<noteq> segment_temp_path root j"
proof -
  have "last (segment_temp_filename j) \<noteq> last (index_filename i)" by (simp add: segment_temp_filename_def index_filename_def)
  then show "segment_temp_path root j \<noteq> index_path root i" "index_path root i \<noteq> segment_temp_path root j"
    by (auto simp: segment_temp_path_def index_path_def)
qed

lemma not_segment_path: "last name \<noteq> CHR ''q'' \<Longrightarrow> root @ [name] \<noteq> segment_path root i"
  by (auto simp: segment_path_def segment_filename_def)

lemma parse_segment_filename_eq:
  "parse_segment_filename (segment_filename i) = (if i < 1000000000 then Some i else None)"
proof (cases "i < 1000000000")
  case True
  then show ?thesis
    by (simp add: parse_segment_filename_def) (simp add: segment_filename_def length_fmt09 fmt09_ascii parse_u64_fmt09)
next
  case False
  then have "length (fmt09 i) \<noteq> 9" using length_fmt09_ge [of i] by simp
  with False show ?thesis
    by (simp add: parse_segment_filename_def) (simp add: segment_filename_def)
qed

lemma reader_segment_id_eq:
  "reader_segment_id (segment_filename i) = (if i < 1000000000 then Some i else None)"
proof (cases "i < 1000000000")
  case True
  then show ?thesis
    by (simp add: reader_segment_id_def segment_filename_def length_fmt09 parse_u64_fmt09)
next
  case False
  then show ?thesis
    using length_fmt09_ge [of i] by (simp add: reader_segment_id_def segment_filename_def)
qed

lemma parse_segment_id_eq: "i \<le> u64_max \<Longrightarrow> parse_segment_id (segment_filename i) = Some i"
  by (simp add: parse_segment_id_def segment_filename_def parse_u64_fmt09)

lemma parse_temp_filename [simp]: "parse_segment_filename (segment_temp_filename i) = None"
  by (simp add: parse_segment_filename_def)

text \<open>A name the strict parser accepts is the name of the segment it returns.\<close>

lemma dec_value_all_digits: "dec_value acc s = Some n \<Longrightarrow> list_all is_ascii_digit s"
  by (induction s arbitrary: acc) (auto split: if_splits)

lemma dec_value_bounds:
  "dec_value acc s = Some n \<Longrightarrow> acc * 10 ^ length s \<le> n \<and> n < (acc + 1) * 10 ^ length s"
proof (induction s arbitrary: acc)
  case (Cons c cs)
  then have d: "is_ascii_digit c" and v: "dec_value (acc * 10 + (of_char c - 48)) cs = Some n"
    by (auto split: if_splits)
  from d have le: "of_char c - 48 \<le> (9 :: nat)" unfolding is_ascii_digit_def by linarith
  let ?a = "acc * 10 + (of_char c - 48)"
  have "?a * 10 ^ length cs \<le> n \<and> n < (?a + 1) * 10 ^ length cs" by (rule Cons.IH [OF v])
  moreover have "acc * 10 * 10 ^ length cs \<le> ?a * 10 ^ length cs" by simp
  moreover have "(?a + 1) * 10 ^ length cs \<le> (acc * 10 + 10) * 10 ^ length cs"
    using le by (intro mult_le_mono1) simp
  ultimately show ?case by (simp add: algebra_simps)
qed simp

lemma dec_value_unique:
  "length s = length t \<Longrightarrow> dec_value 0 s = Some n \<Longrightarrow> dec_value 0 t = Some n \<Longrightarrow> s = t"
proof (induction s arbitrary: t n rule: rev_induct)
  case (snoc c cs)
  then obtain c' cs' where t: "t = cs' @ [c']" by (metis append_butlast_last_id length_greater_0_conv snoc_eq_iff_butlast)
  from snoc.prems t obtain a a' where
    a: "dec_value 0 cs = Some a" "dec_value a [c] = Some n" and
    a': "dec_value 0 cs' = Some a'" "dec_value a' [c'] = Some n"
    by (auto simp: dec_value_append split: option.splits)
  from a(2) have c: "48 \<le> (of_char c :: nat)" "(of_char c :: nat) \<le> 57" "n = a * 10 + (of_char c - 48)"
    by (auto simp: is_ascii_digit_def split: if_splits)
  from a'(2) have c': "48 \<le> (of_char c' :: nat)" "(of_char c' :: nat) \<le> 57" "n = a' * 10 + (of_char c' - 48)"
    by (auto simp: is_ascii_digit_def split: if_splits)
  from c c' have "a = a'" "(of_char c :: nat) = of_char c'" by arith+
  with snoc a a' t show ?case by simp
qed simp

lemma parse_u64_no_plus:
  "list_all is_ascii_digit s \<Longrightarrow> parse_u64 s = Some n \<Longrightarrow> dec_value 0 s = Some n"
  by (auto simp: parse_u64_def is_ascii_digit_def split: list.splits if_splits option.splits)

lemma strip_suffix_eq: "strip_suffix s suf = Some b \<Longrightarrow> s = b @ suf"
  by (metis append_take_drop_id ends_with_def option.distinct(1) option.inject strip_suffix_def)

lemma parse_segment_filename_sound:
  assumes "parse_segment_filename name = Some i"
  shows "name = segment_filename i"
proof -
  from assms obtain base where b: "strip_suffix name ''.q'' = Some base" "length base = 9"
    "list_all is_ascii_digit base" "parse_u64 base = Some i"
    by (auto simp: parse_segment_filename_def split: if_splits option.splits)
  from b have v: "dec_value 0 base = Some i" by (simp add: parse_u64_no_plus)
  with b(2) have "i < 1000000000" using dec_value_bounds [of 0 base i] by simp
  then have "length base = length (fmt09 i)" using b(2) by (simp add: length_fmt09)
  then have "base = fmt09 i" using v dec_value_fmt09 by (rule dec_value_unique)
  with strip_suffix_eq [OF b(1)] show ?thesis by (simp add: segment_filename_def)
qed

end
