(* ===== verification/Segment.thy ===== *)
theory Segment
  imports Records Names
begin

text \<open>
  \<^verbatim>\<open>src/src/core/segment.rs\<close>: segment headers, and creating, opening, sealing and repairing
  segment files. (Its metadata files are in \<open>Reader_Meta\<close>.)
\<close>

abbreviation (input) SEG_HEADER_SIZE :: nat where "SEG_HEADER_SIZE \<equiv> 64"
abbreviation (input) SEG_DATA_OFFSET :: nat where "SEG_DATA_OFFSET \<equiv> 64"
abbreviation (input) SEG_MAGIC :: u32 where "SEG_MAGIC \<equiv> 0x53454730"
abbreviation (input) SEG_VERSION :: u32 where "SEG_VERSION \<equiv> 2"
abbreviation (input) SEG_FLAG_SEALED :: u32 where "SEG_FLAG_SEALED \<equiv> 1"
abbreviation (input) DEFAULT_SEGMENT_SIZE :: nat where "DEFAULT_SEGMENT_SIZE \<equiv> 134217728"

section \<open>Segment headers\<close>

record segment_header =
  sh_magic :: u32
  sh_version :: u32
  sh_segment_id :: u32
  sh_flags :: u32
  sh_pad :: bytes

definition read_segment_header :: "mmap_file \<Rightarrow> (fs, segment_header) io" where
  "read_segment_header m =
     (if mm_len m < SEG_HEADER_SIZE then fail (Corrupt ''segment too small for header'')
      else bind (get (\<lambda>s. bslice (as_slice m s) 0 SEG_HEADER_SIZE)) (\<lambda>buf.
        let magic = u32_from_le (bslice buf 0 4);
            version = u32_from_le (bslice buf 4 8);
            segment_id = u32_from_le (bslice buf 8 12);
            flags = u32_from_le (bslice buf 12 16)
        in if magic \<noteq> SEG_MAGIC then fail (Corrupt ''segment magic mismatch'')
           else if version \<noteq> SEG_VERSION then fail (UnsupportedVersion version)
           else ret \<lparr>sh_magic = magic, sh_version = version, sh_segment_id = segment_id,
                     sh_flags = flags, sh_pad = replicate 48 0\<rparr>))"

definition segment_header_bytes :: "u32 \<Rightarrow> u32 \<Rightarrow> bytes" where
  "segment_header_bytes segment_id flags =
     (let buf = replicate 64 0;
          buf = bsplice buf 0 (u32_to_le SEG_MAGIC);
          buf = bsplice buf 4 (u32_to_le SEG_VERSION);
          buf = bsplice buf 8 (u32_to_le segment_id)
      in bsplice buf 12 (u32_to_le flags))"

definition write_segment_header :: "mmap_file \<Rightarrow> u32 \<Rightarrow> u32 \<Rightarrow> (fs, unit) io" where
  "write_segment_header m segment_id flags =
     (if mm_len m < SEG_HEADER_SIZE then fail (Corrupt ''segment too small for header'')
      else mmap_store m 0 (segment_header_bytes segment_id flags))"

definition seal_segment :: "mmap_file \<Rightarrow> (fs, unit) io" where
  "seal_segment m =
     bind (read_segment_header m) (\<lambda>header.
     if sh_flags header AND SEG_FLAG_SEALED \<noteq> 0 then ret ()
     else write_segment_header m (sh_segment_id header) (sh_flags header OR SEG_FLAG_SEALED))"

text \<open>\<open>read_segment_flags\<close> reads the flags from the file, without a map.\<close>

definition read_segment_flags :: "path \<Rightarrow> (fs, u32) io" where
  "read_segment_flags p =
     bind (open_read p) (\<lambda>i.
     bind (read_exact i 0 64) (\<lambda>buf.
       let magic = u32_from_le (bslice buf 0 4);
           version = u32_from_le (bslice buf 4 8);
           flags = u32_from_le (bslice buf 12 16)
       in if magic \<noteq> SEG_MAGIC then fail (Corrupt ''segment magic mismatch'')
          else if version \<noteq> SEG_VERSION then fail (UnsupportedVersion version)
          else ret flags))"

section \<open>Creating and opening segments\<close>

definition open_segment :: "path \<Rightarrow> nat \<Rightarrow> nat \<Rightarrow> (fs, mmap_file) io" where
  "open_segment root i segment_size =
     bind (mmap_open (segment_path root i)) (\<lambda>m.
     if mm_len m \<noteq> segment_size then fail (Corrupt ''segment size mismatch'')
     else bind (read_segment_header m) (\<lambda>header.
          if sh_segment_id header \<noteq> word_of_nat i then fail (Corrupt ''segment id mismatch'')
          else ret m))"

definition create_segment :: "path \<Rightarrow> nat \<Rightarrow> nat \<Rightarrow> (fs, mmap_file) io" where
  "create_segment root i segment_size =
     bind (mmap_create (segment_path root i) segment_size) (\<lambda>m.
     bind (write_segment_header m (word_of_nat i) 0) (\<lambda>_. ret m))"

text \<open>\<open>prefault_mmap\<close> stores a zero byte at every 4096-byte page boundary but the first.\<close>

definition prefault_bytes :: "bytes \<Rightarrow> bytes" where
  "prefault_bytes bs = fold (\<lambda>off b. b[off := 0]) (map (\<lambda>k. 4096 * Suc k) [0..<(length bs - 1) div 4096]) bs"

definition prefault_mmap :: "mmap_file \<Rightarrow> (fs, unit) io" where
  "prefault_mmap m = modify (\<lambda>s. fs_set (mm_ino m)
     (prefault_bytes (as_slice m s) @ drop (mm_len m) (fs_data s (mm_ino m))) s)"

definition open_or_create_segment :: "path \<Rightarrow> nat \<Rightarrow> nat \<Rightarrow> (fs, mmap_file) io" where
  "open_or_create_segment root i segment_size =
     bind (attempt (open_segment root i segment_size)) (\<lambda>r.
     case r of
       Inr m \<Rightarrow> ret m
     | Inl e \<Rightarrow>
         if e \<noteq> Io NotFound then fail e
         else bind (attempt (mmap_create_new (segment_path root i) segment_size)) (\<lambda>r2.
              case r2 of
                Inr m \<Rightarrow> bind (write_segment_header m (word_of_nat i) 0) (\<lambda>_. ret m)
              | Inl e2 \<Rightarrow>
                  if e2 = Io AlreadyExists then open_segment root i segment_size else fail e2))"

definition prepare_or_open_segment :: "path \<Rightarrow> nat \<Rightarrow> nat \<Rightarrow> (fs, mmap_file) io" where
  "prepare_or_open_segment root i segment_size =
     bind (attempt (open_segment root i segment_size)) (\<lambda>r.
     case r of
       Inr m \<Rightarrow> ret m
     | Inl e \<Rightarrow>
         if e \<noteq> Io NotFound then fail e
         else bind (attempt (mmap_create_new (segment_path root i) segment_size)) (\<lambda>r2.
              case r2 of
                Inr m \<Rightarrow>
                  bind (write_segment_header m (word_of_nat i) 0) (\<lambda>_.
                  bind (prefault_mmap m) (\<lambda>_. ret m))
              | Inl e2 \<Rightarrow>
                  if e2 = Io AlreadyExists then open_segment root i segment_size else fail e2))"

definition prepare_segment :: "path \<Rightarrow> nat \<Rightarrow> nat \<Rightarrow> (fs, mmap_file) io" where
  "prepare_segment root i segment_size =
     bind (create_segment root i segment_size) (\<lambda>m.
     bind (prefault_mmap m) (\<lambda>_. ret m))"

definition prepare_segment_temp :: "path \<Rightarrow> nat \<Rightarrow> nat \<Rightarrow> (fs, mmap_file) io" where
  "prepare_segment_temp root i segment_size =
     bind (attempt (remove_file (segment_temp_path root i))) (\<lambda>_.
     bind (mmap_create (segment_temp_path root i) segment_size) (\<lambda>m.
     bind (write_segment_header m (word_of_nat i) 0) (\<lambda>_.
     bind (prefault_mmap m) (\<lambda>_. ret m))))"

text \<open>
  \<open>publish_segment\<close>: \<open>renameat2(RENAME_NOREPLACE)\<close>, or, where the kernel does not have it
  (\<open>renameat2_ok\<close> is false), an existence check and a plain rename.
\<close>

definition publish_segment :: "bool \<Rightarrow> path \<Rightarrow> path \<Rightarrow> (fs, unit) io" where
  "publish_segment renameat2_ok temp final =
     (if CHR 0x00 \<in> set (concat temp) then fail (Unsupported ''segment temp path contains null byte'')
      else if CHR 0x00 \<in> set (concat final) then fail (Unsupported ''segment path contains null byte'')
      else if renameat2_ok then rename_noreplace temp final
      else bind (get (\<lambda>s. path_exists s final)) (\<lambda>ex.
           if ex then fail (Io AlreadyExists) else rename temp final))"

definition validate_segment_size :: "nat \<Rightarrow> nat result" where
  "validate_segment_size segment_size =
     (if segment_size > u64_max then Inl (Unsupported ''segment size exceeds addressable range'')
      else if segment_size < SEG_DATA_OFFSET + HEADER_SIZE then Inl (Unsupported ''segment size too small'')
      else Inr segment_size)"

section \<open>Repairing the tail of an unsealed segment\<close>

text \<open>The walk of \<open>repair_unsealed_tail\<close> over the committed records, to the first offset it cannot pass.\<close>

function repair_walk :: "bytes \<Rightarrow> nat \<Rightarrow> nat \<Rightarrow> nat" where
  "repair_walk bs segment_size offset =
     (if offset + HEADER_SIZE \<le> segment_size then
        (let commit = load_commit_len bs offset
         in if commit = 0 then offset
            else case payload_len_from_commit commit of
                   Inl _ \<Rightarrow> offset
                 | Inr payload_len \<Rightarrow>
                     if payload_len > MAX_PAYLOAD_LEN then offset
                     else if offset + record_len payload_len > segment_size then offset
                     else repair_walk bs segment_size (offset + record_len payload_len))
      else offset)"
  by pat_completeness auto
termination
proof (relation "measure (\<lambda>(bs, segment_size, offset). segment_size - offset)", goal_cases)
  case (2 bs segment_size offset commit n)
  then have "64 \<le> record_len n" by (intro record_len_bounds(1)) simp
  with 2 show ?case by simp
qed simp

declare repair_walk.simps [simp del]

text \<open>The padding record that fills the segment from the end of the walk.\<close>

definition write_tail_pad :: "mmap_file \<Rightarrow> nat \<Rightarrow> nat \<Rightarrow> (fs, unit) io" where
  "write_tail_pad m segment_size end_offset =
     (let payload_len = segment_size - end_offset - HEADER_SIZE
      in bind (lift (commit_len_for_payload payload_len)) (\<lambda>commit_len.
         bind (mmap_store m end_offset (to_bytes (new_uncommitted 0 0 PAD_TYPE_ID 0 0))) (\<lambda>_.
         bind (if payload_len > 0
               then mmap_store m (end_offset + HEADER_SIZE) (replicate payload_len 0)
               else ret ()) (\<lambda>_.
         modify (\<lambda>s. fs_set (mm_ino m)
           (store_commit_len (fs_data s (mm_ino m)) end_offset commit_len) s)))))"

definition repair_unsealed_tail :: "mmap_file \<Rightarrow> nat \<Rightarrow> (fs, unit) io" where
  "repair_unsealed_tail m segment_size =
     bind (read_segment_header m) (\<lambda>header.
     if sh_flags header AND SEG_FLAG_SEALED \<noteq> 0 then ret ()
     else bind (get (\<lambda>s. repair_walk (as_slice m s) segment_size SEG_DATA_OFFSET)) (\<lambda>end_offset.
          bind (if end_offset + HEADER_SIZE \<le> segment_size
                then write_tail_pad m segment_size end_offset else ret ()) (\<lambda>_.
          seal_segment m)))"

section \<open>What the header operations do\<close>

definition seg_hdr :: "bytes \<Rightarrow> u32 \<Rightarrow> u32 \<Rightarrow> bool" where
  "seg_hdr bs i fl \<longleftrightarrow> 64 \<le> length bs \<and> bslice bs 0 4 = u32_to_le SEG_MAGIC \<and>
     bslice bs 4 8 = u32_to_le SEG_VERSION \<and> bslice bs 8 12 = u32_to_le i \<and> bslice bs 12 16 = u32_to_le fl"

abbreviation sealed :: "u32 \<Rightarrow> bool" where
  "sealed fl \<equiv> fl AND SEG_FLAG_SEALED \<noteq> 0"

lemma sealed_or [simp]: "sealed (fl OR SEG_FLAG_SEALED)"
proof
  assume "(fl OR SEG_FLAG_SEALED) AND SEG_FLAG_SEALED = 0"
  then have "bit ((fl OR SEG_FLAG_SEALED) AND SEG_FLAG_SEALED) 0 = bit (0 :: u32) 0" by simp
  then show False by (simp add: bit_simps)
qed

lemma not_sealed_0 [simp]: "\<not> sealed 0"
  by simp

lemma length_segment_header_bytes [simp]: "length (segment_header_bytes i fl) = 64"
  by (simp add: segment_header_bytes_def)

lemma seg_hdr_splice:
  "64 \<le> length bs \<Longrightarrow> seg_hdr (bsplice bs 0 (segment_header_bytes i fl)) i fl"
proof -
  assume len: "64 \<le> length bs"
  have "bslice (bsplice bs 0 (segment_header_bytes i fl)) a b = bslice (segment_header_bytes i fl) a b"
    if "b \<le> 64" for a b
    using len that by (intro nth_equalityI) (auto simp: nth_bslice nth_bsplice)
  with len show ?thesis
    by (simp add: seg_hdr_def) (simp add: segment_header_bytes_def bytes_simps)
qed

lemma seg_hdr_cong:
  assumes "take 16 bs = take 16 bs'" "length bs = length bs'"
  shows "seg_hdr bs i fl = seg_hdr bs' i fl"
proof -
  have "bslice bs a b = bslice bs' a b" if "b \<le> 16" for a b
    by (rule bslice_eq_of_take [OF assms(1) that])
  with assms(2) show ?thesis by (simp add: seg_hdr_def)
qed

lemma seg_hdr_splice_data:
  "seg_hdr bs i fl \<Longrightarrow> 64 \<le> a \<Longrightarrow> a + length xs \<le> length bs \<Longrightarrow> seg_hdr (bsplice bs a xs) i fl"
  using seg_hdr_cong [of "bsplice bs a xs" bs i fl] by (simp add: take_bsplice)

lemma read_segment_header_ok:
  assumes "mm_ok m s" "seg_hdr (fs_data s (mm_ino m)) i fl"
  shows "read_segment_header m s =
    (Inr \<lparr>sh_magic = SEG_MAGIC, sh_version = SEG_VERSION, sh_segment_id = i, sh_flags = fl,
          sh_pad = replicate 48 0\<rparr>, s)"
proof -
  have "bslice (bslice (fs_data s (mm_ino m)) 0 64) a b = bslice (fs_data s (mm_ino m)) a b" if "b \<le> 64" for a b
    using that by (simp add: bslice_of_slice)
  moreover have "\<not> mm_len m < 64" using assms by (simp add: mm_ok_def seg_hdr_def)
  ultimately show ?thesis
    using assms by (simp add: read_segment_header_def io_simps as_slice_ok seg_hdr_def Let_def)
qed

lemma write_segment_header_ok:
  assumes "mm_ok m s" "64 \<le> mm_len m"
  shows "write_segment_header m i fl s =
    (Inr (), fs_set (mm_ino m) (bsplice (fs_data s (mm_ino m)) 0 (segment_header_bytes i fl)) s)"
  using assms mmap_store_ok [of m s 0 "segment_header_bytes i fl"]
  by (simp add: write_segment_header_def)

text \<open>The bytes after sealing: only the header changes, and sealing again changes nothing.\<close>

definition seal_bytes :: "bytes \<Rightarrow> u32 \<Rightarrow> u32 \<Rightarrow> bytes" where
  "seal_bytes bs i fl =
     (if sealed fl then bs else bsplice bs 0 (segment_header_bytes i (fl OR SEG_FLAG_SEALED)))"

lemma seal_segment_ok:
  assumes "mm_ok m s" "seg_hdr (fs_data s (mm_ino m)) i fl"
  shows "seal_segment m s = (Inr (), fs_set (mm_ino m) (seal_bytes (fs_data s (mm_ino m)) i fl) s)"
proof -
  have "64 \<le> mm_len m" using assms by (simp add: mm_ok_def seg_hdr_def)
  moreover have "fs_set (mm_ino m) (fs_data s (mm_ino m)) s = s" by (simp add: fs_set_def)
  ultimately show ?thesis
    by (simp add: seal_segment_def bind_def read_segment_header_ok [OF assms] ret_def seal_bytes_def
        write_segment_header_ok [OF assms(1)])
qed

lemma seal_bytes_props:
  assumes "seg_hdr bs i fl"
  shows "length (seal_bytes bs i fl) = length bs" "drop 64 (seal_bytes bs i fl) = drop 64 bs"
    "seg_hdr (seal_bytes bs i fl) i (if sealed fl then fl else fl OR SEG_FLAG_SEALED)"
proof -
  have len: "64 \<le> length bs" using assms by (simp add: seg_hdr_def)
  then show "length (seal_bytes bs i fl) = length bs" "drop 64 (seal_bytes bs i fl) = drop 64 bs"
    by (simp_all add: seal_bytes_def drop_bsplice)
  show "seg_hdr (seal_bytes bs i fl) i (if sealed fl then fl else fl OR SEG_FLAG_SEALED)"
    using assms seg_hdr_splice [OF len, of i "fl OR SEG_FLAG_SEALED"] by (simp add: seal_bytes_def)
qed

lemma drop_eq_mono: "n \<le> k \<Longrightarrow> drop n xs = drop n ys \<Longrightarrow> drop k xs = drop k ys"
  by (metis drop_drop le_add_diff_inverse2)

text \<open>Records live behind the header, so a chain from offset 64 depends on the bytes from there on.\<close>

lemma entry_at_drop:
  assumes "drop 64 bs = drop 64 bs'" "length bs = length bs'" "64 \<le> off"
  shows "entry_at crc bs off e = entry_at crc bs' off e"
proof -
  have *: "bslice bs a b = bslice bs' a b" if "64 \<le> a" for a b
    using drop_eq_mono [OF that assms(1)] by (simp add: bslice_def)
  have "bslice bs off (off + 64) = bslice bs' off (off + 64)"
    "bslice bs (off + 64) (off + 64 + n) = bslice bs' (off + 64) (off + 64 + n)" for n
    using assms(3) by (simp_all add: *)
  then show ?thesis using assms(2) by (simp add: entry_at_def)
qed

lemma chain_drop:
  "drop 64 bs = drop 64 bs' \<Longrightarrow> length bs = length bs' \<Longrightarrow> 64 \<le> off \<Longrightarrow>
   chain crc bs off es e = chain crc bs' off es e"
  by (induction es arbitrary: off) (simp_all add: entry_at_drop [of bs bs'])

lemma zeros_from_drop: "drop 64 bs = drop 64 bs' \<Longrightarrow> length bs = length bs' \<Longrightarrow> 64 \<le> off \<Longrightarrow>
   zeros_from bs off = zeros_from bs' off"
  using drop_eq_mono [of 64 off bs bs'] by (simp add: zeros_from_def)

section \<open>Fresh segments\<close>

definition seg_fresh :: "bytes \<Rightarrow> u32 \<Rightarrow> nat \<Rightarrow> bool" where
  "seg_fresh bs i sz \<longleftrightarrow> length bs = sz \<and> seg_hdr bs i 0 \<and> zeros_from bs 64"

lemma prefault_bytes_zeros:
  assumes "zeros_from bs 64"
  shows "prefault_bytes bs = bs"
proof -
  have "fold (\<lambda>off b. b[off := 0]) offs bs = bs" if "\<forall>off \<in> set offs. 64 \<le> off" for offs
    using that
  proof (induction offs)
    case (Cons a offs)
    have "bs[a := 0] = bs"
      using Cons.prems assms by (cases "a < length bs") (auto simp: list_update_same_conv zeros_fromD list_update_beyond)
    with Cons show ?case by simp
  qed simp
  moreover have "\<forall>off \<in> set (map (\<lambda>k. 4096 * Suc k) [0..<(length bs - 1) div 4096]). 64 \<le> off" by auto
  ultimately show ?thesis unfolding prefault_bytes_def by blast
qed

lemma prefault_mmap_fresh:
  assumes "mm_ok m s" "zeros_from (fs_data s (mm_ino m)) 64"
  shows "prefault_mmap m s = (Inr (), s)"
  using assms by (simp add: prefault_mmap_def io_simps as_slice_ok prefault_bytes_zeros mm_ok_def fs_set_def)

lemma fresh_bytes:
  assumes "64 \<le> sz"
  shows "seg_fresh (bsplice (replicate sz 0) 0 (segment_header_bytes i 0)) i sz"
proof -
  have "zeros_from (bsplice (replicate sz 0) 0 (segment_header_bytes i 0)) 64"
    using assms by (intro zeros_fromI) (simp add: nth_bsplice)
  with assms show ?thesis by (simp add: seg_fresh_def seg_hdr_splice)
qed

text \<open>
  Creating a segment file at a path: the file system afterwards has that path, pointing at an
  inode with a fresh segment, and is otherwise unchanged.
\<close>

definition creates_segment :: "path \<Rightarrow> nat \<Rightarrow> nat \<Rightarrow> mmap_file \<Rightarrow> fs \<Rightarrow> fs \<Rightarrow> bool" where
  "creates_segment p i sz m s s' \<longleftrightarrow>
     mm_len m = sz \<and> mm_ok m s' \<and> seg_fresh (fs_data s' (mm_ino m)) (word_of_nat i) sz \<and>
     mm_ino m = (case lookup_path s p of Some j \<Rightarrow> j | None \<Rightarrow> fs_next s) \<and>
     lookup_path s' = (lookup_path s)(p \<mapsto> mm_ino m) \<and>
     (\<forall>j. j \<noteq> mm_ino m \<longrightarrow> fs_data s' j = fs_data s j) \<and>
     is_dir s' = is_dir s \<and> fs_next s \<le> fs_next s' \<and> (fs_wf s \<longrightarrow> fs_wf s')"

lemma mmap_create_header:
  assumes "64 \<le> sz" "sz \<le> u64_max" "is_dir s (butlast p)"
  shows "\<exists>m s'. bind (mmap_create p sz) (\<lambda>m. bind (write_segment_header m (word_of_nat i) 0) (\<lambda>_. ret m)) s
      = (Inr m, s') \<and> creates_segment p i sz m s s'"
proof -
  obtain ino s1 where c: "mmap_create p sz s = (Inr \<lparr>mm_ino = ino, mm_len = sz\<rparr>, s1)"
    "lookup_path s1 = (lookup_path s)(p \<mapsto> ino)" "fs_data s1 = (fs_data s)(ino := replicate sz 0)"
    "fs_dirs s1 = fs_dirs s" "fs_next s1 \<ge> fs_next s" "fs_wf s \<longrightarrow> fs_wf s1"
    "ino = (case lookup_path s p of Some j \<Rightarrow> j | None \<Rightarrow> fs_next s)"
    using mmap_create_spec [of sz s p] assms by auto
  let ?m = "\<lparr>mm_ino = ino, mm_len = sz\<rparr>"
  let ?s2 = "fs_set ino (bsplice (replicate sz 0) 0 (segment_header_bytes (word_of_nat i) 0)) s1"
  have ok: "mm_ok ?m s1" using c(3) assms by (simp add: mm_ok_def)
  have "write_segment_header ?m (word_of_nat i) 0 s1 = (Inr (), ?s2)"
    using write_segment_header_ok [OF ok] assms c(3) by simp
  then have "bind (mmap_create p sz) (\<lambda>m. bind (write_segment_header m (word_of_nat i) 0) (\<lambda>_. ret m)) s
      = (Inr ?m, ?s2)"
    using c(1) by (simp add: bind_def ret_def)
  moreover have "creates_segment p i sz ?m s ?s2"
    using c(2-7) assms fresh_bytes [OF assms(1), of "word_of_nat i"]
    by (auto simp: creates_segment_def mm_ok_def is_dir_def fun_eq_iff)
  ultimately show ?thesis by blast
qed

lemma create_segment_ok:
  assumes "64 \<le> sz" "sz \<le> u64_max" "is_dir s root"
  shows "\<exists>m s'. create_segment root i sz s = (Inr m, s') \<and> creates_segment (segment_path root i) i sz m s s'"
  using mmap_create_header [of sz s "segment_path root i" i] assms by (simp add: create_segment_def)

lemma creates_prefault:
  assumes "creates_segment p i sz m s s'"
  shows "prefault_mmap m s' = (Inr (), s')"
proof -
  from assms have "mm_ok m s'" "zeros_from (fs_data s' (mm_ino m)) 64"
    unfolding creates_segment_def seg_fresh_def by blast+
  then show ?thesis by (rule prefault_mmap_fresh)
qed

lemma prepare_segment_ok:
  assumes "64 \<le> sz" "sz \<le> u64_max" "is_dir s root"
  shows "\<exists>m s'. prepare_segment root i sz s = (Inr m, s') \<and> creates_segment (segment_path root i) i sz m s s'"
proof -
  obtain m s' where c: "create_segment root i sz s = (Inr m, s')" "creates_segment (segment_path root i) i sz m s s'"
    using create_segment_ok [OF assms] by blast
  from c creates_prefault [OF c(2)] show ?thesis
    by (auto simp: prepare_segment_def bind_def ret_def)
qed

lemma attempt_remove_state:
  "\<exists>r. attempt (remove_file p) s = (Inr r, fs_unlink p s) \<or> (attempt (remove_file p) s = (Inr r, s) \<and> lookup_path s p = None)"
  by (auto simp: attempt_def remove_file_def split: option.splits)

text \<open>
  A temporary segment gets a fresh inode: a leftover temporary file is unlinked first, so the
  map of a writer that crashed is not reused.
\<close>

lemma prepare_segment_temp_ok:
  assumes "64 \<le> sz" "sz \<le> u64_max" "is_dir s root"
  shows "\<exists>m s'. prepare_segment_temp root i sz s = (Inr m, s') \<and>
     mm_len m = sz \<and> mm_ok m s' \<and> seg_fresh (fs_data s' (mm_ino m)) (word_of_nat i) sz \<and>
     mm_ino m = fs_next s \<and> lookup_path s' = (lookup_path s)(segment_temp_path root i \<mapsto> mm_ino m) \<and>
     (\<forall>j. j \<noteq> mm_ino m \<longrightarrow> fs_data s' j = fs_data s j) \<and>
     is_dir s' = is_dir s \<and> fs_next s \<le> fs_next s' \<and> (fs_wf s \<longrightarrow> fs_wf s')"
proof -
  let ?p = "segment_temp_path root i"
  obtain r s0 where r: "attempt (remove_file ?p) s = (Inr r, s0)" "lookup_path s0 = (lookup_path s)(?p := None)"
    "fs_data s0 = fs_data s" "is_dir s0 = is_dir s" "fs_next s0 = fs_next s" "fs_wf s \<longrightarrow> fs_wf s0"
    using attempt_remove_state [of ?p s] fs_wf_unlink [of s ?p]
    by (metis fs_unlink_data fs_unlink_next is_dir_unlink lookup_unlink fun_upd_idem)
  obtain m s' where c: "bind (mmap_create ?p sz) (\<lambda>m. bind (write_segment_header m (word_of_nat i) 0) (\<lambda>_. ret m)) s0
      = (Inr m, s')" "creates_segment ?p i sz m s0 s'"
    using mmap_create_header [of sz s0 ?p i] assms r by auto
  from c(1) obtain s1 where m: "mmap_create ?p sz s0 = (Inr m, s1)" "write_segment_header m (word_of_nat i) 0 s1 = (Inr (), s')"
    by (auto simp: bind_def ret_def split: prod.splits sum.splits)
  have "prepare_segment_temp root i sz s = (Inr m, s')"
    using r(1) m creates_prefault [OF c(2)] by (simp add: prepare_segment_temp_def bind_def ret_def)
  with c(2) r(2-6) show ?thesis by (auto simp: creates_segment_def)
qed

lemma open_segment_ok:
  assumes "lookup_path s (segment_path root i) = Some ino" "length (fs_data s ino) = sz" "sz \<le> u64_max"
    and "seg_hdr (fs_data s ino) (word_of_nat i) fl"
  shows "open_segment root i sz s = (Inr \<lparr>mm_ino = ino, mm_len = sz\<rparr>, s)"
proof -
  have "fs_data s ino \<noteq> []" using assms(4) by (auto simp: seg_hdr_def)
  moreover have "mm_ok \<lparr>mm_ino = ino, mm_len = sz\<rparr> s" using assms by (simp add: mm_ok_def)
  ultimately show ?thesis
    using assms read_segment_header_ok [of "\<lparr>mm_ino = ino, mm_len = sz\<rparr>" s "word_of_nat i" fl]
    by (simp add: open_segment_def bind_def mmap_open_spec ret_def)
qed

lemma open_segment_missing:
  "lookup_path s (segment_path root i) = None \<Longrightarrow> open_segment root i sz s = (Inl (Io NotFound), s)"
  by (simp add: open_segment_def bind_def mmap_open_spec)

section \<open>What repairing does\<close>

text \<open>No committed record starts at the offset: it is too close to the end, or its commit word is zero.\<close>

definition tail_free :: "bytes \<Rightarrow> nat \<Rightarrow> bool" where
  "tail_free bs e \<longleftrightarrow> length bs < e + 64 \<or> load_commit_len bs e = 0"

lemma repair_walk_step:
  assumes "entry_at crc bs off e" "length bs = sz"
  shows "repair_walk bs sz off = repair_walk bs sz (off + entry_len e)"
proof -
  let ?n = "length (entry_payload e)"
  have n: "?n \<le> MAX_PAYLOAD_LEN" and le: "off + entry_len e \<le> sz"
    using assms by (simp_all add: entry_at_def)
  moreover have "off + 64 \<le> sz" using le entry_len_bounds(1) [OF n] by linarith
  ultimately show ?thesis
    using commit_of_payload(2,3) [OF n] entry_at_commit [OF assms(1)]
    by (subst repair_walk.simps) (simp add: entry_len_def del: of_nat_Suc)
qed

lemma repair_walk_chain:
  "chain crc bs off es e \<Longrightarrow> length bs = sz \<Longrightarrow> repair_walk bs sz off = repair_walk bs sz e"
  by (induction es arbitrary: off) (auto simp: repair_walk_step)

lemma repair_walk_stop: "tail_free bs e \<Longrightarrow> length bs = sz \<Longrightarrow> repair_walk bs sz e = e"
  by (subst repair_walk.simps) (auto simp: tail_free_def)

lemma bsplice_commute:
  assumes "a + length xs \<le> b" "b + length ys \<le> length bs"
  shows "bsplice (bsplice bs a xs) b ys = bsplice (bsplice bs b ys) a xs"
  using assms by (intro nth_equalityI) (auto simp: nth_bsplice)

lemma bsplice_Nil [simp]: "a \<le> length bs \<Longrightarrow> bsplice bs a [] = bs"
  by (simp add: bsplice_def)

text \<open>The bytes with a padding record of \<open>n\<close> payload bytes at \<open>e\<close>.\<close>

definition put_pad :: "bytes \<Rightarrow> nat \<Rightarrow> nat \<Rightarrow> bytes" where
  "put_pad bs e n =
     bsplice (bsplice bs (e + 64) (replicate n 0)) e (to_bytes (pad_header\<lparr>mh_commit_len := word_of_nat (Suc n)\<rparr>))"

lemma put_pad_length [simp]: "e + 64 + n \<le> length bs \<Longrightarrow> length (put_pad bs e n) = length bs"
  by (simp add: put_pad_def)

lemma put_pad_take: "e + 64 + n \<le> length bs \<Longrightarrow> take e (put_pad bs e n) = take e bs"
  by (simp add: put_pad_def take_bsplice)

lemma put_pad_hdr: "seg_hdr bs i fl \<Longrightarrow> 64 \<le> e \<Longrightarrow> e + 64 + n \<le> length bs \<Longrightarrow> seg_hdr (put_pad bs e n) i fl"
  by (simp add: put_pad_def seg_hdr_splice_data)

lemma put_pad_commit:
  "e + 64 + n \<le> length bs \<Longrightarrow> load_commit_len (put_pad bs e n) e = word_of_nat (Suc n)"
proof -
  assume le: "e + 64 + n \<le> length bs"
  have "bslice (put_pad bs e n) e (e + 4) = bslice (bslice (put_pad bs e n) e (e + 64)) 0 4"
    by (simp add: bslice_of_slice)
  also have "bslice (put_pad bs e n) e (e + 64) = to_bytes (pad_header\<lparr>mh_commit_len := word_of_nat (Suc n)\<rparr>)"
    using le by (simp add: put_pad_def bytes_simps)
  finally show ?thesis by (simp add: load_commit_len_def to_bytes_fields)
qed

lemma put_pad_entry:
  assumes "n \<le> MAX_PAYLOAD_LEN" "e + entry_len (Pad n) \<le> length bs"
  shows "entry_at crc (put_pad bs e n) e (Pad n)"
proof -
  have "e + 64 + n \<le> length bs" using entry_len_bounds(2) [of "Pad n"] assms by simp
  then show ?thesis using assms by (simp add: entry_at_def) (simp add: put_pad_def bytes_simps)
qed

lemma write_tail_pad_ok:
  assumes "mm_ok m s" "bs = fs_data s (mm_ino m)" "e + 64 + n = mm_len m" "n \<le> MAX_PAYLOAD_LEN"
  shows "write_tail_pad m (mm_len m) e s = (Inr (), fs_set (mm_ino m) (put_pad bs e n) s)"
proof -
  let ?h = "to_bytes pad_header"
  let ?b1 = "bsplice bs e ?h"
  let ?b2 = "bsplice ?b1 (e + 64) (replicate n 0)"
  have len: "length bs = mm_len m" using assms by (simp add: mm_ok_def)
  have st1: "mmap_store m e ?h s = (Inr (), fs_set (mm_ino m) ?b1 s)"
    using assms by (simp add: mmap_store_ok)
  have ok1: "mm_ok m (fs_set (mm_ino m) ?b1 s)"
    using assms len by (simp add: mm_ok_def)
  have st2: "mmap_store m (e + 64) (replicate n 0) (fs_set (mm_ino m) ?b1 s)
      = (Inr (), fs_set (mm_ino m) ?b2 (fs_set (mm_ino m) ?b1 s))"
    using mmap_store_ok [OF ok1, of "e + 64" "replicate n 0"] assms by simp
  have n0: "?b2 = ?b1" if "n = 0" using that len assms(3) by simp
  have "?b2 = bsplice (bsplice bs (e + 64) (replicate n 0)) e ?h"
    using len assms(3) by (intro bsplice_commute) simp_all
  then have "store_commit_len ?b2 e (word_of_nat (Suc n)) = put_pad bs e n"
    using len assms(3)
    by (simp add: store_commit_len_def put_pad_def bsplice_inner to_bytes_commit del: of_nat_Suc)
  moreover have "mm_len m - e - 64 = n" using assms(3) by simp
  ultimately show ?thesis
    using st1 st2 n0 commit_of_payload(1) [OF assms(4)]
    by (cases "n = 0")
      (simp_all add: write_tail_pad_def Let_def bind_ok modify_def ret_def pad_header_def [symmetric] fs_set_def del: of_nat_Suc)
qed

lemma repair_unsealed_eq:
  assumes "mm_ok m s" "bs = fs_data s (mm_ino m)" "seg_hdr bs i fl" "\<not> sealed fl"
    and "chain crc bs 64 es e" "tail_free bs e"
    and "n = mm_len m - e - 64" "n \<le> MAX_PAYLOAD_LEN"
  shows "repair_unsealed_tail m (mm_len m) s =
    (Inr (), fs_set (mm_ino m)
       (seal_bytes (if e + 64 \<le> mm_len m then put_pad bs e n else bs) i fl) s)"
proof -
  have len: "length bs = mm_len m" using assms by (simp add: mm_ok_def)
  have walk: "repair_walk (as_slice m s) (mm_len m) 64 = e"
    using repair_walk_chain [OF assms(5) len] repair_walk_stop [OF assms(6) len]
    by (simp add: as_slice_ok [OF assms(1)] assms(2) [symmetric])
  have e64: "64 \<le> e" using chain_le [OF assms(5)] .
  note rd = read_segment_header_ok [OF assms(1) assms(3) [unfolded assms(2)]]
  show ?thesis
  proof (cases "e + 64 \<le> mm_len m")
    case True
    let ?s2 = "fs_set (mm_ino m) (put_pad bs e n) s"
    have nn: "e + 64 + n = mm_len m" using True assms(7) by simp
    have ok2: "mm_ok m ?s2" and h2: "seg_hdr (fs_data ?s2 (mm_ino m)) i fl"
      using assms(1,3) nn len e64 by (simp_all add: mm_ok_def put_pad_hdr)
    show ?thesis
      using write_tail_pad_ok [OF assms(1,2) nn assms(8)] seal_segment_ok [OF ok2 h2] True assms(4)
      by (simp add: repair_unsealed_tail_def bind_ok rd walk fs_set_def)
  next
    case False
    then show ?thesis
      using seal_segment_ok [OF assms(1) assms(3) [unfolded assms(2)]] assms(2,4)
      by (simp add: repair_unsealed_tail_def bind_ok rd walk)
  qed
qed

section \<open>Storing one record through a map\<close>

text \<open>
  The stores of one append, in the order both writers make them: payload, header with a zero
  commit word, commit word.
\<close>

definition store_record :: "crc_fun \<Rightarrow> mmap_file \<Rightarrow> nat \<Rightarrow> message \<Rightarrow> (fs, unit) io" where
  "store_record crc m offset msg =
     bind (if length (msg_payload msg) > 0
           then mmap_store m (offset + HEADER_SIZE) (msg_payload msg) else ret ()) (\<lambda>_.
     bind (mmap_store m offset (to_bytes (new_uncommitted (msg_seq msg) (msg_timestamp_ns msg)
             (msg_type_id msg) 0 (crc (msg_payload msg))))) (\<lambda>_.
     bind (lift (commit_len_for_payload (length (msg_payload msg)))) (\<lambda>commit_len.
     modify (\<lambda>s. fs_set (mm_ino m) (store_commit_len (fs_data s (mm_ino m)) offset commit_len) s))))"

lemma store_record_ok:
  assumes "mm_ok m s" "length (msg_payload msg) \<le> MAX_PAYLOAD_LEN" "off + 64 + length (msg_payload msg) \<le> mm_len m"
  shows "store_record crc m off msg s =
    (Inr (), fs_set (mm_ino m) (put_record crc (fs_data s (mm_ino m)) off msg) s)"
proof -
  let ?bs = "fs_data s (mm_ino m)" and ?p = "msg_payload msg"
  let ?s1 = "fs_set (mm_ino m) (bsplice ?bs (off + 64) ?p) s"
  have len: "length ?bs = mm_len m" using assms(1) by (simp add: mm_ok_def)
  have same: "?s1 = s" if "?p = []" using that len assms(3) by (simp add: fs_set_def)
  have ok1: "mm_ok m ?s1" using assms len by (simp add: mm_ok_def)
  have st1: "(if length ?p > 0 then mmap_store m (off + 64) ?p else ret ()) s = (Inr (), ?s1)"
    using mmap_store_ok [OF assms(1), of "off + 64" ?p] assms(3) same by (cases "?p = []") (simp_all add: ret_def)
  have st2: "mmap_store m off (to_bytes (msg_header crc msg)) ?s1 =
      (Inr (), fs_set (mm_ino m) (bsplice (bsplice ?bs (off + 64) ?p) off (to_bytes (msg_header crc msg))) ?s1)"
    using mmap_store_ok [OF ok1, of off "to_bytes (msg_header crc msg)"] assms(3) by simp
  show ?thesis
    unfolding store_record_def
    by (subst bind_ok, rule st1, subst msg_header_def [symmetric], subst bind_ok, rule st2,
        simp add: commit_of_payload(1) [OF assms(2)] modify_def put_record_def fs_set_def)
qed

section \<open>Properties of sealing and repairing\<close>

lemma repair_ok:
  assumes "mm_ok m s" "seg_hdr (fs_data s (mm_ino m)) i fl" "\<not> sealed fl"
    and "chain crc (fs_data s (mm_ino m)) 64 es e" "tail_free (fs_data s (mm_ino m)) e"
    and "64 dvd mm_len m" "mm_len m \<le> 4294967296"
  shows "\<exists>bs pad. repair_unsealed_tail m (mm_len m) s = (Inr (), fs_set (mm_ino m) bs s) \<and>
    length bs = mm_len m \<and> seg_hdr bs i (fl OR SEG_FLAG_SEALED) \<and>
    chain crc bs 64 (es @ pad) (mm_len m) \<and> messages pad = []"
proof -
  let ?b0 = "fs_data s (mm_ino m)"
  let ?n = "mm_len m - e - 64"
  have len: "length ?b0 = mm_len m" "64 \<le> mm_len m" using assms(1,2) by (simp_all add: mm_ok_def seg_hdr_def)
  have e: "64 \<le> e" "e \<le> mm_len m" "64 dvd e"
    using chain_le [OF assms(4)] chain_bound [OF assms(4)] chain_aligned [OF assms(4)] len by auto
  have n: "?n \<le> MAX_PAYLOAD_LEN" using assms(7) e by simp
  let ?b1 = "if e + 64 \<le> mm_len m then put_pad ?b0 e ?n else ?b0"
  let ?pad = "if e + 64 \<le> mm_len m then [Pad ?n] else []"
  have b1: "length ?b1 = mm_len m" "seg_hdr ?b1 i fl" "chain crc ?b1 64 (es @ ?pad) (mm_len m)"
  proof -
    show "length ?b1 = mm_len m" "seg_hdr ?b1 i fl" using len e assms(2) by (auto simp: put_pad_hdr)
    show "chain crc ?b1 64 (es @ ?pad) (mm_len m)"
    proof (cases "e + 64 \<le> mm_len m")
      case True
      have "entry_len (Pad ?n) = ?n + 64"
      proof -
        have "64 dvd ?n" using assms(6) e(3) by simp
        then obtain k where "?n = 64 * k" ..
        then show ?thesis using record_len_eq [of ?n] n by (simp add: entry_len_def)
      qed
      then have el: "e + entry_len (Pad ?n) = mm_len m" using True by simp
      have "chain crc (put_pad ?b0 e ?n) 64 es e"
        using assms(4) chain_cong [of e "put_pad ?b0 e ?n" ?b0 crc 64 es] True len by (simp add: put_pad_take)
      moreover have "entry_at crc (put_pad ?b0 e ?n) e (Pad ?n)"
        using put_pad_entry [OF n] el len by simp
      ultimately show ?thesis using True el by (auto simp: chain_append)
    next
      case False
      then have "e = mm_len m" using e assms(6) by (auto elim!: dvdE)
      then show ?thesis using False assms(4) by simp
    qed
  qed
  have "repair_unsealed_tail m (mm_len m) s = (Inr (), fs_set (mm_ino m) (seal_bytes ?b1 i fl) s)"
    using repair_unsealed_eq [OF assms(1) refl assms(2,3,4,5) refl n] by simp
  moreover have "length (seal_bytes ?b1 i fl) = mm_len m" "seg_hdr (seal_bytes ?b1 i fl) i (fl OR SEG_FLAG_SEALED)"
    using seal_bytes_props [OF b1(2)] b1(1) assms(3) by auto
  moreover have "chain crc (seal_bytes ?b1 i fl) 64 (es @ ?pad) (mm_len m)"
    using b1(3) chain_drop [OF seal_bytes_props(2) [OF b1(2)] seal_bytes_props(1) [OF b1(2)], of 64 crc] by blast
  moreover have "messages ?pad = []" by simp
  ultimately show ?thesis by blast
qed

text \<open>
  Property C17. Repairing the tail of an unsealed segment keeps every committed record and
  completes the segment: whatever bytes lie behind the last committed record (a half-written
  header or payload included), afterwards the segment is sealed and its records are the old
  ones, followed by at most padding, up to exactly the end of the segment. Other files and all
  directory entries stay as they are. The segment size is a multiple of the record alignment
  and at most 4 GiB, so that the padding length fits the commit word.
\<close>

theorem repair_keeps_records:
  assumes "mm_ok m s" "seg_hdr (fs_data s (mm_ino m)) i fl" "\<not> sealed fl"
    and "chain crc (fs_data s (mm_ino m)) 64 es e" "tail_free (fs_data s (mm_ino m)) e"
    and "64 dvd mm_len m" "mm_len m \<le> 4294967296"
  shows "\<exists>bs pad. repair_unsealed_tail m (mm_len m) s = (Inr (), fs_set (mm_ino m) bs s) \<and>
    length bs = mm_len m \<and> seg_hdr bs i (fl OR SEG_FLAG_SEALED) \<and>
    chain crc bs 64 (es @ pad) (mm_len m) \<and> messages pad = []"
  by (rule repair_ok [OF assms])

text \<open>Segment 5, of 256 bytes, with one message, for the examples.\<close>

definition segment_with :: "crc_fun \<Rightarrow> message \<Rightarrow> bytes" where
  "segment_with crc m = put_record crc (bsplice (replicate 256 0) 0 (segment_header_bytes 5 0)) 64 m"

lemma segment_with_props:
  assumes "length (msg_payload m) \<le> 128"
  shows "length (segment_with crc m) = 256" "seg_hdr (segment_with crc m) 5 0"
    "chain crc (segment_with crc m) 64 [Msg m] (64 + entry_len (Msg m))" "zeros_from (segment_with crc m) (64 + entry_len (Msg m))"
proof -
  let ?b = "bsplice (replicate 256 0) 0 (segment_header_bytes 5 0)"
  have fr: "seg_fresh ?b 5 256" by (rule fresh_bytes) simp
  have len: "length ?b = 256" using fr by (simp add: seg_fresh_def)
  have le: "64 + 64 + length (msg_payload m) \<le> length ?b" using len assms by simp
  show "length (segment_with crc m) = 256" using put_record_length [OF le] len by (simp add: segment_with_def)
  show "seg_hdr (segment_with crc m) 5 0"
    using fr assms len unfolding segment_with_def put_record_eq [OF le]
    by - (rule seg_hdr_splice_data [OF seg_hdr_splice_data], simp_all add: seg_fresh_def)
  have el: "entry_len (Msg m) \<le> 192" using record_len_eq [of "length (msg_payload m)"] assms by (simp add: entry_len_def)
  show "chain crc (segment_with crc m) 64 [Msg m] (64 + entry_len (Msg m))"
    using put_record_chain [of crc ?b "[]" 64 m] len assms el by (simp add: segment_with_def)
  show "zeros_from (segment_with crc m) (64 + entry_len (Msg m))"
    using put_record_zeros [OF le, of crc] fr zeros_from_mono [of _ "128 + length (msg_payload m)" "64 + entry_len (Msg m)"]
      entry_len_bounds(2) [of "Msg m"] assms by (simp add: segment_with_def seg_fresh_def)
qed

definition demo_msg :: message where
  "demo_msg = \<lparr>msg_seq = 0, msg_timestamp_ns = 11, msg_type_id = 7, msg_payload = [1, 2, 3]\<rparr>"

definition demo_segment :: "crc_fun \<Rightarrow> bytes" where
  "demo_segment crc = segment_with crc demo_msg"

lemma demo_len: "entry_len (Msg demo_msg) = 128"
  using record_len_eq [of 3] by (simp add: entry_len_def demo_msg_def)

lemma demo_segment_props:
  "length (demo_segment crc) = 256" "seg_hdr (demo_segment crc) 5 0"
  "chain crc (demo_segment crc) 64 [Msg demo_msg] 192" "zeros_from (demo_segment crc) 192"
proof -
  have "length (msg_payload demo_msg) \<le> 128" by (simp add: demo_msg_def)
  note p = segment_with_props [OF this, of crc, unfolded demo_len, folded demo_segment_def]
  show "length (demo_segment crc) = 256" "seg_hdr (demo_segment crc) 5 0"
    "chain crc (demo_segment crc) 64 [Msg demo_msg] 192" "zeros_from (demo_segment crc) 192" using p by simp_all
qed

theorem repair_keeps_records_witness:
  "\<exists>bs pad. repair_unsealed_tail \<lparr>mm_ino = 0, mm_len = 256\<rparr> 256 (single_file ''000000005.q'' (demo_segment (\<lambda>_. 9)))
      = (Inr (), fs_set 0 bs (single_file ''000000005.q'' (demo_segment (\<lambda>_. 9)))) \<and>
    length bs = 256 \<and> seg_hdr bs 5 (0 OR SEG_FLAG_SEALED) \<and>
    chain (\<lambda>_. 9) bs 64 ([Msg demo_msg] @ pad) 256 \<and> messages pad = []"
proof -
  let ?s = "single_file ''000000005.q'' (demo_segment (\<lambda>_. 9))" and ?m = "\<lparr>mm_ino = 0, mm_len = 256\<rparr>"
  have d: "fs_data ?s (mm_ino ?m) = demo_segment (\<lambda>_. 9)" by (simp add: single_file_def)
  have "mm_ok ?m ?s" by (simp add: mm_ok_def single_file_def demo_segment_props)
  moreover have "tail_free (demo_segment (\<lambda>_. 9)) 192"
    using zeros_from_commit [OF demo_segment_props(4) order_refl] by (simp add: tail_free_def demo_segment_props(1))
  ultimately show ?thesis
    using repair_keeps_records [of ?m ?s 5 0 "\<lambda>_. 9" "[Msg demo_msg]" 192] demo_segment_props(3) [of "\<lambda>_. 9"]
    unfolding d by (simp add: demo_segment_props demo_len)
qed

text \<open>
  Property C34. With a segment size that is not a multiple of the record alignment, which
  \<open>validate_segment_size\<close> accepts, repairing reports success but leaves a padding record whose
  length, as every reader computes it, reaches past the end of the segment.
\<close>

theorem repair_unaligned_overruns:
  assumes "mm_ok m s" "seg_hdr (fs_data s (mm_ino m)) i fl" "\<not> sealed fl"
    and "chain crc (fs_data s (mm_ino m)) 64 es e" "tail_free (fs_data s (mm_ino m)) e"
    and "\<not> 64 dvd mm_len m" "mm_len m \<le> 4294967296" "e + 64 \<le> mm_len m"
  shows "validate_segment_size (mm_len m) = Inr (mm_len m) \<and>
    (\<exists>bs n. repair_unsealed_tail m (mm_len m) s = (Inr (), fs_set (mm_ino m) bs s) \<and>
       seg_hdr bs i (fl OR SEG_FLAG_SEALED) \<and> chain crc bs 64 es e \<and>
       payload_len_from_commit (load_commit_len bs e) = Inr n \<and> mm_len m < e + record_len n)"
proof -
  let ?b0 = "fs_data s (mm_ino m)"
  let ?n = "mm_len m - e - 64"
  have len: "length ?b0 = mm_len m" using assms(1) by (simp add: mm_ok_def)
  have e: "64 \<le> e" "64 dvd e" using chain_le [OF assms(4)] chain_aligned [OF assms(4)] by auto
  have n: "?n \<le> MAX_PAYLOAD_LEN" using assms(7) e by simp
  let ?b1 = "put_pad ?b0 e ?n" and ?b2 = "seal_bytes (put_pad ?b0 e ?n) i fl"
  have h: "seg_hdr ?b1 i fl" using assms(2,8) len e by (simp add: put_pad_hdr)
  have dr: "drop 64 ?b2 = drop 64 ?b1" "length ?b2 = length ?b1" using seal_bytes_props [OF h] by simp_all
  have "chain crc ?b1 64 es e"
    using assms(4,8) chain_cong [of e ?b1 ?b0 crc 64 es] len by (simp add: put_pad_take)
  then have ch: "chain crc ?b2 64 es e" using chain_drop [OF dr, of 64 crc] by simp
  have "bslice ?b2 e (e + 4) = bslice ?b1 e (e + 4)"
    using drop_eq_mono [OF e(1) dr(1)] by (simp add: bslice_def)
  then have "load_commit_len ?b2 e = word_of_nat (Suc ?n)"
    using put_pad_commit [of e ?n ?b0] assms(8) len by (simp add: load_commit_len_def)
  then have pl: "payload_len_from_commit (load_commit_len ?b2 e) = Inr ?n"
    using commit_of_payload(3) [OF n] by simp
  have "64 dvd e + record_len ?n" "mm_len m \<le> e + record_len ?n"
    using record_len_bounds [of ?n] n e assms(8) by simp_all
  then have "mm_len m < e + record_len ?n" using assms(6) by (metis le_neq_implies_less)
  moreover have "repair_unsealed_tail m (mm_len m) s = (Inr (), fs_set (mm_ino m) ?b2 s)"
    using repair_unsealed_eq [OF assms(1) refl assms(2,3,4,5) refl n] assms(8) by simp
  moreover have "seg_hdr ?b2 i (fl OR SEG_FLAG_SEALED)" using seal_bytes_props(3) [OF h] assms(3) by simp
  moreover have "validate_segment_size (mm_len m) = Inr (mm_len m)"
    using assms(1,8) e by (simp add: validate_segment_size_def mm_ok_def)
  ultimately show ?thesis using pl ch by blast
qed

text \<open>A fresh segment of 200 bytes already shows it.\<close>

theorem repair_unaligned_overruns_witness:
  "validate_segment_size 200 = Inr 200 \<and>
    (\<exists>bs n. repair_unsealed_tail \<lparr>mm_ino = 0, mm_len = 200\<rparr> 200
          (single_file ''000000000.q'' (bsplice (replicate 200 0) 0 (segment_header_bytes 0 0)))
        = (Inr (), fs_set 0 bs (single_file ''000000000.q'' (bsplice (replicate 200 0) 0 (segment_header_bytes 0 0)))) \<and>
       seg_hdr bs 0 (0 OR SEG_FLAG_SEALED) \<and> chain (\<lambda>_. 0) bs 64 [] 64 \<and>
       payload_len_from_commit (load_commit_len bs 64) = Inr n \<and> 200 < 64 + record_len n)"
proof -
  let ?b = "bsplice (replicate 200 0) 0 (segment_header_bytes 0 0)"
  let ?s = "single_file ''000000000.q'' ?b" and ?m = "\<lparr>mm_ino = 0, mm_len = 200\<rparr>"
  have fr: "seg_fresh ?b 0 200" by (rule fresh_bytes) simp
  have d: "fs_data ?s (mm_ino ?m) = ?b" by (simp add: single_file_def)
  have "mm_ok ?m ?s" by (simp add: mm_ok_def single_file_def)
  moreover have "tail_free ?b 64"
    using zeros_from_commit [of ?b 64 64] fr by (simp add: tail_free_def seg_fresh_def)
  moreover have "seg_hdr ?b 0 0" using fr by (simp add: seg_fresh_def)
  ultimately show ?thesis
    using repair_unaligned_overruns [of ?m ?s 0 0 "\<lambda>_. 0" "[]" 64] unfolding d by simp
qed

end
