(* ===== verification/Segment_Writer.thy ===== *)
theory Segment_Writer
  imports Segment
begin

text \<open>
  \<^verbatim>\<open>src/src/core/segment_writer.rs\<close>: the append-and-roll primitive under the log. The state
  of a \<open>SegmentWriter\<close> is a record next to the file system. Its invariant relates the two to
  the messages it has accepted: the published segments, each with its messages, and the
  messages of the open temporary segment.
  Debug assertions are off, as in a release build.
\<close>

section \<open>The writer\<close>

record segment_writer =
  sw_dir :: path
  sw_segment_id :: nat
  sw_segment_size :: nat
  sw_write_offset :: nat
  sw_seq :: u64
  sw_mmap :: "mmap_file option"
  sw_segments_published :: nat
  sw_has_records :: bool

type_synonym 'a sw_io = "(segment_writer \<times> fs, 'a) io"

definition sw_new :: "path \<Rightarrow> nat \<Rightarrow> nat \<Rightarrow> segment_writer" where
  "sw_new dir segment_id segment_size =
     \<lparr>sw_dir = dir, sw_segment_id = segment_id, sw_segment_size = segment_size,
      sw_write_offset = SEG_DATA_OFFSET, sw_seq = 0, sw_mmap = None,
      sw_segments_published = 0, sw_has_records = False\<rparr>"

definition needs_roll :: "segment_writer \<Rightarrow> nat \<Rightarrow> bool" where
  "needs_roll w rlen \<longleftrightarrow> sw_write_offset w + rlen > sw_segment_size w"

definition ensure_segment :: "unit sw_io" where
  "ensure_segment =
     bind (get fst) (\<lambda>w.
     case sw_mmap w of
       Some _ \<Rightarrow> ret ()
     | None \<Rightarrow>
         bind (on_fs (prepare_segment_temp (sw_dir w) (sw_segment_id w) (sw_segment_size w))) (\<lambda>m.
         upd (\<lambda>w. w\<lparr>sw_write_offset := SEG_DATA_OFFSET, sw_has_records := False, sw_mmap := Some m\<rparr>)))"

definition sw_append :: "crc_fun \<Rightarrow> u16 \<Rightarrow> u64 \<Rightarrow> bytes \<Rightarrow> unit sw_io" where
  "sw_append crc type_id timestamp_ns payload =
     (if length payload > MAX_PAYLOAD_LEN then fail PayloadTooLarge
      else let rlen = record_len (length payload) in
        bind (get fst) (\<lambda>w0.
        if rlen > sat_sub64 (sw_segment_size w0) SEG_DATA_OFFSET then fail PayloadTooLarge
        else bind ensure_segment (\<lambda>_.
             bind (get fst) (\<lambda>w.
             case sw_mmap w of
               None \<Rightarrow> fail (Corrupt ''segment mmap missing'')
             | Some m \<Rightarrow>
                 bind (on_fs (store_record crc m (sw_write_offset w)
                         \<lparr>msg_seq = sw_seq w, msg_timestamp_ns = timestamp_ns,
                          msg_type_id = type_id, msg_payload = payload\<rparr>)) (\<lambda>_.
                 bind (upd (\<lambda>w. w\<lparr>sw_seq := sw_seq w + 1\<rparr>)) (\<lambda>_.
                 case checked_add64 (sw_write_offset w) rlen of
                   None \<Rightarrow> fail (Corrupt ''write offset overflow'')
                 | Some off \<Rightarrow> upd (\<lambda>w. w\<lparr>sw_write_offset := off, sw_has_records := True\<rparr>)))))))"

text \<open>\<open>self.mmap.take()\<close> comes first: the map is gone from the writer even when sealing or publishing fails.\<close>

definition seal_and_publish_current :: "bool \<Rightarrow> unit sw_io" where
  "seal_and_publish_current renameat2_ok =
     bind (get fst) (\<lambda>w.
     case sw_mmap w of
       None \<Rightarrow> ret ()
     | Some m \<Rightarrow>
         bind (upd (\<lambda>w. w\<lparr>sw_mmap := None\<rparr>)) (\<lambda>_.
         bind (on_fs (seal_segment m)) (\<lambda>_.
         bind (on_fs (publish_segment renameat2_ok (segment_temp_path (sw_dir w) (sw_segment_id w))
                        (segment_path (sw_dir w) (sw_segment_id w)))) (\<lambda>_.
         upd (\<lambda>w. w\<lparr>sw_segments_published := as_u64 (sw_segments_published w + 1)\<rparr>)))))"

definition discard_empty :: "unit sw_io" where
  "discard_empty =
     bind (get fst) (\<lambda>w.
     case sw_mmap w of
       None \<Rightarrow> ret ()
     | Some _ \<Rightarrow>
         bind (upd (\<lambda>w. w\<lparr>sw_mmap := None\<rparr>)) (\<lambda>_.
         bind (attempt (on_fs (remove_file (segment_temp_path (sw_dir w) (sw_segment_id w))))) (\<lambda>_. ret ())))"

definition roll :: "bool \<Rightarrow> unit sw_io" where
  "roll renameat2_ok =
     bind (get fst) (\<lambda>w.
     bind (if sw_has_records w then seal_and_publish_current renameat2_ok else discard_empty) (\<lambda>_.
     upd (\<lambda>w. w\<lparr>sw_segment_id := as_u64 (sw_segment_id w + 1), sw_write_offset := SEG_DATA_OFFSET,
                 sw_has_records := False, sw_mmap := None\<rparr>)))"

definition sw_finish :: "bool \<Rightarrow> unit sw_io" where
  "sw_finish renameat2_ok =
     bind (get fst) (\<lambda>w.
     if \<not> sw_has_records w then discard_empty else seal_and_publish_current renameat2_ok)"

section \<open>Directories of published segments\<close>

text \<open>A segment image: header, the records of the messages from offset 64 to \<open>e\<close>, and nothing behind.\<close>

definition seg_holds :: "crc_fun \<Rightarrow> bytes \<Rightarrow> u32 \<Rightarrow> u32 \<Rightarrow> nat \<Rightarrow> message list \<Rightarrow> nat \<Rightarrow> bool" where
  "seg_holds crc bs i fl sz ms e \<longleftrightarrow>
     length bs = sz \<and> seg_hdr bs i fl \<and> chain crc bs 64 (map Msg ms) e \<and> zeros_from bs e"

definition seg_file :: "crc_fun \<Rightarrow> fs \<Rightarrow> path \<Rightarrow> nat \<Rightarrow> nat \<Rightarrow> message list \<Rightarrow> bool" where
  "seg_file crc s dir sz i ms \<longleftrightarrow>
     (\<exists>ino fl e. lookup_path s (segment_path dir i) = Some ino \<and> sealed fl \<and>
        seg_holds crc (fs_data s ino) (word_of_nat i) fl sz ms e)"

text \<open>
  The directory is usable for segment files: it exists, its path can be passed to the kernel,
  and no subdirectory takes a segment's name.
\<close>

definition dir_ok :: "fs \<Rightarrow> path \<Rightarrow> bool" where
  "dir_ok s dir \<longleftrightarrow> is_dir s dir \<and> CHR 0x00 \<notin> set (concat dir) \<and> (\<forall>i. \<not> is_dir s (segment_path dir i))"

lemma is_dir_create_dir_all:
  "is_dir (create_dir_all dir s) d \<longleftrightarrow> is_dir s d \<or> (\<exists>n. d = take n dir)"
proof -
  have "(\<exists>n. d = take n dir) \<longleftrightarrow> d \<in> (\<lambda>n. take n dir) ` {0..<Suc (length dir)}"
    by (auto simp: image_iff Bex_def less_Suc_eq_le) (metis nat_le_linear order_refl take_all)
  then show ?thesis by (auto simp: create_dir_all_def is_dir_def simp del: upt_Suc)
qed

lemma create_dir_all_simps [simp]:
  "lookup_path (create_dir_all dir s) = lookup_path s" "fs_data (create_dir_all dir s) = fs_data s"
  "fs_wf (create_dir_all dir s) = fs_wf s"
  by (simp_all add: create_dir_all_def lookup_path_def fs_wf_def fun_eq_iff)

lemma dir_ok_create:
  assumes "dir_ok s dir"
  shows "dir_ok (create_dir_all dir s) dir"
proof -
  have "segment_path dir i \<noteq> take n dir" for i n
  proof
    assume "segment_path dir i = take n dir"
    then have "length (segment_path dir i) \<le> length dir" by simp
    then show False by (simp add: segment_path_def)
  qed
  then show ?thesis using assms by (auto simp: dir_ok_def is_dir_create_dir_all)
qed

text \<open>
  \<open>log_holds crc dir sz s L\<close>: the segment files of the directory are exactly those listed in
  \<open>L\<close>, in ascending order of their numbers, each with its messages.
\<close>

definition log_holds :: "crc_fun \<Rightarrow> path \<Rightarrow> nat \<Rightarrow> fs \<Rightarrow> (nat \<times> message list) list \<Rightarrow> bool" where
  "log_holds crc dir sz s L \<longleftrightarrow>
     dir_ok s dir \<and> fs_wf s \<and> sorted (map fst L) \<and> distinct (map fst L) \<and>
     (\<forall>i. lookup_path s (segment_path dir i) \<noteq> None \<longleftrightarrow> i \<in> fst ` set L) \<and>
     (\<forall>(i, ms) \<in> set L. seg_file crc s dir sz i ms)"

lemma log_holds_frame:
  assumes "log_holds crc dir sz s L" "fs_wf s'" "is_dir s' = is_dir s"
    and "\<And>i. lookup_path s' (segment_path dir i) = lookup_path s (segment_path dir i)"
    and "\<And>i ino. lookup_path s (segment_path dir i) = Some ino \<Longrightarrow> fs_data s' ino = fs_data s ino"
  shows "log_holds crc dir sz s' L"
proof -
  have sf: "seg_file crc s' dir sz i ms" if "seg_file crc s dir sz i ms" for i ms
    using that assms(5) by (simp add: seg_file_def assms(4)) metis
  have "dir_ok s' dir" using assms(1,3) by (simp add: log_holds_def dir_ok_def)
  then show ?thesis using assms(1,2) sf unfolding log_holds_def assms(4) by blast
qed

text \<open>All files but the segments of the directory are as they were: its indexes, and what lies in other directories.\<close>

definition others_kept :: "path \<Rightarrow> fs \<Rightarrow> fs \<Rightarrow> bool" where
  "others_kept dir s s' \<longleftrightarrow> is_dir s' = is_dir s \<and>
     (\<forall>p. (\<forall>i. p \<noteq> segment_path dir i \<and> p \<noteq> segment_temp_path dir i) \<longrightarrow>
        lookup_path s' p = lookup_path s p \<and> (\<forall>ino. lookup_path s p = Some ino \<longrightarrow> fs_data s' ino = fs_data s ino))"

lemma others_kept_refl [simp]: "others_kept dir s s"
  by (simp add: others_kept_def)

lemma others_kept_trans: "others_kept dir s s1 \<Longrightarrow> others_kept dir s1 s2 \<Longrightarrow> others_kept dir s s2"
  by (simp add: others_kept_def)

lemma others_kept_index:
  assumes "others_kept dir s s'"
  shows "lookup_path s' (index_path dir i) = lookup_path s (index_path dir i)"
    "lookup_path s (index_path dir i) = Some ino \<Longrightarrow> fs_data s' ino = fs_data s ino"
  using assms unfolding others_kept_def by (metis paths_distinct(4) temp_index_distinct(2))+

lemma log_holds_empty:
  assumes "dir_ok s dir" "fs_wf s" "\<And>i. lookup_path s (segment_path dir i) = None"
  shows "log_holds crc dir sz s []"
  using assms by (simp add: log_holds_def)

section \<open>The writer's invariant\<close>

definition sw_inv :: "crc_fun \<Rightarrow> (nat \<times> message list) list \<Rightarrow> message list \<Rightarrow> segment_writer \<times> fs \<Rightarrow> bool" where
  "sw_inv crc L cur = (\<lambda>(w, s).
     128 \<le> sw_segment_size w \<and> sw_segment_size w \<le> u64_max \<and>
     log_holds crc (sw_dir w) (sw_segment_size w) s L \<and>
     (\<forall>i \<in> fst ` set L. i < sw_segment_id w) \<and>
     sw_has_records w = (cur \<noteq> []) \<and>
     (case sw_mmap w of
        None \<Rightarrow> cur = [] \<and> sw_write_offset w = 64
      | Some m \<Rightarrow>
          lookup_path s (segment_temp_path (sw_dir w) (sw_segment_id w)) = Some (mm_ino m) \<and>
          mm_len m = sw_segment_size w \<and> mm_ok m s \<and>
          seg_holds crc (fs_data s (mm_ino m)) (word_of_nat (sw_segment_id w)) 0
            (sw_segment_size w) cur (sw_write_offset w)))"

lemma sw_new_inv:
  assumes "log_holds crc dir sz s L" "128 \<le> sz" "sz \<le> u64_max" "\<forall>i \<in> fst ` set L. i < n"
  shows "sw_inv crc L [] (sw_new dir n sz, s)"
  using assms by (simp add: sw_inv_def sw_new_def)

text \<open>The temporary file of the open segment is not the file of any published segment.\<close>

lemma temp_ino_private:
  assumes "fs_wf s" "lookup_path s (segment_temp_path dir n) = Some ino"
    and "lookup_path s (segment_path dir i) = Some j"
  shows "j \<noteq> ino"
proof
  assume "j = ino"
  then have "segment_path dir i = segment_temp_path dir n"
    using assms unfolding fs_wf_def by blast
  then show False by simp
qed

lemma temp_write_keeps:
  assumes "fs_wf s" "lookup_path s (segment_temp_path dir n) = Some ino"
  shows "others_kept dir s (fs_set ino bs s)"
  using fs_wf_inj [OF assms] by (auto simp: others_kept_def)

lemma ensure_segment_ok:
  assumes "sw_inv crc L cur (w, s)"
  shows "\<exists>w' s' m. ensure_segment (w, s) = (Inr (), w', s') \<and> sw_inv crc L cur (w', s') \<and>
    sw_mmap w' = Some m \<and> sw_dir w' = sw_dir w \<and> sw_segment_id w' = sw_segment_id w \<and>
    sw_segment_size w' = sw_segment_size w \<and> sw_write_offset w' = sw_write_offset w \<and> sw_seq w' = sw_seq w \<and>
    sw_segments_published w' = sw_segments_published w \<and> others_kept (sw_dir w) s s'"
proof (cases "sw_mmap w")
  case None
  let ?d = "sw_dir w" and ?n = "sw_segment_id w" and ?z = "sw_segment_size w"
  have h: "log_holds crc ?d ?z s L" and z: "128 \<le> ?z" "?z \<le> u64_max" and c: "cur = []" "sw_write_offset w = 64"
    using assms None by (auto simp: sw_inv_def)
  then have wf: "fs_wf s" and d: "is_dir s ?d" by (auto simp: log_holds_def dir_ok_def)
  obtain m s' where m: "prepare_segment_temp ?d ?n ?z s = (Inr m, s')" "mm_len m = ?z" "mm_ok m s'"
    "seg_fresh (fs_data s' (mm_ino m)) (word_of_nat ?n) ?z" "mm_ino m = fs_next s"
    "lookup_path s' = (lookup_path s)(segment_temp_path ?d ?n \<mapsto> mm_ino m)"
    "\<forall>j. j \<noteq> mm_ino m \<longrightarrow> fs_data s' j = fs_data s j" "is_dir s' = is_dir s" "fs_wf s'"
    using prepare_segment_temp_ok [of ?z s ?d ?n] z d wf by auto
  have "log_holds crc ?d ?z s' L"
    using m(5-9) fs_wf_less [OF wf] by (intro log_holds_frame [OF h]) (simp, simp, simp, metis less_irrefl)
  then have "sw_inv crc L cur (w\<lparr>sw_write_offset := 64, sw_has_records := False, sw_mmap := Some m\<rparr>, s')"
    using assms m c by (simp add: sw_inv_def None seg_holds_def seg_fresh_def)
  moreover have "others_kept ?d s s'" using m(5-8) fs_wf_less [OF wf] by (fastforce simp: others_kept_def)
  ultimately show ?thesis
    using None m(1) c by (simp add: ensure_segment_def bind_on_fs)
next
  case (Some m)
  then show ?thesis using assms by (simp add: ensure_segment_def ret_def)
qed

text \<open>The stores of one record extend the open segment by one message.\<close>

lemma seg_holds_put:
  assumes "seg_holds crc bs i fl sz ms e" "length (msg_payload m) \<le> MAX_PAYLOAD_LEN"
    and "e + entry_len (Msg m) \<le> sz"
  shows "seg_holds crc (put_record crc bs e m) i fl sz (ms @ [m]) (e + entry_len (Msg m))"
proof -
  have b: "64 + length (msg_payload m) \<le> entry_len (Msg m)" using entry_len_bounds(2) [of "Msg m"] assms(2) by simp
  then have le: "e + 64 + length (msg_payload m) \<le> length bs" using assms by (simp add: seg_holds_def)
  have e: "64 \<le> e" using assms(1) chain_le by (auto simp: seg_holds_def)
  have "seg_hdr (put_record crc bs e m) i fl"
    unfolding put_record_eq [OF le] using assms(1) le e
    by - (rule seg_hdr_splice_data [OF seg_hdr_splice_data], simp_all add: seg_holds_def)
  moreover have "zeros_from (put_record crc bs e m) (e + entry_len (Msg m))"
    using put_record_zeros [OF le, of crc] zeros_from_mono b assms(1) by (simp add: seg_holds_def add.assoc)
  moreover have "chain crc (put_record crc bs e m) 64 (map Msg ms @ [Msg m]) (e + entry_len (Msg m))"
    using put_record_chain [of crc bs "map Msg ms" e m] assms le e by (simp add: seg_holds_def)
  ultimately show ?thesis using assms(1) put_record_length [OF le, of crc] by (simp add: seg_holds_def)
qed

lemma sw_append_ok:
  assumes inv: "sw_inv crc L cur (w, s)" and p: "length payload \<le> MAX_PAYLOAD_LEN"
    and room: "\<not> needs_roll w (record_len (length payload))"
  shows "\<exists>w' s'. sw_append crc type_id ts payload (w, s) = (Inr (), w', s') \<and>
    sw_inv crc L (cur @ [new_msg (sw_seq w) ts type_id payload]) (w', s') \<and>
    sw_dir w' = sw_dir w \<and> sw_segment_id w' = sw_segment_id w \<and> sw_segment_size w' = sw_segment_size w \<and>
    sw_seq w' = sw_seq w + 1 \<and> sw_segments_published w' = sw_segments_published w \<and>
    sw_write_offset w' = sw_write_offset w + record_len (length payload) \<and> others_kept (sw_dir w) s s'"
proof -
  let ?msg = "new_msg (sw_seq w) ts type_id payload" and ?r = "record_len (length payload)"
  obtain w1 s1 m where e: "ensure_segment (w, s) = (Inr (), w1, s1)" "sw_inv crc L cur (w1, s1)"
    "sw_mmap w1 = Some m" "sw_dir w1 = sw_dir w" "sw_segment_id w1 = sw_segment_id w"
    "sw_segment_size w1 = sw_segment_size w" "sw_write_offset w1 = sw_write_offset w" "sw_seq w1 = sw_seq w"
    "sw_segments_published w1 = sw_segments_published w" and k: "others_kept (sw_dir w) s s1"
    using ensure_segment_ok [OF inv] by blast
  let ?o = "sw_write_offset w" and ?z = "sw_segment_size w" and ?b = "fs_data s1 (mm_ino m)"
  have z: "?z \<le> u64_max" and ok: "mm_ok m s1" and ml: "mm_len m = ?z"
    and tmp: "lookup_path s1 (segment_temp_path (sw_dir w) (sw_segment_id w)) = Some (mm_ino m)"
    and sh: "seg_holds crc ?b (word_of_nat (sw_segment_id w)) 0 ?z cur ?o"
    and lh: "log_holds crc (sw_dir w) ?z s1 L"
    using e(2-7) by (simp_all add: sw_inv_def)
  have r: "?o + ?r \<le> ?z" using room by (simp add: needs_roll_def)
  have o64: "64 \<le> ?o" using sh chain_le by (auto simp: seg_holds_def)
  have fit: "?o + 64 + length payload \<le> mm_len m" using record_len_bounds(2) [of "length payload"] p r ml by simp
  let ?s2 = "fs_set (mm_ino m) (put_record crc ?b ?o ?msg) s1"
  let ?w2 = "w1\<lparr>sw_seq := sw_seq w + 1, sw_write_offset := ?o + ?r, sw_has_records := True\<rparr>"
  have "store_record crc m ?o ?msg s1 = (Inr (), ?s2)"
    using store_record_ok [OF ok, of ?msg ?o crc] p fit by simp
  moreover have "\<not> sw_segment_size w - 64 < ?r" using r o64 by linarith
  ultimately have "sw_append crc type_id ts payload (w, s) = (Inr (), ?w2, ?s2)"
    using p r z e(3,7,8)
    by (simp add: sw_append_def Let_def sat_sub64_def bind_ok e(1) bind_on_fs checked_add64_def)
  moreover have "sw_inv crc L (cur @ [?msg]) (?w2, ?s2)"
  proof -
    have "seg_holds crc (put_record crc ?b ?o ?msg) (word_of_nat (sw_segment_id w)) 0 ?z (cur @ [?msg]) (?o + ?r)"
      using seg_holds_put [OF sh, of ?msg] p r by (simp add: entry_len_def)
    moreover have "log_holds crc (sw_dir w) ?z ?s2 L"
      using lh temp_ino_private [OF _ tmp]
      by (intro log_holds_frame [OF lh]) (auto simp: log_holds_def)
    moreover have "length (put_record crc ?b ?o ?msg) = mm_len m"
      using ok put_record_length [of ?o ?msg ?b crc] fit by (simp add: mm_ok_def)
    ultimately show ?thesis using e(2-9) z ok tmp ml by (simp add: sw_inv_def mm_ok_def)
  qed
  moreover have "others_kept (sw_dir w) s ?s2"
    using temp_write_keeps [OF _ tmp] lh by (intro others_kept_trans [OF k]) (simp add: log_holds_def)
  ultimately show ?thesis using e(4-9) by auto
qed

section \<open>Publishing, rolling and finishing\<close>

lemma segment_filename_no_null: "CHR 0x00 \<notin> set (fmt09 i)"
  using fmt09_ascii [of i] by (auto simp: list_all_iff is_ascii_digit_def)

lemma publish_segment_ok:
  assumes "dir_ok s dir" "lookup_path s (segment_temp_path dir i) = Some ino"
    and "lookup_path s (segment_path dir i) = None"
  shows "publish_segment ok2 (segment_temp_path dir i) (segment_path dir i) s =
    (Inr (), fs_link (segment_path dir i) ino (fs_unlink (segment_temp_path dir i) s))"
proof -
  have "\<not> path_exists s (segment_path dir i)" using assms(1,3) by (simp add: path_exists_def dir_ok_def)
  moreover have "CHR 0x00 \<notin> set (concat (segment_temp_path dir i))" "CHR 0x00 \<notin> set (concat (segment_path dir i))"
    using assms(1) segment_filename_no_null [of i]
    by (auto simp: dir_ok_def segment_temp_path_def segment_path_def segment_filename_def segment_temp_filename_def)
  ultimately show ?thesis
    using assms(2) by (simp add: publish_segment_def rename_noreplace_def rename_def)
qed

lemma log_holds_snoc:
  assumes "log_holds crc dir sz s L" "\<forall>i \<in> fst ` set L. i < n"
    and "lookup_path s (segment_temp_path dir n) = Some ino"
    and "sealed fl" "seg_holds crc (fs_data s ino) (word_of_nat n) fl sz ms e"
  shows "log_holds crc dir sz (fs_link (segment_path dir n) ino (fs_unlink (segment_temp_path dir n) s)) (L @ [(n, ms)])"
    (is "log_holds crc dir sz ?s' _")
proof -
  have wf: "fs_wf ?s'" using fs_wf_rename assms(1,3) by (simp add: log_holds_def)
  have lk: "lookup_path ?s' (segment_path dir i) = (if i = n then Some ino else lookup_path s (segment_path dir i))" for i
    by simp
  have old: "seg_file crc ?s' dir sz i us" if "(i, us) \<in> set L" for i us
  proof -
    have "i \<noteq> n" using that assms(2) by force
    moreover have "seg_file crc s dir sz i us" using that assms(1) by (auto simp: log_holds_def)
    ultimately show ?thesis unfolding seg_file_def lk by simp
  qed
  have new: "seg_file crc ?s' dir sz n ms" unfolding seg_file_def lk using assms(4,5) by auto
  have "dir_ok ?s' dir" using assms(1) by (simp add: log_holds_def dir_ok_def)
  moreover have "sorted (map fst (L @ [(n, ms)]))" "distinct (map fst (L @ [(n, ms)]))"
    using assms(1,2) by (auto simp: log_holds_def sorted_append intro: less_imp_le)
  moreover have "lookup_path ?s' (segment_path dir i) \<noteq> None \<longleftrightarrow> i \<in> fst ` set (L @ [(n, ms)])" for i
    unfolding lk using assms(1) by (auto simp: log_holds_def)
  ultimately show ?thesis using wf old new by (auto simp: log_holds_def simp del: lookup_link lookup_unlink)
qed

lemma seal_and_publish_ok:
  assumes inv: "sw_inv crc L cur (w, s)" and m: "sw_mmap w = Some m"
  shows "\<exists>s'. seal_and_publish_current ok2 (w, s) =
      (Inr (), w\<lparr>sw_mmap := None, sw_segments_published := as_u64 (sw_segments_published w + 1)\<rparr>, s') \<and>
    log_holds crc (sw_dir w) (sw_segment_size w) s' (L @ [(sw_segment_id w, cur)]) \<and> others_kept (sw_dir w) s s'"
proof -
  let ?d = "sw_dir w" and ?n = "sw_segment_id w" and ?z = "sw_segment_size w" and ?i = "mm_ino m"
  have lh: "log_holds crc ?d ?z s L" and lt: "\<forall>i \<in> fst ` set L. i < ?n" and ok: "mm_ok m s" "mm_len m = ?z"
    and tmp: "lookup_path s (segment_temp_path ?d ?n) = Some ?i"
    and sh: "seg_holds crc (fs_data s ?i) (word_of_nat ?n) 0 ?z cur (sw_write_offset w)"
    using inv m by (simp_all add: sw_inv_def)
  let ?b = "seal_bytes (fs_data s ?i) (word_of_nat ?n) 0"
  let ?s1 = "fs_set ?i ?b s"
  have hd: "seg_hdr (fs_data s ?i) (word_of_nat ?n) 0" and o64: "64 \<le> sw_write_offset w"
    using sh chain_le by (auto simp: seg_holds_def)
  have seal: "seal_segment m s = (Inr (), ?s1)" by (rule seal_segment_ok [OF ok(1) hd])
  have dr: "drop 64 ?b = drop 64 (fs_data s ?i)" "length ?b = length (fs_data s ?i)"
    and sl: "seg_hdr ?b (word_of_nat ?n) (0 OR SEG_FLAG_SEALED)"
    using seal_bytes_props [OF hd] by simp_all
  have sh1: "seg_holds crc ?b (word_of_nat ?n) (0 OR SEG_FLAG_SEALED) ?z cur (sw_write_offset w)"
    using sh sl dr(2) chain_drop [OF dr, of 64 crc] zeros_from_drop [OF dr o64] by (simp add: seg_holds_def)
  have lh1: "log_holds crc ?d ?z ?s1 L"
    using lh temp_ino_private [OF _ tmp] by (intro log_holds_frame [OF lh]) (auto simp: log_holds_def)
  have "?n \<notin> fst ` set L" using lt by blast
  then have free: "lookup_path ?s1 (segment_path ?d ?n) = None" using lh by (auto simp: log_holds_def)
  have "publish_segment ok2 (segment_temp_path ?d ?n) (segment_path ?d ?n) ?s1 =
      (Inr (), fs_link (segment_path ?d ?n) ?i (fs_unlink (segment_temp_path ?d ?n) ?s1))"
    using lh1 tmp free by (intro publish_segment_ok) (simp_all add: log_holds_def)
  moreover have "log_holds crc ?d ?z (fs_link (segment_path ?d ?n) ?i (fs_unlink (segment_temp_path ?d ?n) ?s1)) (L @ [(?n, cur)])"
    using log_holds_snoc [OF lh1 lt, of ?i "0 OR SEG_FLAG_SEALED" cur "sw_write_offset w"] tmp sh1 by simp
  moreover have "others_kept ?d s (fs_link (segment_path ?d ?n) ?i (fs_unlink (segment_temp_path ?d ?n) ?s1))"
    using temp_write_keeps [OF _ tmp, of ?b] lh by (simp add: log_holds_def others_kept_def)
  ultimately show ?thesis using m seal by (simp add: seal_and_publish_current_def bind_on_fs)
qed

lemma discard_empty_ok:
  assumes inv: "sw_inv crc L [] (w, s)"
  shows "\<exists>s'. discard_empty (w, s) = (Inr (), w\<lparr>sw_mmap := None\<rparr>, s') \<and>
    log_holds crc (sw_dir w) (sw_segment_size w) s' L \<and> others_kept (sw_dir w) s s'"
proof (cases "sw_mmap w")
  case None
  then have "w\<lparr>sw_mmap := None\<rparr> = w" by simp
  then show ?thesis using None inv by (simp add: discard_empty_def ret_def sw_inv_def)
next
  case (Some m)
  let ?p = "segment_temp_path (sw_dir w) (sw_segment_id w)"
  have lh: "log_holds crc (sw_dir w) (sw_segment_size w) s L" and tmp: "lookup_path s ?p = Some (mm_ino m)"
    using inv Some by (simp_all add: sw_inv_def)
  have "log_holds crc (sw_dir w) (sw_segment_size w) (fs_unlink ?p s) L"
    using lh fs_wf_unlink [of s ?p] by (intro log_holds_frame [OF lh]) (auto simp: log_holds_def)
  moreover have "others_kept (sw_dir w) s (fs_unlink ?p s)" by (simp add: others_kept_def)
  ultimately show ?thesis
    using Some tmp by (simp add: discard_empty_def bind_def attempt_def on_fs_def remove_file_def ret_def get_def)
qed

text \<open>The published segments after a roll or a finish.\<close>

definition publish_cur :: "(nat \<times> message list) list \<Rightarrow> nat \<Rightarrow> message list \<Rightarrow> (nat \<times> message list) list" where
  "publish_cur L n cur = (if cur = [] then L else L @ [(n, cur)])"

lemma roll_ok:
  assumes inv: "sw_inv crc L cur (w, s)" and id: "sw_segment_id w < u64_max"
  shows "\<exists>w' s'. roll ok2 (w, s) = (Inr (), w', s') \<and>
    sw_inv crc (publish_cur L (sw_segment_id w) cur) [] (w', s') \<and>
    sw_dir w' = sw_dir w \<and> sw_segment_id w' = sw_segment_id w + 1 \<and> sw_segment_size w' = sw_segment_size w \<and>
    sw_seq w' = sw_seq w \<and> others_kept (sw_dir w) s s'"
proof (cases "cur = []")
  case True
  have hr: "\<not> sw_has_records w" using inv True by (simp add: sw_inv_def)
  obtain s' where "discard_empty (w, s) = (Inr (), w\<lparr>sw_mmap := None\<rparr>, s')"
    "log_holds crc (sw_dir w) (sw_segment_size w) s' L" "others_kept (sw_dir w) s s'"
    using discard_empty_ok inv True by blast
  then show ?thesis
    using hr inv id True by (auto simp: roll_def bind_ok sw_inv_def publish_cur_def)
next
  case False
  have hr: "sw_has_records w" using inv False by (simp add: sw_inv_def)
  obtain m where m: "sw_mmap w = Some m" using inv False by (auto simp: sw_inv_def split: option.splits)
  obtain s' where "seal_and_publish_current ok2 (w, s) =
      (Inr (), w\<lparr>sw_mmap := None, sw_segments_published := as_u64 (sw_segments_published w + 1)\<rparr>, s')"
    "log_holds crc (sw_dir w) (sw_segment_size w) s' (L @ [(sw_segment_id w, cur)])" "others_kept (sw_dir w) s s'"
    using seal_and_publish_ok [OF inv m] by blast
  then show ?thesis
    using hr inv id False by (auto simp: roll_def bind_ok sw_inv_def publish_cur_def)
qed

lemma sw_finish_ok:
  assumes inv: "sw_inv crc L cur (w, s)"
  shows "\<exists>w' s'. sw_finish ok2 (w, s) = (Inr (), w', s') \<and>
    log_holds crc (sw_dir w) (sw_segment_size w) s' (publish_cur L (sw_segment_id w) cur) \<and> others_kept (sw_dir w) s s'"
proof (cases "cur = []")
  case True
  then show ?thesis
    using discard_empty_ok [of crc L w s] inv by (auto simp: sw_finish_def sw_inv_def publish_cur_def)
next
  case False
  then obtain m where "sw_mmap w = Some m" using inv by (auto simp: sw_inv_def split: option.splits)
  with False show ?thesis
    using seal_and_publish_ok [OF inv, of m ok2] inv by (auto simp: sw_finish_def sw_inv_def publish_cur_def)
qed

section \<open>Properties of the segment writer\<close>

text \<open>
  A roll whose publication fails because the target name is taken reports the
  error, but the writer has already given up its map: when the caller retries, the roll
  reports success and moves on to the next segment number, no file is published, and the
  sealed records stay behind under the temporary name.
\<close>

lemma roll_retry_drops_segment:
  assumes "sw_mmap w = Some m" "sw_has_records w" "sw_segment_id w < u64_max" "mm_ok m s"
    and "seg_hdr (fs_data s (mm_ino m)) i fl" "dir_ok s (sw_dir w)"
    and "lookup_path s (segment_temp_path (sw_dir w) (sw_segment_id w)) = Some (mm_ino m)"
    and "lookup_path s (segment_path (sw_dir w) (sw_segment_id w)) = Some j"
  shows "\<exists>w1 s1 w2. roll ok2 (w, s) = (Inl (Io AlreadyExists), w1, s1) \<and>
    roll ok2 (w1, s1) = (Inr (), w2, s1) \<and>
    sw_segment_id w2 = sw_segment_id w + 1 \<and> sw_segments_published w2 = sw_segments_published w \<and>
    lookup_path s1 = lookup_path s"
proof -
  let ?t = "segment_temp_path (sw_dir w) (sw_segment_id w)" and ?p = "segment_path (sw_dir w) (sw_segment_id w)"
  let ?s1 = "fs_set (mm_ino m) (seal_bytes (fs_data s (mm_ino m)) i fl) s" and ?w1 = "w\<lparr>sw_mmap := None\<rparr>"
  have "CHR 0x00 \<notin> set (concat ?t)" "CHR 0x00 \<notin> set (concat ?p)"
    using assms(6) segment_filename_no_null [of "sw_segment_id w"]
    by (auto simp: dir_ok_def segment_temp_path_def segment_path_def segment_filename_def segment_temp_filename_def)
  then have "publish_segment ok2 ?t ?p ?s1 = (Inl (Io AlreadyExists), ?s1)"
    using assms(7,8) by (simp add: publish_segment_def rename_noreplace_def path_exists_def fail_def)
  then have "roll ok2 (w, s) = (Inl (Io AlreadyExists), ?w1, ?s1)"
    using assms(1,2) seal_segment_ok [OF assms(4,5)]
    by (simp add: roll_def seal_and_publish_current_def bind_err bind_on_fs)
  moreover have "roll ok2 (?w1, ?s1) = (Inr (), ?w1\<lparr>sw_segment_id := sw_segment_id w + 1, sw_write_offset := 64,
      sw_has_records := False, sw_mmap := None\<rparr>, ?s1)"
    using assms(2,3) by (simp add: roll_def seal_and_publish_current_def bind_ok ret_def)
  ultimately show ?thesis by auto
qed

end
