(* ===== verification/Segment_Cursor.thy ===== *)
theory Segment_Cursor
  imports Segment_Writer
begin

text \<open>
  \<^verbatim>\<open>src/src/core/segment_cursor.rs\<close>: sequential reading across segments. Reading leaves the
  file system as it is, so the operations take it as an argument and return the result with
  the updated cursor. The loops are functions with a termination measure: every pass that
  does not return moves on to a later segment.
\<close>

section \<open>The cursor\<close>

record message_ref =
  mr_seq :: u64
  mr_timestamp_ns :: u64
  mr_type_id :: u16
  mr_payload_offset :: nat
  mr_payload_len :: nat
  mr_checksum :: u32

record segment_cursor =
  sc_dir :: path
  sc_segments :: "nat list"
  sc_idx :: nat
  sc_segment_size :: nat
  sc_mmap :: "mmap_file option"
  sc_offset :: nat

definition sc_open :: "path \<Rightarrow> nat list \<Rightarrow> nat \<Rightarrow> segment_cursor" where
  "sc_open dir segments segment_size =
     \<lparr>sc_dir = dir, sc_segments = segments, sc_idx = 0, sc_segment_size = segment_size,
      sc_mmap = None, sc_offset = SEG_DATA_OFFSET\<rparr>"

definition current_segment_id :: "segment_cursor \<Rightarrow> nat option" where
  "current_segment_id c = (if sc_idx c < length (sc_segments c) then Some (sc_segments c ! sc_idx c) else None)"

definition advance_segment :: "segment_cursor \<Rightarrow> segment_cursor" where
  "advance_segment c = c\<lparr>sc_idx := sc_idx c + 1, sc_mmap := None, sc_offset := SEG_DATA_OFFSET\<rparr>"

function load_next_segment :: "fs \<Rightarrow> segment_cursor \<Rightarrow> bool result \<times> segment_cursor" where
  "load_next_segment s c =
     (if sc_idx c \<ge> length (sc_segments c) then (Inr False, c)
      else let segment_id = sc_segments c ! sc_idx c in
        if \<not> path_exists s (segment_path (sc_dir c) segment_id)
        then load_next_segment s (c\<lparr>sc_idx := sc_idx c + 1, sc_offset := SEG_DATA_OFFSET\<rparr>)
        else case fst (open_segment (sc_dir c) segment_id (sc_segment_size c) s) of
               Inl e \<Rightarrow> (Inl e, c)
             | Inr m \<Rightarrow> (Inr True, c\<lparr>sc_mmap := Some m\<rparr>))"
  by pat_completeness auto
termination
  by (relation "measure (\<lambda>(s, c). length (sc_segments c) - sc_idx c)") auto

declare load_next_segment.simps [simp del]

text \<open>
  What the loop of \<open>next_header\<close> finds at an offset of the loaded segment: an error, the end
  of the segment (\<open>None\<close>), or a header with the length of its record. An offset so large that
  adding the header size overflows makes the slice index panic.
\<close>

definition header_at :: "bytes \<Rightarrow> nat \<Rightarrow> (message_ref \<times> nat) option result" where
  "header_at bs start =
     (if start + HEADER_SIZE > u64_max then Inl (Panic ''index out of range'')
      else if start + HEADER_SIZE > length bs then Inr None
      else let commit_len = load_commit_len bs start in
        if commit_len = 0 then Inr None
        else rbind (payload_len_from_commit commit_len) (\<lambda>payload_len.
          if payload_len > MAX_PAYLOAD_LEN then Inl (Corrupt ''payload length exceeds max'')
          else let rlen = record_len payload_len in
            if start + rlen > length bs then Inl (Corrupt ''record length out of bounds'')
            else rbind (from_bytes (bslice bs start (start + HEADER_SIZE))) (\<lambda>header.
              Inr (Some (\<lparr>mr_seq = mh_seq header, mr_timestamp_ns = mh_timestamp_ns header,
                          mr_type_id = mh_type_id header, mr_payload_offset = start + HEADER_SIZE,
                          mr_payload_len = payload_len, mr_checksum = mh_checksum header\<rparr>, rlen)))))"

lemma load_next_segment_props:
  assumes "load_next_segment s c = (r, c')"
  shows "sc_segments c' = sc_segments c \<and> sc_idx c \<le> sc_idx c' \<and>
    (r = Inr True \<longrightarrow> sc_idx c' < length (sc_segments c'))"
  using assms
proof (induction s c rule: load_next_segment.induct)
  case (1 s c)
  then show ?case
    by (subst (asm) (2) load_next_segment.simps)
      (fastforce simp: Let_def split: if_splits sum.splits)
qed

function next_header :: "fs \<Rightarrow> segment_cursor \<Rightarrow> message_ref option result \<times> segment_cursor" where
  "next_header s c =
     (case (case sc_mmap c of Some _ \<Rightarrow> (Inr True, c) | None \<Rightarrow> load_next_segment s c) of
        (Inl e, c') \<Rightarrow> (Inl e, c')
      | (Inr loaded, c') \<Rightarrow>
          if \<not> loaded then (Inr None, c')
          else case sc_mmap c' of
                 None \<Rightarrow> (Inl (Panic ''unwrap on None''), c')
               | Some m \<Rightarrow>
                   (case header_at (as_slice m s) (sc_offset c') of
                      Inl e \<Rightarrow> (Inl e, c')
                    | Inr None \<Rightarrow> next_header s (advance_segment c')
                    | Inr (Some (r, rlen)) \<Rightarrow>
                        (case checked_add64 (sc_offset c') rlen of
                           None \<Rightarrow> (Inl (Corrupt ''read offset overflow''), c')
                         | Some off \<Rightarrow> (Inr (Some r), c'\<lparr>sc_offset := off\<rparr>))))"
  by pat_completeness auto
termination
proof (relation "measure (\<lambda>(s, c). 2 * (length (sc_segments c) - sc_idx c) + (if sc_mmap c = None then 0 else 1))", goal_cases)
  case (2 s c x c' loaded m opt)
  show ?case
  proof (cases "sc_mmap c")
    case None
    with 2 have "load_next_segment s c = (Inr True, c')" by (auto split: option.splits)
    from load_next_segment_props [OF this] None show ?thesis
      by (auto simp: advance_segment_def)
  next
    case (Some m')
    with 2 show ?thesis by (auto simp: advance_segment_def)
  qed
qed simp

declare next_header.simps [simp del]

definition read_payload :: "fs \<Rightarrow> segment_cursor \<Rightarrow> nat \<Rightarrow> nat \<Rightarrow> bytes \<Rightarrow> bytes result" where
  "read_payload s c offset len buf =
     (if length buf < len then Inl (Panic ''buffer too small for payload'')
      else case sc_mmap c of
             None \<Rightarrow> Inl (Corrupt ''no segment loaded'')
           | Some m \<Rightarrow>
               if offset + len > mm_len m then Inl (Corrupt ''payload out of bounds'')
               else Inr (bsplice buf 0 (bslice (as_slice m s) offset (offset + len))))"

fun position :: "nat list \<Rightarrow> nat \<Rightarrow> nat option" where
  "position [] x = None"
| "position (y # ys) x = (if y = x then Some 0 else map_option Suc (position ys x))"

definition sc_seek_segment :: "fs \<Rightarrow> nat \<Rightarrow> nat \<Rightarrow> segment_cursor \<Rightarrow> unit result \<times> segment_cursor" where
  "sc_seek_segment s segment_id offset c =
     (case position (sc_segments c) segment_id of
        None \<Rightarrow> (Inl (Unsupported ''segment not found''), c)
      | Some idx \<Rightarrow>
          (case load_next_segment s (c\<lparr>sc_idx := idx, sc_mmap := None, sc_offset := offset\<rparr>) of
             (Inl e, c') \<Rightarrow> (Inl e, c')
           | (Inr _, c') \<Rightarrow> (Inr (), c')))"

section \<open>Messages still to be read\<close>

text \<open>
  A listed segment is there with its messages, or it has been removed since it was listed and
  counts as empty.
\<close>

definition seg_avail :: "crc_fun \<Rightarrow> fs \<Rightarrow> path \<Rightarrow> nat \<Rightarrow> nat \<times> message list \<Rightarrow> bool" where
  "seg_avail crc s dir sz p \<longleftrightarrow>
     (case p of (i, ms) \<Rightarrow> seg_file crc s dir sz i ms \<or> (ms = [] \<and> \<not> path_exists s (segment_path dir i)))"

definition sc_pending :: "crc_fun \<Rightarrow> fs \<Rightarrow> (nat \<times> message list) list \<Rightarrow> segment_cursor \<Rightarrow> message list \<Rightarrow> bool" where
  "sc_pending crc s L c ms \<longleftrightarrow>
     sc_segments c = map fst L \<and> sc_segment_size c + 64 \<le> u64_max \<and>
     (\<forall>p \<in> set L. seg_avail crc s (sc_dir c) (sc_segment_size c) p) \<and>
     (case sc_mmap c of
        None \<Rightarrow> sc_offset c = 64 \<and> ms = concat (map snd (drop (sc_idx c) L))
      | Some m \<Rightarrow>
          (\<exists>ms1 e. mm_ok m s \<and> mm_len m = sc_segment_size c \<and> sc_offset c \<le> sc_segment_size c \<and>
             chain crc (fs_data s (mm_ino m)) (sc_offset c) (map Msg ms1) e \<and>
             zeros_from (fs_data s (mm_ino m)) e \<and>
             ms = ms1 @ concat (map snd (drop (Suc (sc_idx c)) L))))"

lemma sc_pending_open:
  assumes "\<forall>p \<in> set L. seg_avail crc s dir sz p" "sz + 64 \<le> u64_max"
  shows "sc_pending crc s L (sc_open dir (map fst L) sz) (concat (map snd L))"
  using assms by (simp add: sc_pending_def sc_open_def)

lemma header_at_entry:
  assumes "entry_at crc bs off (Msg m)" "length bs \<le> u64_max"
  shows "header_at bs off = Inr (Some (\<lparr>mr_seq = msg_seq m, mr_timestamp_ns = msg_timestamp_ns m,
     mr_type_id = msg_type_id m, mr_payload_offset = off + 64, mr_payload_len = length (msg_payload m),
     mr_checksum = crc (msg_payload m)\<rparr>, entry_len (Msg m)))"
proof -
  have n: "length (msg_payload m) \<le> MAX_PAYLOAD_LEN" and le: "off + entry_len (Msg m) \<le> length bs"
    using assms(1) by (simp_all add: entry_at_def)
  moreover have "64 \<le> entry_len (Msg m)" using entry_len_bounds(1) [of "Msg m"] n by simp
  ultimately show ?thesis
    using assms(2) entry_at_commit [OF assms(1)] entry_at_header [OF assms(1)] commit_of_payload(2,3) [OF n]
    by (simp add: header_at_def Let_def entry_len_def msg_header_def new_uncommitted_def del: of_nat_Suc)
qed

lemma header_at_zeros:
  "zeros_from bs off \<Longrightarrow> off \<le> length bs \<Longrightarrow> length bs + 64 \<le> u64_max \<Longrightarrow> header_at bs off = Inr None"
  using zeros_from_commit [of bs off off] by (auto simp: header_at_def Let_def)

lemma seg_file_open:
  assumes "seg_file crc s dir sz i ms" "sz \<le> u64_max"
  shows "path_exists s (segment_path dir i) \<and> (\<exists>m e. open_segment dir i sz s = (Inr m, s) \<and> mm_ok m s \<and> mm_len m = sz \<and> 64 \<le> sz \<and>
    chain crc (fs_data s (mm_ino m)) 64 (map Msg ms) e \<and> zeros_from (fs_data s (mm_ino m)) e)"
proof -
  obtain ino fl e where f: "lookup_path s (segment_path dir i) = Some ino"
    "seg_holds crc (fs_data s ino) (word_of_nat i) fl sz ms e"
    using assms(1) by (auto simp: seg_file_def)
  then have "open_segment dir i sz s = (Inr \<lparr>mm_ino = ino, mm_len = sz\<rparr>, s)"
    using assms(2) open_segment_ok [of s dir i ino sz fl] by (simp add: seg_holds_def)
  then show ?thesis using f assms(2) by (auto simp: path_exists_def seg_holds_def seg_hdr_def mm_ok_def)
qed

lemma load_next_segment_pending:
  assumes "sc_pending crc s L c ms" "sc_mmap c = None"
  shows "(\<exists>c'. load_next_segment s c = (Inr False, c') \<and> ms = [] \<and> sc_pending crc s L c' [] \<and> sc_mmap c' = None) \<or>
    (\<exists>c' m. load_next_segment s c = (Inr True, c') \<and> sc_mmap c' = Some m \<and> sc_pending crc s L c' ms)"
  using assms
proof (induction s c rule: load_next_segment.induct)
  case (1 s c)
  show ?case
  proof (cases "sc_idx c < length L")
    case False
    then show ?thesis using 1(2,3) by (auto simp: sc_pending_def load_next_segment.simps)
  next
    case True
    obtain i us where iu: "L ! sc_idx c = (i, us)" by fastforce
    have sg: "sc_segments c = map fst L" and z: "sc_segment_size c \<le> u64_max"
      and off: "sc_offset c = 64" and ms: "ms = us @ concat (map snd (drop (Suc (sc_idx c)) L))"
      and av: "seg_avail crc s (sc_dir c) (sc_segment_size c) (i, us)"
      using 1(2,3) True iu nth_mem [OF True] by (auto simp: sc_pending_def Cons_nth_drop_Suc [symmetric])
    have nth: "sc_segments c ! sc_idx c = i" "sc_idx c < length (sc_segments c)" using sg True iu by simp_all
    show ?thesis
    proof (cases "path_exists s (segment_path (sc_dir c) i)")
      case False
      let ?c = "c\<lparr>sc_idx := sc_idx c + 1, sc_offset := SEG_DATA_OFFSET\<rparr>"
      have "us = []" using av False seg_file_open [OF _ z] by (auto simp: seg_avail_def)
      then have "sc_pending crc s L ?c ms" using 1(2,3) ms by (simp add: sc_pending_def)
      then show ?thesis
        using 1(1) [of i] 1(3) nth False by (subst (1 2) load_next_segment.simps) simp
    next
      case ex: True
      then have "seg_file crc s (sc_dir c) (sc_segment_size c) i us" using av by (auto simp: seg_avail_def)
      from seg_file_open [OF this z] obtain m e where m: "open_segment (sc_dir c) i (sc_segment_size c) s = (Inr m, s)"
        "mm_ok m s" "mm_len m = sc_segment_size c" "64 \<le> sc_segment_size c"
        "chain crc (fs_data s (mm_ino m)) 64 (map Msg us) e" "zeros_from (fs_data s (mm_ino m)) e"
        by blast
      have "sc_pending crc s L (c\<lparr>sc_mmap := Some m\<rparr>) ms"
        using 1(2) m(2-6) off ms by (auto simp: sc_pending_def)
      then show ?thesis using nth ex m(1) by (subst (1 2) load_next_segment.simps) simp
    qed
  qed
qed

text \<open>What a returned reference says of a message: its fields, and where its payload is.\<close>

definition ref_of :: "crc_fun \<Rightarrow> fs \<Rightarrow> segment_cursor \<Rightarrow> message_ref \<Rightarrow> message \<Rightarrow> bool" where
  "ref_of crc s c r m \<longleftrightarrow>
     mr_seq r = msg_seq m \<and> mr_timestamp_ns r = msg_timestamp_ns m \<and> mr_type_id r = msg_type_id m \<and>
     mr_payload_len r = length (msg_payload m) \<and> mr_checksum r = crc (msg_payload m) \<and>
     (\<forall>buf. mr_payload_len r \<le> length buf \<longrightarrow>
        read_payload s c (mr_payload_offset r) (mr_payload_len r) buf = Inr (bsplice buf 0 (msg_payload m)))"

lemma entry_payload_read:
  assumes "entry_at crc (fs_data s (mm_ino mm)) off (Msg m)" "mm_ok mm s" "sc_mmap c = Some mm"
    "length (msg_payload m) \<le> length buf"
  shows "read_payload s c (off + 64) (length (msg_payload m)) buf = Inr (bsplice buf 0 (msg_payload m))"
proof -
  have "64 + length (msg_payload m) \<le> entry_len (Msg m)"
    using entry_len_bounds(2) [of "Msg m"] assms(1) by (simp add: entry_at_def)
  then show ?thesis
    using assms by (auto simp: read_payload_def as_slice_ok entry_at_def mm_ok_def)
qed

text \<open>One pass of the loop over a loaded segment: it returns the first pending message or moves on.\<close>

lemma pending_head:
  assumes "sc_pending crc s L c ms" "sc_mmap c = Some mm"
  shows "(header_at (as_slice mm s) (sc_offset c) = Inr None \<and> sc_pending crc s L (advance_segment c) ms) \<or>
    (\<exists>m ms' r rlen. ms = m # ms' \<and> header_at (as_slice mm s) (sc_offset c) = Inr (Some (r, rlen)) \<and>
       sc_offset c + rlen \<le> u64_max \<and> mr_payload_offset r = sc_offset c + 64 \<and>
       ref_of crc s (c\<lparr>sc_offset := sc_offset c + rlen\<rparr>) r m \<and>
       sc_pending crc s L (c\<lparr>sc_offset := sc_offset c + rlen\<rparr>) ms')"
proof -
  let ?b = "fs_data s (mm_ino mm)"
  obtain ms1 e where p: "mm_ok mm s" "mm_len mm = sc_segment_size c" "sc_segment_size c + 64 \<le> u64_max"
    "sc_offset c \<le> sc_segment_size c" "chain crc ?b (sc_offset c) (map Msg ms1) e" "zeros_from ?b e"
    "ms = ms1 @ concat (map snd (drop (Suc (sc_idx c)) L))"
    using assms by (auto simp: sc_pending_def)
  have len: "length ?b = sc_segment_size c" using p(1,2) by (simp add: mm_ok_def)
  show ?thesis
  proof (cases ms1)
    case Nil
    then have "header_at (as_slice mm s) (sc_offset c) = Inr None"
      using header_at_zeros [of ?b "sc_offset c"] p len by (simp add: as_slice_ok)
    then show ?thesis using assms(1) p(7) Nil by (simp add: sc_pending_def advance_segment_def)
  next
    case (Cons m us)
    with p(5) have en: "entry_at crc ?b (sc_offset c) (Msg m)"
      and ch: "chain crc ?b (sc_offset c + entry_len (Msg m)) (map Msg us) e" by simp_all
    have le: "sc_offset c + entry_len (Msg m) \<le> sc_segment_size c" using en len by (simp add: entry_at_def)
    have "sc_pending crc s L (c\<lparr>sc_offset := sc_offset c + entry_len (Msg m)\<rparr>) (us @ concat (map snd (drop (Suc (sc_idx c)) L)))"
      using assms p(1,2,6) ch le by (auto simp: sc_pending_def)
    moreover have "header_at (as_slice mm s) (sc_offset c) = Inr (Some (\<lparr>mr_seq = msg_seq m,
        mr_timestamp_ns = msg_timestamp_ns m, mr_type_id = msg_type_id m, mr_payload_offset = sc_offset c + 64,
        mr_payload_len = length (msg_payload m), mr_checksum = crc (msg_payload m)\<rparr>, entry_len (Msg m)))"
      using header_at_entry [OF en] p(1) len by (simp add: as_slice_ok mm_ok_def)
    moreover have "sc_offset c + entry_len (Msg m) \<le> u64_max" using le p(3) by simp
    ultimately show ?thesis
      using Cons p(7) entry_payload_read [OF en p(1)] assms(2) by (auto simp: ref_of_def)
  qed
qed

lemma next_header_pending:
  assumes "sc_pending crc s L c ms"
  shows "case ms of
      [] \<Rightarrow> \<exists>c'. next_header s c = (Inr None, c') \<and> sc_pending crc s L c' []
    | m # ms' \<Rightarrow> \<exists>r c'. next_header s c = (Inr (Some r), c') \<and> ref_of crc s c' r m \<and> sc_pending crc s L c' ms' \<and>
        sc_pending crc s L (c'\<lparr>sc_offset := mr_payload_offset r - 64\<rparr>) ms"
  using assms
proof (induction s c rule: next_header.induct)
  case (1 s c)
  let ?step = "case sc_mmap c of Some _ \<Rightarrow> (Inr True, c) | None \<Rightarrow> load_next_segment s c"
  consider c' where "?step = (Inr False, c')" "ms = []" "sc_pending crc s L c' []"
    | c' m where "?step = (Inr True, c')" "sc_mmap c' = Some m" "sc_pending crc s L c' ms"
    using load_next_segment_pending [OF 1(2)] 1(2) by (cases "sc_mmap c") auto
  then show ?case
  proof cases
    case (1 c')
    then show ?thesis by (subst next_header.simps) simp
  next
    case (2 c' m)
    from pending_head [OF 2(3,2)] show ?thesis
    proof (elim disjE exE conjE)
      assume h: "header_at (as_slice m s) (sc_offset c') = Inr None" "sc_pending crc s L (advance_segment c') ms"
      have "next_header s c = next_header s (advance_segment c')"
        using 2 h(1) by (subst next_header.simps) simp
      then show ?thesis using "1.IH" [OF 2(1) [symmetric] refl _ 2(2) h(1) refl h(2)] by (cases ms) simp_all
    next
      fix x xs r rlen
      assume "ms = x # xs" "header_at (as_slice m s) (sc_offset c') = Inr (Some (r, rlen))"
        "sc_offset c' + rlen \<le> u64_max" "mr_payload_offset r = sc_offset c' + 64" "ref_of crc s (c'\<lparr>sc_offset := sc_offset c' + rlen\<rparr>) r x"
        "sc_pending crc s L (c'\<lparr>sc_offset := sc_offset c' + rlen\<rparr>) xs"
      then show ?thesis using 2 by (subst next_header.simps) (simp add: checked_add64_def)
    qed
  qed
qed

end
