(* ===== verification/Store.thy ===== *)
theory Store
  imports Prelude
begin

text \<open>
  The two interfaces that the log and the queue share, as locales: a store that numbers the
  records it accepts and keeps them in order, and a source that returns what is pending,
  one message at a time. The clients' lemmas, whole sessions of appends and whole scans, are
  proved here once; \<open>Log\<close>, \<open>Writer\<close> and \<open>Reader\<close> interpret the locales on their operations.
\<close>

section \<open>Sequences of operations\<close>

text \<open>One operation after the other, until the first error.\<close>

fun run_all :: "('r \<Rightarrow> ('s, unit) io) \<Rightarrow> 'r list \<Rightarrow> ('s, unit) io" where
  "run_all op [] = ret ()"
| "run_all op (r # rs) = bind (op r) (\<lambda>_. run_all op rs)"

text \<open>The items of a session, with consecutive sequence numbers that wrap at 64 bits.\<close>

fun numbered :: "(u64 \<Rightarrow> 'r \<Rightarrow> 'm) \<Rightarrow> u64 \<Rightarrow> 'r list \<Rightarrow> 'm list" where
  "numbered item q [] = []"
| "numbered item q (r # rs) = item q r # numbered item (q + 1) rs"

text \<open>Successive calls return exactly these messages and then none.\<close>

fun reads :: "('r \<Rightarrow> 'm option result \<times> 'r) \<Rightarrow> 'r \<Rightarrow> 'm list \<Rightarrow> bool" where
  "reads next r [] = (fst (next r) = Inr None)"
| "reads next r (m # ms) = (case next r of (res, r') \<Rightarrow> res = Inr (Some m) \<and> reads next r' ms)"

lemma length_numbered [simp]: "length (numbered item q rs) = length rs"
  by (induction rs arbitrary: q) simp_all

lemma numbered_append: "numbered item q (xs @ ys) = numbered item q xs @ numbered item (q + word_of_nat (length xs)) ys"
  by (induction xs arbitrary: q) (simp_all add: algebra_simps)

section \<open>Stores\<close>

text \<open>
  \<open>holds s ms\<close>: the store in state \<open>s\<close> contains the messages \<open>ms\<close>; \<open>room s\<close>: how many more appends
  are certain not to run out of segment numbers.
\<close>

locale record_store =
  fixes holds :: "'s \<Rightarrow> 'm list \<Rightarrow> bool"
    and append :: "'r \<Rightarrow> ('s, unit) io"
    and accepts :: "'s \<Rightarrow> 'r \<Rightarrow> bool"
    and item :: "u64 \<Rightarrow> 'r \<Rightarrow> 'm"
    and next_seq :: "'s \<Rightarrow> u64"
    and room :: "'s \<Rightarrow> nat"
  assumes append_ok: "holds s ms \<Longrightarrow> accepts s r \<Longrightarrow> 0 < room s \<Longrightarrow>
    \<exists>s'. append r s = (Inr (), s') \<and> holds s' (ms @ [item (next_seq s) r]) \<and> next_seq s' = next_seq s + 1 \<and>
      room s \<le> room s' + 1 \<and> accepts s' = accepts s"
begin

lemma append_all:
  assumes "holds s ms" "\<forall>r \<in> set rs. accepts s r" "length rs \<le> room s"
  shows "\<exists>s'. run_all append rs s = (Inr (), s') \<and> holds s' (ms @ numbered item (next_seq s) rs) \<and>
    next_seq s' = next_seq s + word_of_nat (length rs) \<and> room s \<le> room s' + length rs \<and> accepts s' = accepts s"
  using assms
proof (induction rs arbitrary: s ms)
  case Nil
  then show ?case by (simp add: ret_def)
next
  case (Cons r rs)
  obtain s1 where a: "append r s = (Inr (), s1)" "holds s1 (ms @ [item (next_seq s) r])" "next_seq s1 = next_seq s + 1"
    "room s \<le> room s1 + 1" "accepts s1 = accepts s"
    using append_ok [OF Cons.prems(1), of r] Cons.prems(2,3) by auto
  obtain s2 where b: "run_all append rs s1 = (Inr (), s2)"
    "holds s2 ((ms @ [item (next_seq s) r]) @ numbered item (next_seq s1) rs)"
    "next_seq s2 = next_seq s1 + word_of_nat (length rs)" "room s1 \<le> room s2 + length rs" "accepts s2 = accepts s1"
    using Cons.IH [OF a(2)] Cons.prems(2,3) a(4,5) by auto
  show ?case using a b by (simp add: bind_ok algebra_simps)
qed

end

section \<open>Sources\<close>

text \<open>\<open>pending r ms\<close>: the reader in state \<open>r\<close> has still to return \<open>ms\<close>.\<close>

locale record_source =
  fixes pending :: "'r \<Rightarrow> 'm list \<Rightarrow> bool"
    and read_next :: "'r \<Rightarrow> 'm option result \<times> 'r"
  assumes next_end: "pending r [] \<Longrightarrow> \<exists>r'. read_next r = (Inr None, r')"
    and next_some: "pending r (m # ms) \<Longrightarrow> \<exists>r'. read_next r = (Inr (Some m), r') \<and> pending r' ms"
begin

lemma reads_pending: "pending r ms \<Longrightarrow> reads read_next r ms"
proof (induction ms arbitrary: r)
  case Nil
  then show ?case using next_end [of r] by auto
next
  case (Cons m ms)
  then show ?case using next_some [of r m ms] by auto
qed

lemma pending_unique:
  assumes "pending r ms" "pending r ms'"
  shows "ms = ms'"
  using assms
proof (induction ms arbitrary: r ms')
  case Nil
  then show ?case using next_end [of r] next_some [of r] by (cases ms') fastforce+
next
  case (Cons m ms)
  obtain r' where r': "read_next r = (Inr (Some m), r')" "pending r' ms" using next_some [OF Cons.prems(1)] by blast
  show ?case
  proof (cases ms')
    case Nil
    then show ?thesis using next_end [of r] Cons.prems(2) r'(1) by simp
  next
    case (Cons m' ks)
    then obtain r'' where "read_next r = (Inr (Some m'), r'')" "pending r'' ks"
      using next_some [of r m' ks] \<open>pending r ms'\<close> by auto
    then show ?thesis using Cons.IH [of r' ks] r' Cons by simp
  qed
qed

end

end
