(* ===== verification/Log.thy ===== *)
theory Log
  imports Segment_Cursor Store
begin

text \<open>
  \<^verbatim>\<open>src/src/core/log.rs\<close>: the append-only log built from the segment writer and the segment
  cursor, and the property that makes it a log: what sessions of appends put in, a reader
  gets back, in order, across segments.
\<close>

section \<open>The log writer\<close>

record log_writer =
  lw_writer :: segment_writer
  lw_segment_size :: nat

type_synonym 'a lw_io = "(log_writer \<times> fs, 'a) io"

definition on_writer :: "'a sw_io \<Rightarrow> 'a lw_io" where
  "on_writer m = (\<lambda>(l, s). case m (lw_writer l, s) of (r, w, s') \<Rightarrow> (r, l\<lparr>lw_writer := w\<rparr>, s'))"

definition log_open :: "path \<Rightarrow> nat \<Rightarrow> (fs, log_writer) io" where
  "log_open dir segment_size =
     bind (lift (if segment_size = 0 then Inr DEFAULT_SEGMENT_SIZE
                 else validate_segment_size segment_size)) (\<lambda>sz.
     bind (modify (create_dir_all dir)) (\<lambda>_.
     bind (next_segment_id dir) (\<lambda>segment_id.
     ret \<lparr>lw_writer = sw_new dir segment_id sz, lw_segment_size = sz\<rparr>)))"

definition log_append :: "crc_fun \<Rightarrow> bool \<Rightarrow> u16 \<Rightarrow> u64 \<Rightarrow> bytes \<Rightarrow> unit lw_io" where
  "log_append crc renameat2_ok type_id timestamp_ns payload =
     (if length payload > MAX_PAYLOAD_LEN then fail PayloadTooLarge
      else let rlen = record_len (length payload) in
        bind (get fst) (\<lambda>l.
        if rlen > sat_sub64 (lw_segment_size l) SEG_DATA_OFFSET then fail PayloadTooLarge
        else bind (if needs_roll (lw_writer l) rlen then on_writer (roll renameat2_ok) else ret ()) (\<lambda>_.
             on_writer (sw_append crc type_id timestamp_ns payload))))"

definition log_finish :: "bool \<Rightarrow> unit lw_io" where
  "log_finish renameat2_ok = on_writer (sw_finish renameat2_ok)"

section \<open>The log reader\<close>

record log_reader =
  lr_cursor :: segment_cursor
  lr_payload_buf :: bytes

definition log_reader_open :: "path \<Rightarrow> (fs, log_reader) io" where
  "log_reader_open dir =
     bind (get (\<lambda>s. path_exists s dir)) (\<lambda>ex.
     if \<not> ex then fail (Io NotFound)
     else bind (discover_segments dir) (\<lambda>found.
          let segments = sort found in
          bind (if segments \<noteq> []
                then bind (open_read (segment_path dir (segments ! 0))) (\<lambda>i. get (\<lambda>s. length (fs_data s i)))
                else ret DEFAULT_SEGMENT_SIZE) (\<lambda>segment_size.
          ret \<lparr>lr_cursor = sc_open dir segments segment_size, lr_payload_buf = replicate 8192 0\<rparr>)))"

definition log_next :: "crc_fun \<Rightarrow> fs \<Rightarrow> log_reader \<Rightarrow> message option result \<times> log_reader" where
  "log_next crc s r =
     (case next_header s (lr_cursor r) of
        (Inl e, c) \<Rightarrow> (Inl e, r\<lparr>lr_cursor := c\<rparr>)
      | (Inr None, c) \<Rightarrow> (Inr None, r\<lparr>lr_cursor := c\<rparr>)
      | (Inr (Some mr), c) \<Rightarrow>
          let buf = lr_payload_buf r @ replicate (mr_payload_len mr - length (lr_payload_buf r)) 0 in
          case read_payload s c (mr_payload_offset mr) (mr_payload_len mr) buf of
            Inl e \<Rightarrow> (Inl e, r\<lparr>lr_cursor := c, lr_payload_buf := buf\<rparr>)
          | Inr buf' \<Rightarrow>
              let r' = r\<lparr>lr_cursor := c, lr_payload_buf := buf'\<rparr>;
                  payload = take (mr_payload_len mr) buf'
              in if mr_checksum mr \<noteq> crc payload then (Inl (Corrupt ''checksum mismatch''), r')
                 else (Inr (Some (new_msg (mr_seq mr) (mr_timestamp_ns mr) (mr_type_id mr) payload)), r'))"

definition log_seek_segment :: "fs \<Rightarrow> nat \<Rightarrow> log_reader \<Rightarrow> unit result \<times> log_reader" where
  "log_seek_segment s segment_id r =
     (case sc_seek_segment s segment_id SEG_DATA_OFFSET (lr_cursor r) of
        (res, c) \<Rightarrow> (res, r\<lparr>lr_cursor := c\<rparr>))"

text \<open>Successive calls of \<open>next\<close> on an unchanging directory, and sessions of appends.\<close>

abbreviation log_reads :: "crc_fun \<Rightarrow> fs \<Rightarrow> log_reader \<Rightarrow> message list \<Rightarrow> bool" where
  "log_reads crc s \<equiv> reads (log_next crc s)"

abbreviation log_append_all :: "crc_fun \<Rightarrow> bool \<Rightarrow> (u16 \<times> u64 \<times> bytes) list \<Rightarrow> unit lw_io" where
  "log_append_all crc ok2 \<equiv> run_all (\<lambda>(t, ts, p). log_append crc ok2 t ts p)"

fun log_item :: "u64 \<Rightarrow> u16 \<times> u64 \<times> bytes \<Rightarrow> message" where
  "log_item q (t, ts, p) = new_msg q ts t p"

definition log_session :: "crc_fun \<Rightarrow> bool \<Rightarrow> path \<Rightarrow> nat \<Rightarrow> (u16 \<times> u64 \<times> bytes) list \<Rightarrow> (fs, unit) io" where
  "log_session crc ok2 dir segment_size rs =
     bind (log_open dir segment_size) (\<lambda>l s.
       case bind (log_append_all crc ok2 rs) (\<lambda>_. log_finish ok2) (l, s) of (r, _, s') \<Rightarrow> (r, s'))"

definition fits :: "nat \<Rightarrow> u16 \<times> u64 \<times> bytes \<Rightarrow> bool" where
  "fits sz r \<longleftrightarrow> length (snd (snd r)) \<le> MAX_PAYLOAD_LEN \<and> record_len (length (snd (snd r))) \<le> sz - 64"

section \<open>Reading\<close>

lemma log_next_pending:
  assumes "sc_pending crc s L (lr_cursor r) ms"
  shows "case ms of
      [] \<Rightarrow> fst (log_next crc s r) = Inr None
    | m # ms' \<Rightarrow> \<exists>r'. log_next crc s r = (Inr (Some m), r') \<and> sc_pending crc s L (lr_cursor r') ms'"
proof (cases ms)
  case Nil
  then show ?thesis using next_header_pending [OF assms] by (auto simp: log_next_def)
next
  case (Cons m us)
  then obtain mr c where nh: "next_header s (lr_cursor r) = (Inr (Some mr), c)" "ref_of crc s c mr m"
    "sc_pending crc s L c us"
    using next_header_pending [OF assms] by auto
  let ?buf = "lr_payload_buf r @ replicate (mr_payload_len mr - length (lr_payload_buf r)) 0"
  have "mr_payload_len mr \<le> length ?buf" by simp
  then have "read_payload s c (mr_payload_offset mr) (mr_payload_len mr) ?buf = Inr (bsplice ?buf 0 (msg_payload m))"
    using nh(2) unfolding ref_of_def by blast
  moreover have "take (mr_payload_len mr) (bsplice ?buf 0 (msg_payload m)) = msg_payload m"
    using nh(2) by (simp add: ref_of_def bsplice_def)
  ultimately show ?thesis using nh Cons by (auto simp: log_next_def ref_of_def Let_def)
qed

interpretation log_src: record_source "\<lambda>r ms. sc_pending crc s L (lr_cursor r) ms" "log_next crc s" for crc s L
proof (unfold_locales, goal_cases)
  case (1 r)
  then show ?case using log_next_pending [OF 1] by (cases "log_next crc s r") simp
next
  case (2 r m ms)
  then show ?case using log_next_pending [OF 2] by simp
qed

section \<open>Discovering segments\<close>

lemma in_map_filter: "y \<in> set (List.map_filter f xs) \<longleftrightarrow> (\<exists>x \<in> set xs. f x = Some y)"
  by (induction xs) (auto simp: map_filter_simps split: option.splits)

lemma read_dir_iff:
  "(name, True) \<in> set (read_dir dir s) \<longleftrightarrow> (\<exists>p j. (p, j) \<in> set (fs_names s) \<and> p \<noteq> [] \<and> butlast p = dir \<and> name = last p)"
  by (auto simp: read_dir_def image_iff)

lemma read_dir_files:
  assumes "dir_ok s dir" "path_exists s dir"
  shows "set (List.map_filter (\<lambda>(name, is_file). if is_file then parse_segment_filename name else None) (read_dir dir s))
     = {i. i < 1000000000 \<and> lookup_path s (segment_path dir i) \<noteq> None}" (is "?l = ?r")
proof (rule set_eqI)
  fix i
  have "i \<in> ?l \<longleftrightarrow> (\<exists>name. (name, True) \<in> set (read_dir dir s) \<and> parse_segment_filename name = Some i)"
    unfolding in_map_filter
    by (rule iffI, auto split: if_splits, rule bexI [where x = "(name, True)" for name], auto)
  also have "\<dots> \<longleftrightarrow> (\<exists>p j. (p, j) \<in> set (fs_names s) \<and> p \<noteq> [] \<and> butlast p = dir \<and> parse_segment_filename (last p) = Some i)"
    unfolding read_dir_iff by metis
  also have "\<dots> \<longleftrightarrow> i < 1000000000 \<and> (\<exists>j. (segment_path dir i, j) \<in> set (fs_names s))"
  proof -
    have "p = segment_path dir i \<and> i < 1000000000"
      if "p \<noteq> []" "butlast p = dir" "parse_segment_filename (last p) = Some i" for p
      using that parse_segment_filename_sound [OF that(3)] parse_segment_filename_eq [of i]
      by (metis append_butlast_last_id option.distinct(1) segment_path_def)
    moreover have "parse_segment_filename (last (segment_path dir i)) = Some i" if "i < 1000000000"
      using that by (simp add: segment_path_def parse_segment_filename_eq)
    moreover have "segment_path dir i \<noteq> []" "butlast (segment_path dir i) = dir" by (simp_all add: segment_path_def)
    ultimately show ?thesis by metis
  qed
  also have "\<dots> \<longleftrightarrow> i \<in> ?r" by (force simp: lookup_path_def map_of_eq_None_iff)
  finally show "i \<in> ?l \<longleftrightarrow> i \<in> ?r" .
qed

lemma read_dir_distinct:
  assumes "fs_wf s"
  shows "distinct (List.map_filter (\<lambda>(name, is_file). if is_file then parse_segment_filename name else None) (read_dir dir s))"
proof -
  have gen: "distinct (List.map_filter f (map (\<lambda>(p, _). (last p, True)) (filter (\<lambda>(p, _). p \<noteq> [] \<and> butlast p = dir) xs)))"
    if f: "f = (\<lambda>(name, is_file). if is_file then parse_segment_filename name else None)"
      and "distinct (map fst xs)" for f and xs :: "(path \<times> inode) list"
    using that(2)
  proof (induction xs)
    case (Cons x xs)
    obtain p j where x: "x = (p, j)" by fastforce
    show ?case
    proof (cases "p \<noteq> [] \<and> butlast p = dir \<and> parse_segment_filename (last p) \<noteq> None")
      case True
      then obtain i where i: "parse_segment_filename (last p) = Some i" by auto
      have "i \<notin> set (List.map_filter f (map (\<lambda>(p, _). (last p, True)) (filter (\<lambda>(p, _). p \<noteq> [] \<and> butlast p = dir) xs)))"
      proof
        assume "i \<in> set (List.map_filter f (map (\<lambda>(p, _). (last p, True)) (filter (\<lambda>(p, _). p \<noteq> [] \<and> butlast p = dir) xs)))"
        then obtain q k where q: "(q, k) \<in> set xs" "q \<noteq> []" "butlast q = dir" "parse_segment_filename (last q) = Some i"
          by (auto simp: map_filter_def f)
        then have "q = p"
          using i True parse_segment_filename_sound by (metis append_butlast_last_id)
        with q(1) Cons.prems x show False by force
      qed
      with Cons x i True show ?thesis by (simp add: map_filter_simps f)
    next
      case False
      with Cons x show ?thesis by (auto simp: map_filter_simps f)
    qed
  qed (simp add: map_filter_simps)
  have "List.map_filter (\<lambda>(name, is_file). if is_file then parse_segment_filename name else None)
      (map (\<lambda>p. (last p, False)) ys) = []" for ys :: "path list"
    by (induction ys) (simp_all add: map_filter_simps)
  then show ?thesis
    using gen [OF refl, of "fs_names s"] assms by (simp add: read_dir_def map_filter_def fs_wf_def)
qed

lemma discover_log:
  assumes "log_holds crc dir sz s L" "\<forall>i \<in> fst ` set L. i < 1000000000"
  shows "discover_segments dir s = (Inr (map fst L), s)"
proof -
  have d: "dir_ok s dir" "path_exists s dir" using assms(1) by (auto simp: log_holds_def dir_ok_def path_exists_def)
  let ?xs = "List.map_filter (\<lambda>(name, is_file). if is_file then parse_segment_filename name else None) (read_dir dir s)"
  have "set (sort ?xs) = set (map fst L)"
    using read_dir_files [OF d] assms by (auto simp: log_holds_def)
  moreover have "distinct (sort ?xs)" using read_dir_distinct assms(1) by (simp add: log_holds_def)
  ultimately have "sort ?xs = map fst L"
    using assms(1) by (intro sorted_distinct_set_unique) (simp_all add: log_holds_def)
  then show ?thesis using d(2) by (simp add: discover_segments_def get_def)
qed

section \<open>Appending\<close>

definition log_inv :: "crc_fun \<Rightarrow> (nat \<times> message list) list \<Rightarrow> message list \<Rightarrow> log_writer \<times> fs \<Rightarrow> bool" where
  "log_inv crc L cur = (\<lambda>(l, s).
     lw_segment_size l = sw_segment_size (lw_writer l) \<and> sw_inv crc L cur (lw_writer l, s))"

text \<open>All messages accepted so far, published or not.\<close>

definition all_msgs :: "(nat \<times> message list) list \<Rightarrow> message list \<Rightarrow> message list" where
  "all_msgs L cur = concat (map snd L) @ cur"

lemma all_msgs_simps [simp]:
  "all_msgs (publish_cur L n cur) [] = all_msgs L cur" "all_msgs L (cur @ [m]) = all_msgs L cur @ [m]"
  by (simp_all add: all_msgs_def publish_cur_def)

lemma log_append_ok:
  assumes inv: "log_inv crc L cur (l, s)" and fit: "fits (lw_segment_size l) (t, ts, p)"
    and id: "sw_segment_id (lw_writer l) < u64_max"
  shows "\<exists>l' s' L' cur'. log_append crc ok2 t ts p (l, s) = (Inr (), l', s') \<and> log_inv crc L' cur' (l', s') \<and>
    all_msgs L' cur' = all_msgs L cur @ [new_msg (sw_seq (lw_writer l)) ts t p] \<and>
    sw_seq (lw_writer l') = sw_seq (lw_writer l) + 1 \<and>
    sw_segment_id (lw_writer l') \<le> sw_segment_id (lw_writer l) + 1 \<and>
    sw_dir (lw_writer l') = sw_dir (lw_writer l) \<and> lw_segment_size l' = lw_segment_size l \<and>
    others_kept (sw_dir (lw_writer l)) s s' \<and>
    (if needs_roll (lw_writer l) (record_len (length p))
     then L' = publish_cur L (sw_segment_id (lw_writer l)) cur \<and> cur' = [new_msg (sw_seq (lw_writer l)) ts t p] \<and>
       sw_segment_id (lw_writer l') = sw_segment_id (lw_writer l) + 1 \<and> sw_write_offset (lw_writer l') = 64 + record_len (length p)
     else L' = L \<and> cur' = cur @ [new_msg (sw_seq (lw_writer l)) ts t p] \<and>
       sw_segment_id (lw_writer l') = sw_segment_id (lw_writer l))"
proof -
  let ?w = "lw_writer l" and ?r = "record_len (length p)"
  have p: "length p \<le> MAX_PAYLOAD_LEN" "?r \<le> lw_segment_size l - 64" using fit by (simp_all add: fits_def)
  have winv: "sw_inv crc L cur (?w, s)" and sz: "lw_segment_size l = sw_segment_size ?w" "128 \<le> sw_segment_size ?w"
    using inv by (simp_all add: log_inv_def sw_inv_def)
  obtain w1 s1 L1 cur1 where st: "(if needs_roll ?w ?r then on_writer (roll ok2) else ret ()) (l, s) = (Inr (), l\<lparr>lw_writer := w1\<rparr>, s1)"
    "sw_inv crc L1 cur1 (w1, s1)" "all_msgs L1 cur1 = all_msgs L cur" "\<not> needs_roll w1 ?r" "sw_seq w1 = sw_seq ?w"
    "sw_segment_id w1 \<le> sw_segment_id ?w + 1" "sw_dir w1 = sw_dir ?w" "sw_segment_size w1 = sw_segment_size ?w"
    "others_kept (sw_dir ?w) s s1"
    "if needs_roll ?w ?r then L1 = publish_cur L (sw_segment_id ?w) cur \<and> cur1 = [] \<and> sw_segment_id w1 = sw_segment_id ?w + 1 \<and> sw_write_offset w1 = 64
     else L1 = L \<and> cur1 = cur \<and> sw_segment_id w1 = sw_segment_id ?w"
  proof (cases "needs_roll ?w ?r")
    case True
    obtain w' s' where r: "roll ok2 (?w, s) = (Inr (), w', s')" "sw_inv crc (publish_cur L (sw_segment_id ?w) cur) [] (w', s')"
      "sw_dir w' = sw_dir ?w" "sw_segment_id w' = sw_segment_id ?w + 1" "sw_segment_size w' = sw_segment_size ?w" "sw_seq w' = sw_seq ?w"
      "others_kept (sw_dir ?w) s s'"
      using roll_ok [OF winv id] by blast
    have o: "sw_write_offset w' = 64"
    proof (cases "sw_mmap w'")
      case (Some m)
      then show ?thesis using r(2) by (simp add: sw_inv_def seg_holds_def)
    qed (use r(2) in \<open>simp add: sw_inv_def\<close>)
    then have "\<not> needs_roll w' ?r" using p sz r(5) by (simp add: needs_roll_def)
    with True r o that [of w' s' "publish_cur L (sw_segment_id ?w) cur" "[]"] show ?thesis
      by (simp add: on_writer_def)
  next
    case False
    with winv that [of ?w s L cur] show ?thesis by (simp add: ret_def)
  qed
  obtain w2 s2 where ap: "sw_append crc t ts p (w1, s1) = (Inr (), w2, s2)"
    "sw_inv crc L1 (cur1 @ [new_msg (sw_seq w1) ts t p]) (w2, s2)" "sw_dir w2 = sw_dir w1"
    "sw_segment_id w2 = sw_segment_id w1" "sw_segment_size w2 = sw_segment_size w1" "sw_seq w2 = sw_seq w1 + 1"
    "sw_write_offset w2 = sw_write_offset w1 + ?r" "others_kept (sw_dir w1) s1 s2"
    using sw_append_ok [OF st(2) p(1) st(4)] by blast
  have "log_append crc ok2 t ts p (l, s) = on_writer (sw_append crc t ts p) (l\<lparr>lw_writer := w1\<rparr>, s1)"
    using p unfolding log_append_def Let_def by (simp add: sat_sub64_def bind_ok st(1))
  then have "log_append crc ok2 t ts p (l, s) = (Inr (), l\<lparr>lw_writer := w2\<rparr>, s2)" using ap(1) by (simp add: on_writer_def)
  moreover have "others_kept (sw_dir ?w) s s2" using others_kept_trans [OF st(9)] ap(8) st(7) by simp
  ultimately show ?thesis
    using ap(2-7) st(3-8,10) sz(1)
    by (intro exI [of _ "l\<lparr>lw_writer := w2\<rparr>"] exI [of _ s2] exI [of _ L1] exI [of _ "cur1 @ [new_msg (sw_seq w1) ts t p]"])
      (simp add: log_inv_def)
qed

text \<open>The log writer is a store: \<open>log_store crc dir sz\<close> relates its state to the messages accepted so far.\<close>

definition log_store :: "crc_fun \<Rightarrow> path \<Rightarrow> nat \<Rightarrow> log_writer \<times> fs \<Rightarrow> message list \<Rightarrow> bool" where
  "log_store crc dir sz = (\<lambda>(l, s) ms. sw_dir (lw_writer l) = dir \<and> lw_segment_size l = sz \<and>
     (\<exists>L cur. log_inv crc L cur (l, s) \<and> all_msgs L cur = ms))"

interpretation log_st: record_store "log_store crc dir sz" "\<lambda>(t, ts, p). log_append crc ok2 t ts p" "\<lambda>_. fits sz"
  log_item "\<lambda>(l, s). sw_seq (lw_writer l)" "\<lambda>(l, s). u64_max - sw_segment_id (lw_writer l)"
  for crc dir sz ok2
proof (unfold_locales, goal_cases)
  case (1 x ms r)
  obtain l s t ts p where x: "x = (l, s)" "r = (t, ts, p)" by (metis prod_cases3 surj_pair)
  then obtain L cur where l: "sw_dir (lw_writer l) = dir" "lw_segment_size l = sz" "log_inv crc L cur (l, s)" "all_msgs L cur = ms"
    using 1(1) by (auto simp: log_store_def)
  then obtain l' s' L' cur' where "log_append crc ok2 t ts p (l, s) = (Inr (), l', s')" "log_inv crc L' cur' (l', s')"
    "all_msgs L' cur' = ms @ [new_msg (sw_seq (lw_writer l)) ts t p]" "sw_seq (lw_writer l') = sw_seq (lw_writer l) + 1"
    "sw_segment_id (lw_writer l') \<le> sw_segment_id (lw_writer l) + 1"
    "sw_dir (lw_writer l') = dir" "lw_segment_size l' = sz"
    using log_append_ok [OF l(3), of t ts p ok2] 1(2,3) x by auto
  then show ?case using x by (auto simp: log_store_def)
qed

section \<open>Sessions\<close>

definition next_id :: "(nat \<times> message list) list \<Rightarrow> nat" where
  "next_id L = (if L = [] then 0 else Suc (fst (last L)))"

lemma next_id_bound:
  assumes "sorted (map fst L)" "i \<in> fst ` set L"
  shows "i < next_id L"
proof -
  have "L \<noteq> []" using assms(2) by auto
  then obtain K x where L: "L = K @ [x]" by (metis append_butlast_last_id)
  then show ?thesis using assms by (auto simp: next_id_def sorted_append less_Suc_eq_le)
qed

lemma create_dir_all_log:
  assumes "log_holds crc dir sz s L"
  shows "log_holds crc dir sz (create_dir_all dir s) L"
proof -
  have "dir_ok (create_dir_all dir s) dir" using assms by (simp add: log_holds_def dir_ok_create)
  moreover have "seg_file crc (create_dir_all dir s) dir sz i ms = seg_file crc s dir sz i ms" for i ms
    by (simp add: seg_file_def)
  ultimately show ?thesis using assms by (simp add: log_holds_def)
qed

lemma log_open_ok:
  assumes "log_holds crc dir sz s L" "128 \<le> sz" "sz \<le> u64_max" "next_id L \<le> 1000000000"
  shows "\<exists>l s1. log_open dir sz s = (Inr l, s1) \<and> log_inv crc L [] (l, s1) \<and> lw_segment_size l = sz \<and>
    sw_dir (lw_writer l) = dir \<and> sw_segment_id (lw_writer l) = next_id L \<and> sw_seq (lw_writer l) = 0"
proof -
  let ?s = "create_dir_all dir s"
  have lh: "log_holds crc dir sz ?s L" by (rule create_dir_all_log [OF assms(1)])
  have lt: "\<forall>i \<in> fst ` set L. i < next_id L" using next_id_bound assms(1) by (simp add: log_holds_def)
  then have lt': "\<forall>i \<in> fst ` set L. i < 1000000000" using assms(4) by fastforce
  have "next_segment_id dir ?s = (Inr (next_id L), ?s)"
    using discover_log [OF lh lt'] assms(4)
    by (cases "L = []") (simp_all add: next_segment_id_def bind_ok ret_def next_id_def last_map sat_add64_def)
  then have "log_open dir sz s = (Inr \<lparr>lw_writer = sw_new dir (next_id L) sz, lw_segment_size = sz\<rparr>, ?s)"
    using assms(2,3) by (simp add: log_open_def validate_segment_size_def bind_ok ret_def)
  moreover have "log_inv crc L [] (\<lparr>lw_writer = sw_new dir (next_id L) sz, lw_segment_size = sz\<rparr>, ?s)"
    using sw_new_inv [OF lh assms(2,3) lt] by (simp add: log_inv_def sw_new_def)
  ultimately show ?thesis by (simp add: sw_new_def)
qed

lemma log_session_ok:
  assumes "log_holds crc dir sz s L" "128 \<le> sz" "sz \<le> u64_max" "\<forall>r \<in> set rs. fits sz r"
    and "next_id L + length rs < 1000000000"
  shows "\<exists>s' L'. log_session crc ok2 dir sz rs s = (Inr (), s') \<and> log_holds crc dir sz s' L' \<and>
    concat (map snd L') = concat (map snd L) @ numbered log_item 0 rs \<and> (\<forall>i \<in> fst ` set L'. i < 1000000000)"
proof -
  obtain l s1 where o1: "log_open dir sz s = (Inr l, s1)" "log_inv crc L [] (l, s1)" "lw_segment_size l = sz"
    "sw_dir (lw_writer l) = dir" "sw_segment_id (lw_writer l) = next_id L" "sw_seq (lw_writer l) = 0"
    using log_open_ok [OF assms(1-3)] assms(5) by auto
  have "log_store crc dir sz (l, s1) (all_msgs L [])" using o1(2-4) by (auto simp: log_store_def)
  moreover have "length rs \<le> u64_max - next_id L" using assms(5) by simp
  ultimately obtain l2 s2 where st: "log_append_all crc ok2 rs (l, s1) = (Inr (), l2, s2)"
    "log_store crc dir sz (l2, s2) (all_msgs L [] @ numbered log_item 0 rs)"
    "u64_max - next_id L \<le> u64_max - sw_segment_id (lw_writer l2) + length rs"
    using log_st.append_all [of crc dir sz "(l, s1)" "all_msgs L []" rs ok2] o1(5,6) assms(4,5) by auto
  then obtain L2 cur2 where a: "log_append_all crc ok2 rs (l, s1) = (Inr (), l2, s2)" "log_inv crc L2 cur2 (l2, s2)"
    "all_msgs L2 cur2 = all_msgs L [] @ numbered log_item 0 rs" "sw_segment_id (lw_writer l2) \<le> next_id L + length rs"
    "sw_dir (lw_writer l2) = dir" "lw_segment_size l2 = sz"
    using assms(5) by (auto simp: log_store_def)
  have winv: "sw_inv crc L2 cur2 (lw_writer l2, s2)" and sz2: "sw_segment_size (lw_writer l2) = sz"
    using a(2,6) by (simp_all add: log_inv_def)
  obtain w3 s3 where f: "sw_finish ok2 (lw_writer l2, s2) = (Inr (), w3, s3)"
    "log_holds crc dir sz s3 (publish_cur L2 (sw_segment_id (lw_writer l2)) cur2)"
    using sw_finish_ok [OF winv, of ok2] a(5) sz2 by auto
  let ?L = "publish_cur L2 (sw_segment_id (lw_writer l2)) cur2"
  have "log_session crc ok2 dir sz rs s = (Inr (), s3)"
    using o1(1) a(1) f(1) by (simp add: log_session_def bind_ok log_finish_def on_writer_def)
  moreover have "concat (map snd ?L) = concat (map snd L) @ numbered log_item 0 rs"
    using a(3) by (cases "cur2 = []") (simp_all add: all_msgs_def publish_cur_def)
  moreover have "\<forall>i \<in> fst ` set ?L. i < 1000000000"
    using winv a(4) assms(5) by (fastforce simp: sw_inv_def publish_cur_def)
  ultimately show ?thesis using f(2) by blast
qed

lemma log_reader_open_eq:
  assumes "log_holds crc dir sz s L" "\<forall>i \<in> fst ` set L. i < 1000000000"
  shows "log_reader_open dir s = (Inr \<lparr>lr_cursor = sc_open dir (map fst L) (if L = [] then DEFAULT_SEGMENT_SIZE else sz),
    lr_payload_buf = replicate 8192 0\<rparr>, s)"
proof -
  have ex: "path_exists s dir" using assms(1) by (simp add: log_holds_def dir_ok_def path_exists_def)
  have srt: "sort (map fst L) = map fst L" using assms(1) by (simp add: log_holds_def sorted_sort_id)
  show ?thesis
  proof (cases L)
    case Nil
    then show ?thesis
      using ex discover_log [OF assms] by (simp add: log_reader_open_def bind_ok ret_def)
  next
    case (Cons p K)
    then have "seg_file crc s dir sz (fst p) (snd p)" using assms(1) by (auto simp: log_holds_def)
    then obtain ino where "lookup_path s (segment_path dir (fst p)) = Some ino" "length (fs_data s ino) = sz"
      by (auto simp: seg_file_def seg_holds_def)
    then show ?thesis
      using ex discover_log [OF assms] srt Cons
      by (simp add: log_reader_open_def bind_ok ret_def open_read_def get_def bind_def)
  qed
qed

lemma log_reader_ok:
  assumes "log_holds crc dir sz s L" "sz + 64 \<le> u64_max" "\<forall>i \<in> fst ` set L. i < 1000000000"
  shows "\<exists>r. log_reader_open dir s = (Inr r, s) \<and> log_reads crc s r (concat (map snd L))"
proof -
  have "\<forall>p \<in> set L. seg_avail crc s dir sz p" using assms(1) by (auto simp: log_holds_def seg_avail_def)
  then have "sc_pending crc s L (sc_open dir (map fst L) (if L = [] then DEFAULT_SEGMENT_SIZE else sz)) (concat (map snd L))"
    using sc_pending_open [of L crc s dir "if L = [] then DEFAULT_SEGMENT_SIZE else sz"] assms(2) by auto
  then show ?thesis using log_reader_open_eq [OF assms(1,3)] log_src.reads_pending by fastforce
qed

section \<open>Properties of the log\<close>

text \<open>
  Property C16. A log returns what was put into it. On a directory that already holds a log
  (possibly an empty one), a session that opens the log, appends any records that fit a
  segment, rolling over as many segments as that takes, and finishes, succeeds; the directory
  then holds a log again, and a reader opened on it returns, call by call, all earlier messages
  followed by the new ones in order, with their sequence numbers from zero, and then the end.
  The segment numbers stay below the nine digits of a file name.
\<close>

theorem log_round_trip:
  assumes "log_holds crc dir sz s L" "128 \<le> sz" "sz + 64 \<le> u64_max" "\<forall>r \<in> set rs. fits sz r"
    and "next_id L + length rs < 1000000000"
  shows "\<exists>s' L' r. log_session crc ok2 dir sz rs s = (Inr (), s') \<and> log_holds crc dir sz s' L' \<and>
    concat (map snd L') = concat (map snd L) @ numbered log_item 0 rs \<and>
    log_reader_open dir s' = (Inr r, s') \<and> log_reads crc s' r (concat (map snd L) @ numbered log_item 0 rs)"
proof -
  obtain s' L' where a: "log_session crc ok2 dir sz rs s = (Inr (), s')" "log_holds crc dir sz s' L'"
    "concat (map snd L') = concat (map snd L) @ numbered log_item 0 rs" "\<forall>i \<in> fst ` set L'. i < 1000000000"
    using log_session_ok [OF assms(1,2) _ assms(4,5), of ok2] assms(3) by auto
  then show ?thesis using log_reader_ok [OF a(2) assms(3) a(4)] by metis
qed

text \<open>Two records of 64 bytes of payload do not fit one segment of 256 bytes: the session rolls.\<close>

theorem log_round_trip_witness:
  "\<exists>s' L' r. log_session (\<lambda>_. 5) True [] 256 [(1, 10, replicate 64 7), (2, 20, replicate 64 8)] fs_empty = (Inr (), s') \<and>
    log_holds (\<lambda>_. 5) [] 256 s' L' \<and>
    concat (map snd L') = [] @ [new_msg 0 10 1 (replicate 64 7), new_msg 1 20 2 (replicate 64 8)] \<and>
    log_reader_open [] s' = (Inr r, s') \<and>
    log_reads (\<lambda>_. 5) s' r ([] @ [new_msg 0 10 1 (replicate 64 7), new_msg 1 20 2 (replicate 64 8)])"
proof -
  have "log_holds (\<lambda>_. 5) [] 256 fs_empty []"
    by (rule log_holds_empty)
      (simp_all add: dir_ok_def is_dir_def fs_wf_empty lookup_path_def, simp_all add: fs_empty_def segment_path_def)
  then show ?thesis
    using log_round_trip [of "\<lambda>_. 5" "[]" 256 fs_empty "[]" "[(1, 10, replicate 64 7), (2, 20, replicate 64 8)]" True]
      record_len_eq [of 64]
    by (simp add: fits_def next_id_def)
qed

text \<open>
  A record that no segment can hold is refused with \<open>PayloadTooLarge\<close>, and neither
  the writer nor the file system has changed; one that fits is never refused for its size.
\<close>

lemma log_append_too_large:
  assumes "log_inv crc L cur (l, s)" "sw_segment_id (lw_writer l) < u64_max"
  shows "if fits (lw_segment_size l) (t, ts, p) then fst (log_append crc ok2 t ts p (l, s)) = Inr ()
    else log_append crc ok2 t ts p (l, s) = (Inl PayloadTooLarge, l, s)"
proof (cases "fits (lw_segment_size l) (t, ts, p)")
  case True
  then show ?thesis using log_append_ok [OF assms(1) True assms(2), of ok2] by auto
next
  case False
  then show ?thesis by (auto simp: log_append_def fits_def Let_def sat_sub64_def fail_def)
qed

text \<open>
  A reader tolerates the removal of segments while it is open: when some of the
  segments it listed are deleted before it reads them, it returns exactly the messages of the
  remaining ones, in order.
\<close>

lemma log_reader_skips_removed:
  assumes "log_holds crc dir sz s L" "sz + 64 \<le> u64_max" "\<forall>i \<in> fst ` set L. i < 1000000000"
  shows "\<exists>r. log_reader_open dir s = (Inr r, s) \<and>
    log_reads crc (fold (\<lambda>i. fs_unlink (segment_path dir i)) del s) r
      (concat (map snd (filter (\<lambda>p. fst p \<notin> set del) L)))"
proof -
  let ?s = "fold (\<lambda>i. fs_unlink (segment_path dir i)) del s"
  let ?M = "map (\<lambda>p. if fst p \<in> set del then (fst p, []) else p) L"
  have frame: "fs_data ?s = fs_data s \<and> is_dir ?s = is_dir s \<and>
      lookup_path ?s (segment_path dir i) = (if i \<in> set del then None else lookup_path s (segment_path dir i))" for i
    by (induction del arbitrary: s) auto
  have ex: "path_exists s dir" using assms(1) by (simp add: log_holds_def dir_ok_def path_exists_def)
  have nd: "\<not> is_dir s (segment_path dir i)" for i using assms(1) by (simp add: log_holds_def dir_ok_def)
  have gone: "seg_avail crc ?s dir sz (i, [])" if "i \<in> set del" for i
    using that frame nd by (simp add: seg_avail_def path_exists_def)
  have kept: "seg_avail crc ?s dir sz (i, ms)" if "i \<notin> set del" "(i, ms) \<in> set L" for i ms
  proof -
    have "seg_file crc s dir sz i ms" using that(2) assms(1) by (auto simp: log_holds_def)
    then show ?thesis using that(1) frame by (simp add: seg_avail_def seg_file_def)
  qed
  have av: "\<forall>p \<in> set ?M. seg_avail crc ?s dir sz p" using gone kept by auto
  have ids: "map fst ?M = map fst L" by simp
  have cat: "concat (map snd ?M) = concat (map snd (filter (\<lambda>p. fst p \<notin> set del) L))"
    by (induction L) auto
  obtain r where r: "log_reader_open dir s = (Inr r, s)" "lr_cursor r = sc_open dir (map fst L) (if L = [] then DEFAULT_SEGMENT_SIZE else sz)"
    using log_reader_open_eq [OF assms(1,3)] by auto
  have "sc_pending crc ?s ?M (sc_open dir (map fst ?M) (if L = [] then DEFAULT_SEGMENT_SIZE else sz)) (concat (map snd ?M))"
  proof (rule sc_pending_open)
    show "\<forall>p \<in> set ?M. seg_avail crc ?s dir (if L = [] then DEFAULT_SEGMENT_SIZE else sz) p"
    proof (cases "L = []")
      case False
      show ?thesis unfolding if_not_P [OF False] by (rule av)
    qed simp
    show "(if L = [] then DEFAULT_SEGMENT_SIZE else sz) + 64 \<le> u64_max" using assms(2) by simp
  qed
  then have "sc_pending crc ?s ?M (lr_cursor r) (concat (map snd ?M))"
    unfolding r(2) ids .
  then have "log_reads crc ?s r (concat (map snd ?M))" by (rule log_src.reads_pending)
  then show ?thesis unfolding cat using r(1) by blast
qed

lemma next_header_found:
  assumes "next_header s c = (Inr (Some r), c')"
  shows "\<exists>mm off rlen. sc_mmap c' = Some mm \<and> header_at (as_slice mm s) off = Inr (Some (r, rlen))"
  using assms
proof (induction s c rule: next_header.induct)
  case (1 s c)
  let ?step = "case sc_mmap c of Some _ \<Rightarrow> (Inr True, c) | None \<Rightarrow> load_next_segment s c"
  obtain c1 m where st: "?step = (Inr True, c1)" "sc_mmap c1 = Some m"
    using "1.prems" by (subst (asm) next_header.simps) (auto split: prod.splits sum.splits option.splits if_splits)
  show ?case
  proof (cases "header_at (as_slice m s) (sc_offset c1) = Inr None")
    case True
    then have "next_header s c = next_header s (advance_segment c1)" using st by (subst next_header.simps) simp
    then show ?thesis using "1.IH" [OF st(1) [symmetric] refl _ st(2) True refl] "1.prems" by simp
  next
    case False
    then show ?thesis
      using "1.prems" st
      by (subst (asm) next_header.simps) (auto split: sum.splits option.splits prod.splits, blast+)
  qed
qed

text \<open>
  Whatever bytes the segment files hold, a message the reader returns is a
  committed record of the segment it has mapped: the header parses, its commit word is the
  payload length plus one, the payload is the bytes behind the header, and the stored checksum
  is the checksum of that payload. Corruption is reported or skipped, never delivered.
\<close>

lemma log_next_sound:
  assumes "log_next crc s r = (Inr (Some m), r')"
  shows "\<exists>mm off h. sc_mmap (lr_cursor r') = Some mm \<and> off + 64 + length (msg_payload m) \<le> length (as_slice mm s) \<and>
    from_bytes (bslice (as_slice mm s) off (off + 64)) = Inr h \<and>
    payload_len_from_commit (load_commit_len (as_slice mm s) off) = Inr (length (msg_payload m)) \<and>
    mh_seq h = msg_seq m \<and> mh_timestamp_ns h = msg_timestamp_ns m \<and> mh_type_id h = msg_type_id m \<and>
    mh_checksum h = crc (msg_payload m) \<and>
    bslice (as_slice mm s) (off + 64) (off + 64 + length (msg_payload m)) = msg_payload m"
proof -
  obtain mr c buf buf' where n: "next_header s (lr_cursor r) = (Inr (Some mr), c)"
    "read_payload s c (mr_payload_offset mr) (mr_payload_len mr) buf = Inr buf'"
    "mr_checksum mr = crc (take (mr_payload_len mr) buf')"
    "m = new_msg (mr_seq mr) (mr_timestamp_ns mr) (mr_type_id mr) (take (mr_payload_len mr) buf')"
    "lr_cursor r' = c"
    using assms by (auto simp: log_next_def Let_def split: prod.splits sum.splits option.splits if_splits)
  obtain mm off rlen where h: "sc_mmap c = Some mm" "header_at (as_slice mm s) off = Inr (Some (mr, rlen))"
    using next_header_found [OF n(1)] by blast
  let ?b = "as_slice mm s" and ?n = "mr_payload_len mr"
  obtain hd where hd: "payload_len_from_commit (load_commit_len ?b off) = Inr ?n" "off + record_len ?n \<le> length ?b"
    "from_bytes (bslice ?b off (off + 64)) = Inr hd" "mr_payload_offset mr = off + 64" "mr_seq mr = mh_seq hd"
    "mr_timestamp_ns mr = mh_timestamp_ns hd" "mr_type_id mr = mh_type_id hd" "mr_checksum mr = mh_checksum hd"
    using h(2) by (auto simp: header_at_def Let_def rbind_def split: if_splits sum.splits)
  have le: "off + 64 + ?n \<le> length ?b"
    using hd(2) record_len_bounds(2) [of ?n] payload_len_bound [OF hd(1)] by simp
  then have p: "take ?n buf' = bslice ?b (off + 64) (off + 64 + ?n)"
    using n(2) h(1) hd(4) by (auto simp: read_payload_def bsplice_def split: if_splits)
  then have "length (take ?n buf') = ?n" using le by simp
  then show ?thesis using h(1) hd le p n(3-5) by (intro exI [of _ mm] exI [of _ off] exI [of _ hd]) simp
qed

end
