(* ===== verification/Wait_Protocol.thy ===== *)
theory Wait_Protocol
  imports Prelude
begin

text \<open>
  The sleep and wake-up protocol between \<open>QueueWriter\<close> (\<^verbatim>\<open>core/writer.rs\<close>) and
  \<open>QueueReader::wait\<close> (\<^verbatim>\<open>core/reader.rs\<close>) over \<open>notify_seq\<close>, \<open>waiters_pending\<close> and the futex of
  \<^verbatim>\<open>core/wait.rs\<close>, as a step relation that interleaves one writer with any number of readers.
  Every shared load and store is one step; \<open>FUTEX_WAIT\<close> compares and goes to sleep in one step,
  as the kernel promises. The 32-bit \<open>notify_seq\<close> is compared modulo its width.
\<close>

section \<open>States and steps\<close>

text \<open>
  The writer commits a record (or rolls to the next segment), advances \<open>notify_seq\<close>, looks at
  \<open>waiters_pending\<close> and wakes the sleepers when it is not zero.
\<close>

datatype wait_wpc = WIdle | WNotify | WCheck | WWake

text \<open>
  A reader registers in \<open>waiters_pending\<close>, loads \<open>notify_seq\<close>, peeks at the commit word of its
  next record, parks in the futex, and deregisters.
\<close>

datatype wait_rpc = RIdle | RLoad | RPeek | RPark | RAsleep | RLeave

record wait_state =
  ws_committed :: "nat \<Rightarrow> nat"
  ws_segment :: nat
  ws_notify_seq :: nat
  ws_waiters_pending :: nat
  ws_wpc :: wait_wpc
  ws_rpc :: "nat \<Rightarrow> wait_rpc"
  ws_rseg :: "nat \<Rightarrow> nat"
  ws_rpos :: "nat \<Rightarrow> nat"
  ws_rseq :: "nat \<Rightarrow> nat"
  ws_slept :: "nat \<Rightarrow> nat"

text \<open>\<open>peek_committed\<close>: a committed record at the reader's position in the segment it has mapped.\<close>

definition peek_data :: "wait_state \<Rightarrow> nat \<Rightarrow> bool" where
  "peek_data x r \<longleftrightarrow> ws_rpos x r < ws_committed x (ws_rseg x r)"

definition wait_init :: wait_state where
  "wait_init = \<lparr>ws_committed = (\<lambda>_. 0), ws_segment = 0, ws_notify_seq = 0, ws_waiters_pending = 0,
     ws_wpc = WIdle, ws_rpc = (\<lambda>_. RIdle), ws_rseg = (\<lambda>_. 0), ws_rpos = (\<lambda>_. 0), ws_rseq = (\<lambda>_. 0),
     ws_slept = (\<lambda>_. 0)\<rparr>"

inductive wait_step :: "wait_state \<Rightarrow> wait_state \<Rightarrow> bool" where
  w_commit: "ws_wpc x = WIdle \<Longrightarrow>
    wait_step x (x\<lparr>ws_committed := (ws_committed x)(ws_segment x := Suc (ws_committed x (ws_segment x))), ws_wpc := WNotify\<rparr>)"
| w_roll: "ws_wpc x = WIdle \<Longrightarrow> wait_step x (x\<lparr>ws_segment := Suc (ws_segment x), ws_wpc := WNotify\<rparr>)"
| w_notify: "ws_wpc x = WNotify \<Longrightarrow> wait_step x (x\<lparr>ws_notify_seq := Suc (ws_notify_seq x), ws_wpc := WCheck\<rparr>)"
| w_check: "ws_wpc x = WCheck \<Longrightarrow> wait_step x (x\<lparr>ws_wpc := (if ws_waiters_pending x > 0 then WWake else WIdle)\<rparr>)"
| w_wake: "ws_wpc x = WWake \<Longrightarrow>
    wait_step x (x\<lparr>ws_rpc := (\<lambda>r. if ws_rpc x r = RAsleep then RLeave else ws_rpc x r), ws_wpc := WIdle\<rparr>)"
| r_register: "ws_rpc x r = RIdle \<Longrightarrow>
    wait_step x (x\<lparr>ws_waiters_pending := Suc (ws_waiters_pending x), ws_rpc := (ws_rpc x)(r := RLoad)\<rparr>)"
| r_load: "ws_rpc x r = RLoad \<Longrightarrow>
    wait_step x (x\<lparr>ws_rseq := (ws_rseq x)(r := ws_notify_seq x), ws_rpc := (ws_rpc x)(r := RPeek)\<rparr>)"
| r_peek: "ws_rpc x r = RPeek \<Longrightarrow>
    wait_step x (x\<lparr>ws_rpc := (ws_rpc x)(r := if peek_data x r then RLeave else RPark)\<rparr>)"
| r_park: "ws_rpc x r = RPark \<Longrightarrow>
    wait_step x (x\<lparr>ws_slept := (ws_slept x)(r := ws_notify_seq x),
                  ws_rpc := (ws_rpc x)(r := if as_u32 (ws_notify_seq x) = as_u32 (ws_rseq x r) then RAsleep else RLeave)\<rparr>)"
| r_timeout: "ws_rpc x r = RAsleep \<Longrightarrow> wait_step x (x\<lparr>ws_rpc := (ws_rpc x)(r := RLeave)\<rparr>)"
| r_leave: "ws_rpc x r = RLeave \<Longrightarrow>
    wait_step x (x\<lparr>ws_waiters_pending := ws_waiters_pending x - 1, ws_rpc := (ws_rpc x)(r := RIdle)\<rparr>)"
| r_next: "ws_rpc x r = RIdle \<Longrightarrow> peek_data x r \<Longrightarrow>
    wait_step x (x\<lparr>ws_rpos := (ws_rpos x)(r := Suc (ws_rpos x r))\<rparr>)"
| r_advance: "ws_rpc x r = RIdle \<Longrightarrow> \<not> peek_data x r \<Longrightarrow> ws_rseg x r < ws_segment x \<Longrightarrow>
    wait_step x (x\<lparr>ws_rseg := (ws_rseg x)(r := Suc (ws_rseg x r)), ws_rpos := (ws_rpos x)(r := 0)\<rparr>)"

inductive wait_reach :: "wait_state \<Rightarrow> bool" where
  wr_init: "wait_reach wait_init"
| wr_step: "wait_reach x \<Longrightarrow> wait_step x y \<Longrightarrow> wait_reach y"

section \<open>No wake-up is lost inside a segment\<close>

definition waiting :: "wait_state \<Rightarrow> nat set" where
  "waiting x = {r. ws_rpc x r \<noteq> RIdle}"

definition counted :: "wait_state \<Rightarrow> bool" where
  "counted x \<longleftrightarrow> finite (waiting x) \<and> ws_waiters_pending x = card (waiting x)"

text \<open>
  A reader that has loaded \<open>notify_seq\<close> and found no record, and now has one, will see a changed
  \<open>notify_seq\<close> when it parks or the writer has still to change it; a sleeper with a record is
  about to be woken.
\<close>

definition park_ok :: "wait_state \<Rightarrow> nat \<Rightarrow> bool" where
  "park_ok x r \<longleftrightarrow>
     (ws_rpc x r \<in> {RPeek, RPark} \<longrightarrow> ws_rseq x r \<le> ws_notify_seq x) \<and>
     (ws_rpc x r = RPark \<and> peek_data x r \<longrightarrow> ws_wpc x = WNotify \<or> ws_rseq x r < ws_notify_seq x) \<and>
     (ws_rpc x r = RAsleep \<and> peek_data x r \<and> ws_slept x r < ws_rseq x r + 4294967296 \<longrightarrow> ws_wpc x \<noteq> WIdle)"

lemma waiting_upd:
  "waiting (x\<lparr>ws_rpc := (ws_rpc x)(r := p)\<rparr>) = (if p = RIdle then waiting x - {r} else insert r (waiting x))"
  by (auto simp: waiting_def)

lemma waiting_other [simp]:
  "waiting (x\<lparr>ws_committed := a\<rparr>) = waiting x" "waiting (x\<lparr>ws_segment := b\<rparr>) = waiting x"
  "waiting (x\<lparr>ws_notify_seq := b\<rparr>) = waiting x" "waiting (x\<lparr>ws_waiters_pending := b\<rparr>) = waiting x"
  "waiting (x\<lparr>ws_wpc := c\<rparr>) = waiting x" "waiting (x\<lparr>ws_rseq := a\<rparr>) = waiting x"
  "waiting (x\<lparr>ws_slept := a\<rparr>) = waiting x" "waiting (x\<lparr>ws_rpos := a\<rparr>) = waiting x"
  "waiting (x\<lparr>ws_rseg := a\<rparr>) = waiting x"
  by (simp_all add: waiting_def)

lemma counted_keep:
  "counted x \<Longrightarrow> waiting y = waiting x \<Longrightarrow> ws_waiters_pending y = ws_waiters_pending x \<Longrightarrow> counted y"
  by (simp add: counted_def)

lemma counted_step: "wait_step x y \<Longrightarrow> counted x \<Longrightarrow> counted y"
proof (induction rule: wait_step.induct)
  case (r_register x r)
  then have "r \<notin> waiting x" by (simp add: waiting_def)
  then show ?case using r_register waiting_upd [of "x\<lparr>ws_waiters_pending := Suc (ws_waiters_pending x)\<rparr>" r RLoad] by (simp add: counted_def)
next
  case (r_leave x r)
  then have "r \<in> waiting x" by (simp add: waiting_def)
  then show ?case
    using r_leave waiting_upd [of "x\<lparr>ws_waiters_pending := ws_waiters_pending x - 1\<rparr>" r RIdle]
    by (simp add: counted_def)
next
  case (w_wake x)
  have "waiting (x\<lparr>ws_rpc := (\<lambda>r. if ws_rpc x r = RAsleep then RLeave else ws_rpc x r), ws_wpc := WIdle\<rparr>) = waiting x"
    by (auto simp: waiting_def)
  then show ?case using w_wake by (simp add: counted_def)
qed (erule counted_keep, auto simp: waiting_def split: if_splits)+

lemma pending_positive: "counted x \<Longrightarrow> ws_rpc x r \<noteq> RIdle \<Longrightarrow> 0 < ws_waiters_pending x"
  by (auto simp: counted_def waiting_def card_gt_0_iff)

lemma as_u32_eq_close:
  assumes "as_u32 a = as_u32 b" "b \<le> a" "a < b + 4294967296"
  shows "a = b"
proof -
  have "4294967296 dvd a - b" using assms(1,2) by (simp add: as_u32_def mod_eq_dvd_iff_nat)
  then obtain k where "a - b = 4294967296 * k" by (auto elim: dvdE)
  then show ?thesis using assms(2,3) by (cases k) simp_all
qed

lemma peek_data_other [simp]:
  "peek_data (x\<lparr>ws_segment := b\<rparr>) r = peek_data x r" "peek_data (x\<lparr>ws_notify_seq := b\<rparr>) r = peek_data x r"
  "peek_data (x\<lparr>ws_waiters_pending := b\<rparr>) r = peek_data x r" "peek_data (x\<lparr>ws_wpc := c\<rparr>) r = peek_data x r"
  "peek_data (x\<lparr>ws_rseq := a\<rparr>) r = peek_data x r" "peek_data (x\<lparr>ws_slept := a\<rparr>) r = peek_data x r"
  "peek_data (x\<lparr>ws_rpc := p\<rparr>) r = peek_data x r"
  by (simp_all add: peek_data_def)

lemma park_ok_step: "wait_step x y \<Longrightarrow> counted x \<Longrightarrow> park_ok x q \<Longrightarrow> park_ok y q"
proof (induction rule: wait_step.induct)
  case (w_check x)
  then show ?case using pending_positive [of x q] by (auto simp: park_ok_def)
next
  case (r_park x r)
  show ?case
  proof (cases "q = r")
    case True
    have "ws_rseq x r \<le> ws_notify_seq x" using r_park True by (simp add: park_ok_def)
    then have "as_u32 (ws_notify_seq x) = as_u32 (ws_rseq x r) \<Longrightarrow> ws_notify_seq x < ws_rseq x r + 4294967296 \<Longrightarrow>
        ws_notify_seq x = ws_rseq x r"
      using as_u32_eq_close by blast
    then show ?thesis using r_park True by (auto simp: park_ok_def)
  next
    case False
    then show ?thesis using r_park by (auto simp: park_ok_def)
  qed
next
  case (r_next x r)
  then show ?case by (cases "q = r") (auto simp: park_ok_def peek_data_def)
next
  case (r_advance x r)
  then show ?case by (cases "q = r") (auto simp: park_ok_def peek_data_def)
qed (auto simp: park_ok_def split: if_splits)

lemma wait_invariant: "wait_reach x \<Longrightarrow> counted x \<and> park_ok x r"
proof (induction rule: wait_reach.induct)
  case wr_init
  then show ?case by (simp add: wait_init_def counted_def waiting_def park_ok_def)
next
  case (wr_step x y)
  then show ?case using counted_step park_ok_step by blast
qed

text \<open>
  Property C19. Inside a segment no wake-up is lost. In every reachable state in which a reader
  sleeps although the next record of its segment is committed, the writer has not finished the
  append: it is on its way to \<open>notify_seq\<close> or to the wake-up, which it will not skip because
  the sleeper is counted in \<open>waiters_pending\<close>. (A reader that is overtaken by 2 to the 32
  notifications between its load and its sleep is excepted, as the futex word has 32 bits.)
\<close>

theorem no_lost_wakeup:
  assumes "wait_reach x" "ws_rpc x r = RAsleep" "peek_data x r" "ws_slept x r < ws_rseq x r + 4294967296"
  shows "ws_wpc x \<noteq> WIdle \<and> 0 < ws_waiters_pending x"
  using wait_invariant [OF assms(1), of r] assms(2-4) pending_positive [of x r] by (simp add: park_ok_def)

text \<open>Reader 0 goes to sleep at an empty queue.\<close>

definition asleep_state :: "(nat \<Rightarrow> nat) \<Rightarrow> nat \<Rightarrow> nat \<Rightarrow> wait_wpc \<Rightarrow> wait_rpc \<Rightarrow> nat \<Rightarrow> nat \<Rightarrow> wait_state" where
  "asleep_state com seg notif wpc rpc rseq slept =
     \<lparr>ws_committed = com, ws_segment = seg, ws_notify_seq = notif,
      ws_waiters_pending = (if rpc = RIdle then 0 else 1), ws_wpc = wpc, ws_rpc = (\<lambda>_. RIdle)(0 := rpc),
      ws_rseg = (\<lambda>_. 0), ws_rpos = (\<lambda>_. 0), ws_rseq = (\<lambda>_. 0)(0 := rseq), ws_slept = (\<lambda>_. 0)(0 := slept)\<rparr>"

lemma reach_sleep:
  assumes "wait_reach (asleep_state com seg notif WIdle RIdle 0 0)" "com 0 = 0"
  shows "wait_reach (asleep_state com seg notif WIdle RAsleep notif notif)"
proof -
  let ?S = "\<lambda>rpc q sl. asleep_state com seg notif WIdle rpc q sl"
  have 1: "wait_step (?S RIdle 0 0) (?S RLoad 0 0)"
    using r_register [of "?S RIdle 0 0" 0] by (simp add: asleep_state_def)
  have 2: "wait_step (?S RLoad 0 0) (?S RPeek notif 0)"
    using r_load [of "?S RLoad 0 0" 0] by (simp add: asleep_state_def)
  have 3: "wait_step (?S RPeek notif 0) (?S RPark notif 0)"
    using r_peek [of "?S RPeek notif 0" 0] assms(2) by (simp add: asleep_state_def peek_data_def)
  have 4: "wait_step (?S RPark notif 0) (?S RAsleep notif notif)"
    using r_park [of "?S RPark notif 0" 0] by (simp add: asleep_state_def)
  show ?thesis using wr_step [OF wr_step [OF wr_step [OF wr_step [OF assms(1) 1] 2] 3] 4] .
qed

lemma reach_start: "wait_reach (asleep_state (\<lambda>_. 0) 0 0 WIdle RIdle 0 0)"
proof -
  have "asleep_state (\<lambda>_. 0) 0 0 WIdle RIdle 0 0 = wait_init"
    by (simp add: asleep_state_def wait_init_def fun_eq_iff)
  then show ?thesis using wr_init by simp
qed

theorem no_lost_wakeup_witness:
  "\<exists>x. wait_reach x \<and> ws_rpc x 0 = RAsleep \<and> peek_data x 0 \<and> ws_slept x 0 < ws_rseq x 0 + 4294967296 \<and>
     ws_wpc x \<noteq> WIdle \<and> 0 < ws_waiters_pending x"
proof -
  let ?x = "asleep_state ((\<lambda>_. 0)(0 := 1)) 0 0 WNotify RAsleep 0 0"
  have "wait_step (asleep_state (\<lambda>_. 0) 0 0 WIdle RAsleep 0 0) ?x"
    using w_commit [of "asleep_state (\<lambda>_. 0) 0 0 WIdle RAsleep 0 0"] by (simp add: asleep_state_def)
  then have r: "wait_reach ?x" using reach_sleep [OF reach_start] wr_step by simp
  have "ws_rpc ?x 0 = RAsleep" "peek_data ?x 0" "ws_slept ?x 0 < ws_rseq ?x 0 + 4294967296"
    by (simp_all add: asleep_state_def peek_data_def)
  then show ?thesis using r no_lost_wakeup [OF r] by blast
qed

text \<open>
  Property C33. Across a roll a wake-up is lost. \<open>peek_committed\<close> looks only at the mapped
  segment, so a reader at the end of a segment that the writer has left finds nothing there and
  parks with the current \<open>notify_seq\<close>: a state is reachable in which the reader sleeps, the
  writer is idle, and a record that the reader has not read is committed in the next segment.
  Without a timeout only another append wakes it.
\<close>

theorem roll_loses_wakeup:
  "\<exists>x. wait_reach x \<and> ws_rpc x 0 = RAsleep \<and> ws_wpc x = WIdle \<and> ws_slept x 0 = ws_rseq x 0 \<and>
     ws_rseg x 0 < ws_segment x \<and> 0 < ws_committed x (Suc (ws_rseg x 0))"
proof -
  let ?S = "\<lambda>com seg notif wpc. asleep_state com seg notif wpc RIdle 0 0"
  let ?c = "(\<lambda>_. 0)(1 := 1)"
  have 1: "wait_step (?S (\<lambda>_. 0) 0 0 WIdle) (?S (\<lambda>_. 0) 1 0 WNotify)"
    using w_roll [of "?S (\<lambda>_. 0) 0 0 WIdle"] by (simp add: asleep_state_def)
  have 2: "wait_step (?S (\<lambda>_. 0) 1 0 WNotify) (?S (\<lambda>_. 0) 1 1 WCheck)"
    using w_notify [of "?S (\<lambda>_. 0) 1 0 WNotify"] by (simp add: asleep_state_def)
  have 3: "wait_step (?S (\<lambda>_. 0) 1 1 WCheck) (?S (\<lambda>_. 0) 1 1 WIdle)"
    using w_check [of "?S (\<lambda>_. 0) 1 1 WCheck"] by (simp add: asleep_state_def)
  have 4: "wait_step (?S (\<lambda>_. 0) 1 1 WIdle) (?S ?c 1 1 WNotify)"
    using w_commit [of "?S (\<lambda>_. 0) 1 1 WIdle"] by (simp add: asleep_state_def)
  have 5: "wait_step (?S ?c 1 1 WNotify) (?S ?c 1 2 WCheck)"
    using w_notify [of "?S ?c 1 1 WNotify"] by (simp add: asleep_state_def numeral_2_eq_2)
  have 6: "wait_step (?S ?c 1 2 WCheck) (?S ?c 1 2 WIdle)"
    using w_check [of "?S ?c 1 2 WCheck"] by (simp add: asleep_state_def)
  have "wait_reach (?S ?c 1 2 WIdle)"
    using wr_step [OF wr_step [OF wr_step [OF wr_step [OF wr_step [OF wr_step [OF reach_start 1] 2] 3] 4] 5] 6] .
  then have "wait_reach (asleep_state ?c 1 2 WIdle RAsleep 2 2)" by (rule reach_sleep) simp
  then show ?thesis
    by (intro exI [of _ "asleep_state ?c 1 2 WIdle RAsleep 2 2"] conjI) (simp_all add: asleep_state_def)
qed

end
