(* ===== verification/Control.thy ===== *)
theory Control
  imports Segment
begin

text \<open>
  \<^verbatim>\<open>src/src/core/control.rs\<close>: the control block that a writer and its readers share. The
  atomic fields are the fields of a record; the file \<^verbatim>\<open>control.meta\<close> is present or absent with
  its block. Besides the operations as one thread runs them, the pair of
  \<open>set_segment_index\<close> and \<open>segment_index\<close>, a sequence lock, is modelled as a step relation
  that interleaves their single loads and stores (sequentially consistent).
\<close>

section \<open>The control block\<close>

abbreviation (input) CTRL_MAGIC :: u32 where "CTRL_MAGIC \<equiv> 0x4348524E"
abbreviation (input) CTRL_VERSION :: u32 where "CTRL_VERSION \<equiv> 3"

record control_block =
  cb_magic :: u32
  cb_version :: u32
  cb_init_state :: u32
  cb_writer_epoch :: u64
  cb_segment_size :: nat
  cb_segment_gen :: u32
  cb_current_segment :: nat
  cb_write_offset :: nat
  cb_writer_heartbeat_ns :: nat
  cb_notify_seq :: u32
  cb_waiters_pending :: u32

definition cb_create :: "nat \<Rightarrow> nat \<Rightarrow> u64 \<Rightarrow> nat \<Rightarrow> control_block" where
  "cb_create current_segment write_offset writer_epoch segment_size =
     \<lparr>cb_magic = CTRL_MAGIC, cb_version = CTRL_VERSION, cb_init_state = 2,
      cb_writer_epoch = writer_epoch, cb_segment_size = segment_size, cb_segment_gen = 0,
      cb_current_segment = current_segment, cb_write_offset = write_offset,
      cb_writer_heartbeat_ns = 0, cb_notify_seq = 0, cb_waiters_pending = 0\<rparr>"

definition check_ready :: "control_block \<Rightarrow> bool result" where
  "check_ready b =
     (if cb_init_state b \<noteq> 2 then Inr False
      else if cb_magic b \<noteq> CTRL_MAGIC then Inl (CorruptMetadata ''control.meta magic mismatch'')
      else if cb_version b \<noteq> CTRL_VERSION then Inl (UnsupportedVersion (cb_version b))
      else Inr True)"

text \<open>\<open>wait_ready\<close> spins until the block is initialised: with a block that is not, it is still waiting.\<close>

definition wait_ready :: "control_block \<Rightarrow> unit result" where
  "wait_ready b =
     (if cb_init_state b \<noteq> 2 then Inl Blocked
      else if cb_magic b \<noteq> CTRL_MAGIC then Inl (CorruptMetadata ''control.meta magic mismatch'')
      else if cb_version b \<noteq> CTRL_VERSION then Inl (UnsupportedVersion (cb_version b))
      else Inr ())"

definition set_write_offset :: "nat \<Rightarrow> control_block \<Rightarrow> control_block" where
  "set_write_offset offset b = b\<lparr>cb_write_offset := offset\<rparr>"

definition set_segment_index :: "nat \<Rightarrow> nat \<Rightarrow> control_block \<Rightarrow> control_block" where
  "set_segment_index segment offset b =
     b\<lparr>cb_segment_gen := cb_segment_gen b + 1 + 1, cb_current_segment := segment, cb_write_offset := offset\<rparr>"

text \<open>Without a concurrent writer the loop returns at once, or never when the generation is odd.\<close>

definition segment_index :: "control_block \<Rightarrow> (nat \<times> nat) result" where
  "segment_index b =
     (if cb_segment_gen b AND 1 \<noteq> 0 then Inl Blocked else Inr (cb_current_segment b, cb_write_offset b))"

definition set_writer_heartbeat_ns :: "nat \<Rightarrow> control_block \<Rightarrow> control_block" where
  "set_writer_heartbeat_ns heartbeat b = b\<lparr>cb_writer_heartbeat_ns := heartbeat\<rparr>"

definition set_writer_epoch :: "u64 \<Rightarrow> control_block \<Rightarrow> control_block" where
  "set_writer_epoch epoch b = b\<lparr>cb_writer_epoch := epoch\<rparr>"

definition notify :: "control_block \<Rightarrow> control_block" where
  "notify b = b\<lparr>cb_notify_seq := cb_notify_seq b + 1\<rparr>"

section \<open>The sequence lock, step by step\<close>

text \<open>
  Program points of \<open>set_segment_index\<close> (with its arguments) and of \<open>segment_index\<close>. Between
  rolls the writer also stores plain offsets (\<open>set_write_offset\<close>).
\<close>

datatype wpc = WIdle | WSeg nat nat | WOff nat | WGen

datatype rpc = RStart | RSeg | ROff | REnd | RDone

text \<open>
  Besides the shared block and the two threads' registers the state keeps history: the
  number of completed rolls, that number when the reader loaded its first generation and its
  last, and every pair of segment and offset that was current with no roll in progress.
\<close>

record seqlock =
  sl_block :: control_block
  sl_wpc :: wpc
  sl_rpc :: rpc
  sl_start :: u32
  sl_segment :: nat
  sl_offset :: nat
  sl_rolls :: nat
  sl_start_rolls :: nat
  sl_end_rolls :: nat
  sl_current :: "(nat \<times> nat) set"

definition sl_init :: "control_block \<Rightarrow> seqlock" where
  "sl_init b = \<lparr>sl_block = b, sl_wpc = WIdle, sl_rpc = RStart, sl_start = 0, sl_segment = 0, sl_offset = 0,
     sl_rolls = 0, sl_start_rolls = 0, sl_end_rolls = 0,
     sl_current = {(cb_current_segment b, cb_write_offset b)}\<rparr>"

inductive sl_step :: "seqlock \<Rightarrow> seqlock \<Rightarrow> bool" where
  store_offset: "sl_wpc x = WIdle \<Longrightarrow>
    sl_step x (x\<lparr>sl_block := set_write_offset off (sl_block x),
                sl_current := insert (cb_current_segment (sl_block x), off) (sl_current x)\<rparr>)"
| roll_begin: "sl_wpc x = WIdle \<Longrightarrow>
    sl_step x (x\<lparr>sl_block := (sl_block x)\<lparr>cb_segment_gen := cb_segment_gen (sl_block x) + 1\<rparr>, sl_wpc := WSeg seg off\<rparr>)"
| roll_segment: "sl_wpc x = WSeg seg off \<Longrightarrow>
    sl_step x (x\<lparr>sl_block := (sl_block x)\<lparr>cb_current_segment := seg\<rparr>, sl_wpc := WOff off\<rparr>)"
| roll_offset: "sl_wpc x = WOff off \<Longrightarrow>
    sl_step x (x\<lparr>sl_block := (sl_block x)\<lparr>cb_write_offset := off\<rparr>, sl_wpc := WGen\<rparr>)"
| roll_end: "sl_wpc x = WGen \<Longrightarrow>
    sl_step x (x\<lparr>sl_block := (sl_block x)\<lparr>cb_segment_gen := cb_segment_gen (sl_block x) + 1\<rparr>, sl_wpc := WIdle,
                sl_rolls := sl_rolls x + 1,
                sl_current := insert (cb_current_segment (sl_block x), cb_write_offset (sl_block x)) (sl_current x)\<rparr>)"
| read_start: "sl_rpc x = RStart \<Longrightarrow>
    sl_step x (x\<lparr>sl_start := cb_segment_gen (sl_block x), sl_start_rolls := sl_rolls x,
                sl_rpc := (if cb_segment_gen (sl_block x) AND 1 \<noteq> 0 then RStart else RSeg)\<rparr>)"
| read_segment: "sl_rpc x = RSeg \<Longrightarrow>
    sl_step x (x\<lparr>sl_segment := cb_current_segment (sl_block x), sl_rpc := ROff\<rparr>)"
| read_offset: "sl_rpc x = ROff \<Longrightarrow>
    sl_step x (x\<lparr>sl_offset := cb_write_offset (sl_block x), sl_rpc := REnd\<rparr>)"
| read_end: "sl_rpc x = REnd \<Longrightarrow>
    sl_step x (x\<lparr>sl_end_rolls := sl_rolls x,
                sl_rpc := (if sl_start x = cb_segment_gen (sl_block x) \<and> cb_segment_gen (sl_block x) AND 1 = 0
                           then RDone else RStart)\<rparr>)"

inductive sl_reach :: "seqlock \<Rightarrow> seqlock \<Rightarrow> bool" for x where
  sl_refl: "sl_reach x x"
| sl_trans: "sl_reach x y \<Longrightarrow> sl_step y z \<Longrightarrow> sl_reach x z"

inductive_cases sl_stepE: "sl_step x y"

text \<open>
  The invariant: the generation counts the rolls, twice each and one more during a roll; a
  reader past its first load has an even generation of its own; as long as no roll has begun
  since, its segment is the current one and, after the second load, its pair has been current.
\<close>

definition sl_gen :: "nat \<Rightarrow> wpc \<Rightarrow> u32" where
  "sl_gen rolls pc = word_of_nat (2 * rolls + (if pc = WIdle then 0 else 1))"

definition sl_inv :: "seqlock \<Rightarrow> bool" where
  "sl_inv x \<longleftrightarrow>
     cb_segment_gen (sl_block x) = sl_gen (sl_rolls x) (sl_wpc x) \<and>
     (sl_wpc x = WIdle \<longrightarrow> (cb_current_segment (sl_block x), cb_write_offset (sl_block x)) \<in> sl_current x) \<and>
     (sl_rpc x \<in> {RSeg, ROff, REnd, RDone} \<longrightarrow>
        sl_start x = word_of_nat (2 * sl_start_rolls x) \<and> sl_start_rolls x \<le> sl_rolls x) \<and>
     (sl_rpc x \<in> {ROff, REnd} \<and> sl_wpc x = WIdle \<and> sl_rolls x = sl_start_rolls x \<longrightarrow>
        sl_segment x = cb_current_segment (sl_block x)) \<and>
     (sl_rpc x = REnd \<and> sl_wpc x = WIdle \<and> sl_rolls x = sl_start_rolls x \<longrightarrow>
        (sl_segment x, sl_offset x) \<in> sl_current x) \<and>
     (sl_rpc x = RDone \<and> sl_end_rolls x < sl_start_rolls x + 2147483648 \<longrightarrow>
        (sl_segment x, sl_offset x) \<in> sl_current x)"

lemma even_word_of_nat: "((word_of_nat n :: u32) AND 1 = 0) \<longleftrightarrow> even n"
  by (simp add: and_one_eq mod2_eq_if)

lemma sl_gen_step:
  "sl_gen r WIdle + 1 = sl_gen r WGen" "sl_gen r WGen + 1 = sl_gen (Suc r) WIdle"
  "sl_gen r (WSeg seg off) = sl_gen r WGen" "sl_gen r (WOff off) = sl_gen r WGen"
  by (simp_all add: sl_gen_def algebra_simps)

lemma sl_gen_even: "sl_gen r pc AND 1 = 0 \<longleftrightarrow> pc = WIdle"
  by (simp add: sl_gen_def even_word_of_nat del: of_nat_add of_nat_mult)

lemma gen_no_wrap:
  assumes "(word_of_nat (2 * s) :: u32) = word_of_nat (2 * r)" "s \<le> r" "r < s + 2147483648"
  shows "r = s"
proof -
  have "(2 * s) mod 4294967296 = (2 * r) mod 4294967296"
    using assms(1) by (simp add: word_of_nat_eq_iff take_bit_eq_mod del: of_nat_mult)
  then have "4294967296 dvd 2 * r - 2 * s"
    using assms(2) mod_eq_dvd_iff_nat [of "2 * s" "2 * r" 4294967296] by simp
  then obtain k where "2 * r - 2 * s = 4294967296 * k" by (auto elim: dvdE)
  then show ?thesis using assms(2,3) by (cases k) simp_all
qed

lemma sl_inv_init: "cb_segment_gen b = 0 \<Longrightarrow> sl_inv (sl_init b)"
  by (simp add: sl_inv_def sl_init_def sl_gen_def)

lemma sl_inv_step: "sl_step x y \<Longrightarrow> sl_inv x \<Longrightarrow> sl_inv y"
proof (induction rule: sl_step.induct)
  case (store_offset x off)
  then show ?case unfolding sl_inv_def set_write_offset_def by simp metis
next
  case (roll_begin x seg off)
  then show ?case unfolding sl_inv_def by (simp add: sl_gen_step)
next
  case (roll_segment x seg off)
  then show ?case unfolding sl_inv_def by (simp add: sl_gen_step)
next
  case (roll_offset x off)
  then show ?case unfolding sl_inv_def by (simp add: sl_gen_step)
next
  case (roll_end x)
  then show ?case unfolding sl_inv_def by (cases "sl_rpc x") (auto simp: sl_gen_step)
next
  case (read_start x)
  then show ?case unfolding sl_inv_def by (simp add: sl_gen_even) (simp add: sl_gen_def)
next
  case (read_segment x)
  then show ?case unfolding sl_inv_def by simp
next
  case (read_offset x)
  then show ?case unfolding sl_inv_def by simp
next
  case (read_end x)
  show ?case
  proof (cases "sl_start x = cb_segment_gen (sl_block x) \<and> cb_segment_gen (sl_block x) AND 1 = 0")
    case True
    then have idle: "sl_wpc x = WIdle" using read_end by (simp add: sl_inv_def sl_gen_even)
    then have "(word_of_nat (2 * sl_start_rolls x) :: u32) = word_of_nat (2 * sl_rolls x)" "sl_start_rolls x \<le> sl_rolls x"
      using True read_end by (auto simp: sl_inv_def sl_gen_def simp del: of_nat_mult)
    then have "sl_rolls x < sl_start_rolls x + 2147483648 \<longrightarrow> sl_rolls x = sl_start_rolls x"
      using gen_no_wrap by blast
    then show ?thesis using True idle read_end by (auto simp: sl_inv_def)
  next
    case False
    then show ?thesis using read_end by (auto simp: sl_inv_def)
  qed
qed

lemma sl_inv_reach: "sl_reach x y \<Longrightarrow> sl_inv x \<Longrightarrow> sl_inv y"
  by (induction rule: sl_reach.induct) (auto intro: sl_inv_step)

text \<open>
  Property C18. A reader of the control block gets a consistent pair. However the loads of
  \<open>segment_index\<close> interleave with the writer's rolls and offset stores, when the reader
  returns, its segment and offset belong together: the pair was the writer's position at some
  moment with no roll in progress. The generation has 32 bits and a roll advances it by two, so
  this holds as long as fewer than 2 to the 31 rolls happen during one read.
\<close>

theorem segment_index_consistent:
  assumes "sl_reach (sl_init b) x" "cb_segment_gen b = 0" "sl_rpc x = RDone"
    and "sl_end_rolls x < sl_start_rolls x + 2147483648"
  shows "(sl_segment x, sl_offset x) \<in> sl_current x"
  using sl_inv_reach [OF assms(1) sl_inv_init [OF assms(2)]] assms(3,4) by (simp add: sl_inv_def)

text \<open>A read during which the writer stores a new offset.\<close>

theorem segment_index_consistent_witness:
  "\<exists>x. sl_reach (sl_init (cb_create 4 640 1 1024)) x \<and> sl_rpc x = RDone \<and>
     (sl_segment x, sl_offset x) = (4, 704) \<and> (4, 704) \<in> sl_current x"
proof -
  let ?b = "cb_create 4 640 1 1024"
  let ?S = "\<lambda>off rpc seg roff cur. \<lparr>sl_block = ?b\<lparr>cb_write_offset := off\<rparr>, sl_wpc = WIdle, sl_rpc = rpc, sl_start = 0,
     sl_segment = seg, sl_offset = roff, sl_rolls = 0, sl_start_rolls = 0, sl_end_rolls = 0, sl_current = cur\<rparr>"
  have 0: "sl_init ?b = ?S 640 RStart 0 0 {(4, 640)}" by (simp add: sl_init_def cb_create_def)
  have 1: "sl_step (?S 640 RStart 0 0 {(4, 640)}) (?S 640 RSeg 0 0 {(4, 640)})"
    using read_start [of "?S 640 RStart 0 0 {(4, 640)}"] by (simp add: cb_create_def)
  have 2: "sl_step (?S 640 RSeg 0 0 {(4, 640)}) (?S 640 ROff 4 0 {(4, 640)})"
    using read_segment [of "?S 640 RSeg 0 0 {(4, 640)}"] by (simp add: cb_create_def)
  have 3: "sl_step (?S 640 ROff 4 0 {(4, 640)}) (?S 704 ROff 4 0 {(4, 704), (4, 640)})"
    using store_offset [of "?S 640 ROff 4 0 {(4, 640)}" 704] by (simp add: cb_create_def set_write_offset_def)
  have 4: "sl_step (?S 704 ROff 4 0 {(4, 704), (4, 640)}) (?S 704 REnd 4 704 {(4, 704), (4, 640)})"
    using read_offset [of "?S 704 ROff 4 0 {(4, 704), (4, 640)}"] by (simp add: cb_create_def)
  have 5: "sl_step (?S 704 REnd 4 704 {(4, 704), (4, 640)}) (?S 704 RDone 4 704 {(4, 704), (4, 640)})"
    using read_end [of "?S 704 REnd 4 704 {(4, 704), (4, 640)}"] by (simp add: cb_create_def)
  have r: "sl_reach (sl_init ?b) (?S 704 RDone 4 704 {(4, 704), (4, 640)})"
    unfolding 0 using sl_trans [OF sl_trans [OF sl_trans [OF sl_trans [OF sl_trans [OF sl_refl 1] 2] 3] 4] 5] .
  show ?thesis using r segment_index_consistent [OF r] by (auto simp: cb_create_def)
qed

end
