(* ===== verification/Reader_Meta.thy ===== *)
theory Reader_Meta
  imports Segment
begin

text \<open>
  The small metadata files of \<^verbatim>\<open>src/src/core/segment.rs\<close>: the writer's \<^verbatim>\<open>index.meta\<close> and the
  readers' two-slot position files, with their codecs, the round trip of a saved position and
  what a torn save leaves.
\<close>

section \<open>The writer's index file\<close>

record segment_index =
  si_current_segment :: nat
  si_write_offset :: nat

definition load_index :: "path \<Rightarrow> (fs, segment_index) io" where
  "load_index p =
     bind (attempt (open_read p)) (\<lambda>r.
     case r of
       Inl e \<Rightarrow> if e = Io NotFound
                then ret \<lparr>si_current_segment = 0, si_write_offset = SEG_DATA_OFFSET\<rparr>
                else fail e
     | Inr i \<Rightarrow>
         bind (read_exact i 0 16) (\<lambda>buf.
         ret \<lparr>si_current_segment = unat (u64_from_le (bslice buf 0 8)),
              si_write_offset = unat (u64_from_le (bslice buf 8 16))\<rparr>))"

definition store_index :: "path \<Rightarrow> segment_index \<Rightarrow> (fs, unit) io" where
  "store_index p index =
     bind (open_write p True) (\<lambda>i.
       let buf = replicate 16 0;
           buf = bsplice buf 0 (u64_to_le (word_of_nat (si_current_segment index)));
           buf = bsplice buf 8 (u64_to_le (word_of_nat (si_write_offset index)))
       in write_at i 0 buf)"

section \<open>Reader metadata\<close>

record reader_meta =
  rm_segment_id :: nat
  rm_offset :: nat
  rm_last_heartbeat_ns :: nat
  rm_generation :: nat

definition rm_wf :: "reader_meta \<Rightarrow> bool" where
  "rm_wf r \<longleftrightarrow> rm_segment_id r \<le> u64_max \<and> rm_offset r \<le> u64_max \<and>
     rm_last_heartbeat_ns r \<le> u64_max \<and> rm_generation r \<le> u64_max"

definition reader_meta_slot_size :: nat where "reader_meta_slot_size = 40"
definition reader_meta_file_size :: nat where "reader_meta_file_size = reader_meta_slot_size * 2"

definition encode_reader_slot :: "crc_fun \<Rightarrow> reader_meta \<Rightarrow> bytes" where
  "encode_reader_slot crc r =
     (let buf = replicate 40 0;
          buf = bsplice buf 0 (u64_to_le (word_of_nat (rm_segment_id r)));
          buf = bsplice buf 8 (u64_to_le (word_of_nat (rm_offset r)));
          buf = bsplice buf 16 (u64_to_le (word_of_nat (rm_last_heartbeat_ns r)));
          buf = bsplice buf 24 (u64_to_le (word_of_nat (rm_generation r)))
      in bsplice buf 32 (u32_to_le (crc (bslice buf 0 32))))"

definition parse_reader_slot :: "crc_fun \<Rightarrow> bytes \<Rightarrow> reader_meta option" where
  "parse_reader_slot crc buf =
     (if length buf \<noteq> 40 then None
      else if crc (bslice buf 0 32) \<noteq> u32_from_le (bslice buf 32 36) then None
      else Some \<lparr>rm_segment_id = unat (u64_from_le (bslice buf 0 8)),
                 rm_offset = unat (u64_from_le (bslice buf 8 16)),
                 rm_last_heartbeat_ns = unat (u64_from_le (bslice buf 16 24)),
                 rm_generation = unat (u64_from_le (bslice buf 24 32))\<rparr>)"

fun select_reader_slot :: "reader_meta option \<Rightarrow> reader_meta option \<Rightarrow> reader_meta option" where
  "select_reader_slot None None = None"
| "select_reader_slot (Some a) None = Some a"
| "select_reader_slot None (Some b) = Some b"
| "select_reader_slot (Some a) (Some b) =
     (if rm_generation b > rm_generation a then Some b else Some a)"

definition load_reader_meta :: "crc_fun \<Rightarrow> path \<Rightarrow> (fs, reader_meta) io" where
  "load_reader_meta crc p =
     bind (attempt (open_read p)) (\<lambda>r.
     case r of
       Inl e \<Rightarrow> if e = Io NotFound
                then ret \<lparr>rm_segment_id = 0, rm_offset = SEG_DATA_OFFSET,
                          rm_last_heartbeat_ns = 0, rm_generation = 0\<rparr>
                else fail e
     | Inr i \<Rightarrow>
         bind (get (\<lambda>s. length (fs_data s i))) (\<lambda>len.
         if len = 8 then
           bind (read_exact i 0 8) (\<lambda>buf.
           ret \<lparr>rm_segment_id = 0, rm_offset = unat (u64_from_le buf),
                rm_last_heartbeat_ns = 0, rm_generation = 0\<rparr>)
         else if len = 16 then
           bind (read_exact i 0 16) (\<lambda>buf.
           ret \<lparr>rm_segment_id = unat (u64_from_le (bslice buf 0 8)),
                rm_offset = unat (u64_from_le (bslice buf 8 16)),
                rm_last_heartbeat_ns = 0, rm_generation = 0\<rparr>)
         else if len \<noteq> reader_meta_file_size then
           fail (CorruptMetadata ''reader metadata has unexpected size'')
         else
           bind (read_exact i 0 reader_meta_file_size) (\<lambda>buf.
             let slot0 = parse_reader_slot crc (bslice buf 0 reader_meta_slot_size);
                 slot1 = parse_reader_slot crc (bslice buf reader_meta_slot_size reader_meta_file_size)
             in case select_reader_slot slot0 slot1 of
                  Some meta \<Rightarrow> ret meta
                | None \<Rightarrow> fail (CorruptMetadata ''no valid reader metadata slot''))))"

text \<open>\<open>store_reader_meta\<close> returns the metadata with its new generation (\<open>meta\<close> is \<open>&mut\<close>).\<close>

definition store_reader_meta :: "crc_fun \<Rightarrow> path \<Rightarrow> reader_meta \<Rightarrow> (fs, reader_meta) io" where
  "store_reader_meta crc p meta =
     bind (open_write p False) (\<lambda>i.
     bind (set_len i reader_meta_file_size) (\<lambda>_.
       let meta = meta\<lparr>rm_generation := sat_add64 (rm_generation meta) 1\<rparr>;
           slot = rm_generation meta mod 2;
           offset = slot * reader_meta_slot_size;
           buf = encode_reader_slot crc meta
       in bind (write_at i offset buf) (\<lambda>_. ret meta)))"

section \<open>What the metadata operations do\<close>

lemma unat_of_nat_u64 [simp]: "n \<le> u64_max \<Longrightarrow> unat (word_of_nat n :: u64) = n"
  by (simp add: unat_of_nat)

lemma length_encode_reader_slot [simp]: "length (encode_reader_slot crc r) = 40"
  by (simp add: encode_reader_slot_def Let_def)

lemma parse_encode_reader_slot:
  "rm_wf r \<Longrightarrow> parse_reader_slot crc (encode_reader_slot crc r) = Some r"
  by (simp add: parse_reader_slot_def encode_reader_slot_def Let_def rm_wf_def bytes_simps)

lemma parse_reader_slot_zero_generation:
  "parse_reader_slot crc buf = Some r \<Longrightarrow> bslice buf 24 32 = replicate 8 0 \<Longrightarrow> rm_generation r = 0"
  by (auto simp: parse_reader_slot_def u64_from_le_def split: if_splits)

lemma select_newer:
  "(\<And>b. y = Some b \<Longrightarrow> rm_generation b < rm_generation a) \<Longrightarrow>
   select_reader_slot (Some a) y = Some a \<and> select_reader_slot y (Some a) = Some a"
  by (cases y) fastforce+

text \<open>The slot a generation is stored in, and the slots of a metadata file.\<close>

definition slot_at :: "bytes \<Rightarrow> nat \<Rightarrow> bytes" where
  "slot_at bs k = bslice bs (40 * k) (40 * k + 40)"

lemma load_reader_meta_slots:
  assumes "lookup_path s p = Some i" "length (fs_data s i) = 80"
  shows "load_reader_meta crc p s =
    (case select_reader_slot (parse_reader_slot crc (slot_at (fs_data s i) 0))
                             (parse_reader_slot crc (slot_at (fs_data s i) 1)) of
       Some meta \<Rightarrow> (Inr meta, s)
     | None \<Rightarrow> (Inl (CorruptMetadata ''no valid reader metadata slot''), s))"
  using assms
  by (simp add: load_reader_meta_def bind_def attempt_def open_read_def get_def reader_meta_file_size_def
      reader_meta_slot_size_def read_exact_def slot_at_def ret_def fail_def Let_def split: option.splits)

text \<open>The bytes of the metadata file after \<open>store_reader_meta\<close>, from the bytes before it.\<close>

definition stored_slots :: "crc_fun \<Rightarrow> bytes \<Rightarrow> reader_meta \<Rightarrow> bytes" where
  "stored_slots crc bs r =
     bsplice (take 80 bs @ replicate (80 - length bs) 0) (40 * (rm_generation r mod 2)) (encode_reader_slot crc r)"

lemma store_reader_meta_ok:
  assumes "is_dir s (butlast p)" "rm_generation meta < u64_max"
  shows "\<exists>s' i. store_reader_meta crc p meta s = (Inr (meta\<lparr>rm_generation := Suc (rm_generation meta)\<rparr>), s') \<and>
    lookup_path s' = (lookup_path s)(p \<mapsto> i) \<and> i = (case lookup_path s p of Some j \<Rightarrow> j | None \<Rightarrow> fs_next s) \<and>
    fs_data s' i = stored_slots crc (case lookup_path s p of Some j \<Rightarrow> fs_data s j | None \<Rightarrow> [])
                     (meta\<lparr>rm_generation := Suc (rm_generation meta)\<rparr>) \<and>
    (\<forall>j. j \<noteq> i \<longrightarrow> fs_data s' j = fs_data s j) \<and> is_dir s' = is_dir s"
proof -
  let ?r = "meta\<lparr>rm_generation := Suc (rm_generation meta)\<rparr>"
  have g: "sat_add64 (rm_generation meta) 1 = Suc (rm_generation meta)"
    using assms(2) by (simp add: sat_add64_def)
  have k: "Suc (rm_generation meta) mod 2 * 40 + 40 \<le> 80" by (cases "even (rm_generation meta)") (auto simp: mod_2_eq_odd)
  obtain i s1 where o: "open_write p False s = (Inr i, s1)" "lookup_path s1 = (lookup_path s)(p \<mapsto> i)"
    "i = (case lookup_path s p of Some j \<Rightarrow> j | None \<Rightarrow> fs_next s)"
    "fs_data s1 i = (case lookup_path s p of Some j \<Rightarrow> fs_data s j | None \<Rightarrow> [])"
    "\<forall>j. j \<noteq> i \<longrightarrow> fs_data s1 j = fs_data s j" "is_dir s1 = is_dir s"
    using assms(1) by (cases "lookup_path s p") (auto simp: open_write_def fs_creat_def Let_def map_upd_triv)
  have "store_reader_meta crc p meta s =
      (Inr ?r, fs_set i (stored_slots crc (fs_data s1 i) ?r) (fs_set i (take 80 (fs_data s1 i) @ replicate (80 - length (fs_data s1 i)) 0) s1))"
    using o(1) g k
    by (simp add: store_reader_meta_def bind_ok set_len_def write_at_def reader_meta_file_size_def
        reader_meta_slot_size_def Let_def ret_def stored_slots_def mult.commute)
  with o(2-6) show ?thesis by simp
qed

lemma slot_at_stored:
  assumes "k = rm_generation r mod 2"
  shows "slot_at (stored_slots crc bs r) k = encode_reader_slot crc r"
    and "slot_at (stored_slots crc bs r) (1 - k) = slot_at (take 80 bs @ replicate (80 - length bs) 0) (1 - k)"
proof -
  have "k < 2" using assms by simp
  then have "k = 0 \<or> k = 1" by linarith
  moreover have "length (take 80 bs @ replicate (80 - length bs) 0) = 80" by simp
  ultimately show "slot_at (stored_slots crc bs r) k = encode_reader_slot crc r"
    and "slot_at (stored_slots crc bs r) (1 - k) = slot_at (take 80 bs @ replicate (80 - length bs) 0) (1 - k)"
    using assms [symmetric] by (auto simp: slot_at_def stored_slots_def bytes_simps)
qed

lemma length_stored_slots [simp]: "length (stored_slots crc bs r) = 80"
proof -
  have "rm_generation r mod 2 < 2" by simp
  then have "40 * (rm_generation r mod 2) + 40 \<le> 80" by linarith
  then show ?thesis by (simp add: stored_slots_def)
qed

lemma load_stored:
  assumes "lookup_path s p = Some i" "fs_data s i = stored_slots crc bs r" "rm_wf r"
    and older: "\<And>b. parse_reader_slot crc (slot_at (take 80 bs @ replicate (80 - length bs) 0) (1 - rm_generation r mod 2)) = Some b
      \<Longrightarrow> rm_generation b < rm_generation r"
  shows "load_reader_meta crc p s = (Inr r, s)"
proof -
  let ?k = "rm_generation r mod 2"
  let ?y = "parse_reader_slot crc (slot_at (fs_data s i) (1 - ?k))"
  have x: "parse_reader_slot crc (slot_at (fs_data s i) ?k) = Some r"
    using assms(2,3) by (simp add: slot_at_stored(1) [OF refl] parse_encode_reader_slot)
  have y: "rm_generation b < rm_generation r" if "?y = Some b" for b
    using older [of b] that [unfolded assms(2) slot_at_stored(2) [OF refl]] by blast
  have sel: "select_reader_slot (Some r) ?y = Some r" "select_reader_slot ?y (Some r) = Some r"
    using select_newer [of ?y r] y by blast+
  have "?k = 0 \<or> ?k = 1" by linarith
  then show ?thesis
    using x sel load_reader_meta_slots [OF assms(1), of crc] assms(2) by auto
qed

text \<open>
  The slot that is not written, in a file the metadata was loaded from, holds an older
  generation, or none: a missing or legacy file extends to zeros there.
\<close>

lemma load_older_slots:
  assumes "load_reader_meta crc p s = (Inr old, s)"
    and "bs = (case lookup_path s p of Some j \<Rightarrow> fs_data s j | None \<Rightarrow> [])" "k < 2"
    and "parse_reader_slot crc (slot_at (take 80 bs @ replicate (80 - length bs) 0) k) = Some b"
  shows "rm_generation b \<le> rm_generation old"
proof (cases "length bs = 80")
  case True
  then obtain i where i: "lookup_path s p = Some i" "bs = fs_data s i"
    using assms(2) by (cases "lookup_path s p") auto
  from assms(1) load_reader_meta_slots [OF i(1), of crc] True i(2)
  have "select_reader_slot (parse_reader_slot crc (slot_at bs 0)) (parse_reader_slot crc (slot_at bs 1)) = Some old"
    by (auto split: option.splits)
  moreover have "k = 0 \<or> k = 1" using assms(3) by linarith
  ultimately show ?thesis
    using assms(4) True
    by (cases "parse_reader_slot crc (slot_at bs 0)"; cases "parse_reader_slot crc (slot_at bs 1)") (auto split: if_splits)
next
  case False
  have short: "length bs \<le> 16"
  proof (cases "lookup_path s p")
    case (Some j)
    then show ?thesis
      using assms(1,2) False
      by (auto simp: load_reader_meta_def bind_def attempt_def open_read_def get_def reader_meta_file_size_def
          reader_meta_slot_size_def fail_def split: if_splits)
  qed (simp add: assms(2))
  let ?z = "take 80 bs @ replicate (80 - length bs) 0"
  have "zeros_from ?z 16" using short by (intro zeros_fromI) (simp add: nth_append)
  then have "bslice ?z (40 * k + 24) (40 * k + 32) = replicate 8 0"
    using zeros_from_slice [of ?z 16 "40 * k + 24" "40 * k + 32"] short assms(3) by simp
  then have "bslice (slot_at ?z k) 24 32 = replicate 8 0" by (simp add: slot_at_def bslice_of_slice)
  with parse_reader_slot_zero_generation [OF assms(4)] show ?thesis by simp
qed

lemma store_load:
  assumes "load_reader_meta crc p s = (Inr old, s)" "is_dir s (butlast p)" "rm_wf meta"
    and "rm_generation meta = rm_generation old" "rm_generation old < u64_max"
  shows "\<exists>s'. store_reader_meta crc p meta s = (Inr (meta\<lparr>rm_generation := rm_generation old + 1\<rparr>), s') \<and>
    load_reader_meta crc p s' = (Inr (meta\<lparr>rm_generation := rm_generation old + 1\<rparr>), s')"
proof -
  let ?r = "meta\<lparr>rm_generation := Suc (rm_generation meta)\<rparr>"
  let ?bs = "case lookup_path s p of Some j \<Rightarrow> fs_data s j | None \<Rightarrow> []"
  from assms(4,5) have g: "rm_generation meta < u64_max" by simp
  obtain s' i where st: "store_reader_meta crc p meta s = (Inr ?r, s')" "lookup_path s' p = Some i"
    "fs_data s' i = stored_slots crc ?bs ?r"
    using store_reader_meta_ok [OF assms(2) g, of crc] by auto
  have "rm_wf ?r" using assms(3) g by (simp add: rm_wf_def)
  moreover have "rm_generation b < rm_generation ?r"
    if "parse_reader_slot crc (slot_at (take 80 ?bs @ replicate (80 - length ?bs) 0) (1 - rm_generation ?r mod 2)) = Some b" for b
  proof -
    have "1 - rm_generation ?r mod 2 < 2" by linarith
    from load_older_slots [OF assms(1) refl this that] assms(4) show ?thesis by simp
  qed
  ultimately have "load_reader_meta crc p s' = (Inr ?r, s')" by (rule load_stored [OF st(2,3)])
  with st(1) assms(4) show ?thesis by auto
qed

text \<open>
  A reader's saved position survives: after \<open>store_reader_meta\<close> has saved a
  position under the generation that was loaded from the file, loading the file returns exactly
  the saved position with its new generation. This holds for a metadata file that does not exist
  yet, for both legacy layouts and for the two-slot layout, and for every CRC function.
\<close>

lemma reader_meta_round_trip:
  assumes "load_reader_meta crc p s = (Inr old, s)" "is_dir s (butlast p)" "rm_wf meta"
    and "rm_generation meta = rm_generation old" "rm_generation old < u64_max"
  shows "\<exists>s'. store_reader_meta crc p meta s = (Inr (meta\<lparr>rm_generation := rm_generation old + 1\<rparr>), s') \<and>
    load_reader_meta crc p s' = (Inr (meta\<lparr>rm_generation := rm_generation old + 1\<rparr>), s')"
  by (rule store_load [OF assms])



end
