(* ===== verification/Retention.thy ===== *)
theory Retention
  imports Reader_Meta
begin

text \<open>
  \<^verbatim>\<open>src/src/core/retention.rs\<close>: which readers count as live, the oldest segment and position
  they still need, and the deletion of older segments. The time of day is an argument, in
  nanoseconds since the epoch.
\<close>

section \<open>Live readers\<close>

record retention_config =
  rc_reader_ttl_ns :: nat
  rc_max_reader_lag :: nat

definition default_retention :: retention_config where
  "default_retention = \<lparr>rc_reader_ttl_ns = 30000000000, rc_max_reader_lag = 10737418240\<rparr>"

definition system_now_ns :: "int \<Rightarrow> nat result" where
  "system_now_ns now =
     (if now < 0 then Inl (Unsupported ''system time before UNIX epoch'')
      else if nat now > u64_max then Inl (Unsupported ''system time exceeds timestamp range'')
      else Inr (nat now))"

text \<open>\<open>Path::extension\<close>: what follows the last dot of the name, when something precedes it.\<close>

definition extension :: "string \<Rightarrow> string option" where
  "extension name =
     (let ext = takeWhile (\<lambda>c. c \<noteq> CHR ''.'') (rev name)
      in if length ext + 1 < length name then Some (rev ext) else None)"

definition global_pos :: "nat \<Rightarrow> nat \<Rightarrow> nat \<Rightarrow> nat" where
  "global_pos segment offset segment_size = sat_add64 (sat_mul64 segment segment_size) offset"

text \<open>The two \<open>continue\<close> tests of the scans: a reader with a stale heartbeat or too much lag is not live.\<close>

definition reader_live :: "retention_config \<Rightarrow> nat \<Rightarrow> nat \<Rightarrow> nat \<Rightarrow> reader_meta \<Rightarrow> bool" where
  "reader_live config now_ns head segment_size meta \<longleftrightarrow>
     \<not> (rm_last_heartbeat_ns meta \<noteq> 0 \<and> sat_sub64 now_ns (rm_last_heartbeat_ns meta) > as_u64 (rc_reader_ttl_ns config)) \<and>
     (let reader_global = global_pos (rm_segment_id meta) (rm_offset meta) segment_size
      in \<not> (head > reader_global \<and> head - reader_global > rc_max_reader_lag config))"

text \<open>
  Both scans walk the entries of the \<open>readers\<close> directory, take those with the extension
  \<open>meta\<close>, load each and fold the live ones into a minimum; an unreadable file ends the scan.
\<close>

fun scan_readers :: "crc_fun \<Rightarrow> path \<Rightarrow> (reader_meta \<Rightarrow> bool) \<Rightarrow> (reader_meta \<Rightarrow> nat) \<Rightarrow> string list \<Rightarrow> nat option \<Rightarrow> (fs, nat option) io" where
  "scan_readers crc dir live key [] acc = ret acc"
| "scan_readers crc dir live key (name # names) acc =
     (if extension name \<noteq> Some ''meta'' then scan_readers crc dir live key names acc
      else bind (load_reader_meta crc (dir @ [name])) (\<lambda>meta.
           if \<not> live meta then scan_readers crc dir live key names acc
           else scan_readers crc dir live key names
                  (Some (case acc of Some current \<Rightarrow> min current (key meta) | None \<Rightarrow> key meta))))"

definition readers_dir :: "path \<Rightarrow> path" where
  "readers_dir root = root @ [''readers'']"

definition min_live_reader_segment :: "crc_fun \<Rightarrow> int \<Rightarrow> path \<Rightarrow> nat \<Rightarrow> nat \<Rightarrow> nat \<Rightarrow> retention_config \<Rightarrow> (fs, nat) io" where
  "min_live_reader_segment crc now root head_segment head_offset segment_size config =
     bind (get (\<lambda>s. path_exists s (readers_dir root))) (\<lambda>ex.
     if \<not> ex then ret head_segment
     else let head = global_pos head_segment head_offset segment_size in
       bind (lift (system_now_ns now)) (\<lambda>now_ns.
       bind (get (\<lambda>s. map fst (read_dir (readers_dir root) s))) (\<lambda>names.
       bind (scan_readers crc (readers_dir root) (reader_live config now_ns head segment_size)
               rm_segment_id names None) (\<lambda>min_segment.
       ret (case min_segment of Some m \<Rightarrow> m | None \<Rightarrow> head_segment)))))"

definition min_live_reader_position :: "crc_fun \<Rightarrow> int \<Rightarrow> path \<Rightarrow> nat \<Rightarrow> nat \<Rightarrow> nat \<Rightarrow> retention_config \<Rightarrow> (fs, nat) io" where
  "min_live_reader_position crc now root head_segment head_offset segment_size config =
     (let head = global_pos head_segment head_offset segment_size in
      bind (get (\<lambda>s. path_exists s (readers_dir root))) (\<lambda>ex.
      if \<not> ex then ret head
      else bind (lift (system_now_ns now)) (\<lambda>now_ns.
           bind (get (\<lambda>s. map fst (read_dir (readers_dir root) s))) (\<lambda>names.
           bind (scan_readers crc (readers_dir root) (reader_live config now_ns head segment_size)
                   (\<lambda>meta. global_pos (rm_segment_id meta) (rm_offset meta) segment_size) names None) (\<lambda>min_pos.
           ret (case min_pos of Some m \<Rightarrow> m | None \<Rightarrow> head))))))"

section \<open>Deleting old segments\<close>

definition old_segment :: "nat \<Rightarrow> nat \<Rightarrow> string \<Rightarrow> nat option" where
  "old_segment min_segment head_segment name =
     (if extension name \<noteq> Some ''q'' then None
      else case parse_segment_id name of
             None \<Rightarrow> None
           | Some i \<Rightarrow> if i < min_segment \<and> i < head_segment then Some i else None)"

fun delete_segments :: "path \<Rightarrow> nat \<Rightarrow> nat \<Rightarrow> string list \<Rightarrow> nat list \<Rightarrow> (fs, nat list) io" where
  "delete_segments root min_segment head_segment [] deleted = ret deleted"
| "delete_segments root min_segment head_segment (name # names) deleted =
     (case old_segment min_segment head_segment name of
        None \<Rightarrow> delete_segments root min_segment head_segment names deleted
      | Some i \<Rightarrow> bind (remove_file (root @ [name])) (\<lambda>_.
                   delete_segments root min_segment head_segment names (deleted @ [i])))"

definition cleanup_segments :: "crc_fun \<Rightarrow> int \<Rightarrow> path \<Rightarrow> nat \<Rightarrow> nat \<Rightarrow> nat \<Rightarrow> retention_config \<Rightarrow> (fs, nat list) io" where
  "cleanup_segments crc now root head_segment head_offset segment_size config =
     bind (get (\<lambda>s. path_exists s (readers_dir root))) (\<lambda>ex.
     if \<not> ex then ret []
     else bind (min_live_reader_segment crc now root head_segment head_offset segment_size config) (\<lambda>min_segment.
          bind (get (\<lambda>s. map fst (read_dir root s))) (\<lambda>names.
          bind (delete_segments root min_segment head_segment names []) (\<lambda>deleted.
          ret (sort deleted)))))"

definition retention_candidates :: "crc_fun \<Rightarrow> int \<Rightarrow> path \<Rightarrow> nat \<Rightarrow> nat \<Rightarrow> nat \<Rightarrow> retention_config \<Rightarrow> (fs, nat list) io" where
  "retention_candidates crc now root head_segment head_offset segment_size config =
     bind (get (\<lambda>s. path_exists s (readers_dir root))) (\<lambda>ex.
     if \<not> ex then ret []
     else bind (min_live_reader_segment crc now root head_segment head_offset segment_size config) (\<lambda>min_segment.
          bind (get (\<lambda>s. map fst (read_dir root s))) (\<lambda>names.
          ret (sort (List.map_filter (old_segment min_segment head_segment) names)))))"

section \<open>The scans compute minima over the live readers\<close>

lemma load_reader_meta_state: "snd (load_reader_meta crc p s) = s"
proof (cases "lookup_path s p")
  case None
  then show ?thesis by (simp add: load_reader_meta_def bind_def attempt_def open_read_def ret_def)
next
  case (Some i)
  then show ?thesis
    by (auto simp: load_reader_meta_def bind_def attempt_def open_read_def get_def read_exact_def
        ret_def fail_def Let_def reader_meta_file_size_def split: option.splits)
qed

lemma bind_load_meta:
  "bind (load_reader_meta crc p) f s =
    (case fst (load_reader_meta crc p s) of Inl e \<Rightarrow> (Inl e, s) | Inr meta \<Rightarrow> f meta s)"
  using load_reader_meta_state [of crc p s] by (cases "load_reader_meta crc p s") (auto simp: bind_def split: sum.splits)

text \<open>The metadata of the live readers, in directory order.\<close>

definition live_metas :: "crc_fun \<Rightarrow> path \<Rightarrow> (reader_meta \<Rightarrow> bool) \<Rightarrow> string list \<Rightarrow> fs \<Rightarrow> reader_meta list" where
  "live_metas crc dir live names s =
     filter live (List.map_filter (\<lambda>name. if extension name = Some ''meta''
       then (case fst (load_reader_meta crc (dir @ [name]) s) of Inr meta \<Rightarrow> Some meta | Inl _ \<Rightarrow> None) else None) names)"

definition min_opt :: "nat option \<Rightarrow> nat list \<Rightarrow> nat option" where
  "min_opt acc xs = fold (\<lambda>x a. Some (case a of Some c \<Rightarrow> min c x | None \<Rightarrow> x)) xs acc"

lemma min_opt_props:
  "min_opt acc xs = (if acc = None \<and> xs = [] then None else Some (Min (set_option acc \<union> set xs)))"
proof (induction xs arbitrary: acc)
  case Nil
  then show ?case by (cases acc) (simp_all add: min_opt_def)
next
  case (Cons x xs)
  have "min_opt acc (x # xs) = min_opt (Some (case acc of Some c \<Rightarrow> min c x | None \<Rightarrow> x)) xs" by (simp add: min_opt_def)
  also have "\<dots> = Some (Min (set_option acc \<union> set (x # xs)))"
    using Cons by (cases acc; cases "xs = []") (simp_all add: Min_insert insert_commute min.assoc)
  finally show ?case by simp
qed

lemma scan_readers_ok:
  assumes "scan_readers crc dir live key names acc s = (Inr r, s')"
  shows "s' = s \<and> r = min_opt acc (map key (live_metas crc dir live names s)) \<and>
    (\<forall>name \<in> set names. extension name = Some ''meta'' \<longrightarrow> (\<exists>meta. fst (load_reader_meta crc (dir @ [name]) s) = Inr meta))"
  using assms
proof (induction names arbitrary: acc)
  case Nil
  then show ?case by (simp add: ret_def live_metas_def map_filter_simps min_opt_def)
next
  case (Cons name names)
  show ?case
  proof (cases "extension name = Some ''meta''")
    case False
    then show ?thesis using Cons by (simp add: live_metas_def map_filter_simps)
  next
    case True
    then obtain meta where m: "fst (load_reader_meta crc (dir @ [name]) s) = Inr meta"
      using Cons.prems by (auto simp: bind_load_meta split: sum.splits)
    then show ?thesis
      using Cons True by (cases "live meta") (auto simp: bind_load_meta live_metas_def map_filter_simps min_opt_def)
  qed
qed

lemma scan_readers_state: "snd (scan_readers crc dir live key names acc s) = s"
  by (induction names arbitrary: acc) (simp_all add: ret_def bind_load_meta split: sum.splits)

lemma min_live_reader_position_state:
  "snd (min_live_reader_position crc now root head_segment head_offset segment_size config s) = s"
proof -
  have b: "snd (bind (scan_readers crc dir live key names acc) (\<lambda>x. ret (f x)) s) = s" for dir live key names acc f
    using scan_readers_state [of crc dir live key names acc s]
    by (auto simp: bind_def ret_def split: prod.splits sum.splits)
  show ?thesis
    by (cases "system_now_ns now") (simp_all add: min_live_reader_position_def Let_def b, simp_all add: ret_def fail_def)
qed

lemma min_live_reader_segment_ok:
  assumes "min_live_reader_segment crc now root head_segment head_offset segment_size config s = (Inr m, s')"
    and "path_exists s (readers_dir root)"
  shows "s' = s \<and> 0 \<le> now \<and>
    m = (let ms = live_metas crc (readers_dir root)
                    (reader_live config (nat now) (global_pos head_segment head_offset segment_size) segment_size)
                    (map fst (read_dir (readers_dir root) s)) s
         in if ms = [] then head_segment else Min (rm_segment_id ` set ms)) \<and>
    (\<forall>name \<in> fst ` set (read_dir (readers_dir root) s). extension name = Some ''meta'' \<longrightarrow>
       (\<exists>meta. fst (load_reader_meta crc (readers_dir root @ [name]) s) = Inr meta))"
proof -
  obtain n where n: "system_now_ns now = Inr n"
    using assms by (auto simp: min_live_reader_segment_def Let_def bind_def lift_def get_def split: sum.splits)
  then have now: "n = nat now" "0 \<le> now" by (auto simp: system_now_ns_def split: if_splits)
  let ?live = "reader_live config n (global_pos head_segment head_offset segment_size) segment_size"
  let ?names = "map fst (read_dir (readers_dir root) s)"
  obtain r t where sc: "scan_readers crc (readers_dir root) ?live rm_segment_id ?names None s = (Inr r, t)"
    and m: "m = (case r of Some m \<Rightarrow> m | None \<Rightarrow> head_segment)" "s' = t"
    using assms n by (auto simp: min_live_reader_segment_def Let_def bind_def ret_def get_def lift_def split: prod.splits sum.splits)
  show ?thesis
    using scan_readers_ok [OF sc] m now by (auto simp: min_opt_props Let_def)
qed

lemma delete_segments_ok:
  assumes "delete_segments root m h names acc s = (Inr d, s')"
  shows "d = acc @ List.map_filter (old_segment m h) names \<and> fs_data s' = fs_data s \<and> is_dir s' = is_dir s \<and>
    (\<forall>p. lookup_path s' p \<noteq> lookup_path s p \<longrightarrow> (\<exists>name i. p = root @ [name] \<and> old_segment m h name = Some i))"
  using assms
proof (induction names arbitrary: acc s)
  case Nil
  then show ?case by (simp add: ret_def map_filter_simps)
next
  case (Cons name names)
  show ?case
  proof (cases "old_segment m h name")
    case None
    then show ?thesis using Cons by (simp add: map_filter_simps)
  next
    case (Some i)
    then have "lookup_path s (root @ [name]) \<noteq> None"
      and rest: "delete_segments root m h names (acc @ [i]) (fs_unlink (root @ [name]) s) = (Inr d, s')"
      using Cons.prems by (auto simp: bind_def remove_file_def split: option.splits)
    with Cons.IH [OF rest] Some show ?thesis
      by (auto simp: map_filter_simps split: if_splits)
  qed
qed

lemma cleanup_decomp:
  assumes "cleanup_segments crc now root head_segment head_offset segment_size config s = (Inr deleted, s')"
    and "path_exists s (readers_dir root)"
  obtains m d where "min_live_reader_segment crc now root head_segment head_offset segment_size config s = (Inr m, s)"
    "delete_segments root m head_segment (map fst (read_dir root s)) [] s = (Inr d, s')" "deleted = sort d"
proof -
  obtain m t where m: "min_live_reader_segment crc now root head_segment head_offset segment_size config s = (Inr m, t)"
    using assms by (auto simp: cleanup_segments_def bind_def get_def split: prod.splits sum.splits)
  have t: "t = s" using min_live_reader_segment_ok [OF m assms(2)] by simp
  obtain d where "delete_segments root m head_segment (map fst (read_dir root s)) [] s = (Inr d, s')" "deleted = sort d"
    using assms m t by (auto simp: cleanup_segments_def bind_def get_def ret_def split: prod.splits sum.splits)
  with m t that show thesis by blast
qed

lemma old_segmentD:
  "old_segment m h name = Some i \<Longrightarrow> parse_segment_id name = Some i \<and> i < m \<and> i < h"
  by (auto simp: old_segment_def split: if_splits option.splits)

lemma set_map_filter_old: "i \<in> set (List.map_filter f names) \<longleftrightarrow> (\<exists>name \<in> set names. f name = Some i)"
  by (induction names) (auto simp: map_filter_simps split: option.splits)

section \<open>Properties of retention\<close>

text \<open>
  Property C23. Cleanup never takes a segment from a live reader or from the writer. When it
  succeeds, every number it reports is below the writer's segment and below the segment of
  every live reader (heartbeat not expired, lag within the limit); the only directory entries
  that changed are names of reported segments, and no file contents changed.
\<close>

theorem cleanup_keeps_needed:
  assumes "cleanup_segments crc now root head_segment head_offset segment_size config s = (Inr deleted, s')"
    and "name \<in> fst ` set (read_dir (readers_dir root) s)" "extension name = Some ''meta''"
    and "fst (load_reader_meta crc (readers_dir root @ [name]) s) = Inr meta"
    and "reader_live config (nat now) (global_pos head_segment head_offset segment_size) segment_size meta"
  shows "(\<forall>i \<in> set deleted. i < head_segment \<and> i < rm_segment_id meta) \<and> fs_data s' = fs_data s \<and>
    (\<forall>p. lookup_path s' p \<noteq> lookup_path s p \<longrightarrow>
       (\<exists>n i. p = root @ [n] \<and> parse_segment_id n = Some i \<and> i < head_segment \<and> i < rm_segment_id meta))"
proof (cases "path_exists s (readers_dir root)")
  case False
  then have "deleted = []" "s' = s" using assms(1) by (simp_all add: cleanup_segments_def ret_def)
  then show ?thesis by simp
next
  case True
  obtain m d where md: "min_live_reader_segment crc now root head_segment head_offset segment_size config s = (Inr m, s)"
    "delete_segments root m head_segment (map fst (read_dir root s)) [] s = (Inr d, s')" "deleted = sort d"
    by (rule cleanup_decomp [OF assms(1) True])
  let ?ms = "live_metas crc (readers_dir root)
      (reader_live config (nat now) (global_pos head_segment head_offset segment_size) segment_size)
      (map fst (read_dir (readers_dir root) s)) s"
  have mem: "meta \<in> set ?ms" using assms(2-5) by (force simp: live_metas_def set_map_filter_old)
  then have "?ms \<noteq> []" by auto
  then have "m = Min (rm_segment_id ` set ?ms)"
    using min_live_reader_segment_ok [OF md(1) True] by (simp add: Let_def)
  then have le: "m \<le> rm_segment_id meta" using mem by simp
  note dl = delete_segments_ok [OF md(2)]
  have "\<forall>i \<in> set d. i < head_segment \<and> i < m"
    using dl old_segmentD by (fastforce simp: set_map_filter_old)
  then have "\<forall>i \<in> set deleted. i < head_segment \<and> i < rm_segment_id meta" using le md(3) by fastforce
  moreover have "\<exists>n i. p = root @ [n] \<and> parse_segment_id n = Some i \<and> i < head_segment \<and> i < rm_segment_id meta"
    if "lookup_path s' p \<noteq> lookup_path s p" for p
    using dl that old_segmentD le by (meson less_le_trans)
  ultimately show ?thesis using dl by blast
qed

text \<open>
  \<open>retention_candidates\<close> is a faithful dry run: when cleanup succeeds, it
  has deleted exactly the segments the candidates listed for the same state and time.
\<close>

lemma candidates_are_deleted:
  assumes "cleanup_segments crc now root head_segment head_offset segment_size config s = (Inr deleted, s')"
  shows "retention_candidates crc now root head_segment head_offset segment_size config s = (Inr deleted, s)"
proof (cases "path_exists s (readers_dir root)")
  case False
  then show ?thesis using assms by (simp add: cleanup_segments_def retention_candidates_def ret_def)
next
  case True
  obtain m d where md: "min_live_reader_segment crc now root head_segment head_offset segment_size config s = (Inr m, s)"
    "delete_segments root m head_segment (map fst (read_dir root s)) [] s = (Inr d, s')" "deleted = sort d"
    by (rule cleanup_decomp [OF assms True])
  then show ?thesis
    using True delete_segments_ok [OF md(2)] by (simp add: retention_candidates_def bind_ok ret_def)
qed

text \<open>
  The position used for back-pressure is the smallest global position of the live
  readers, or the writer's own when there is none.
\<close>

lemma min_position_is_minimum:
  assumes "min_live_reader_position crc now root head_segment head_offset segment_size config s = (Inr pos, s')"
    and "path_exists s (readers_dir root)"
  shows "s' = s \<and>
    (let head = global_pos head_segment head_offset segment_size;
         ps = map (\<lambda>meta. global_pos (rm_segment_id meta) (rm_offset meta) segment_size)
                (live_metas crc (readers_dir root) (reader_live config (nat now) head segment_size)
                  (map fst (read_dir (readers_dir root) s)) s)
     in pos = (if ps = [] then head else Min (set ps)))"
proof -
  obtain n where n: "system_now_ns now = Inr n"
    using assms by (auto simp: min_live_reader_position_def Let_def bind_def lift_def get_def split: sum.splits)
  then have now: "n = nat now" by (auto simp: system_now_ns_def split: if_splits)
  let ?live = "reader_live config n (global_pos head_segment head_offset segment_size) segment_size"
  let ?key = "\<lambda>meta. global_pos (rm_segment_id meta) (rm_offset meta) segment_size"
  let ?names = "map fst (read_dir (readers_dir root) s)"
  obtain r t where sc: "scan_readers crc (readers_dir root) ?live ?key ?names None s = (Inr r, t)"
    and m: "pos = (case r of Some m \<Rightarrow> m | None \<Rightarrow> global_pos head_segment head_offset segment_size)" "s' = t"
    using assms n by (auto simp: min_live_reader_position_def Let_def bind_def ret_def get_def lift_def split: prod.splits sum.splits)
  show ?thesis using scan_readers_ok [OF sc] m now by (auto simp: min_opt_props Let_def)
qed

section \<open>A queue with one reader\<close>

text \<open>Segments 1 and 5, and a reader (in the old format of 16 bytes) at segment 3.\<close>

definition demo_readers :: fs where
  "demo_readers =
     \<lparr>fs_dirs = [[], [''readers'']],
      fs_names = [([''000000001.q''], 0), ([''000000005.q''], 1), ([''readers'', ''r.meta''], 2)],
      fs_data = (\<lambda>i. if i = 2 then u64_to_le 3 @ u64_to_le 64 else []), fs_next = 3\<rparr>"

lemma demo_meta:
  "load_reader_meta (\<lambda>_. 0) [''readers'', ''r.meta''] demo_readers =
    (Inr \<lparr>rm_segment_id = 3, rm_offset = 64, rm_last_heartbeat_ns = 0, rm_generation = 0\<rparr>, demo_readers)"
  by (simp add: load_reader_meta_def bind_def attempt_def open_read_def get_def read_exact_def ret_def
      demo_readers_def lookup_path_def bslice_def)

lemma demo_live:
  "reader_live default_retention 0 (global_pos 6 64 1024) 1024
     \<lparr>rm_segment_id = 3, rm_offset = 64, rm_last_heartbeat_ns = 0, rm_generation = 0\<rparr>"
  by (simp add: reader_live_def default_retention_def global_pos_def sat_add64_def sat_mul64_def)

lemma demo_entries:
  "read_dir (readers_dir []) demo_readers = [(''r.meta'', True)]"
  "read_dir [] demo_readers = [(''000000001.q'', True), (''000000005.q'', True), (''readers'', False)]"
  "path_exists demo_readers (readers_dir [])"
  by (simp_all add: demo_readers_def read_dir_def readers_dir_def path_exists_def is_dir_def)

lemma demo_names:
  "extension ''r.meta'' = Some ''meta''" "old_segment 3 6 ''000000001.q'' = Some 1"
  "old_segment 3 6 ''000000005.q'' = None" "old_segment 3 6 ''readers'' = None"
  by (simp_all add: extension_def old_segment_def parse_segment_id_def strip_suffix_def ends_with_def
      parse_u64_def is_ascii_digit_def Let_def)

lemma demo_min_segment:
  "min_live_reader_segment (\<lambda>_. 0) 0 [] 6 64 1024 default_retention demo_readers = (Inr 3, demo_readers)"
  using demo_entries(1) demo_entries(3) demo_names(1) demo_meta demo_live
  by (simp add: min_live_reader_segment_def system_now_ns_def readers_dir_def bind_ok ret_def)

lemma demo_cleanup:
  "cleanup_segments (\<lambda>_. 0) 0 [] 6 64 1024 default_retention demo_readers =
    (Inr [1], fs_unlink [''000000001.q''] demo_readers)"
proof -
  have "remove_file [''000000001.q''] demo_readers = (Inr (), fs_unlink [''000000001.q''] demo_readers)"
    by (simp add: remove_file_def demo_readers_def lookup_path_def)
  then have "delete_segments [] 3 6 [''000000001.q'', ''000000005.q'', ''readers''] [] demo_readers =
      (Inr [1], fs_unlink [''000000001.q''] demo_readers)"
    by (simp add: demo_names bind_ok ret_def)
  then show ?thesis
    using demo_min_segment demo_entries(2,3) by (simp add: cleanup_segments_def bind_ok ret_def)
qed

theorem cleanup_keeps_needed_witness:
  "cleanup_segments (\<lambda>_. 0) 0 [] 6 64 1024 default_retention demo_readers =
     (Inr [1], fs_unlink [''000000001.q''] demo_readers) \<and>
   (1 :: nat) < 6 \<and> (1 :: nat) < 3 \<and>
   lookup_path (fs_unlink [''000000001.q''] demo_readers) [''000000005.q''] = lookup_path demo_readers [''000000005.q'']"
  using cleanup_keeps_needed [OF demo_cleanup, of "''r.meta''"] demo_entries(1) demo_names(1) demo_meta demo_live demo_cleanup
  by (simp add: readers_dir_def)

lemma demo_position:
  "min_live_reader_position (\<lambda>_. 0) 0 [] 6 64 1024 default_retention demo_readers = (Inr 3136, demo_readers)"
  using demo_entries(1) demo_entries(3) demo_names(1) demo_meta demo_live
  by (simp add: min_live_reader_position_def system_now_ns_def readers_dir_def bind_ok ret_def Let_def)
     (simp add: global_pos_def sat_add64_def sat_mul64_def)

end
