(* ===== verification/Seek_Index.thy ===== *)
theory Seek_Index
  imports Names
begin

text \<open>
  \<^verbatim>\<open>src/src/core/seek_index.rs\<close>: the sparse index written beside every sealed segment. The
  builder keeps one entry for every \<open>entry_stride\<close> records and the range of sequence numbers
  and timestamps; the file is a header of 80 bytes and 24 bytes for every entry.
\<close>

section \<open>Header, entries and their bytes\<close>

definition INDEX_MAGIC :: bytes where
  "INDEX_MAGIC = [67, 72, 82, 73, 68, 88, 49, 0]"

abbreviation (input) INDEX_VERSION :: u16 where "INDEX_VERSION \<equiv> 1"
abbreviation (input) INDEX_HEADER_LEN :: u16 where "INDEX_HEADER_LEN \<equiv> 80"
abbreviation (input) INDEX_FLAG_PARTIAL :: u32 where "INDEX_FLAG_PARTIAL \<equiv> 1"
abbreviation (input) DEFAULT_INDEX_STRIDE_RECORDS :: nat where "DEFAULT_INDEX_STRIDE_RECORDS \<equiv> 4096"

record seek_index_header =
  ih_magic :: bytes
  ih_version :: u16
  ih_header_len :: u16
  ih_flags :: u32
  ih_segment_id :: u64
  ih_segment_size :: u64
  ih_data_offset :: u32
  ih_entry_stride :: u32
  ih_min_seq :: u64
  ih_max_seq :: u64
  ih_min_ts_ns :: u64
  ih_max_ts_ns :: u64
  ih_entry_count :: u64

record seek_index_entry =
  ie_seq :: u64
  ie_timestamp_ns :: u64
  ie_offset :: u64

definition encode_header :: "seek_index_header \<Rightarrow> bytes" where
  "encode_header h =
     (let buf = replicate 80 0;
          buf = bsplice buf 0 (ih_magic h);
          buf = bsplice buf 8 (u16_to_le (ih_version h));
          buf = bsplice buf 10 (u16_to_le (ih_header_len h));
          buf = bsplice buf 12 (u32_to_le (ih_flags h));
          buf = bsplice buf 16 (u64_to_le (ih_segment_id h));
          buf = bsplice buf 24 (u64_to_le (ih_segment_size h));
          buf = bsplice buf 32 (u32_to_le (ih_data_offset h));
          buf = bsplice buf 36 (u32_to_le (ih_entry_stride h));
          buf = bsplice buf 40 (u64_to_le (ih_min_seq h));
          buf = bsplice buf 48 (u64_to_le (ih_max_seq h));
          buf = bsplice buf 56 (u64_to_le (ih_min_ts_ns h));
          buf = bsplice buf 64 (u64_to_le (ih_max_ts_ns h))
      in bsplice buf 72 (u64_to_le (ih_entry_count h)))"

definition decode_header :: "bytes \<Rightarrow> seek_index_header result" where
  "decode_header buf =
     (if length buf < 80 then Inl (Corrupt ''seek index header too small'')
      else if bslice buf 0 8 \<noteq> INDEX_MAGIC then Inl (Corrupt ''seek index magic mismatch'')
      else let version = u16_from_le (bslice buf 8 10) in
        if version \<noteq> INDEX_VERSION then Inl (UnsupportedVersion (ucast version))
        else let header_len = u16_from_le (bslice buf 10 12) in
          if header_len \<noteq> INDEX_HEADER_LEN then Inl (Corrupt ''seek index header length mismatch'')
          else Inr \<lparr>ih_magic = INDEX_MAGIC, ih_version = version, ih_header_len = header_len,
                    ih_flags = u32_from_le (bslice buf 12 16),
                    ih_segment_id = u64_from_le (bslice buf 16 24),
                    ih_segment_size = u64_from_le (bslice buf 24 32),
                    ih_data_offset = u32_from_le (bslice buf 32 36),
                    ih_entry_stride = u32_from_le (bslice buf 36 40),
                    ih_min_seq = u64_from_le (bslice buf 40 48),
                    ih_max_seq = u64_from_le (bslice buf 48 56),
                    ih_min_ts_ns = u64_from_le (bslice buf 56 64),
                    ih_max_ts_ns = u64_from_le (bslice buf 64 72),
                    ih_entry_count = u64_from_le (bslice buf 72 80)\<rparr>)"

definition encode_entry :: "seek_index_entry \<Rightarrow> bytes" where
  "encode_entry e =
     (let buf = replicate 24 0;
          buf = bsplice buf 0 (u64_to_le (ie_seq e));
          buf = bsplice buf 8 (u64_to_le (ie_timestamp_ns e))
      in bsplice buf 16 (u64_to_le (ie_offset e)))"

definition decode_entry :: "bytes \<Rightarrow> seek_index_entry" where
  "decode_entry buf =
     \<lparr>ie_seq = u64_from_le (bslice buf 0 8), ie_timestamp_ns = u64_from_le (bslice buf 8 16),
      ie_offset = u64_from_le (bslice buf 16 24)\<rparr>"

section \<open>The builder\<close>

record seek_index_builder =
  sb_segment_id :: nat
  sb_segment_size :: nat
  sb_data_offset :: u32
  sb_entry_stride :: nat
  sb_record_index :: nat
  sb_next_entry_at :: nat
  sb_min_seq :: "u64 option"
  sb_max_seq :: "u64 option"
  sb_min_ts_ns :: "u64 option"
  sb_max_ts_ns :: "u64 option"
  sb_entries :: "seek_index_entry list"
  sb_partial :: bool

definition sb_new :: "nat \<Rightarrow> nat \<Rightarrow> u32 \<Rightarrow> nat \<Rightarrow> seek_index_builder" where
  "sb_new segment_id segment_size data_offset entry_stride =
     \<lparr>sb_segment_id = segment_id, sb_segment_size = segment_size, sb_data_offset = data_offset,
      sb_entry_stride = max entry_stride 1, sb_record_index = 0, sb_next_entry_at = 0,
      sb_min_seq = None, sb_max_seq = None, sb_min_ts_ns = None, sb_max_ts_ns = None,
      sb_entries = [], sb_partial = False\<rparr>"

definition mark_partial :: "seek_index_builder \<Rightarrow> seek_index_builder" where
  "mark_partial b = b\<lparr>sb_partial := True\<rparr>"

definition map_or :: "'b \<Rightarrow> ('a \<Rightarrow> 'b) \<Rightarrow> 'a option \<Rightarrow> 'b" where
  "map_or d f x = (case x of None \<Rightarrow> d | Some y \<Rightarrow> f y)"

definition observe :: "u64 \<Rightarrow> u64 \<Rightarrow> u64 \<Rightarrow> seek_index_builder \<Rightarrow> seek_index_builder" where
  "observe seq timestamp_ns offset b =
     (let b = b\<lparr>sb_min_seq := Some (map_or seq (\<lambda>cur. min cur seq) (sb_min_seq b)),
                sb_max_seq := Some (map_or seq (\<lambda>cur. max cur seq) (sb_max_seq b)),
                sb_min_ts_ns := Some (map_or timestamp_ns (\<lambda>cur. min cur timestamp_ns) (sb_min_ts_ns b)),
                sb_max_ts_ns := Some (map_or timestamp_ns (\<lambda>cur. max cur timestamp_ns) (sb_max_ts_ns b))\<rparr>;
          b = (if sb_record_index b = sb_next_entry_at b
               then b\<lparr>sb_entries := sb_entries b @ [\<lparr>ie_seq = seq, ie_timestamp_ns = timestamp_ns, ie_offset = offset\<rparr>],
                      sb_next_entry_at := sat_add64 (sb_next_entry_at b) (sb_entry_stride b)\<rparr>
               else b)
      in b\<lparr>sb_record_index := sat_add64 (sb_record_index b) 1\<rparr>)"

definition sb_reset :: "nat \<Rightarrow> nat \<Rightarrow> seek_index_builder \<Rightarrow> seek_index_builder" where
  "sb_reset segment_id segment_size b =
     b\<lparr>sb_segment_id := segment_id, sb_segment_size := segment_size, sb_record_index := 0,
       sb_next_entry_at := 0, sb_min_seq := None, sb_max_seq := None, sb_min_ts_ns := None,
       sb_max_ts_ns := None, sb_entries := [], sb_partial := False\<rparr>"

definition sb_header :: "seek_index_builder \<Rightarrow> seek_index_header" where
  "sb_header b =
     \<lparr>ih_magic = INDEX_MAGIC, ih_version = INDEX_VERSION, ih_header_len = INDEX_HEADER_LEN,
      ih_flags = (if sb_partial b then INDEX_FLAG_PARTIAL else 0),
      ih_segment_id = word_of_nat (sb_segment_id b), ih_segment_size = word_of_nat (sb_segment_size b),
      ih_data_offset = sb_data_offset b, ih_entry_stride = word_of_nat (sb_entry_stride b),
      ih_min_seq = map_or 0 id (sb_min_seq b), ih_max_seq = map_or 0 id (sb_max_seq b),
      ih_min_ts_ns = map_or 0 id (sb_min_ts_ns b), ih_max_ts_ns = map_or 0 id (sb_max_ts_ns b),
      ih_entry_count = word_of_nat (length (sb_entries b))\<rparr>"

text \<open>\<open>write_all\<close> calls append at the cursor of the freshly truncated file.\<close>

fun write_all_at :: "inode \<Rightarrow> nat \<Rightarrow> bytes list \<Rightarrow> (fs, unit) io" where
  "write_all_at i pos [] = ret ()"
| "write_all_at i pos (b # bs) = bind (write_at i pos b) (\<lambda>_. write_all_at i (pos + length b) bs)"

definition sb_flush :: "path \<Rightarrow> seek_index_builder \<Rightarrow> (fs, unit) io" where
  "sb_flush root b =
     (if sb_entries b = [] then ret ()
      else bind (open_write (index_path root (sb_segment_id b)) True) (\<lambda>i.
           write_all_at i 0 (encode_header (sb_header b) # map encode_entry (sb_entries b))))"

section \<open>Loading\<close>

definition load_index_header :: "path \<Rightarrow> nat \<Rightarrow> (fs, seek_index_header option) io" where
  "load_index_header root segment_id =
     bind (attempt (open_read (index_path root segment_id))) (\<lambda>r.
     case r of
       Inl e \<Rightarrow> if e = Io NotFound then ret None else fail e
     | Inr i \<Rightarrow>
         bind (read_exact i 0 80) (\<lambda>buf.
         bind (lift (decode_header buf)) (\<lambda>header. ret (Some header))))"

fun read_entries :: "inode \<Rightarrow> nat \<Rightarrow> nat \<Rightarrow> (fs, seek_index_entry list) io" where
  "read_entries i pos 0 = ret []"
| "read_entries i pos (Suc n) =
     bind (read_exact i pos 24) (\<lambda>buf.
     bind (read_entries i (pos + 24) n) (\<lambda>es. ret (decode_entry buf # es)))"

definition load_index_entries :: "path \<Rightarrow> seek_index_header \<Rightarrow> (fs, seek_index_entry list) io" where
  "load_index_entries root header =
     bind (open_read (index_path root (unat (ih_segment_id header)))) (\<lambda>i.
     read_entries i (unat (ih_header_len header)) (unat (ih_entry_count header)))"

section \<open>Encoding and decoding\<close>

lemma length_INDEX_MAGIC [simp]: "length INDEX_MAGIC = 8"
  by (simp add: INDEX_MAGIC_def)

lemma length_encode_header [simp]: "ih_magic h = INDEX_MAGIC \<Longrightarrow> length (encode_header h) = 80"
  by (simp add: encode_header_def)

lemma encode_header_fields:
  assumes "ih_magic h = INDEX_MAGIC"
  shows "bslice (encode_header h) 0 8 = INDEX_MAGIC"
    and "bslice (encode_header h) 8 10 = u16_to_le (ih_version h)"
    and "bslice (encode_header h) 10 12 = u16_to_le (ih_header_len h)"
    and "bslice (encode_header h) 12 16 = u32_to_le (ih_flags h)"
    and "bslice (encode_header h) 16 24 = u64_to_le (ih_segment_id h)"
    and "bslice (encode_header h) 24 32 = u64_to_le (ih_segment_size h)"
    and "bslice (encode_header h) 32 36 = u32_to_le (ih_data_offset h)"
    and "bslice (encode_header h) 36 40 = u32_to_le (ih_entry_stride h)"
    and "bslice (encode_header h) 40 48 = u64_to_le (ih_min_seq h)"
    and "bslice (encode_header h) 48 56 = u64_to_le (ih_max_seq h)"
    and "bslice (encode_header h) 56 64 = u64_to_le (ih_min_ts_ns h)"
    and "bslice (encode_header h) 64 72 = u64_to_le (ih_max_ts_ns h)"
    and "bslice (encode_header h) 72 80 = u64_to_le (ih_entry_count h)"
  using assms by (simp_all add: encode_header_def bytes_simps)

lemma decode_encode_header:
  assumes "ih_magic h = INDEX_MAGIC" "ih_version h = INDEX_VERSION" "ih_header_len h = INDEX_HEADER_LEN"
  shows "decode_header (encode_header h) = Inr h"
  using assms by (simp add: decode_header_def encode_header_fields)

lemma length_encode_entry [simp]: "length (encode_entry e) = 24"
  by (simp add: encode_entry_def)

lemma decode_encode_entry [simp]: "decode_entry (encode_entry e) = e"
  by (simp add: decode_entry_def encode_entry_def bytes_simps)

lemma write_all_at_ok:
  assumes "fs_data s i = bs" "length bs = pos"
  shows "write_all_at i pos xs s = (Inr (), fs_set i (bs @ concat xs) s)"
  using assms
proof (induction xs arbitrary: s bs pos)
  case Nil
  then show ?case by (auto simp: ret_def fs_set_def)
next
  case (Cons x xs)
  let ?s = "fs_set i (bs @ x) s"
  have "write_at i pos x s = (Inr (), ?s)"
    using Cons.prems by (simp add: write_at_def modify_def bsplice_def)
  moreover have "write_all_at i (pos + length x) xs ?s = (Inr (), fs_set i ((bs @ x) @ concat xs) ?s)"
    using Cons.prems by (intro Cons.IH) simp_all
  ultimately show ?case by (simp add: bind_ok fs_set_def)
qed

lemma read_entries_ok:
  assumes "fs_data s i = pre @ concat (map encode_entry es) @ post" "length pre = pos"
  shows "read_entries i pos (length es) s = (Inr es, s)"
  using assms
proof (induction es arbitrary: pre pos)
  case (Cons e es)
  have "read_exact i pos 24 s = (Inr (encode_entry e), s)"
    using Cons.prems by (simp add: read_exact_def bslice_def)
  moreover have "read_entries i (pos + 24) (length es) s = (Inr es, s)"
    using Cons.prems by (intro Cons.IH [of "pre @ encode_entry e"]) simp_all
  ultimately show ?case by (simp add: bind_ok ret_def)
qed (simp add: ret_def)

lemma open_write_empties:
  assumes "is_dir s (butlast p)"
  shows "\<exists>i s'. open_write p True s = (Inr i, s') \<and> lookup_path s' p = Some i \<and> fs_data s' i = [] \<and> is_dir s' = is_dir s \<and>
    (fs_wf s \<longrightarrow> fs_wf s') \<and> (\<forall>q. q \<noteq> p \<longrightarrow> lookup_path s' q = lookup_path s q) \<and> (\<forall>j. j \<noteq> i \<longrightarrow> fs_data s' j = fs_data s j)"
proof (cases "lookup_path s p")
  case None
  then show ?thesis using assms fs_wf_creat [of s p] by (auto simp: open_write_def fs_creat_def Let_def)
qed (use assms in \<open>simp add: open_write_def\<close>)

lemma sb_flush_loads:
  assumes "sb_entries b \<noteq> []" "is_dir s root" "sb_segment_id b \<le> u64_max" "length (sb_entries b) \<le> u64_max"
  shows "\<exists>s'. sb_flush root b s = (Inr (), s') \<and>
    load_index_header root (sb_segment_id b) s' = (Inr (Some (sb_header b)), s') \<and>
    load_index_entries root (sb_header b) s' = (Inr (sb_entries b), s') \<and>
    is_dir s' = is_dir s \<and>
    (fs_wf s \<longrightarrow> fs_wf s' \<and> (\<forall>p. p \<noteq> index_path root (sb_segment_id b) \<longrightarrow> lookup_path s' p = lookup_path s p \<and>
       (\<forall>j. lookup_path s p = Some j \<longrightarrow> fs_data s' j = fs_data s j)))"
proof -
  let ?p = "index_path root (sb_segment_id b)" and ?h = "sb_header b"
  let ?f = "encode_header ?h @ concat (map encode_entry (sb_entries b))"
  have mg: "ih_magic ?h = INDEX_MAGIC" by (simp add: sb_header_def)
  obtain i s1 where op: "open_write ?p True s = (Inr i, s1)" "lookup_path s1 ?p = Some i" "fs_data s1 i = []"
    "is_dir s1 = is_dir s" "fs_wf s \<Longrightarrow> fs_wf s1" "\<And>p. p \<noteq> ?p \<Longrightarrow> lookup_path s1 p = lookup_path s p" "\<And>j. j \<noteq> i \<Longrightarrow> fs_data s1 j = fs_data s j"
    using open_write_empties [of s ?p] assms(2) by (auto simp: index_path_def)
  have fr: "lookup_path s1 p = lookup_path s p \<and> fs_data (fs_set i ?f s1) j = fs_data s j" if "fs_wf s" "p \<noteq> ?p" "lookup_path s p = Some j" for p j
  proof -
    have "j \<noteq> i" using fs_wf_inj [OF op(5) op(2)] that op(6) by metis
    then show ?thesis using op(6,7) that(2) by simp
  qed
  let ?s = "fs_set i ?f s1"
  have fl: "sb_flush root b s = (Inr (), ?s)"
    using assms(1) op write_all_at_ok [of s1 i "[]" 0 "encode_header ?h # map encode_entry (sb_entries b)"]
    by (simp add: sb_flush_def bind_ok del: write_all_at.simps)
  have rd: "read_exact i 0 80 ?s = (Inr (encode_header ?h), ?s)"
    using mg by (simp add: read_exact_def bslice_def)
  have "decode_header (encode_header ?h) = Inr ?h"
    by (rule decode_encode_header) (simp_all add: sb_header_def)
  then have "load_index_header root (sb_segment_id b) ?s = (Inr (Some ?h), ?s)"
    using op(2) rd by (simp add: load_index_header_def bind_ok attempt_def open_read_def ret_def)
  moreover have "read_entries i 80 (length (sb_entries b)) ?s = (Inr (sb_entries b), ?s)"
    using read_entries_ok [of ?s i "encode_header ?h" "sb_entries b" "[]" 80] mg by simp
  then have "load_index_entries root ?h ?s = (Inr (sb_entries b), ?s)"
    using op(2) assms(3,4) by (simp add: load_index_entries_def bind_ok open_read_def sb_header_def unat_of_nat)
  moreover have "fs_wf s \<longrightarrow> fs_wf ?s \<and> (\<forall>p. p \<noteq> ?p \<longrightarrow> lookup_path ?s p = lookup_path s p \<and> (\<forall>j. lookup_path s p = Some j \<longrightarrow> fs_data ?s j = fs_data s j))"
    using fr op(5,6) by auto
  moreover have "is_dir ?s = is_dir s" using op(4) by simp
  ultimately show ?thesis using fl by blast
qed

section \<open>What the builder collects\<close>

text \<open>The records as triples of sequence number, timestamp and offset, observed in order.\<close>

definition observe_all :: "(u64 \<times> u64 \<times> u64) list \<Rightarrow> seek_index_builder \<Rightarrow> seek_index_builder" where
  "observe_all xs b = fold (\<lambda>(q, t, off). observe q t off) xs b"

definition entry_of :: "u64 \<times> u64 \<times> u64 \<Rightarrow> seek_index_entry" where
  "entry_of = (\<lambda>(q, t, off). \<lparr>ie_seq = q, ie_timestamp_ns = t, ie_offset = off\<rparr>)"

fun every_nth :: "nat \<Rightarrow> nat \<Rightarrow> 'a list \<Rightarrow> 'a list" where
  "every_nth n k [] = []"
| "every_nth n k (x # xs) = (if k = 0 then x # every_nth n (n - 1) xs else every_nth n (k - 1) xs)"

lemma every_nth_append: "every_nth n k (xs @ [x]) =
    every_nth n k xs @ (if k \<le> length xs \<and> (length xs - k) mod n = 0 then [x] else [])" if "0 < n"
  using that
proof (induction xs arbitrary: k)
  case Nil
  then show ?case by auto
next
  case (Cons y ys)
  show ?case
  proof (cases k)
    case 0
    have "n - 1 \<le> length ys \<and> (length ys - (n - 1)) mod n = 0 \<longleftrightarrow> Suc (length ys) mod n = 0"
    proof (cases "n \<le> Suc (length ys)")
      case True
      then have "Suc (length ys) - n = length ys - (n - 1)" using Cons.prems by simp
      moreover have "n - 1 \<le> length ys" using True by simp
      ultimately show ?thesis using True Cons.prems by (simp add: le_mod_geq)
    next
      case False
      then show ?thesis by simp
    qed
    then show ?thesis using 0 Cons by simp
  next
    case (Suc j)
    then show ?thesis using Cons by auto
  qed
qed

lemma Min_snoc: "xs \<noteq> [] \<Longrightarrow> Min (set (xs @ [x])) = min (Min (set xs)) (x :: 'a :: linorder)"
  and Max_snoc: "xs \<noteq> [] \<Longrightarrow> Max (set (xs @ [x])) = max (Max (set xs)) x"
  by (simp_all add: min.commute max.commute)

lemma observe_all_snoc: "observe_all (xs @ [(q, t, off)]) b = observe q t off (observe_all xs b)"
  by (simp add: observe_all_def)

definition option_of :: "('a list \<Rightarrow> 'b) \<Rightarrow> 'a list \<Rightarrow> 'b option" where
  "option_of f xs = (if xs = [] then None else Some (f xs))"

lemma map_or_snoc:
  "map_or q (\<lambda>c. min c q) (option_of (\<lambda>ys. Min (set (map g ys))) xs) = Min (set (map g xs @ [q :: u64]))"
  "map_or q (\<lambda>c. max c q) (option_of (\<lambda>ys. Max (set (map g ys))) xs) = Max (set (map g xs @ [q]))"
  using Min_snoc [of "map g xs" q] Max_snoc [of "map g xs" q] by (auto simp: map_or_def option_of_def)

text \<open>Rounding up to a multiple of the stride, step by step.\<close>

lemma ceil_mult:
  assumes "r < (k :: nat)"
  shows "(k * q + r + k - 1) div k = (if r = 0 then q else Suc q)"
proof (cases "r = 0")
  case True
  have "(k * q + r + k - 1) div k = q" using True assms by (intro div_nat_eqI) simp_all
  then show ?thesis using True by simp
next
  case False
  have "(k * q + r + k - 1) div k = Suc q" using False assms by (intro div_nat_eqI) simp_all
  then show ?thesis using False by simp
qed

lemma ceil_mult_eq:
  assumes "0 < (k :: nat)"
  shows "(n + k - 1) div k * k = n \<longleftrightarrow> n mod k = 0"
proof -
  obtain q r where n: "n = k * q + r" and r: "r < k"
    using assms by (metis mod_less_divisor mult_div_mod_eq)
  have "n mod k = r" using n r by simp
  then show ?thesis using ceil_mult [OF r, of q] n r by (auto simp: mult.commute)
qed

lemma ceil_mult_Suc:
  assumes "0 < (k :: nat)"
  shows "(n + k) div k * k = (if n mod k = 0 then n + k else (n + k - 1) div k * k)"
proof -
  obtain q r where n: "n = k * q + r" and r: "r < k"
    using assms by (metis mod_less_divisor mult_div_mod_eq)
  have "n mod k = r" "(n + k) div k = Suc q" using n r by (simp_all add: div_nat_eqI)
  then show ?thesis using ceil_mult [OF r, of q] n by (simp add: mult.commute)
qed

lemma observe_all_state:
  assumes "0 < stride" "length xs + stride \<le> u64_max"
  shows "let b = observe_all xs (sb_new i sz d stride) in
    sb_record_index b = length xs \<and> sb_entry_stride b = stride \<and>
    sb_next_entry_at b = (length xs + stride - 1) div stride * stride \<and>
    sb_entries b = every_nth stride 0 (map entry_of xs) \<and>
    sb_min_seq b = option_of (\<lambda>ys. Min (set (map fst ys))) xs \<and>
    sb_max_seq b = option_of (\<lambda>ys. Max (set (map fst ys))) xs \<and>
    sb_min_ts_ns b = option_of (\<lambda>ys. Min (set (map (fst \<circ> snd) ys))) xs \<and>
    sb_max_ts_ns b = option_of (\<lambda>ys. Max (set (map (fst \<circ> snd) ys))) xs"
  using assms(2)
proof (induction xs rule: rev_induct)
  case Nil
  then show ?case using assms(1) by (simp add: observe_all_def sb_new_def option_of_def)
next
  case (snoc x xs)
  obtain q t off where x: "x = (q, t, off)" by (cases x) auto
  define b where "b = observe_all xs (sb_new i sz d stride)"
  define n where "n = length xs"
  have b: "sb_record_index b = n" "sb_entry_stride b = stride" "sb_next_entry_at b = (n + stride - 1) div stride * stride"
    "sb_entries b = every_nth stride 0 (map entry_of xs)" "sb_min_seq b = option_of (\<lambda>ys. Min (set (map fst ys))) xs"
    "sb_max_seq b = option_of (\<lambda>ys. Max (set (map fst ys))) xs"
    "sb_min_ts_ns b = option_of (\<lambda>ys. Min (set (map (fst \<circ> snd) ys))) xs"
    "sb_max_ts_ns b = option_of (\<lambda>ys. Max (set (map (fst \<circ> snd) ys))) xs"
    using snoc unfolding b_def n_def Let_def by simp_all
  have bound: "n + 1 + stride \<le> u64_max" using snoc.prems by (simp add: n_def)
  have hit: "(n + stride - 1) div stride * stride = n \<longleftrightarrow> n mod stride = 0"
    by (rule ceil_mult_eq [OF assms(1)])
  have nxt: "(n + stride) div stride * stride =
      (if n mod stride = 0 then n + stride else (n + stride - 1) div stride * stride)"
    by (rule ceil_mult_Suc [OF assms(1)])
  have "sb_entries (observe q t off b) = every_nth stride 0 (map entry_of xs @ [entry_of x])"
    using b hit every_nth_append [OF assms(1), of 0 "map entry_of xs" "entry_of x"]
    by (auto simp: observe_def Let_def entry_of_def x n_def)
  moreover have "sb_next_entry_at (observe q t off b) = (n + stride) div stride * stride"
    using b hit nxt bound by (auto simp: observe_def Let_def sat_add64_def)
  moreover have "sb_record_index (observe q t off b) = Suc n" "sb_entry_stride (observe q t off b) = stride"
    using b bound by (auto simp: observe_def Let_def sat_add64_def)
  moreover have "sb_min_seq (observe q t off b) = Some (Min (set (map fst xs @ [q])))"
    "sb_max_seq (observe q t off b) = Some (Max (set (map fst xs @ [q])))"
    "sb_min_ts_ns (observe q t off b) = Some (Min (set (map (fst \<circ> snd) xs @ [t])))"
    "sb_max_ts_ns (observe q t off b) = Some (Max (set (map (fst \<circ> snd) xs @ [t])))"
    using b(5-8) map_or_snoc [where xs = xs] by (simp_all add: observe_def Let_def)
  ultimately show ?case
    by (simp add: x observe_all_snoc b_def [symmetric] n_def Let_def option_of_def)
qed

text \<open>
  The builder's contract. After the records of a segment have been observed in
  order, the entries are exactly those of records 0, \<open>stride\<close>, 2 \<open>stride\<close>, and so on, and the
  header's ranges are the minimum and maximum of the sequence numbers and of the timestamps.
\<close>

lemma builder_collects:
  assumes "xs \<noteq> []" "0 < stride" "length xs + stride \<le> u64_max"
  shows "sb_entries (observe_all xs (sb_new i sz d stride)) = every_nth stride 0 (map entry_of xs) \<and>
    (let h = sb_header (observe_all xs (sb_new i sz d stride)) in
       ih_min_seq h = Min (fst ` set xs) \<and> ih_max_seq h = Max (fst ` set xs) \<and>
       ih_min_ts_ns h = Min ((fst \<circ> snd) ` set xs) \<and> ih_max_ts_ns h = Max ((fst \<circ> snd) ` set xs))"
  using observe_all_state [OF assms(2,3), of i sz d] assms(1)
  by (simp add: Let_def sb_header_def map_or_def option_of_def)

end
