(* ===== verification/Writer_Lock.thy ===== *)
theory Writer_Lock
  imports Names
begin

text \<open>
  \<^verbatim>\<open>src/src/core/writer_lock.rs\<close> and the \<open>WriterLock\<close> of \<^verbatim>\<open>core/writer.rs\<close>, as on Linux: the
  lock record with process, start time and epoch, the test whether its owner still runs, and
  the acquisition loop. The contents of \<^verbatim>\<open>/proc/<pid>/stat\<close> are an argument, and so is what each
  attempt of the loop observes of the kernel's lock.
\<close>

section \<open>Text of the lock record\<close>

definition is_space :: "char \<Rightarrow> bool" where
  "is_space c \<longleftrightarrow> (of_char c :: nat) = 32 \<or> (9 \<le> (of_char c :: nat) \<and> (of_char c :: nat) \<le> 13)"

text \<open>\<open>str::split_whitespace\<close>.\<close>

function split_whitespace :: "string \<Rightarrow> string list" where
  "split_whitespace s =
     (let s' = dropWhile is_space s
      in if s' = [] then []
         else takeWhile (\<lambda>c. \<not> is_space c) s' # split_whitespace (dropWhile (\<lambda>c. \<not> is_space c) s'))"
  by pat_completeness auto
termination
proof (relation "measure length", goal_cases)
  case (2 s s')
  then obtain c r where s': "s' = c # r" "\<not> is_space c"
    by (metis hd_dropWhile list.collapse)
  have "length (dropWhile (\<lambda>c. \<not> is_space c) s') \<le> length r"
    using s' by (simp add: length_dropWhile_le)
  also have "\<dots> < length s'" using s' by simp
  also have "\<dots> \<le> length s" using 2 by (simp add: length_dropWhile_le)
  finally show ?case by simp
qed simp

declare split_whitespace.simps [simp del]

definition parse_u32 :: "string \<Rightarrow> nat option" where
  "parse_u32 s = (case parse_u64 s of Some n \<Rightarrow> if n \<le> u32_max then Some n else None | None \<Rightarrow> None)"

section \<open>Reading and writing the record\<close>

record writer_lock_info =
  li_pid :: nat
  li_start_time :: nat
  li_epoch :: nat

definition bytes_of :: "string \<Rightarrow> bytes" where
  "bytes_of s = map (\<lambda>c. word_of_nat (of_char c)) s"

definition string_of :: "bytes \<Rightarrow> string" where
  "string_of bs = map (\<lambda>b. char_of (unat b)) bs"

definition lock_record :: "nat \<Rightarrow> nat \<Rightarrow> nat \<Rightarrow> string" where
  "lock_record pid start_time epoch =
     dec_digits pid @ '' '' @ dec_digits start_time @ '' '' @ dec_digits epoch @ [CHR 0x0A]"

text \<open>\<open>parts.next().unwrap_or("0").parse().unwrap_or(0)\<close> for each of the three fields.\<close>

definition field_or_zero :: "(string \<Rightarrow> nat option) \<Rightarrow> string list \<Rightarrow> nat \<Rightarrow> nat" where
  "field_or_zero parse parts k =
     (case parse (if k < length parts then parts ! k else ''0'') of Some n \<Rightarrow> n | None \<Rightarrow> 0)"

definition read_lock_record :: "inode \<Rightarrow> (fs, nat \<times> nat \<times> nat) io" where
  "read_lock_record i =
     bind (get (\<lambda>s. split_whitespace (string_of (fs_data s i)))) (\<lambda>parts.
     ret (field_or_zero parse_u32 parts 0, field_or_zero parse_u64 parts 1, field_or_zero parse_u64 parts 2))"

definition read_lock_info :: "path \<Rightarrow> (fs, writer_lock_info option) io" where
  "read_lock_info p =
     bind (get (\<lambda>s. path_exists s p)) (\<lambda>ex.
     if \<not> ex then ret None
     else bind (open_read p) (\<lambda>i.
          bind (read_lock_record i) (\<lambda>(pid, start_time, epoch).
          if pid = 0 \<and> start_time = 0 \<and> epoch = 0 then ret None
          else ret (Some \<lparr>li_pid = pid, li_start_time = start_time, li_epoch = epoch\<rparr>))))"

section \<open>Is the owner alive?\<close>

text \<open>The contents of the \<open>stat\<close> file of a process, or nothing when there is no such process.\<close>

type_synonym proc_fun = "nat \<Rightarrow> string option"

text \<open>\<open>rfind(')')\<close> and the text behind it.\<close>

definition after_last_paren :: "string \<Rightarrow> string option" where
  "after_last_paren s =
     (if CHR '')'' \<in> set s then Some (rev (takeWhile (\<lambda>c. c \<noteq> CHR '')'') (rev s))) else None)"

definition proc_start_time :: "proc_fun \<Rightarrow> nat \<Rightarrow> nat result" where
  "proc_start_time proc pid =
     (case proc pid of
        None \<Rightarrow> Inl (Io NotFound)
      | Some contents \<Rightarrow>
          (case after_last_paren contents of
             None \<Rightarrow> Inl (CorruptMetadata ''stat parse'')
           | Some after \<Rightarrow>
               let fields = split_whitespace after
               in if length fields \<le> 19 then Inl (CorruptMetadata ''stat missing starttime'')
                  else case parse_u64 (fields ! 19) of
                         None \<Rightarrow> Inl (CorruptMetadata ''stat starttime invalid'')
                       | Some start_time \<Rightarrow> Inr start_time))"

definition lock_owner_alive :: "proc_fun \<Rightarrow> writer_lock_info \<Rightarrow> bool result" where
  "lock_owner_alive proc info =
     (if li_pid info = 0 then Inr False
      else case proc_start_time proc (li_pid info) of
             Inr start \<Rightarrow> Inr (start = li_start_time info)
           | Inl e \<Rightarrow> if e = Io NotFound then Inr False else Inl e)"

definition writer_alive :: "proc_fun \<Rightarrow> path \<Rightarrow> (fs, bool) io" where
  "writer_alive proc p =
     bind (get (\<lambda>s. path_exists s p)) (\<lambda>ex.
     if \<not> ex then ret False
     else bind (read_lock_info p) (\<lambda>info.
          case info of None \<Rightarrow> ret False | Some info \<Rightarrow> lift (lock_owner_alive proc info)))"

definition lock_identity :: "proc_fun \<Rightarrow> nat \<Rightarrow> (nat \<times> nat) result" where
  "lock_identity proc self = rbind (proc_start_time proc self) (\<lambda>start_time. Inr (self, start_time))"

definition write_lock_record :: "proc_fun \<Rightarrow> nat \<Rightarrow> inode \<Rightarrow> nat \<Rightarrow> (fs, unit) io" where
  "write_lock_record proc self i writer_epoch =
     bind (lift (lock_identity proc self)) (\<lambda>(pid, start_time).
     bind (set_len i 0) (\<lambda>_.
     write_at i 0 (bytes_of (lock_record pid start_time writer_epoch))))"

section \<open>Acquiring the lock\<close>

text \<open>
  One pass of the loop observes whether \<open>flock\<close> succeeded and, if it did not, what
  \<open>writer_alive\<close> answered at that moment.
\<close>

fun acquire_loop :: "proc_fun \<Rightarrow> nat \<Rightarrow> inode \<Rightarrow> nat \<Rightarrow> (bool \<times> bool result) list \<Rightarrow> (fs, inode) io" where
  "acquire_loop proc self i epoch [] = fail Blocked"
| "acquire_loop proc self i epoch ((locked, alive) # obs) =
     (if locked then bind (write_lock_record proc self i epoch) (\<lambda>_. ret i)
      else case alive of
             Inl e \<Rightarrow> fail e
           | Inr a \<Rightarrow> if \<not> a then acquire_loop proc self i epoch obs else fail WriterAlreadyActive)"

definition wl_acquire :: "proc_fun \<Rightarrow> nat \<Rightarrow> path \<Rightarrow> nat \<Rightarrow> (bool \<times> bool result) list \<Rightarrow> (fs, inode) io" where
  "wl_acquire proc self p epoch obs =
     bind (open_write p False) (\<lambda>i. acquire_loop proc self i epoch obs)"

section \<open>Words of a text\<close>

definition is_word :: "string \<Rightarrow> bool" where
  "is_word w \<longleftrightarrow> w \<noteq> [] \<and> list_all (\<lambda>c. \<not> is_space c) w"

lemma split_word:
  assumes "is_word w" "is_space c"
  shows "split_whitespace (w @ c # s) = w # split_whitespace s"
proof -
  obtain a r where w: "w = a # r" "\<not> is_space a" using assms(1) by (cases w) (auto simp: is_word_def)
  have all: "\<forall>x \<in> set w. \<not> is_space x" using assms(1) by (simp add: is_word_def list_all_iff)
  have "dropWhile is_space (w @ c # s) = w @ c # s" using w by simp
  moreover have "takeWhile (\<lambda>c. \<not> is_space c) (w @ c # s) = w" "dropWhile (\<lambda>c. \<not> is_space c) (w @ c # s) = c # s"
    using all assms(2) by (simp_all add: takeWhile_append2 dropWhile_append2)
  moreover have "split_whitespace (c # s) = split_whitespace s"
    using assms(2) by (subst (1 2) split_whitespace.simps) simp
  ultimately show ?thesis using w by (subst split_whitespace.simps) simp
qed

lemma split_space: "is_space c \<Longrightarrow> split_whitespace (c # s) = split_whitespace s"
  by (subst (1 2) split_whitespace.simps) simp

lemma split_Nil [simp]: "split_whitespace [] = []"
  by (subst split_whitespace.simps) simp

lemma dec_digits_word: "is_word (dec_digits n)"
  using dec_digits_ascii [of n] by (auto simp: is_word_def list_all_iff is_ascii_digit_def is_space_def)

lemma parse_u64_dec: "n \<le> u64_max \<Longrightarrow> parse_u64 (dec_digits n) = Some n"
  by (rule parse_u64_digits) (simp_all add: dec_digits_ascii dec_value_digits)

lemma string_of_bytes_of [simp]: "string_of (bytes_of s) = s"
proof -
  have "char_of (unat (word_of_nat (of_char c) :: u8)) = c" for c :: char
  proof -
    have "(of_char c :: nat) < 256" by simp
    then have "unat (word_of_nat (of_char c) :: u8) = of_char c" by (simp add: unat_of_nat)
    then show ?thesis by simp
  qed
  then show ?thesis by (simp add: string_of_def bytes_of_def comp_def)
qed

lemma split_lock_record:
  "split_whitespace (lock_record a b c) = [dec_digits a, dec_digits b, dec_digits c]"
proof -
  have sp: "is_space CHR '' ''" "is_space (CHR 0x0A)" by (simp_all add: is_space_def)
  show ?thesis
    by (simp add: lock_record_def split_word [OF dec_digits_word sp(1)] split_word [OF dec_digits_word sp(2)])
qed

text \<open>
  The lock record survives the file: what a writer stores with its process number,
  start time and epoch (never all zero) is what every other process reads, whatever longer
  record the file held before.
\<close>

lemma lock_record_round_trip:
  assumes "proc self = Some contents" "proc_start_time proc self = Inr start" "lookup_path s p = Some i"
    and "self \<le> u32_max" "0 < self" "start \<le> u64_max" "epoch \<le> u64_max"
  shows "\<exists>s'. write_lock_record proc self i epoch s = (Inr (), s') \<and>
    read_lock_info p s' = (Inr (Some \<lparr>li_pid = self, li_start_time = start, li_epoch = epoch\<rparr>), s') \<and>
    writer_alive proc p s' = (Inr True, s')"
proof -
  let ?s = "fs_set i (bytes_of (lock_record self start epoch)) s"
  have w: "write_lock_record proc self i epoch s = (Inr (), ?s)"
    using assms(2) by (simp add: write_lock_record_def lock_identity_def set_len_def write_at_def bind_def
        modify_def lift_def bsplice_def fs_set_def)
  have f: "field_or_zero parse_u32 (split_whitespace (lock_record self start epoch)) 0 = self"
    "field_or_zero parse_u64 (split_whitespace (lock_record self start epoch)) 1 = start"
    "field_or_zero parse_u64 (split_whitespace (lock_record self start epoch)) 2 = epoch"
    using assms(4,6,7) by (simp_all add: field_or_zero_def split_lock_record parse_u32_def parse_u64_dec)
  have ex: "path_exists ?s p" using assms(3) by (simp add: path_exists_def)
  have rd: "read_lock_info p ?s = (Inr (Some \<lparr>li_pid = self, li_start_time = start, li_epoch = epoch\<rparr>), ?s)"
    using ex assms(3,5) f by (simp add: read_lock_info_def open_read_def bind_ok read_lock_record_def ret_def bind_def get_def)
  moreover have "writer_alive proc p ?s = (Inr True, ?s)"
    using ex rd assms(2,5) by (simp add: writer_alive_def bind_ok lock_owner_alive_def lift_def)
  ultimately show ?thesis using w by blast
qed

lemma after_last_paren_eq: "CHR '')'' \<notin> set t \<Longrightarrow> after_last_paren (s @ CHR '')'' # t) = Some t"
proof -
  assume t: "CHR '')'' \<notin> set t"
  have "takeWhile (\<lambda>c. c \<noteq> CHR '')'') (rev t @ CHR '')'' # rev s) = rev t"
    using t by (subst takeWhile_append2) auto
  then show ?thesis by (simp add: after_last_paren_def)
qed

lemma split_fields:
  "list_all is_word ws \<Longrightarrow> split_whitespace (concat (map (\<lambda>w. CHR '' '' # w) ws) @ [CHR 0x0A]) = ws"
proof (induction ws)
  case Nil
  then show ?case using split_space [of "CHR 0x0A" "[]"] by (simp add: is_space_def)
next
  case (Cons w ws)
  have sp: "is_space CHR '' ''" "is_space (CHR 0x0A)" by (simp_all add: is_space_def)
  show ?case
  proof (cases ws)
    case Nil
    then show ?thesis using Cons.prems sp split_word [of w "CHR 0x0A" "[]"] by (simp add: split_space)
  next
    case (Cons v vs)
    have "split_whitespace (w @ CHR '' '' # v @ concat (map ((#) CHR '' '') vs) @ [CHR 0x0A]) =
        w # split_whitespace (v @ concat (map ((#) CHR '' '') vs) @ [CHR 0x0A])"
      using Cons.prems sp by (intro split_word) simp_all
    moreover have "split_whitespace (v @ concat (map ((#) CHR '' '') vs) @ [CHR 0x0A]) = ws"
      using Cons.IH Cons.prems Cons sp by (simp add: split_space)
    ultimately show ?thesis using Cons sp by (simp add: split_space)
  qed
qed

text \<open>
  The start time is found behind any command name. In a \<open>stat\<close> line the process
  number is followed by the command in parentheses, which may itself hold spaces and
  parentheses; the fields behind it are words without parentheses. The parser returns the
  twentieth of them.
\<close>

lemma start_time_found:
  assumes "proc pid = Some (pre @ CHR '')'' # concat (map (\<lambda>w. CHR '' '' # w) ws) @ [CHR 0x0A])"
    and "list_all is_word ws" "\<forall>w \<in> set ws. CHR '')'' \<notin> set w" "19 < length ws" "ws ! 19 = dec_digits t" "t \<le> u64_max"
  shows "proc_start_time proc pid = Inr t"
proof -
  let ?t = "concat (map (\<lambda>w. CHR '' '' # w) ws) @ [CHR 0x0A]"
  have "CHR '')'' \<notin> set ?t" using assms(3) by auto
  then have "after_last_paren (pre @ CHR '')'' # ?t) = Some ?t" by (rule after_last_paren_eq)
  then show ?thesis
    using assms split_fields [OF assms(2)] parse_u64_dec [OF assms(6)] by (simp add: proc_start_time_def)
qed

text \<open>A process whose command name holds a parenthesis and a space.\<close>

definition demo_proc :: proc_fun where
  "demo_proc pid =
     (if pid = 5 then Some (''5 (a) b'' @ CHR '')'' # concat (map (\<lambda>w. CHR '' '' # w) (replicate 19 ''0'' @ [dec_digits 77])) @ [CHR 0x0A])
      else None)"

lemma demo_words:
  "list_all is_word (replicate 19 ''0'' @ [dec_digits 77])"
  "\<forall>w \<in> set (replicate 19 ''0'' @ [dec_digits 77]). CHR '')'' \<notin> set w"
proof -
  have "is_word ''0''" by (simp add: is_word_def is_space_def)
  then show "list_all is_word (replicate 19 ''0'' @ [dec_digits 77])"
    using dec_digits_word [of 77] by (simp add: list_all_iff)
  have "CHR '')'' \<notin> set (dec_digits 77)"
    using dec_digits_ascii [of 77] by (auto simp: list_all_iff is_ascii_digit_def)
  then show "\<forall>w \<in> set (replicate 19 ''0'' @ [dec_digits 77]). CHR '')'' \<notin> set w" by simp
qed

lemma demo_start: "proc_start_time demo_proc 5 = Inr 77"
  using start_time_found [of demo_proc 5 "''5 (a) b''" "replicate 19 ''0'' @ [dec_digits 77]" 77] demo_words
  by (simp add: demo_proc_def nth_append del: append.simps)

end
