(* ===== verification/Queue_World.thy ===== *)
theory Queue_World
  imports Control Retention Seek_Index Writer_Lock
begin

text \<open>
  One queue directory as its writer and readers see it: the files and the shared control
  block, with the lifting of file operations and control operations to it, and the invariant
  vocabulary of the queue components: segments that hold a chain of entries.
\<close>

record queue =
  q_fs :: fs
  q_ctrl :: "control_block option"

definition q_file :: "(fs, 'a) io \<Rightarrow> (queue, 'a) io" where
  "q_file m q = (case m (q_fs q) of (r, s') \<Rightarrow> (r, q\<lparr>q_fs := s'\<rparr>))"

definition q_block :: "(queue, control_block) io" where
  "q_block q = (case q_ctrl q of Some b \<Rightarrow> (Inr b, q) | None \<Rightarrow> (Inl (Io NotFound), q))"

definition q_control :: "(control_block \<Rightarrow> control_block) \<Rightarrow> (queue, unit) io" where
  "q_control f q = (Inr (), q\<lparr>q_ctrl := map_option f (q_ctrl q)\<rparr>)"

lemma q_file_ok: "m (q_fs q) = (Inr x, s') \<Longrightarrow> q_file m q = (Inr x, q\<lparr>q_fs := s'\<rparr>)"
  by (simp add: q_file_def)

lemma bind_q_control [simp]: "bind (q_control f) k q = k () (q\<lparr>q_ctrl := map_option f (q_ctrl q)\<rparr>)"
  by (simp add: bind_def q_control_def)

lemma bind_q_block: "q_ctrl q = Some b \<Longrightarrow> bind q_block k q = k b q"
  by (simp add: bind_def q_block_def)

lemma queue_fs_id [simp]: "q\<lparr>q_fs := q_fs q\<rparr> = q"
  by simp

section \<open>Segments of a queue\<close>

text \<open>A segment image with its entries, padding included; what follows the last entry is not committed.\<close>

definition seg_image :: "crc_fun \<Rightarrow> bytes \<Rightarrow> nat \<Rightarrow> u32 \<Rightarrow> nat \<Rightarrow> entry list \<Rightarrow> nat \<Rightarrow> bool" where
  "seg_image crc bs i fl sz es e \<longleftrightarrow>
     length bs = sz \<and> seg_hdr bs (word_of_nat i) fl \<and> chain crc bs 64 es e \<and> tail_free bs e"

text \<open>A closed segment of the queue: sealed, with its entries.\<close>

definition closed_seg :: "crc_fun \<Rightarrow> fs \<Rightarrow> path \<Rightarrow> nat \<Rightarrow> nat \<Rightarrow> entry list \<Rightarrow> bool" where
  "closed_seg crc s root sz i es \<longleftrightarrow>
     (\<exists>ino fl e. lookup_path s (segment_path root i) = Some ino \<and> sealed fl \<and>
        seg_image crc (fs_data s ino) i fl sz es e)"

lemma zeros_tail_free: "zeros_from bs e \<Longrightarrow> tail_free bs e"
  using zeros_from_commit [of bs e e] by (cases "length bs < e + 64") (simp_all add: tail_free_def)

lemma closed_seg_frame:
  assumes "closed_seg crc s root sz i es"
    and "lookup_path s' (segment_path root i) = lookup_path s (segment_path root i)"
    and "\<And>ino. lookup_path s (segment_path root i) = Some ino \<Longrightarrow> fs_data s' ino = fs_data s ino"
  shows "closed_seg crc s' root sz i es"
  using assms unfolding closed_seg_def by metis

lemma bind_qfile_ok:
  "m (q_fs q) = (Inr x, s') \<Longrightarrow> bind (on_fs (q_file m)) f (w, q) = f x (w, q\<lparr>q_fs := s'\<rparr>)"
  by (simp add: bind_on_fs q_file_def)

lemma bind_qfile_err:
  "m (q_fs q) = (Inl e, s') \<Longrightarrow> bind (on_fs (q_file m)) f (w, q) = (Inl e, w, q\<lparr>q_fs := s'\<rparr>)"
  by (simp add: bind_on_fs q_file_def)

lemma bind_qctl [simp]:
  "bind (on_fs (q_control g)) f (w, q) = f () (w, q\<lparr>q_ctrl := map_option g (q_ctrl q)\<rparr>)"
  by (simp add: bind_on_fs q_control_def)

section \<open>Operations that leave the segments alone\<close>

text \<open>The same segment files with the same contents: what index and metadata writes preserve.\<close>

definition seg_frame :: "path \<Rightarrow> fs \<Rightarrow> fs \<Rightarrow> bool" where
  "seg_frame root s s' \<longleftrightarrow> fs_wf s' \<and> is_dir s' = is_dir s \<and>
     (\<forall>i. lookup_path s' (segment_path root i) = lookup_path s (segment_path root i)) \<and>
     (\<forall>i ino. lookup_path s (segment_path root i) = Some ino \<longrightarrow> fs_data s' ino = fs_data s ino)"

lemma seg_frame_refl [simp]: "fs_wf s \<Longrightarrow> seg_frame root s s"
  by (simp add: seg_frame_def)

lemma seg_frame_trans: "seg_frame root s t \<Longrightarrow> seg_frame root t u \<Longrightarrow> seg_frame root s u"
  by (simp add: seg_frame_def)

lemma open_write_frame:
  assumes "fs_wf s" "is_dir s (butlast p)" "\<And>i. p \<noteq> segment_path root i"
  shows "\<exists>ino s'. open_write p trunc s = (Inr ino, s') \<and> lookup_path s' p = Some ino \<and> seg_frame root s s' \<and>
    (\<forall>i j. lookup_path s' (segment_path root i) = Some j \<longrightarrow> j \<noteq> ino)"
proof (cases "lookup_path s p")
  case (Some ino)
  have "j \<noteq> ino" if "lookup_path s (segment_path root i) = Some j" for i j
    using fs_wf_inj [OF assms(1) Some] that assms(3) by metis
  then show ?thesis
    using Some assms(1) by (auto simp: open_write_def seg_frame_def)
next
  case None
  have "j \<noteq> fs_next s" if "lookup_path s (segment_path root i) = Some j" for i j
    using fs_wf_less [OF assms(1) that] by simp
  then show ?thesis
    using None assms fs_wf_creat [OF assms(1), of p]
    by (auto simp: open_write_def fs_creat_def seg_frame_def Let_def fun_upd_def)
qed

lemma fs_set_frame:
  assumes "fs_wf s" "\<forall>i j. lookup_path s (segment_path root i) = Some j \<longrightarrow> j \<noteq> ino"
  shows "seg_frame root s (fs_set ino bs s)"
  using assms by (auto simp: seg_frame_def)

lemma write_all_at_frame:
  assumes "fs_wf s" "\<forall>i j. lookup_path s (segment_path root i) = Some j \<longrightarrow> j \<noteq> ino"
  shows "\<exists>s'. write_all_at ino pos xs s = (Inr (), s') \<and> seg_frame root s s'"
  using assms
proof (induction xs arbitrary: pos s)
  case (Cons x xs)
  obtain s1 where s1: "write_at ino pos x s = (Inr (), s1)" "seg_frame root s s1" "lookup_path s1 = lookup_path s"
    using fs_set_frame [OF Cons.prems] by (simp add: write_at_def modify_def)
  then obtain s2 where "write_all_at ino (pos + length x) xs s1 = (Inr (), s2)" "seg_frame root s1 s2"
    using Cons.IH [of s1 "pos + length x"] Cons.prems by (auto simp: seg_frame_def)
  then show ?case using s1 seg_frame_trans by (auto simp: bind_ok)
qed (simp add: ret_def)

lemma sb_flush_frame:
  assumes "fs_wf s" "is_dir s root"
  shows "\<exists>s'. sb_flush root b s = (Inr (), s') \<and> seg_frame root s s'"
proof (cases "sb_entries b = []")
  case True
  then show ?thesis using assms(1) by (simp add: sb_flush_def ret_def)
next
  case False
  let ?p = "index_path root (sb_segment_id b)"
  have "butlast ?p = root" by (simp add: index_path_def)
  then obtain ino s1 where o: "open_write ?p True s = (Inr ino, s1)" "seg_frame root s s1"
    "\<forall>i j. lookup_path s1 (segment_path root i) = Some j \<longrightarrow> j \<noteq> ino"
    using open_write_frame [OF assms(1), of ?p root True] assms(2) by auto
  then obtain s2 where "write_all_at ino 0 (encode_header (sb_header b) # map encode_entry (sb_entries b)) s1 = (Inr (), s2)"
    "seg_frame root s1 s2"
    using write_all_at_frame [of s1 root ino 0 "encode_header (sb_header b) # map encode_entry (sb_entries b)"]
    by (auto simp: seg_frame_def)
  then show ?thesis
    using False o seg_frame_trans by (auto simp: sb_flush_def bind_ok simp del: write_all_at.simps)
qed

section \<open>Opening or preparing the next segment\<close>

lemma mmap_create_new_eq:
  "lookup_path s p = None \<Longrightarrow> mmap_create_new p len s = mmap_create p len s"
  by (simp add: mmap_create_new_def mmap_create_def bind_def open_new_def open_write_def)

lemma fresh_open:
  assumes "lookup_path s (segment_path root i) = Some ino" "seg_fresh (fs_data s ino) (word_of_nat i) sz" "sz \<le> u64_max"
  shows "open_segment root i sz s = (Inr \<lparr>mm_ino = ino, mm_len = sz\<rparr>, s)"
  using assms open_segment_ok [of s root i ino sz 0] by (simp add: seg_fresh_def)

lemma prepare_or_open_ok:
  assumes "fs_wf s" "is_dir s root" "64 \<le> sz" "sz \<le> u64_max"
    and "\<And>ino. lookup_path s (segment_path root i) = Some ino \<Longrightarrow> seg_fresh (fs_data s ino) (word_of_nat i) sz"
  shows "\<exists>m s'. prepare_or_open_segment root i sz s = (Inr m, s') \<and>
    mm_len m = sz \<and> mm_ok m s' \<and> seg_fresh (fs_data s' (mm_ino m)) (word_of_nat i) sz \<and>
    fs_wf s' \<and> is_dir s' = is_dir s \<and> lookup_path s' (segment_path root i) = Some (mm_ino m) \<and>
    (\<forall>p. p \<noteq> segment_path root i \<longrightarrow> lookup_path s' p = lookup_path s p) \<and>
    (\<forall>p j. p \<noteq> segment_path root i \<longrightarrow> lookup_path s p = Some j \<longrightarrow> fs_data s' j = fs_data s j)"
proof (cases "lookup_path s (segment_path root i)")
  case (Some ino)
  note fr = assms(5) [OF Some]
  have "prepare_or_open_segment root i sz s = (Inr \<lparr>mm_ino = ino, mm_len = sz\<rparr>, s)"
    using fresh_open [OF Some fr assms(4)] by (simp add: prepare_or_open_segment_def bind_ok attempt_def ret_def)
  then show ?thesis using Some fr assms by (auto simp: mm_ok_def seg_fresh_def)
next
  case None
  let ?p = "segment_path root i"
  obtain m s' where c: "bind (mmap_create ?p sz) (\<lambda>m. bind (write_segment_header m (word_of_nat i) 0) (\<lambda>_. ret m)) s = (Inr m, s')"
    "creates_segment ?p i sz m s s'"
    using mmap_create_header [of sz s ?p i] assms by auto
  then obtain s1 where m: "mmap_create ?p sz s = (Inr m, s1)" "write_segment_header m (word_of_nat i) 0 s1 = (Inr (), s')"
    by (auto simp: bind_def ret_def split: prod.splits sum.splits)
  have "prepare_or_open_segment root i sz s = (Inr m, s')"
    using None m creates_prefault [OF c(2)]
    by (simp add: prepare_or_open_segment_def bind_ok attempt_def open_segment_missing mmap_create_new_eq ret_def)
  moreover have "mm_ino m = fs_next s" using c(2) None by (simp add: creates_segment_def)
  then have "fs_data s' j = fs_data s j" if "lookup_path s p = Some j" for p j
    using c(2) fs_wf_less [OF assms(1) that] by (simp add: creates_segment_def)
  ultimately show ?thesis using c(2) assms(1) by (auto simp: creates_segment_def)
qed

end
