(* ===== verification/Writer.thy ===== *)
theory Writer
  imports Queue_World Segment_Writer Store
begin

text \<open>
  \<^verbatim>\<open>src/src/core/writer.rs\<close>: the queue writer. What the outside world contributes to a call
  (the time of day, elapsed intervals, what the background workers have delivered) is a record
  \<open>wr_env\<close> that the operations take as an argument. The workers themselves run the operations
  of \<open>Retention\<close> and \<open>Segment\<close>; memory locking, the asynchronous sync and futex wake-ups
  change nothing that is modelled (the wake-up protocol is the subject of \<open>Wait_Protocol\<close>).
\<close>

section \<open>Configuration and environment\<close>

datatype backpressure_policy = FailFast | Block

record writer_config =
  wc_max_segments :: "nat option"
  wc_max_bytes :: "nat option"
  wc_backpressure :: backpressure_policy
  wc_segment_size_bytes :: nat
  wc_retention_check_bytes :: nat
  wc_index_flush_interval_ns :: nat
  wc_index_flush_records :: nat
  wc_retention :: retention_config
  wc_prealloc_wait_ns :: nat
  wc_require_prealloc :: bool

definition default_writer_config :: writer_config where
  "default_writer_config =
     \<lparr>wc_max_segments = None, wc_max_bytes = None, wc_backpressure = FailFast,
      wc_segment_size_bytes = DEFAULT_SEGMENT_SIZE, wc_retention_check_bytes = 1048576,
      wc_index_flush_interval_ns = 0, wc_index_flush_records = 0, wc_retention = default_retention,
      wc_prealloc_wait_ns = 0, wc_require_prealloc = False\<rparr>"

definition ultra_low_latency :: writer_config where
  "ultra_low_latency = default_writer_config\<lparr>wc_prealloc_wait_ns := 1000000, wc_require_prealloc := True\<rparr>"

definition archive_config :: writer_config where
  "archive_config = default_writer_config\<lparr>wc_index_flush_interval_ns := 1000000000, wc_index_flush_records := 4096\<rparr>"

text \<open>What \<open>try_recv\<close> on the channel of prepared segments can return besides \<open>Empty\<close>.\<close>

datatype recv = Prepared nat mmap_file | Disconnected

text \<open>
  \<open>we_channel\<close>: the messages in the channel at each poll of \<open>acquire_preallocated\<close>, up to its
  deadline; \<open>we_polls\<close>: at each pass of a blocking \<open>ensure_capacity\<close> the value the retention
  worker has stored and whether the deadline has passed.
\<close>

record wr_env =
  we_now :: int
  we_signal_elapsed :: bool
  we_signal_sent :: bool
  we_index_elapsed :: bool
  we_channel :: "recv list list"
  we_polls :: "(nat \<times> bool) list"

record queue_writer =
  qw_path :: path
  qw_mmap :: mmap_file
  qw_segment_id :: nat
  qw_write_offset :: nat
  qw_seq :: u64
  qw_seek_index :: seek_index_builder
  qw_index_records_since_flush :: nat
  qw_config :: writer_config
  qw_segment_size :: nat
  qw_min_reader_pos :: nat
  qw_last_signal_head :: nat
  qw_prealloc_desired :: "nat option"
  qw_lock :: inode
  qw_rolls :: nat
  qw_bytes_written :: nat

type_synonym 'a qw_io = "(queue_writer \<times> queue, 'a) io"

section \<open>Preallocated segments\<close>

fun try_take :: "nat \<Rightarrow> recv list \<Rightarrow> mmap_file option result" where
  "try_take next_segment [] = Inr None"
| "try_take next_segment (Prepared i m # rs) = (if i = next_segment then Inr (Some m) else try_take next_segment rs)"
| "try_take next_segment (Disconnected # rs) = Inl (Io BrokenPipe)"

fun prealloc_poll :: "nat \<Rightarrow> recv list list \<Rightarrow> mmap_file option result" where
  "prealloc_poll next_segment [] = Inr None"
| "prealloc_poll next_segment (rs # polls) =
     rbind (try_take next_segment rs) (\<lambda>m. case m of Some m \<Rightarrow> Inr (Some m) | None \<Rightarrow> prealloc_poll next_segment polls)"

definition acquire_preallocated :: "writer_config \<Rightarrow> wr_env \<Rightarrow> nat \<Rightarrow> mmap_file option result" where
  "acquire_preallocated config env next_segment =
     rbind (try_take next_segment (case we_channel env of [] \<Rightarrow> [] | rs # _ \<Rightarrow> rs)) (\<lambda>first.
     case first of
       Some m \<Rightarrow> Inr (Some m)
     | None \<Rightarrow>
         if wc_prealloc_wait_ns config = 0 then
           (if wc_require_prealloc config then Inl (Io TimedOut) else Inr None)
         else rbind (prealloc_poll next_segment (tl (we_channel env))) (\<lambda>later.
              case later of
                Some m \<Rightarrow> Inr (Some m)
              | None \<Rightarrow> if wc_require_prealloc config then Inl (Io TimedOut) else Inr None))"

definition trigger_preallocation :: "nat \<Rightarrow> queue_writer \<Rightarrow> queue_writer" where
  "trigger_preallocation next_segment w = w\<lparr>qw_prealloc_desired := Some next_segment\<rparr>"

text \<open>The body of the preallocation thread for one request.\<close>

definition prealloc_job :: "bool \<Rightarrow> path \<Rightarrow> nat \<Rightarrow> nat \<Rightarrow> (fs, recv option) io" where
  "prealloc_job renameat2_ok root next_segment segment_size =
     bind (attempt (prepare_segment_temp root next_segment segment_size)) (\<lambda>r.
     case r of
       Inl _ \<Rightarrow> bind (attempt (remove_file (segment_temp_path root next_segment))) (\<lambda>_. ret None)
     | Inr m \<Rightarrow>
         bind (attempt (publish_segment renameat2_ok (segment_temp_path root next_segment)
                 (segment_path root next_segment))) (\<lambda>p.
         case p of
           Inr _ \<Rightarrow> ret (Some (Prepared next_segment m))
         | Inl _ \<Rightarrow> bind (attempt (remove_file (segment_temp_path root next_segment))) (\<lambda>_. ret None)))"

text \<open>The body of the retention thread for one head position: the new minimum, then the cleanup.\<close>

definition retention_job :: "crc_fun \<Rightarrow> int \<Rightarrow> path \<Rightarrow> nat \<Rightarrow> retention_config \<Rightarrow> nat \<times> nat \<Rightarrow> (fs, nat option \<times> nat) io" where
  "retention_job crc now root segment_size config head =
     bind (attempt (min_live_reader_position crc now root (fst head) (snd head) segment_size config)) (\<lambda>r.
     let (pos, errs) = (case r of Inr p \<Rightarrow> (Some p, 0) | Inl _ \<Rightarrow> (None, 1)) in
     bind (attempt (cleanup_segments crc now root (fst head) (snd head) segment_size config)) (\<lambda>c.
     ret (pos, case c of Inr _ \<Rightarrow> errs | Inl _ \<Rightarrow> errs + 1)))"

section \<open>Back-pressure\<close>

definition has_capacity :: "queue_writer \<Rightarrow> nat \<Rightarrow> bool" where
  "has_capacity w rlen =
     (let sz = qw_segment_size w;
          (next_segment, next_offset) =
            (if qw_write_offset w + rlen > sz then (qw_segment_id w + 1, SEG_DATA_OFFSET + rlen)
             else (qw_segment_id w, qw_write_offset w + rlen));
          head_after = sat_add64 (sat_mul64 next_segment sz) next_offset;
          bytes_ok = (case wc_max_bytes (qw_config w) of
                        Some mx \<Rightarrow> sat_sub64 head_after (qw_min_reader_pos w) \<le> mx | None \<Rightarrow> True);
          segments_ok = (case wc_max_segments (qw_config w) of
                        Some mx \<Rightarrow> sat_sub64 next_segment (qw_min_reader_pos w div sz) + 1 \<le> mx | None \<Rightarrow> True)
      in bytes_ok \<and> segments_ok)"

fun block_loop :: "nat \<Rightarrow> (nat \<times> bool) list \<Rightarrow> unit qw_io" where
  "block_loop rlen [] = fail Blocked"
| "block_loop rlen ((pos, deadline_passed) # polls) =
     bind (upd (\<lambda>w. w\<lparr>qw_min_reader_pos := pos\<rparr>)) (\<lambda>_.
     bind (get fst) (\<lambda>w.
     if has_capacity w rlen then ret ()
     else if deadline_passed then fail QueueFull
     else block_loop rlen polls))"

definition ensure_capacity :: "crc_fun \<Rightarrow> wr_env \<Rightarrow> nat \<Rightarrow> unit qw_io" where
  "ensure_capacity crc env rlen =
     bind (get fst) (\<lambda>w.
     if wc_max_segments (qw_config w) = None \<and> wc_max_bytes (qw_config w) = None then ret ()
     else case wc_backpressure (qw_config w) of
            FailFast \<Rightarrow>
              if has_capacity w rlen then ret ()
              else bind (attempt (on_fs (q_file (min_live_reader_position crc (we_now env) (qw_path w)
                       (qw_segment_id w) (qw_write_offset w) (qw_segment_size w) (wc_retention (qw_config w)))))) (\<lambda>r.
                   case r of
                     Inr pos \<Rightarrow>
                       bind (upd (\<lambda>w. w\<lparr>qw_min_reader_pos := pos\<rparr>)) (\<lambda>_.
                       bind (get fst) (\<lambda>w.
                       if has_capacity w rlen then ret () else fail QueueFull))
                   | Inl _ \<Rightarrow> fail QueueFull)
          | Block \<Rightarrow> block_loop rlen (we_polls env))"

section \<open>Rolling and index files\<close>

abbreviation (input) INDEX_FILE :: string where "INDEX_FILE \<equiv> ''index.meta''"
abbreviation (input) CONTROL_FILE :: string where "CONTROL_FILE \<equiv> ''control.meta''"
abbreviation (input) WRITER_LOCK_FILE :: string where "WRITER_LOCK_FILE \<equiv> ''writer.lock''"

definition flush_index :: "unit qw_io" where
  "flush_index =
     bind (get fst) (\<lambda>w.
     bind (on_fs (q_file (sb_flush (qw_path w) (qw_seek_index w)))) (\<lambda>_.
     upd (\<lambda>w. w\<lparr>qw_index_records_since_flush := 0\<rparr>)))"

definition maybe_flush_index :: "wr_env \<Rightarrow> unit qw_io" where
  "maybe_flush_index env =
     bind (get fst) (\<lambda>w.
     let c = qw_config w in
     if wc_index_flush_interval_ns c = 0 \<and> wc_index_flush_records c = 0 then ret ()
     else if (wc_index_flush_records c > 0 \<and> qw_index_records_since_flush w \<ge> wc_index_flush_records c) \<or>
             (wc_index_flush_interval_ns c \<noteq> 0 \<and> we_index_elapsed env)
          then flush_index else ret ())"

definition flush_sync :: "unit qw_io" where
  "flush_sync =
     bind flush_index (\<lambda>_.
     bind (get fst) (\<lambda>w.
     on_fs (q_file (store_index (qw_path w @ [INDEX_FILE])
       \<lparr>si_current_segment = qw_segment_id w, si_write_offset = qw_write_offset w\<rparr>))))"

text \<open>The segment to roll to: the prepared one when its header names the expected segment, else a new or existing file.\<close>

definition next_mmap :: "path \<Rightarrow> nat \<Rightarrow> nat \<Rightarrow> mmap_file option \<Rightarrow> (fs, mmap_file) io" where
  "next_mmap root next_segment segment_size prepared =
     (case prepared of
        Some m \<Rightarrow> bind (read_segment_header m) (\<lambda>header.
          if sh_segment_id header \<noteq> word_of_nat next_segment
          then fail (Corrupt ''preallocated segment id mismatch'') else ret m)
      | None \<Rightarrow> prepare_or_open_segment root next_segment segment_size)"

definition roll_segment :: "wr_env \<Rightarrow> unit qw_io" where
  "roll_segment env =
     bind (get fst) (\<lambda>w.
     let next_segment = as_u32 (qw_segment_id w + 1) in
     bind (on_fs (q_file (sb_flush (qw_path w) (qw_seek_index w)))) (\<lambda>_.
     bind (lift (acquire_preallocated (qw_config w) env next_segment)) (\<lambda>prepared.
     bind (on_fs (q_file (next_mmap (qw_path w) next_segment (qw_segment_size w) prepared))) (\<lambda>new_mmap.
     bind (on_fs (q_control (set_segment_index next_segment SEG_DATA_OFFSET))) (\<lambda>_.
     bind (on_fs (q_file (seal_segment (qw_mmap w)))) (\<lambda>_.
     bind (upd (\<lambda>w. w\<lparr>qw_mmap := new_mmap, qw_segment_id := next_segment, qw_write_offset := SEG_DATA_OFFSET,
                   qw_rolls := sat_add64 (qw_rolls w) 1,
                   qw_seek_index := sb_reset next_segment (qw_segment_size w) (qw_seek_index w),
                   qw_index_records_since_flush := 0\<rparr>)) (\<lambda>_.
     bind (lift (system_now_ns (we_now env))) (\<lambda>now_ns.
     bind (on_fs (q_control (set_writer_heartbeat_ns now_ns))) (\<lambda>_.
     bind (on_fs (q_control notify)) (\<lambda>_.
     upd (trigger_preallocation (next_segment + 1))))))))))))"

section \<open>Appending\<close>

text \<open>
  The closure of \<open>append_in_place\<close> gets the payload buffer as it is in the segment and returns
  what it leaves in it, with its result.
\<close>

type_synonym fill = "bytes \<Rightarrow> bytes \<times> unit result"

definition fill_payload :: "mmap_file \<Rightarrow> nat \<Rightarrow> nat \<Rightarrow> fill \<Rightarrow> (fs, bytes) io" where
  "fill_payload m offset payload_len f =
     (if payload_len > 0 then
        bind (mmap_range m (offset + HEADER_SIZE) payload_len) (\<lambda>buf.
        bind (mmap_store m (offset + HEADER_SIZE) (fst (f buf))) (\<lambda>_.
        bind (lift (snd (f buf))) (\<lambda>_.
        mmap_range m (offset + HEADER_SIZE) payload_len)))
      else bind (lift (snd (f []))) (\<lambda>_. ret []))"

definition commit_record :: "crc_fun \<Rightarrow> mmap_file \<Rightarrow> nat \<Rightarrow> u64 \<Rightarrow> u64 \<Rightarrow> u16 \<Rightarrow> bytes \<Rightarrow> (fs, unit) io" where
  "commit_record crc m offset seq timestamp_ns type_id payload =
     bind (mmap_store m offset (to_bytes (new_uncommitted seq timestamp_ns type_id 0 (crc payload)))) (\<lambda>_.
     bind (lift (commit_len_for_payload (length payload))) (\<lambda>commit_len.
     modify (\<lambda>s. fs_set (mm_ino m) (store_commit_len (fs_data s (mm_ino m)) offset commit_len) s)))"

definition signal_retention :: "wr_env \<Rightarrow> queue_writer \<Rightarrow> queue_writer" where
  "signal_retention env w =
     (let head_global = global_pos (qw_segment_id w) (qw_write_offset w) (qw_segment_size w)
      in if (sat_sub64 head_global (qw_last_signal_head w) \<ge> wc_retention_check_bytes (qw_config w) \<or> we_signal_elapsed env)
            \<and> we_signal_sent env
         then w\<lparr>qw_last_signal_head := head_global\<rparr> else w)"

text \<open>The part of an append behind the capacity check and the roll: one record at the write offset.\<close>

definition append_record :: "crc_fun \<Rightarrow> wr_env \<Rightarrow> u16 \<Rightarrow> nat \<Rightarrow> nat \<Rightarrow> u64 \<Rightarrow> fill \<Rightarrow> unit qw_io" where
  "append_record crc env type_id payload_len rlen timestamp_ns f =
     bind (get fst) (\<lambda>w.
     let offset = qw_write_offset w in
     bind (on_fs (q_file (fill_payload (qw_mmap w) offset payload_len f))) (\<lambda>payload.
     bind (on_fs (q_file (commit_record crc (qw_mmap w) offset (qw_seq w) timestamp_ns type_id payload))) (\<lambda>_.
     bind (upd (\<lambda>w. w\<lparr>qw_seek_index := observe (qw_seq w) timestamp_ns (word_of_nat offset) (qw_seek_index w),
                   qw_index_records_since_flush := sat_add64 (qw_index_records_since_flush w) 1,
                   qw_seq := qw_seq w + 1\<rparr>)) (\<lambda>_.
     case checked_add64 offset rlen of
       None \<Rightarrow> fail (Corrupt ''write offset overflow'')
     | Some end_offset \<Rightarrow>
         bind (upd (\<lambda>w. w\<lparr>qw_write_offset := end_offset, qw_bytes_written := sat_add64 (qw_bytes_written w) rlen\<rparr>)) (\<lambda>_.
         bind (on_fs (q_control (set_write_offset end_offset))) (\<lambda>_.
         bind (lift (system_now_ns (we_now env))) (\<lambda>now_ns.
         bind (on_fs (q_control (set_writer_heartbeat_ns now_ns))) (\<lambda>_.
         bind (on_fs (q_control notify)) (\<lambda>_.
         bind (upd (signal_retention env)) (\<lambda>_.
         maybe_flush_index env))))))))))"

definition append_in_place_with_timestamp :: "crc_fun \<Rightarrow> wr_env \<Rightarrow> u16 \<Rightarrow> nat \<Rightarrow> u64 \<Rightarrow> fill \<Rightarrow> unit qw_io" where
  "append_in_place_with_timestamp crc env type_id payload_len timestamp_ns f =
     (if payload_len > MAX_PAYLOAD_LEN then fail PayloadTooLarge
      else let rlen = record_len payload_len in
        bind (get fst) (\<lambda>w0.
        if rlen > qw_segment_size w0 - SEG_DATA_OFFSET then fail PayloadTooLarge
        else bind (ensure_capacity crc env rlen) (\<lambda>_.
             bind (get fst) (\<lambda>w1.
             bind (if qw_write_offset w1 + rlen > qw_segment_size w1 then roll_segment env else ret ()) (\<lambda>_.
             append_record crc env type_id payload_len rlen timestamp_ns f)))))"

definition append_with_timestamp :: "crc_fun \<Rightarrow> wr_env \<Rightarrow> u16 \<Rightarrow> bytes \<Rightarrow> u64 \<Rightarrow> unit qw_io" where
  "append_with_timestamp crc env type_id payload timestamp_ns =
     append_in_place_with_timestamp crc env type_id (length payload) timestamp_ns (\<lambda>_. (payload, Inr ()))"

definition qw_cleanup :: "crc_fun \<Rightarrow> wr_env \<Rightarrow> nat list qw_io" where
  "qw_cleanup crc env =
     bind (get fst) (\<lambda>w.
     on_fs (q_file (cleanup_segments crc (we_now env) (qw_path w) (qw_segment_id w) (qw_write_offset w)
       (qw_segment_size w) (wc_retention (qw_config w)))))"

section \<open>The writer's invariant\<close>

text \<open>
  \<open>qw_inv crc base segs cur\<close>: the queue holds the closed segments \<open>base\<close>, \<open>base + 1\<close>, and so on
  with the entries \<open>segs\<close>, and the writer's open segment with the entries \<open>cur\<close>, up to the
  write offset that the control block shows; the rest of it is zero. Segments behind the open
  one exist only as fresh, preallocated files.
\<close>

definition ctrl_at :: "queue \<Rightarrow> nat \<Rightarrow> nat \<Rightarrow> nat \<Rightarrow> bool" where
  "ctrl_at q i off sz \<longleftrightarrow> (\<exists>b. q_ctrl q = Some b \<and> cb_segment_gen b AND 1 = 0 \<and>
     cb_current_segment b = i \<and> cb_write_offset b = off \<and> cb_segment_size b = sz)"

definition open_seg :: "crc_fun \<Rightarrow> fs \<Rightarrow> path \<Rightarrow> nat \<Rightarrow> nat \<Rightarrow> mmap_file \<Rightarrow> entry list \<Rightarrow> nat \<Rightarrow> bool" where
  "open_seg crc s root sz i m es off \<longleftrightarrow>
     lookup_path s (segment_path root i) = Some (mm_ino m) \<and> mm_len m = sz \<and> mm_ok m s \<and>
     seg_hdr (fs_data s (mm_ino m)) (word_of_nat i) 0 \<and>
     chain crc (fs_data s (mm_ino m)) 64 es off \<and> zeros_from (fs_data s (mm_ino m)) off"

definition later_fresh :: "fs \<Rightarrow> path \<Rightarrow> nat \<Rightarrow> nat \<Rightarrow> bool" where
  "later_fresh s root sz i \<longleftrightarrow>
     (\<forall>j ino. i < j \<longrightarrow> lookup_path s (segment_path root j) = Some ino \<longrightarrow> seg_fresh (fs_data s ino) (word_of_nat j) sz)"

definition qw_inv :: "crc_fun \<Rightarrow> nat \<Rightarrow> entry list list \<Rightarrow> entry list \<Rightarrow> queue_writer \<times> queue \<Rightarrow> bool" where
  "qw_inv crc base segs cur = (\<lambda>(w, q).
     let sz = qw_segment_size w; root = qw_path w; s = q_fs q; i = qw_segment_id w in
     128 \<le> sz \<and> sz + 64 \<le> u64_max \<and> fs_wf s \<and> dir_ok s root \<and>
     base + length segs = i \<and> i < u32_max \<and> ctrl_at q i (qw_write_offset w) sz \<and>
     (\<forall>k < length segs. closed_seg crc s root sz (base + k) (segs ! k)) \<and>
     open_seg crc s root sz i (qw_mmap w) cur (qw_write_offset w) \<and> later_fresh s root sz i)"

text \<open>
  What the environment has to supply for a roll to succeed: a time of day in range, and from
  the preallocation worker nothing or the file of the next segment.
\<close>

definition env_ok :: "wr_env \<Rightarrow> queue_writer \<times> queue \<Rightarrow> bool" where
  "env_ok env = (\<lambda>(w, q).
     0 \<le> we_now env \<and> nat (we_now env) \<le> u64_max \<and>
     (case acquire_preallocated (qw_config w) env (qw_segment_id w + 1) of
        Inl _ \<Rightarrow> False
      | Inr None \<Rightarrow> True
      | Inr (Some m) \<Rightarrow> lookup_path (q_fs q) (segment_path (qw_path w) (qw_segment_id w + 1)) = Some (mm_ino m) \<and>
                        mm_len m = qw_segment_size w))"

text \<open>The fields of a writer that an append leaves alone.\<close>

definition same_writer :: "queue_writer \<Rightarrow> queue_writer \<Rightarrow> bool" where
  "same_writer w w' \<longleftrightarrow> qw_path w' = qw_path w \<and> qw_config w' = qw_config w \<and> qw_segment_size w' = qw_segment_size w"

text \<open>The segments up to number \<open>i\<close> are the same files as before.\<close>

definition same_names :: "path \<Rightarrow> nat \<Rightarrow> queue \<Rightarrow> queue \<Rightarrow> bool" where
  "same_names root i q q' \<longleftrightarrow>
     (\<forall>j \<le> i. lookup_path (q_fs q') (segment_path root j) = lookup_path (q_fs q) (segment_path root j))"

lemma same_names_refl [simp]: "same_names root i q q"
  by (simp add: same_names_def)

lemma same_names_trans: "same_names root i q q1 \<Longrightarrow> same_names root i q1 q2 \<Longrightarrow> same_names root i q q2"
  by (simp add: same_names_def)

lemma same_names_mono: "same_names root i q q' \<Longrightarrow> j \<le> i \<Longrightarrow> same_names root j q q'"
  by (simp add: same_names_def)

lemma even_gen_step: "(g :: u32) AND 1 = 0 \<Longrightarrow> (g + 1 + 1) AND 1 = 0"
proof -
  assume "g AND 1 = 0"
  then have "even g" by (simp add: and_one_eq even_iff_mod_2_eq_zero)
  then have "even (g + 1 + 1)" by simp
  then show ?thesis by (simp only: and_one_eq even_iff_mod_2_eq_zero)
qed

lemma seg_frame_inv:
  assumes "qw_inv crc base segs cur (w, q)" "seg_frame (qw_path w) (q_fs q) s'"
  shows "qw_inv crc base segs cur (w, q\<lparr>q_fs := s'\<rparr>)"
proof -
  let ?r = "qw_path w" and ?s = "q_fs q" and ?z = "qw_segment_size w"
  have lk: "lookup_path s' (segment_path ?r i) = lookup_path ?s (segment_path ?r i)" for i
    using assms(2) by (simp add: seg_frame_def)
  have dt: "fs_data s' ino = fs_data ?s ino" if "lookup_path ?s (segment_path ?r i) = Some ino" for i ino
    using assms(2) that by (simp add: seg_frame_def)
  have wf: "fs_wf s'" "is_dir s' = is_dir ?s" using assms(2) by (simp_all add: seg_frame_def)
  have "closed_seg crc ?s ?r ?z i es \<Longrightarrow> closed_seg crc s' ?r ?z i es" for i es
    by (rule closed_seg_frame [OF _ lk dt])
  moreover have "open_seg crc ?s ?r ?z i m es off \<Longrightarrow> open_seg crc s' ?r ?z i m es off" for i m es off
    using dt by (auto simp: open_seg_def lk mm_ok_def)
  moreover have "later_fresh ?s ?r ?z i \<Longrightarrow> later_fresh s' ?r ?z i" for i
    using dt by (auto simp: later_fresh_def lk)
  ultimately show ?thesis
    using assms(1) wf by (simp add: qw_inv_def Let_def dir_ok_def ctrl_at_def)
qed

lemma qw_inv_control:
  assumes "qw_inv crc base segs cur (w, q)"
    and "\<And>b. cb_segment_gen (f b) = cb_segment_gen b" "\<And>b. cb_current_segment (f b) = cb_current_segment b"
    and "\<And>b. cb_write_offset (f b) = cb_write_offset b" "\<And>b. cb_segment_size (f b) = cb_segment_size b"
  shows "qw_inv crc base segs cur (w, q\<lparr>q_ctrl := map_option f (q_ctrl q)\<rparr>)"
  using assms by (auto simp: qw_inv_def Let_def ctrl_at_def)

lemma qw_inv_fields:
  assumes "qw_inv crc base segs cur (w, q)" "qw_path w' = qw_path w" "qw_segment_size w' = qw_segment_size w"
    and "qw_segment_id w' = qw_segment_id w" "qw_write_offset w' = qw_write_offset w" "qw_mmap w' = qw_mmap w"
  shows "qw_inv crc base segs cur (w', q)"
  using assms by (simp add: qw_inv_def)

text \<open>Two segment files never share an inode.\<close>

lemma seg_ino_inject:
  "fs_wf s \<Longrightarrow> lookup_path s (segment_path root i) = Some a \<Longrightarrow> lookup_path s (segment_path root j) = Some b \<Longrightarrow> i \<noteq> j \<Longrightarrow> a \<noteq> b"
  using fs_wf_inj [of s "segment_path root i" a "segment_path root j"] by auto

section \<open>Rolling keeps the invariant\<close>

text \<open>The next segment, from the worker or prepared on the spot: a fresh file, everything else as before.\<close>

definition next_ready :: "path \<Rightarrow> nat \<Rightarrow> nat \<Rightarrow> mmap_file \<Rightarrow> fs \<Rightarrow> fs \<Rightarrow> bool" where
  "next_ready root sz n m s s' \<longleftrightarrow>
     mm_len m = sz \<and> mm_ok m s' \<and> seg_fresh (fs_data s' (mm_ino m)) (word_of_nat n) sz \<and>
     fs_wf s' \<and> is_dir s' = is_dir s \<and> lookup_path s' (segment_path root n) = Some (mm_ino m) \<and>
     (\<forall>p. p \<noteq> segment_path root n \<longrightarrow> lookup_path s' p = lookup_path s p) \<and>
     (\<forall>p j. p \<noteq> segment_path root n \<longrightarrow> lookup_path s p = Some j \<longrightarrow> fs_data s' j = fs_data s j)"

lemma next_segment_ok:
  assumes inv: "qw_inv crc base segs cur (w, q)"
    and env: "acquire_preallocated (qw_config w) env (qw_segment_id w + 1) = Inr prepared"
    and pre: "\<And>m. prepared = Some m \<Longrightarrow>
      lookup_path (q_fs q) (segment_path (qw_path w) (qw_segment_id w + 1)) = Some (mm_ino m) \<and> mm_len m = qw_segment_size w"
  shows "\<exists>m s'. next_mmap (qw_path w) (qw_segment_id w + 1) (qw_segment_size w) prepared (q_fs q) = (Inr m, s') \<and>
    next_ready (qw_path w) (qw_segment_size w) (qw_segment_id w + 1) m (q_fs q) s'"
proof -
  let ?r = "qw_path w" and ?s = "q_fs q" and ?z = "qw_segment_size w" and ?n = "qw_segment_id w + 1"
  have wf: "fs_wf ?s" "is_dir ?s ?r" and z: "128 \<le> ?z" "?z \<le> u64_max"
    and lf: "later_fresh ?s ?r ?z (qw_segment_id w)"
    using inv by (simp_all add: qw_inv_def Let_def dir_ok_def)
  have fr: "seg_fresh (fs_data ?s ino) (word_of_nat ?n) ?z" if "lookup_path ?s (segment_path ?r ?n) = Some ino" for ino
    using lf that unfolding later_fresh_def by (metis less_add_one)
  show ?thesis
  proof (cases prepared)
    case None
    obtain m s' where "prepare_or_open_segment ?r ?n ?z ?s = (Inr m, s')" "next_ready ?r ?z ?n m ?s s'"
      using prepare_or_open_ok [OF wf _ z(2) fr] z(1) unfolding next_ready_def by fastforce
    then show ?thesis using None by (auto simp: next_mmap_def)
  next
    case (Some m)
    note lk = pre [OF Some]
    have sf: "seg_fresh (fs_data ?s (mm_ino m)) (word_of_nat ?n) ?z" using fr lk by simp
    then have ok: "mm_ok m ?s" using lk z by (simp add: mm_ok_def seg_fresh_def)
    have "read_segment_header m ?s = (Inr \<lparr>sh_magic = SEG_MAGIC, sh_version = SEG_VERSION,
        sh_segment_id = word_of_nat ?n, sh_flags = 0, sh_pad = replicate 48 0\<rparr>, ?s)"
      using read_segment_header_ok [OF ok] sf by (simp add: seg_fresh_def)
    then show ?thesis using Some lk ok sf wf by (simp add: next_mmap_def bind_ok ret_def next_ready_def)
  qed
qed

lemma seal_closes:
  assumes "open_seg crc s root sz i m es off" "64 \<le> sz"
  shows "\<exists>bs. seal_segment m s = (Inr (), fs_set (mm_ino m) bs s) \<and>
    closed_seg crc (fs_set (mm_ino m) bs s) root sz i es"
proof -
  let ?b = "fs_data s (mm_ino m)" and ?i = "word_of_nat i :: u32"
  let ?c = "seal_bytes ?b ?i 0"
  have o: "mm_ok m s" "seg_hdr ?b ?i 0" "chain crc ?b 64 es off" "zeros_from ?b off" "length ?b = sz"
    "lookup_path s (segment_path root i) = Some (mm_ino m)"
    using assms(1) by (auto simp: open_seg_def mm_ok_def)
  note p = seal_bytes_props [OF o(2)]
  have "64 \<le> off" using chain_le [OF o(3)] .
  then have "seg_image crc ?c i (if sealed 0 then 0 else 0 OR SEG_FLAG_SEALED) sz es off"
    using o p chain_drop [of ?c ?b 64] zeros_from_drop [of ?c ?b off] zeros_tail_free
    by (simp add: seg_image_def)
  moreover have "sealed (if sealed 0 then 0 else 0 OR SEG_FLAG_SEALED)" using sealed_or [of 0] by simp
  ultimately have "closed_seg crc (fs_set (mm_ino m) ?c s) root sz i es"
    using o(6) unfolding closed_seg_def by fastforce
  then show ?thesis using seal_segment_ok [OF o(1,2)] by blast
qed

lemma next_ready_data:
  assumes "next_ready root sz n m s s'" "j \<noteq> n" "lookup_path s (segment_path root j) = Some ino"
  shows "fs_data s' ino = fs_data s ino"
proof -
  have "segment_path root j \<noteq> segment_path root n" using assms(2) by simp
  then show ?thesis using assms(1,3) unfolding next_ready_def by blast
qed

lemma open_seg_next:
  assumes "open_seg crc s root sz i m es off" "next_ready root sz n m' s s'" "i \<noteq> n"
  shows "open_seg crc s' root sz i m es off"
  using assms(1,2) next_ready_data [OF assms(2,3), of "mm_ino m"] assms(3)
  by (auto simp: open_seg_def next_ready_def mm_ok_def)

lemma roll_inv:
  assumes inv: "qw_inv crc base segs cur (w, q)" and id: "qw_segment_id w + 1 < u32_max"
    and rd: "next_ready (qw_path w) (qw_segment_size w) (qw_segment_id w + 1) m (q_fs q) s2"
    and cl: "closed_seg crc (fs_set (mm_ino (qw_mmap w)) bs s2) (qw_path w) (qw_segment_size w) (qw_segment_id w) cur"
    and w': "qw_path w' = qw_path w" "qw_segment_size w' = qw_segment_size w" "qw_segment_id w' = qw_segment_id w + 1"
      "qw_write_offset w' = 64" "qw_mmap w' = m"
    and q': "q_fs q' = fs_set (mm_ino (qw_mmap w)) bs s2" "ctrl_at q' (qw_segment_id w + 1) 64 (qw_segment_size w)"
  shows "qw_inv crc base (segs @ [cur]) [] (w', q')"
proof -
  let ?r = "qw_path w" and ?s = "q_fs q" and ?z = "qw_segment_size w" and ?i = "qw_segment_id w"
  let ?o = "mm_ino (qw_mmap w)"
  let ?t = "fs_set ?o bs s2"
  have I: "128 \<le> ?z" "?z + 64 \<le> u64_max" "fs_wf ?s" "dir_ok ?s ?r" "base + length segs = ?i"
    "\<And>k. k < length segs \<Longrightarrow> closed_seg crc ?s ?r ?z (base + k) (segs ! k)"
    "open_seg crc ?s ?r ?z ?i (qw_mmap w) cur (qw_write_offset w)" "later_fresh ?s ?r ?z ?i"
    using inv by (simp_all add: qw_inv_def Let_def)
  have R: "fs_wf s2" "is_dir s2 = is_dir ?s" "lookup_path s2 (segment_path ?r (?i + 1)) = Some (mm_ino m)"
    "\<And>j. j \<noteq> ?i + 1 \<Longrightarrow> lookup_path s2 (segment_path ?r j) = lookup_path ?s (segment_path ?r j)"
    "mm_len m = ?z" "mm_ok m s2" "seg_fresh (fs_data s2 (mm_ino m)) (word_of_nat (?i + 1)) ?z"
    using rd by (auto simp: next_ready_def)
  note dt = next_ready_data [OF rd]
  have lo: "lookup_path s2 (segment_path ?r ?i) = Some ?o" using I(7) R(4) [of ?i] by (simp add: open_seg_def)
  have ne: "ino \<noteq> ?o" if "lookup_path s2 (segment_path ?r j) = Some ino" "j \<noteq> ?i" for j ino
    using seg_ino_inject [OF R(1) that(1) lo that(2)] .
  have cs: "closed_seg crc ?t ?r ?z (base + k) ((segs @ [cur]) ! k)" if "k < Suc (length segs)" for k
  proof (cases "k = length segs")
    case True
    then show ?thesis using cl I(5) by simp
  next
    case False
    then have k: "k < length segs" "base + k \<noteq> ?i + 1" "base + k \<noteq> ?i" using that I(5) by auto
    then have "fs_data ?t ino = fs_data ?s ino" if "lookup_path ?s (segment_path ?r (base + k)) = Some ino" for ino
      using R(4) [of "base + k"] dt [of "base + k" ino] that ne [of "base + k" ino] by simp
    then show ?thesis
      using closed_seg_frame [OF I(6) [OF k(1)], of ?t] R(4) [of "base + k"] k by (simp add: nth_append)
  qed
  have "open_seg crc ?t ?r ?z (?i + 1) m [] 64"
    using R ne [OF R(3)] by (simp add: open_seg_def seg_fresh_def mm_ok_def)
  moreover have "later_fresh ?t ?r ?z (?i + 1)"
    unfolding later_fresh_def
  proof (intro allI impI)
    fix j ino assume j: "?i + 1 < j" "lookup_path ?t (segment_path ?r j) = Some ino"
    then have "lookup_path ?s (segment_path ?r j) = Some ino" "fs_data ?t ino = fs_data ?s ino"
      using R(4) [of j] dt [of j ino] ne [of j ino] by auto
    then show "seg_fresh (fs_data ?t ino) (word_of_nat j) ?z" using I(8) j(1) by (simp add: later_fresh_def)
  qed
  moreover have "dir_ok ?t ?r" using I(4) R(2) by (simp add: dir_ok_def)
  ultimately show ?thesis
    using I R(1) id w' q' cs by (simp add: qw_inv_def Let_def)
qed

lemma roll_segment_ok:
  assumes inv: "qw_inv crc base segs cur (w, q)" and env: "env_ok env (w, q)"
    and id: "qw_segment_id w + 1 < u32_max"
  shows "\<exists>w' q'. roll_segment env (w, q) = (Inr (), w', q') \<and> qw_inv crc base (segs @ [cur]) [] (w', q') \<and>
    same_writer w w' \<and> qw_seq w' = qw_seq w \<and> qw_write_offset w' = 64 \<and> same_names (qw_path w) (qw_segment_id w) q q'"
proof -
  let ?r = "qw_path w" and ?z = "qw_segment_size w" and ?n = "qw_segment_id w + 1"
  have n: "as_u32 ?n = ?n" using id by (simp add: as_u32_def)
  obtain prepared where acq: "acquire_preallocated (qw_config w) env ?n = Inr prepared"
    and pre: "\<And>m. prepared = Some m \<Longrightarrow> lookup_path (q_fs q) (segment_path ?r ?n) = Some (mm_ino m) \<and> mm_len m = ?z"
    and now: "system_now_ns (we_now env) = Inr (nat (we_now env))"
    using env by (auto simp: env_ok_def system_now_ns_def split: sum.splits option.splits)
  obtain s1 where fl: "sb_flush ?r (qw_seek_index w) (q_fs q) = (Inr (), s1)" "seg_frame ?r (q_fs q) s1"
    using sb_flush_frame [of "q_fs q" ?r "qw_seek_index w"] inv by (auto simp: qw_inv_def Let_def dir_ok_def)
  have inv1: "qw_inv crc base segs cur (w, q\<lparr>q_fs := s1\<rparr>)" by (rule seg_frame_inv [OF inv fl(2)])
  obtain m s2 where nx: "next_mmap ?r ?n ?z prepared s1 = (Inr m, s2)" and rd: "next_ready ?r ?z ?n m s1 s2"
    using next_segment_ok [OF inv1 acq] pre fl(2) by (auto simp: seg_frame_def)
  have op: "open_seg crc s2 ?r ?z (qw_segment_id w) (qw_mmap w) cur (qw_write_offset w)" and z: "64 \<le> ?z"
    using inv1 open_seg_next [OF _ rd] by (auto simp: qw_inv_def Let_def)
  obtain bs where sl: "seal_segment (qw_mmap w) s2 = (Inr (), fs_set (mm_ino (qw_mmap w)) bs s2)"
    "closed_seg crc (fs_set (mm_ino (qw_mmap w)) bs s2) ?r ?z (qw_segment_id w) cur"
    using seal_closes [OF op z] by blast
  define w' where "w' = w\<lparr>qw_mmap := m, qw_segment_id := ?n, qw_write_offset := 64,
      qw_rolls := sat_add64 (qw_rolls w) 1, qw_seek_index := sb_reset ?n ?z (qw_seek_index w),
      qw_index_records_since_flush := 0, qw_prealloc_desired := Some (?n + 1)\<rparr>"
  define q' where "q' = \<lparr>q_fs = fs_set (mm_ino (qw_mmap w)) bs s2, q_ctrl = map_option
      (notify \<circ> set_writer_heartbeat_ns (nat (we_now env)) \<circ> set_segment_index ?n 64) (q_ctrl q)\<rparr>"
  have run: "roll_segment env (w, q) = (Inr (), w', q')"
    using fl(1) nx sl(1) acq now n
    by (simp add: roll_segment_def bind_qfile_ok Let_def bind_upd upd_apply trigger_preallocation_def
        option.map_comp comp_def w'_def q'_def)
  have "ctrl_at q' ?n 64 ?z"
    using inv even_gen_step
    by (auto simp: q'_def qw_inv_def Let_def ctrl_at_def notify_def set_writer_heartbeat_ns_def set_segment_index_def)
  then have "qw_inv crc base (segs @ [cur]) [] (w', q')"
    using roll_inv [OF inv1 id _ sl(2), of m w' q'] rd by (simp add: w'_def q'_def)
  moreover have "same_names ?r (qw_segment_id w) q q'"
    using fl(2) rd by (auto simp: same_names_def q'_def seg_frame_def next_ready_def)
  ultimately show ?thesis using run by (auto simp: same_writer_def w'_def)
qed

section \<open>Back-pressure\<close>

text \<open>Waiting for capacity changes nothing but the writer's copy of the readers' position.\<close>

definition no_limits :: "queue_writer \<Rightarrow> bool" where
  "no_limits w \<longleftrightarrow> wc_max_segments (qw_config w) = None \<and> wc_max_bytes (qw_config w) = None"

lemma reader_pos_id: "\<exists>pos. w = w\<lparr>qw_min_reader_pos := pos\<rparr>"
  by (rule exI [of _ "qw_min_reader_pos w"]) simp

lemma block_loop_cases:
  "case block_loop rlen polls (w, q) of (r, w', q') \<Rightarrow>
     q' = q \<and> (\<exists>pos. w' = w\<lparr>qw_min_reader_pos := pos\<rparr>) \<and> r \<in> {Inr (), Inl QueueFull, Inl Blocked} \<and>
     (r = Inr () \<longrightarrow> has_capacity w' rlen) \<and> (r = Inl QueueFull \<longrightarrow> \<not> has_capacity w' rlen)"
proof (induction polls arbitrary: w)
  case Nil
  then show ?case using reader_pos_id [of w] by (simp add: fail_def)
next
  case (Cons p polls)
  obtain pos dl where p: "p = (pos, dl)" by (cases p)
  show ?case
    using Cons [of "w\<lparr>qw_min_reader_pos := pos\<rparr>"]
    by (auto simp: p bind_upd upd_apply fail_def ret_def split: prod.splits)
qed

lemma ensure_capacity_cases:
  "case ensure_capacity crc env rlen (w, q) of (r, w', q') \<Rightarrow>
     q' = q \<and> (\<exists>pos. w' = w\<lparr>qw_min_reader_pos := pos\<rparr>) \<and> r \<in> {Inr (), Inl QueueFull, Inl Blocked} \<and>
     (r = Inr () \<longrightarrow> no_limits w \<or> has_capacity w' rlen) \<and> (r = Inl QueueFull \<longrightarrow> \<not> has_capacity w' rlen)"
proof (cases "no_limits w")
  case True
  then show ?thesis using reader_pos_id [of w] by (simp add: ensure_capacity_def no_limits_def ret_def)
next
  case False
  let ?m = "min_live_reader_position crc (we_now env) (qw_path w) (qw_segment_id w) (qw_write_offset w)
      (qw_segment_size w) (wc_retention (qw_config w))"
  have m: "on_fs (q_file ?m) (w, q) = (fst (?m (q_fs q)), w, q)"
    using min_live_reader_position_state [of crc "we_now env" "qw_path w" "qw_segment_id w" "qw_write_offset w"
      "qw_segment_size w" "wc_retention (qw_config w)" "q_fs q"]
    by (auto simp: on_fs_def q_file_def split: prod.splits)
  show ?thesis
  proof (cases "wc_backpressure (qw_config w)")
    case FailFast
    then show ?thesis
      using False reader_pos_id [of w]
      by (auto simp: ensure_capacity_def no_limits_def attempt_def bind_def get_def ret_def fail_def m upd_apply
          split: prod.splits sum.splits)
  next
    case Block
    then show ?thesis
      using False block_loop_cases [where rlen = rlen and polls = "we_polls env" and w = w and q = q]
      by (auto simp: ensure_capacity_def no_limits_def split: prod.splits)
  qed
qed

section \<open>Appending one record\<close>

lemma fill_payload_ok:
  assumes "mm_ok m s" "off + 64 + n \<le> mm_len m" "f (bslice (fs_data s (mm_ino m)) (off + 64) (off + 64 + n)) = (p, Inr ())"
    and "length p = n"
  shows "\<exists>s1. fill_payload m off n f s = (Inr p, s1) \<and> s1 = fs_set (mm_ino m) (bsplice (fs_data s (mm_ino m)) (off + 64) p) s"
proof (cases "n = 0")
  case True
  moreover have "fs_set (mm_ino m) (fs_data s (mm_ino m)) s = s" by (simp add: fs_set_def)
  ultimately show ?thesis using assms by (simp add: fill_payload_def ret_def bslice_def mm_ok_def)
next
  case False
  let ?s1 = "fs_set (mm_ino m) (bsplice (fs_data s (mm_ino m)) (off + 64) p) s"
  have "mm_ok m ?s1" "bslice (bsplice (fs_data s (mm_ino m)) (off + 64) p) (off + 64) (off + 64 + n) = p"
    using assms by (simp_all add: mm_ok_def bytes_simps)
  then show ?thesis
    using False assms mmap_range_ok [OF assms(1), of "off + 64" n] mmap_store_ok [OF assms(1), of "off + 64" p]
      mmap_range_ok [of m ?s1 "off + 64" n]
    by (simp add: fill_payload_def bind_ok)
qed

lemma commit_record_ok:
  assumes "mm_ok m s" "off + 64 + length p \<le> mm_len m" "length p \<le> MAX_PAYLOAD_LEN"
    and "bs = fs_data s (mm_ino m)"
  shows "commit_record crc m off seq ts t p (fs_set (mm_ino m) (bsplice bs (off + 64) p) s) =
    (Inr (), fs_set (mm_ino m) (put_record crc bs off (new_msg seq ts t p)) s)"
proof -
  let ?s1 = "fs_set (mm_ino m) (bsplice bs (off + 64) p) s"
  have "mm_ok m ?s1" using assms by (simp add: mm_ok_def)
  moreover have "commit_len_for_payload (length p) = Inr (word_of_nat (Suc (length p)))"
    using commit_of_payload(1) [OF assms(3)] .
  ultimately show ?thesis
    using assms mmap_store_ok [of m ?s1 off "to_bytes (new_uncommitted seq ts t 0 (crc p))"]
    by (simp add: commit_record_def bind_ok modify_def put_record_def msg_header_def fs_set_def)
qed

lemma maybe_flush_frame:
  assumes "fs_wf (q_fs q)" "is_dir (q_fs q) (qw_path w)"
  shows "\<exists>n s'. maybe_flush_index env (w, q) = (Inr (), w\<lparr>qw_index_records_since_flush := n\<rparr>, q\<lparr>q_fs := s'\<rparr>) \<and>
    seg_frame (qw_path w) (q_fs q) s'"
proof -
  obtain s' where s': "sb_flush (qw_path w) (qw_seek_index w) (q_fs q) = (Inr (), s')" "seg_frame (qw_path w) (q_fs q) s'"
    using sb_flush_frame [OF assms, of "qw_seek_index w"] by blast
  have "flush_index (w, q) = (Inr (), w\<lparr>qw_index_records_since_flush := 0\<rparr>, q\<lparr>q_fs := s'\<rparr>)"
    using s'(1) by (simp add: flush_index_def bind_qfile_ok upd_apply)
  moreover have "ret () (w, q) = (Inr (), w\<lparr>qw_index_records_since_flush := qw_index_records_since_flush w\<rparr>, q\<lparr>q_fs := q_fs q\<rparr>)"
    by (simp add: ret_def)
  moreover have "maybe_flush_index env (w, q) = flush_index (w, q) \<or> maybe_flush_index env (w, q) = ret () (w, q)"
    by (simp add: maybe_flush_index_def Let_def)
  ultimately show ?thesis
    using s'(2) seg_frame_refl [OF assms(1)] by metis
qed

lemma put_record_inv:
  assumes inv: "qw_inv crc base segs cur (w, q)" and p: "length (msg_payload m) \<le> MAX_PAYLOAD_LEN"
    and fit: "qw_write_offset w + entry_len (Msg m) \<le> qw_segment_size w"
    and w': "qw_path w' = qw_path w" "qw_segment_size w' = qw_segment_size w" "qw_segment_id w' = qw_segment_id w"
      "qw_write_offset w' = qw_write_offset w + entry_len (Msg m)" "qw_mmap w' = qw_mmap w"
    and q': "q_fs q' = fs_set (mm_ino (qw_mmap w)) (put_record crc (fs_data (q_fs q) (mm_ino (qw_mmap w))) (qw_write_offset w) m) (q_fs q)"
      "ctrl_at q' (qw_segment_id w) (qw_write_offset w') (qw_segment_size w)"
  shows "qw_inv crc base segs (cur @ [Msg m]) (w', q')"
proof -
  let ?r = "qw_path w" and ?s = "q_fs q" and ?z = "qw_segment_size w" and ?i = "qw_segment_id w"
  let ?o = "mm_ino (qw_mmap w)" and ?off = "qw_write_offset w"
  let ?b = "fs_data ?s ?o" and ?t = "q_fs q'"
  have I: "128 \<le> ?z" "?z + 64 \<le> u64_max" "fs_wf ?s" "dir_ok ?s ?r" "base + length segs = ?i" "?i < u32_max"
    "\<And>k. k < length segs \<Longrightarrow> closed_seg crc ?s ?r ?z (base + k) (segs ! k)"
    "open_seg crc ?s ?r ?z ?i (qw_mmap w) cur ?off" "later_fresh ?s ?r ?z ?i"
    using inv by (simp_all add: qw_inv_def Let_def)
  have o: "lookup_path ?s (segment_path ?r ?i) = Some ?o" "mm_len (qw_mmap w) = ?z" "length ?b = ?z"
    "seg_hdr ?b (word_of_nat ?i) 0" "chain crc ?b 64 cur ?off" "zeros_from ?b ?off"
    using I(8) by (auto simp: open_seg_def mm_ok_def)
  have off: "64 \<le> ?off" using chain_le [OF o(5)] .
  have le: "?off + 64 + length (msg_payload m) \<le> length ?b"
    using entry_len_bounds(2) [of "Msg m"] p fit o(3) by simp
  have ne: "ino \<noteq> ?o" if "lookup_path ?s (segment_path ?r j) = Some ino" "j \<noteq> ?i" for j ino
    using seg_ino_inject [OF I(3) that(1) o(1) that(2)] .
  have dt: "fs_data ?t ino = fs_data ?s ino" if "lookup_path ?s (segment_path ?r j) = Some ino" "j \<noteq> ?i" for j ino
    using ne [OF that] q'(1) by simp
  have lk: "lookup_path ?t = lookup_path ?s" using q'(1) by simp
  have "closed_seg crc ?t ?r ?z (base + k) (segs ! k)" if "k < length segs" for k
    using closed_seg_frame [OF I(7) [OF that], of ?t] dt [of "base + k"] lk that I(5) by simp
  moreover have "open_seg crc ?t ?r ?z ?i (qw_mmap w) (cur @ [Msg m]) (?off + entry_len (Msg m))"
  proof -
    let ?c = "put_record crc ?b ?off m"
    have "chain crc ?c 64 (cur @ [Msg m]) (?off + entry_len (Msg m))"
      using put_record_chain [OF o(5) _ p] o(3) fit I(1) by simp
    moreover have "zeros_from ?c (?off + entry_len (Msg m))"
      using zeros_from_mono [OF put_record_zeros [OF le o(6)]] entry_len_bounds(2) [of "Msg m"] p by simp
    moreover have "seg_hdr ?c (word_of_nat ?i) 0"
      using o(4) off le unfolding put_record_eq [OF le] by (simp add: seg_hdr_splice_data)
    ultimately show ?thesis
      using I(2) o q'(1) put_record_length [OF le] by (simp add: open_seg_def mm_ok_def)
  qed
  moreover have "later_fresh ?t ?r ?z ?i"
    using I(9) dt lk unfolding later_fresh_def by (metis less_irrefl)
  ultimately show ?thesis
    using I w' q' by (simp add: qw_inv_def Let_def dir_ok_def)
qed

text \<open>What one append stores, whatever the segment held behind the write offset.\<close>

lemma append_record_run:
  assumes m: "mm_ok (qw_mmap w) (q_fs q)" "mm_len (qw_mmap w) = qw_segment_size w" "qw_segment_size w + 64 \<le> u64_max"
    and fs: "fs_wf (q_fs q)" "is_dir (q_fs q) (qw_path w)" and n: "n \<le> MAX_PAYLOAD_LEN"
    and fit: "qw_write_offset w + record_len n \<le> qw_segment_size w"
    and now: "system_now_ns (we_now env) = Inr t0"
    and bs: "bs = fs_data (q_fs q) (mm_ino (qw_mmap w))"
    and f: "f (bslice bs (qw_write_offset w + 64) (qw_write_offset w + 64 + n)) = (p, Inr ())" "length p = n"
  shows "\<exists>w' s'. append_record crc env t n (record_len n) ts f (w, q) = (Inr (), w',
        \<lparr>q_fs = s', q_ctrl = map_option (notify \<circ> set_writer_heartbeat_ns t0 \<circ> set_write_offset (qw_write_offset w')) (q_ctrl q)\<rparr>) \<and>
    seg_frame (qw_path w) (fs_set (mm_ino (qw_mmap w)) (put_record crc bs (qw_write_offset w) (new_msg (qw_seq w) ts t p)) (q_fs q)) s' \<and>
    qw_write_offset w' = qw_write_offset w + record_len n \<and> qw_segment_id w' = qw_segment_id w \<and>
    qw_mmap w' = qw_mmap w \<and> same_writer w w' \<and> qw_seq w' = qw_seq w + 1"
proof -
  let ?off = "qw_write_offset w" and ?m = "qw_mmap w" and ?e = "qw_write_offset w + record_len n"
  have le: "?off + 64 + n \<le> mm_len ?m" using fit record_len_bounds(2) [of n] n m(2) by simp
  let ?s1 = "fs_set (mm_ino ?m) (bsplice bs (?off + 64) p) (q_fs q)"
  let ?s2 = "fs_set (mm_ino ?m) (put_record crc bs ?off (new_msg (qw_seq w) ts t p)) (q_fs q)"
  have fp: "fill_payload ?m ?off n f (q_fs q) = (Inr p, ?s1)"
    using fill_payload_ok [OF m(1), of ?off n f p] f le bs by simp
  have cr: "commit_record crc ?m ?off (qw_seq w) ts t p ?s1 = (Inr (), ?s2)"
    using commit_record_ok [OF m(1) _ _ bs, of ?off p crc "qw_seq w" ts t] le n f(2) by simp
  have ce: "checked_add64 ?off (record_len n) = Some ?e" using fit m(3) by (simp add: checked_add64_def)
  define w1 where "w1 = signal_retention env (w\<lparr>qw_seek_index := observe (qw_seq w) ts (word_of_nat ?off) (qw_seek_index w),
      qw_index_records_since_flush := sat_add64 (qw_index_records_since_flush w) 1, qw_seq := qw_seq w + 1,
      qw_write_offset := ?e, qw_bytes_written := sat_add64 (qw_bytes_written w) (record_len n)\<rparr>)"
  define q1 where "q1 = q\<lparr>q_fs := ?s2, q_ctrl := map_option (notify \<circ> set_writer_heartbeat_ns t0 \<circ> set_write_offset ?e) (q_ctrl q)\<rparr>"
  have run: "append_record crc env t n (record_len n) ts f (w, q) = maybe_flush_index env (w1, q1)"
    using fp cr ce now
    by (simp add: append_record_def bind_qfile_ok Let_def bind_upd option.map_comp comp_def w1_def q1_def)
  have w1: "qw_path w1 = qw_path w" "qw_segment_size w1 = qw_segment_size w" "qw_segment_id w1 = qw_segment_id w"
    "qw_write_offset w1 = ?e" "qw_mmap w1 = ?m" "qw_config w1 = qw_config w" "qw_seq w1 = qw_seq w + 1"
    by (simp_all add: w1_def signal_retention_def Let_def)
  obtain k s' where fl: "maybe_flush_index env (w1, q1) = (Inr (), w1\<lparr>qw_index_records_since_flush := k\<rparr>, q1\<lparr>q_fs := s'\<rparr>)"
    "seg_frame (qw_path w1) (q_fs q1) s'"
    using maybe_flush_frame [of q1 w1 env] fs w1(1) by (auto simp: q1_def)
  show ?thesis
    using run fl w1
    by (intro exI [of _ "w1\<lparr>qw_index_records_since_flush := k\<rparr>"] exI [of _ s']) (simp add: same_writer_def q1_def)
qed

lemma append_record_ok:
  assumes inv: "qw_inv crc base segs cur (w, q)" and n: "n \<le> MAX_PAYLOAD_LEN"
    and fit: "qw_write_offset w + record_len n \<le> qw_segment_size w"
    and now: "system_now_ns (we_now env) = Inr t0"
    and f: "f (replicate n 0) = (p, Inr ())" "length p = n"
  shows "\<exists>w' q'. append_record crc env t n (record_len n) ts f (w, q) = (Inr (), w', q') \<and>
    qw_inv crc base segs (cur @ [Msg (new_msg (qw_seq w) ts t p)]) (w', q') \<and> same_writer w w' \<and> qw_seq w' = qw_seq w + 1 \<and>
    same_names (qw_path w) i q q'"
proof -
  let ?off = "qw_write_offset w" and ?b = "fs_data (q_fs q) (mm_ino (qw_mmap w))"
  let ?msg = "new_msg (qw_seq w) ts t p"
  let ?s2 = "fs_set (mm_ino (qw_mmap w)) (put_record crc ?b ?off ?msg) (q_fs q)"
  let ?c = "map_option (notify \<circ> set_writer_heartbeat_ns t0 \<circ> set_write_offset (?off + record_len n)) (q_ctrl q)"
  have o: "mm_ok (qw_mmap w) (q_fs q)" "mm_len (qw_mmap w) = qw_segment_size w" "qw_segment_size w + 64 \<le> u64_max"
    "fs_wf (q_fs q)" "is_dir (q_fs q) (qw_path w)" "zeros_from ?b ?off" "length ?b = qw_segment_size w"
    using inv by (auto simp: qw_inv_def Let_def open_seg_def mm_ok_def dir_ok_def)
  have "?off + 64 + n \<le> qw_segment_size w" using fit record_len_bounds(2) [of n] n by simp
  then have "bslice ?b (?off + 64) (?off + 64 + n) = replicate n 0"
    using zeros_from_slice [OF o(6), of "?off + 64" "?off + 64 + n"] o(7) by simp
  then obtain w' s' where run: "append_record crc env t n (record_len n) ts f (w, q) = (Inr (), w', \<lparr>q_fs = s', q_ctrl = ?c\<rparr>)"
    and fr: "seg_frame (qw_path w) ?s2 s'" and w': "qw_write_offset w' = ?off + record_len n" "qw_segment_id w' = qw_segment_id w"
      "qw_mmap w' = qw_mmap w" "same_writer w w'" "qw_seq w' = qw_seq w + 1"
    using append_record_run [OF o(1-5) n fit now refl, of f p crc t ts] f by auto
  let ?q1 = "\<lparr>q_fs = ?s2, q_ctrl = ?c\<rparr>"
  have "ctrl_at ?q1 (qw_segment_id w) (qw_write_offset w') (qw_segment_size w)"
    using inv w'(1) by (auto simp: qw_inv_def Let_def ctrl_at_def notify_def set_writer_heartbeat_ns_def set_write_offset_def)
  then have "qw_inv crc base segs (cur @ [Msg ?msg]) (w', ?q1)"
    using put_record_inv [OF inv, of ?msg w' ?q1] w' n f(2) fit by (simp add: same_writer_def entry_len_def)
  then have "qw_inv crc base segs (cur @ [Msg ?msg]) (w', \<lparr>q_fs = s', q_ctrl = ?c\<rparr>)"
    using seg_frame_inv [of crc base segs "cur @ [Msg ?msg]" w' ?q1 s'] fr w'(4) by (simp add: same_writer_def)
  moreover have "same_names (qw_path w) i q \<lparr>q_fs = s', q_ctrl = ?c\<rparr>" using fr by (simp add: same_names_def seg_frame_def)
  ultimately show ?thesis using run w'(4,5) by blast
qed

text \<open>The entries of a queue, oldest first.\<close>

definition queue_entries :: "entry list list \<Rightarrow> entry list \<Rightarrow> entry list" where
  "queue_entries segs cur = concat segs @ cur"

lemma env_ok_pos [simp]: "env_ok env (w\<lparr>qw_min_reader_pos := p\<rparr>, q) = env_ok env (w, q)"
  by (simp add: env_ok_def split: sum.splits option.splits)

lemma env_ok_now: "env_ok env (w, q) \<Longrightarrow> system_now_ns (we_now env) = Inr (nat (we_now env))"
  by (simp add: env_ok_def system_now_ns_def)

lemma roll_if_full:
  assumes inv: "qw_inv crc base segs cur (w, q)" and env: "env_ok env (w, q)" and id: "qw_segment_id w + 1 < u32_max"
    and rlen: "rlen \<le> qw_segment_size w - 64"
  shows "\<exists>w' q' segs' cur'. (if qw_write_offset w + rlen > qw_segment_size w then roll_segment env else ret ()) (w, q) = (Inr (), w', q') \<and>
    qw_inv crc base segs' cur' (w', q') \<and> (segs' = segs \<and> cur' = cur \<or> segs' = segs @ [cur] \<and> cur' = []) \<and>
    same_names (qw_path w) (qw_segment_id w) q q' \<and> same_writer w w' \<and> qw_seq w' = qw_seq w \<and>
    qw_write_offset w' + rlen \<le> qw_segment_size w' \<and> (segs' = segs \<longleftrightarrow> qw_write_offset w + rlen \<le> qw_segment_size w)"
proof (cases "qw_write_offset w + rlen > qw_segment_size w")
  case True
  obtain w' q' where "roll_segment env (w, q) = (Inr (), w', q')" "qw_inv crc base (segs @ [cur]) [] (w', q')"
    "same_writer w w'" "qw_seq w' = qw_seq w" "qw_write_offset w' = 64" "same_names (qw_path w) (qw_segment_id w) q q'"
    using roll_segment_ok [OF inv env id] by blast
  moreover have "128 \<le> qw_segment_size w" using inv by (simp add: qw_inv_def Let_def)
  ultimately show ?thesis
    using True rlen by (intro exI [of _ w'] exI [of _ q'] exI [of _ "segs @ [cur]"] exI [of _ "[]"])
      (simp add: same_writer_def)
next
  case False
  then show ?thesis
    using inv by (intro exI [of _ w] exI [of _ q] exI [of _ segs] exI [of _ cur]) (simp add: ret_def same_writer_def)
qed

text \<open>The entries of a queue grow by one, in the open segment or in a new one.\<close>

definition grows :: "entry list list \<Rightarrow> entry list \<Rightarrow> entry \<Rightarrow> entry list list \<Rightarrow> entry list \<Rightarrow> bool" where
  "grows segs cur x segs' cur' \<longleftrightarrow> segs' = segs \<and> cur' = cur @ [x] \<or> segs' = segs @ [cur] \<and> cur' = [x]"

lemma growsD: "grows segs cur x segs' cur' \<Longrightarrow>
  queue_entries segs' cur' = queue_entries segs cur @ [x] \<and> length segs' \<le> length segs + 1"
  by (auto simp: grows_def queue_entries_def)

lemma append_granted:
  assumes inv: "qw_inv crc base segs cur (w, q)" and env: "env_ok env (w, q)" and id: "qw_segment_id w + 1 < u32_max"
    and f: "f (replicate n 0) = (p, Inr ())" "length p = n"
    and n: "n \<le> MAX_PAYLOAD_LEN" "record_len n \<le> qw_segment_size w - 64"
    and ec: "ensure_capacity crc env (record_len n) (w, q) = (Inr (), w1, q1)"
  shows "\<exists>w' q' segs' cur'. append_in_place_with_timestamp crc env t n ts f (w, q) = (Inr (), w', q') \<and>
    qw_inv crc base segs' cur' (w', q') \<and> same_writer w w' \<and> qw_seq w' = qw_seq w + 1 \<and>
    grows segs cur (Msg (new_msg (qw_seq w) ts t p)) segs' cur' \<and> same_names (qw_path w) (qw_segment_id w) q q' \<and>
    (segs' = segs \<longleftrightarrow> qw_write_offset w + record_len n \<le> qw_segment_size w)"
proof -
  let ?n = "record_len n"
  obtain pos where c: "q1 = q" "w1 = w\<lparr>qw_min_reader_pos := pos\<rparr>"
    using ensure_capacity_cases [where crc = crc and env = env and rlen = ?n and w = w and q = q] ec by auto
  have inv1: "qw_inv crc base segs cur (w1, q)" by (rule qw_inv_fields [OF inv]) (simp_all add: c(2))
  obtain w2 q2 segs' cur' where ro: "(if qw_write_offset w1 + ?n > qw_segment_size w1 then roll_segment env else ret ()) (w1, q) = (Inr (), w2, q2)"
    "qw_inv crc base segs' cur' (w2, q2)" "segs' = segs \<and> cur' = cur \<or> segs' = segs @ [cur] \<and> cur' = []"
    "same_names (qw_path w) (qw_segment_id w) q q2"
    "same_writer w1 w2" "qw_seq w2 = qw_seq w1" "qw_write_offset w2 + ?n \<le> qw_segment_size w2"
    "segs' = segs \<longleftrightarrow> qw_write_offset w + ?n \<le> qw_segment_size w"
    using roll_if_full [OF inv1, of env ?n] env id n by (auto simp: c(2))
  obtain w3 q3 where ar: "append_record crc env t n ?n ts f (w2, q2) = (Inr (), w3, q3)"
    "qw_inv crc base segs' (cur' @ [Msg (new_msg (qw_seq w2) ts t p)]) (w3, q3)" "same_writer w2 w3" "qw_seq w3 = qw_seq w2 + 1"
    "same_names (qw_path w2) (qw_segment_id w) q2 q3"
    using append_record_ok [OF ro(2), of n env "nat (we_now env)" f p t ts "qw_segment_id w"] ro(7) env_ok_now [OF env] f n by auto
  have "append_in_place_with_timestamp crc env t n ts f (w, q) = (Inr (), w3, q3)"
    using n ec c(1) ro(1) ar(1) by (simp add: append_in_place_with_timestamp_def Let_def bind_ok)
  moreover have "qw_path w2 = qw_path w" using ro(5) by (simp add: same_writer_def c(2))
  ultimately show ?thesis
    using ar ro(3-6,8) same_names_trans [OF ro(4)]
    by (auto simp: same_writer_def c(2) grows_def)
qed

section \<open>Properties of the writer\<close>

text \<open>
  Property C3. An append refines the append of a queue. On a writer in its invariant, a record
  that no segment can hold is refused and nothing changes; when the capacity check fails, the
  files and the control block are untouched and the error is \<open>QueueFull\<close>, or the wait is still
  going on; in every other case the append succeeds, rolling to a fresh segment when the open
  one is full, and the queue's entries are the old ones followed by the new record, which has
  the writer's sequence number. The closure is handed a zeroed buffer.
\<close>

theorem append_refines_queue:
  assumes "qw_inv crc base segs cur (w, q)" "env_ok env (w, q)" "qw_segment_id w + 1 < u32_max"
    and "f (replicate n 0) = (p, Inr ())" "length p = n"
  shows "if n > MAX_PAYLOAD_LEN \<or> record_len n > qw_segment_size w - 64
    then append_in_place_with_timestamp crc env t n ts f (w, q) = (Inl PayloadTooLarge, w, q)
    else case ensure_capacity crc env (record_len n) (w, q) of
        (Inl e, w', q') \<Rightarrow> append_in_place_with_timestamp crc env t n ts f (w, q) = (Inl e, w', q) \<and> e \<in> {QueueFull, Blocked}
      | (Inr _, _) \<Rightarrow> \<exists>w' q' segs' cur'. append_in_place_with_timestamp crc env t n ts f (w, q) = (Inr (), w', q') \<and>
          qw_inv crc base segs' cur' (w', q') \<and> same_writer w w' \<and> qw_seq w' = qw_seq w + 1 \<and>
          queue_entries segs' cur' = queue_entries segs cur @ [Msg (new_msg (qw_seq w) ts t p)]"
proof (cases "n > MAX_PAYLOAD_LEN \<or> record_len n > qw_segment_size w - 64")
  case True
  then show ?thesis by (auto simp: append_in_place_with_timestamp_def Let_def fail_def)
next
  case False
  let ?n = "record_len n"
  obtain r w1 q1 where ec: "ensure_capacity crc env ?n (w, q) = (r, w1, q1)" by (metis prod_cases3)
  then have c: "q1 = q" "r \<in> {Inr (), Inl QueueFull, Inl Blocked}"
    using ensure_capacity_cases [where crc = crc and env = env and rlen = ?n and w = w and q = q] by auto
  show ?thesis
  proof (cases r)
    case (Inl e)
    then have "append_in_place_with_timestamp crc env t n ts f (w, q) = (Inl e, w1, q)"
      using False ec c(1) by (simp add: append_in_place_with_timestamp_def Let_def bind_err)
    then show ?thesis using False ec c Inl by simp
  next
    case (Inr u)
    then show ?thesis
      using append_granted [OF assms(1-3), of f n p w1 q1 t ts] assms(4,5) False ec by (simp add: not_less) (metis growsD)
  qed
qed


section \<open>The writer as a store\<close>

text \<open>
  For sessions of appends: a configuration without limits that does not insist on prepared
  segments, and environments in which the preallocation worker has delivered nothing.
\<close>

definition queue_store :: "crc_fun \<Rightarrow> nat \<Rightarrow> path \<Rightarrow> writer_config \<Rightarrow> nat \<Rightarrow> queue_writer \<times> queue \<Rightarrow> message list \<Rightarrow> bool" where
  "queue_store crc base root config sz = (\<lambda>(w, q) ms. qw_path w = root \<and> qw_config w = config \<and> qw_segment_size w = sz \<and>
     (\<exists>segs cur. qw_inv crc base segs cur (w, q) \<and> messages (queue_entries segs cur) = ms))"

definition quiet :: "writer_config \<Rightarrow> bool" where
  "quiet config \<longleftrightarrow> wc_max_segments config = None \<and> wc_max_bytes config = None \<and> \<not> wc_require_prealloc config"

fun queue_accepts :: "writer_config \<Rightarrow> nat \<Rightarrow> wr_env \<times> u16 \<times> u64 \<times> bytes \<Rightarrow> bool" where
  "queue_accepts config sz (env, t, ts, p) \<longleftrightarrow> quiet config \<and> we_channel env = [] \<and> 0 \<le> we_now env \<and> nat (we_now env) \<le> u64_max \<and>
     length p \<le> MAX_PAYLOAD_LEN \<and> record_len (length p) \<le> sz - 64"

fun queue_item :: "u64 \<Rightarrow> wr_env \<times> u16 \<times> u64 \<times> bytes \<Rightarrow> message" where
  "queue_item s (env, t, ts, p) = new_msg s ts t p"

abbreviation queue_append :: "crc_fun \<Rightarrow> wr_env \<times> u16 \<times> u64 \<times> bytes \<Rightarrow> unit qw_io" where
  "queue_append crc \<equiv> \<lambda>(env, t, ts, p). append_with_timestamp crc env t p ts"

lemma queue_fill_ok:
  assumes "qw_inv crc base segs cur (w, q)" "queue_accepts (qw_config w) (qw_segment_size w) (env, t, ts, p)"
    and "qw_segment_id w + 1 < u32_max" "f (replicate (length p) 0) = (p, Inr ())"
  shows "\<exists>w' q' segs' cur'. append_in_place_with_timestamp crc env t (length p) ts f (w, q) = (Inr (), w', q') \<and>
    qw_inv crc base segs' cur' (w', q') \<and> same_writer w w' \<and> qw_seq w' = qw_seq w + 1 \<and>
    grows segs cur (Msg (new_msg (qw_seq w) ts t p)) segs' cur' \<and> same_names (qw_path w) (qw_segment_id w) q q' \<and>
    (segs' = segs \<longleftrightarrow> qw_write_offset w + record_len (length p) \<le> qw_segment_size w)"
proof -
  have "env_ok env (w, q)"
    using assms(2) by (auto simp: env_ok_def acquire_preallocated_def quiet_def)
  moreover have "ensure_capacity crc env (record_len (length p)) (w, q) = (Inr (), w, q)"
    using assms(2) by (simp add: ensure_capacity_def quiet_def ret_def)
  ultimately show ?thesis
    using append_granted [OF assms(1) _ assms(3), of env f "length p" p w q t ts] assms(2,4) by simp
qed

lemma queue_append_ok:
  assumes "qw_inv crc base segs cur (w, q)" "queue_accepts (qw_config w) (qw_segment_size w) (env, t, ts, p)"
    and "qw_segment_id w + 1 < u32_max"
  shows "\<exists>w' q' segs' cur'. append_with_timestamp crc env t p ts (w, q) = (Inr (), w', q') \<and>
    qw_inv crc base segs' cur' (w', q') \<and> same_writer w w' \<and> qw_seq w' = qw_seq w + 1 \<and>
    grows segs cur (Msg (new_msg (qw_seq w) ts t p)) segs' cur' \<and> same_names (qw_path w) (qw_segment_id w) q q' \<and>
    (segs' = segs \<longleftrightarrow> qw_write_offset w + record_len (length p) \<le> qw_segment_size w)"
  unfolding append_with_timestamp_def by (rule queue_fill_ok [OF assms]) simp

text \<open>One append to the store, through a closure that fills a zeroed buffer with the payload.\<close>

abbreviation qw_room :: "queue_writer \<times> queue \<Rightarrow> nat" where
  "qw_room \<equiv> \<lambda>(w, q). u32_max - 1 - qw_segment_id w"

lemma queue_store_fill:
  assumes "queue_store crc base root config sz (w, q) ms" "queue_accepts config sz (env, t, ts, p)" "0 < qw_room (w, q)"
    and "f (replicate (length p) 0) = (p, Inr ())"
  shows "\<exists>x'. append_in_place_with_timestamp crc env t (length p) ts f (w, q) = (Inr (), x') \<and>
    queue_store crc base root config sz x' (ms @ [new_msg (qw_seq w) ts t p]) \<and> qw_seq (fst x') = qw_seq w + 1 \<and>
    qw_room (w, q) \<le> qw_room x' + 1"
proof -
  obtain segs cur where l: "qw_path w = root" "qw_config w = config" "qw_segment_size w = sz"
    "qw_inv crc base segs cur (w, q)" "messages (queue_entries segs cur) = ms"
    using assms(1) by (auto simp: queue_store_def)
  have id: "qw_segment_id w + 1 < u32_max" using assms(3) by simp
  obtain w' q' segs' cur' where a: "append_in_place_with_timestamp crc env t (length p) ts f (w, q) = (Inr (), w', q')"
    "qw_inv crc base segs' cur' (w', q')" "same_writer w w'" "qw_seq w' = qw_seq w + 1"
    "grows segs cur (Msg (new_msg (qw_seq w) ts t p)) segs' cur'"
    using queue_fill_ok [where f = f and p = p, OF l(4) _ id assms(4), of env t ts] assms(2) l by auto
  note g = growsD [OF a(5)]
  have "qw_segment_id w' \<le> qw_segment_id w + 1"
    using l(4) a(2) g by (auto simp: qw_inv_def Let_def)
  then show ?thesis
    using a(1-4) g l by (auto simp: queue_store_def same_writer_def intro!: exI [of _ segs'] exI [of _ cur'])
qed

interpretation queue_st: record_store "queue_store crc base root config sz" "queue_append crc" "\<lambda>_. queue_accepts config sz"
  queue_item "\<lambda>(w, q). qw_seq w" qw_room for crc base root config sz
proof (unfold_locales, goal_cases)
  case (1 x ms r)
  obtain w q env t ts p where x: "x = (w, q)" "r = (env, t, ts, p)" by (metis prod_cases4 surj_pair)
  show ?case
    using queue_store_fill [of crc base root config sz w q ms env t ts p "\<lambda>_. (p, Inr ())"] 1 x
    by (auto simp: append_with_timestamp_def)
qed

section \<open>A small queue\<close>

text \<open>Segment 0 of 256 bytes, empty; a limit of 512 bytes; no reader.\<close>

definition demo_writer :: queue_writer where
  "demo_writer =
     \<lparr>qw_path = [], qw_mmap = \<lparr>mm_ino = 0, mm_len = 256\<rparr>, qw_segment_id = 0, qw_write_offset = 64, qw_seq = 0,
      qw_seek_index = sb_new 0 256 64 DEFAULT_INDEX_STRIDE_RECORDS, qw_index_records_since_flush = 0,
      qw_config = default_writer_config\<lparr>wc_max_bytes := Some 512, wc_segment_size_bytes := 256\<rparr>, qw_segment_size = 256,
      qw_min_reader_pos = 64, qw_last_signal_head = 64, qw_prealloc_desired = Some 1, qw_lock = 0, qw_rolls = 0,
      qw_bytes_written = 0\<rparr>"

definition demo_queue :: queue where
  "demo_queue =
     \<lparr>q_fs = single_file (segment_filename 0) (bsplice (replicate 256 0) 0 (segment_header_bytes 0 0)),
      q_ctrl = Some (cb_create 0 64 1 256)\<rparr>"

definition demo_env :: wr_env where
  "demo_env = \<lparr>we_now = 1000, we_signal_elapsed = False, we_signal_sent = False, we_index_elapsed = False,
     we_channel = [], we_polls = []\<rparr>"

lemma demo_inv: "qw_inv crc 0 [] [] (demo_writer, demo_queue)"
proof -
  let ?b = "bsplice (replicate 256 0) 0 (segment_header_bytes 0 0)"
  have fr: "seg_fresh ?b 0 256" by (rule fresh_bytes) simp
  have lk: "lookup_path (q_fs demo_queue) (segment_path [] j) = (if j = 0 then Some 0 else None)" for j
    by (simp add: demo_queue_def single_file_def lookup_path_def segment_path_def)
  have wf: "fs_wf (q_fs demo_queue)"
    by (simp add: fs_wf_def demo_queue_def single_file_def lookup_path_def split: if_splits)
  have "dir_ok (q_fs demo_queue) []"
    by (simp add: dir_ok_def is_dir_def demo_queue_def single_file_def segment_path_def)
  moreover have "ctrl_at demo_queue 0 64 256"
    by (simp add: ctrl_at_def demo_queue_def cb_create_def)
  moreover have "open_seg crc (q_fs demo_queue) [] 256 0 \<lparr>mm_ino = 0, mm_len = 256\<rparr> [] 64"
    using fr lk by (simp add: open_seg_def mm_ok_def demo_queue_def single_file_def seg_fresh_def)
  moreover have "later_fresh (q_fs demo_queue) [] 256 0" by (simp add: later_fresh_def lk)
  ultimately show ?thesis using wf by (simp add: qw_inv_def demo_writer_def)
qed

lemma demo_env_ok: "env_ok demo_env (demo_writer, demo_queue)"
  by (simp add: env_ok_def demo_env_def demo_writer_def acquire_preallocated_def default_writer_config_def)

lemma demo_capacity: "ensure_capacity crc env 128 (demo_writer, demo_queue) = (Inr (), demo_writer, demo_queue)"
  by (simp add: ensure_capacity_def has_capacity_def demo_writer_def default_writer_config_def ret_def Let_def
      sat_add64_def sat_mul64_def sat_sub64_def)

theorem append_refines_queue_witness:
  "\<exists>w' q' segs' cur'. append_in_place_with_timestamp (\<lambda>_. 5) demo_env 7 3 9 (\<lambda>_. ([1, 2, 3], Inr ())) (demo_writer, demo_queue)
      = (Inr (), w', q') \<and> qw_inv (\<lambda>_. 5) 0 segs' cur' (w', q') \<and> same_writer demo_writer w' \<and> qw_seq w' = 0 + 1 \<and>
    queue_entries segs' cur' = [Msg (new_msg 0 9 7 [1, 2, 3])]"
proof -
  have r: "record_len 3 = 128" using record_len_eq [of 3] by simp
  have d: "qw_segment_size demo_writer = 256" "qw_segment_id demo_writer = 0" "qw_seq demo_writer = 0"
    by (simp_all add: demo_writer_def)
  show ?thesis
    using append_refines_queue [OF demo_inv demo_env_ok, of "\<lambda>_. ([1, 2, 3], Inr ())" 3 "[1, 2, 3]" "\<lambda>_. 5" 7 9]
    by (simp only: r d demo_capacity) (simp add: queue_entries_def)
qed


section \<open>A closure that fails\<close>

lemma fill_payload_fails:
  assumes "mm_ok m s" "off + 64 + n \<le> mm_len m" "0 < n"
    and "f (bslice (fs_data s (mm_ino m)) (off + 64) (off + 64 + n)) = (xs, Inl e)" "length xs = n"
  shows "fill_payload m off n f s = (Inl e, fs_set (mm_ino m) (bsplice (fs_data s (mm_ino m)) (off + 64) xs) s)"
  using assms mmap_range_ok [OF assms(1), of "off + 64" n] mmap_store_ok [OF assms(1), of "off + 64" xs]
  by (simp add: fill_payload_def bind_ok fail_def)

lemma put_record_behind:
  assumes "off + 64 + length (msg_payload m) \<le> a" "a \<le> b" "b \<le> length bs"
  shows "bslice (put_record crc bs off m) a b = bslice bs a b"
  using assms put_record_length [of off m bs crc]
  by (intro nth_equalityI) (auto simp: put_record_eq nth_bslice nth_bsplice)

text \<open>
  Property C38. A closure that fails after it has written to its buffer leaves its bytes in the
  segment. When the next record is shorter, the bytes behind it are where the commit word of the
  record after it is looked for: a reader finds there whatever the failed closure had written,
  although nothing was committed.
\<close>

theorem failed_fill_shows_through:
  assumes "qw_inv crc base segs cur (w, q)" "quiet (qw_config w)" "system_now_ns (we_now env) = Inr t0"
    and "0 < n" "n \<le> MAX_PAYLOAD_LEN" "qw_write_offset w + record_len n \<le> qw_segment_size w"
    and "f (replicate n 0) = (xs, Inl e)" "length xs = n"
    and "record_len (length p) + 4 \<le> 64 + n" "length p \<le> n"
  shows "\<exists>w1 q1 w2 q2. append_in_place_with_timestamp crc env t n ts f (w, q) = (Inl e, w1, q1) \<and>
    append_with_timestamp crc env t' p ts' (w1, q1) = (Inr (), w2, q2) \<and>
    qw_write_offset w2 = qw_write_offset w + record_len (length p) \<and>
    load_commit_len (fs_data (q_fs q2) (mm_ino (qw_mmap w2))) (qw_write_offset w2) =
      u32_from_le (bslice xs (record_len (length p) - 64) (record_len (length p) - 60))"
proof -
  let ?m = "qw_mmap w" and ?off = "qw_write_offset w" and ?k = "record_len (length p)" and ?z = "qw_segment_size w"
  let ?b = "fs_data (q_fs q) (mm_ino ?m)"
  let ?b1 = "bsplice ?b (?off + 64) xs"
  let ?q1 = "q\<lparr>q_fs := fs_set (mm_ino ?m) ?b1 (q_fs q)\<rparr>"
  have I: "mm_ok ?m (q_fs q)" "mm_len ?m = ?z" "?z + 64 \<le> u64_max" "fs_wf (q_fs q)" "is_dir (q_fs q) (qw_path w)"
    "zeros_from ?b ?off" "length ?b = ?z" "64 \<le> ?off" "lookup_path (q_fs q) (segment_path (qw_path w) (qw_segment_id w)) = Some (mm_ino ?m)"
    using assms(1) chain_le by (auto simp: qw_inv_def Let_def open_seg_def mm_ok_def dir_ok_def)
  have le: "?off + 64 + n \<le> ?z" "record_len n \<le> ?z - 64" using assms(5,6) record_len_bounds(2) [of n] I(8) by simp_all
  have p: "length p \<le> MAX_PAYLOAD_LEN" using assms(5,10) by simp
  have k: "64 + length p \<le> ?k" "64 \<le> ?k" using record_len_bounds [of "length p"] p by simp_all
  have kz: "?off + ?k + 4 \<le> ?off + 64 + n" "?off + ?k \<le> ?z" "?k \<le> ?z - 64" using assms(9) le I(8) by simp_all
  have cap: "ensure_capacity crc env r (w', q') = (Inr (), w', q')" if "qw_config w' = qw_config w" for r w' q'
    using assms(2) that by (simp add: ensure_capacity_def quiet_def ret_def)
  have z: "bslice ?b (?off + 64) (?off + 64 + n) = replicate n 0"
    using zeros_from_slice [OF I(6), of "?off + 64" "?off + 64 + n"] le I(7) by simp
  have "fill_payload ?m ?off n f (q_fs q) = (Inl e, fs_set (mm_ino ?m) ?b1 (q_fs q))"
    using fill_payload_fails [OF I(1), of ?off n f xs e] assms(4,7,8) z le I(2) by simp
  then have "append_record crc env t n (record_len n) ts f (w, q) = (Inl e, w, ?q1)"
    by (simp add: append_record_def Let_def bind_qfile_err)
  then have a1: "append_in_place_with_timestamp crc env t n ts f (w, q) = (Inl e, w, ?q1)"
    using assms(5,6) le cap [of w "record_len n" q] by (simp add: append_in_place_with_timestamp_def Let_def bind_ok)
  have ok1: "mm_ok ?m (q_fs ?q1)" "length ?b1 = ?z" using I assms(8) le by (simp_all add: mm_ok_def)
  let ?b2 = "put_record crc ?b1 ?off (new_msg (qw_seq w) ts' t' p)"
  obtain w2 s2 c2 where r2: "append_record crc env t' (length p) ?k ts' (\<lambda>_. (p, Inr ())) (w, ?q1) = (Inr (), w2, \<lparr>q_fs = s2, q_ctrl = c2\<rparr>)"
    "seg_frame (qw_path w) (fs_set (mm_ino ?m) ?b2 (q_fs ?q1)) s2" "qw_write_offset w2 = ?off + ?k" "qw_mmap w2 = ?m"
    using append_record_run [OF ok1(1) I(2,3) _ _ p, of env t0 ?b1 "\<lambda>_. (p, Inr ())" p crc t' ts'] I(4,5) kz(2) assms(3) by auto
  have a2: "append_with_timestamp crc env t' p ts' (w, ?q1) = (Inr (), w2, \<lparr>q_fs = s2, q_ctrl = c2\<rparr>)"
    using p kz cap [of w ?k ?q1] r2(1)
    by (simp add: append_with_timestamp_def append_in_place_with_timestamp_def Let_def bind_ok)
  have "fs_data s2 (mm_ino ?m) = ?b2" using r2(2) I(9) by (simp add: seg_frame_def)
  moreover have "bslice ?b2 (?off + ?k) (?off + ?k + 4) = bslice ?b1 (?off + ?k) (?off + ?k + 4)"
    using put_record_behind [of ?off "new_msg (qw_seq w) ts' t' p" "?off + ?k" "?off + ?k + 4" ?b1 crc] k kz le ok1(2) by simp
  moreover have "bslice ?b1 (?off + ?k) (?off + ?k + 4) = bslice xs (?k - 64) (?k - 60)"
    using k kz assms(8) I(7) le by (intro nth_equalityI) (auto simp: nth_bslice nth_bsplice)
  ultimately have "load_commit_len (fs_data s2 (mm_ino ?m)) (?off + ?k) = u32_from_le (bslice xs (?k - 64) (?k - 60))"
    by (simp add: load_commit_len_def)
  then show ?thesis using a1 a2 r2(3,4) by (auto intro!: exI [of _ w] exI [of _ ?q1])
qed

theorem failed_fill_shows_through_witness:
  "\<exists>w1 q1 w2 q2. append_in_place_with_timestamp (\<lambda>_. 5) demo_env 1 8 0 (\<lambda>_. ([9, 0, 0, 0, 0, 0, 0, 0], Inl QueueFull))
      (demo_writer\<lparr>qw_config := default_writer_config\<rparr>, demo_queue) = (Inl QueueFull, w1, q1) \<and>
    append_with_timestamp (\<lambda>_. 5) demo_env 1 [] 0 (w1, q1) = (Inr (), w2, q2) \<and> qw_write_offset w2 = 128 \<and>
    load_commit_len (fs_data (q_fs q2) (mm_ino (qw_mmap w2))) (qw_write_offset w2) = 9"
proof -
  let ?w = "demo_writer\<lparr>qw_config := default_writer_config\<rparr>"
  have inv: "qw_inv (\<lambda>_. 5) 0 [] [] (?w, demo_queue)" by (rule qw_inv_fields [OF demo_inv]) simp_all
  have r: "record_len 8 = 128" "record_len 0 = 64" using record_len_eq [of 8] record_len_eq [of 0] by simp_all
  have d: "qw_write_offset ?w = 64" "qw_segment_size ?w = 256" "quiet (qw_config ?w)" "system_now_ns (we_now demo_env) = Inr 1000"
    by (simp_all add: demo_writer_def demo_env_def quiet_def default_writer_config_def system_now_ns_def)
  show ?thesis
    using failed_fill_shows_through [OF inv d(3,4), of 8 "\<lambda>_. ([9, 0, 0, 0, 0, 0, 0, 0], Inl QueueFull)"
        "[9, 0, 0, 0, 0, 0, 0, 0]" QueueFull "[]" 1 0 1 0] r d
    by (simp add: bslice_def u32_from_le_def)
qed

end
