(* ===== verification/Writer_Open.thy ===== *)
theory Writer_Open
  imports Writer
begin

text \<open>
  Opening a queue for writing, \<open>Queue::open_publisher_with_clock\<close> of
  \<^verbatim>\<open>src/src/core/writer.rs\<close>: the lock, the control block, the search for the end of the last
  segment and the repair of what a crashed writer left, with the theorem that a reopened queue
  holds exactly the records that were committed.
\<close>

section \<open>The search for the end of a segment\<close>

text \<open>
  The walk over committed records from an offset: where it stops, and whether what it stops at
  is a half-written record. An offset so large that adding the header size overflows, or one
  behind the map, makes the index panic.
\<close>

function scan_segment_tail :: "bytes \<Rightarrow> nat \<Rightarrow> nat \<Rightarrow> (nat \<times> bool) result" where
  "scan_segment_tail bs segment_size offset =
     (if offset + HEADER_SIZE > u64_max then Inl (Panic ''index out of range'')
      else if offset + HEADER_SIZE > segment_size then Inr (offset, False)
      else if offset + HEADER_SIZE > length bs then Inl (Panic ''index out of range'')
      else let commit = load_commit_len bs offset in
        if commit = 0 then Inr (offset, list_ex (\<lambda>b. b \<noteq> 0) (bslice bs offset (offset + HEADER_SIZE)))
        else case payload_len_from_commit commit of
               Inl _ \<Rightarrow> Inr (offset, True)
             | Inr payload_len \<Rightarrow>
                 if payload_len > MAX_PAYLOAD_LEN then Inr (offset, True)
                 else if offset + record_len payload_len > segment_size then Inr (offset, True)
                 else scan_segment_tail bs segment_size (offset + record_len payload_len))"
  by pat_completeness auto
termination
proof (relation "measure (\<lambda>(bs, segment_size, offset). segment_size - offset)", goal_cases)
  case (2 bs segment_size offset commit n)
  then have "64 \<le> record_len n" by (intro record_len_bounds(1)) simp
  with 2 show ?case by simp
qed simp

declare scan_segment_tail.simps [simp del]

definition repair_tail_and_roll :: "mmap_file \<Rightarrow> path \<Rightarrow> nat \<Rightarrow> nat \<Rightarrow> (fs, nat) io" where
  "repair_tail_and_roll m root segment_id segment_size =
     bind (read_segment_header m) (\<lambda>header.
     let next_segment = as_u32 (segment_id + 1) in
     if sh_flags header AND SEG_FLAG_SEALED \<noteq> 0
     then bind (prepare_segment root next_segment segment_size) (\<lambda>_. ret next_segment)
     else bind (repair_unsealed_tail m segment_size) (\<lambda>_.
          bind (prepare_segment root next_segment segment_size) (\<lambda>_. ret next_segment)))"

section \<open>Opening\<close>

text \<open>The control block: an existing one must be ready and name a usable segment size.\<close>

definition open_control :: "writer_config \<Rightarrow> (queue, nat) io" where
  "open_control config =
     bind (get q_ctrl) (\<lambda>c.
     case c of
       Some b \<Rightarrow> bind (lift (wait_ready b)) (\<lambda>_. lift (validate_segment_size (cb_segment_size b)))
     | None \<Rightarrow>
         bind (lift (validate_segment_size (wc_segment_size_bytes config))) (\<lambda>segment_size.
         bind (modify (\<lambda>q. q\<lparr>q_ctrl := Some (cb_create 0 SEG_DATA_OFFSET 0 (wc_segment_size_bytes config))\<rparr>)) (\<lambda>_.
         ret segment_size)))"

text \<open>
  Where to look for the end: at the index, unless the control block is ahead of it; then the
  segment before the control block's is repaired if it was left unsealed.
\<close>

definition recover_position :: "path \<Rightarrow> nat \<Rightarrow> nat \<times> nat \<Rightarrow> (fs, nat \<times> nat) io" where
  "recover_position root segment_size control =
     bind (load_index (root @ [INDEX_FILE])) (\<lambda>index.
     let segment_id = as_u32 (si_current_segment index) in
     if fst control > segment_id then
       (let prev_segment = fst control - 1 in
        bind (get (\<lambda>s. path_exists s (segment_path root prev_segment))) (\<lambda>ex.
        bind (if ex then
                bind (open_segment root prev_segment segment_size) (\<lambda>prev.
                bind (read_segment_header prev) (\<lambda>prev_header.
                if sh_flags prev_header AND SEG_FLAG_SEALED = 0
                then repair_unsealed_tail prev segment_size else ret ()))
              else ret ()) (\<lambda>_.
        ret control)))
     else ret (segment_id, si_write_offset index))"

definition open_or_prepare :: "path \<Rightarrow> nat \<Rightarrow> nat \<Rightarrow> (fs, mmap_file) io" where
  "open_or_prepare root segment_id segment_size =
     bind (get (\<lambda>s. path_exists s (segment_path root segment_id))) (\<lambda>ex.
     if ex then open_segment root segment_id segment_size else prepare_segment root segment_id segment_size)"

text \<open>The segment, its map and the offset to continue at, from a position to scan from.\<close>

definition find_tail :: "path \<Rightarrow> nat \<Rightarrow> nat \<times> nat \<Rightarrow> (fs, nat \<times> mmap_file \<times> nat) io" where
  "find_tail root segment_size = (\<lambda>(segment_id, scan_offset).
     bind (open_or_prepare root segment_id segment_size) (\<lambda>m.
     bind (get (\<lambda>s. scan_segment_tail (as_slice m s) segment_size (max scan_offset SEG_DATA_OFFSET))) (\<lambda>scan.
     bind (lift scan) (\<lambda>(tail_offset, tail_partial).
     bind (if tail_partial then
             bind (repair_tail_and_roll m root segment_id segment_size) (\<lambda>next_segment.
             bind (open_segment root next_segment segment_size) (\<lambda>m'.
             ret (next_segment, m', SEG_DATA_OFFSET)))
           else ret (segment_id, m, tail_offset)) (\<lambda>(segment_id, m, write_offset).
     bind (read_segment_header m) (\<lambda>header.
     let next_segment = as_u32 (segment_id + 1) in
     if \<not> tail_partial \<and> sh_flags header AND SEG_FLAG_SEALED \<noteq> 0
     then bind (open_or_prepare root next_segment segment_size) (\<lambda>m'. ret (next_segment, m', SEG_DATA_OFFSET))
     else ret (segment_id, m, write_offset)))))))"

definition open_publisher :: "crc_fun \<Rightarrow> proc_fun \<Rightarrow> nat \<Rightarrow> (bool \<times> bool result) list \<Rightarrow> int \<Rightarrow> path \<Rightarrow> writer_config \<Rightarrow> (queue, queue_writer) io" where
  "open_publisher crc proc self locks now root config =
     bind (q_file (modify (create_dir_all root))) (\<lambda>_.
     bind (q_file (wl_acquire proc self (root @ [WRITER_LOCK_FILE]) 0 locks)) (\<lambda>lock.
     bind (open_control config) (\<lambda>segment_size.
     bind q_block (\<lambda>b.
     let writer_epoch = max (cb_writer_epoch b + 1) 1 in
     bind (q_control (set_writer_epoch writer_epoch)) (\<lambda>_.
     bind (q_file (write_lock_record proc self lock (unat writer_epoch))) (\<lambda>_.
     bind (lift (system_now_ns now)) (\<lambda>now_ns.
     bind (q_control (set_writer_heartbeat_ns now_ns)) (\<lambda>_.
     bind (lift (Control.segment_index b)) (\<lambda>control.
     bind (q_file (recover_position root segment_size control)) (\<lambda>position.
     bind (q_file (find_tail root segment_size position)) (\<lambda>(segment_id, m, write_offset).
     bind (q_control (set_segment_index segment_id write_offset)) (\<lambda>_.
     let head_global = as_u64 (segment_id * segment_size + write_offset) in
     bind (attempt (q_file (min_live_reader_position crc now root segment_id write_offset segment_size (wc_retention config)))) (\<lambda>initial.
     let initial_min = (case initial of Inr p \<Rightarrow> p | Inl _ \<Rightarrow> head_global);
         seek = sb_new segment_id segment_size 64 DEFAULT_INDEX_STRIDE_RECORDS
     in ret (trigger_preallocation (segment_id + 1)
       \<lparr>qw_path = root, qw_mmap = m, qw_segment_id = segment_id, qw_write_offset = write_offset, qw_seq = 0,
        qw_seek_index = (if write_offset > SEG_DATA_OFFSET then mark_partial seek else seek),
        qw_index_records_since_flush = 0, qw_config = config, qw_segment_size = segment_size,
        qw_min_reader_pos = initial_min, qw_last_signal_head = head_global, qw_prealloc_desired = None,
        qw_lock = lock, qw_rolls = 0, qw_bytes_written = 0\<rparr>))))))))))))))"

section \<open>The search finds the end\<close>

lemma scan_step:
  assumes "entry_at crc bs off e" "length bs = sz" "sz + 64 \<le> u64_max"
  shows "scan_segment_tail bs sz off = scan_segment_tail bs sz (off + entry_len e)"
proof -
  let ?n = "length (entry_payload e)"
  have n: "?n \<le> MAX_PAYLOAD_LEN" and le: "off + entry_len e \<le> sz"
    using assms by (simp_all add: entry_at_def)
  moreover have "off + 64 \<le> sz" using le entry_len_bounds(1) [OF n] by linarith
  ultimately show ?thesis
    using assms commit_of_payload [OF n] entry_at_commit [OF assms(1)]
    by (subst scan_segment_tail.simps) (simp add: entry_len_def Let_def)
qed

lemma scan_chain:
  "chain crc bs off es e \<Longrightarrow> length bs = sz \<Longrightarrow> sz + 64 \<le> u64_max \<Longrightarrow>
   scan_segment_tail bs sz off = scan_segment_tail bs sz e"
  by (induction es arbitrary: off) (auto simp: scan_step)

text \<open>A half-written record: its commit word is zero, other bytes of its header are not.\<close>

definition torn_header :: "bytes \<Rightarrow> nat \<Rightarrow> bool" where
  "torn_header bs e \<longleftrightarrow> e + 64 \<le> length bs \<and> load_commit_len bs e = 0 \<and> list_ex (\<lambda>b. b \<noteq> 0) (bslice bs e (e + 64))"

lemma scan_clean:
  assumes "zeros_from bs e" "e \<le> sz" "length bs = sz" "sz + 64 \<le> u64_max"
  shows "scan_segment_tail bs sz e = Inr (e, False)"
proof (cases "e + 64 \<le> sz")
  case True
  then have "load_commit_len bs e = 0" "bslice bs e (e + 64) = replicate 64 0"
    using zeros_from_commit [OF assms(1), of e] zeros_from_slice [OF assms(1), of e "e + 64"] assms by auto
  then show ?thesis using True assms by (subst scan_segment_tail.simps) (simp add: Let_def list_ex_iff)
qed (use assms in \<open>subst scan_segment_tail.simps, simp\<close>)

lemma scan_torn:
  assumes "torn_header bs e" "length bs = sz" "sz + 64 \<le> u64_max"
  shows "scan_segment_tail bs sz e = Inr (e, True)"
  using assms by (subst scan_segment_tail.simps) (simp add: torn_header_def)

lemma torn_tail_free: "torn_header bs e \<Longrightarrow> tail_free bs e"
  by (simp add: torn_header_def tail_free_def)

section \<open>What a crash leaves\<close>

text \<open>
  An unsealed segment with its committed records: \<open>left_open crc s root sz i es e\<close>. Behind them
  there may be anything whose first word is zero.
\<close>

definition left_open :: "crc_fun \<Rightarrow> fs \<Rightarrow> path \<Rightarrow> nat \<Rightarrow> nat \<Rightarrow> entry list \<Rightarrow> nat \<Rightarrow> bool" where
  "left_open crc s root sz i es e \<longleftrightarrow>
     (\<exists>ino. lookup_path s (segment_path root i) = Some ino \<and> length (fs_data s ino) = sz \<and>
        seg_hdr (fs_data s ino) (word_of_nat i) 0 \<and> chain crc (fs_data s ino) 64 es e \<and> tail_free (fs_data s ino) e)"

text \<open>A usable segment size: what repairing needs besides the writer's own bounds.\<close>

definition repairable :: "nat \<Rightarrow> bool" where
  "repairable sz \<longleftrightarrow> 128 \<le> sz \<and> 64 dvd sz \<and> sz \<le> 4294967296"

lemma repair_closes:
  assumes "left_open crc s root sz i es e" "repairable sz"
  shows "\<exists>ino bs pad. open_segment root i sz s = (Inr \<lparr>mm_ino = ino, mm_len = sz\<rparr>, s) \<and>
    lookup_path s (segment_path root i) = Some ino \<and>
    read_segment_header \<lparr>mm_ino = ino, mm_len = sz\<rparr> s = (Inr \<lparr>sh_magic = SEG_MAGIC, sh_version = SEG_VERSION,
      sh_segment_id = word_of_nat i, sh_flags = 0, sh_pad = replicate 48 0\<rparr>, s) \<and>
    repair_unsealed_tail \<lparr>mm_ino = ino, mm_len = sz\<rparr> sz s = (Inr (), fs_set ino bs s) \<and>
    closed_seg crc (fs_set ino bs s) root sz i (es @ pad) \<and> messages pad = []"
proof -
  obtain ino where o: "lookup_path s (segment_path root i) = Some ino" "length (fs_data s ino) = sz"
    "seg_hdr (fs_data s ino) (word_of_nat i) 0" "chain crc (fs_data s ino) 64 es e" "tail_free (fs_data s ino) e"
    using assms(1) by (auto simp: left_open_def)
  let ?m = "\<lparr>mm_ino = ino, mm_len = sz\<rparr>"
  have sz: "64 dvd sz" "sz \<le> 4294967296" using assms(2) by (simp_all add: repairable_def)
  have ok: "mm_ok ?m s" using o(2) sz by (simp add: mm_ok_def)
  obtain bs pad where r: "repair_unsealed_tail ?m sz s = (Inr (), fs_set ino bs s)" "length bs = sz"
    "seg_hdr bs (word_of_nat i) (0 OR SEG_FLAG_SEALED)" "chain crc bs 64 (es @ pad) sz" "messages pad = []"
    using repair_ok [OF ok _ _ _ _ _ , of "word_of_nat i" 0 crc es e] o sz by auto
  have "closed_seg crc (fs_set ino bs s) root sz i (es @ pad)"
    unfolding closed_seg_def seg_image_def
    using o(1) r(2-4) sealed_or [of 0]
    by (intro exI [of _ ino] exI [of _ "0 OR SEG_FLAG_SEALED"] exI [of _ sz]) (simp add: tail_free_def)
  then show ?thesis
    using o(1) r open_segment_ok [OF o(1,2) _ o(3)] read_segment_header_ok [OF ok] o(3) sz(2) by auto
qed

text \<open>The part of the writer's invariant that is about the files.\<close>

definition files_inv :: "crc_fun \<Rightarrow> nat \<Rightarrow> entry list list \<Rightarrow> entry list \<Rightarrow> path \<Rightarrow> nat \<Rightarrow> fs \<Rightarrow> nat \<Rightarrow> mmap_file \<Rightarrow> nat \<Rightarrow> bool" where
  "files_inv crc base segs cur root sz s i m off \<longleftrightarrow>
     128 \<le> sz \<and> sz + 64 \<le> u64_max \<and> fs_wf s \<and> dir_ok s root \<and> base + length segs = i \<and> i < u32_max \<and>
     (\<forall>k < length segs. closed_seg crc s root sz (base + k) (segs ! k)) \<and>
     open_seg crc s root sz i m cur off \<and> later_fresh s root sz i"

lemma qw_inv_files:
  "qw_inv crc base segs cur (w, q) \<longleftrightarrow>
     files_inv crc base segs cur (qw_path w) (qw_segment_size w) (q_fs q) (qw_segment_id w) (qw_mmap w) (qw_write_offset w) \<and>
     ctrl_at q (qw_segment_id w) (qw_write_offset w) (qw_segment_size w)"
  by (auto simp: qw_inv_def files_inv_def Let_def)

text \<open>
  The segment the control block names: the committed records \<open>cur\<close>, then zeros or a half-written
  record; or not created yet.
\<close>

definition last_segment :: "crc_fun \<Rightarrow> fs \<Rightarrow> path \<Rightarrow> nat \<Rightarrow> nat \<Rightarrow> entry list \<Rightarrow> nat \<Rightarrow> bool" where
  "last_segment crc s root sz i cur e \<longleftrightarrow>
     (case lookup_path s (segment_path root i) of
        None \<Rightarrow> cur = [] \<and> e = 64
      | Some ino \<Rightarrow> length (fs_data s ino) = sz \<and> seg_hdr (fs_data s ino) (word_of_nat i) 0 \<and>
          chain crc (fs_data s ino) 64 cur e \<and> (zeros_from (fs_data s ino) e \<or> torn_header (fs_data s ino) e))"

text \<open>
  What a writer that stopped at any point leaves: closed segments, of which the last may still
  be unsealed (the control block is moved before the old segment is sealed), and the segment
  that was being written.
\<close>

definition crashed :: "crc_fun \<Rightarrow> nat \<Rightarrow> entry list list \<Rightarrow> entry list \<Rightarrow> nat \<Rightarrow> path \<Rightarrow> nat \<Rightarrow> fs \<Rightarrow> bool" where
  "crashed crc base segs cur e root sz s \<longleftrightarrow>
     repairable sz \<and> fs_wf s \<and> dir_ok s root \<and> base + length segs + 1 < u32_max \<and>
     (\<forall>j < base. lookup_path s (segment_path root j) = None) \<and>
     (\<forall>k < length segs. closed_seg crc s root sz (base + k) (segs ! k) \<or>
        (k + 1 = length segs \<and> (\<exists>e'. left_open crc s root sz (base + k) (segs ! k) e'))) \<and>
     last_segment crc s root sz (base + length segs) cur e \<and> later_fresh s root sz (base + length segs)"

text \<open>An offset to scan from is the end of one of the records.\<close>

definition boundary :: "crc_fun \<Rightarrow> fs \<Rightarrow> path \<Rightarrow> nat \<Rightarrow> entry list \<Rightarrow> nat \<Rightarrow> bool" where
  "boundary crc s root i cur off \<longleftrightarrow>
     (case lookup_path s (segment_path root i) of
        None \<Rightarrow> off \<le> 64
      | Some ino \<Rightarrow> \<exists>pre post. cur = pre @ post \<and> chain crc (fs_data s ino) 64 pre (max off 64))"

text \<open>The same state with every closed segment sealed.\<close>

definition settled :: "crc_fun \<Rightarrow> nat \<Rightarrow> entry list list \<Rightarrow> entry list \<Rightarrow> nat \<Rightarrow> path \<Rightarrow> nat \<Rightarrow> fs \<Rightarrow> bool" where
  "settled crc base segs cur e root sz s \<longleftrightarrow>
     crashed crc base segs cur e root sz s \<and> (\<forall>k < length segs. closed_seg crc s root sz (base + k) (segs ! k))"

lemma same_file:
  assumes "lookup_path s' (segment_path root i) = lookup_path s (segment_path root i)"
    and "\<And>ino. lookup_path s (segment_path root i) = Some ino \<Longrightarrow> fs_data s' ino = fs_data s ino"
  shows "last_segment crc s' root sz i cur e = last_segment crc s root sz i cur e"
    "boundary crc s' root i cur off = boundary crc s root i cur off"
    "left_open crc s' root sz i cur e = left_open crc s root sz i cur e"
    "closed_seg crc s' root sz i cur = closed_seg crc s root sz i cur"
  using assms
  by (cases "lookup_path s (segment_path root i)"; simp add: last_segment_def boundary_def left_open_def closed_seg_def)+

text \<open>Sealing or repairing one segment leaves the others alone.\<close>

lemma other_segment:
  assumes "fs_wf s" "lookup_path s (segment_path root j) = Some ino" "i \<noteq> j"
  shows "last_segment crc (fs_set ino bs s) root sz i cur e = last_segment crc s root sz i cur e"
    "boundary crc (fs_set ino bs s) root i cur off = boundary crc s root i cur off"
    "closed_seg crc (fs_set ino bs s) root sz i cur = closed_seg crc s root sz i cur"
  using same_file [of "fs_set ino bs s" root i s] seg_ino_inject [OF assms(1) _ assms(2,3)] by auto

lemma repair_previous:
  assumes c: "crashed crc base segs cur e root sz s" and k: "segs = ks @ [es]"
    and l: "left_open crc s root sz (base + length ks) es e'"
  shows "\<exists>ino bs pad. open_segment root (base + length ks) sz s = (Inr \<lparr>mm_ino = ino, mm_len = sz\<rparr>, s) \<and>
    read_segment_header \<lparr>mm_ino = ino, mm_len = sz\<rparr> s = (Inr \<lparr>sh_magic = SEG_MAGIC, sh_version = SEG_VERSION,
      sh_segment_id = word_of_nat (base + length ks), sh_flags = 0, sh_pad = replicate 48 0\<rparr>, s) \<and>
    repair_unsealed_tail \<lparr>mm_ino = ino, mm_len = sz\<rparr> sz s = (Inr (), fs_set ino bs s) \<and>
    settled crc base (ks @ [es @ pad]) cur e root sz (fs_set ino bs s) \<and> messages pad = [] \<and>
    (\<forall>off. boundary crc s root (base + length segs) cur off \<longrightarrow> boundary crc (fs_set ino bs s) root (base + length segs) cur off)"
proof -
  let ?i = "base + length segs" and ?j = "base + length ks"
  have C: "repairable sz" "fs_wf s" "dir_ok s root" "?i + 1 < u32_max" "last_segment crc s root sz ?i cur e"
    "later_fresh s root sz ?i" "\<And>k. k < length ks \<Longrightarrow> closed_seg crc s root sz (base + k) (ks ! k)"
    "\<And>j. j < base \<Longrightarrow> lookup_path s (segment_path root j) = None"
    using c k by (auto simp: crashed_def nth_append split: if_splits)
  obtain ino bs pad where r: "open_segment root ?j sz s = (Inr \<lparr>mm_ino = ino, mm_len = sz\<rparr>, s)"
    "lookup_path s (segment_path root ?j) = Some ino"
    "read_segment_header \<lparr>mm_ino = ino, mm_len = sz\<rparr> s = (Inr \<lparr>sh_magic = SEG_MAGIC, sh_version = SEG_VERSION,
      sh_segment_id = word_of_nat ?j, sh_flags = 0, sh_pad = replicate 48 0\<rparr>, s)"
    "repair_unsealed_tail \<lparr>mm_ino = ino, mm_len = sz\<rparr> sz s = (Inr (), fs_set ino bs s)"
    "closed_seg crc (fs_set ino bs s) root sz ?j (es @ pad)" "messages pad = []"
    using repair_closes [OF l C(1)] by blast
  let ?t = "fs_set ino bs s"
  note oth = other_segment [OF C(2) r(2)]
  have cl: "closed_seg crc ?t root sz (base + k) ((ks @ [es @ pad]) ! k)" if "k < Suc (length ks)" for k
    using that C(7) oth(3) [of "base + k"] r(5) by (cases "k = length ks") (auto simp: nth_append)
  have lf: "later_fresh ?t root sz ?i"
    using C(6) seg_ino_inject [OF C(2) _ r(2)] k unfolding later_fresh_def by auto
  have "settled crc base (ks @ [es @ pad]) cur e root sz ?t"
    using C cl lf oth(1) [of ?i] k by (simp add: settled_def crashed_def dir_ok_def)
  then show ?thesis using r oth(2) [of ?i] k by auto
qed

text \<open>What the index file may say: nothing newer than the control block.\<close>

definition index_ok :: "crc_fun \<Rightarrow> nat \<Rightarrow> entry list list \<Rightarrow> entry list \<Rightarrow> path \<Rightarrow> nat \<Rightarrow> fs \<Rightarrow> Reader_Meta.segment_index \<Rightarrow> bool" where
  "index_ok crc base segs cur root sz s idx \<longleftrightarrow>
     as_u32 (si_current_segment idx) < base + length segs \<or>
     (as_u32 (si_current_segment idx) = base + length segs \<and> boundary crc s root (base + length segs) cur (si_write_offset idx) \<and>
      (\<forall>k < length segs. closed_seg crc s root sz (base + k) (segs ! k)))"

lemma recover_position_ok:
  assumes c: "crashed crc base segs cur e root sz s"
    and idx: "load_index (root @ [INDEX_FILE]) s = (Inr idx, s)" "index_ok crc base segs cur root sz s idx"
    and off: "boundary crc s root (base + length segs) cur off"
  shows "\<exists>off' s' segs'. recover_position root sz (base + length segs, off) s = (Inr (base + length segs, off'), s') \<and>
    settled crc base segs' cur e root sz s' \<and> boundary crc s' root (base + length segs) cur off' \<and>
    length segs' = length segs \<and> messages (concat segs') = messages (concat segs)"
proof (cases "base + length segs > as_u32 (si_current_segment idx)")
  case False
  then have "recover_position root sz (base + length segs, off) s = (Inr (base + length segs, si_write_offset idx), s)"
    using idx by (simp add: recover_position_def bind_ok ret_def index_ok_def)
  then show ?thesis using False idx(2) c by (auto simp: index_ok_def settled_def)
next
  case True
  let ?i = "base + length segs"
  have C: "repairable sz" "fs_wf s" "\<And>k. k < length segs \<Longrightarrow> closed_seg crc s root sz (base + k) (segs ! k) \<or>
        (k + 1 = length segs \<and> (\<exists>e'. left_open crc s root sz (base + k) (segs ! k) e'))"
    using c by (auto simp: crashed_def)
  have rp: "recover_position root sz (?i, off) s =
      bind (if path_exists s (segment_path root (?i - 1)) then
              bind (open_segment root (?i - 1) sz) (\<lambda>prev.
              bind (read_segment_header prev) (\<lambda>prev_header.
              if sh_flags prev_header AND SEG_FLAG_SEALED = 0 then repair_unsealed_tail prev sz else ret ()))
            else ret ()) (\<lambda>_. ret (?i, off)) s"
    using True idx(1) by (simp add: recover_position_def bind_ok Let_def)
  show ?thesis
  proof (cases "\<exists>ks es e'. segs = ks @ [es] \<and> left_open crc s root sz (base + length ks) es e'")
    case True
    then obtain ks es e' where k: "segs = ks @ [es]" and l: "left_open crc s root sz (base + length ks) es e'" by blast
    obtain ino bs pad where r: "open_segment root (base + length ks) sz s = (Inr \<lparr>mm_ino = ino, mm_len = sz\<rparr>, s)"
      "read_segment_header \<lparr>mm_ino = ino, mm_len = sz\<rparr> s = (Inr \<lparr>sh_magic = SEG_MAGIC, sh_version = SEG_VERSION,
        sh_segment_id = word_of_nat (base + length ks), sh_flags = 0, sh_pad = replicate 48 0\<rparr>, s)"
      "repair_unsealed_tail \<lparr>mm_ino = ino, mm_len = sz\<rparr> sz s = (Inr (), fs_set ino bs s)"
      "settled crc base (ks @ [es @ pad]) cur e root sz (fs_set ino bs s)" "messages pad = []"
      "\<And>off. boundary crc s root ?i cur off \<Longrightarrow> boundary crc (fs_set ino bs s) root ?i cur off"
      using repair_previous [OF c k l] by blast
    have "path_exists s (segment_path root (base + length ks))" using l by (auto simp: left_open_def path_exists_def)
    then have "recover_position root sz (?i, off) s = (Inr (?i, off), fs_set ino bs s)"
      using rp r(1-3) k by (simp add: bind_ok ret_def)
    then show ?thesis using r(4-6) off k by (intro exI [of _ off] exI [of _ "fs_set ino bs s"] exI [of _ "ks @ [es @ pad]"]) simp
  next
    case False
    have all: "closed_seg crc s root sz (base + k) (segs ! k)" if "k < length segs" for k
    proof (rule ccontr)
      assume n: "\<not> closed_seg crc s root sz (base + k) (segs ! k)"
      then have "segs = take k segs @ [segs ! k]" "length (take k segs) = k" "\<exists>e'. left_open crc s root sz (base + k) (segs ! k) e'"
        using C(3) [OF that] that by (auto simp flip: take_Suc_conv_app_nth)
      then show False using False by metis
    qed
    then have st: "settled crc base segs cur e root sz s" using c by (simp add: settled_def)
    have "recover_position root sz (?i, off) s = (Inr (?i, off), s)"
    proof (cases "segs = []")
      case True
      moreover have "\<not> path_exists s (segment_path root (base - 1))"
        using c True \<open>?i > as_u32 (si_current_segment idx)\<close> by (simp add: crashed_def path_exists_def dir_ok_def)
      ultimately show ?thesis using rp by (simp add: ret_def)
    next
      case nonempty: False
      then have cl: "closed_seg crc s root sz (?i - 1) (segs ! (length segs - 1))"
        using all [of "length segs - 1"] by (cases segs) auto
      then obtain ino fl e1 where f: "lookup_path s (segment_path root (?i - 1)) = Some ino" "sealed fl"
        "seg_image crc (fs_data s ino) (?i - 1) fl sz (segs ! (length segs - 1)) e1"
        by (auto simp: closed_seg_def)
      let ?m = "\<lparr>mm_ino = ino, mm_len = sz\<rparr>"
      have szb: "sz \<le> u64_max" using C(1) by (simp add: repairable_def)
      have o: "open_segment root (?i - 1) sz s = (Inr ?m, s)"
        using open_segment_ok [OF f(1), of sz fl] f(3) szb by (simp add: seg_image_def)
      have h: "read_segment_header ?m s = (Inr \<lparr>sh_magic = SEG_MAGIC, sh_version = SEG_VERSION,
          sh_segment_id = word_of_nat (?i - 1), sh_flags = fl, sh_pad = replicate 48 0\<rparr>, s)"
        using read_segment_header_ok [of ?m s] f(3) szb by (simp add: seg_image_def mm_ok_def)
      show ?thesis using rp f(1,2) o h by (simp add: path_exists_def bind_ok ret_def)
    qed
    then show ?thesis using st off by blast
  qed
qed

text \<open>A fresh segment file at \<open>n\<close>; everything else about the segments is as before.\<close>

lemma prepare_next:
  assumes "128 \<le> sz" "sz \<le> u64_max" "fs_wf s" "dir_ok s root"
  shows "\<exists>m s'. prepare_segment root n sz s = (Inr m, s') \<and> next_ready root sz n m s s'"
proof -
  obtain m s' where c: "prepare_segment root n sz s = (Inr m, s')" "creates_segment (segment_path root n) n sz m s s'"
    using prepare_segment_ok [of sz s root n] assms by (auto simp: dir_ok_def)
  have "fs_data s' j = fs_data s j" if "p \<noteq> segment_path root n" "lookup_path s p = Some j" for p j
  proof -
    have "j \<noteq> mm_ino m"
    proof (cases "lookup_path s (segment_path root n)")
      case None
      then show ?thesis using c(2) fs_wf_less [OF assms(3) that(2)] by (simp add: creates_segment_def)
    next
      case (Some k)
      then have "j \<noteq> k" using fs_wf_inj [OF assms(3) that(2), of "segment_path root n"] that(1) by blast
      then show ?thesis using Some c(2) by (simp add: creates_segment_def)
    qed
    then show ?thesis using c(2) by (simp add: creates_segment_def)
  qed
  then have "next_ready root sz n m s s'" using c(2) assms(3) by (auto simp: next_ready_def creates_segment_def)
  then show ?thesis using c(1) by blast
qed

lemma ready_open:
  assumes "next_ready root sz n m s s'" "128 \<le> sz" "sz \<le> u64_max"
  shows "open_segment root n sz s' = (Inr m, s')"
    "read_segment_header m s' = (Inr \<lparr>sh_magic = SEG_MAGIC, sh_version = SEG_VERSION,
      sh_segment_id = word_of_nat n, sh_flags = 0, sh_pad = replicate 48 0\<rparr>, s')"
    "open_seg crc s' root sz n m [] 64"
proof -
  have r: "lookup_path s' (segment_path root n) = Some (mm_ino m)" "seg_fresh (fs_data s' (mm_ino m)) (word_of_nat n) sz"
    "mm_len m = sz" "mm_ok m s'" using assms(1) by (simp_all add: next_ready_def)
  then show "open_segment root n sz s' = (Inr m, s')"
    using fresh_open [OF r(1,2) assms(3)] by (cases m) simp
  show "read_segment_header m s' = (Inr \<lparr>sh_magic = SEG_MAGIC, sh_version = SEG_VERSION,
      sh_segment_id = word_of_nat n, sh_flags = 0, sh_pad = replicate 48 0\<rparr>, s')"
    using read_segment_header_ok [OF r(4)] r(2) by (simp add: seg_fresh_def)
  show "open_seg crc s' root sz n m [] 64" using r by (simp add: open_seg_def seg_fresh_def)
qed

text \<open>The file part of the invariant with a fresh last segment.\<close>

lemma files_inv_fresh:
  assumes "128 \<le> sz" "sz + 64 \<le> u64_max" "fs_wf s" "dir_ok s root" "base + length segs = n" "n < u32_max"
    and "\<And>k. k < length segs \<Longrightarrow> closed_seg crc s root sz (base + k) (segs ! k)"
    and "\<And>j ino. n < j \<Longrightarrow> lookup_path s (segment_path root j) = Some ino \<Longrightarrow> seg_fresh (fs_data s ino) (word_of_nat j) sz"
    and rd: "next_ready root sz n m s s'"
  shows "files_inv crc base segs [] root sz s' n m 64"
proof -
  have lk: "lookup_path s' (segment_path root j) = lookup_path s (segment_path root j)" if "j \<noteq> n" for j
    using rd that by (simp add: next_ready_def)
  have "closed_seg crc s' root sz (base + k) (segs ! k)" if "k < length segs" for k
    using closed_seg_frame [OF assms(7) [OF that], of s'] lk [of "base + k"] next_ready_data [OF rd, of "base + k"] that assms(5) by simp
  moreover have "later_fresh s' root sz n"
    using assms(8) lk next_ready_data [OF rd] unfolding later_fresh_def by (metis less_irrefl)
  moreover have "dir_ok s' root" "fs_wf s'" using rd assms(4) by (simp_all add: next_ready_def dir_ok_def)
  ultimately show ?thesis
    using assms(1,2,5,6) ready_open(3) [OF rd] by (simp add: files_inv_def)
qed

lemma find_tail_ok:
  assumes st: "settled crc base segs cur e root sz s" and off: "boundary crc s root (base + length segs) cur off"
  shows "\<exists>i m off' s' segs' cur'. find_tail root sz (base + length segs, off) s = (Inr (i, m, off'), s') \<and>
    files_inv crc base segs' cur' root sz s' i m off' \<and> messages (queue_entries segs' cur') = messages (queue_entries segs cur)"
proof -
  let ?i = "base + length segs"
  have C: "repairable sz" "fs_wf s" "dir_ok s root" "?i + 1 < u32_max" "last_segment crc s root sz ?i cur e"
    "later_fresh s root sz ?i" "\<And>k. k < length segs \<Longrightarrow> closed_seg crc s root sz (base + k) (segs ! k)"
    using st by (auto simp: settled_def crashed_def)
  have sz: "128 \<le> sz" "sz + 64 \<le> u64_max" "sz \<le> u64_max" using C(1) by (simp_all add: repairable_def)
  have nd: "\<not> is_dir s (segment_path root ?i)" using C(3) by (simp add: dir_ok_def)
  show ?thesis
  proof (cases "lookup_path s (segment_path root ?i)")
    case None
    then have cur: "cur = []" "max off 64 = 64" using C(5) off by (auto simp: last_segment_def boundary_def)
    obtain m s' where p: "prepare_segment root ?i sz s = (Inr m, s')" "next_ready root sz ?i m s s'"
      using prepare_next [OF sz(1,3) C(2,3)] by blast
    note ro = ready_open [OF p(2) sz(1,3)]
    have "as_slice m s' = fs_data s' (mm_ino m)" "zeros_from (fs_data s' (mm_ino m)) 64" "length (fs_data s' (mm_ino m)) = sz"
      using ro(3) [of crc] by (auto simp: open_seg_def as_slice_ok mm_ok_def)
    then have "scan_segment_tail (as_slice m s') sz (max off 64) = Inr (64, False)"
      using scan_clean [of "fs_data s' (mm_ino m)" 64 sz] sz cur(2) by simp
    then have "find_tail root sz (?i, off) s = (Inr (?i, m, 64), s')"
      using None nd p(1) ro(2) by (simp add: find_tail_def open_or_prepare_def path_exists_def bind_ok ret_def)
    moreover have "files_inv crc base segs [] root sz s' ?i m 64"
      by (rule files_inv_fresh [OF sz(1,2) C(2,3) refl _ C(7) _ p(2)]) (use C(4,6) in \<open>auto simp: later_fresh_def\<close>)
    ultimately show ?thesis using cur(1) by blast
  next
    case (Some ino)
    let ?b = "fs_data s ino" and ?m = "\<lparr>mm_ino = ino, mm_len = sz\<rparr>"
    have L: "length ?b = sz" "seg_hdr ?b (word_of_nat ?i) 0" "chain crc ?b 64 cur e" "zeros_from ?b e \<or> torn_header ?b e"
      using C(5) Some by (auto simp: last_segment_def)
    obtain pre post where b: "cur = pre @ post" "chain crc ?b 64 pre (max off 64)" using off Some by (auto simp: boundary_def)
    have det: "a = a'" if "chain crc ?b x pre a" "chain crc ?b x pre a'" for a a' x
      using that by (induction pre arbitrary: x) auto
    obtain a where "chain crc ?b 64 pre a" "chain crc ?b a post e" using L(3) b(1) by (auto simp: chain_append)
    then have post: "chain crc ?b (max off 64) post e" using det [OF b(2)] by blast
    have ok: "mm_ok ?m s" using L(1) sz by (simp add: mm_ok_def)
    have o: "open_segment root ?i sz s = (Inr ?m, s)" by (rule open_segment_ok [OF Some L(1) sz(3) L(2)])
    have h: "read_segment_header ?m s = (Inr \<lparr>sh_magic = SEG_MAGIC, sh_version = SEG_VERSION,
        sh_segment_id = word_of_nat ?i, sh_flags = 0, sh_pad = replicate 48 0\<rparr>, s)"
      using read_segment_header_ok [OF ok] L(2) by simp
    have e: "e \<le> sz" using chain_bound [OF L(3)] L(1) sz by simp
    have scan: "scan_segment_tail (as_slice ?m s) sz (max off 64) = scan_segment_tail ?b sz e"
      using scan_chain [OF post L(1) sz(2)] as_slice_ok [OF ok] by simp
    show ?thesis
    proof (cases "zeros_from ?b e")
      case True
      then have "find_tail root sz (?i, off) s = (Inr (?i, ?m, e), s)"
        using Some o h scan scan_clean [OF True e L(1) sz(2)]
        by (simp add: find_tail_def open_or_prepare_def path_exists_def bind_ok ret_def)
      moreover have "files_inv crc base segs cur root sz s ?i ?m e"
        using C sz Some ok L True by (simp add: files_inv_def open_seg_def)
      ultimately show ?thesis by blast
    next
      case False
      then have torn: "torn_header ?b e" using L(4) by simp
      have lo: "left_open crc s root sz ?i cur e"
        using Some L torn_tail_free [OF torn] by (simp add: left_open_def)
      obtain ino' bs pad where r: "open_segment root ?i sz s = (Inr \<lparr>mm_ino = ino', mm_len = sz\<rparr>, s)"
        "lookup_path s (segment_path root ?i) = Some ino'"
        "repair_unsealed_tail \<lparr>mm_ino = ino', mm_len = sz\<rparr> sz s = (Inr (), fs_set ino' bs s)"
        "closed_seg crc (fs_set ino' bs s) root sz ?i (cur @ pad)" "messages pad = []"
        using repair_closes [OF lo C(1)] by blast
      have ino': "ino' = ino" using r(2) Some by simp
      let ?s1 = "fs_set ino bs s"
      have d1: "fs_wf ?s1" "dir_ok ?s1 root" using C(2,3) by (simp_all add: dir_ok_def)
      obtain m s' where p: "prepare_segment root (?i + 1) sz ?s1 = (Inr m, s')" "next_ready root sz (?i + 1) m ?s1 s'"
        using prepare_next [OF sz(1,3) d1] by blast
      note ro = ready_open [OF p(2) sz(1,3)]
      have n: "as_u32 (?i + 1) = ?i + 1" using C(4) by (simp add: as_u32_def)
      have rt: "repair_tail_and_roll ?m root ?i sz s = (Inr (?i + 1), s')"
        using h r(3) p(1) n by (simp add: repair_tail_and_roll_def bind_ok ret_def Let_def ino')
      have "find_tail root sz (?i, off) s = (Inr (?i + 1, m, 64), s')"
        using Some o rt ro(1,2) scan scan_torn [OF torn L(1) sz(2)]
        by (simp add: find_tail_def open_or_prepare_def path_exists_def bind_ok ret_def)
      moreover have "files_inv crc base (segs @ [cur @ pad]) [] root sz s' (?i + 1) m 64"
      proof (rule files_inv_fresh [OF sz(1,2) d1 _ _ _ _ p(2)])
        note oth = other_segment [OF C(2) Some]
        show "closed_seg crc ?s1 root sz (base + k) ((segs @ [cur @ pad]) ! k)" if "k < length (segs @ [cur @ pad])" for k
          using that C(7) oth(3) [of "base + k"] r(4) by (cases "k = length segs") (auto simp: nth_append ino')
        show "seg_fresh (fs_data ?s1 ino1) (word_of_nat j) sz" if "?i + 1 < j" "lookup_path ?s1 (segment_path root j) = Some ino1" for j ino1
          using that C(6) seg_ino_inject [OF C(2) _ Some, of j ino1] by (auto simp: later_fresh_def)
      qed (use C(4) in simp_all)
      ultimately show ?thesis using r(5) by (fastforce simp: queue_entries_def)
    qed
  qed
qed

section \<open>The lock file\<close>

text \<open>Only the file at \<open>p\<close> may have changed, or come into being.\<close>

definition only_file :: "path \<Rightarrow> fs \<Rightarrow> fs \<Rightarrow> bool" where
  "only_file p s s' \<longleftrightarrow> fs_wf s' \<and> is_dir s' = is_dir s \<and>
     (\<forall>r. r \<noteq> p \<longrightarrow> lookup_path s' r = lookup_path s r) \<and>
     (\<forall>r j. r \<noteq> p \<longrightarrow> lookup_path s r = Some j \<longrightarrow> fs_data s' j = fs_data s j)"

lemma only_fileD: "only_file p s s' \<Longrightarrow> r \<noteq> p \<Longrightarrow> lookup_path s r = Some j \<Longrightarrow> fs_data s' j = fs_data s j"
  unfolding only_file_def by blast

lemma only_file_trans: "only_file p s t \<Longrightarrow> only_file p t u \<Longrightarrow> only_file p s u"
  by (simp add: only_file_def)

lemma only_file_frame: "only_file p s s' \<Longrightarrow> (\<And>i. p \<noteq> segment_path root i) \<Longrightarrow> seg_frame root s s'"
  by (simp add: only_file_def seg_frame_def) metis

lemma only_file_set:
  assumes "fs_wf s" "lookup_path s p = Some ino"
  shows "only_file p s (fs_set ino bs s)"
proof -
  have "j \<noteq> ino" if "lookup_path s r = Some j" "r \<noteq> p" for r j
    using fs_wf_inj [OF assms(1) that(1), of p] assms(2) that(2) by blast
  then show ?thesis using assms(1) by (simp add: only_file_def)
qed

lemma only_file_open:
  assumes "fs_wf s" "is_dir s (butlast p)"
  shows "\<exists>ino s'. open_write p False s = (Inr ino, s') \<and> lookup_path s' p = Some ino \<and> only_file p s s'"
proof (cases "lookup_path s p")
  case (Some ino)
  then show ?thesis using assms(1) by (auto simp: open_write_def only_file_def)
next
  case None
  have "j \<noteq> fs_next s" if "lookup_path s r = Some j" for r j
    using fs_wf_less [OF assms(1) that] by simp
  then show ?thesis
    using None assms fs_wf_creat [OF assms(1), of p]
    by (auto simp: open_write_def fs_creat_def only_file_def Let_def fun_upd_def)
qed

lemma write_lock_only:
  assumes "fs_wf s" "lookup_path s p = Some ino" "lock_identity proc self = Inr idt"
  shows "\<exists>s'. write_lock_record proc self ino epoch s = (Inr (), s') \<and> lookup_path s' p = Some ino \<and> only_file p s s'"
proof -
  obtain pid st where "idt = (pid, st)" by (cases idt)
  then obtain bs where "write_lock_record proc self ino epoch s = (Inr (), fs_set ino bs s)"
    using assms(3) by (simp add: write_lock_record_def set_len_def write_at_def modify_def fs_set_def)
  then show ?thesis using only_file_set [OF assms(1,2)] assms(2) by auto
qed

lemma acquire_only:
  assumes "fs_wf s" "is_dir s root" "lock_identity proc self = Inr idt"
  shows "\<exists>ino s'. wl_acquire proc self (root @ [WRITER_LOCK_FILE]) 0 ((True, al) # obs) s = (Inr ino, s') \<and>
    lookup_path s' (root @ [WRITER_LOCK_FILE]) = Some ino \<and> only_file (root @ [WRITER_LOCK_FILE]) s s'"
proof -
  let ?p = "root @ [WRITER_LOCK_FILE]"
  obtain ino s1 where o: "open_write ?p False s = (Inr ino, s1)" "lookup_path s1 ?p = Some ino" "only_file ?p s s1"
    using only_file_open [of s ?p] assms(1,2) by auto
  obtain s2 where w: "write_lock_record proc self ino 0 s1 = (Inr (), s2)" "lookup_path s2 ?p = Some ino" "only_file ?p s1 s2"
    using write_lock_only [OF _ o(2) assms(3), of 0] o(3) only_file_def [of ?p s s1] by blast
  show ?thesis
    using o w only_file_trans [OF o(3) w(3)] by (simp add: wl_acquire_def bind_ok ret_def)
qed

lemma load_index_cong:
  assumes "load_index p s = (Inr idx, s)" "lookup_path s' p = lookup_path s p"
    and "\<And>j. lookup_path s p = Some j \<Longrightarrow> fs_data s' j = fs_data s j"
  shows "load_index p s' = (Inr idx, s')"
  using assms
  by (cases "lookup_path s p")
    (auto simp: load_index_def bind_def attempt_def open_read_def ret_def read_exact_def get_def fail_def split: if_splits)

text \<open>The crash predicates speak of segment files only.\<close>

lemma crashed_frame:
  assumes "crashed crc base segs cur e root sz s" "fs_wf s'" "dir_ok s' root"
    and sf: "\<And>j. lookup_path s' (segment_path root j) = lookup_path s (segment_path root j)"
      "\<And>j ino. lookup_path s (segment_path root j) = Some ino \<Longrightarrow> fs_data s' ino = fs_data s ino"
  shows "crashed crc base segs cur e root sz s'"
    "boundary crc s' root i cur off = boundary crc s root i cur off"
    "closed_seg crc s' root sz i es = closed_seg crc s root sz i es"
proof -
  note same = same_file [OF sf]
  have "later_fresh s' root sz j = later_fresh s root sz j" for j
    using sf by (auto simp: later_fresh_def)
  then show "crashed crc base segs cur e root sz s'"
    using assms(1-3) sf(1) same by (simp add: crashed_def)
  show "boundary crc s' root i cur off = boundary crc s root i cur off"
    "closed_seg crc s' root sz i es = closed_seg crc s root sz i es" using same by auto
qed

section \<open>Recovery\<close>

lemma bind_qf_ok: "m (q_fs q) = (Inr x, s') \<Longrightarrow> bind (q_file m) f q = f x (q\<lparr>q_fs := s'\<rparr>)"
  by (simp add: bind_def q_file_def)

lemma bind_qf_modify [simp]: "bind (q_file (modify h)) f q = f () (q\<lparr>q_fs := h (q_fs q)\<rparr>)"
  by (simp add: bind_def q_file_def modify_def)

lemma gen_even_epoch [simp]:
  "cb_segment_gen (set_writer_heartbeat_ns t b) = cb_segment_gen b" "cb_segment_gen (set_writer_epoch e b) = cb_segment_gen b"
  "cb_segment_size (set_writer_heartbeat_ns t b) = cb_segment_size b" "cb_segment_size (set_writer_epoch e b) = cb_segment_size b"
  by (simp_all add: set_writer_heartbeat_ns_def set_writer_epoch_def)

lemma bind_open_control:
  "q_ctrl q = Some b \<Longrightarrow> wait_ready b = Inr () \<Longrightarrow> validate_segment_size (cb_segment_size b) = Inr sz \<Longrightarrow>
   bind (open_control config) k q = k sz q"
  by (simp add: open_control_def bind_def get_def lift_def)

lemma open_publisher_run:
  assumes "q_ctrl q = Some b" "wait_ready b = Inr ()" "validate_segment_size (cb_segment_size b) = Inr sz"
    and "cb_segment_gen b AND 1 = 0" "system_now_ns now = Inr t"
    and "wl_acquire proc self (root @ [WRITER_LOCK_FILE]) 0 locks (create_dir_all root (q_fs q)) = (Inr lock, s1)"
    and "write_lock_record proc self lock (unat (max (cb_writer_epoch b + 1) 1)) s1 = (Inr (), s2)"
    and "(i, o0) = (cb_current_segment b, cb_write_offset b)"
    and "recover_position root sz (i, o0) s2 = (Inr pos, s3)" "find_tail root sz pos s3 = (Inr (j, m, off'), s4)"
  shows "\<exists>w. open_publisher crc proc self locks now root config q = (Inr w, \<lparr>q_fs = s4, q_ctrl = Some
      (set_segment_index j off' (set_writer_heartbeat_ns t (set_writer_epoch (max (cb_writer_epoch b + 1) 1) b)))\<rparr>) \<and>
    qw_path w = root \<and> qw_config w = config \<and> qw_seq w = 0 \<and> qw_segment_size w = sz \<and> qw_segment_id w = j \<and>
    qw_mmap w = m \<and> qw_write_offset w = off'"
proof -
  obtain f where q: "q = \<lparr>q_fs = f, q_ctrl = Some b\<rparr>" using assms(1) by (cases q) auto
  let ?q = "\<lparr>q_fs = s4, q_ctrl = Some
      (set_segment_index j off' (set_writer_heartbeat_ns t (set_writer_epoch (max (cb_writer_epoch b + 1) 1) b)))\<rparr>"
  let ?m = "min_live_reader_position crc now root j off' sz (wc_retention config)"
  have ms: "bind (attempt (q_file ?m)) k ?q = k (fst (?m s4)) ?q" for k :: "nat result \<Rightarrow> (queue, queue_writer) io"
    using min_live_reader_position_state [of crc now root j off' sz "wc_retention config" s4]
    by (cases "?m s4") (simp add: attempt_def q_file_def bind_def)
  show ?thesis
    using assms(2-10) unfolding q
    by (simp add: open_publisher_def bind_qf_ok bind_open_control bind_q_block Let_def
        Control.segment_index_def trigger_preallocation_def ms)
       (simp add: ret_def)
qed


text \<open>
  A queue whose writer crashed: one record in segment 5, a half-written header behind it, the
  control block not yet told of the record, no index file.
\<close>

definition demo_crash :: queue where
  "demo_crash =
     \<lparr>q_fs = single_file (segment_filename 5) (bsplice (demo_segment (\<lambda>_. 5)) 200 [1]),
      q_ctrl = Some (cb_create 5 64 3 256)\<rparr>"

lemma demo_crash_segment:
  fixes bs defines "bs \<equiv> bsplice (demo_segment (\<lambda>_. 5)) 200 [1]"
  shows "length bs = 256" "seg_hdr bs 5 0" "chain (\<lambda>_. 5) bs 64 [Msg demo_msg] 192" "torn_header bs 192"
proof -
  note d = demo_segment_props [of "\<lambda>_. 5"]
  show len: "length bs = 256" using d(1) by (simp add: bs_def)
  show "seg_hdr bs 5 0" using d(1,2) by (simp add: bs_def seg_hdr_splice_data)
  have "take 192 bs = take 192 (demo_segment (\<lambda>_. 5))" using d(1) by (simp add: bs_def take_bsplice)
  then show "chain (\<lambda>_. 5) bs 64 [Msg demo_msg] 192"
    using chain_cong [of 192 bs "demo_segment (\<lambda>_. 5)" "\<lambda>_. 5" 64 "[Msg demo_msg]"] d(1,3) len by simp
  have "bslice bs 192 196 = bslice (demo_segment (\<lambda>_. 5)) 192 196"
    using d(1) len by (intro nth_equalityI) (auto simp: bs_def nth_bslice nth_bsplice)
  then have "load_commit_len bs 192 = 0"
    using zeros_from_commit [OF d(4), of 192] d(1) by (simp add: load_commit_len_def)
  moreover have "bslice bs 192 256 ! 8 = 1" "length (bslice bs 192 256) = 64"
    using d(1) len by (simp_all add: bs_def nth_bslice nth_bsplice)
  then have "list_ex (\<lambda>b. b \<noteq> 0) (bslice bs 192 256)"
    using nth_mem [of 8 "bslice bs 192 256"] by (auto simp: list_ex_iff intro!: bexI [of _ 1])
  ultimately show "torn_header bs 192" using len by (simp add: torn_header_def)
qed


end
