(* ===== verification/Reader.thy ===== *)
theory Reader
  imports Writer_Open
begin

text \<open>
  \<^verbatim>\<open>src/src/core/reader.rs\<close>: the queue reader. Opening at a saved or chosen position, the loop
  of \<open>next_ref\<close> over records, padding and segments, saving the position, the verdicts on the
  writer's health, and batch reading. A call sees one state of the queue; what changes between
  the loads of a call is the subject of the last section and of \<open>Wait_Protocol\<close>.
\<close>

section \<open>Data\<close>

record queue_ref =
  qr_seq :: u64
  qr_timestamp_ns :: u64
  qr_type_id :: u16
  qr_payload_offset :: nat
  qr_payload_len :: nat

datatype start_mode = ResumeStrict | ResumeSnapshot | ResumeLatest | Latest | Earliest

datatype disconnect_reason = WriterLockLost | HeartbeatStale | SegmentMissing

record writer_status =
  ws_alive :: bool
  ws_last_heartbeat_ns :: nat
  ws_ttl_ns :: nat

record queue_reader =
  rd_path :: path
  rd_mmap :: mmap_file
  rd_segment_id :: nat
  rd_read_offset :: nat
  rd_meta_path :: path
  rd_meta :: reader_meta
  rd_segment_size :: nat

type_synonym 'a rd_io = "(queue_reader \<times> queue, 'a) io"

abbreviation (input) WRITER_TTL_NS :: nat where "WRITER_TTL_NS \<equiv> 5000000000"

section \<open>Opening\<close>

text \<open>Where a reader starts: the saved position, unless the mode says otherwise or its segment is gone.\<close>

definition start_position :: "path \<Rightarrow> start_mode \<Rightarrow> control_block \<Rightarrow> reader_meta \<Rightarrow> (fs, reader_meta) io" where
  "start_position root mode b meta =
     bind (get (\<lambda>s. path_exists s (segment_path root (rm_segment_id meta)))) (\<lambda>ex.
     let should_reset = (case mode of ResumeStrict \<Rightarrow> False | ResumeSnapshot \<Rightarrow> \<not> ex | ResumeLatest \<Rightarrow> \<not> ex
                                    | Latest \<Rightarrow> True | Earliest \<Rightarrow> True)
     in if \<not> should_reset then ret meta
        else if mode = Latest \<or> mode = ResumeLatest then
          bind (lift (Control.segment_index b)) (\<lambda>(seg, off).
          ret (meta\<lparr>rm_segment_id := seg, rm_offset := off\<rparr>))
        else
          bind (attempt (find_oldest_segment root)) (\<lambda>oldest.
          case oldest of
            Inr i \<Rightarrow> ret (meta\<lparr>rm_segment_id := i, rm_offset := SEG_DATA_OFFSET\<rparr>)
          | Inl _ \<Rightarrow>
              bind (lift (Control.segment_index b)) (\<lambda>(seg, _).
              ret (meta\<lparr>rm_segment_id := seg, rm_offset := SEG_DATA_OFFSET\<rparr>))))"

definition build_reader :: "crc_fun \<Rightarrow> int \<Rightarrow> path \<Rightarrow> string \<Rightarrow> start_mode \<Rightarrow> control_block \<Rightarrow> (fs, queue_reader) io" where
  "build_reader crc now root reader mode b =
     (if reader = [] then fail (Unsupported ''reader name cannot be empty'')
      else bind (lift (validate_segment_size (cb_segment_size b))) (\<lambda>segment_size.
           bind (modify (create_dir_all (readers_dir root))) (\<lambda>_.
           let meta_path = readers_dir root @ [reader @ ''.meta''] in
           bind (load_reader_meta crc meta_path) (\<lambda>saved.
           bind (start_position root mode b saved) (\<lambda>start.
           let meta = start\<lparr>rm_offset := max (rm_offset start) SEG_DATA_OFFSET\<rparr> in
           bind (lift (system_now_ns now)) (\<lambda>now_ns.
           bind (store_reader_meta crc meta_path (meta\<lparr>rm_last_heartbeat_ns := now_ns\<rparr>)) (\<lambda>meta.
           bind (get (\<lambda>s. path_exists s (segment_path root (rm_segment_id meta)))) (\<lambda>ex.
           if \<not> ex then fail (Corrupt ''reader segment missing'')
           else bind (open_segment root (rm_segment_id meta) segment_size) (\<lambda>m.
           ret \<lparr>rd_path = root, rd_mmap = m, rd_segment_id = as_u32 (rm_segment_id meta), rd_read_offset = rm_offset meta,
                rd_meta_path = meta_path, rd_meta = meta, rd_segment_size = segment_size\<rparr>)))))))))"

definition open_subscriber :: "crc_fun \<Rightarrow> int \<Rightarrow> path \<Rightarrow> string \<Rightarrow> start_mode \<Rightarrow> (queue, queue_reader) io" where
  "open_subscriber crc now root reader mode =
     bind q_block (\<lambda>b.
     bind (lift (wait_ready b)) (\<lambda>_.
     q_file (build_reader crc now root reader mode b)))"

definition try_open_subscriber :: "crc_fun \<Rightarrow> int \<Rightarrow> path \<Rightarrow> string \<Rightarrow> start_mode \<Rightarrow> (queue, queue_reader option) io" where
  "try_open_subscriber crc now root reader mode =
     bind (get q_ctrl) (\<lambda>c.
     case c of
       None \<Rightarrow> ret None
     | Some b \<Rightarrow>
         bind (lift (check_ready b)) (\<lambda>ready.
         if \<not> ready then ret None
         else bind (q_file (build_reader crc now root reader mode b)) (\<lambda>r. ret (Some r))))"

section \<open>The writer's health\<close>

definition ttl_ns :: "nat \<Rightarrow> nat" where
  "ttl_ns ttl = (if ttl \<le> u64_max then ttl else u64_max)"

definition writer_dead_reason :: "proc_fun \<Rightarrow> int \<Rightarrow> path \<Rightarrow> nat \<Rightarrow> (queue, disconnect_reason option) io" where
  "writer_dead_reason proc now root ttl =
     bind (q_file (writer_alive proc (root @ [WRITER_LOCK_FILE]))) (\<lambda>lock_alive.
     bind q_block (\<lambda>b.
     let heartbeat = cb_writer_heartbeat_ns b in
     if lock_alive then
       (if heartbeat \<noteq> 0
        then bind (lift (system_now_ns now)) (\<lambda>now_ns.
             ret (if sat_sub64 now_ns heartbeat > ttl then Some HeartbeatStale else None))
        else ret None)
     else if heartbeat = 0 then ret (Some WriterLockLost)
     else bind (lift (system_now_ns now)) (\<lambda>now_ns.
          ret (if sat_sub64 now_ns heartbeat > ttl then Some WriterLockLost else None))))"

definition writer_dead :: "proc_fun \<Rightarrow> int \<Rightarrow> path \<Rightarrow> (queue, bool) io" where
  "writer_dead proc now root =
     bind (writer_dead_reason proc now root WRITER_TTL_NS) (\<lambda>reason. ret (reason \<noteq> None))"

definition rd_writer_status :: "proc_fun \<Rightarrow> int \<Rightarrow> nat \<Rightarrow> writer_status rd_io" where
  "rd_writer_status proc now ttl =
     bind (get fst) (\<lambda>r.
     bind (on_fs (q_file (writer_alive proc (rd_path r @ [WRITER_LOCK_FILE])))) (\<lambda>lock_alive.
     bind (on_fs q_block) (\<lambda>b.
     let heartbeat = cb_writer_heartbeat_ns b; ttl = ttl_ns ttl in
     bind (lift (system_now_ns now)) (\<lambda>now_ns.
     let heartbeat_stale = (heartbeat \<noteq> 0 \<and> sat_sub64 now_ns heartbeat > ttl) in
     ret \<lparr>ws_alive = (lock_alive \<or> (heartbeat \<noteq> 0 \<and> \<not> heartbeat_stale)),
          ws_last_heartbeat_ns = heartbeat, ws_ttl_ns = ttl\<rparr>))))"

definition detect_disconnect :: "proc_fun \<Rightarrow> int \<Rightarrow> nat \<Rightarrow> disconnect_reason option rd_io" where
  "detect_disconnect proc now ttl =
     bind (get (\<lambda>(r, q). path_exists (q_fs q) (segment_path (rd_path r) (rd_segment_id r)))) (\<lambda>ex.
     if \<not> ex then ret (Some SegmentMissing)
     else bind (get fst) (\<lambda>r. on_fs (writer_dead_reason proc now (rd_path r) (ttl_ns ttl))))"

section \<open>Moving to the next segment\<close>

text \<open>
  The control block's \<open>current_segment\<close> is a 32-bit number above the reader's when the
  increment is reached, so it does not overflow.
\<close>

text \<open>Whether the mapped segment may be left: it is sealed, or its writer is dead and it is sealed now.\<close>

definition may_leave :: "proc_fun \<Rightarrow> int \<Rightarrow> queue_reader \<Rightarrow> segment_header \<Rightarrow> (queue, bool) io" where
  "may_leave proc now r header =
     (if sh_flags header AND SEG_FLAG_SEALED = 0 then
        bind (writer_dead proc now (rd_path r)) (\<lambda>dead.
        if \<not> dead then ret False
        else bind (q_file (repair_unsealed_tail (rd_mmap r) (rd_segment_size r))) (\<lambda>_. ret True))
      else ret True)"

definition next_segment_map :: "proc_fun \<Rightarrow> int \<Rightarrow> queue_reader \<Rightarrow> (queue, mmap_file option) io" where
  "next_segment_map proc now r =
     bind q_block (\<lambda>b.
     if cb_current_segment b \<le> rd_segment_id r then ret None
     else bind (q_file (read_segment_header (rd_mmap r))) (\<lambda>header.
          bind (get (\<lambda>q. path_exists (q_fs q) (segment_path (rd_path r) (rd_segment_id r + 1)))) (\<lambda>ex.
          if \<not> ex then ret None
          else bind (may_leave proc now r header) (\<lambda>go.
               if \<not> go then ret None
               else bind (q_file (open_segment (rd_path r) (rd_segment_id r + 1) (rd_segment_size r))) (\<lambda>m. ret (Some m))))))"

definition rd_advance_segment :: "proc_fun \<Rightarrow> int \<Rightarrow> bool rd_io" where
  "rd_advance_segment proc now =
     bind (get fst) (\<lambda>r.
     bind (on_fs (next_segment_map proc now r)) (\<lambda>next.
     case next of
       None \<Rightarrow> ret False
     | Some m \<Rightarrow>
         bind (upd (\<lambda>r. r\<lparr>rd_mmap := m, rd_segment_id := rd_segment_id r + 1, rd_read_offset := SEG_DATA_OFFSET\<rparr>)) (\<lambda>_. ret True)))"

section \<open>Reading one record\<close>

definition payload_at :: "bytes \<Rightarrow> nat \<Rightarrow> nat \<Rightarrow> bytes result" where
  "payload_at bs offset len =
     (case checked_add64 offset len of
        None \<Rightarrow> Inl (Corrupt ''payload offset overflow'')
      | Some e \<Rightarrow> if e \<le> length bs then Inr (bslice bs offset e) else Inl (Corrupt ''payload out of bounds''))"

definition peek_committed :: "queue_reader \<times> queue \<Rightarrow> bool" where
  "peek_committed = (\<lambda>(r, q).
     rd_read_offset r \<le> rd_segment_size r - HEADER_SIZE \<and>
     load_commit_len (as_slice (rd_mmap r) (q_fs q)) (rd_read_offset r) > 0)"

text \<open>
  What one pass of the loop of \<open>next_ref\<close> finds at an offset: no committed record, an error (with
  the read offset it leaves), a padding record, or a message, each with the offset behind it.
\<close>

datatype found = NoRecord | Bad error nat | Padding nat | Found queue_ref nat

definition record_at :: "crc_fun \<Rightarrow> bytes \<Rightarrow> nat \<Rightarrow> nat \<Rightarrow> found" where
  "record_at crc bs segment_size offset =
     (if offset > segment_size - HEADER_SIZE then NoRecord
      else let commit = load_commit_len bs offset in
        if commit = 0 then NoRecord
        else case payload_len_from_commit commit of
               Inl e \<Rightarrow> Bad e offset
             | Inr payload_len \<Rightarrow>
                 if payload_len > MAX_PAYLOAD_LEN then Bad (Corrupt ''payload length exceeds max'') offset
                 else let rlen = record_len payload_len in
                   if offset + rlen > segment_size then Bad (Corrupt ''record length out of bounds'') offset
                   else case from_bytes (bslice bs offset (offset + HEADER_SIZE)) of
                          Inl e \<Rightarrow> Bad e offset
                        | Inr header \<Rightarrow>
                            (case checked_add64 offset rlen of
                               None \<Rightarrow> Bad (Corrupt ''read offset overflow'') offset
                             | Some after \<Rightarrow>
                                 (case payload_at bs (offset + HEADER_SIZE) payload_len of
                                    Inl e \<Rightarrow> Bad e after
                                  | Inr payload \<Rightarrow>
                                      if mh_type_id header = PAD_TYPE_ID then Padding after
                                      else case validate_crc crc header payload of
                                             Inl e \<Rightarrow> Bad e after
                                           | Inr _ \<Rightarrow> Found \<lparr>qr_seq = mh_seq header, qr_timestamp_ns = mh_timestamp_ns header,
                                               qr_type_id = mh_type_id header, qr_payload_offset = offset + HEADER_SIZE,
                                               qr_payload_len = payload_len\<rparr> after)))"

text \<open>Progress: behind a record or padding the offset is larger, and it was within the segment.\<close>

lemma record_at_after:
  "record_at crc bs sz off = Padding a \<or> record_at crc bs sz off = Found m a \<Longrightarrow> off + 64 \<le> a \<and> a \<le> sz"
proof -
  assume "record_at crc bs sz off = Padding a \<or> record_at crc bs sz off = Found m a"
  then obtain n where n: "n \<le> MAX_PAYLOAD_LEN" "off + record_len n \<le> sz" "checked_add64 off (record_len n) = Some a"
    by (auto simp: record_at_def Let_def not_less split: if_splits sum.splits option.splits)
  moreover have "64 \<le> record_len n" using record_len_bounds(1) [of n] n(1) by simp
  ultimately show ?thesis by (auto simp: checked_add64_def split: if_splits)
qed

text \<open>Only the writer stores to the control block.\<close>

definition keeps_ctrl :: "(queue, 'a) io \<Rightarrow> bool" where
  "keeps_ctrl m \<longleftrightarrow> (\<forall>q. q_ctrl (snd (m q)) = q_ctrl q)"

lemma keeps_ctrl_simps [simp]:
  "keeps_ctrl (q_file m)" "keeps_ctrl q_block" "keeps_ctrl (ret x)" "keeps_ctrl (lift y)" "keeps_ctrl (fail e)"
  by (simp_all add: keeps_ctrl_def q_file_def q_block_def ret_def lift_def fail_def split: prod.splits option.splits)

lemma keeps_ctrl_bind [intro]:
  assumes "keeps_ctrl m" "\<And>x. keeps_ctrl (f x)"
  shows "keeps_ctrl (bind m f)"
  unfolding keeps_ctrl_def
proof
  fix q
  show "q_ctrl (snd (bind m f q)) = q_ctrl q"
    using assms unfolding keeps_ctrl_def bind_def by (cases "m q") (metis (no_types, lifting) case_prod_conv snd_conv sum.case_eq_if)
qed

lemma keeps_ctrl_dead: "keeps_ctrl (writer_dead proc now root)"
  unfolding writer_dead_def writer_dead_reason_def Let_def by (intro keeps_ctrl_bind) (auto intro!: keeps_ctrl_bind)

lemma keeps_ctrl_leave: "keeps_ctrl (may_leave proc now r header)"
  unfolding may_leave_def using keeps_ctrl_dead by (auto intro!: keeps_ctrl_bind)

lemma keeps_ctrl_get [simp]: "keeps_ctrl (get f)"
  by (simp add: keeps_ctrl_def get_def)

lemma keeps_ctrl_next: "keeps_ctrl (next_segment_map proc now r)"
  unfolding next_segment_map_def using keeps_ctrl_leave by (auto intro!: keeps_ctrl_bind)

lemma rd_advance_eq:
  "rd_advance_segment proc now (r, q) =
    (case next_segment_map proc now r q of
       (Inl e, q') \<Rightarrow> (Inl e, r, q')
     | (Inr None, q') \<Rightarrow> (Inr False, r, q')
     | (Inr (Some m), q') \<Rightarrow> (Inr True, r\<lparr>rd_mmap := m, rd_segment_id := rd_segment_id r + 1, rd_read_offset := 64\<rparr>, q'))"
  by (auto simp: rd_advance_segment_def bind_on_fs ret_def bind_upd upd_apply split: prod.splits sum.splits option.splits)

text \<open>Moving on takes the reader one segment closer to the writer.\<close>

lemma rd_advance_True:
  assumes "rd_advance_segment proc now (r, q) = (Inr True, r', q')"
  shows "\<exists>b. q_ctrl q = Some b \<and> q_ctrl q' = Some b \<and> rd_segment_id r < cb_current_segment b \<and>
    rd_segment_id r' = rd_segment_id r + 1 \<and> rd_read_offset r' = 64 \<and> rd_segment_size r' = rd_segment_size r \<and> rd_path r' = rd_path r"
proof -
  obtain m where m: "next_segment_map proc now r q = (Inr (Some m), q')"
    "r' = r\<lparr>rd_mmap := m, rd_segment_id := rd_segment_id r + 1, rd_read_offset := 64\<rparr>"
    using assms by (auto simp: rd_advance_eq split: prod.splits sum.splits option.splits)
  then obtain b where b: "q_ctrl q = Some b" "rd_segment_id r < cb_current_segment b"
    by (auto simp: next_segment_map_def bind_def q_block_def ret_def split: option.splits if_splits)
  moreover have "q_ctrl q' = q_ctrl q" using keeps_ctrl_next [of proc now r] m(1) unfolding keeps_ctrl_def by (metis snd_conv)
  ultimately show ?thesis using m(2) by simp
qed

section \<open>The loop\<close>

text \<open>
  The loop ends: every pass that does not return moves on to a later segment, of which there
  are finitely many up to the writer's, or past a padding record of the same segment.
\<close>

definition rd_left :: "queue_reader \<times> queue \<Rightarrow> nat \<times> nat" where
  "rd_left = (\<lambda>(r, q). ((case q_ctrl q of Some b \<Rightarrow> cb_current_segment b - rd_segment_id r | None \<Rightarrow> 0),
     rd_segment_size r - rd_read_offset r))"

abbreviation rd_order :: "((queue_reader \<times> queue) \<times> (queue_reader \<times> queue)) set" where
  "rd_order \<equiv> inv_image (less_than <*lex*> less_than) rd_left"

lemma rd_order_advance:
  "rd_advance_segment proc now (r, q) = (Inr True, r', q') \<Longrightarrow> ((r', q'), (r, q)) \<in> rd_order"
  by (drule rd_advance_True) (auto simp: rd_left_def)

lemma rd_order_after: "off + 64 \<le> a \<Longrightarrow> a \<le> rd_segment_size r \<Longrightarrow> off = rd_read_offset r \<Longrightarrow>
  ((r\<lparr>rd_read_offset := a\<rparr>, q), (r, q)) \<in> rd_order"
  by (auto simp: rd_left_def split: option.splits)

function next_ref :: "crc_fun \<Rightarrow> proc_fun \<Rightarrow> int \<Rightarrow> queue_ref option rd_io" where
  "next_ref crc proc now (r, q) =
     (case record_at crc (as_slice (rd_mmap r) (q_fs q)) (rd_segment_size r) (rd_read_offset r) of
        NoRecord \<Rightarrow>
          (case rd_advance_segment proc now (r, q) of
             (Inl e, r', q') \<Rightarrow> (Inl e, r', q')
           | (Inr moved, r', q') \<Rightarrow> if moved then next_ref crc proc now (r', q') else (Inr None, r', q'))
      | Bad e after \<Rightarrow> (Inl e, r\<lparr>rd_read_offset := after\<rparr>, q)
      | Padding after \<Rightarrow> next_ref crc proc now (r\<lparr>rd_read_offset := after\<rparr>, q)
      | Found m after \<Rightarrow> (Inr (Some m), r\<lparr>rd_read_offset := after\<rparr>, q))"
  by pat_completeness auto

termination
proof (relation "inv_image rd_order (\<lambda>(crc, proc, now, x). x)", goal_cases)
  case 1
  show ?case by (intro wf_inv_image wf_lex_prod wf_less_than)
next
  case (2 crc proc now r q)
  then show ?case by (auto dest!: sym [of "(_, _)" "rd_advance_segment _ _ _"] dest: rd_order_advance)
next
  case (3 crc proc now r q after)
  then show ?case
    using record_at_after [of crc "as_slice (rd_mmap r) (q_fs q)" "rd_segment_size r" "rd_read_offset r" after]
      rd_order_after by auto
qed

declare next_ref.simps [simp del]

definition rd_next :: "crc_fun \<Rightarrow> proc_fun \<Rightarrow> int \<Rightarrow> message option rd_io" where
  "rd_next crc proc now =
     bind (next_ref crc proc now) (\<lambda>m.
     case m of
       None \<Rightarrow> ret None
     | Some m \<Rightarrow>
         bind (get (\<lambda>(r, q). payload_at (as_slice (rd_mmap r) (q_fs q)) (qr_payload_offset m) (qr_payload_len m))) (\<lambda>payload.
         bind (lift payload) (\<lambda>payload.
         ret (Some (new_msg (qr_seq m) (qr_timestamp_ns m) (qr_type_id m) payload)))))"

fun drain_available :: "crc_fun \<Rightarrow> proc_fun \<Rightarrow> int \<Rightarrow> nat \<Rightarrow> message list \<Rightarrow> message list rd_io" where
  "drain_available crc proc now 0 msgs = ret msgs"
| "drain_available crc proc now (Suc lim) msgs =
     bind (rd_next crc proc now) (\<lambda>m.
     case m of None \<Rightarrow> ret msgs | Some m \<Rightarrow> drain_available crc proc now lim (msgs @ [m]))"

text \<open>The callback of \<open>for_each_available\<close> has a state of its own; it returns whether to go on.\<close>

fun for_each_available :: "crc_fun \<Rightarrow> proc_fun \<Rightarrow> int \<Rightarrow> nat \<Rightarrow> ('a \<Rightarrow> message \<Rightarrow> bool \<times> 'a) \<Rightarrow> 'a \<Rightarrow> nat \<Rightarrow> (nat \<times> 'a) rd_io" where
  "for_each_available crc proc now 0 f a count = ret (count, a)"
| "for_each_available crc proc now (Suc lim) f a count =
     bind (rd_next crc proc now) (\<lambda>m.
     case m of
       None \<Rightarrow> ret (count, a)
     | Some m \<Rightarrow> (case f a m of (go, a') \<Rightarrow>
                   if \<not> go then ret (count, a') else for_each_available crc proc now lim f a' (count + 1)))"

section \<open>Saving the position\<close>

definition rd_commit :: "crc_fun \<Rightarrow> int \<Rightarrow> unit rd_io" where
  "rd_commit crc now =
     bind (upd (\<lambda>r. r\<lparr>rd_meta := (rd_meta r)\<lparr>rm_segment_id := rd_segment_id r, rm_offset := rd_read_offset r\<rparr>\<rparr>)) (\<lambda>_.
     bind (lift (system_now_ns now)) (\<lambda>now_ns.
     bind (upd (\<lambda>r. r\<lparr>rd_meta := (rd_meta r)\<lparr>rm_last_heartbeat_ns := now_ns\<rparr>\<rparr>)) (\<lambda>_.
     bind (get fst) (\<lambda>r.
     bind (on_fs (q_file (store_reader_meta crc (rd_meta_path r) (rd_meta r)))) (\<lambda>meta.
     upd (\<lambda>r. r\<lparr>rd_meta := meta\<rparr>))))))"

definition maybe_heartbeat :: "crc_fun \<Rightarrow> int \<Rightarrow> unit rd_io" where
  "maybe_heartbeat crc now =
     bind (lift (system_now_ns now)) (\<lambda>now_ns.
     bind (get fst) (\<lambda>r.
     if sat_sub64 now_ns (rm_last_heartbeat_ns (rd_meta r)) > 1000000000
     then bind (on_fs (q_file (store_reader_meta crc (rd_meta_path r) ((rd_meta r)\<lparr>rm_last_heartbeat_ns := now_ns\<rparr>)))) (\<lambda>meta.
          upd (\<lambda>r. r\<lparr>rd_meta := meta\<rparr>))
     else ret ()))"

end
