(* ===== verification/Reader_Queue.thy ===== *)
theory Reader_Queue
  imports Reader "HOL-Library.Sublist"
begin

text \<open>
  What the reader of \<^verbatim>\<open>src/src/core/reader.rs\<close> does on a queue that a writer maintains: every
  call returns the next message that has not been returned, across padding and rolls, appends
  only add to what is pending, and a saved position is where a reopened reader goes on.
\<close>

section \<open>The reader in the queue\<close>

definition queue_holds :: "crc_fun \<Rightarrow> nat \<Rightarrow> entry list list \<Rightarrow> entry list \<Rightarrow> path \<Rightarrow> nat \<Rightarrow> queue \<Rightarrow> bool" where
  "queue_holds crc base segs cur root sz q \<longleftrightarrow>
     (\<exists>i m off. files_inv crc base segs cur root sz (q_fs q) i m off \<and> ctrl_at q i off sz)"

lemma qw_inv_holds: "qw_inv crc base segs cur (w, q) \<Longrightarrow> queue_holds crc base segs cur (qw_path w) (qw_segment_size w) q"
  by (auto simp: qw_inv_files queue_holds_def)

text \<open>What a reader finds in the \<open>k\<close>-th segment of a queue.\<close>

lemma holds_segment:
  assumes "queue_holds crc base segs cur root sz q" "k \<le> length segs"
  shows "\<exists>ino fl e. lookup_path (q_fs q) (segment_path root (base + k)) = Some ino \<and> length (fs_data (q_fs q) ino) = sz \<and>
    sz + 64 \<le> u64_max \<and> 128 \<le> sz \<and> seg_hdr (fs_data (q_fs q) ino) (word_of_nat (base + k)) fl \<and> (k < length segs \<longrightarrow> sealed fl) \<and>
    chain crc (fs_data (q_fs q) ino) 64 ((segs @ [cur]) ! k) e \<and> tail_free (fs_data (q_fs q) ino) e"
proof -
  obtain i m off where F: "files_inv crc base segs cur root sz (q_fs q) i m off" using assms(1) by (auto simp: queue_holds_def)
  then have z: "128 \<le> sz" "sz + 64 \<le> u64_max" "base + length segs = i" by (simp_all add: files_inv_def)
  show ?thesis
  proof (cases "k = length segs")
    case True
    have "open_seg crc (q_fs q) root sz i m cur off" using F by (simp add: files_inv_def)
    then show ?thesis
      using True z zeros_tail_free by (auto simp: open_seg_def mm_ok_def)
  next
    case False
    then have k: "k < length segs" using assms(2) by simp
    then have "closed_seg crc (q_fs q) root sz (base + k) (segs ! k)" using F by (simp add: files_inv_def)
    then show ?thesis using k z by (fastforce simp: closed_seg_def seg_image_def nth_append)
  qed
qed

lemma holds_current:
  assumes "queue_holds crc base segs cur root sz q"
  shows "\<exists>b. q_ctrl q = Some b \<and> cb_current_segment b = base + length segs"
  using assms by (auto simp: queue_holds_def files_inv_def ctrl_at_def)

text \<open>The reader stands in segment \<open>k\<close> behind the entries \<open>pre\<close>.\<close>

definition rd_at :: "crc_fun \<Rightarrow> nat \<Rightarrow> entry list list \<Rightarrow> entry list \<Rightarrow> nat \<Rightarrow> entry list \<Rightarrow> queue_reader \<times> queue \<Rightarrow> bool" where
  "rd_at crc base segs cur k pre = (\<lambda>(r, q).
     queue_holds crc base segs cur (rd_path r) (rd_segment_size r) q \<and> k \<le> length segs \<and> rd_segment_id r = base + k \<and>
     rd_read_offset r = 64 + entries_len pre \<and> prefix pre ((segs @ [cur]) ! k) \<and>
     lookup_path (q_fs q) (segment_path (rd_path r) (base + k)) = Some (mm_ino (rd_mmap r)) \<and>
     mm_len (rd_mmap r) = rd_segment_size r)"

text \<open>What it has still to return. Entries of the padding type are skipped, so no message may have that type.\<close>

definition rd_rest :: "entry list list \<Rightarrow> entry list \<Rightarrow> nat \<Rightarrow> entry list \<Rightarrow> entry list" where
  "rd_rest segs cur k pre = drop (length pre) ((segs @ [cur]) ! k) @ concat (drop (Suc k) (segs @ [cur]))"

definition rd_pending :: "crc_fun \<Rightarrow> nat \<Rightarrow> entry list list \<Rightarrow> entry list \<Rightarrow> queue_reader \<times> queue \<Rightarrow> message list \<Rightarrow> bool" where
  "rd_pending crc base segs cur x ms \<longleftrightarrow>
     (\<exists>k pre. rd_at crc base segs cur k pre x \<and> messages (rd_rest segs cur k pre) = ms) \<and>
     (\<forall>m \<in> set ms. msg_type_id m \<noteq> PAD_TYPE_ID)"

lemma rd_at_bytes:
  assumes "rd_at crc base segs cur k pre (r, q)"
  shows "\<exists>bs fl e. as_slice (rd_mmap r) (q_fs q) = bs \<and> length bs = rd_segment_size r \<and> rd_segment_size r + 64 \<le> u64_max \<and>
    128 \<le> rd_segment_size r \<and> mm_ok (rd_mmap r) (q_fs q) \<and> bs = fs_data (q_fs q) (mm_ino (rd_mmap r)) \<and>
    seg_hdr bs (word_of_nat (base + k)) fl \<and> (k < length segs \<longrightarrow> sealed fl) \<and>
    chain crc bs (rd_read_offset r) (drop (length pre) ((segs @ [cur]) ! k)) e \<and> tail_free bs e"
proof -
  let ?es = "(segs @ [cur]) ! k"
  obtain rest where rest: "?es = pre @ rest" using assms by (auto simp: rd_at_def prefix_def)
  obtain ino fl e where g: "lookup_path (q_fs q) (segment_path (rd_path r) (base + k)) = Some ino"
    "length (fs_data (q_fs q) ino) = rd_segment_size r" "rd_segment_size r + 64 \<le> u64_max" "128 \<le> rd_segment_size r"
    "seg_hdr (fs_data (q_fs q) ino) (word_of_nat (base + k)) fl" "k < length segs \<longrightarrow> sealed fl"
    "chain crc (fs_data (q_fs q) ino) 64 ?es e" "tail_free (fs_data (q_fs q) ino) e"
    using holds_segment [of crc base segs cur "rd_path r" "rd_segment_size r" q k] assms by (auto simp: rd_at_def)
  have ino: "ino = mm_ino (rd_mmap r)" and len: "mm_len (rd_mmap r) = rd_segment_size r"
    using g(1) assms by (auto simp: rd_at_def)
  then have ok: "mm_ok (rd_mmap r) (q_fs q)" using g(2,3) by (simp add: mm_ok_def)
  obtain a where "chain crc (fs_data (q_fs q) ino) 64 pre a" "chain crc (fs_data (q_fs q) ino) a rest e"
    using g(7) rest by (auto simp: chain_append)
  then have "chain crc (fs_data (q_fs q) ino) (rd_read_offset r) rest e"
    using chain_end assms by (fastforce simp: rd_at_def)
  then show ?thesis using g ok ino as_slice_ok [OF ok] rest by auto
qed

lemma record_at_msg:
  assumes "entry_at crc bs off (Msg m)" "length bs = sz" "sz + 64 \<le> u64_max" "msg_type_id m \<noteq> PAD_TYPE_ID"
  shows "record_at crc bs sz off = Found \<lparr>qr_seq = msg_seq m, qr_timestamp_ns = msg_timestamp_ns m, qr_type_id = msg_type_id m,
      qr_payload_offset = off + 64, qr_payload_len = length (msg_payload m)\<rparr> (off + entry_len (Msg m))"
    "payload_at bs (off + 64) (length (msg_payload m)) = Inr (msg_payload m)"
proof -
  let ?n = "length (msg_payload m)"
  have n: "?n \<le> MAX_PAYLOAD_LEN" "off + entry_len (Msg m) \<le> sz" "bslice bs (off + 64) (off + 64 + ?n) = msg_payload m"
    using assms(1,2) by (simp_all add: entry_at_def)
  have b: "64 \<le> entry_len (Msg m)" "64 + ?n \<le> entry_len (Msg m)" using entry_len_bounds [of "Msg m"] n(1) by simp_all
  show pl: "payload_at bs (off + 64) ?n = Inr (msg_payload m)"
    using n b assms(2,3) by (simp add: payload_at_def checked_add64_def)
  have c: "load_commit_len bs off = word_of_nat (Suc ?n)" using entry_at_commit [OF assms(1)] by simp
  show "record_at crc bs sz off = Found \<lparr>qr_seq = msg_seq m, qr_timestamp_ns = msg_timestamp_ns m, qr_type_id = msg_type_id m,
      qr_payload_offset = off + 64, qr_payload_len = ?n\<rparr> (off + entry_len (Msg m))"
    using n b c commit_of_payload [of ?n] entry_at_header [OF assms(1)] pl assms(3,4)
    by (simp add: record_at_def Let_def checked_add64_def entry_len_def msg_header_def new_uncommitted_def validate_crc_def)
qed

lemma record_at_pad:
  assumes "entry_at crc bs off (Pad n)" "length bs = sz" "sz + 64 \<le> u64_max"
  shows "record_at crc bs sz off = Padding (off + entry_len (Pad n))"
proof -
  have n: "n \<le> MAX_PAYLOAD_LEN" "off + entry_len (Pad n) \<le> sz"
    using assms(1,2) by (simp_all add: entry_at_def)
  have b: "64 \<le> entry_len (Pad n)" "64 + n \<le> entry_len (Pad n)" using entry_len_bounds [of "Pad n"] n(1) by simp_all
  have "payload_at bs (off + 64) n = Inr (bslice bs (off + 64) (off + 64 + n))"
    using n b assms(2,3) by (simp add: payload_at_def checked_add64_def)
  moreover have "load_commit_len bs off = word_of_nat (Suc n)" using entry_at_commit [OF assms(1)] by simp
  ultimately show ?thesis
    using n b commit_of_payload [of n] entry_at_header [OF assms(1)] assms(3)
    by (simp add: record_at_def Let_def checked_add64_def entry_len_def pad_header_def new_uncommitted_def)
qed

lemma record_at_end:
  "tail_free bs e \<Longrightarrow> length bs = sz \<Longrightarrow> 128 \<le> sz \<Longrightarrow> record_at crc bs sz e = NoRecord"
  by (auto simp: record_at_def tail_free_def)

lemma rd_at_step:
  assumes "rd_at crc base segs cur k pre (r, q)" "drop (length pre) ((segs @ [cur]) ! k) = x # xs"
  shows "rd_at crc base segs cur k (pre @ [x]) (r\<lparr>rd_read_offset := rd_read_offset r + entry_len x\<rparr>, q)"
    "rd_rest segs cur k pre = x # rd_rest segs cur k (pre @ [x])"
proof -
  have xs: "(segs @ [cur]) ! k = pre @ x # xs"
    using assms by (auto simp: rd_at_def prefix_def)
  show "rd_at crc base segs cur k (pre @ [x]) (r\<lparr>rd_read_offset := rd_read_offset r + entry_len x\<rparr>, q)"
    using assms(1) xs by (simp add: rd_at_def prefix_def)
  show "rd_rest segs cur k pre = x # rd_rest segs cur k (pre @ [x])"
    using xs by (simp add: rd_rest_def)
qed

lemma rd_rest_next:
  assumes "drop (length pre) ((segs @ [cur]) ! k) = []" "k < length segs"
  shows "rd_rest segs cur k pre = rd_rest segs cur (Suc k) []"
proof -
  have "drop (Suc k) (segs @ [cur]) = (segs @ [cur]) ! Suc k # drop (Suc (Suc k)) (segs @ [cur])"
    using assms(2) by (intro Cons_nth_drop_Suc [symmetric]) simp
  then show ?thesis using assms by (simp add: rd_rest_def del: drop_append)
qed

text \<open>Reading moves the position only.\<close>

definition same_reader :: "queue_reader \<Rightarrow> queue_reader \<Rightarrow> bool" where
  "same_reader r r' \<longleftrightarrow> rd_path r' = rd_path r \<and> rd_segment_size r' = rd_segment_size r \<and> rd_meta_path r' = rd_meta_path r \<and> rd_meta r' = rd_meta r"

lemma same_reader_refl [simp]: "same_reader r r" "same_reader r (r\<lparr>rd_read_offset := off\<rparr>)"
  by (simp_all add: same_reader_def)

lemma same_reader_offset [simp]: "same_reader (r\<lparr>rd_read_offset := off\<rparr>) r' = same_reader r r'"
  by (simp add: same_reader_def)

lemma same_reader_trans: "same_reader r r' \<Longrightarrow> same_reader r' r'' \<Longrightarrow> same_reader r r''"
  by (simp add: same_reader_def)

lemma rd_advance_ok:
  assumes "rd_at crc base segs cur k pre (r, q)" "k < length segs"
  shows "\<exists>r'. rd_advance_segment proc now (r, q) = (Inr True, r', q) \<and> rd_at crc base segs cur (Suc k) [] (r', q) \<and> same_reader r r'"
proof -
  have H: "queue_holds crc base segs cur (rd_path r) (rd_segment_size r) q" and id: "rd_segment_id r = base + k"
    using assms by (simp_all add: rd_at_def)
  obtain b where b: "q_ctrl q = Some b" "cb_current_segment b = base + length segs" using holds_current [OF H] by blast
  obtain fl where h: "mm_ok (rd_mmap r) (q_fs q)" "seg_hdr (fs_data (q_fs q) (mm_ino (rd_mmap r))) (word_of_nat (base + k)) fl" "sealed fl"
    using rd_at_bytes [OF assms(1)] assms(2) by auto
  obtain ino fl' where n: "lookup_path (q_fs q) (segment_path (rd_path r) (base + Suc k)) = Some ino" "length (fs_data (q_fs q) ino) = rd_segment_size r"
    "rd_segment_size r + 64 \<le> u64_max" "seg_hdr (fs_data (q_fs q) ino) (word_of_nat (base + Suc k)) fl'"
    using holds_segment [OF H, of "Suc k"] assms(2) by auto
  have "open_segment (rd_path r) (base + Suc k) (rd_segment_size r) (q_fs q) = (Inr \<lparr>mm_ino = ino, mm_len = rd_segment_size r\<rparr>, q_fs q)"
    using open_segment_ok [OF n(1,2) _ n(4)] n(3) by simp
  then have "next_segment_map proc now r q = (Inr (Some \<lparr>mm_ino = ino, mm_len = rd_segment_size r\<rparr>), q)"
    using b assms(2) id h n(1) read_segment_header_ok [OF h(1,2)]
    by (simp add: next_segment_map_def bind_q_block bind_qf_ok path_exists_def may_leave_def ret_def)
  then show ?thesis
    using assms n(1) by (simp add: rd_advance_eq rd_at_def same_reader_def)
qed

lemma rd_advance_last:
  assumes "rd_at crc base segs cur (length segs) pre (r, q)"
  shows "rd_advance_segment proc now (r, q) = (Inr False, r, q)"
proof -
  obtain b where "q_ctrl q = Some b" "cb_current_segment b = rd_segment_id r"
    using holds_current [of crc base segs cur "rd_path r" "rd_segment_size r" q] assms by (auto simp: rd_at_def)
  then show ?thesis by (simp add: rd_advance_eq next_segment_map_def bind_q_block ret_def)
qed

text \<open>One call: the next message, or none when all have been returned. The queue does not change.\<close>

definition ref_to :: "queue_reader \<times> queue \<Rightarrow> queue_ref \<Rightarrow> message \<Rightarrow> bool" where
  "ref_to = (\<lambda>(r, q) x m. qr_seq x = msg_seq m \<and> qr_timestamp_ns x = msg_timestamp_ns m \<and> qr_type_id x = msg_type_id m \<and>
     payload_at (as_slice (rd_mmap r) (q_fs q)) (qr_payload_offset x) (qr_payload_len x) = Inr (msg_payload m))"

lemma next_ref_at:
  assumes "rd_at crc base segs cur k pre (r, q)" "messages (rd_rest segs cur k pre) = ms"
    "\<forall>m \<in> set ms. msg_type_id m \<noteq> PAD_TYPE_ID"
  shows "case ms of
      [] \<Rightarrow> \<exists>r'. next_ref crc proc now (r, q) = (Inr None, r', q) \<and> rd_at crc base segs cur (length segs) cur (r', q) \<and> same_reader r r'
    | m # ms' \<Rightarrow> \<exists>x r' k' pre'. next_ref crc proc now (r, q) = (Inr (Some x), r', q) \<and> ref_to (r', q) x m \<and>
        rd_at crc base segs cur k' pre' (r', q) \<and> messages (rd_rest segs cur k' pre') = ms' \<and> same_reader r r' \<and>
        (\<exists>pre0. rd_at crc base segs cur k' pre0 (r'\<lparr>rd_read_offset := qr_payload_offset x - 64\<rparr>, q) \<and> messages (rd_rest segs cur k' pre0) = m # ms')"
  using assms
proof (induction "rd_left (r, q)" arbitrary: r k pre rule: wf_induct_rule [OF wf_lex_prod [OF wf_less_than wf_less_than]])
  case (1 r k pre)
  let ?rest = "drop (length pre) ((segs @ [cur]) ! k)"
  obtain e where B: "length (as_slice (rd_mmap r) (q_fs q)) = rd_segment_size r" "rd_segment_size r + 64 \<le> u64_max" "128 \<le> rd_segment_size r"
    "chain crc (as_slice (rd_mmap r) (q_fs q)) (rd_read_offset r) ?rest e" "tail_free (as_slice (rd_mmap r) (q_fs q)) e"
    using rd_at_bytes [OF 1(2)] by auto
  show ?case
  proof (cases ?rest)
    case Nil
    then have nr: "record_at crc (as_slice (rd_mmap r) (q_fs q)) (rd_segment_size r) (rd_read_offset r) = NoRecord"
      using record_at_end [OF B(5)] B by simp
    show ?thesis
    proof (cases "k < length segs")
      case True
      obtain r' where r': "rd_advance_segment proc now (r, q) = (Inr True, r', q)" "rd_at crc base segs cur (Suc k) [] (r', q)" "same_reader r r'"
        using rd_advance_ok [OF 1(2) True] by blast
      have "(rd_left (r', q), rd_left (r, q)) \<in> less_than <*lex*> less_than"
        using rd_order_advance [OF r'(1)] by simp
      moreover have "next_ref crc proc now (r, q) = next_ref crc proc now (r', q)"
        using nr r'(1) by (simp add: next_ref.simps [of crc proc now r q])
      ultimately show ?thesis using 1(1) [OF _ r'(2)] 1(3,4) rd_rest_next [OF Nil True] same_reader_trans [OF r'(3)]
        by (cases ms) (simp_all, blast+)
    next
      case False
      then have k: "k = length segs" using 1(2) by (simp add: rd_at_def)
      then have "pre = cur" "ms = []" using 1(2,3) Nil by (auto simp: rd_at_def prefix_def rd_rest_def)
      then show ?thesis using k nr rd_advance_last 1(2) by (simp add: next_ref.simps [of crc proc now r q])
    qed
  next
    case (Cons x xs)
    note st = rd_at_step [OF 1(2) Cons]
    show ?thesis
    proof (cases x)
      case (Msg m)
      let ?x = "\<lparr>qr_seq = msg_seq m, qr_timestamp_ns = msg_timestamp_ns m, qr_type_id = msg_type_id m,
        qr_payload_offset = rd_read_offset r + 64, qr_payload_len = length (msg_payload m)\<rparr>"
      have ms: "ms = m # messages (rd_rest segs cur k (pre @ [x]))" using 1(3) st(2) Msg by simp
      note f = record_at_msg [of crc "as_slice (rd_mmap r) (q_fs q)" "rd_read_offset r" m "rd_segment_size r"]
      have "entry_at crc (as_slice (rd_mmap r) (q_fs q)) (rd_read_offset r) (Msg m)" using B(4) Cons Msg by simp
      then have g: "record_at crc (as_slice (rd_mmap r) (q_fs q)) (rd_segment_size r) (rd_read_offset r) = Found ?x (rd_read_offset r + entry_len x)"
        "payload_at (as_slice (rd_mmap r) (q_fs q)) (rd_read_offset r + 64) (length (msg_payload m)) = Inr (msg_payload m)"
        using f B 1(4) ms Msg by auto
      let ?r = "r\<lparr>rd_read_offset := rd_read_offset r + entry_len x\<rparr>"
      have undo: "?r\<lparr>rd_read_offset := qr_payload_offset ?x - 64\<rparr> = r" by simp
      have "next_ref crc proc now (r, q) = (Inr (Some ?x), ?r, q)" using g by (simp add: next_ref.simps [of crc proc now r q])
      moreover have "ref_to (?r, q) ?x m" using g by (simp add: ref_to_def)
      moreover have "\<exists>pre0. rd_at crc base segs cur k pre0 (?r\<lparr>rd_read_offset := qr_payload_offset ?x - 64\<rparr>, q) \<and>
          messages (rd_rest segs cur k pre0) = m # messages (rd_rest segs cur k (pre @ [x]))"
        using 1(2,3) ms unfolding undo by auto
      ultimately show ?thesis using ms st(1) by (simp only: list.case) (metis same_reader_refl(2))
    next
      case (Pad n)
      have ra: "record_at crc (as_slice (rd_mmap r) (q_fs q)) (rd_segment_size r) (rd_read_offset r) = Padding (rd_read_offset r + entry_len (Pad n))"
        using record_at_pad B Cons Pad by simp
      have "(rd_left (r\<lparr>rd_read_offset := rd_read_offset r + entry_len x\<rparr>, q), rd_left (r, q)) \<in> less_than <*lex*> less_than"
        using rd_order_after [of "rd_read_offset r" "rd_read_offset r + entry_len (Pad n)" r q] record_at_after [OF disjI1 [OF ra]] Pad by simp
      then show ?thesis
        using 1(1) [OF _ st(1)] 1(3,4) st(2) Pad ra by (cases ms) (simp_all add: next_ref.simps [of crc proc now r q])
    qed
  qed
qed

lemma rd_next_pending:
  assumes "rd_pending crc base segs cur (r, q) ms"
  shows "case ms of
      [] \<Rightarrow> \<exists>r'. rd_next crc proc now (r, q) = (Inr None, r', q) \<and> rd_pending crc base segs cur (r', q) [] \<and> same_reader r r'
    | m # ms' \<Rightarrow> \<exists>r'. rd_next crc proc now (r, q) = (Inr (Some m), r', q) \<and>
        rd_pending crc base segs cur (r', q) ms' \<and> same_reader r r'"
proof -
  obtain k pre where a: "rd_at crc base segs cur k pre (r, q)" "messages (rd_rest segs cur k pre) = ms" "\<forall>m \<in> set ms. msg_type_id m \<noteq> PAD_TYPE_ID"
    using assms by (auto simp: rd_pending_def)
  note n = next_ref_at [OF a, of proc now]
  show ?thesis
  proof (cases ms)
    case Nil
    then obtain r' where "next_ref crc proc now (r, q) = (Inr None, r', q)" "rd_at crc base segs cur (length segs) cur (r', q)" "same_reader r r'"
      using n by auto
    moreover from this have "messages (rd_rest segs cur (length segs) cur) = []" by (simp add: rd_rest_def)
    ultimately show ?thesis using Nil by (auto simp: rd_next_def bind_ok ret_def rd_pending_def)
  next
    case (Cons m ms')
    then obtain x r' k' pre' where "next_ref crc proc now (r, q) = (Inr (Some x), r', q)" "ref_to (r', q) x m"
      "rd_at crc base segs cur k' pre' (r', q)" "messages (rd_rest segs cur k' pre') = ms'" "same_reader r r'"
      using n by auto
    then show ?thesis
      using Cons a(3) by (auto simp: rd_next_def bind_ok ret_def rd_pending_def ref_to_def)
  qed
qed

interpretation queue_src: record_source "rd_pending crc base segs cur" "rd_next crc proc now" for crc base segs cur proc now
proof (unfold_locales, goal_cases)
  case (1 x)
  then show ?case using rd_next_pending [of crc base segs cur "fst x" "snd x" "[]" proc now] by auto
next
  case (2 x m ms)
  then show ?case using rd_next_pending [of crc base segs cur "fst x" "snd x" "m # ms" proc now] by auto
qed

lemma drain_pending:
  assumes "rd_pending crc base segs cur (r, q) ms"
  shows "\<exists>r'. drain_available crc proc now n acc (r, q) = (Inr (acc @ take n ms), r', q) \<and> rd_pending crc base segs cur (r', q) (drop n ms) \<and>
    same_reader r r'"
  using assms
proof (induction n arbitrary: r ms acc)
  case 0
  then show ?case by (auto simp: ret_def)
next
  case (Suc n)
  show ?case
  proof (cases ms)
    case Nil
    then obtain r' where "rd_next crc proc now (r, q) = (Inr None, r', q)" "rd_pending crc base segs cur (r', q) []" "same_reader r r'"
      using rd_next_pending [OF Suc.prems, of proc now] by auto
    then show ?thesis using Nil by (simp add: bind_ok ret_def)
  next
    case (Cons m ms')
    then obtain r' where r': "rd_next crc proc now (r, q) = (Inr (Some m), r', q)" "rd_pending crc base segs cur (r', q) ms'" "same_reader r r'"
      using rd_next_pending [OF Suc.prems, of proc now] by auto
    then show ?thesis using Suc.IH [OF r'(2), of "acc @ [m]"] Cons same_reader_trans [OF r'(3)] by (auto simp: bind_ok)
  qed
qed

section \<open>Appends seen by a reader\<close>

lemma rd_rest_grows:
  assumes "grows segs cur x segs' cur'" "k \<le> length segs" "prefix pre ((segs @ [cur]) ! k)"
  shows "rd_rest segs' cur' k pre = rd_rest segs cur k pre @ [x]" "prefix pre ((segs' @ [cur']) ! k)"
  using assms by (auto simp: grows_def rd_rest_def nth_append prefix_def)

lemma rd_pending_grows:
  assumes "rd_pending crc base segs cur (r, q) ms" "qw_inv crc base segs' cur' (w, q')" "grows segs cur (Msg m) segs' cur'"
    and "rd_path r = qw_path w" "rd_segment_size r = qw_segment_size w" "same_names (qw_path w) (base + length segs) q q'"
    and "msg_type_id m \<noteq> PAD_TYPE_ID"
  shows "rd_pending crc base segs' cur' (r, q') (ms @ [m])"
proof -
  obtain k pre where a: "rd_at crc base segs cur k pre (r, q)" "messages (rd_rest segs cur k pre) = ms" "\<forall>m \<in> set ms. msg_type_id m \<noteq> PAD_TYPE_ID"
    using assms(1) by (auto simp: rd_pending_def)
  have k: "k \<le> length segs" "prefix pre ((segs @ [cur]) ! k)" using a(1) by (simp_all add: rd_at_def)
  have "length segs \<le> length segs'" using assms(3) by (auto simp: grows_def)
  then have "rd_at crc base segs' cur' k pre (r, q')"
    using a(1) k rd_rest_grows(2) [OF assms(3) k] qw_inv_holds [OF assms(2)] assms(4-6) by (simp add: rd_at_def same_names_def)
  then show ?thesis
    using a(2,3) rd_rest_grows(1) [OF assms(3) k] assms(7) unfolding rd_pending_def by (auto intro!: exI [of _ k] exI [of _ pre])
qed

section \<open>A writer and a reader\<close>

text \<open>One writer and one reader of the queue take turns, in any order.\<close>

datatype rw_action = Append wr_env u16 u64 bytes | Next int

fun rw_do :: "crc_fun \<Rightarrow> proc_fun \<Rightarrow> rw_action \<Rightarrow> (queue_writer \<times> queue_reader \<times> queue, message option list) io" where
  "rw_do crc proc (Append env t ts p) (w, r, q) =
     (case append_with_timestamp crc env t p ts (w, q) of
        (Inl e, w', q') \<Rightarrow> (Inl e, w', r, q')
      | (Inr _, w', q') \<Rightarrow> (Inr [], w', r, q'))"
| "rw_do crc proc (Next now) (w, r, q) =
     (case rd_next crc proc now (r, q) of
        (Inl e, r', q') \<Rightarrow> (Inl e, w, r', q')
      | (Inr m, r', q') \<Rightarrow> (Inr [m], w, r', q'))"

fun rw_run :: "crc_fun \<Rightarrow> proc_fun \<Rightarrow> rw_action list \<Rightarrow> (queue_writer \<times> queue_reader \<times> queue, message option list) io" where
  "rw_run crc proc [] = ret []"
| "rw_run crc proc (a # as) = bind (rw_do crc proc a) (\<lambda>xs. bind (rw_run crc proc as) (\<lambda>ys. ret (xs @ ys)))"

text \<open>What it means to implement: a first-in first-out queue of the messages not yet read, with the next sequence number.\<close>

fun fifo_do :: "rw_action \<Rightarrow> u64 \<times> message list \<Rightarrow> message option list \<times> u64 \<times> message list" where
  "fifo_do (Append env t ts p) (n, ms) = ([], n + 1, ms @ [new_msg n ts t p])"
| "fifo_do (Next now) (n, []) = ([None], n, [])"
| "fifo_do (Next now) (n, m # ms) = ([Some m], n, ms)"

fun fifo_run :: "rw_action list \<Rightarrow> u64 \<times> message list \<Rightarrow> message option list \<times> u64 \<times> message list" where
  "fifo_run [] x = ([], x)"
| "fifo_run (a # as) x = (case fifo_do a x of (xs, x') \<Rightarrow> case fifo_run as x' of (ys, x'') \<Rightarrow> (xs @ ys, x''))"

definition rw_sim :: "crc_fun \<Rightarrow> nat \<Rightarrow> writer_config \<Rightarrow> nat \<Rightarrow> nat \<Rightarrow> queue_writer \<times> queue_reader \<times> queue \<Rightarrow> u64 \<times> message list \<Rightarrow> bool" where
  "rw_sim crc base config sz room = (\<lambda>(w, r, q) (n, ms). \<exists>segs cur. qw_inv crc base segs cur (w, q) \<and> rd_pending crc base segs cur (r, q) ms \<and>
     rd_path r = qw_path w \<and> rd_segment_size r = sz \<and> qw_segment_size w = sz \<and> qw_config w = config \<and> qw_seq w = n \<and>
     qw_segment_id w + room < u32_max)"

text \<open>An append that the writer takes: no limits, no preallocated segment, the record fits, and it is not of the padding type.\<close>

fun action_ok :: "writer_config \<Rightarrow> nat \<Rightarrow> rw_action \<Rightarrow> bool" where
  "action_ok config sz (Append env t ts p) \<longleftrightarrow> queue_accepts config sz (env, t, ts, p) \<and> t \<noteq> PAD_TYPE_ID"
| "action_ok config sz (Next now) \<longleftrightarrow> True"

lemma rw_do_sim:
  assumes "rw_sim crc base config sz (Suc room) x f" "action_ok config sz a"
  shows "\<exists>x'. rw_do crc proc a x = (Inr (fst (fifo_do a f)), x') \<and> rw_sim crc base config sz room x' (snd (fifo_do a f))"
proof -
  obtain w r q n ms where x: "x = (w, r, q)" "f = (n, ms)" by (metis prod_cases3 surj_pair)
  then obtain segs cur where S: "qw_inv crc base segs cur (w, q)" "rd_pending crc base segs cur (r, q) ms"
    "rd_path r = qw_path w" "rd_segment_size r = sz" "qw_segment_size w = sz" "qw_config w = config" "qw_seq w = n" "qw_segment_id w + Suc room < u32_max"
    using assms(1) by (auto simp: rw_sim_def)
  show ?thesis
  proof (cases a)
    case (Append env t ts p)
    obtain w' q' segs' cur' where A: "append_with_timestamp crc env t p ts (w, q) = (Inr (), w', q')" "qw_inv crc base segs' cur' (w', q')"
      "same_writer w w'" "qw_seq w' = qw_seq w + 1" "grows segs cur (Msg (new_msg (qw_seq w) ts t p)) segs' cur'"
      "same_names (qw_path w) (qw_segment_id w) q q'"
      using queue_append_ok [OF S(1), of env t ts p] assms(2) S(5,6,8) Append by auto
    have id: "base + length segs = qw_segment_id w" "base + length segs' = qw_segment_id w'"
      using S(1) A(2) by (simp_all add: qw_inv_def Let_def)
    have "rd_pending crc base segs' cur' (r, q') (ms @ [new_msg n ts t p])"
      using rd_pending_grows [OF S(2) A(2) A(5)] S A(3,6) id assms(2) Append by (simp add: same_writer_def)
    moreover have "qw_segment_id w' + room < u32_max" using growsD [OF A(5)] id S(8) by simp
    ultimately show ?thesis
      using A S x Append unfolding rw_sim_def by (auto simp: same_writer_def)
  next
    case (Next now)
    obtain m r' where r': "rd_next crc proc now (r, q) = (Inr m, r', q)" "rd_pending crc base segs cur (r', q) (tl ms)" "same_reader r r'"
      "fifo_do a f = ([m], n, tl ms)"
      using rd_next_pending [OF S(2), of proc now] x(2) Next by (cases ms) auto
    then show ?thesis using S x Next unfolding rw_sim_def by (auto simp: same_reader_def)
  qed
qed

text \<open>
  Property C1. A writer and a reader implement a first-in first-out queue. Whatever the order of
  their calls, a run of appends that the writer takes and of reads returns what the abstract
  queue returns: every message once, in the order and with the numbers of its append, across
  rolls and padding, and none only when none is left. At the end the two are in step again.
\<close>

theorem queue_refines_fifo:
  assumes "rw_sim crc base config sz (length as) x f" "\<forall>a \<in> set as. action_ok config sz a"
  shows "\<exists>x'. rw_run crc proc as x = (Inr (fst (fifo_run as f)), x') \<and> rw_sim crc base config sz 0 x' (snd (fifo_run as f))"
  using assms
proof (induction as arbitrary: x f)
  case Nil
  then show ?case by (simp add: ret_def)
next
  case (Cons a as)
  obtain x1 where a: "rw_do crc proc a x = (Inr (fst (fifo_do a f)), x1)" "rw_sim crc base config sz (length as) x1 (snd (fifo_do a f))"
    using rw_do_sim [of crc base config sz "length as" x f a proc] Cons.prems by auto
  obtain x2 where b: "rw_run crc proc as x1 = (Inr (fst (fifo_run as (snd (fifo_do a f)))), x2)"
    "rw_sim crc base config sz 0 x2 (snd (fifo_run as (snd (fifo_do a f))))"
    using Cons.IH [OF a(2)] Cons.prems(2) by auto
  show ?case using a b by (simp add: bind_ok ret_def split_beta)
qed

text \<open>The small queue of \<open>Writer\<close>, without its limit, and a reader at its start.\<close>

definition demo_free :: queue_writer where
  "demo_free = demo_writer\<lparr>qw_config := default_writer_config\<rparr>"

definition demo_reader :: queue_reader where
  "demo_reader = \<lparr>rd_path = [], rd_mmap = \<lparr>mm_ino = 0, mm_len = 256\<rparr>, rd_segment_id = 0, rd_read_offset = 64,
     rd_meta_path = [''readers'', ''a.meta''],
     rd_meta = \<lparr>rm_segment_id = 0, rm_offset = 64, rm_last_heartbeat_ns = 0, rm_generation = 0\<rparr>, rd_segment_size = 256\<rparr>"

lemma demo_free_inv: "qw_inv crc 0 [] [] (demo_free, demo_queue)"
  by (rule qw_inv_fields [OF demo_inv]) (simp_all add: demo_free_def)

lemma demo_reader_pending: "rd_pending crc 0 [] [] (demo_reader, demo_queue) []"
proof -
  have "lookup_path (q_fs demo_queue) (segment_path [] 0) = Some 0"
    using demo_inv [of crc] by (simp add: qw_inv_def open_seg_def demo_writer_def Let_def)
  moreover have "queue_holds crc 0 [] [] [] 256 demo_queue"
    using qw_inv_holds [OF demo_inv, of crc] by (simp add: demo_writer_def)
  ultimately have "rd_at crc 0 [] [] 0 [] (demo_reader, demo_queue)"
    by (simp add: rd_at_def demo_reader_def)
  then show ?thesis by (auto simp: rd_pending_def rd_rest_def intro!: exI [of _ 0] exI [of _ "[]"])
qed

lemma demo_sim: "room < u32_max \<Longrightarrow> rw_sim crc 0 default_writer_config 256 room (demo_free, demo_reader, demo_queue) (0, [])"
  using demo_free_inv [of crc] demo_reader_pending [of crc]
  by (auto simp: rw_sim_def demo_free_def demo_writer_def demo_reader_def intro!: exI [of _ "[]"])

theorem queue_refines_fifo_witness:
  "\<exists>x'. rw_run (\<lambda>_. 5) demo_proc [Append demo_env 7 9 [1, 2, 3], Next 0, Append demo_env 8 9 [4], Next 0, Next 0]
      (demo_free, demo_reader, demo_queue) = (Inr [Some (new_msg 0 9 7 [1, 2, 3]), Some (new_msg 1 9 8 [4]), None], x')"
proof -
  let ?as = "[Append demo_env 7 9 [1, 2, 3], Next 0, Append demo_env 8 9 [4], Next 0, Next 0]"
  have "record_len 3 = 128" "record_len 1 = 128" using record_len_eq [of 3] record_len_eq [of 1] by simp_all
  moreover have "rw_sim (\<lambda>_. 5) 0 default_writer_config 256 (length ?as) (demo_free, demo_reader, demo_queue) (0, [])"
    by (rule demo_sim) simp
  ultimately show ?thesis
    using queue_refines_fifo [where as = ?as and proc = demo_proc and crc = "\<lambda>_. 5" and base = 0 and config = default_writer_config and sz = 256
        and x = "(demo_free, demo_reader, demo_queue)" and f = "(0, [])"]
    by (auto simp: quiet_def default_writer_config_def demo_env_def simp del: rw_run.simps)
qed

section \<open>A record between two loads\<close>

text \<open>
  Property C36. The reader can skip a record. \<open>next_ref\<close> loads the commit word and, when it is
  zero, looks at the control block and the sealed flag later. When a writer appends one record
  behind the reader's position and then rolls between these loads, the reader moves on to the
  next segment and the record is never returned: what is pending is the second record only.
\<close>

theorem advance_skips_record:
  assumes "qw_inv crc base segs cur (w, q)" "rd_at crc base segs cur (length segs) cur (r, q)"
    and "rd_path r = qw_path w" "rd_segment_size r = qw_segment_size w" "qw_segment_id w + 2 < u32_max"
    and "queue_accepts (qw_config w) (qw_segment_size w) (env1, t1, ts1, p1)" "queue_accepts (qw_config w) (qw_segment_size w) (env2, t2, ts2, p2)"
    and "qw_write_offset w + record_len (length p1) \<le> qw_segment_size w"
    and "append_with_timestamp crc env1 t1 p1 ts1 (w, q) = (Inr (), w1, q1)"
    and "qw_write_offset w1 + record_len (length p2) > qw_segment_size w" "t2 \<noteq> PAD_TYPE_ID"
    and "append_with_timestamp crc env2 t2 p2 ts2 (w1, q1) = (Inr (), w2, q2)"
  shows "record_at crc (as_slice (rd_mmap r) (q_fs q)) (rd_segment_size r) (rd_read_offset r) = NoRecord \<and>
    (\<exists>r' segs' cur'. rd_advance_segment proc now (r, q2) = (Inr True, r', q2) \<and> qw_inv crc base segs' cur' (w2, q2) \<and>
       queue_entries segs' cur' = queue_entries segs cur @ [Msg (new_msg (qw_seq w) ts1 t1 p1), Msg (new_msg (qw_seq w + 1) ts2 t2 p2)] \<and>
       rd_pending crc base segs' cur' (r', q2) [new_msg (qw_seq w + 1) ts2 t2 p2])"
proof
  show "record_at crc (as_slice (rd_mmap r) (q_fs q)) (rd_segment_size r) (rd_read_offset r) = NoRecord"
    using rd_at_bytes [OF assms(2)] record_at_end by fastforce
  let ?m1 = "new_msg (qw_seq w) ts1 t1 p1" and ?m2 = "new_msg (qw_seq w + 1) ts2 t2 p2"
  have id: "base + length segs = qw_segment_id w" using assms(1) by (simp add: qw_inv_def Let_def)
  have A: "qw_inv crc base segs (cur @ [Msg ?m1]) (w1, q1)" "same_writer w w1" "qw_seq w1 = qw_seq w + 1"
    "same_names (qw_path w) (qw_segment_id w) q q1"
    using queue_append_ok [OF assms(1,6)] assms(5,8,9) by (auto simp: grows_def)
  have id1: "qw_segment_id w1 = qw_segment_id w" using A(1) id by (simp add: qw_inv_def Let_def)
  have B: "qw_inv crc base (segs @ [cur @ [Msg ?m1]]) [Msg ?m2] (w2, q2)" "same_writer w1 w2"
    "same_names (qw_path w) (qw_segment_id w) q1 q2"
    using queue_append_ok [OF A(1), of env2 t2 ts2 p2] assms(5,7,10,12) A(2,3) id1 by (auto simp: grows_def same_writer_def)
  let ?segs = "segs @ [cur @ [Msg ?m1]]"
  have lk: "lookup_path (q_fs q2) (segment_path (rd_path r) (base + length segs)) = Some (mm_ino (rd_mmap r))"
    using assms(2,3) A(4) B(3) id by (simp add: rd_at_def same_names_def)
  have "rd_at crc base ?segs [Msg ?m2] (length segs) cur (r, q2)"
    using assms(2,3,4) A(2) B(2) lk qw_inv_holds [OF B(1)] by (simp add: rd_at_def same_writer_def nth_append)
  then obtain r' where r': "rd_advance_segment proc now (r, q2) = (Inr True, r', q2)" "rd_at crc base ?segs [Msg ?m2] (Suc (length segs)) [] (r', q2)"
    using rd_advance_ok [of crc base ?segs "[Msg ?m2]" "length segs" cur r q2 proc now] by auto
  moreover have "rd_pending crc base ?segs [Msg ?m2] (r', q2) [?m2]"
    using r'(2) assms(11) by (auto simp: rd_pending_def rd_rest_def nth_append intro!: exI [of _ "Suc (length segs)"] exI [of _ "[]"])
  moreover have "queue_entries ?segs [Msg ?m2] = queue_entries segs cur @ [Msg ?m1, Msg ?m2]" by (simp add: queue_entries_def)
  ultimately show "\<exists>r' segs' cur'. rd_advance_segment proc now (r, q2) = (Inr True, r', q2) \<and> qw_inv crc base segs' cur' (w2, q2) \<and>
       queue_entries segs' cur' = queue_entries segs cur @ [Msg ?m1, Msg ?m2] \<and> rd_pending crc base segs' cur' (r', q2) [?m2]"
    using B(1) by blast
qed

theorem advance_skips_record_witness:
  "\<exists>w1 q1 w2 q2 r' segs cur.
     append_with_timestamp (\<lambda>_. 5) demo_env 7 [1, 2, 3] 9 (demo_free, demo_queue) = (Inr (), w1, q1) \<and>
     append_with_timestamp (\<lambda>_. 5) demo_env 8 [4] 9 (w1, q1) = (Inr (), w2, q2) \<and>
     record_at (\<lambda>_. 5) (as_slice (rd_mmap demo_reader) (q_fs demo_queue)) 256 64 = NoRecord \<and>
     rd_advance_segment demo_proc 0 (demo_reader, q2) = (Inr True, r', q2) \<and>
     queue_entries segs cur = [Msg (new_msg 0 9 7 [1, 2, 3]), Msg (new_msg 1 9 8 [4])] \<and>
     rd_pending (\<lambda>_. 5) 0 segs cur (r', q2) [new_msg 1 9 8 [4]]"
proof -
  let ?c = "\<lambda>_. 5"
  have l: "record_len 3 = 128" "record_len 1 = 128" using record_len_eq [of 3] record_len_eq [of 1] by simp_all
  have d: "qw_segment_size demo_free = 256" "qw_config demo_free = default_writer_config" "qw_segment_id demo_free = 0"
    "qw_write_offset demo_free = 64" "qw_seq demo_free = 0" "qw_path demo_free = []"
    by (simp_all add: demo_free_def demo_writer_def)
  have acc: "queue_accepts default_writer_config 256 (demo_env, 7, 9, [1, 2, 3])" "queue_accepts default_writer_config 256 (demo_env, 8, 9, [4])"
    using l by (simp_all add: quiet_def default_writer_config_def demo_env_def)
  obtain w1 q1 where A: "append_with_timestamp ?c demo_env 7 [1, 2, 3] 9 (demo_free, demo_queue) = (Inr (), w1, q1)"
    "qw_inv ?c 0 [] [Msg (new_msg 0 9 7 [1, 2, 3])] (w1, q1)" "same_writer demo_free w1"
    using queue_append_ok [OF demo_free_inv, of demo_env 7 9 "[1, 2, 3]" ?c] acc d l by (auto simp: grows_def)
  have o: "qw_write_offset w1 = 192" "qw_segment_id w1 = 0"
    using A(2) chain_end [of ?c _ 64 "[Msg (new_msg 0 9 7 [1, 2, 3])]" "qw_write_offset w1"] l
    by (auto simp: qw_inv_def Let_def open_seg_def entry_len_def)
  obtain w2 q2 where B: "append_with_timestamp ?c demo_env 8 [4] 9 (w1, q1) = (Inr (), w2, q2)"
    using queue_append_ok [OF A(2), of demo_env 8 9 "[4]"] acc(2) A(3) d o by (auto simp: same_writer_def)
  have "rd_at ?c 0 [] [] 0 [] (demo_reader, demo_queue)"
    using demo_reader_pending [of ?c] by (auto simp: rd_pending_def rd_at_def)
  then show ?thesis
    using advance_skips_record [OF demo_free_inv _ _ _ _ _ _ _ A(1) _ _ B, of demo_reader demo_proc 0] A(1) B acc d l o
    by (auto simp: demo_reader_def queue_entries_def)
qed

end
