(* ===== verification/Reader_Open.thy ===== *)
theory Reader_Open
  imports Reader_Queue
begin

text \<open>
  Opening a queue reader, from \<^verbatim>\<open>src/src/core/reader.rs\<close>: where a reader starts in each mode,
  and that a position saved with \<open>commit\<close> is where the next reader of that name goes on.
\<close>

section \<open>Operations beside the segments\<close>

lemma queue_holds_writer:
  "queue_holds crc base segs cur root sz q \<longleftrightarrow>
     (\<exists>w. qw_inv crc base segs cur (w, q) \<and> qw_path w = root \<and> qw_segment_size w = sz)"
proof
  assume "queue_holds crc base segs cur root sz q"
  then obtain i m off where h: "files_inv crc base segs cur root sz (q_fs q) i m off" "ctrl_at q i off sz"
    by (auto simp: queue_holds_def)
  let ?w = "demo_writer\<lparr>qw_path := root, qw_segment_size := sz, qw_segment_id := i, qw_mmap := m, qw_write_offset := off\<rparr>"
  show "\<exists>w. qw_inv crc base segs cur (w, q) \<and> qw_path w = root \<and> qw_segment_size w = sz"
    using h by (intro exI [of _ ?w]) (simp add: qw_inv_files)
qed (auto dest: qw_inv_holds)

lemma queue_holds_frame:
  "queue_holds crc base segs cur root sz q \<Longrightarrow> seg_frame root (q_fs q) s' \<Longrightarrow> queue_holds crc base segs cur root sz (q\<lparr>q_fs := s'\<rparr>)"
  using seg_frame_inv by (fastforce simp: queue_holds_writer)

lemma queue_holds_wf:
  "queue_holds crc base segs cur root sz q \<Longrightarrow> fs_wf (q_fs q) \<and> dir_ok (q_fs q) root \<and> base + length segs < u32_max \<and> 128 \<le> sz \<and> sz + 64 \<le> u64_max"
  by (auto simp: queue_holds_writer qw_inv_def Let_def)

lemma queue_holds_readers_dir:
  assumes "queue_holds crc base segs cur root sz q"
  shows "queue_holds crc base segs cur root sz (q\<lparr>q_fs := create_dir_all (readers_dir root) (q_fs q)\<rparr>)"
proof -
  let ?s = "q_fs q"
  let ?s' = "create_dir_all (readers_dir root) ?s"
  have "take n (readers_dir root) \<noteq> segment_path root i" for n i
  proof
    assume t: "take n (readers_dir root) = segment_path root i"
    then have "length (take n (readers_dir root)) = Suc (length root)" by (simp add: segment_path_def)
    then have "take n (readers_dir root) = readers_dir root" by (simp add: readers_dir_def)
    with t show False using not_segment_path [of "''readers''" root i] by (simp add: readers_dir_def)
  qed
  then have d: "dir_ok ?s' root" using queue_holds_wf [OF assms] by (auto simp: dir_ok_def is_dir_create_dir_all dest: sym)
  obtain i m off where "files_inv crc base segs cur root sz ?s i m off" "ctrl_at q i off sz" using assms by (auto simp: queue_holds_def)
  with d have "files_inv crc base segs cur root sz ?s' i m off" "ctrl_at (q\<lparr>q_fs := ?s'\<rparr>) i off sz"
    by (simp_all add: files_inv_def closed_seg_def open_seg_def later_fresh_def mm_ok_def ctrl_at_def)
  then show ?thesis by (auto simp: queue_holds_def)
qed

text \<open>Saving reader metadata: the segments stay as they are, and loading returns what was saved.\<close>

lemma store_meta_frame:
  assumes "fs_wf s" "is_dir s (butlast p)" "\<And>i. p \<noteq> segment_path root i" "store_reader_meta crc p meta s = (Inr m, s')"
  shows "seg_frame root s s'"
proof -
  obtain ino s1 where o: "open_write p False s = (Inr ino, s1)" "seg_frame root s s1"
    "\<forall>i j. lookup_path s1 (segment_path root i) = Some j \<longrightarrow> j \<noteq> ino"
    using open_write_frame [OF assms(1-3), of False] by blast
  have "fs_wf s1" using o(2) by (simp add: seg_frame_def)
  then have "seg_frame root s1 (fs_set ino b1 s1)" "seg_frame root (fs_set ino b1 s1) (fs_set ino b2 (fs_set ino b1 s1))" for b1 b2
    using o(3) fs_set_frame [of s1 root ino b1] fs_set_frame [of "fs_set ino b1 s1" root ino b2] by simp_all
  then have "seg_frame root s (fs_set ino b2 (fs_set ino b1 s1))" for b1 b2 using o(2) seg_frame_trans by metis
  then show ?thesis
    using o(1) assms(4) by (auto simp: store_reader_meta_def bind_ok set_len_def write_at_def Let_def ret_def)
qed

lemma save_meta:
  assumes "queue_holds crc base segs cur root sz q" "is_dir (q_fs q) (readers_dir root)" "p = readers_dir root @ [f]"
    and "load_reader_meta crc p (q_fs q) = (Inr old, q_fs q)" "rm_wf meta" "rm_generation meta = rm_generation old" "rm_generation old < u64_max"
  shows "\<exists>s'. store_reader_meta crc p meta (q_fs q) = (Inr (meta\<lparr>rm_generation := rm_generation old + 1\<rparr>), s') \<and>
    load_reader_meta crc p s' = (Inr (meta\<lparr>rm_generation := rm_generation old + 1\<rparr>), s') \<and>
    seg_frame root (q_fs q) s' \<and> queue_holds crc base segs cur root sz (q\<lparr>q_fs := s'\<rparr>)"
proof -
  have d: "is_dir (q_fs q) (butlast p)" using assms(2,3) by simp
  have "p \<noteq> segment_path root i" for i using assms(3) by (simp add: readers_dir_def segment_path_def)
  moreover obtain s' where s': "store_reader_meta crc p meta (q_fs q) = (Inr (meta\<lparr>rm_generation := rm_generation old + 1\<rparr>), s')"
    "load_reader_meta crc p s' = (Inr (meta\<lparr>rm_generation := rm_generation old + 1\<rparr>), s')"
    using store_load [OF assms(4) d assms(5-7)] by blast
  ultimately have "seg_frame root (q_fs q) s'"
    using store_meta_frame [OF _ d] queue_holds_wf [OF assms(1)] by blast
  then show ?thesis using s' queue_holds_frame [OF assms(1)] by blast
qed

section \<open>Building a reader\<close>

text \<open>A position that exists in the queue, with its bounds.\<close>

definition rd_place :: "nat \<Rightarrow> entry list list \<Rightarrow> entry list \<Rightarrow> nat \<Rightarrow> entry list \<Rightarrow> nat \<Rightarrow> nat \<Rightarrow> bool" where
  "rd_place base segs cur k pre i off \<longleftrightarrow>
     k \<le> length segs \<and> prefix pre ((segs @ [cur]) ! k) \<and> i = base + k \<and> max off 64 = 64 + entries_len pre"

lemma rd_place_bounds:
  assumes "queue_holds crc base segs cur root sz q" "rd_place base segs cur k pre i off"
  shows "i \<le> u32_max" "max off 64 \<le> u64_max" "\<exists>ino. lookup_path (q_fs q) (segment_path root i) = Some ino \<and>
    open_segment root i sz (q_fs q) = (Inr \<lparr>mm_ino = ino, mm_len = sz\<rparr>, q_fs q)"
proof -
  have p: "k \<le> length segs" "prefix pre ((segs @ [cur]) ! k)" "i = base + k" "max off 64 = 64 + entries_len pre"
    using assms(2) by (simp_all add: rd_place_def)
  note wf = queue_holds_wf [OF assms(1)]
  show "i \<le> u32_max" using p wf by simp
  obtain ino fl e where g: "lookup_path (q_fs q) (segment_path root (base + k)) = Some ino" "length (fs_data (q_fs q) ino) = sz"
    "sz + 64 \<le> u64_max" "128 \<le> sz" "seg_hdr (fs_data (q_fs q) ino) (word_of_nat (base + k)) fl"
    "chain crc (fs_data (q_fs q) ino) 64 ((segs @ [cur]) ! k) e"
    using holds_segment [OF assms(1) p(1)] by blast
  obtain rest where r: "(segs @ [cur]) ! k = pre @ rest" using p(2) by (auto simp: prefix_def)
  then have "64 + entries_len pre \<le> e" using chain_end [OF g(6)] by simp
  moreover have "e \<le> sz" using chain_bound [OF g(6)] g(2,4) by simp
  ultimately show "max off 64 \<le> u64_max" using p(4) g(3) by simp
  show "\<exists>ino. lookup_path (q_fs q) (segment_path root i) = Some ino \<and>
    open_segment root i sz (q_fs q) = (Inr \<lparr>mm_ino = ino, mm_len = sz\<rparr>, q_fs q)"
    using g p(3) open_segment_ok [OF g(1,2) _ g(5)] by simp
qed

lemma build_reader_at:
  fixes q root name
  defines "p \<equiv> readers_dir root @ [name @ ''.meta'']" and "s1 \<equiv> create_dir_all (readers_dir root) (q_fs q)"
  assumes H: "queue_holds crc base segs cur root sz q" and b: "q_ctrl q = Some b" and n: "name \<noteq> []" and t: "system_now_ns now = Inr t"
    and saved: "load_reader_meta crc p s1 = (Inr saved, s1)" "rm_generation saved < u64_max"
    and start: "start_position root mode b saved s1 = (Inr start, s1)" "rm_generation start = rm_generation saved"
      "rd_place base segs cur k pre (rm_segment_id start) (rm_offset start)"
  shows "\<exists>r s'. build_reader crc now root name mode b (q_fs q) = (Inr r, s') \<and> rd_at crc base segs cur k pre (r, q\<lparr>q_fs := s'\<rparr>) \<and>
    seg_frame root s1 s' \<and> rd_path r = root \<and> rd_meta_path r = p \<and> rd_segment_size r = sz \<and>
    load_reader_meta crc p s' = (Inr (rd_meta r), s') \<and> rm_generation (rd_meta r) = rm_generation saved + 1 \<and>
    rm_segment_id (rd_meta r) = base + k \<and> rm_offset (rd_meta r) = 64 + entries_len pre"
proof -
  let ?q1 = "q\<lparr>q_fs := s1\<rparr>"
  let ?meta = "start\<lparr>rm_offset := max (rm_offset start) 64, rm_last_heartbeat_ns := t\<rparr>"
  let ?m = "?meta\<lparr>rm_generation := rm_generation saved + 1\<rparr>"
  have H1: "queue_holds crc base segs cur root sz ?q1" unfolding s1_def by (rule queue_holds_readers_dir [OF H])
  note bnd = rd_place_bounds [OF H1 start(3)]
  have t64: "t \<le> u64_max" using t by (auto simp: system_now_ns_def split: if_splits)
  have "is_dir s1 (readers_dir root)" by (simp add: s1_def is_dir_create_dir_all) (metis take_all_iff order_refl)
  moreover have "rm_wf ?meta" using bnd(1,2) t64 start(2) saved(2) by (auto simp: rm_wf_def)
  ultimately obtain s' where s': "store_reader_meta crc p ?meta s1 = (Inr ?m, s')" "load_reader_meta crc p s' = (Inr ?m, s')"
    "seg_frame root s1 s'" "queue_holds crc base segs cur root sz (q\<lparr>q_fs := s'\<rparr>)"
    using save_meta [OF H1, of p "name @ ''.meta''" saved ?meta] saved start(2) by (auto simp: p_def)
  obtain ino where o: "lookup_path s' (segment_path root (rm_segment_id start)) = Some ino"
    "open_segment root (rm_segment_id start) sz s' = (Inr \<lparr>mm_ino = ino, mm_len = sz\<rparr>, s')"
    using rd_place_bounds(3) [OF s'(4) start(3)] by auto
  have z: "cb_segment_size b = sz" "validate_segment_size sz = Inr sz"
    using H b queue_holds_wf [OF H] by (auto simp: queue_holds_def ctrl_at_def validate_segment_size_def)
  define r where "r = \<lparr>rd_path = root, rd_mmap = \<lparr>mm_ino = ino, mm_len = sz\<rparr>, rd_segment_id = rm_segment_id start,
    rd_read_offset = max (rm_offset start) 64, rd_meta_path = p, rd_meta = ?m, rd_segment_size = sz\<rparr>"
  have run: "build_reader crc now root name mode b (q_fs q) = (Inr r, s')"
    using n z saved(1) start(1) s'(1) o bnd(1) t
    by (simp add: build_reader_def Let_def bind_ok flip: s1_def p_def) (simp add: bind_ok path_exists_def ret_def r_def)
  have "rd_at crc base segs cur k pre (r, q\<lparr>q_fs := s'\<rparr>)"
    using s'(4) start(3) o(1) by (auto simp: rd_at_def r_def rd_place_def)
  with run s'(2,3) start(3) show ?thesis by (auto simp: r_def rd_place_def)
qed

section \<open>Where a reader starts\<close>

lemma load_meta_readers_dir:
  "load_reader_meta crc p s = (Inr m, s) \<Longrightarrow> load_reader_meta crc p (create_dir_all d s) = (Inr m, create_dir_all d s)"
  by (auto simp: load_reader_meta_def bind_def attempt_def open_read_def get_def read_exact_def ret_def fail_def Let_def
      split: option.splits if_splits sum.splits)

lemma oldest_base:
  assumes "is_dir s root" "lookup_path s (segment_path root base) = Some ino" "base < 1000000000"
    and "\<forall>name i. path_exists s (root @ [name]) \<longrightarrow> reader_segment_id name = Some i \<longrightarrow> base \<le> i"
  shows "find_oldest_segment root s = (Inr base, s)"
proof -
  let ?xs = "List.map_filter (\<lambda>(name, _). reader_segment_id name) (read_dir root s)"
  have "(segment_filename base, True) \<in> set (read_dir root s)"
    using map_of_SomeD [of "fs_names s" "segment_path root base" ino] assms(2)
    by (force simp: read_dir_def lookup_path_def segment_path_def)
  then have "base \<in> set ?xs" using assms(3) reader_segment_id_eq [of base] by (force simp: map_filter_def)
  moreover have "path_exists s (root @ [name])" if "(name, f) \<in> set (read_dir root s)" for name f
    using that by (auto simp: read_dir_def path_exists_def is_dir_def lookup_path_def map_of_eq_None_iff) (metis append_butlast_last_id fst_conv image_eqI)+
  then have "base \<le> i" if "i \<in> set ?xs" for i
    using that assms(4) by (auto simp: map_filter_def) blast
  ultimately have "Min (set ?xs) = base" by (intro Min_eqI) auto
  then show ?thesis
    using assms(1) \<open>base \<in> set ?xs\<close>
    by (cases ?xs) (simp_all add: find_oldest_segment_def Min.set_eq_fold [symmetric] del: Min.set_eq_fold)
qed

lemma child_readers_dir:
  "is_dir (create_dir_all (readers_dir root) s) (root @ [f]) \<longleftrightarrow> is_dir s (root @ [f]) \<or> f = ''readers''"
proof -
  have "f = ''readers''" if "root @ [f] = take n (root @ [''readers''])" for n
  proof -
    have "n > length root" using arg_cong [OF that, of length] by simp
    then show ?thesis using that by simp
  qed
  moreover have "take (Suc (length root)) (root @ [''readers'']) = root @ [''readers'']" by simp
  ultimately show ?thesis unfolding is_dir_create_dir_all readers_dir_def by metis
qed

lemma start_earliest:
  assumes "find_oldest_segment root s = (Inr base, s)"
  shows "start_position root Earliest b meta s = (Inr (meta\<lparr>rm_segment_id := base, rm_offset := 64\<rparr>), s)"
  using assms by (simp add: start_position_def bind_ok [of "attempt _"] attempt_def ret_def)

lemma start_latest:
  assumes "cb_segment_gen b AND 1 = 0"
  shows "start_position root Latest b meta s = (Inr (meta\<lparr>rm_segment_id := cb_current_segment b, rm_offset := cb_write_offset b\<rparr>), s)"
  using assms by (simp add: start_position_def segment_index_def ret_def)

lemma start_resume:
  assumes "path_exists s (segment_path root (rm_segment_id meta))" "mode \<in> {ResumeStrict, ResumeSnapshot, ResumeLatest}"
  shows "start_position root mode b meta s = (Inr meta, s)"
  using assms by (auto simp: start_position_def ret_def)

lemma holds_control:
  assumes "queue_holds crc base segs cur root sz q" "q_ctrl q = Some b"
  shows "cb_segment_gen b AND 1 = 0" "cb_current_segment b = base + length segs" "cb_write_offset b = 64 + entries_len cur"
    "cb_segment_size b = sz"
proof -
  obtain i m off where h: "files_inv crc base segs cur root sz (q_fs q) i m off" "ctrl_at q i off sz"
    using assms(1) by (auto simp: queue_holds_def)
  then have "off = 64 + entries_len cur" using chain_end by (auto simp: files_inv_def open_seg_def)
  then show "cb_segment_gen b AND 1 = 0" "cb_current_segment b = base + length segs" "cb_write_offset b = 64 + entries_len cur"
    "cb_segment_size b = sz"
    using h assms(2) by (auto simp: files_inv_def ctrl_at_def)
qed

text \<open>
  Where a new reader starts. On a queue that a writer maintains, whose oldest
  segment is \<open>base\<close>, opening a reader succeeds, whether or not it has a saved position; in mode
  \<open>Earliest\<close> it has every message of the queue still to return, in mode \<open>Latest\<close> none.
\<close>

lemma open_at_either_end:
  assumes "queue_holds crc base segs cur root sz q" "q_ctrl q = Some b" "wait_ready b = Inr ()" "name \<noteq> []" "system_now_ns now = Inr t"
    and "load_reader_meta crc (readers_dir root @ [name @ ''.meta'']) (q_fs q) = (Inr saved, q_fs q)" "rm_generation saved < u64_max"
    and "base < 1000000000" "\<forall>name i. path_exists (q_fs q) (root @ [name]) \<longrightarrow> reader_segment_id name = Some i \<longrightarrow> base \<le> i"
    and "\<forall>m \<in> set (messages (queue_entries segs cur)). msg_type_id m \<noteq> PAD_TYPE_ID"
  shows "(\<exists>r q'. open_subscriber crc now root name Earliest q = (Inr r, q') \<and>
       rd_pending crc base segs cur (r, q') (messages (queue_entries segs cur))) \<and>
    (\<exists>r q'. open_subscriber crc now root name Latest q = (Inr r, q') \<and> rd_pending crc base segs cur (r, q') [])"
proof -
  let ?s1 = "create_dir_all (readers_dir root) (q_fs q)"
  note saved = load_meta_readers_dir [OF assms(6), of "readers_dir root"]
  note build = build_reader_at [OF assms(1,2,4,5) saved assms(7)]
  have run: "open_subscriber crc now root name mode q = (Inr r, q\<lparr>q_fs := s'\<rparr>)"
    if "build_reader crc now root name mode b (q_fs q) = (Inr r, s')" for mode r s'
    using that assms(2,3) q_file_ok [where m = "build_reader crc now root name mode b" and q = q and x = r and s' = s'] by (simp add: open_subscriber_def bind_q_block)
  note wf = queue_holds_wf [OF assms(1)]
  obtain ino where "lookup_path (q_fs q) (segment_path root base) = Some ino" using holds_segment [OF assms(1), of 0] by auto
  moreover have "base \<le> i" if "path_exists ?s1 (root @ [f])" "reader_segment_id f = Some i" for f i
  proof (cases "path_exists (q_fs q) (root @ [f])")
    case False
    then have "f = ''readers''" using that(1) by (simp add: path_exists_def child_readers_dir)
    then show ?thesis using that(2) by (simp add: reader_segment_id_def)
  qed (use assms(9) that(2) in blast)
  ultimately have "find_oldest_segment root ?s1 = (Inr base, ?s1)"
    using wf assms(8) by (intro oldest_base) (auto simp: dir_ok_def is_dir_create_dir_all)
  note e = build [OF start_earliest [OF this], where k = 0 and pre = "[]"]
  note l = build [OF start_latest [OF holds_control(1) [OF assms(1,2)]], where k = "length segs" and pre = cur]
  have r0: "rd_rest segs cur 0 [] = queue_entries segs cur" by (cases segs) (simp_all add: rd_rest_def queue_entries_def)
  have "\<exists>r s'. build_reader crc now root name Earliest b (q_fs q) = (Inr r, s') \<and>
      rd_pending crc base segs cur (r, q\<lparr>q_fs := s'\<rparr>) (messages (queue_entries segs cur))"
    using e assms(10) r0 by (fastforce simp: rd_place_def rd_pending_def)
  moreover have "\<exists>r s'. build_reader crc now root name Latest b (q_fs q) = (Inr r, s') \<and>
      rd_pending crc base segs cur (r, q\<lparr>q_fs := s'\<rparr>) []"
    using l holds_control [OF assms(1,2)] by (fastforce simp: rd_place_def rd_pending_def rd_rest_def)
  ultimately show ?thesis using run by blast
qed

text \<open>A reader whose saved metadata is the file's, so that its next save is the newer slot.\<close>

definition rd_saved :: "crc_fun \<Rightarrow> string \<Rightarrow> queue_reader \<times> queue \<Rightarrow> bool" where
  "rd_saved crc name = (\<lambda>(r, q). rd_meta_path r = readers_dir (rd_path r) @ [name @ ''.meta''] \<and> is_dir (q_fs q) (readers_dir (rd_path r)) \<and>
     (\<exists>old. load_reader_meta crc (rd_meta_path r) (q_fs q) = (Inr old, q_fs q) \<and> rm_generation old = rm_generation (rd_meta r)))"

lemma rd_commit_ok:
  assumes "rd_at crc base segs cur k pre (r, q)" "rd_saved crc name (r, q)" "rm_generation (rd_meta r) < u64_max" "system_now_ns now = Inr t"
  shows "\<exists>m s'. rd_commit crc now (r, q) = (Inr (), r\<lparr>rd_meta := m\<rparr>, q\<lparr>q_fs := s'\<rparr>) \<and>
    rd_at crc base segs cur k pre (r\<lparr>rd_meta := m\<rparr>, q\<lparr>q_fs := s'\<rparr>) \<and> rd_saved crc name (r\<lparr>rd_meta := m\<rparr>, q\<lparr>q_fs := s'\<rparr>) \<and>
    load_reader_meta crc (rd_meta_path r) s' = (Inr m, s') \<and> rm_generation m = rm_generation (rd_meta r) + 1 \<and>
    rm_segment_id m = rd_segment_id r \<and> rm_offset m = rd_read_offset r"
proof -
  have H: "queue_holds crc base segs cur (rd_path r) (rd_segment_size r) q" using assms(1) by (simp add: rd_at_def)
  obtain old where old: "rd_meta_path r = readers_dir (rd_path r) @ [name @ ''.meta'']" "is_dir (q_fs q) (readers_dir (rd_path r))"
    "load_reader_meta crc (rd_meta_path r) (q_fs q) = (Inr old, q_fs q)" "rm_generation old = rm_generation (rd_meta r)"
    using assms(2) by (auto simp: rd_saved_def)
  have "rd_place base segs cur k pre (rd_segment_id r) (rd_read_offset r)" using assms(1) by (auto simp: rd_at_def rd_place_def)
  note bnd = rd_place_bounds [OF H this]
  have t: "t \<le> u64_max" using assms(4) by (auto simp: system_now_ns_def split: if_splits)
  let ?m = "(rd_meta r)\<lparr>rm_segment_id := rd_segment_id r, rm_offset := rd_read_offset r, rm_last_heartbeat_ns := t\<rparr>"
  let ?m' = "?m\<lparr>rm_generation := rm_generation old + 1\<rparr>"
  have "rm_wf ?m" using bnd(1,2) t assms(3) by (simp add: rm_wf_def)
  then obtain s' where s': "store_reader_meta crc (rd_meta_path r) ?m (q_fs q) = (Inr ?m', s')" "load_reader_meta crc (rd_meta_path r) s' = (Inr ?m', s')"
    "seg_frame (rd_path r) (q_fs q) s'" "queue_holds crc base segs cur (rd_path r) (rd_segment_size r) (q\<lparr>q_fs := s'\<rparr>)"
    using save_meta [OF H old(2,1,3), of ?m] old(4) assms(3) by auto
  have "rd_commit crc now (r, q) = (Inr (), r\<lparr>rd_meta := ?m'\<rparr>, q\<lparr>q_fs := s'\<rparr>)"
    using s'(1) assms(4) by (simp add: rd_commit_def bind_on_fs q_file_def)
  moreover have "rd_at crc base segs cur k pre (r\<lparr>rd_meta := ?m'\<rparr>, q\<lparr>q_fs := s'\<rparr>)"
    using assms(1) s'(3,4) by (simp add: rd_at_def seg_frame_def)
  moreover have "rd_saved crc name (r\<lparr>rd_meta := ?m'\<rparr>, q\<lparr>q_fs := s'\<rparr>)"
    using old(1,2) s'(2,3) by (simp add: rd_saved_def seg_frame_def)
  ultimately show ?thesis using s'(2) old(4) by (intro exI [of _ ?m'] exI [of _ s']) simp
qed

text \<open>A reader that saves its position, and one of the same name that is opened then.\<close>

lemma commit_resumes:
  assumes "rd_pending crc base segs cur (r, q) ms" "rd_saved crc name (r, q)" "rm_generation (rd_meta r) + 1 < u64_max" "name \<noteq> []"
    and "q_ctrl q = Some b" "wait_ready b = Inr ()" "system_now_ns now1 = Inr t1" "system_now_ns now2 = Inr t2"
    and "mode \<in> {ResumeStrict, ResumeSnapshot, ResumeLatest}"
  shows "\<exists>r1 q1 r2 q2. rd_commit crc now1 (r, q) = (Inr (), r1, q1) \<and> open_subscriber crc now2 (rd_path r) name mode q1 = (Inr r2, q2) \<and>
    rd_pending crc base segs cur (r2, q2) ms"
proof -
  obtain k pre where a: "rd_at crc base segs cur k pre (r, q)" "messages (rd_rest segs cur k pre) = ms" "\<forall>m \<in> set ms. msg_type_id m \<noteq> PAD_TYPE_ID"
    using assms(1) by (auto simp: rd_pending_def)
  obtain m s1 where c: "rd_commit crc now1 (r, q) = (Inr (), r\<lparr>rd_meta := m\<rparr>, q\<lparr>q_fs := s1\<rparr>)"
    "rd_at crc base segs cur k pre (r\<lparr>rd_meta := m\<rparr>, q\<lparr>q_fs := s1\<rparr>)" "load_reader_meta crc (rd_meta_path r) s1 = (Inr m, s1)"
    "rm_generation m = rm_generation (rd_meta r) + 1" "rm_segment_id m = rd_segment_id r" "rm_offset m = rd_read_offset r"
    using rd_commit_ok [OF a(1) assms(2) _ assms(7)] assms(3) by auto
  let ?q1 = "q\<lparr>q_fs := s1\<rparr>" and ?s2 = "create_dir_all (readers_dir (rd_path r)) s1"
  have H: "queue_holds crc base segs cur (rd_path r) (rd_segment_size r) ?q1" using c(2) by (simp add: rd_at_def)
  have pl: "rd_place base segs cur k pre (rm_segment_id m) (rm_offset m)" using a(1) c(5,6) by (auto simp: rd_at_def rd_place_def)
  have "path_exists ?s2 (segment_path (rd_path r) (rm_segment_id m))"
    using rd_place_bounds(3) [OF H pl] by (auto simp: path_exists_def)
  then have start: "start_position (rd_path r) mode b m ?s2 = (Inr m, ?s2)" using start_resume assms(9) by blast
  have mp: "rd_meta_path r = readers_dir (rd_path r) @ [name @ ''.meta'']" using assms(2) by (simp add: rd_saved_def)
  obtain r2 s3 where o: "build_reader crc now2 (rd_path r) name mode b s1 = (Inr r2, s3)" "rd_at crc base segs cur k pre (r2, ?q1\<lparr>q_fs := s3\<rparr>)"
    using build_reader_at [OF H, of b name now2 t2 m mode m k pre] start pl load_meta_readers_dir [OF c(3)] c(4) assms(3,4,5,8) mp by auto
  have "open_subscriber crc now2 (rd_path r) name mode ?q1 = (Inr r2, ?q1\<lparr>q_fs := s3\<rparr>)"
    using o(1) assms(5,6) by (simp add: open_subscriber_def bind_q_block q_file_def)
  moreover have "rd_pending crc base segs cur (r2, ?q1\<lparr>q_fs := s3\<rparr>) ms"
    using o(2) a(2,3) unfolding rd_pending_def by blast
  ultimately show ?thesis using c(1) by blast
qed

text \<open>
  Property C15. A saved position is where the reader goes on. After \<open>commit\<close>, opening a reader of
  the same name in any of the resuming modes succeeds, and it has still to return exactly the
  messages that the first one had: none is lost and none returned twice.
\<close>

theorem commit_then_resume:
  assumes "rd_pending crc base segs cur (r, q) ms" "rd_saved crc name (r, q)" "rm_generation (rd_meta r) + 1 < u64_max" "name \<noteq> []"
    and "q_ctrl q = Some b" "wait_ready b = Inr ()" "system_now_ns now1 = Inr t1" "system_now_ns now2 = Inr t2"
    and "mode \<in> {ResumeStrict, ResumeSnapshot, ResumeLatest}"
  shows "\<exists>r1 q1 r2 q2. rd_commit crc now1 (r, q) = (Inr (), r1, q1) \<and> open_subscriber crc now2 (rd_path r) name mode q1 = (Inr r2, q2) \<and>
    rd_pending crc base segs cur (r2, q2) ms"
  using assms by (rule commit_resumes)

section \<open>The small queue again\<close>

lemma demo_meta_new: "p \<noteq> [segment_filename 0] \<Longrightarrow>
  load_reader_meta crc p (q_fs demo_queue) = (Inr \<lparr>rm_segment_id = 0, rm_offset = 64, rm_last_heartbeat_ns = 0, rm_generation = 0\<rparr>, q_fs demo_queue)"
  by (simp add: load_reader_meta_def demo_queue_def single_file_def open_read_def lookup_path_def bind_def attempt_def ret_def)

theorem commit_then_resume_witness:
  "\<exists>r1 q1 r2 q2. rd_commit (\<lambda>_. 5) 1000 (demo_reader, demo_queue\<lparr>q_fs := create_dir_all [''readers''] (q_fs demo_queue)\<rparr>) = (Inr (), r1, q1) \<and>
     open_subscriber (\<lambda>_. 5) 2000 [] ''a'' ResumeStrict q1 = (Inr r2, q2) \<and> rd_pending (\<lambda>_. 5) 0 [] [] (r2, q2) []"
proof -
  let ?q = "demo_queue\<lparr>q_fs := create_dir_all [''readers''] (q_fs demo_queue)\<rparr>"
  have ctl: "q_ctrl ?q = Some (cb_create 0 64 1 256)" "wait_ready (cb_create 0 64 1 256) = Inr ()"
    by (simp_all add: demo_queue_def cb_create_def wait_ready_def)
  have H: "queue_holds (\<lambda>_. 5) 0 [] [] [] 256 demo_queue"
    using qw_inv_holds [OF demo_inv, of "\<lambda>_. 5"] by (simp add: demo_writer_def)
  have p: "rd_pending (\<lambda>_. 5) 0 [] [] (demo_reader, ?q) []"
    using demo_reader_pending [of "\<lambda>_. 5"] queue_holds_readers_dir [OF H]
    by (auto simp: rd_pending_def rd_at_def demo_reader_def readers_dir_def)
  have "rd_saved (\<lambda>_. 5) ''a'' (demo_reader, ?q)"
    using load_meta_readers_dir [OF demo_meta_new, of "[''readers'', ''a.meta'']" "\<lambda>_. 5" "[''readers'']"]
    by (simp add: rd_saved_def demo_reader_def readers_dir_def is_dir_create_dir_all)
      (metis take_all_iff order_refl)
  then show ?thesis
    using commit_then_resume [OF p _ _ _ ctl, of "''a''" 1000 1000 2000 2000 ResumeStrict]
    by (simp add: system_now_ns_def demo_reader_def)
qed

text \<open>A queue of one segment, number 5, with one record.\<close>

lemma one_segment_holds:
  assumes "fs_wf s" "dir_ok s []" "\<And>j. lookup_path s (segment_path [] j) = (if j = 5 then Some 0 else None)"
    and "fs_data s 0 = segment_with crc m" "length (msg_payload m) \<le> 128" "0 < fs_next s"
  shows "queue_holds crc 5 [] [Msg m] [] 256 \<lparr>q_fs = s, q_ctrl = Some (cb_create 5 (64 + entry_len (Msg m)) 3 256)\<rparr>"
proof -
  let ?q = "\<lparr>q_fs = s, q_ctrl = Some (cb_create 5 (64 + entry_len (Msg m)) 3 256)\<rparr>"
  note d = segment_with_props [OF assms(5), of crc]
  have le: "64 + entry_len (Msg m) \<le> 256" using record_len_eq [of "length (msg_payload m)"] assms(5) by (simp add: entry_len_def)
  have "open_seg crc s [] 256 5 \<lparr>mm_ino = 0, mm_len = 256\<rparr> [Msg m] (64 + entry_len (Msg m))"
    using assms(3,4) d le by (simp add: open_seg_def mm_ok_def)
  moreover have "later_fresh s [] 256 5" using assms(3) by (simp add: later_fresh_def)
  moreover have ctl: "ctrl_at ?q 5 (64 + entry_len (Msg m)) 256" using le by (simp add: ctrl_at_def cb_create_def)
  ultimately have "files_inv crc 5 [] [Msg m] [] 256 s 5 \<lparr>mm_ino = 0, mm_len = 256\<rparr> (64 + entry_len (Msg m))"
    using assms(1,2) by (simp add: files_inv_def)
  then show ?thesis using ctl unfolding queue_holds_def by (metis queue.select_convs(1))
qed

text \<open>The same with a directory for readers, and a reader at its start.\<close>

definition one_queue :: "message \<Rightarrow> queue" where
  "one_queue m = \<lparr>q_fs = \<lparr>fs_dirs = [[], [''readers'']], fs_names = [([segment_filename 5], 0)], fs_data = (\<lambda>_. segment_with (\<lambda>_. 5) m), fs_next = 1\<rparr>,
     q_ctrl = Some (cb_create 5 (64 + entry_len (Msg m)) 3 256)\<rparr>"

abbreviation one_reader :: queue_reader where
  "one_reader \<equiv> demo_reader\<lparr>rd_segment_id := 5\<rparr>"

lemma one_queue_pending:
  assumes "length (msg_payload m) \<le> 128" "msg_type_id m \<noteq> PAD_TYPE_ID"
  shows "rd_pending (\<lambda>_. 5) 5 [] [Msg m] (one_reader, one_queue m) [m]"
proof -
  have lk: "lookup_path (q_fs (one_queue m)) (segment_path [] j) = (if j = 5 then Some 0 else None)" for j
    by (simp add: one_queue_def lookup_path_def segment_path_def)
  have "fs_wf (q_fs (one_queue m))" "dir_ok (q_fs (one_queue m)) []"
    using not_segment_path [of "''readers''" "[]"]
    by (auto simp: one_queue_def fs_wf_def dir_ok_def is_dir_def lookup_path_def segment_path_def dest: sym split: if_splits)
  then have "queue_holds (\<lambda>_. 5) 5 [] [Msg m] [] 256 (one_queue m)"
    using one_segment_holds [of "q_fs (one_queue m)" "\<lambda>_. 5" m] lk assms(1) by (simp add: one_queue_def)
  then have "rd_at (\<lambda>_. 5) 5 [] [Msg m] 0 [] (one_reader, one_queue m)"
    using lk [of 5] by (simp add: rd_at_def demo_reader_def)
  moreover have "messages (rd_rest [] [Msg m] 0 []) = [m]" by (simp add: rd_rest_def)
  ultimately show ?thesis using assms(2) unfolding rd_pending_def by auto
qed

lemma one_queue_saved: "rd_saved (\<lambda>_. 5) ''a'' (one_reader, one_queue m)"
proof -
  have "load_reader_meta (\<lambda>_. 5) [''readers'', ''a.meta''] (q_fs (one_queue m)) =
      (Inr \<lparr>rm_segment_id = 0, rm_offset = 64, rm_last_heartbeat_ns = 0, rm_generation = 0\<rparr>, q_fs (one_queue m))"
    by (simp add: load_reader_meta_def one_queue_def open_read_def lookup_path_def bind_def attempt_def ret_def)
  then show ?thesis by (simp add: rd_saved_def demo_reader_def readers_dir_def is_dir_def one_queue_def)
qed

end
