(* ===== verification/Reader_Seek.thy ===== *)
theory Reader_Seek
  imports Reader_Open Seek_Index
begin

text \<open>
  Seeking, from \<^verbatim>\<open>src/src/core/reader.rs\<close>: the choice of a segment from the headers of the index
  files, the choice of an entry, and the scan from there to the first message at or behind the
  target.
\<close>

section \<open>Choosing a segment and an entry\<close>

fun load_seek_headers :: "path \<Rightarrow> nat list \<Rightarrow> (fs, seek_index_header list) io" where
  "load_seek_headers root [] = ret []"
| "load_seek_headers root (i # is) =
     bind (load_index_header root i) (\<lambda>h.
     bind (load_seek_headers root is) (\<lambda>hs.
     ret (case h of Some header \<Rightarrow> header # hs | None \<Rightarrow> hs)))"

text \<open>The two selections differ in the fields they compare only.\<close>

definition select_header :: "(seek_index_header \<Rightarrow> u64) \<Rightarrow> (seek_index_header \<Rightarrow> u64) \<Rightarrow> seek_index_header list \<Rightarrow> u64 \<Rightarrow> seek_index_header option" where
  "select_header lo hi headers target =
     (case headers of
        [] \<Rightarrow> None
      | first # _ \<Rightarrow>
          if target \<le> lo first then Some first
          else if target > hi (last headers) then Some (last headers)
          else case find (\<lambda>h. target \<ge> lo h \<and> target \<le> hi h) headers of
                 Some h \<Rightarrow> Some h
               | None \<Rightarrow> (case find (\<lambda>h. target \<le> hi h) headers of Some h \<Rightarrow> Some h | None \<Rightarrow> Some (last headers)))"

definition select_header_for_seq :: "seek_index_header list \<Rightarrow> u64 \<Rightarrow> seek_index_header option" where
  "select_header_for_seq = select_header ih_min_seq ih_max_seq"

definition select_header_for_timestamp :: "seek_index_header list \<Rightarrow> u64 \<Rightarrow> seek_index_header option" where
  "select_header_for_timestamp = select_header ih_min_ts_ns ih_max_ts_ns"

text \<open>The binary search: the number of entries that are not behind the target.\<close>

function seq_search :: "seek_index_entry list \<Rightarrow> u64 \<Rightarrow> nat \<Rightarrow> nat \<Rightarrow> nat" where
  "seq_search entries target lo hi =
     (if lo < hi
      then let mid = (lo + hi) div 2 in
           if ie_seq (entries ! mid) \<le> target then seq_search entries target (mid + 1) hi
           else seq_search entries target lo mid
      else lo)"
  by pat_completeness auto
termination by (relation "measure (\<lambda>(entries, target, lo, hi). hi - lo)") auto

declare seq_search.simps [simp del]

definition find_entry_by_seq :: "seek_index_entry list \<Rightarrow> u64 \<Rightarrow> seek_index_entry option" where
  "find_entry_by_seq entries target =
     (if entries = [] then None
      else let lo = seq_search entries target 0 (length entries) in
           if lo = 0 then None else if lo - 1 < length entries then Some (entries ! (lo - 1)) else None)"

definition find_entry_by_timestamp :: "seek_index_entry list \<Rightarrow> u64 \<Rightarrow> seek_index_entry option" where
  "find_entry_by_timestamp entries target =
     fold (\<lambda>e best. if ie_timestamp_ns e \<le> target then Some e else best) entries None"

section \<open>Moving the reader\<close>

definition open_or_first :: "path \<Rightarrow> nat \<Rightarrow> nat \<Rightarrow> (fs, nat \<times> mmap_file) io" where
  "open_or_first root segment_id segment_size =
     bind (attempt (open_segment root segment_id segment_size)) (\<lambda>r.
     case r of
       Inr m \<Rightarrow> ret (segment_id, m)
     | Inl e \<Rightarrow>
         if e = Io NotFound then
           bind (list_segments root) (\<lambda>segments.
           case segments of
             [] \<Rightarrow> fail (Corrupt ''no segments found'')
           | first # _ \<Rightarrow> bind (open_segment root first segment_size) (\<lambda>m. ret (first, m)))
         else fail e)"

text \<open>The reader at a position, which is also the one it will save.\<close>

definition rd_place_at :: "nat \<Rightarrow> queue_reader \<Rightarrow> queue_reader" where
  "rd_place_at offset r = r\<lparr>rd_read_offset := offset, rd_meta := (rd_meta r)\<lparr>rm_segment_id := rd_segment_id r, rm_offset := offset\<rparr>\<rparr>"

definition open_segment_for_seek :: "nat \<Rightarrow> nat \<Rightarrow> unit rd_io" where
  "open_segment_for_seek segment_id offset =
     bind (get fst) (\<lambda>r.
     bind (on_fs (q_file (open_or_first (rd_path r) segment_id (rd_segment_size r)))) (\<lambda>(resolved, m).
     upd (\<lambda>r. rd_place_at (if resolved = segment_id then max offset SEG_DATA_OFFSET else SEG_DATA_OFFSET)
                (r\<lparr>rd_mmap := m, rd_segment_id := as_u32 resolved\<rparr>))))"

section \<open>The scan\<close>

text \<open>Every message that \<open>next_ref\<close> returns leaves less to read, so the scan ends.\<close>

lemma trans_rd_order: "trans rd_order"
  by (intro trans_inv_image trans_lex_prod trans_less_than)

lemma next_ref_progress: "next_ref crc proc now (r, q) = (Inr (Some m), r', q') \<Longrightarrow> ((r', q'), (r, q)) \<in> rd_order"
proof (induction crc proc now "(r, q)" arbitrary: r q rule: next_ref.induct)
  case (1 crc proc now r q)
  let ?f = "record_at crc (as_slice (rd_mmap r) (q_fs q)) (rd_segment_size r) (rd_read_offset r)"
  show ?case
  proof (cases ?f)
    case NoRecord
    then obtain r1 q1 where a: "rd_advance_segment proc now (r, q) = (Inr True, r1, q1)" "next_ref crc proc now (r1, q1) = (Inr (Some m), r', q')"
      using 1(3) by (auto simp: next_ref.simps [of crc proc now r q] split: prod.splits sum.splits if_splits)
    have "((r', q'), (r1, q1)) \<in> rd_order"
      by (rule 1(1) [OF NoRecord a(1) [symmetric] refl refl TrueI a(2)])
    then show ?thesis using rd_order_advance [OF a(1)] trans_rd_order [THEN transD] by blast
  next
    case (Bad e after)
    then show ?thesis using 1(3) by (simp add: next_ref.simps [of crc proc now r q])
  next
    case (Padding after)
    then have "((r', q'), (r\<lparr>rd_read_offset := after\<rparr>, q)) \<in> rd_order"
      using 1(2) [OF Padding] 1(3) by (simp add: next_ref.simps [of crc proc now r q])
    moreover have "((r\<lparr>rd_read_offset := after\<rparr>, q), (r, q)) \<in> rd_order"
      using record_at_after [OF disjI1 [OF Padding]] rd_order_after by blast
    ultimately show ?thesis using trans_rd_order [THEN transD] by blast
  next
    case (Found x after)
    then have "r' = r\<lparr>rd_read_offset := after\<rparr>" "q' = q" using 1(3) by (simp_all add: next_ref.simps [of crc proc now r q])
    then show ?thesis using record_at_after [OF disjI2 [OF Found]] rd_order_after by blast
  qed
qed

function scan_until :: "(queue_ref \<Rightarrow> bool) \<Rightarrow> crc_fun \<Rightarrow> proc_fun \<Rightarrow> int \<Rightarrow> bool rd_io" where
  "scan_until stop crc proc now (r, q) =
     (case next_ref crc proc now (r, q) of
        (Inl e, r', q') \<Rightarrow> (Inl e, r', q')
      | (Inr None, r', q') \<Rightarrow> (Inr False, r', q')
      | (Inr (Some m), r', q') \<Rightarrow>
          if stop m then (Inr True, rd_place_at (qr_payload_offset m - HEADER_SIZE) r', q')
          else scan_until stop crc proc now (r', q'))"
  by pat_completeness auto
termination
proof (relation "inv_image rd_order (\<lambda>(stop, crc, proc, now, x). x)", goal_cases)
  case 1
  show ?case by (intro wf_inv_image wf_lex_prod wf_less_than)
next
  case (2 stop crc proc now r q)
  then show ?case by (auto dest!: sym [of "(_, _)" "next_ref _ _ _ _"] dest: next_ref_progress)
qed

declare scan_until.simps [simp del]

definition scan_to_seq :: "crc_fun \<Rightarrow> proc_fun \<Rightarrow> int \<Rightarrow> u64 \<Rightarrow> bool rd_io" where
  "scan_to_seq crc proc now target = scan_until (\<lambda>m. qr_seq m \<ge> target) crc proc now"

definition scan_to_timestamp :: "crc_fun \<Rightarrow> proc_fun \<Rightarrow> int \<Rightarrow> u64 \<Rightarrow> bool rd_io" where
  "scan_to_timestamp crc proc now target = scan_until (\<lambda>m. qr_timestamp_ns m \<ge> target) crc proc now"

section \<open>Seeking\<close>

text \<open>The segment and offset that the index gives for a target.\<close>

definition seek_place :: "(seek_index_header list \<Rightarrow> u64 \<Rightarrow> seek_index_header option) \<Rightarrow> (seek_index_entry list \<Rightarrow> u64 \<Rightarrow> seek_index_entry option) \<Rightarrow>
    path \<Rightarrow> nat list \<Rightarrow> u64 \<Rightarrow> (fs, nat \<times> nat) io" where
  "seek_place select find_entry root segments target =
     bind (load_seek_headers root segments) (\<lambda>headers.
     case select headers target of
       None \<Rightarrow> ret (hd segments, SEG_DATA_OFFSET)
     | Some header \<Rightarrow>
         bind (load_index_entries root header) (\<lambda>entries.
         ret (unat (ih_segment_id header),
              case find_entry entries target of
                None \<Rightarrow> unat (ih_data_offset header)
              | Some e \<Rightarrow> max (unat (ie_offset e)) SEG_DATA_OFFSET)))"

definition seek_seq :: "crc_fun \<Rightarrow> proc_fun \<Rightarrow> int \<Rightarrow> u64 \<Rightarrow> bool rd_io" where
  "seek_seq crc proc now target =
     bind (get fst) (\<lambda>r.
     bind (on_fs (q_file (list_segments (rd_path r)))) (\<lambda>segments.
     if segments = [] then ret False
     else bind (on_fs (q_file (seek_place select_header_for_seq find_entry_by_seq (rd_path r) segments target))) (\<lambda>(segment_id, offset).
          bind (open_segment_for_seek segment_id offset) (\<lambda>_.
          scan_to_seq crc proc now target))))"

definition seek_timestamp :: "crc_fun \<Rightarrow> proc_fun \<Rightarrow> int \<Rightarrow> u64 \<Rightarrow> bool rd_io" where
  "seek_timestamp crc proc now target =
     bind (get fst) (\<lambda>r.
     bind (on_fs (q_file (list_segments (rd_path r)))) (\<lambda>segments.
     if segments = [] then ret False
     else bind (on_fs (q_file (seek_place select_header_for_timestamp find_entry_by_timestamp (rd_path r) segments target))) (\<lambda>(segment_id, offset).
          bind (open_segment_for_seek segment_id offset) (\<lambda>_.
          scan_to_timestamp crc proc now target))))"

section \<open>What the searches find\<close>

lemma seq_search_spec:
  assumes "sorted (map ie_seq es)" "lo \<le> hi" "hi \<le> length es"
    and "\<forall>i < lo. ie_seq (es ! i) \<le> t" "\<forall>i < length es. hi \<le> i \<longrightarrow> t < ie_seq (es ! i)"
  shows "seq_search es t lo hi \<le> length es \<and> (\<forall>i < length es. i < seq_search es t lo hi \<longleftrightarrow> ie_seq (es ! i) \<le> t)"
  using assms
proof (induction es t lo hi rule: seq_search.induct)
  case (1 es t lo hi)
  let ?m = "(lo + hi) div 2"
  have mono: "ie_seq (es ! i) \<le> ie_seq (es ! j)" if "i \<le> j" "j < length es" for i j
    using sorted_nth_mono [OF 1(3), of i j] that by simp
  show ?case
  proof (cases "lo < hi")
    case False
    then have "lo = hi" "\<forall>i < length es. i < lo \<longleftrightarrow> ie_seq (es ! i) \<le> t"
      using 1(4-7) by (auto simp: not_less leD)
    then show ?thesis using 1(5) by (simp add: seq_search.simps [of es t hi hi])
  next
    case True
    then have m: "?m < hi" "lo \<le> ?m" "?m < length es" using 1(5) by auto
    show ?thesis
    proof (cases "ie_seq (es ! ?m) \<le> t")
      case le: True
      have "ie_seq (es ! i) \<le> t" if "i < ?m + 1" for i
        using order_trans [OF mono [of i ?m] le] m(3) that by simp
      then show ?thesis
        using 1(1) [OF True refl le 1(3)] m 1(5,7) True le by (simp add: seq_search.simps [of es t lo hi] Let_def)
    next
      case gt: False
      have "t < ie_seq (es ! i)" if "i < length es" "?m \<le> i" for i
        using gt mono [OF that(2,1)] by (meson not_le order_less_le_trans)
      then show ?thesis
        using 1(2) [OF True refl gt 1(3)] m 1(6) True gt by (simp add: seq_search.simps [of es t lo hi] Let_def)
    qed
  qed
qed

lemma fold_last: "fold (\<lambda>e best. if P e then Some e else best) es b = (if filter P es = [] then b else Some (last (filter P es)))"
  by (induction es arbitrary: b) auto

lemma filter_take:
  assumes "n \<le> length es" "\<forall>i < length es. i < n \<longleftrightarrow> P (es ! i)"
  shows "filter P es = take n es" "x \<in> set (drop n es) \<Longrightarrow> \<not> P x"
proof -
  have d: "\<not> P x" if x: "x \<in> set (drop n es)" for x
  proof -
    obtain i where "i < length es - n" "x = es ! (n + i)" using x assms(1) by (auto simp: in_set_conv_nth)
    then show ?thesis using assms(2) [rule_format, of "n + i"] by simp
  qed
  then show "x \<in> set (drop n es) \<Longrightarrow> \<not> P x" .
  have "filter P (take n es) = take n es" using assms by (auto simp: filter_id_conv in_set_conv_nth) (metis order_less_le_trans)
  moreover have "filter P (drop n es) = []" using d by (simp add: filter_empty_conv)
  ultimately show "filter P es = take n es" by (metis append_Nil2 append_take_drop_id filter_append)
qed

lemma find_entry_by_seq_index:
  assumes "sorted (map ie_seq es)"
  shows "\<exists>n \<le> length es. (\<forall>i < length es. i < n \<longleftrightarrow> ie_seq (es ! i) \<le> t) \<and>
    find_entry_by_seq es t = (if n = 0 then None else Some (es ! (n - 1)))"
  using seq_search_spec [OF assms, of 0 "length es" t]
  by (intro exI [of _ "seq_search es t 0 (length es)"]) (auto simp: find_entry_by_seq_def Let_def)

text \<open>
  The binary search of the index is right. On entries in the order of their sequence
  numbers \<open>find_entry_by_seq\<close> returns the last entry that is not behind the target, and none
  exactly when every entry is behind it: what the linear scan that \<open>find_entry_by_timestamp\<close>
  makes would find. All entries up to the returned one are at or before the target, all later
  ones behind it.
\<close>

lemma find_entry_by_seq_correct:
  assumes "sorted (map ie_seq es)"
  shows "find_entry_by_seq es t = fold (\<lambda>e best. if ie_seq e \<le> t then Some e else best) es None \<and>
    (find_entry_by_seq es t = None \<longleftrightarrow> (\<forall>e \<in> set es. t < ie_seq e)) \<and>
    (case find_entry_by_seq es t of None \<Rightarrow> True
     | Some e \<Rightarrow> \<exists>xs ys. es = xs @ e # ys \<and> ie_seq e \<le> t \<and> (\<forall>x \<in> set ys. t < ie_seq x))"
proof -
  obtain n where n: "n \<le> length es" "\<forall>i < length es. i < n \<longleftrightarrow> ie_seq (es ! i) \<le> t"
    "find_entry_by_seq es t = (if n = 0 then None else Some (es ! (n - 1)))"
    using find_entry_by_seq_index [OF assms] by blast
  have f: "filter (\<lambda>e. ie_seq e \<le> t) es = take n es" by (rule filter_take(1) [OF n(1,2)])
  have all: "(\<forall>e \<in> set es. t < ie_seq e) \<longleftrightarrow> take n es = []" unfolding f [symmetric] by (auto simp: filter_empty_conv not_le)
  have e: "n = 0 \<longleftrightarrow> take n es = []" using n(1) by auto
  have l: "last (take n es) = es ! (n - 1)" if "n \<noteq> 0" using that n(1) by (subst last_conv_nth) (auto simp: min_def)
  have x: "\<exists>xs ys. es = xs @ es ! (n - 1) # ys \<and> ie_seq (es ! (n - 1)) \<le> t \<and> (\<forall>x \<in> set ys. t < ie_seq x)" if "n \<noteq> 0"
  proof (intro exI conjI)
    show "es = take (n - 1) es @ es ! (n - 1) # drop n es" using id_take_nth_drop [of "n - 1" es] that n(1) by simp
    show "ie_seq (es ! (n - 1)) \<le> t" using n(1) n(2) [rule_format, of "n - 1"] that by simp
    show "\<forall>x \<in> set (drop n es). t < ie_seq x" using filter_take(2) [OF n(1,2)] by (auto simp: not_le)
  qed
  show ?thesis
  proof (cases "n = 0")
    case True
    then have "find_entry_by_seq es t = None" "take n es = []" using n(3) by simp_all
    then show ?thesis unfolding all fold_last f by simp
  next
    case False
    then have "find_entry_by_seq es t = Some (es ! (n - 1))" using n(3) by simp
    moreover have "take n es \<noteq> []" using e False by blast
    ultimately show ?thesis unfolding all fold_last f using l [OF False] x [OF False] by (simp only: option.case if_False option.distinct simp_thms)
  qed
qed

section \<open>Where a scan ends\<close>

lemma rd_at_place [simp]: "rd_at crc base segs cur k pre (rd_place_at off r, q) = rd_at crc base segs cur k pre (r\<lparr>rd_read_offset := off\<rparr>, q)"
  by (simp add: rd_at_def rd_place_at_def)

lemma scan_until_pending:
  assumes "\<And>y x m. ref_to y x m \<Longrightarrow> stop x = P m" "rd_pending crc base segs cur (r, q) ms"
  shows "\<exists>r'. scan_until stop crc proc now (r, q) = (Inr (\<exists>m \<in> set ms. P m), r', q) \<and>
    rd_pending crc base segs cur (r', q) (dropWhile (\<lambda>m. \<not> P m) ms)"
  using assms(2)
proof (induction ms arbitrary: r)
  case Nil
  then obtain k pre where "rd_at crc base segs cur k pre (r, q)" "messages (rd_rest segs cur k pre) = []"
    by (auto simp: rd_pending_def)
  then obtain r' where "next_ref crc proc now (r, q) = (Inr None, r', q)" "rd_at crc base segs cur (length segs) cur (r', q)"
    using next_ref_at [of crc base segs cur k pre r q "[]" proc now] by auto
  moreover from this have "rd_pending crc base segs cur (r', q) []"
    by (auto simp: rd_pending_def rd_rest_def intro!: exI [of _ "length segs"] exI [of _ cur])
  ultimately show ?case by (simp add: scan_until.simps)
next
  case (Cons m ms)
  then obtain k pre where a: "rd_at crc base segs cur k pre (r, q)" "messages (rd_rest segs cur k pre) = m # ms" "\<forall>x \<in> set (m # ms). msg_type_id x \<noteq> PAD_TYPE_ID"
    by (auto simp: rd_pending_def)
  obtain x r' k' pre' pre0 where n: "next_ref crc proc now (r, q) = (Inr (Some x), r', q)" "ref_to (r', q) x m"
    "rd_at crc base segs cur k' pre' (r', q)" "messages (rd_rest segs cur k' pre') = ms"
    "rd_at crc base segs cur k' pre0 (r'\<lparr>rd_read_offset := qr_payload_offset x - 64\<rparr>, q)" "messages (rd_rest segs cur k' pre0) = m # ms"
    using next_ref_at [OF a, of proc now] by auto
  show ?case
  proof (cases "P m")
    case True
    then have "scan_until stop crc proc now (r, q) = (Inr True, rd_place_at (qr_payload_offset x - 64) r', q)"
      using n(1) assms(1) [OF n(2)] by (simp add: scan_until.simps [of stop crc proc now r q])
    moreover have "rd_pending crc base segs cur (rd_place_at (qr_payload_offset x - 64) r', q) (m # ms)"
      using n(5,6) a(3) unfolding rd_pending_def rd_at_place by blast
    ultimately show ?thesis using True by auto
  next
    case False
    have "rd_pending crc base segs cur (r', q) ms" using n(3,4) a(3) by (auto simp: rd_pending_def)
    moreover have "scan_until stop crc proc now (r, q) = scan_until stop crc proc now (r', q)"
      using n(1) assms(1) [OF n(2)] False by (simp add: scan_until.simps [of stop crc proc now r q])
    ultimately show ?thesis using Cons.IH [of r'] False by simp
  qed
qed

section \<open>Where a seek ends\<close>

definition rd_before :: "entry list list \<Rightarrow> entry list \<Rightarrow> nat \<Rightarrow> entry list \<Rightarrow> entry list" where
  "rd_before segs cur k pre = concat (take k (segs @ [cur])) @ pre"

lemma rd_before_rest:
  assumes "k \<le> length segs" "prefix pre ((segs @ [cur]) ! k)"
  shows "queue_entries segs cur = rd_before segs cur k pre @ rd_rest segs cur k pre"
proof -
  obtain rest where rest: "(segs @ [cur]) ! k = pre @ rest" using assms(2) by (auto simp: prefix_def)
  have "segs @ [cur] = take k (segs @ [cur]) @ (segs @ [cur]) ! k # drop (Suc k) (segs @ [cur])"
    by (rule id_take_nth_drop) (use assms(1) in simp)
  then have "concat (segs @ [cur]) = concat (take k (segs @ [cur]) @ (segs @ [cur]) ! k # drop (Suc k) (segs @ [cur]))"
    by (rule arg_cong)
  then show ?thesis by (simp add: rd_before_def rd_rest_def queue_entries_def rest drop_append [of "length pre" pre] del: take_append drop_append)
qed

lemma open_segment_for_seek_at:
  assumes "queue_holds crc base segs cur (rd_path r) (rd_segment_size r) q" "rd_place base segs cur k pre i off"
  shows "\<exists>r'. open_segment_for_seek i off (r, q) = (Inr (), r', q) \<and> rd_at crc base segs cur k pre (r', q)"
proof -
  obtain ino where o: "lookup_path (q_fs q) (segment_path (rd_path r) i) = Some ino"
    "open_segment (rd_path r) i (rd_segment_size r) (q_fs q) = (Inr \<lparr>mm_ino = ino, mm_len = rd_segment_size r\<rparr>, q_fs q)"
    using rd_place_bounds(3) [OF assms] by auto
  let ?r = "rd_place_at (max off 64) (r\<lparr>rd_mmap := \<lparr>mm_ino = ino, mm_len = rd_segment_size r\<rparr>, rd_segment_id := i\<rparr>)"
  have oo: "open_or_first (rd_path r) i (rd_segment_size r) (q_fs q) = (Inr (i, \<lparr>mm_ino = ino, mm_len = rd_segment_size r\<rparr>), q_fs q)"
    unfolding open_or_first_def bind_def attempt_def o(2) by (simp add: ret_def)
  have "open_segment_for_seek i off (r, q) = (Inr (), ?r, q)"
    using rd_place_bounds(1) [OF assms]
    by (simp add: open_segment_for_seek_def bind_qfile_ok [where m = "open_or_first (rd_path r) i (rd_segment_size r)" and q = q, OF oo])
  moreover have "rd_at crc base segs cur k pre (?r, q)"
    using assms o(1) by (simp add: rd_at_def rd_place_def rd_place_at_def)
  ultimately show ?thesis by blast
qed

lemma seek_scan_lands:
  assumes H: "queue_holds crc base segs cur (rd_path r) (rd_segment_size r) q" and p: "rd_place base segs cur k pre i off"
    and ids: "list_segments (rd_path r) (q_fs q) = (Inr ids, q_fs q)" "ids \<noteq> []"
    and before: "\<forall>m \<in> set (messages (rd_before segs cur k pre)). \<not> P m"
    and nopad: "\<forall>m \<in> set (messages (queue_entries segs cur)). msg_type_id m \<noteq> PAD_TYPE_ID"
    and stop: "\<And>y x m. ref_to y x m \<Longrightarrow> stop x = P m"
    and pl: "seek_place select find_entry (rd_path r) ids target (q_fs q) = (Inr (i, off), q_fs q)"
  shows "\<exists>r'. bind (get fst) (\<lambda>r.
     bind (on_fs (q_file (list_segments (rd_path r)))) (\<lambda>segments.
     if segments = [] then ret False
     else bind (on_fs (q_file (seek_place select find_entry (rd_path r) segments target))) (\<lambda>(segment_id, offset).
          bind (open_segment_for_seek segment_id offset) (\<lambda>_. scan_until stop crc proc now)))) (r, q) =
      (Inr (\<exists>m \<in> set (messages (queue_entries segs cur)). P m), r', q) \<and>
    rd_pending crc base segs cur (r', q) (dropWhile (\<lambda>m. \<not> P m) (messages (queue_entries segs cur)))"
proof -
  let ?all = "messages (queue_entries segs cur)" and ?rest = "messages (rd_rest segs cur k pre)"
  have all: "?all = messages (rd_before segs cur k pre) @ ?rest" using rd_before_rest [of k segs pre cur] p by (simp add: rd_place_def)
  obtain r1 where r1: "open_segment_for_seek i off (r, q) = (Inr (), r1, q)" "rd_at crc base segs cur k pre (r1, q)"
    using open_segment_for_seek_at [OF H p] by blast
  have "rd_pending crc base segs cur (r1, q) ?rest" using r1(2) nopad all by (auto simp: rd_pending_def)
  then obtain r2 where r2: "scan_until stop crc proc now (r1, q) = (Inr (\<exists>m \<in> set ?rest. P m), r2, q)"
    "rd_pending crc base segs cur (r2, q) (dropWhile (\<lambda>m. \<not> P m) ?rest)"
    using scan_until_pending [where stop = stop and P = P and crc = crc and base = base and segs = segs and cur = cur and r = r1 and q = q
        and ms = ?rest and proc = proc and now = now] stop by blast
  have "(\<exists>m \<in> set ?all. P m) = (\<exists>m \<in> set ?rest. P m)" "dropWhile (\<lambda>m. \<not> P m) ?all = dropWhile (\<lambda>m. \<not> P m) ?rest"
    using before all by (auto simp: dropWhile_append2)
  then show ?thesis
    using ids pl r1(1) r2 by (simp add: bind_qfile_ok bind_ok [of "open_segment_for_seek i off"])
qed

lemma ref_to_seq: "ref_to y x m \<Longrightarrow> qr_seq x = msg_seq m" and ref_to_ts: "ref_to y x m \<Longrightarrow> qr_timestamp_ns x = msg_timestamp_ns m"
  by (auto simp: ref_to_def split: prod.splits)


lemma seek_timestamp_lands:
  assumes "queue_holds crc base segs cur (rd_path r) (rd_segment_size r) q" "rd_place base segs cur k pre i off"
    and "list_segments (rd_path r) (q_fs q) = (Inr ids, q_fs q)" "ids \<noteq> []"
    and "\<forall>m \<in> set (messages (rd_before segs cur k pre)). \<not> target \<le> msg_timestamp_ns m"
    and "\<forall>m \<in> set (messages (queue_entries segs cur)). msg_type_id m \<noteq> PAD_TYPE_ID"
    and "seek_place select_header_for_timestamp find_entry_by_timestamp (rd_path r) ids target (q_fs q) = (Inr (i, off), q_fs q)"
  shows "\<exists>r'. seek_timestamp crc proc now target (r, q) = (Inr (\<exists>m \<in> set (messages (queue_entries segs cur)). target \<le> msg_timestamp_ns m), r', q) \<and>
    rd_pending crc base segs cur (r', q) (dropWhile (\<lambda>m. \<not> target \<le> msg_timestamp_ns m) (messages (queue_entries segs cur)))"
  unfolding seek_timestamp_def scan_to_timestamp_def
  by (rule seek_scan_lands [OF assms(1-6) _ assms(7)]) (simp add: ref_to_ts)

text \<open>Such a queue, without an index file.\<close>

definition demo_one :: queue where
  "demo_one = \<lparr>q_fs = single_file (segment_filename 5) (demo_segment (\<lambda>_. 5)), q_ctrl = Some (cb_create 5 192 3 256)\<rparr>"

lemma demo_one_holds: "queue_holds (\<lambda>_. 5) 5 [] [Msg demo_msg] [] 256 demo_one"
  using one_segment_holds [of "q_fs demo_one" "\<lambda>_. 5" demo_msg]
  by (simp add: demo_one_def single_file_def demo_segment_def demo_len fs_wf_def dir_ok_def is_dir_def lookup_path_def segment_path_def)
    (simp add: demo_msg_def)


end
