(* ===== verification/Protocol.thy ===== *)
theory Protocol
  imports Prelude
begin

text \<open>
  \<^verbatim>\<open>src/src/protocol/mod.rs\<close>: the messages that order book feeds put into a queue, as plain
  \<open>repr(C)\<close> structures, and the writer of level-2 snapshots. A structure is read and written as the
  bytes of its memory on a little-endian host; the bytes that the compiler inserts between fields
  are not initialised, so what they hold when a structure is written is an argument.
\<close>

abbreviation (input) PROTOCOL_VERSION :: u16 where "PROTOCOL_VERSION \<equiv> 3"

section \<open>Enumerations\<close>

datatype type_id = BookEvent | BookTicker | Trade_Id

fun type_id_u16 :: "type_id \<Rightarrow> u16" where
  "type_id_u16 BookEvent = 0x1000"
| "type_id_u16 BookTicker = 0x1001"
| "type_id_u16 Trade_Id = 0x1002"

datatype book_event_type = Snapshot_Event | Diff_Event | Reset_Event | Heartbeat_Event

fun book_event_type_u8 :: "book_event_type \<Rightarrow> u8" where
  "book_event_type_u8 Snapshot_Event = 1"
| "book_event_type_u8 Diff_Event = 2"
| "book_event_type_u8 Reset_Event = 3"
| "book_event_type_u8 Heartbeat_Event = 4"

datatype book_mode = L2 | L3

fun book_mode_u8 :: "book_mode \<Rightarrow> u8" where
  "book_mode_u8 L2 = 0"
| "book_mode_u8 L3 = 1"

abbreviation (input) BOOK_ABSOLUTE :: u16 where "BOOK_ABSOLUTE \<equiv> 1"
abbreviation (input) PRICE_IS_MARKET :: u32 where "PRICE_IS_MARKET \<equiv> 1"

datatype l3_event_type = OrderAdd | OrderCancel | OrderModify | L3_Trade | L3_Reset | L3_Heartbeat

fun l3_event_type_u8 :: "l3_event_type \<Rightarrow> u8" where
  "l3_event_type_u8 OrderAdd = 1"
| "l3_event_type_u8 OrderCancel = 2"
| "l3_event_type_u8 OrderModify = 3"
| "l3_event_type_u8 L3_Trade = 4"
| "l3_event_type_u8 L3_Reset = 5"
| "l3_event_type_u8 L3_Heartbeat = 6"

datatype l3_side = SideUnknown | Buy | Sell

fun l3_side_u8 :: "l3_side \<Rightarrow> u8" where
  "l3_side_u8 SideUnknown = 0"
| "l3_side_u8 Buy = 1"
| "l3_side_u8 Sell = 2"

section \<open>Structures\<close>

record book_event_header =
  bh_schema_version :: u16
  bh_record_len :: u32
  bh_endianness :: u8
  bh_pad0 :: u8
  bh_venue_id :: u16
  bh_market_id :: u32
  bh_stream_id :: u32
  bh_ingest_ts_ns :: u64
  bh_exchange_ts_ns :: u64
  bh_seq :: u64
  bh_native_seq :: u64
  bh_event_type :: u8
  bh_book_mode :: u8
  bh_flags :: u16
  bh_pad1 :: u32

record l2_diff =
  ld_update_id_first :: u64
  ld_update_id_last :: u64
  ld_update_id_prev :: u64
  ld_price_scale :: u8
  ld_size_scale :: u8
  ld_flags :: u16
  ld_bid_count :: u16
  ld_ask_count :: u16

record l2_snapshot =
  ls_price_scale :: u8
  ls_size_scale :: u8
  ls_pad0 :: u16
  ls_bid_count :: u32
  ls_ask_count :: u32

record price_level_update =
  pu_price :: u64
  pu_size :: u64

record l3_event =
  le_event_type :: u8
  le_side :: u8
  le_ord_type :: u8
  le_exec_type :: u8
  le_price_scale :: u8
  le_size_scale :: u8
  le_pad0 :: u16
  le_flags :: u32
  le_pad1 :: u32
  le_order_id :: u64
  le_bid_order_id :: u64
  le_ask_order_id :: u64
  le_price :: u64
  le_qty :: u64
  le_amt :: u64

section \<open>Their memory\<close>

text \<open>
  The header has two gaps: two bytes behind \<open>schema_version\<close> and four behind \<open>stream_id\<close>, to
  align the fields that follow. The other structures have none.
\<close>

definition book_event_header_bytes :: "bytes \<times> bytes \<Rightarrow> book_event_header \<Rightarrow> bytes" where
  "book_event_header_bytes = (\<lambda>(gap1, gap2) h.
     u16_to_le (bh_schema_version h) @ gap1 @ u32_to_le (bh_record_len h) @
     [bh_endianness h, bh_pad0 h] @ u16_to_le (bh_venue_id h) @ u32_to_le (bh_market_id h) @
     u32_to_le (bh_stream_id h) @ gap2 @ u64_to_le (bh_ingest_ts_ns h) @ u64_to_le (bh_exchange_ts_ns h) @
     u64_to_le (bh_seq h) @ u64_to_le (bh_native_seq h) @ [bh_event_type h, bh_book_mode h] @
     u16_to_le (bh_flags h) @ u32_to_le (bh_pad1 h))"

definition book_event_header_of :: "bytes \<Rightarrow> book_event_header" where
  "book_event_header_of b =
     \<lparr>bh_schema_version = u16_from_le (bslice b 0 2), bh_record_len = u32_from_le (bslice b 4 8),
      bh_endianness = b ! 8, bh_pad0 = b ! 9, bh_venue_id = u16_from_le (bslice b 10 12),
      bh_market_id = u32_from_le (bslice b 12 16), bh_stream_id = u32_from_le (bslice b 16 20),
      bh_ingest_ts_ns = u64_from_le (bslice b 24 32), bh_exchange_ts_ns = u64_from_le (bslice b 32 40),
      bh_seq = u64_from_le (bslice b 40 48), bh_native_seq = u64_from_le (bslice b 48 56),
      bh_event_type = b ! 56, bh_book_mode = b ! 57, bh_flags = u16_from_le (bslice b 58 60),
      bh_pad1 = u32_from_le (bslice b 60 64)\<rparr>"

definition l2_diff_bytes :: "l2_diff \<Rightarrow> bytes" where
  "l2_diff_bytes d =
     u64_to_le (ld_update_id_first d) @ u64_to_le (ld_update_id_last d) @ u64_to_le (ld_update_id_prev d) @
     [ld_price_scale d, ld_size_scale d] @ u16_to_le (ld_flags d) @ u16_to_le (ld_bid_count d) @ u16_to_le (ld_ask_count d)"

definition l2_diff_of :: "bytes \<Rightarrow> l2_diff" where
  "l2_diff_of b =
     \<lparr>ld_update_id_first = u64_from_le (bslice b 0 8), ld_update_id_last = u64_from_le (bslice b 8 16),
      ld_update_id_prev = u64_from_le (bslice b 16 24), ld_price_scale = b ! 24, ld_size_scale = b ! 25,
      ld_flags = u16_from_le (bslice b 26 28), ld_bid_count = u16_from_le (bslice b 28 30),
      ld_ask_count = u16_from_le (bslice b 30 32)\<rparr>"

definition l2_snapshot_bytes :: "l2_snapshot \<Rightarrow> bytes" where
  "l2_snapshot_bytes s =
     [ls_price_scale s, ls_size_scale s] @ u16_to_le (ls_pad0 s) @ u32_to_le (ls_bid_count s) @ u32_to_le (ls_ask_count s)"

definition l2_snapshot_of :: "bytes \<Rightarrow> l2_snapshot" where
  "l2_snapshot_of b =
     \<lparr>ls_price_scale = b ! 0, ls_size_scale = b ! 1, ls_pad0 = u16_from_le (bslice b 2 4),
      ls_bid_count = u32_from_le (bslice b 4 8), ls_ask_count = u32_from_le (bslice b 8 12)\<rparr>"

definition price_level_bytes :: "price_level_update \<Rightarrow> bytes" where
  "price_level_bytes l = u64_to_le (pu_price l) @ u64_to_le (pu_size l)"

definition price_level_of :: "bytes \<Rightarrow> price_level_update" where
  "price_level_of b = \<lparr>pu_price = u64_from_le (bslice b 0 8), pu_size = u64_from_le (bslice b 8 16)\<rparr>"

definition l3_event_bytes :: "l3_event \<Rightarrow> bytes" where
  "l3_event_bytes e =
     [le_event_type e, le_side e, le_ord_type e, le_exec_type e, le_price_scale e, le_size_scale e] @
     u16_to_le (le_pad0 e) @ u32_to_le (le_flags e) @ u32_to_le (le_pad1 e) @ u64_to_le (le_order_id e) @
     u64_to_le (le_bid_order_id e) @ u64_to_le (le_ask_order_id e) @ u64_to_le (le_price e) @ u64_to_le (le_qty e) @
     u64_to_le (le_amt e)"

definition l3_event_of :: "bytes \<Rightarrow> l3_event" where
  "l3_event_of b =
     \<lparr>le_event_type = b ! 0, le_side = b ! 1, le_ord_type = b ! 2, le_exec_type = b ! 3,
      le_price_scale = b ! 4, le_size_scale = b ! 5, le_pad0 = u16_from_le (bslice b 6 8),
      le_flags = u32_from_le (bslice b 8 12), le_pad1 = u32_from_le (bslice b 12 16),
      le_order_id = u64_from_le (bslice b 16 24), le_bid_order_id = u64_from_le (bslice b 24 32),
      le_ask_order_id = u64_from_le (bslice b 32 40), le_price = u64_from_le (bslice b 40 48),
      le_qty = u64_from_le (bslice b 48 56), le_amt = u64_from_le (bslice b 56 64)\<rparr>"

text \<open>\<open>read_copy\<close>: a structure of \<open>n\<close> bytes at an offset of a buffer, or none when it does not fit.\<close>

definition read_copy :: "nat \<Rightarrow> (bytes \<Rightarrow> 'a) \<Rightarrow> bytes \<Rightarrow> nat \<Rightarrow> 'a option" where
  "read_copy n of_bytes buf offset =
     (if length buf < offset + n then None else Some (of_bytes (bslice buf offset (offset + n))))"

abbreviation read_header :: "bytes \<Rightarrow> nat \<Rightarrow> book_event_header option" where
  "read_header \<equiv> read_copy 64 book_event_header_of"

abbreviation read_l2_diff :: "bytes \<Rightarrow> nat \<Rightarrow> l2_diff option" where
  "read_l2_diff \<equiv> read_copy 32 l2_diff_of"

abbreviation read_l2_snapshot :: "bytes \<Rightarrow> nat \<Rightarrow> l2_snapshot option" where
  "read_l2_snapshot \<equiv> read_copy 12 l2_snapshot_of"

abbreviation read_price_level :: "bytes \<Rightarrow> nat \<Rightarrow> price_level_update option" where
  "read_price_level \<equiv> read_copy 16 price_level_of"

abbreviation read_l3_event :: "bytes \<Rightarrow> nat \<Rightarrow> l3_event option" where
  "read_l3_event \<equiv> read_copy 64 l3_event_of"

text \<open>
  What the readers of a structure rely on: it has its size, and reading its bytes wherever they
  stand in a buffer returns it.
\<close>

locale pod =
  fixes to_b :: "'a \<Rightarrow> bytes"
    and of_b :: "bytes \<Rightarrow> 'a"
    and width :: nat
  assumes length_to: "length (to_b x) = width"
    and of_to: "of_b (to_b x) = x"
begin

lemma read_back: "read_copy width of_b (pre @ to_b x @ post) (length pre) = Some x"
  by (simp add: read_copy_def length_to of_to bslice_def)

lemma read_short: "length buf < off + width \<Longrightarrow> read_copy width of_b buf off = None"
  by (simp add: read_copy_def)

end

lemmas bytes_at = bslice_def nth_append nth_Cons' take_append drop_append

interpretation l2_diff_pod: pod l2_diff_bytes l2_diff_of 32
  by unfold_locales (simp_all add: l2_diff_bytes_def l2_diff_of_def bytes_at)

interpretation l2_snapshot_pod: pod l2_snapshot_bytes l2_snapshot_of 12
  by unfold_locales (simp_all add: l2_snapshot_bytes_def l2_snapshot_of_def bytes_at)

interpretation price_level_pod: pod price_level_bytes price_level_of 16
  by unfold_locales (simp_all add: price_level_bytes_def price_level_of_def bytes_at)

interpretation l3_event_pod: pod l3_event_bytes l3_event_of 64
  by unfold_locales (simp_all add: l3_event_bytes_def l3_event_of_def bytes_at)

text \<open>The header, whatever stands in its gaps.\<close>

definition gaps_ok :: "bytes \<times> bytes \<Rightarrow> bool" where
  "gaps_ok = (\<lambda>(gap1, gap2). length gap1 = 2 \<and> length gap2 = 4)"

lemma header_bytes:
  assumes "gaps_ok g"
  shows "length (book_event_header_bytes g h) = 64" "book_event_header_of (book_event_header_bytes g h) = h"
proof -
  obtain a b c d e f where g: "g = ([a, b], [c, d, e, f])"
    using assms by (cases g) (auto simp: gaps_ok_def numeral_eq_Suc length_Suc_conv)
  show "length (book_event_header_bytes g h) = 64" by (simp add: g book_event_header_bytes_def)
  show "book_event_header_of (book_event_header_bytes g h) = h"
    by (simp add: g book_event_header_bytes_def book_event_header_of_def bytes_at)
qed

lemma read_header_back:
  "gaps_ok g \<Longrightarrow> read_header (pre @ book_event_header_bytes g h @ post) (length pre) = Some h"
  by (simp add: read_copy_def header_bytes bslice_def)

section \<open>Writing a level-2 snapshot\<close>

definition l2_snapshot_size :: "nat \<Rightarrow> nat \<Rightarrow> nat" where
  "l2_snapshot_size bid_count ask_count = 64 + 12 + (bid_count + ask_count) * 16"

fun put_levels :: "bytes \<Rightarrow> nat \<Rightarrow> (u64 \<times> u64) list \<Rightarrow> bytes" where
  "put_levels buf offset [] = buf"
| "put_levels buf offset ((price, sz) # levels) =
     put_levels (bsplice buf offset (price_level_bytes \<lparr>pu_price = price, pu_size = sz\<rparr>)) (offset + 16) levels"

text \<open>The function returns the number of bytes it has written, and the buffer is \<open>&mut\<close>.\<close>

definition write_l2_snapshot ::
  "bytes \<times> bytes \<Rightarrow> bytes \<Rightarrow> u16 \<Rightarrow> u32 \<Rightarrow> u64 \<Rightarrow> u8 \<Rightarrow> u8 \<Rightarrow> (u64 \<times> u64) list \<Rightarrow> (u64 \<times> u64) list \<Rightarrow> (nat \<times> bytes) result" where
  "write_l2_snapshot gaps buf venue_id market_id timestamp_ns price_scale size_scale bids asks =
     (let payload_len = l2_snapshot_size (length bids) (length asks) in
      if length buf < payload_len then Inl (Panic ''buffer too small'')
      else let header = \<lparr>bh_schema_version = PROTOCOL_VERSION, bh_record_len = word_of_nat payload_len, bh_endianness = 0,
                  bh_pad0 = 0, bh_venue_id = venue_id, bh_market_id = market_id, bh_stream_id = 0,
                  bh_ingest_ts_ns = timestamp_ns, bh_exchange_ts_ns = timestamp_ns, bh_seq = 0, bh_native_seq = 0,
                  bh_event_type = book_event_type_u8 Snapshot_Event, bh_book_mode = book_mode_u8 L2,
                  bh_flags = BOOK_ABSOLUTE, bh_pad1 = 0\<rparr>;
               buf = bsplice buf 0 (book_event_header_bytes gaps header);
               snapshot = \<lparr>ls_price_scale = price_scale, ls_size_scale = size_scale, ls_pad0 = 0,
                  ls_bid_count = word_of_nat (length bids), ls_ask_count = word_of_nat (length asks)\<rparr>;
               buf = bsplice buf 64 (l2_snapshot_bytes snapshot);
               buf = put_levels buf (64 + 12) bids;
               buf = put_levels buf (64 + 12 + length bids * 16) asks
           in Inr (payload_len, buf))"

definition levels_bytes :: "(u64 \<times> u64) list \<Rightarrow> bytes" where
  "levels_bytes ls = concat (map (\<lambda>(p, s). price_level_bytes \<lparr>pu_price = p, pu_size = s\<rparr>) ls)"

lemma length_levels_bytes [simp]: "length (levels_bytes ls) = length ls * 16"
  by (induction ls) (auto simp: levels_bytes_def price_level_pod.length_to)

lemma bsplice_at: "a = length pre \<Longrightarrow> bsplice (pre @ rest) a xs = pre @ xs @ drop (length xs) rest"
  by (simp add: bsplice_def)

lemma put_levels_at:
  "off = length pre \<Longrightarrow> put_levels (pre @ rest) off ls = pre @ levels_bytes ls @ drop (length ls * 16) rest"
proof (induction ls arbitrary: pre rest off)
  case (Cons l ls)
  obtain p s where l: "l = (p, s)" by (cases l)
  let ?b = "price_level_bytes \<lparr>pu_price = p, pu_size = s\<rparr>"
  have len: "length ?b = 16" by (rule price_level_pod.length_to)
  show ?case
    using Cons.IH [of "off + 16" "pre @ ?b" "drop 16 rest"] Cons.prems len
    by (simp add: l bsplice_at levels_bytes_def add.commute)
qed (simp add: levels_bytes_def)

text \<open>The bytes of the snapshot, and what the buffer held behind them.\<close>

lemma write_l2_snapshot_eq:
  assumes "gaps_ok g" "l2_snapshot_size (length bids) (length asks) \<le> length buf"
  shows "\<exists>h. write_l2_snapshot g buf v m t ps ss bids asks =
      Inr (l2_snapshot_size (length bids) (length asks),
        book_event_header_bytes g h @
        l2_snapshot_bytes \<lparr>ls_price_scale = ps, ls_size_scale = ss, ls_pad0 = 0,
          ls_bid_count = word_of_nat (length bids), ls_ask_count = word_of_nat (length asks)\<rparr> @
        levels_bytes bids @ levels_bytes asks @ drop (l2_snapshot_size (length bids) (length asks)) buf) \<and>
    bh_event_type h = 1 \<and> bh_book_mode h = 0 \<and> bh_venue_id h = v \<and> bh_market_id h = m \<and>
    bh_exchange_ts_ns h = t \<and> bh_ingest_ts_ns h = t \<and> bh_schema_version h = PROTOCOL_VERSION \<and>
    bh_record_len h = word_of_nat (l2_snapshot_size (length bids) (length asks))"
proof -
  let ?n = "length bids" and ?k = "length asks"
  let ?z = "l2_snapshot_size ?n ?k"
  let ?h = "\<lparr>bh_schema_version = PROTOCOL_VERSION, bh_record_len = word_of_nat ?z, bh_endianness = 0,
     bh_pad0 = 0, bh_venue_id = v, bh_market_id = m, bh_stream_id = 0, bh_ingest_ts_ns = t, bh_exchange_ts_ns = t,
     bh_seq = 0, bh_native_seq = 0, bh_event_type = 1, bh_book_mode = 0, bh_flags = BOOK_ABSOLUTE, bh_pad1 = 0\<rparr>"
  let ?s = "\<lparr>ls_price_scale = ps, ls_size_scale = ss, ls_pad0 = 0, ls_bid_count = word_of_nat ?n, ls_ask_count = word_of_nat ?k\<rparr>"
  let ?hb = "book_event_header_bytes g ?h" and ?sb = "l2_snapshot_bytes ?s"
  have hl: "length ?hb = 64" using header_bytes(1) [OF assms(1)] .
  have sl: "length ?sb = 12" by (rule l2_snapshot_pod.length_to)
  have z: "?z = 76 + ?n * 16 + ?k * 16" by (simp add: l2_snapshot_size_def)
  have "bsplice buf 0 ?hb = ?hb @ drop 64 buf" using bsplice_at [of 0 "[]" buf ?hb] hl by simp
  moreover have "bsplice (?hb @ drop 64 buf) 64 ?sb = (?hb @ ?sb) @ drop 76 buf" using bsplice_at [of 64 ?hb "drop 64 buf" ?sb] hl sl by simp
  moreover have "put_levels ((?hb @ ?sb) @ drop 76 buf) 76 bids = (?hb @ ?sb @ levels_bytes bids) @ drop (76 + ?n * 16) buf"
    using put_levels_at [of 76 "?hb @ ?sb" "drop 76 buf" bids] hl sl by (simp add: add.commute)
  moreover have "put_levels ((?hb @ ?sb @ levels_bytes bids) @ drop (76 + ?n * 16) buf) (76 + ?n * 16) asks =
      (?hb @ ?sb @ levels_bytes bids @ levels_bytes asks) @ drop ?z buf"
    using put_levels_at [of "76 + ?n * 16" "?hb @ ?sb @ levels_bytes bids" "drop (76 + ?n * 16) buf" asks] hl sl z by (simp add: add.commute add.left_commute)
  ultimately have "write_l2_snapshot g buf v m t ps ss bids asks = Inr (?z, ?hb @ ?sb @ levels_bytes bids @ levels_bytes asks @ drop ?z buf)"
    using assms(2) by (simp add: write_l2_snapshot_def Let_def)
  then show ?thesis by (intro exI [of _ ?h]) simp
qed

end
