(* ===== verification/Sequencer.thy ===== *)
theory Sequencer
  imports Names
begin

text \<open>
  \<^verbatim>\<open>src/src/core/sequencer/mod.rs\<close>: detection of gaps in sequence numbers. Sequence numbers
  are 64-bit words and wrap around.
\<close>

section \<open>The validator\<close>

datatype gap_policy = GapPanic | Quarantine | Ignore

datatype gap_detection = Sequential | Gap u64 u64

record sequence_validator =
  sv_last_seq :: "u64 option"
  sv_policy :: gap_policy

definition sv_new :: "gap_policy \<Rightarrow> sequence_validator" where
  "sv_new policy = \<lparr>sv_last_seq = None, sv_policy = policy\<rparr>"

definition sv_set_policy :: "gap_policy \<Rightarrow> sequence_validator \<Rightarrow> sequence_validator" where
  "sv_set_policy policy v = v\<lparr>sv_policy := policy\<rparr>"

definition sv_reset :: "sequence_validator \<Rightarrow> sequence_validator" where
  "sv_reset v = v\<lparr>sv_last_seq := None\<rparr>"

text \<open>The error of the \<open>bail!\<close> carries the gap its message is formatted from.\<close>

fun is_gap :: "u64 option \<Rightarrow> u64 \<Rightarrow> gap_detection" where
  "is_gap None seq = Sequential"
| "is_gap (Some prev) seq = (if seq \<noteq> prev + 1 then Gap prev seq else Sequential)"

definition sv_check :: "u64 \<Rightarrow> sequence_validator \<Rightarrow> (gap_detection + gap_detection) \<times> sequence_validator" where
  "sv_check seq v =
     (case sv_last_seq v of
        Some prev \<Rightarrow>
          if seq \<noteq> prev + 1 then
            (case sv_policy v of
               GapPanic \<Rightarrow> (Inl (Gap prev seq), v)
             | Quarantine \<Rightarrow> (Inr (Gap prev seq), v\<lparr>sv_last_seq := Some seq\<rparr>)
             | Ignore \<Rightarrow> (Inr (Gap prev seq), v\<lparr>sv_last_seq := Some seq\<rparr>))
          else (Inr Sequential, v\<lparr>sv_last_seq := Some seq\<rparr>)
      | None \<Rightarrow> (Inr Sequential, v\<lparr>sv_last_seq := Some seq\<rparr>))"

text \<open>The message of the \<open>bail!\<close> in the check.\<close>

fun gap_error :: "gap_detection \<Rightarrow> error" where
  "gap_error (Gap prev seq) =
     Anyhow (''sequence gap detected: '' @ dec_digits (unat prev) @ '' -> '' @ dec_digits (unat seq) @
       '' (missing '' @ dec_digits (unat seq - unat prev - 1) @ '' messages)'')"
| "gap_error Sequential = Anyhow []"

definition sv_check_relaxed :: "u64 \<Rightarrow> sequence_validator \<Rightarrow> gap_detection \<times> sequence_validator" where
  "sv_check_relaxed seq v =
     (case sv_last_seq v of
        Some prev \<Rightarrow>
          if seq \<noteq> prev + 1 then (Gap prev seq, v\<lparr>sv_last_seq := Some seq\<rparr>)
          else (Sequential, v\<lparr>sv_last_seq := Some seq\<rparr>)
      | None \<Rightarrow> (Sequential, v\<lparr>sv_last_seq := Some seq\<rparr>))"

section \<open>Checking a stream\<close>

text \<open>Feeding a whole stream, stopping at the first error as every caller does with \<open>?\<close>.\<close>

fun sv_run :: "sequence_validator \<Rightarrow> u64 list \<Rightarrow> (gap_detection + gap_detection list) \<times> sequence_validator" where
  "sv_run v [] = (Inr [], v)"
| "sv_run v (q # qs) =
     (case sv_check q v of
        (Inl e, v') \<Rightarrow> (Inl e, v')
      | (Inr d, v') \<Rightarrow> (case sv_run v' qs of
            (Inl e, v'') \<Rightarrow> (Inl e, v'')
          | (Inr ds, v'') \<Rightarrow> (Inr (d # ds), v'')))"

text \<open>The reference: the gaps of a stream after a last number.\<close>

fun gaps :: "u64 option \<Rightarrow> u64 list \<Rightarrow> gap_detection list" where
  "gaps p [] = []"
| "gaps p (q # qs) = is_gap p q # gaps (Some q) qs"

lemma sv_check_lenient:
  "sv_policy v \<noteq> GapPanic \<Longrightarrow>
   sv_check q v = (Inr (is_gap (sv_last_seq v) q), v\<lparr>sv_last_seq := Some q\<rparr>)"
  by (cases "sv_last_seq v"; cases "sv_policy v") (auto simp: sv_check_def)

lemma sv_check_strict:
  "sv_policy v = GapPanic \<Longrightarrow>
   sv_check q v = (case is_gap (sv_last_seq v) q of
      Sequential \<Rightarrow> (Inr Sequential, v\<lparr>sv_last_seq := Some q\<rparr>)
    | Gap a b \<Rightarrow> (Inl (Gap a b), v))"
  by (cases "sv_last_seq v") (auto simp: sv_check_def)

text \<open>
  Under \<open>Quarantine\<close> and \<open>Ignore\<close> a validator never fails and reports exactly
  the gaps of the stream; \<open>check_relaxed\<close> reports the same whatever the policy.
\<close>

lemma lenient_reports_gaps:
  assumes "sv_policy v \<noteq> GapPanic"
  shows "sv_run v qs = (Inr (gaps (sv_last_seq v) qs), v\<lparr>sv_last_seq := (if qs = [] then sv_last_seq v else Some (last qs))\<rparr>) \<and>
    sv_check_relaxed q u = (is_gap (sv_last_seq u) q, u\<lparr>sv_last_seq := Some q\<rparr>)"
proof
  show "sv_run v qs = (Inr (gaps (sv_last_seq v) qs), v\<lparr>sv_last_seq := (if qs = [] then sv_last_seq v else Some (last qs))\<rparr>)"
    using assms by (induction qs arbitrary: v) (simp_all add: sv_check_lenient)
  show "sv_check_relaxed q u = (is_gap (sv_last_seq u) q, u\<lparr>sv_last_seq := Some q\<rparr>)"
    by (cases "sv_last_seq u") (auto simp: sv_check_relaxed_def)
qed

lemma strict_prefix:
  assumes "sv_policy v = GapPanic" "\<forall>d \<in> set (gaps (sv_last_seq v) qs). d = Sequential"
  shows "sv_run v (qs @ rs) = (let u = v\<lparr>sv_last_seq := (if qs = [] then sv_last_seq v else Some (last qs))\<rparr> in
      case sv_run u rs of (Inl e, w) \<Rightarrow> (Inl e, w) | (Inr ds, w) \<Rightarrow> (Inr (replicate (length qs) Sequential @ ds), w))"
  using assms
proof (induction qs arbitrary: v)
  case Nil
  then show ?case by (simp split: sum.splits prod.splits)
next
  case (Cons q qs)
  from Cons.prems have "sv_check q v = (Inr Sequential, v\<lparr>sv_last_seq := Some q\<rparr>)" by (simp add: sv_check_strict)
  then show ?case using Cons by (simp add: Let_def split: sum.splits prod.splits)
qed

text \<open>
  Under the default policy a validator accepts a stream exactly when each number
  is the wrapping successor of the one before it; otherwise it fails at the first gap, and its
  last number is still the one in front of the gap, so that it goes on when the missing number
  arrives.
\<close>

lemma strict_stops_at_gap:
  assumes "sv_policy v = GapPanic" "\<forall>d \<in> set (gaps (sv_last_seq v) (ps @ [q])). d = Sequential"
  shows "sv_run v (ps @ [q] @ r # rs) =
    (if r = q + 1
     then (case sv_run (v\<lparr>sv_last_seq := Some r\<rparr>) rs of
             (Inl e, w) \<Rightarrow> (Inl e, w)
           | (Inr ds, w) \<Rightarrow> (Inr (replicate (length ps + 2) Sequential @ ds), w))
     else (Inl (Gap q r), v\<lparr>sv_last_seq := Some q\<rparr>))"
  using strict_prefix [OF assms, of "r # rs"] assms(1)
  by (simp add: sv_check_strict replicate_append_same split: sum.splits prod.splits)

end
