(* ===== verification/L2_Replay.thy ===== *)
theory L2_Replay
  imports Protocol Sequencer Records "HOL-Library.Mapping" "HOL-Library.AList_Mapping"
begin

text \<open>
  \<^verbatim>\<open>src/src/stream/replay/mod.rs\<close>: the level-2 book and the application of one message to it.
  A \<open>BTreeMap\<close> is a \<open>mapping\<close>. Sequence gaps, foreign messages and short payloads are skipped and
  reported; only a snapshot or a diff that is complete changes the book.
\<close>

section \<open>The book\<close>

record l2_book =
  lb_bids :: "(u64, u64) mapping"
  lb_asks :: "(u64, u64) mapping"
  lb_price_scale :: u8
  lb_size_scale :: u8

definition l2_book_new :: l2_book where
  "l2_book_new = \<lparr>lb_bids = Mapping.empty, lb_asks = Mapping.empty, lb_price_scale = 0, lb_size_scale = 0\<rparr>"

text \<open>One side: a snapshot inserts its levels, a diff removes those of size zero.\<close>

definition insert_level :: "price_level_update \<Rightarrow> (u64, u64) mapping \<Rightarrow> (u64, u64) mapping" where
  "insert_level l m = (if pu_size l \<noteq> 0 then Mapping.update (pu_price l) (pu_size l) m else m)"

definition diff_level :: "price_level_update \<Rightarrow> (u64, u64) mapping \<Rightarrow> (u64, u64) mapping" where
  "diff_level l m = (if pu_size l = 0 then Mapping.delete (pu_price l) m else Mapping.update (pu_price l) (pu_size l) m)"

definition apply_snapshot :: "l2_snapshot \<Rightarrow> price_level_update list \<Rightarrow> price_level_update list \<Rightarrow> l2_book \<Rightarrow> l2_book" where
  "apply_snapshot s bids asks b =
     b\<lparr>lb_price_scale := ls_price_scale s, lb_size_scale := ls_size_scale s,
       lb_bids := fold insert_level bids Mapping.empty, lb_asks := fold insert_level asks Mapping.empty\<rparr>"

definition apply_diff :: "l2_diff \<Rightarrow> price_level_update list \<Rightarrow> price_level_update list \<Rightarrow> l2_book \<Rightarrow> l2_book" where
  "apply_diff d bids asks b =
     b\<lparr>lb_price_scale := ld_price_scale d, lb_size_scale := ld_size_scale d,
       lb_bids := fold diff_level bids (lb_bids b), lb_asks := fold diff_level asks (lb_asks b)\<rparr>"

section \<open>Levels of a payload\<close>

record levels_view =
  lv_buf :: bytes
  lv_offset :: nat
  lv_bid_count :: nat
  lv_ask_count :: nat

text \<open>The counts are at most 32 bits wide, so neither the sum, the product nor the end overflows.\<close>

definition levels_view_new :: "bytes \<Rightarrow> nat \<Rightarrow> nat \<Rightarrow> nat \<Rightarrow> levels_view option" where
  "levels_view_new buf offset bid_count ask_count =
     (case checked_add64 bid_count ask_count of
        None \<Rightarrow> None
      | Some levels \<Rightarrow>
          if levels * 16 > u64_max then None
          else if length buf < offset + levels * 16 then None
          else Some \<lparr>lv_buf = buf, lv_offset = offset, lv_bid_count = bid_count, lv_ask_count = ask_count\<rparr>)"

text \<open>\<open>PriceLevelIter\<close>: it ends after its count, or at the first level that does not fit.\<close>

fun price_levels :: "bytes \<Rightarrow> nat \<Rightarrow> nat \<Rightarrow> price_level_update list" where
  "price_levels buf offset 0 = []"
| "price_levels buf offset (Suc remaining) =
     (case read_price_level buf offset of
        None \<Rightarrow> []
      | Some item \<Rightarrow> item # price_levels buf (offset + 16) remaining)"

definition bids_iter :: "levels_view \<Rightarrow> price_level_update list" where
  "bids_iter v = price_levels (lv_buf v) (lv_offset v) (lv_bid_count v)"

definition asks_iter :: "levels_view \<Rightarrow> price_level_update list" where
  "asks_iter v = price_levels (lv_buf v) (lv_offset v + lv_bid_count v * 16) (lv_ask_count v)"

section \<open>One message\<close>

datatype skip_reason = NonBookEvent | UnsupportedMode | UnsupportedEvent | Corrupt_Event | Gap_Event

datatype replay_update = Applied u64 book_event_type | Skipped u64 skip_reason

datatype event_payload = Snapshot_Payload l2_snapshot levels_view | Diff_Payload l2_diff levels_view |
  Reset_Payload | Heartbeat_Payload | Unsupported_Payload

record book_event =
  be_header :: book_event_header
  be_payload :: event_payload

record applied_message =
  am_update :: replay_update
  am_book_event :: "book_event option"

abbreviation skipped :: "u64 \<Rightarrow> skip_reason \<Rightarrow> book_event option \<Rightarrow> applied_message" where
  "skipped seq reason e \<equiv> \<lparr>am_update = Skipped seq reason, am_book_event = e\<rparr>"

text \<open>What the message means for the book, once its sequence number has been checked.\<close>

definition apply_book_event :: "message \<Rightarrow> l2_book \<Rightarrow> applied_message \<times> l2_book" where
  "apply_book_event msg book =
     (if msg_type_id msg \<noteq> type_id_u16 BookEvent then (skipped (msg_seq msg) NonBookEvent None, book)
      else let payload = msg_payload msg in
        case read_header payload 0 of
          None \<Rightarrow> (skipped (msg_seq msg) Corrupt_Event None, book)
        | Some header \<Rightarrow>
            let unsupported = Some \<lparr>be_header = header, be_payload = Unsupported_Payload\<rparr> in
            if bh_book_mode header \<noteq> book_mode_u8 L2 then (skipped (msg_seq msg) UnsupportedMode unsupported, book)
            else if bh_event_type header = book_event_type_u8 Snapshot_Event then
              (case read_l2_snapshot payload 64 of
                 None \<Rightarrow> (skipped (msg_seq msg) Corrupt_Event unsupported, book)
               | Some s \<Rightarrow>
                   (case levels_view_new payload (64 + 12) (unat (ls_bid_count s)) (unat (ls_ask_count s)) of
                      None \<Rightarrow> (skipped (msg_seq msg) Corrupt_Event unsupported, book)
                    | Some levels \<Rightarrow>
                        (\<lparr>am_update = Applied (msg_seq msg) Snapshot_Event,
                          am_book_event = Some \<lparr>be_header = header, be_payload = Snapshot_Payload s levels\<rparr>\<rparr>,
                         apply_snapshot s (bids_iter levels) (asks_iter levels) book)))
            else if bh_event_type header = book_event_type_u8 Diff_Event then
              (case read_l2_diff payload 64 of
                 None \<Rightarrow> (skipped (msg_seq msg) Corrupt_Event unsupported, book)
               | Some d \<Rightarrow>
                   (case levels_view_new payload (64 + 32) (unat (ld_bid_count d)) (unat (ld_ask_count d)) of
                      None \<Rightarrow> (skipped (msg_seq msg) Corrupt_Event unsupported, book)
                    | Some levels \<Rightarrow>
                        (\<lparr>am_update = Applied (msg_seq msg) Diff_Event,
                          am_book_event = Some \<lparr>be_header = header, be_payload = Diff_Payload d levels\<rparr>\<rparr>,
                         apply_diff d (bids_iter levels) (asks_iter levels) book)))
            else (skipped (msg_seq msg) UnsupportedEvent unsupported, book))"

text \<open>The state that \<open>apply_message\<close> changes: the validator, the last gap and the book.\<close>

type_synonym replay_state = "sequence_validator \<times> (u64 \<times> u64) option \<times> l2_book"

definition l2_apply_message :: "message \<Rightarrow> replay_state \<Rightarrow> (gap_detection + applied_message) \<times> replay_state" where
  "l2_apply_message msg = (\<lambda>(sequencer, last_gap, book).
     case sv_check (msg_seq msg) sequencer of
       (Inl e, sequencer') \<Rightarrow> (Inl e, sequencer', last_gap, book)
     | (Inr Sequential, sequencer') \<Rightarrow>
         (case apply_book_event msg book of (a, book') \<Rightarrow> (Inr a, sequencer', last_gap, book'))
     | (Inr (Gap from to), sequencer') \<Rightarrow>
         if sv_policy sequencer' = Quarantine
         then (Inr (skipped (msg_seq msg) Gap_Event None), sequencer', Some (from, to), book)
         else (case apply_book_event msg book of (a, book') \<Rightarrow> (Inr a, sequencer', Some (from, to), book')))"

section \<open>Reading back levels\<close>

lemma price_levels_back:
  "length pre = off \<Longrightarrow> price_levels (pre @ levels_bytes ls @ post) off (length ls) = map (\<lambda>(p, s). \<lparr>pu_price = p, pu_size = s\<rparr>) ls"
proof (induction ls arbitrary: pre off)
  case (Cons l ls)
  obtain p s where l: "l = (p, s)" by (cases l)
  let ?u = "\<lparr>pu_price = p, pu_size = s\<rparr>"
  have "levels_bytes (l # ls) = price_level_bytes ?u @ levels_bytes ls" by (simp add: levels_bytes_def l)
  moreover have "read_price_level (pre @ price_level_bytes ?u @ levels_bytes ls @ post) off = Some ?u"
    using price_level_pod.read_back [of pre ?u "levels_bytes ls @ post"] Cons.prems by simp
  moreover have "price_levels ((pre @ price_level_bytes ?u) @ levels_bytes ls @ post) (off + 16) (length ls) = map (\<lambda>(p, s). \<lparr>pu_price = p, pu_size = s\<rparr>) ls"
    using Cons.prems price_level_pod.length_to [of ?u] by (intro Cons.IH) simp
  ultimately show ?case by (simp add: l)
qed simp

lemma levels_back:
  assumes "length pre = off" "length bids + length asks \<le> 268435456"
  shows "\<exists>v. levels_view_new (pre @ levels_bytes bids @ levels_bytes asks @ post) off (length bids) (length asks) = Some v \<and>
    bids_iter v = map (\<lambda>(p, s). \<lparr>pu_price = p, pu_size = s\<rparr>) bids \<and> asks_iter v = map (\<lambda>(p, s). \<lparr>pu_price = p, pu_size = s\<rparr>) asks"
proof -
  let ?buf = "pre @ levels_bytes bids @ levels_bytes asks @ post"
  have "levels_view_new ?buf off (length bids) (length asks) =
      Some \<lparr>lv_buf = ?buf, lv_offset = off, lv_bid_count = length bids, lv_ask_count = length asks\<rparr>"
    using assms by (simp add: levels_view_new_def checked_add64_def)
  moreover have "price_levels ?buf off (length bids) = map (\<lambda>(p, s). \<lparr>pu_price = p, pu_size = s\<rparr>) bids"
    using price_levels_back [of pre off bids "levels_bytes asks @ post"] assms(1) by simp
  moreover have "price_levels ?buf (off + length bids * 16) (length asks) = map (\<lambda>(p, s). \<lparr>pu_price = p, pu_size = s\<rparr>) asks"
    using price_levels_back [of "pre @ levels_bytes bids" "off + length bids * 16" asks post] assms(1) by simp
  ultimately show ?thesis by (simp add: bids_iter_def asks_iter_def)
qed

lemma lookup_fold_insert:
  "distinct (map fst ls) \<Longrightarrow> \<forall>(p, s) \<in> set ls. s \<noteq> 0 \<Longrightarrow>
   Mapping.lookup (fold insert_level (map (\<lambda>(p, s). \<lparr>pu_price = p, pu_size = s\<rparr>) ls) m) k =
     (case map_of ls k of None \<Rightarrow> Mapping.lookup m k | Some s \<Rightarrow> Some s)"
proof (induction ls arbitrary: m)
  case (Cons l ls)
  obtain p s where l: "l = (p, s)" by (cases l)
  have "p \<notin> fst ` set ls" using Cons.prems l by auto
  then have "map_of ls p = None" by (simp add: map_of_eq_None_iff)
  then show ?case using Cons l by (auto simp: insert_level_def lookup_update' split: option.splits)
qed simp

section \<open>Books\<close>

text \<open>A book is finite and has no level of size zero.\<close>

definition side_ok :: "(u64, u64) mapping \<Rightarrow> bool" where
  "side_ok m \<longleftrightarrow> finite (Mapping.keys m) \<and> (\<forall>p. Mapping.lookup m p \<noteq> Some 0)"

definition book_ok :: "l2_book \<Rightarrow> bool" where
  "book_ok b \<longleftrightarrow> side_ok (lb_bids b) \<and> side_ok (lb_asks b)"

lemma side_ok_empty [simp]: "side_ok Mapping.empty"
  by (simp add: side_ok_def)

lemma side_ok_insert: "side_ok m \<Longrightarrow> side_ok (insert_level l m)"
  by (auto simp: side_ok_def insert_level_def lookup_update')

lemma side_ok_diff: "side_ok m \<Longrightarrow> side_ok (diff_level l m)"
  by (auto simp: side_ok_def diff_level_def lookup_update') (metis lookup_delete lookup_delete_neq option.distinct(1))

lemma side_ok_fold: "(\<And>l m. side_ok m \<Longrightarrow> side_ok (f l m)) \<Longrightarrow> side_ok m \<Longrightarrow> side_ok (fold f ls m)"
  by (induction ls arbitrary: m) auto

lemma book_ok_new: "book_ok l2_book_new"
  by (simp add: book_ok_def l2_book_new_def)

lemma book_ok_event: "book_ok b \<Longrightarrow> book_ok (snd (apply_book_event msg b))"
  by (auto simp: apply_book_event_def Let_def book_ok_def apply_snapshot_def apply_diff_def
      intro!: side_ok_fold side_ok_insert side_ok_diff split: option.splits)

lemma book_ok_message:
  assumes "book_ok b" "l2_apply_message msg (v, g, b) = (r, v', g', b')"
  shows "book_ok b'"
  using assms book_ok_event [OF assms(1), of msg]
  by (auto simp: l2_apply_message_def split: prod.splits sum.splits gap_detection.splits if_splits)

text \<open>
  What a message does to the book does not depend on the levels the book had when it is a
  snapshot, and on nothing else but the book otherwise.
\<close>

lemma apply_snapshot_forgets: "apply_snapshot s bids asks b = apply_snapshot s bids asks b'"
  by (simp add: apply_snapshot_def l2_book.equality)

text \<open>Applying a message again changes nothing, and a message without a book event changes nothing at all.\<close>

lemma lookup_fold_diff:
  "Mapping.lookup (fold diff_level ls m) k =
     (case map_of (rev (map (\<lambda>l. (pu_price l, pu_size l)) ls)) k of
        None \<Rightarrow> Mapping.lookup m k
      | Some s \<Rightarrow> if s = 0 then None else Some s)"
proof (induction ls arbitrary: m)
  case (Cons l ls)
  have "Mapping.lookup (diff_level l m) k = (if k = pu_price l then (if pu_size l = 0 then None else Some (pu_size l)) else Mapping.lookup m k)"
    by (simp add: diff_level_def lookup_update' lookup_delete_neq)
  then show ?case using Cons [of "diff_level l m"] by (simp add: map_add_def split: option.splits)
qed simp

lemma fold_diff_idem: "fold diff_level ls (fold diff_level ls m) = fold diff_level ls m"
  by (rule mapping_eqI) (simp add: lookup_fold_diff split: option.splits)

lemma apply_book_event_idem: "apply_book_event m (snd (apply_book_event m b)) = apply_book_event m b"
  by (auto simp: apply_book_event_def Let_def apply_snapshot_def apply_diff_def fold_diff_idem split: option.splits)

lemma apply_book_event_none: "am_book_event (fst (apply_book_event m b)) = None \<Longrightarrow> snd (apply_book_event m b) = b"
  by (auto simp: apply_book_event_def Let_def split: option.splits if_splits)

text \<open>The levels of a book in the order of an iteration, and the book they build.\<close>

definition side_levels :: "(u64, u64) mapping \<Rightarrow> (u64 \<times> u64) list" where
  "side_levels m = Mapping.ordered_entries m"

lemma side_levels_props:
  assumes "side_ok m"
  shows "distinct (map fst (side_levels m))" "\<forall>(p, s) \<in> set (side_levels m). s \<noteq> 0"
    "map_of (side_levels m) k = Mapping.lookup m k"
proof -
  have fin: "finite (Mapping.keys m)" using assms by (simp add: side_ok_def)
  show d: "distinct (map fst (side_levels m))" by (simp add: side_levels_def del: map_fst_ordered_entries)
  have set: "set (side_levels m) = Mapping.entries m" using fin by (simp add: side_levels_def)
  show "\<forall>(p, s) \<in> set (side_levels m). s \<noteq> 0"
    using assms unfolding set by (auto simp: side_ok_def dest: in_entriesD)
  show "map_of (side_levels m) k = Mapping.lookup m k"
  proof (cases "Mapping.lookup m k")
    case None
    then have "k \<notin> fst ` set (side_levels m)" unfolding set by (auto simp: keys_dom_lookup)
    then show ?thesis using None by (simp add: map_of_eq_None_iff)
  next
    case (Some v)
    then have "(k, v) \<in> set (side_levels m)" unfolding set by (rule in_entriesI)
    then show ?thesis using Some d by simp
  qed
qed

lemma map_of_rev_distinct: "distinct (map fst xs) \<Longrightarrow> map_of (rev xs) = map_of xs"
  by (rule map_of_inject_set [THEN iffD2]) (simp_all add: rev_map [symmetric])

lemma fold_side_levels:
  assumes "side_ok m" "ls = side_levels m \<or> ls = rev (side_levels m)"
  shows "fold insert_level (map (\<lambda>(p, s). \<lparr>pu_price = p, pu_size = s\<rparr>) ls) Mapping.empty = m"
proof (rule mapping_eqI)
  fix k
  note p = side_levels_props [OF assms(1)]
  have "map_of ls k = Mapping.lookup m k" "distinct (map fst ls)" "\<forall>(p, s) \<in> set ls. s \<noteq> 0"
    using assms(2) p map_of_rev_distinct [OF p(1)] by (auto simp: rev_map [symmetric])
  then show "Mapping.lookup (fold insert_level (map (\<lambda>(p, s). \<lparr>pu_price = p, pu_size = s\<rparr>) ls) Mapping.empty) k = Mapping.lookup m k"
    using lookup_fold_insert [of ls Mapping.empty k] by (simp split: option.splits)
qed

end
