(* ===== verification/Snapshot.thy ===== *)
theory Snapshot
  imports Retention Seek_Index Segment_Writer L2_Replay "HOL-Library.Multiset"
begin

text \<open>
  \<^verbatim>\<open>src/src/stream/replay/snapshot.rs\<close>: book snapshots as files. Planning when to take one, the
  file format, writing through a temporary file and a rename, the choice of the latest snapshot
  before a point, and the retention of old ones.
\<close>

section \<open>The file format\<close>

definition SNAPSHOT_MAGIC :: bytes where
  "SNAPSHOT_MAGIC = [67, 72, 82, 83, 78, 65, 80, 49]"

abbreviation (input) SNAPSHOT_VERSION :: u16 where "SNAPSHOT_VERSION \<equiv> 1"
abbreviation (input) SNAPSHOT_HEADER_LEN :: nat where "SNAPSHOT_HEADER_LEN \<equiv> 128"

record snapshot_header =
  sn_magic :: bytes
  sn_schema_version :: u16
  sn_header_len :: u16
  sn_endianness :: u16
  sn_book_mode :: u16
  sn_venue_id :: u32
  sn_market_id :: u32
  sn_seq_num :: u64
  sn_ingest_ts_ns_start :: u64
  sn_ingest_ts_ns_end :: u64
  sn_exchange_ts_ns_start :: u64
  sn_exchange_ts_ns_end :: u64
  sn_book_hash :: bytes
  sn_payload_len :: u64
  sn_flags :: u64
  sn_reserved :: bytes

record snapshot_metadata =
  md_schema_version :: u16
  md_endianness :: u16
  md_book_mode :: u16
  md_venue_id :: u32
  md_market_id :: u32
  md_seq_num :: u64
  md_ingest_ts_ns_start :: u64
  md_ingest_ts_ns_end :: u64
  md_exchange_ts_ns_start :: u64
  md_exchange_ts_ns_end :: u64
  md_book_hash :: bytes
  md_flags :: u64

definition to_header :: "snapshot_metadata \<Rightarrow> u64 \<Rightarrow> snapshot_header" where
  "to_header m payload_len =
     \<lparr>sn_magic = SNAPSHOT_MAGIC, sn_schema_version = md_schema_version m, sn_header_len = of_nat SNAPSHOT_HEADER_LEN,
      sn_endianness = md_endianness m, sn_book_mode = md_book_mode m, sn_venue_id = md_venue_id m,
      sn_market_id = md_market_id m, sn_seq_num = md_seq_num m, sn_ingest_ts_ns_start = md_ingest_ts_ns_start m,
      sn_ingest_ts_ns_end = md_ingest_ts_ns_end m, sn_exchange_ts_ns_start = md_exchange_ts_ns_start m,
      sn_exchange_ts_ns_end = md_exchange_ts_ns_end m, sn_book_hash = md_book_hash m, sn_payload_len = payload_len,
      sn_flags = md_flags m, sn_reserved = replicate 32 0\<rparr>"

definition sn_encode_header :: "snapshot_header \<Rightarrow> bytes" where
  "sn_encode_header h =
     (let buf = replicate 128 0;
          buf = bsplice buf 0 (sn_magic h);
          buf = bsplice buf 8 (u16_to_le (sn_schema_version h));
          buf = bsplice buf 10 (u16_to_le (sn_header_len h));
          buf = bsplice buf 12 (u16_to_le (sn_endianness h));
          buf = bsplice buf 14 (u16_to_le (sn_book_mode h));
          buf = bsplice buf 16 (u32_to_le (sn_venue_id h));
          buf = bsplice buf 20 (u32_to_le (sn_market_id h));
          buf = bsplice buf 24 (u64_to_le (sn_seq_num h));
          buf = bsplice buf 32 (u64_to_le (sn_ingest_ts_ns_start h));
          buf = bsplice buf 40 (u64_to_le (sn_ingest_ts_ns_end h));
          buf = bsplice buf 48 (u64_to_le (sn_exchange_ts_ns_start h));
          buf = bsplice buf 56 (u64_to_le (sn_exchange_ts_ns_end h));
          buf = bsplice buf 64 (sn_book_hash h);
          buf = bsplice buf 80 (u64_to_le (sn_payload_len h));
          buf = bsplice buf 88 (u64_to_le (sn_flags h))
      in bsplice buf 96 (sn_reserved h))"

definition sn_decode_header :: "bytes \<Rightarrow> snapshot_header result" where
  "sn_decode_header buf =
     (if length buf < SNAPSHOT_HEADER_LEN then Inl (Anyhow ''snapshot header too small'')
      else if bslice buf 0 8 \<noteq> SNAPSHOT_MAGIC then Inl (Anyhow ''snapshot magic mismatch'')
      else let header_len = u16_from_le (bslice buf 10 12) in
        if unat header_len \<noteq> SNAPSHOT_HEADER_LEN then Inl (Anyhow ''snapshot header length mismatch'')
        else Inr \<lparr>sn_magic = SNAPSHOT_MAGIC, sn_schema_version = u16_from_le (bslice buf 8 10), sn_header_len = header_len,
               sn_endianness = u16_from_le (bslice buf 12 14), sn_book_mode = u16_from_le (bslice buf 14 16),
               sn_venue_id = u32_from_le (bslice buf 16 20), sn_market_id = u32_from_le (bslice buf 20 24),
               sn_seq_num = u64_from_le (bslice buf 24 32), sn_ingest_ts_ns_start = u64_from_le (bslice buf 32 40),
               sn_ingest_ts_ns_end = u64_from_le (bslice buf 40 48), sn_exchange_ts_ns_start = u64_from_le (bslice buf 48 56),
               sn_exchange_ts_ns_end = u64_from_le (bslice buf 56 64), sn_book_hash = bslice buf 64 80,
               sn_payload_len = u64_from_le (bslice buf 80 88), sn_flags = u64_from_le (bslice buf 88 96),
               sn_reserved = bslice buf 96 128\<rparr>)"

section \<open>When to take a snapshot\<close>

text \<open>Times are durations since the epoch; \<open>duration_since\<close> fails when the clock has gone back.\<close>

record snapshot_policy =
  sp_min_interval :: "nat option"
  sp_min_records :: "nat option"
  sp_min_bytes :: "nat option"

record snapshot_planner =
  pl_policy :: snapshot_policy
  pl_last_snapshot_at :: "nat option"
  pl_records_since :: nat
  pl_bytes_since :: nat

definition planner_new :: "snapshot_policy \<Rightarrow> snapshot_planner" where
  "planner_new policy = \<lparr>pl_policy = policy, pl_last_snapshot_at = None, pl_records_since = 0, pl_bytes_since = 0\<rparr>"

definition planner_observe :: "nat \<Rightarrow> nat \<Rightarrow> snapshot_planner \<Rightarrow> snapshot_planner" where
  "planner_observe records bytes p =
     p\<lparr>pl_records_since := sat_add64 (pl_records_since p) records, pl_bytes_since := sat_add64 (pl_bytes_since p) bytes\<rparr>"

definition should_snapshot :: "nat \<Rightarrow> snapshot_planner \<Rightarrow> bool" where
  "should_snapshot now p =
     (let ok = False;
          ok = (case sp_min_records (pl_policy p) of Some n \<Rightarrow> ok \<or> pl_records_since p \<ge> n | None \<Rightarrow> ok);
          ok = (case sp_min_bytes (pl_policy p) of Some n \<Rightarrow> ok \<or> pl_bytes_since p \<ge> n | None \<Rightarrow> ok)
      in case sp_min_interval (pl_policy p) of
           None \<Rightarrow> ok
         | Some min_interval \<Rightarrow>
             (case pl_last_snapshot_at p of
                Some since \<Rightarrow> if since \<le> now then ok \<or> now - since \<ge> min_interval else ok
              | None \<Rightarrow> True))"

definition mark_snapshot :: "nat \<Rightarrow> snapshot_planner \<Rightarrow> snapshot_planner" where
  "mark_snapshot now p = p\<lparr>pl_last_snapshot_at := Some now, pl_records_since := 0, pl_bytes_since := 0\<rparr>"

section \<open>Names\<close>

definition snapshot_path :: "path \<Rightarrow> nat \<Rightarrow> path" where
  "snapshot_path dir seq_num = dir @ [''snapshot_'' @ dec_digits seq_num @ ''.bin'']"

definition snapshot_tmp_path :: "path \<Rightarrow> nat \<Rightarrow> path" where
  "snapshot_tmp_path dir seq_num = dir @ [''snapshot_'' @ dec_digits seq_num @ ''.tmp'']"

definition snapshot_dir :: "path \<Rightarrow> nat \<Rightarrow> nat \<Rightarrow> path" where
  "snapshot_dir root venue_id market_id = root @ [''snapshots'', dec_digits venue_id, dec_digits market_id]"

definition strip_prefix :: "string \<Rightarrow> string \<Rightarrow> string option" where
  "strip_prefix s pre = (if take (length pre) s = pre then Some (drop (length pre) s) else None)"

definition parse_snapshot_filename :: "string \<Rightarrow> nat option" where
  "parse_snapshot_filename name =
     (case strip_suffix name ''.bin'' of
        None \<Rightarrow> None
      | Some stem \<Rightarrow> (case strip_prefix stem ''snapshot_'' of None \<Rightarrow> None | Some seq \<Rightarrow> parse_u64 seq))"

section \<open>Loading\<close>

definition load_snapshot_header :: "path \<Rightarrow> (fs, snapshot_header) io" where
  "load_snapshot_header p =
     bind (open_read p) (\<lambda>i.
     bind (read_exact i 0 SNAPSHOT_HEADER_LEN) (\<lambda>buf.
     lift (sn_decode_header buf)))"

definition load_snapshot :: "path \<Rightarrow> (fs, snapshot_header \<times> bytes) io" where
  "load_snapshot p =
     bind (open_read p) (\<lambda>i.
     bind (read_exact i 0 SNAPSHOT_HEADER_LEN) (\<lambda>buf.
     bind (lift (sn_decode_header buf)) (\<lambda>header.
     bind (get (\<lambda>s. length (fs_data s i))) (\<lambda>file_len.
     case checked_add64 SNAPSHOT_HEADER_LEN (unat (sn_payload_len header)) of
       None \<Rightarrow> fail (Anyhow ''snapshot length overflow'')
     | Some expected_len \<Rightarrow>
         if file_len \<noteq> expected_len then fail (Anyhow ''snapshot length mismatch'')
         else if sn_payload_len header > 0
              then bind (read_exact i SNAPSHOT_HEADER_LEN (unat (sn_payload_len header))) (\<lambda>payload. ret (header, payload))
              else ret (header, [])))))"

section \<open>The snapshots of a directory\<close>

text \<open>
  \<open>mtime\<close> is what \<open>metadata.modified()\<close> says of a path; the size of a directory that has such a
  name is taken as zero.
\<close>

record snapshot_entry =
  se_path :: path
  se_seq_num :: nat
  se_size :: nat
  se_modified :: "nat option"

definition entry_of :: "(path \<Rightarrow> nat option) \<Rightarrow> path \<Rightarrow> fs \<Rightarrow> string \<Rightarrow> snapshot_entry option" where
  "entry_of mtime dir s name =
     (if extension name \<noteq> Some ''bin'' then None
      else case parse_snapshot_filename name of
             None \<Rightarrow> None
           | Some seq_num \<Rightarrow>
               Some \<lparr>se_path = dir @ [name], se_seq_num = seq_num,
                     se_size = (case lookup_path s (dir @ [name]) of Some i \<Rightarrow> length (fs_data s i) | None \<Rightarrow> 0),
                     se_modified = mtime (dir @ [name])\<rparr>)"

definition load_snapshot_entries :: "(path \<Rightarrow> nat option) \<Rightarrow> path \<Rightarrow> (fs, snapshot_entry list) io" where
  "load_snapshot_entries mtime dir =
     get (\<lambda>s. if \<not> path_exists s dir then [] else List.map_filter (\<lambda>(name, _). entry_of mtime dir s name) (read_dir dir s))"

text \<open>The three searches differ in the field they compare.\<close>

fun latest_by :: "(snapshot_header \<Rightarrow> u64) \<Rightarrow> u64 \<Rightarrow> snapshot_entry list \<Rightarrow> (path \<times> snapshot_header) option \<Rightarrow>
    (fs, (path \<times> snapshot_header) option) io" where
  "latest_by key limit [] best = ret best"
| "latest_by key limit (e # es) best =
     bind (load_snapshot_header (se_path e)) (\<lambda>header.
     if key header > limit then latest_by key limit es best
     else let replace = (case best of Some (_, current) \<Rightarrow> key header > key current | None \<Rightarrow> True)
          in latest_by key limit es (if replace then Some (se_path e, header) else best))"

definition latest_snapshot_before_seq :: "(path \<Rightarrow> nat option) \<Rightarrow> path \<Rightarrow> u64 \<Rightarrow> (fs, (path \<times> snapshot_header) option) io" where
  "latest_snapshot_before_seq mtime dir seq_num = bind (load_snapshot_entries mtime dir) (\<lambda>es. latest_by sn_seq_num seq_num es None)"

definition latest_snapshot_before_exchange_ts :: "(path \<Rightarrow> nat option) \<Rightarrow> path \<Rightarrow> u64 \<Rightarrow> (fs, (path \<times> snapshot_header) option) io" where
  "latest_snapshot_before_exchange_ts mtime dir ts_ns = bind (load_snapshot_entries mtime dir) (\<lambda>es. latest_by sn_exchange_ts_ns_end ts_ns es None)"

definition latest_snapshot_before_ingest_ts :: "(path \<Rightarrow> nat option) \<Rightarrow> path \<Rightarrow> u64 \<Rightarrow> (fs, (path \<times> snapshot_header) option) io" where
  "latest_snapshot_before_ingest_ts mtime dir ts_ns = bind (load_snapshot_entries mtime dir) (\<lambda>es. latest_by sn_ingest_ts_ns_end ts_ns es None)"

section \<open>Retention\<close>

record snapshot_retention =
  sr_max_snapshots :: "nat option"
  sr_max_bytes :: "nat option"
  sr_max_age :: "nat option"

definition no_retention :: snapshot_retention where
  "no_retention = \<lparr>sr_max_snapshots = None, sr_max_bytes = None, sr_max_age = None\<rparr>"

definition too_old :: "nat \<Rightarrow> nat \<Rightarrow> snapshot_entry \<Rightarrow> bool" where
  "too_old now max_age e = (case se_modified e of Some modified \<Rightarrow> modified \<le> now \<and> now - modified > max_age | None \<Rightarrow> False)"

text \<open>Errors of \<open>remove_file\<close> are ignored; the entry counts as removed.\<close>

fun remove_all :: "snapshot_entry list \<Rightarrow> (fs, unit) io" where
  "remove_all [] = ret ()"
| "remove_all (e # es) = bind (attempt (remove_file (se_path e))) (\<lambda>_. remove_all es)"

fun over_bytes :: "nat \<Rightarrow> nat \<Rightarrow> snapshot_entry list \<Rightarrow> snapshot_entry list \<times> snapshot_entry list" where
  "over_bytes max_bytes total_bytes [] = ([], [])"
| "over_bytes max_bytes total_bytes (e # es) =
     (if total_bytes > max_bytes
      then (case over_bytes max_bytes (sat_sub64 total_bytes (se_size e)) es of (gone, kept) \<Rightarrow> (e # gone, kept))
      else ([], e # es))"

definition enforce_retention :: "(path \<Rightarrow> nat option) \<Rightarrow> nat \<Rightarrow> path \<Rightarrow> snapshot_retention \<Rightarrow> (fs, path list) io" where
  "enforce_retention mtime now dir retention =
     (if sr_max_snapshots retention = None \<and> sr_max_bytes retention = None \<and> sr_max_age retention = None then ret []
      else bind (load_snapshot_entries mtime dir) (\<lambda>entries.
           let (aged, entries) = (case sr_max_age retention of
                 Some max_age \<Rightarrow> (filter (too_old now max_age) entries, filter (\<lambda>e. \<not> too_old now max_age e) entries)
               | None \<Rightarrow> ([], entries));
               entries = sort_key se_seq_num entries;
               (counted, entries) = (case sr_max_snapshots retention of
                 Some n \<Rightarrow> (take (length entries - n) entries, drop (length entries - n) entries)
               | None \<Rightarrow> ([], entries));
               (large, entries) = (case sr_max_bytes retention of
                 Some max_bytes \<Rightarrow> over_bytes max_bytes (sum_list (map se_size entries)) entries
               | None \<Rightarrow> ([], entries));
               removed = aged @ counted @ large
           in bind (remove_all removed) (\<lambda>_. ret (map se_path removed))))"

section \<open>Writing\<close>

definition write_snapshot :: "(path \<Rightarrow> nat option) \<Rightarrow> nat \<Rightarrow> path \<Rightarrow> snapshot_retention \<Rightarrow> snapshot_metadata \<Rightarrow> bytes \<Rightarrow> (fs, path) io" where
  "write_snapshot mtime now root retention metadata payload =
     (let dir = snapshot_dir root (unat (md_venue_id metadata)) (unat (md_market_id metadata));
          final_path = snapshot_path dir (unat (md_seq_num metadata));
          tmp_path = snapshot_tmp_path dir (unat (md_seq_num metadata));
          header = to_header metadata (word_of_nat (length payload))
      in bind (modify (create_dir_all dir)) (\<lambda>_.
         bind (open_write tmp_path True) (\<lambda>i.
         bind (write_all_at i 0 [sn_encode_header header, payload]) (\<lambda>_.
         bind (rename tmp_path final_path) (\<lambda>_.
         bind (enforce_retention mtime now dir retention) (\<lambda>_.
         ret final_path))))))"

section \<open>What is written is what is loaded\<close>

lemma length_SNAPSHOT_MAGIC [simp]: "length SNAPSHOT_MAGIC = 8"
  by (simp add: SNAPSHOT_MAGIC_def)

definition sn_wf :: "snapshot_header \<Rightarrow> bool" where
  "sn_wf h \<longleftrightarrow> sn_magic h = SNAPSHOT_MAGIC \<and> sn_header_len h = 128 \<and> length (sn_book_hash h) = 16 \<and> length (sn_reserved h) = 32"

lemma bsplice_zeros: "length pre = a \<Longrightarrow> bsplice (pre @ replicate n 0) a xs = (pre @ xs) @ replicate (n - length xs) 0"
  by (simp add: bsplice_def)

lemma sn_encode_eq:
  assumes "sn_wf h"
  shows "sn_encode_header h = SNAPSHOT_MAGIC @ u16_to_le (sn_schema_version h) @ u16_to_le (sn_header_len h) @ u16_to_le (sn_endianness h) @
    u16_to_le (sn_book_mode h) @ u32_to_le (sn_venue_id h) @ u32_to_le (sn_market_id h) @ u64_to_le (sn_seq_num h) @
    u64_to_le (sn_ingest_ts_ns_start h) @ u64_to_le (sn_ingest_ts_ns_end h) @ u64_to_le (sn_exchange_ts_ns_start h) @
    u64_to_le (sn_exchange_ts_ns_end h) @ sn_book_hash h @ u64_to_le (sn_payload_len h) @ u64_to_le (sn_flags h) @ sn_reserved h"
proof -
  have w: "sn_magic h = SNAPSHOT_MAGIC" "length (sn_book_hash h) = 16" "length (sn_reserved h) = 32" using assms by (simp_all add: sn_wf_def)
  have z: "bsplice (replicate 128 0) 0 SNAPSHOT_MAGIC = SNAPSHOT_MAGIC @ replicate 120 0"
    using bsplice_zeros [of "[]" 0 128 SNAPSHOT_MAGIC] by simp
  show ?thesis
    unfolding sn_encode_header_def Let_def w(1) z by (simp add: bsplice_zeros w(2,3) del: append_assoc)
qed

lemma sn_header_round_trip:
  assumes "sn_wf h"
  shows "length (sn_encode_header h) = 128" "sn_decode_header (sn_encode_header h) = Inr h"
proof -
  have w: "sn_magic h = SNAPSHOT_MAGIC" "sn_header_len h = 128" "length (sn_book_hash h) = 16" "length (sn_reserved h) = 32"
    using assms by (simp_all add: sn_wf_def)
  show l: "length (sn_encode_header h) = 128" unfolding sn_encode_eq [OF assms] using w by simp
  show "sn_decode_header (sn_encode_header h) = Inr h"
    unfolding sn_decode_header_def l unfolding sn_encode_eq [OF assms] using w by (simp add: bslice_def)
qed

text \<open>The names of snapshot files and of their temporary files are different.\<close>

lemma snapshot_names [simp]: "snapshot_path dir a \<noteq> snapshot_tmp_path dir b"
proof
  assume "snapshot_path dir a = snapshot_tmp_path dir b"
  then have "last (''snapshot_'' @ dec_digits a @ ''.bin'') = last (''snapshot_'' @ dec_digits b @ ''.tmp'')"
    by (simp add: snapshot_path_def snapshot_tmp_path_def)
  then show False by simp
qed

lemma open_truncate:
  assumes "is_dir s (butlast p)"
  shows "\<exists>i s'. open_write p True s = (Inr i, s') \<and> lookup_path s' = (lookup_path s)(p \<mapsto> i) \<and> fs_data s' i = []"
  using assms by (cases "lookup_path s p") (auto simp: open_write_def fs_creat_def Let_def map_upd_triv)

lemma load_snapshot_ok:
  assumes "lookup_path s p = Some i" "fs_data s i = sn_encode_header h @ payload" "length (sn_encode_header h) = 128"
    "sn_decode_header (sn_encode_header h) = Inr h" "sn_payload_len h = word_of_nat (length payload)" "length payload + 128 \<le> u64_max"
  shows "load_snapshot p s = (Inr (h, payload), s)"
proof -
  have n: "unat (sn_payload_len h) = length payload" using assms(5,6) by simp
  have "read_exact i 0 128 s = (Inr (sn_encode_header h), s)" using assms(2,3) by (simp add: read_exact_def bslice_def)
  moreover have "read_exact i 128 (length payload) s = (Inr payload, s)" using assms(2,3) by (simp add: read_exact_def bslice_def)
  moreover have "sn_payload_len h > 0 \<or> payload = []" using n by (cases "sn_payload_len h = 0") (auto simp: word_neq_0_conv)
  ultimately show ?thesis
    using assms n by (auto simp: load_snapshot_def bind_ok open_read_def checked_add64_def ret_def)
qed

text \<open>
  Property C39. A snapshot survives the disk. Writing one succeeds, whatever files there were
  before, leaves no temporary file and returns a path from which the header made of the metadata
  and the payload are loaded again.
\<close>

theorem snapshot_round_trip:
  assumes "length (md_book_hash m) = 16" "length payload + 128 \<le> u64_max"
  shows "\<exists>p s'. write_snapshot mtime now root no_retention m payload s = (Inr p, s') \<and>
    load_snapshot p s' = (Inr (to_header m (word_of_nat (length payload)), payload), s') \<and>
    lookup_path s' (snapshot_tmp_path (snapshot_dir root (unat (md_venue_id m)) (unat (md_market_id m))) (unat (md_seq_num m))) = None"
proof -
  define dir where "dir = snapshot_dir root (unat (md_venue_id m)) (unat (md_market_id m))"
  let ?f = "snapshot_path dir (unat (md_seq_num m))" and ?t = "snapshot_tmp_path dir (unat (md_seq_num m))"
  let ?h = "to_header m (word_of_nat (length payload))" and ?s1 = "create_dir_all dir s"
  have h: "length (sn_encode_header ?h) = 128" "sn_decode_header (sn_encode_header ?h) = Inr ?h"
    using assms(1) sn_header_round_trip [of ?h] by (simp_all add: sn_wf_def to_header_def)
  have "is_dir ?s1 (butlast ?t)"
    by (simp add: snapshot_tmp_path_def is_dir_create_dir_all) (metis take_all_iff order_refl)
  then obtain i s2 where o: "open_write ?t True ?s1 = (Inr i, s2)" "lookup_path s2 = (lookup_path ?s1)(?t \<mapsto> i)" "fs_data s2 i = []"
    using open_truncate by blast
  let ?b = "sn_encode_header ?h @ payload"
  let ?s3 = "fs_set i ?b s2" and ?s4 = "fs_link ?f i (fs_unlink ?t (fs_set i ?b s2))"
  have w: "write_all_at i 0 [sn_encode_header ?h, payload] s2 = (Inr (), ?s3)"
    using write_all_at_ok [of s2 i "[]" 0 "[sn_encode_header ?h, payload]"] o(3) by simp
  have r: "rename ?t ?f ?s3 = (Inr (), ?s4)" using o(2) by (simp add: rename_def)
  have "write_snapshot mtime now root no_retention m payload s = (Inr ?f, ?s4)"
    using o(1) w r by (simp add: write_snapshot_def Let_def bind_ok enforce_retention_def no_retention_def ret_def dir_def
        del: write_all_at.simps)
  moreover have "load_snapshot ?f ?s4 = (Inr (?h, payload), ?s4)"
    by (rule load_snapshot_ok [where i = i]) (use h assms(2) in \<open>simp_all add: to_header_def\<close>)
  moreover have "lookup_path ?s4 ?t = None" by (simp add: snapshot_names [symmetric])
  ultimately show ?thesis by (auto simp: dir_def)
qed

definition demo_metadata :: snapshot_metadata where
  "demo_metadata = \<lparr>md_schema_version = 1, md_endianness = 0, md_book_mode = 0, md_venue_id = 7, md_market_id = 11, md_seq_num = 99,
     md_ingest_ts_ns_start = 100, md_ingest_ts_ns_end = 200, md_exchange_ts_ns_start = 120, md_exchange_ts_ns_end = 180,
     md_book_hash = replicate 16 0, md_flags = 0\<rparr>"

theorem snapshot_round_trip_witness:
  "\<exists>p s'. write_snapshot (\<lambda>_. None) 0 [] no_retention demo_metadata [1, 2, 3] fs_empty = (Inr p, s') \<and>
    load_snapshot p s' = (Inr (to_header demo_metadata 3, [1, 2, 3]), s')"
  using snapshot_round_trip [of demo_metadata "[1, 2, 3]" "\<lambda>_. None" 0 "[]" fs_empty] by (auto simp: demo_metadata_def)

section \<open>What retention keeps\<close>

lemma remove_all_ok:
  "\<exists>s'. remove_all es s = (Inr (), s') \<and> (\<forall>p. lookup_path s' p = (if p \<in> se_path ` set es then None else lookup_path s p)) \<and>
     fs_data s' = fs_data s"
proof (induction es arbitrary: s)
  case (Cons e es)
  obtain r s1 where a: "attempt (remove_file (se_path e)) s = (Inr r, s1)"
    "\<forall>p. lookup_path s1 p = (if p = se_path e then None else lookup_path s p)" "fs_data s1 = fs_data s"
    by (cases "lookup_path s (se_path e)") (auto simp: attempt_def remove_file_def)
  then show ?case using Cons.IH [of s1] by (auto simp: bind_ok)
qed (simp add: ret_def)

text \<open>
  Retention keeps the newest snapshots. With a limit on their number, what is
  removed and what is kept are together the snapshots of the directory, as many are kept as the
  limit allows, none that is kept has a smaller sequence number than one that is removed, and of
  the files exactly the removed ones are gone.
\<close>

lemma retention_keeps_newest:
  assumes "sr_max_snapshots r = Some n" "sr_max_bytes r = None" "sr_max_age r = None" "load_snapshot_entries mtime dir s = (Inr es, s)"
  shows "\<exists>old new s'. enforce_retention mtime now dir r s = (Inr (map se_path old), s') \<and> mset (old @ new) = mset es \<and>
    length new = min n (length es) \<and> (\<forall>a \<in> set old. \<forall>b \<in> set new. se_seq_num a \<le> se_seq_num b) \<and>
    (\<forall>p. lookup_path s' p = (if p \<in> se_path ` set old then None else lookup_path s p)) \<and> fs_data s' = fs_data s"
proof -
  let ?es = "sort_key se_seq_num es"
  let ?k = "length es - n"
  have "sorted (map se_seq_num (take ?k ?es @ drop ?k ?es))" by simp
  then have "\<forall>a \<in> set (take ?k ?es). \<forall>b \<in> set (drop ?k ?es). se_seq_num a \<le> se_seq_num b"
    unfolding map_append sorted_append by auto
  moreover have "mset (take ?k ?es @ drop ?k ?es) = mset es" by simp
  moreover have "length (drop ?k ?es) = min n (length es)" by simp
  moreover obtain s' where "remove_all (take ?k ?es) s = (Inr (), s')"
    "\<forall>p. lookup_path s' p = (if p \<in> se_path ` set (take ?k ?es) then None else lookup_path s p)" "fs_data s' = fs_data s"
    using remove_all_ok [of "take ?k ?es" s] by blast
  moreover from this have "enforce_retention mtime now dir r s = (Inr (map se_path (take ?k ?es)), s')"
    using assms by (simp add: enforce_retention_def bind_ok Let_def ret_def)
  ultimately show ?thesis by blast
qed

end
