(* ===== verification/Replay_Engine.thy ===== *)
theory Replay_Engine
  imports Reader_Seek Snapshot
begin

text \<open>
  \<^verbatim>\<open>src/src/stream/replay/mod.rs\<close>: the replay engine. It reads messages, applies them to the
  book, starts from a snapshot and replays up to a point in time. The engine is generic in its
  reader, an argument here; \<open>LiveReplayEngine\<close> is the engine on a queue reader. Also the payload
  that \<^verbatim>\<open>src/src/bin/snapshotter.rs\<close> makes of a book.
\<close>

section \<open>The engine\<close>

record 'r replay_engine =
  en_root :: path
  en_reader :: 'r
  en_policy :: gap_policy
  en_l2_book :: l2_book
  en_sequencer :: sequence_validator
  en_last_gap :: "(u64 \<times> u64) option"

type_synonym ('r, 'w, 'a) en_io = "('r replay_engine \<times> 'w, 'a) io"
type_synonym 'a live_io = "(queue_reader, queue, 'a) en_io"

definition engine_new :: "path \<Rightarrow> 'r \<Rightarrow> 'r replay_engine" where
  "engine_new root reader =
     \<lparr>en_root = root, en_reader = reader, en_policy = GapPanic, en_l2_book = l2_book_new, en_sequencer = sv_new GapPanic,
      en_last_gap = None\<rparr>"

definition engine_set_policy :: "gap_policy \<Rightarrow> 'r replay_engine \<Rightarrow> 'r replay_engine" where
  "engine_set_policy policy e = e\<lparr>en_policy := policy, en_sequencer := sv_set_policy policy (en_sequencer e)\<rparr>"

definition engine_last_seq :: "'r replay_engine \<Rightarrow> u64 option" where
  "engine_last_seq e = sv_last_seq (en_sequencer e)"

text \<open>\<open>LiveReplayEngine::open_with_config\<close>; \<open>open\<close> uses the default start mode.\<close>

definition live_open :: "crc_fun \<Rightarrow> int \<Rightarrow> path \<Rightarrow> string \<Rightarrow> start_mode \<Rightarrow> (queue, queue_reader replay_engine) io" where
  "live_open crc now root reader mode = bind (open_subscriber crc now root reader mode) (\<lambda>r. ret (engine_new root r))"

text \<open>An operation of the reader, as an operation of the engine that owns it.\<close>

definition with_reader :: "('r \<times> 'w, 'a) io \<Rightarrow> ('r, 'w, 'a) en_io" where
  "with_reader m = (\<lambda>(e, w). case m (en_reader e, w) of (res, r', w') \<Rightarrow> (res, e\<lparr>en_reader := r'\<rparr>, w'))"

definition engine_apply :: "message \<Rightarrow> ('r, 'w, applied_message) en_io" where
  "engine_apply msg = (\<lambda>(e, w).
     case l2_apply_message msg (en_sequencer e, en_last_gap e, en_l2_book e) of
       (res, sequencer, last_gap, book) \<Rightarrow>
         (map_sum gap_error id res, e\<lparr>en_sequencer := sequencer, en_last_gap := last_gap, en_l2_book := book\<rparr>, w))"

record replay_message =
  rp_msg :: message
  rp_update :: replay_update
  rp_book_event :: "book_event option"
  rp_book :: l2_book

definition engine_next :: "('r \<times> 'w, message option) io \<Rightarrow> ('r, 'w, replay_update option) en_io" where
  "engine_next next =
     bind (with_reader next) (\<lambda>m.
     case m of
       None \<Rightarrow> ret None
     | Some msg \<Rightarrow> bind (engine_apply msg) (\<lambda>applied. ret (Some (am_update applied))))"

definition engine_next_message :: "('r \<times> 'w, message option) io \<Rightarrow> ('r, 'w, replay_message option) en_io" where
  "engine_next_message next =
     bind (with_reader next) (\<lambda>m.
     case m of
       None \<Rightarrow> ret None
     | Some msg \<Rightarrow>
         bind (engine_apply msg) (\<lambda>applied.
         bind (get (\<lambda>(e, w). en_l2_book e)) (\<lambda>book.
         ret (Some \<lparr>rp_msg = msg, rp_update = am_update applied, rp_book_event = am_book_event applied, rp_book = book\<rparr>))))"

section \<open>Starting from a snapshot\<close>

definition apply_snapshot_payload :: "snapshot_header \<Rightarrow> bytes \<Rightarrow> ('r, 'w, unit) en_io" where
  "apply_snapshot_payload header payload =
     (if sn_schema_version header \<noteq> SNAPSHOT_VERSION then
        fail (Anyhow (''unsupported snapshot schema version '' @ dec_digits (unat (sn_schema_version header))))
      else if sn_book_mode header \<noteq> ucast (book_mode_u8 L2) then
        fail (Anyhow (''unsupported snapshot book mode '' @ dec_digits (unat (sn_book_mode header))))
      else case read_l2_snapshot payload 0 of
             None \<Rightarrow> fail (Anyhow ''snapshot payload too small for L2Snapshot'')
           | Some snapshot \<Rightarrow>
               (case levels_view_new payload 12 (unat (ls_bid_count snapshot)) (unat (ls_ask_count snapshot)) of
                  None \<Rightarrow> fail (Anyhow ''snapshot payload missing price levels'')
                | Some levels \<Rightarrow>
                    upd (\<lambda>e. e\<lparr>en_l2_book := apply_snapshot snapshot (bids_iter levels) (asks_iter levels) (en_l2_book e)\<rparr>)))"

text \<open>The validator has just been reset, so its check cannot fail.\<close>

definition warm_start_from_snapshot_path :: "crc_fun \<Rightarrow> proc_fun \<Rightarrow> int \<Rightarrow> path \<Rightarrow> snapshot_header live_io" where
  "warm_start_from_snapshot_path crc proc now p =
     bind (on_fs (q_file (load_snapshot p))) (\<lambda>(header, payload).
     bind (apply_snapshot_payload header payload) (\<lambda>_.
     bind (upd (\<lambda>e. e\<lparr>en_sequencer := sv_reset (en_sequencer e)\<rparr>)) (\<lambda>_.
     bind (get (\<lambda>(e, w). sv_check (sn_seq_num header) (en_sequencer e))) (\<lambda>(res, sequencer).
     bind (upd (\<lambda>e. e\<lparr>en_sequencer := sequencer\<rparr>)) (\<lambda>_.
     bind (lift (map_sum gap_error id res)) (\<lambda>_.
     bind (upd (\<lambda>e. e\<lparr>en_last_gap := None\<rparr>)) (\<lambda>_.
     bind (with_reader (seek_seq crc proc now (word_of_nat (sat_add64 (unat (sn_seq_num header)) 1)))) (\<lambda>_.
     ret header))))))))"

definition warm_start_latest_snapshot :: "crc_fun \<Rightarrow> proc_fun \<Rightarrow> int \<Rightarrow> (path \<Rightarrow> nat option) \<Rightarrow> u32 \<Rightarrow> u32 \<Rightarrow> snapshot_header option live_io" where
  "warm_start_latest_snapshot crc proc now mtime venue_id market_id =
     bind (get (\<lambda>(e, w). snapshot_dir (en_root e) (unat venue_id) (unat market_id))) (\<lambda>dir.
     bind (on_fs (q_file (latest_snapshot_before_seq mtime dir (- 1)))) (\<lambda>info.
     case info of
       None \<Rightarrow> ret None
     | Some (p, _) \<Rightarrow> bind (warm_start_from_snapshot_path crc proc now p) (\<lambda>header. ret (Some header))))"

section \<open>Replaying up to a point in time\<close>

text \<open>Every message that the reader returns leaves it less to read, so the loop ends.\<close>

lemma rd_next_progress:
  assumes "rd_next crc proc now (r, q) = (Inr (Some m), r', q')"
  shows "((r', q'), (r, q)) \<in> rd_order"
  using assms next_ref_progress [of crc proc now r q]
  by (auto simp: rd_next_def bind_def ret_def get_def lift_def split: prod.splits sum.splits option.splits)

text \<open>
  Property C22. Reading comes to an end. There is no infinite sequence of messages that a reader
  returns from a queue that nobody appends to, whatever the files hold: every message leaves it
  less to read, so each loop over \<open>next\<close> ends.
\<close>

theorem reading_terminates: "wf {(x', x). \<exists>m. rd_next crc proc now x = (Inr (Some m), x')}"
proof (rule wf_subset)
  show "wf rd_order" by (intro wf_inv_image wf_lex_prod wf_less_than)
  show "{(x', x). \<exists>m. rd_next crc proc now x = (Inr (Some m), x')} \<subseteq> rd_order" using rd_next_progress by auto
qed

function replay_until :: "(book_event_header \<Rightarrow> bool) \<Rightarrow> crc_fun \<Rightarrow> proc_fun \<Rightarrow> int \<Rightarrow> bool live_io" where
  "replay_until reached crc proc now (e, q) =
     (case rd_next crc proc now (en_reader e, q) of
        (Inl err, r', q') \<Rightarrow> (Inl err, e\<lparr>en_reader := r'\<rparr>, q')
      | (Inr None, r', q') \<Rightarrow> (Inr False, e\<lparr>en_reader := r'\<rparr>, q')
      | (Inr (Some msg), r', q') \<Rightarrow>
          (case engine_apply msg (e\<lparr>en_reader := r'\<rparr>, q') of
             (Inl err, e', q'') \<Rightarrow> (Inl err, e', q'')
           | (Inr applied, e', q'') \<Rightarrow>
               if (case am_book_event applied of Some event \<Rightarrow> reached (be_header event) | None \<Rightarrow> False) then (Inr True, e', q'')
               else replay_until reached crc proc now (e', q'')))"
  by pat_completeness auto
termination
proof (relation "inv_image rd_order (\<lambda>(reached, crc, proc, now, e, q). (en_reader e, q))", goal_cases)
  case 1
  show ?case by (intro wf_inv_image wf_lex_prod wf_less_than)
next
  case (2 reached crc proc now e q)
  then show ?case
    by (auto simp: engine_apply_def dest!: sym [of "(_, _)" "rd_next _ _ _ _"] dest: rd_next_progress split: prod.splits)
qed

declare replay_until.simps [simp del]

definition replay_until_exchange_ts :: "crc_fun \<Rightarrow> proc_fun \<Rightarrow> int \<Rightarrow> u64 \<Rightarrow> bool live_io" where
  "replay_until_exchange_ts crc proc now target_ts_ns = replay_until (\<lambda>h. bh_exchange_ts_ns h \<ge> target_ts_ns) crc proc now"

definition replay_until_ingest_ts :: "crc_fun \<Rightarrow> proc_fun \<Rightarrow> int \<Rightarrow> u64 \<Rightarrow> bool live_io" where
  "replay_until_ingest_ts crc proc now target_ts_ns = replay_until (\<lambda>h. bh_ingest_ts_ns h \<ge> target_ts_ns) crc proc now"

text \<open>The two warm starts differ in the search for the snapshot and in the time they compare.\<close>

definition warm_start_to :: "(path \<Rightarrow> (fs, (path \<times> snapshot_header) option) io) \<Rightarrow> bool live_io \<Rightarrow> crc_fun \<Rightarrow> proc_fun \<Rightarrow> int \<Rightarrow>
    u32 \<Rightarrow> u32 \<Rightarrow> bool live_io" where
  "warm_start_to latest replay crc proc now venue_id market_id =
     bind (get (\<lambda>(e, w). snapshot_dir (en_root e) (unat venue_id) (unat market_id))) (\<lambda>dir.
     bind (on_fs (q_file (latest dir))) (\<lambda>info.
     case info of
       None \<Rightarrow> ret False
     | Some (p, _) \<Rightarrow>
         bind (warm_start_from_snapshot_path crc proc now p) (\<lambda>header.
         if sn_venue_id header \<noteq> venue_id \<or> sn_market_id header \<noteq> market_id then fail (Anyhow ''snapshot venue/market mismatch'')
         else replay)))"

definition warm_start_to_exchange_ts :: "crc_fun \<Rightarrow> proc_fun \<Rightarrow> int \<Rightarrow> (path \<Rightarrow> nat option) \<Rightarrow> u32 \<Rightarrow> u32 \<Rightarrow> u64 \<Rightarrow> bool live_io" where
  "warm_start_to_exchange_ts crc proc now mtime venue_id market_id target_ts_ns =
     warm_start_to (\<lambda>dir. latest_snapshot_before_exchange_ts mtime dir target_ts_ns)
       (replay_until_exchange_ts crc proc now target_ts_ns) crc proc now venue_id market_id"

definition warm_start_to_ingest_ts :: "crc_fun \<Rightarrow> proc_fun \<Rightarrow> int \<Rightarrow> (path \<Rightarrow> nat option) \<Rightarrow> u32 \<Rightarrow> u32 \<Rightarrow> u64 \<Rightarrow> bool live_io" where
  "warm_start_to_ingest_ts crc proc now mtime venue_id market_id target_ts_ns =
     warm_start_to (\<lambda>dir. latest_snapshot_before_ingest_ts mtime dir target_ts_ns)
       (replay_until_ingest_ts crc proc now target_ts_ns) crc proc now venue_id market_id"

section \<open>The payload of a snapshot\<close>

text \<open>The bids go out from the highest price, the asks from the lowest.\<close>

definition build_snapshot_payload :: "l2_book \<Rightarrow> l2_snapshot \<times> bytes" where
  "build_snapshot_payload book =
     (let bids = rev (side_levels (lb_bids book));
          asks = side_levels (lb_asks book);
          snapshot = \<lparr>ls_price_scale = lb_price_scale book, ls_size_scale = lb_size_scale book, ls_pad0 = 0,
            ls_bid_count = word_of_nat (length bids), ls_ask_count = word_of_nat (length asks)\<rparr>
      in (snapshot, l2_snapshot_bytes snapshot @ levels_bytes bids @ levels_bytes asks))"

definition book_size :: "l2_book \<Rightarrow> nat" where
  "book_size b = length (side_levels (lb_bids b)) + length (side_levels (lb_asks b))"

text \<open>Applying the levels of a book to any other book gives the book.\<close>

lemma apply_own_levels:
  assumes "book_ok b" "ls_price_scale s = lb_price_scale b" "ls_size_scale s = lb_size_scale b"
  shows "apply_snapshot s (map (\<lambda>(p, s). \<lparr>pu_price = p, pu_size = s\<rparr>) (rev (side_levels (lb_bids b))))
    (map (\<lambda>(p, s). \<lparr>pu_price = p, pu_size = s\<rparr>) (side_levels (lb_asks b))) any = b"
  using assms fold_side_levels [of "lb_bids b" "rev (side_levels (lb_bids b))"] fold_side_levels [of "lb_asks b" "side_levels (lb_asks b)"]
  by (simp add: apply_snapshot_def book_ok_def l2_book.equality)

lemma build_snapshot_payload_applies:
  assumes "book_ok b" "book_size b \<le> 268435456" "sn_schema_version h = SNAPSHOT_VERSION" "sn_book_mode h = 0"
  shows "apply_snapshot_payload h (snd (build_snapshot_payload b)) (e, w) = (Inr (), e\<lparr>en_l2_book := b\<rparr>, w)"
proof -
  let ?bids = "rev (side_levels (lb_bids b))" and ?asks = "side_levels (lb_asks b)"
  let ?s = "\<lparr>ls_price_scale = lb_price_scale b, ls_size_scale = lb_size_scale b, ls_pad0 = 0,
    ls_bid_count = word_of_nat (length ?bids), ls_ask_count = word_of_nat (length ?asks)\<rparr>"
  let ?p = "l2_snapshot_bytes ?s @ levels_bytes ?bids @ levels_bytes ?asks"
  have n: "length ?bids + length ?asks \<le> 268435456" using assms(2) by (simp add: book_size_def)
  have c: "unat (ls_bid_count ?s) = length ?bids" "unat (ls_ask_count ?s) = length ?asks"
    using n by (simp_all add: unsigned_of_nat take_bit_nat_eq_self)
  have len: "length (l2_snapshot_bytes ?s) = 12" by (rule l2_snapshot_pod.length_to)
  have r: "read_l2_snapshot ?p 0 = Some ?s" using l2_snapshot_pod.read_back [of "[]" ?s] by simp
  obtain v where v: "levels_view_new ?p 12 (length ?bids) (length ?asks) = Some v"
    "bids_iter v = map (\<lambda>(p, s). \<lparr>pu_price = p, pu_size = s\<rparr>) ?bids" "asks_iter v = map (\<lambda>(p, s). \<lparr>pu_price = p, pu_size = s\<rparr>) ?asks"
    using levels_back [OF len n, of "[]"] by auto
  have "snd (build_snapshot_payload b) = ?p" by (simp add: build_snapshot_payload_def Let_def)
  then show ?thesis
    using apply_own_levels [OF assms(1), of ?s] r v c assms(3,4)
    by (simp add: apply_snapshot_payload_def upd_def)
qed

section \<open>Runs\<close>

text \<open>Applying messages one after the other, until the first error.\<close>

fun l2_run :: "message list \<Rightarrow> replay_state \<Rightarrow> (gap_detection + applied_message list) \<times> replay_state" where
  "l2_run [] st = (Inr [], st)"
| "l2_run (m # ms) st =
     (case l2_apply_message m st of
        (Inl e, st') \<Rightarrow> (Inl e, st')
      | (Inr a, st') \<Rightarrow> (case l2_run ms st' of (Inl e, st'') \<Rightarrow> (Inl e, st'') | (Inr as, st'') \<Rightarrow> (Inr (a # as), st'')))"

abbreviation en_state :: "'r replay_engine \<Rightarrow> replay_state" where
  "en_state e \<equiv> (en_sequencer e, en_last_gap e, en_l2_book e)"

lemma l2_run_Cons_ok:
  "l2_run (m # ms) st = (Inr as, st'') \<longleftrightarrow>
   (\<exists>a as' st'. as = a # as' \<and> l2_apply_message m st = (Inr a, st') \<and> l2_run ms st' = (Inr as', st''))"
  by (auto split: prod.splits sum.splits)

declare l2_run.simps(2) [simp del]

lemma l2_apply_sequencer:
  assumes "l2_apply_message m (v, g, b) = (Inr a, v', g', b')"
  shows "v' = v\<lparr>sv_last_seq := Some (msg_seq m)\<rparr>"
  using assms
  by (auto simp: l2_apply_message_def sv_check_def split: prod.splits sum.splits gap_detection.splits if_splits option.splits gap_policy.splits)

lemma l2_run_ok:
  assumes "l2_run ms (v, g, b) = (Inr as, v', g', b')" "book_ok b"
  shows "length as = length ms \<and> book_ok b' \<and> v' = (if ms = [] then v else v\<lparr>sv_last_seq := Some (msg_seq (last ms))\<rparr>)"
  using assms
proof (induction ms arbitrary: v g b as)
  case (Cons m ms)
  obtain a as' v1 g1 b1 where 1: "as = a # as'" "l2_apply_message m (v, g, b) = (Inr a, v1, g1, b1)" "l2_run ms (v1, g1, b1) = (Inr as', v', g', b')"
    using Cons.prems(1) by (auto simp: l2_run_Cons_ok)
  then show ?case
    using Cons.IH [OF 1(3) book_ok_message [OF Cons.prems(2) 1(2)]] l2_apply_sequencer [OF 1(2)] by auto
qed simp

text \<open>The number of messages up to and with the first one that satisfies a condition.\<close>

fun stop_after :: "('a \<Rightarrow> bool) \<Rightarrow> 'a list \<Rightarrow> nat" where
  "stop_after P [] = 0"
| "stop_after P (a # as) = Suc (if P a then 0 else stop_after P as)"

definition reaches :: "(book_event_header \<Rightarrow> bool) \<Rightarrow> applied_message \<Rightarrow> bool" where
  "reaches reached a = (case am_book_event a of Some event \<Rightarrow> reached (be_header event) | None \<Rightarrow> False)"

lemma engine_apply_ok:
  assumes "l2_apply_message m (en_state e) = (Inr a, v, g, b)"
  shows "engine_apply m (e, w) = (Inr a, e\<lparr>en_sequencer := v, en_last_gap := g, en_l2_book := b\<rparr>, w)"
  using assms by (simp add: engine_apply_def)

lemma replay_until_pending:
  assumes "rd_pending crc base segs cur (en_reader e, q) ms" "l2_run ms (en_state e) = (Inr as, st')"
  shows "\<exists>e' bs. replay_until reached crc proc now (e, q) = (Inr (\<exists>a \<in> set as. reaches reached a), e', q) \<and>
    l2_run (take (stop_after (reaches reached) as) ms) (en_state e) = (Inr bs, en_state e') \<and>
    rd_pending crc base segs cur (en_reader e', q) (drop (stop_after (reaches reached) as) ms)"
  using assms
proof (induction ms arbitrary: e as)
  case Nil
  then obtain r' where "rd_next crc proc now (en_reader e, q) = (Inr None, r', q)" "rd_pending crc base segs cur (r', q) []"
    using rd_next_pending [OF Nil(1), of proc now] by auto
  then show ?case using Nil by (auto simp: replay_until.simps intro!: exI [of _ "e\<lparr>en_reader := r'\<rparr>"])
next
  case (Cons m ms)
  obtain r' where r: "rd_next crc proc now (en_reader e, q) = (Inr (Some m), r', q)" "rd_pending crc base segs cur (r', q) ms"
    using rd_next_pending [OF Cons.prems(1), of proc now] by auto
  obtain a as' v g b where a: "as = a # as'" "l2_apply_message m (en_state e) = (Inr a, v, g, b)" "l2_run ms (v, g, b) = (Inr as', st')"
    using Cons.prems(2) by (auto simp: l2_run_Cons_ok)
  let ?e = "e\<lparr>en_reader := r', en_sequencer := v, en_last_gap := g, en_l2_book := b\<rparr>"
  have ap: "engine_apply m (e\<lparr>en_reader := r'\<rparr>, q) = (Inr a, ?e, q)" using a(2) by (simp add: engine_apply_def)
  show ?case
  proof (cases "reaches reached a")
    case True
    then have "replay_until reached crc proc now (e, q) = (Inr True, ?e, q)"
      using r(1) ap by (simp add: replay_until.simps [of reached crc proc now e] reaches_def)
    then show ?thesis using True a r(2) by (auto simp: l2_run_Cons_ok intro!: exI [of _ ?e])
  next
    case False
    then have "replay_until reached crc proc now (e, q) = replay_until reached crc proc now (?e, q)"
      using r(1) ap by (simp add: replay_until.simps [of reached crc proc now e] reaches_def)
    moreover obtain e' bs where "replay_until reached crc proc now (?e, q) = (Inr (\<exists>a \<in> set as'. reaches reached a), e', q)"
      "l2_run (take (stop_after (reaches reached) as') ms) (en_state ?e) = (Inr bs, en_state e')"
      "rd_pending crc base segs cur (en_reader e', q) (drop (stop_after (reaches reached) as') ms)"
      using Cons.IH [of ?e as'] r(2) a(3) by auto
    ultimately show ?thesis using False a by (auto simp: l2_run_Cons_ok intro!: exI [of _ e'])
  qed
qed

section \<open>Warm starts\<close>

lemma with_reader_ok: "m (en_reader e, w) = (Inr x, r', w') \<Longrightarrow> bind (with_reader m) f (e, w) = f x (e\<lparr>en_reader := r'\<rparr>, w')"
  by (simp add: with_reader_def bind_def)

lemma u64_succ:
  fixes n :: u64
  assumes "n \<noteq> - 1"
  shows "unat (n + 1) = Suc (unat n)"
proof -
  have "unat n \<noteq> u64_max"
  proof
    assume "unat n = u64_max"
    moreover have "n = word_of_nat (unat n)" by simp
    ultimately have "n = word_of_nat u64_max" by simp
    then show False using assms by simp
  qed
  then have "Suc (unat n) < 2 ^ 64" using unsigned_less [of n, where ?'a = nat] by simp
  then show ?thesis by (simp add: unat_word_ariths)
qed

text \<open>The position, the validator and the book after a warm start.\<close>

lemma warm_start_lands:
  assumes H: "queue_holds crc base segs cur (rd_path (en_reader e)) (rd_segment_size (en_reader e)) q" "rd_place base segs cur k pl i off"
    and ids: "list_segments (rd_path (en_reader e)) (q_fs q) = (Inr ids, q_fs q)" "ids \<noteq> []"
    and before: "\<forall>m \<in> set (messages (rd_before segs cur k pl)). msg_seq m \<le> n"
    and nopad: "\<forall>m \<in> set (messages (queue_entries segs cur)). msg_type_id m \<noteq> PAD_TYPE_ID"
    and seek: "seek_place select_header_for_seq find_entry_by_seq (rd_path (en_reader e)) ids (n + 1) (q_fs q) = (Inr (i, off), q_fs q)"
    and load: "load_snapshot p (q_fs q) = (Inr (h, snd (build_snapshot_payload b)), q_fs q)"
    and h: "sn_schema_version h = SNAPSHOT_VERSION" "sn_book_mode h = 0" "sn_seq_num h = n" "n \<noteq> - 1"
    and b: "book_ok b" "book_size b \<le> 268435456"
  shows "\<exists>r'. warm_start_from_snapshot_path crc proc now p (e, q) =
      (Inr h, e\<lparr>en_reader := r', en_l2_book := b, en_sequencer := (en_sequencer e)\<lparr>sv_last_seq := Some n\<rparr>, en_last_gap := None\<rparr>, q) \<and>
    rd_pending crc base segs cur (r', q) (dropWhile (\<lambda>m. msg_seq m \<le> n) (messages (queue_entries segs cur)))"
proof -
  have "unat n + 1 \<le> u64_max" using u64_succ [OF h(4)] unsigned_less [of "n + 1", where ?'a = nat] by simp
  then have "sat_add64 (unat n) 1 = unat n + 1" by (simp add: sat_add64_def)
  then have n: "word_of_nat (sat_add64 (unat n) 1) = n + 1" "\<And>x. (\<not> n + 1 \<le> x) = (x \<le> n)"
    using u64_succ [OF h(4)] by (simp_all add: word_le_nat_alt not_le less_Suc_eq_le)
  have "\<exists>r'. seek_seq crc proc now (n + 1) (en_reader e, q) = (Inr (\<exists>m \<in> set (messages (queue_entries segs cur)). n + 1 \<le> msg_seq m), r', q) \<and>
      rd_pending crc base segs cur (r', q) (dropWhile (\<lambda>m. \<not> n + 1 \<le> msg_seq m) (messages (queue_entries segs cur)))"
    unfolding seek_seq_def scan_to_seq_def
    by (rule seek_scan_lands [OF H ids _ nopad _ seek]) (use before in \<open>auto simp: n(2) ref_to_seq\<close>)
  then obtain r' where s: "seek_seq crc proc now (n + 1) (en_reader e, q) = (Inr (\<exists>m \<in> set (messages (queue_entries segs cur)). n + 1 \<le> msg_seq m), r', q)"
    "rd_pending crc base segs cur (r', q) (dropWhile (\<lambda>m. \<not> n + 1 \<le> msg_seq m) (messages (queue_entries segs cur)))"
    by blast
  have ap: "apply_snapshot_payload h (snd (build_snapshot_payload b)) (e, q) = (Inr (), e\<lparr>en_l2_book := b\<rparr>, q)"
    by (rule build_snapshot_payload_applies [OF b h(1,2)])
  have "warm_start_from_snapshot_path crc proc now p (e, q) =
      (Inr h, e\<lparr>en_reader := r', en_l2_book := b, en_sequencer := (en_sequencer e)\<lparr>sv_last_seq := Some n\<rparr>, en_last_gap := None\<rparr>, q)"
    using s(1) n(1) h(3)
    by (simp add: warm_start_from_snapshot_path_def bind_qfile_ok [where m = "load_snapshot p" and q = q, OF load] bind_ok [where m = "apply_snapshot_payload h (snd (build_snapshot_payload b))" and s = "(e, q)", OF ap] sv_check_def sv_reset_def with_reader_ok ret_def)
  then show ?thesis using s(2) n(2) by auto
qed

text \<open>
  Property C4. A warm start replaces the replay of everything before it. Let a queue hold the
  messages \<open>before\<close> and then \<open>rest\<close>, divided by the sequence number of a snapshot that holds the book
  after \<open>before\<close>. An engine that starts from the snapshot and replays until an event reaches a
  point has applied exactly the messages of \<open>rest\<close> up to that event, to the book and the validator
  that the replay of \<open>before\<close> gives; it reports whether there was such an event, and the messages
  behind it are pending.
\<close>

theorem warm_start_replaces_replay:
  assumes "queue_holds crc base segs cur (rd_path (en_reader e)) (rd_segment_size (en_reader e)) q" "rd_place base segs cur k pl i off"
    and "list_segments (rd_path (en_reader e)) (q_fs q) = (Inr ids, q_fs q)" "ids \<noteq> []"
    and "\<forall>m \<in> set (messages (rd_before segs cur k pl)). msg_seq m \<le> n"
    and "\<forall>m \<in> set (messages (queue_entries segs cur)). msg_type_id m \<noteq> PAD_TYPE_ID"
    and "seek_place select_header_for_seq find_entry_by_seq (rd_path (en_reader e)) ids (n + 1) (q_fs q) = (Inr (i, off), q_fs q)"
    and "load_snapshot p (q_fs q) = (Inr (h, snd (build_snapshot_payload b)), q_fs q)"
    and "sn_schema_version h = SNAPSHOT_VERSION" "sn_book_mode h = 0" "sn_seq_num h = n" "n \<noteq> - 1"
    and all: "messages (queue_entries segs cur) = before @ rest" "\<forall>m \<in> set before. msg_seq m \<le> n" "\<forall>m \<in> set rest. n < msg_seq m"
    and run: "l2_run before (sv_new (sv_policy (en_sequencer e)), None, l2_book_new) = (Inr as, v, g, b)"
    and "before \<noteq> []" "msg_seq (last before) = n" "book_size b \<le> 268435456"
    and rest: "l2_run rest (v, None, b) = (Inr cs, st)"
  shows "\<exists>e' ds. bind (warm_start_from_snapshot_path crc proc now p) (\<lambda>_. replay_until reached crc proc now) (e, q) =
      (Inr (\<exists>c \<in> set cs. reaches reached c), e', q) \<and>
    l2_run (take (stop_after (reaches reached) cs) rest) (v, None, b) = (Inr ds, en_state e') \<and>
    rd_pending crc base segs cur (en_reader e', q) (drop (stop_after (reaches reached) cs) rest)"
proof -
  have ok: "book_ok b" "v = (en_sequencer e)\<lparr>sv_last_seq := Some n\<rparr>"
    using l2_run_ok [OF run book_ok_new] assms(17,18) by (simp_all add: sv_new_def)
  have d: "dropWhile (\<lambda>m. msg_seq m \<le> n) (messages (queue_entries segs cur)) = rest"
    using all by (cases rest) (auto simp: dropWhile_append not_le)
  obtain r' where w: "warm_start_from_snapshot_path crc proc now p (e, q) =
      (Inr h, e\<lparr>en_reader := r', en_l2_book := b, en_sequencer := v, en_last_gap := None\<rparr>, q)"
    "rd_pending crc base segs cur (r', q) rest"
    using warm_start_lands [OF assms(1-12) ok(1) assms(19), of proc now] unfolding ok(2) [symmetric] d by blast
  show ?thesis
    using replay_until_pending [of crc base segs cur "e\<lparr>en_reader := r', en_l2_book := b, en_sequencer := v, en_last_gap := None\<rparr>" q rest cs st reached proc now]
      w rest by (simp add: bind_ok)
qed

definition demo_header :: snapshot_header where
  "demo_header = to_header (demo_metadata\<lparr>md_seq_num := 0\<rparr>) (word_of_nat (length (snd (build_snapshot_payload l2_book_new))))"

text \<open>The queue with one message and a snapshot taken behind it.\<close>

definition demo_snapshotted :: queue where
  "demo_snapshotted =
     \<lparr>q_fs = \<lparr>fs_dirs = [[]], fs_names = [([segment_filename 5], 0), ([''snapshots'', ''s''], 1)],
        fs_data = (\<lambda>i. if i = 1 then sn_encode_header demo_header @ snd (build_snapshot_payload l2_book_new) else demo_segment (\<lambda>_. 5)),
        fs_next = 2\<rparr>,
      q_ctrl = Some (cb_create 5 192 3 256)\<rparr>"

lemma demo_snapshotted_holds: "queue_holds (\<lambda>_. 5) 5 [] [Msg demo_msg] [] 256 demo_snapshotted"
  using one_segment_holds [of "q_fs demo_snapshotted" "\<lambda>_. 5" demo_msg]
  by (simp add: demo_snapshotted_def demo_segment_def demo_len fs_wf_def dir_ok_def is_dir_def lookup_path_def segment_path_def)
    (simp add: demo_msg_def)

lemma side_levels_empty [simp]: "side_levels Mapping.empty = []"
  by (simp add: side_levels_def)

theorem warm_start_replaces_replay_witness:
  "\<exists>e'. bind (warm_start_from_snapshot_path (\<lambda>_. 5) demo_proc 0 [''snapshots'', ''s'']) (\<lambda>_. replay_until (\<lambda>_. True) (\<lambda>_. 5) demo_proc 0)
      (engine_new [] demo_reader, demo_snapshotted) = (Inr False, e', demo_snapshotted) \<and> engine_last_seq e' = Some 0 \<and> en_l2_book e' = l2_book_new"
proof -
  have r: "rd_path (en_reader (engine_new [] demo_reader)) = []" "rd_segment_size (en_reader (engine_new [] demo_reader)) = 256"
    "sv_policy (en_sequencer (engine_new [] demo_reader)) = GapPanic"
    by (simp_all add: demo_reader_def engine_new_def sv_new_def)
  have ls: "list_segments [] (q_fs demo_snapshotted) = (Inr [5], q_fs demo_snapshotted)"
    by (simp add: list_segments_def demo_snapshotted_def is_dir_def read_dir_def map_filter_simps reader_segment_id_eq)
  have "lookup_path (q_fs demo_snapshotted) (index_path [] 5) = None"
    by (simp add: demo_snapshotted_def lookup_path_def index_path_def)
  then have "load_index_header [] 5 (q_fs demo_snapshotted) = (Inr None, q_fs demo_snapshotted)"
    by (simp add: load_index_header_def bind_ok [of "attempt _"] attempt_def open_read_def ret_def)
  then have pl: "seek_place select_header_for_seq find_entry_by_seq [] [5] t (q_fs demo_snapshotted) = (Inr (5, 64), q_fs demo_snapshotted)" for t
    by (simp add: seek_place_def bind_ok ret_def select_header_for_seq_def select_header_def)
  have "sn_wf demo_header" by (simp add: demo_header_def sn_wf_def to_header_def demo_metadata_def)
  note h = sn_header_round_trip [OF this]
  have ld: "load_snapshot [''snapshots'', ''s''] (q_fs demo_snapshotted) =
      (Inr (demo_header, snd (build_snapshot_payload l2_book_new)), q_fs demo_snapshotted)"
    by (rule load_snapshot_ok [where i = 1])
      (use h l2_snapshot_pod.length_to in \<open>simp_all add: demo_snapshotted_def lookup_path_def demo_header_def to_header_def
        build_snapshot_payload_def l2_book_new_def Let_def levels_bytes_def\<close>)
  have run: "l2_run [demo_msg] (sv_new GapPanic, None, l2_book_new) =
      (Inr [skipped 0 NonBookEvent None], \<lparr>sv_last_seq = Some 0, sv_policy = GapPanic\<rparr>, None, l2_book_new)"
    by (simp add: l2_run.simps l2_apply_message_def sv_check_def sv_new_def apply_book_event_def demo_msg_def)
  show ?thesis
    using warm_start_replaces_replay [of "\<lambda>_. 5" 5 "[]" "[Msg demo_msg]" "engine_new [] demo_reader" demo_snapshotted 0 "[]" 5 64 "[5]" 0
        "[''snapshots'', ''s'']" demo_header l2_book_new "[demo_msg]" "[]" "[skipped 0 NonBookEvent None]"
        "\<lparr>sv_last_seq = Some 0, sv_policy = GapPanic\<rparr>" None "[]" "(\<lparr>sv_last_seq = Some 0, sv_policy = GapPanic\<rparr>, None, l2_book_new)" demo_proc 0 "\<lambda>_. True"]
      demo_snapshotted_holds ls pl r ld run
    by (simp add: rd_place_def rd_before_def queue_entries_def book_size_def l2_book_new_def engine_last_seq_def)
      (auto simp: demo_msg_def demo_header_def to_header_def demo_metadata_def dest!: sym [of _ "en_sequencer _"])
qed

end
