(* ===== verification/Catalog.thy ===== *)
theory Catalog
  imports Names "HOL-Library.Mapping" "HOL-Library.AList_Mapping" "HOL-Library.Char_ord"
begin

unbundle bit_operations_syntax

text \<open>
  \<^verbatim>\<open>src/src/stream/etl/catalog.rs\<close>: the catalog of symbols with their periods of validity, the
  hashes that number markets and versions, and the normalisation of symbol codes. The rows come
  from Parquet files through a library; here they are given. Strings are sequences of bytes.
\<close>

section \<open>Hashes\<close>

definition fxhash64 :: "string \<Rightarrow> u64" where
  "fxhash64 text = fold (\<lambda>byte hash. (hash XOR of_char byte) * 0x1099511628211904) text 0xcbf29ce484222325"

definition market_id_for_symbol :: "string \<Rightarrow> u32" where
  "market_id_for_symbol symbol = (let h = fxhash64 symbol in ucast (drop_bit 32 h) XOR ucast h)"

section \<open>Symbol codes\<close>

definition to_ascii_lowercase :: "char \<Rightarrow> char" where
  "to_ascii_lowercase c = (if CHR ''A'' \<le> c \<and> c \<le> CHR ''Z'' then char_of (of_char c + 32 :: nat) else c)"

definition code_letter :: "char \<Rightarrow> bool" where
  "code_letter c \<longleftrightarrow> CHR ''a'' \<le> c \<and> c \<le> CHR ''z'' \<or> CHR ''0'' \<le> c \<and> c \<le> CHR ''9'' \<or> c = CHR ''.'' \<or> c = CHR ''_''"

definition code_char :: "char \<Rightarrow> char option" where
  "code_char ch =
     (let lowered = to_ascii_lowercase ch in
      if code_letter lowered then Some lowered
      else if lowered \<in> {CHR ''-'', CHR ''/'', CHR '':'', CHR '' ''} then Some (CHR ''-'')
      else None)"

fun normalize_chars :: "string \<Rightarrow> string \<Rightarrow> bool \<Rightarrow> string" where
  "normalize_chars [] out prev_dash = out"
| "normalize_chars (ch # rest) out prev_dash =
     (case code_char ch of
        None \<Rightarrow> normalize_chars rest out prev_dash
      | Some c \<Rightarrow>
          if c = CHR ''-''
          then if prev_dash \<or> out = [] then normalize_chars rest out True else normalize_chars rest (out @ [c]) True
          else normalize_chars rest (out @ [c]) False)"

definition normalize_symbol_code :: "string \<Rightarrow> string" where
  "normalize_symbol_code raw = rev (dropWhile (\<lambda>c. c = CHR ''-'') (rev (normalize_chars raw [] False)))"

section \<open>The catalog\<close>

text \<open>\<open>SymbolVersion\<close>; \<open>SymbolIdentity\<close>, which a lookup returns, has the same fields.\<close>

record symbol_version =
  sy_symbol_id :: u64
  sy_symbol_code :: string
  sy_exchange_symbol :: string
  sy_exchange_id :: u16
  sy_asset_type :: u8
  sy_valid_from_us :: int
  sy_valid_until_us :: int
  sy_symbol_version_id :: u64

type_synonym symbol_catalog = "(u16 \<times> u32, symbol_version list) mapping"

text \<open>A row of the table; \<open>None\<close> is a null.\<close>

record delta_row =
  dr_exchange_id :: "int option"
  dr_exchange_symbol :: "string option"
  dr_asset_type :: "int option"
  dr_valid_from :: "int option"
  dr_valid_until :: "int option"
  dr_symbol_id :: "int option"

definition fmt_int :: "int \<Rightarrow> string" where
  "fmt_int i = (if i < 0 then ''-'' @ dec_digits (nat (- i)) else dec_digits (nat i))"

definition version_id :: "u64 \<Rightarrow> int \<Rightarrow> int \<Rightarrow> u64" where
  "version_id symbol_id valid_from_us valid_until_us =
     fxhash64 (dec_digits (unat symbol_id) @ '':'' @ fmt_int valid_from_us @ '':'' @ fmt_int valid_until_us)"

text \<open>What the body of the loop makes of a row: nothing when it skips it.\<close>

definition row_version :: "delta_row \<Rightarrow> ((u16 \<times> u32) \<times> symbol_version) option" where
  "row_version r =
     (case (dr_exchange_id r, dr_exchange_symbol r, dr_asset_type r, dr_valid_from r, dr_valid_until r, dr_symbol_id r) of
        (Some exchange_id, Some symbol, Some asset_type, Some valid_from_us, Some valid_until_us, Some symbol_id) \<Rightarrow>
          if exchange_id < 0 \<or> asset_type < 0 \<or> symbol_id < 0 \<or> valid_until_us \<le> valid_from_us then None
          else Some ((word_of_int exchange_id, market_id_for_symbol symbol),
                 \<lparr>sy_symbol_id = word_of_int symbol_id, sy_symbol_code = normalize_symbol_code symbol,
                  sy_exchange_symbol = symbol, sy_exchange_id = word_of_int exchange_id,
                  sy_asset_type = word_of_int asset_type, sy_valid_from_us = valid_from_us,
                  sy_valid_until_us = valid_until_us,
                  sy_symbol_version_id = version_id (word_of_int symbol_id) valid_from_us valid_until_us\<rparr>)
      | _ \<Rightarrow> None)"

definition load_row :: "delta_row \<Rightarrow> symbol_catalog \<Rightarrow> symbol_catalog" where
  "load_row r by_market =
     (case row_version r of
        None \<Rightarrow> by_market
      | Some (key, version) \<Rightarrow>
          Mapping.update key ((case Mapping.lookup by_market key of Some vs \<Rightarrow> vs | None \<Rightarrow> []) @ [version]) by_market)"

definition load_delta :: "delta_row list \<Rightarrow> symbol_catalog" where
  "load_delta rows = Mapping.map_values (\<lambda>_. sort_key sy_valid_from_us) (fold load_row rows Mapping.empty)"

text \<open>The loop over the versions stops at the first one that begins later.\<close>

fun version_at :: "int \<Rightarrow> symbol_version list \<Rightarrow> symbol_version option \<Rightarrow> symbol_version option" where
  "version_at t [] best = best"
| "version_at t (v # vs) best =
     (if t < sy_valid_from_us v then best
      else version_at t vs (if sy_valid_from_us v \<le> t \<and> t < sy_valid_until_us v then Some v else best))"

definition resolve_by_market_id :: "symbol_catalog \<Rightarrow> u16 \<Rightarrow> u32 \<Rightarrow> u64 \<Rightarrow> symbol_version option" where
  "resolve_by_market_id cat exchange_id market_id event_time_ns =
     (let event_time_us = unat event_time_ns div 1000 in
      if event_time_us > 2 ^ 63 - 1 then None
      else case Mapping.lookup cat (exchange_id, market_id) of
             None \<Rightarrow> None
           | Some versions \<Rightarrow> version_at (int event_time_us) versions None)"

section \<open>Lookups\<close>

abbreviation valid_at :: "int \<Rightarrow> symbol_version \<Rightarrow> bool" where
  "valid_at t v \<equiv> sy_valid_from_us v \<le> t \<and> t < sy_valid_until_us v"

lemma version_at_sorted:
  "sorted (map sy_valid_from_us vs) \<Longrightarrow>
   version_at t vs best = (if filter (valid_at t) vs = [] then best else Some (last (filter (valid_at t) vs)))"
proof (induction vs arbitrary: best)
  case (Cons v vs)
  show ?case
  proof (cases "t < sy_valid_from_us v")
    case True
    then have "filter (valid_at t) (v # vs) = []" using Cons.prems by (auto simp: filter_empty_conv)
    then show ?thesis using True by simp
  next
    case False
    then show ?thesis using Cons by auto
  qed
qed simp

abbreviation versions_of :: "symbol_catalog \<Rightarrow> u16 \<times> u32 \<Rightarrow> symbol_version list" where
  "versions_of m k \<equiv> (case Mapping.lookup m k of Some vs \<Rightarrow> vs | None \<Rightarrow> [])"

lemma versions_of_rows:
  "set (versions_of (fold load_row rows m) k) = set (versions_of m k) \<union> {v. \<exists>r \<in> set rows. row_version r = Some (k, v)}"
proof (induction rows arbitrary: m)
  case (Cons r rows)
  have "set (versions_of (load_row r m) k) = set (versions_of m k) \<union> {v. row_version r = Some (k, v)}"
    by (auto simp: load_row_def lookup_update' split: option.splits)
  then show ?case using Cons.IH [of "load_row r m"] by auto
qed simp

lemma versions_of_delta:
  "sorted (map sy_valid_from_us (versions_of (load_delta rows) k))"
  "set (versions_of (load_delta rows) k) = {v. \<exists>r \<in> set rows. row_version r = Some (k, v)}"
  using versions_of_rows [of rows Mapping.empty k]
  by (auto simp: load_delta_def Mapping.lookup_map_values split: option.splits)

lemma sorted_filter_last:
  assumes "sorted (map f xs)" "x \<in> set (filter P xs)"
  shows "f x \<le> f (last (filter P xs))"
proof -
  have "filter P xs \<noteq> []" using assms(2) by (cases "filter P xs") simp_all
  then have "filter P xs = butlast (filter P xs) @ [last (filter P xs)]" by simp
  moreover have "sorted (map f (filter P xs))" using assms(1) by (rule sorted_filter)
  ultimately have "sorted (map f (butlast (filter P xs) @ [last (filter P xs)]))" "x \<in> set (butlast (filter P xs) @ [last (filter P xs)])"
    using assms(2) by auto
  then show ?thesis by (auto simp: sorted_append)
qed

text \<open>
  A lookup in a loaded catalog finds the version of the market that is valid at the
  time of the event and began last, and finds none only when no usable row of the table was for
  that market and valid then.
\<close>

lemma resolve_finds_latest:
  "case resolve_by_market_id (load_delta rows) exchange market ns of
     None \<Rightarrow> \<nexists>r v. r \<in> set rows \<and> row_version r = Some ((exchange, market), v) \<and> valid_at (int (unat ns div 1000)) v
   | Some v \<Rightarrow> (\<exists>r \<in> set rows. row_version r = Some ((exchange, market), v)) \<and> valid_at (int (unat ns div 1000)) v \<and>
       (\<nexists>r u. r \<in> set rows \<and> row_version r = Some ((exchange, market), u) \<and> valid_at (int (unat ns div 1000)) u \<and>
          sy_valid_from_us v < sy_valid_from_us u)"
proof -
  let ?t = "int (unat ns div 1000)" and ?vs = "versions_of (load_delta rows) (exchange, market)"
  have "unat ns div 1000 \<le> 2 ^ 63 - 1" using unsigned_less [of ns, where ?'a = nat] by simp
  then have r: "resolve_by_market_id (load_delta rows) exchange market ns =
      (if filter (valid_at ?t) ?vs = [] then None else Some (last (filter (valid_at ?t) ?vs)))"
    using version_at_sorted [OF versions_of_delta(1) [of rows "(exchange, market)"], of ?t None]
    by (auto simp: resolve_by_market_id_def Let_def split: option.splits)
  note s = versions_of_delta(2) [of rows "(exchange, market)"]
  show ?thesis
  proof (cases "filter (valid_at ?t) ?vs = []")
    case True
    then show ?thesis using r s by (auto simp: filter_empty_conv)
  next
    case False
    let ?v = "last (filter (valid_at ?t) ?vs)"
    have "?v \<in> set (filter (valid_at ?t) ?vs)" using False by (rule last_in_set)
    then have v0: "?v \<in> set ?vs \<and> valid_at ?t ?v" by (simp only: set_filter mem_Collect_eq)
    then have v: "\<exists>r \<in> set rows. row_version r = Some ((exchange, market), ?v)" "valid_at ?t ?v" unfolding s by blast+
    have "\<nexists>r u. r \<in> set rows \<and> row_version r = Some ((exchange, market), u) \<and> valid_at ?t u \<and> sy_valid_from_us ?v < sy_valid_from_us u"
    proof
      assume "\<exists>r u. r \<in> set rows \<and> row_version r = Some ((exchange, market), u) \<and> valid_at ?t u \<and> sy_valid_from_us ?v < sy_valid_from_us u"
      then obtain u where u: "\<exists>r \<in> set rows. row_version r = Some ((exchange, market), u)" "valid_at ?t u" "sy_valid_from_us ?v < sy_valid_from_us u"
        by blast
      then have "u \<in> set ?vs" unfolding s by blast
      then have "u \<in> set (filter (valid_at ?t) ?vs)" using u(2) by (simp only: set_filter mem_Collect_eq)
      then have "sy_valid_from_us u \<le> sy_valid_from_us ?v" by (rule sorted_filter_last [OF versions_of_delta(1)])
      then show False using u(3) by linarith
    qed
    then show ?thesis using r v False by simp
  qed
qed

section \<open>What the hash forgets\<close>

text \<open>Every step multiplies by a multiple of four, so the differences of two states move up and out of the word.\<close>

lemma take_bit_word_mult: "take_bit k (x * y :: 'a::len word) = take_bit k (take_bit k x * take_bit k y)"
  by transfer (simp add: take_bit_mult)

lemma take_bit_step:
  fixes h h' :: u64
  assumes "take_bit k h = take_bit k h'"
  shows "take_bit (k + 2) ((h XOR b) * 0x1099511628211904) = take_bit (k + 2) ((h' XOR b) * 0x1099511628211904)"
proof -
  have m: "x * 0x1099511628211904 = push_bit 2 (x * 0x42654458A084641)" for x :: u64 by (simp add: push_bit_eq_mult)
  have "take_bit k (h XOR b) = take_bit k (h' XOR b)" using assms by (simp add: take_bit_xor)
  then have "take_bit k ((h XOR b) * 0x42654458A084641) = take_bit k ((h' XOR b) * 0x42654458A084641)"
    using take_bit_word_mult [of k "h XOR b" "0x42654458A084641"] take_bit_word_mult [of k "h' XOR b" "0x42654458A084641"] by simp
  then show ?thesis unfolding m take_bit_push_bit by simp
qed

lemma fold_forgets:
  fixes h h' :: u64
  assumes "take_bit k h = take_bit k h'"
  shows "take_bit (k + 2 * length s) (fold (\<lambda>byte hash. (hash XOR of_char byte) * 0x1099511628211904) s h) =
    take_bit (k + 2 * length s) (fold (\<lambda>byte hash. (hash XOR of_char byte) * 0x1099511628211904) s h')"
  using assms
proof (induction s arbitrary: k h h')
  case (Cons c s)
  show ?case using Cons.IH [OF take_bit_step [OF Cons.prems, of "of_char c"]] by (simp add: algebra_simps)
qed simp

lemma fxhash64_append:
  "fxhash64 (x @ s) = fold (\<lambda>byte hash. (hash XOR of_char byte) * 0x1099511628211904) s (fxhash64 x)"
  by (simp add: fxhash64_def)

text \<open>
  The version number does not depend on the symbol. When the two times together have
  at least thirty digits, as times in microseconds do, the last 32 bytes that are hashed are the
  times and the separators, and the hash depends on nothing else: all symbols with one period of
  validity share one version number.
\<close>

lemma version_id_ignores_symbol:
  assumes "30 \<le> length (fmt_int valid_from) + length (fmt_int valid_until)"
  shows "version_id a valid_from valid_until = version_id b valid_from valid_until"
proof -
  let ?s = "'':'' @ fmt_int valid_from @ '':'' @ fmt_int valid_until"
  have 64: "64 \<le> 2 * length ?s" using assms by simp
  have "take_bit (0 + 2 * length ?s) (fxhash64 (dec_digits (unat a) @ ?s)) = take_bit (0 + 2 * length ?s) (fxhash64 (dec_digits (unat b) @ ?s))"
    unfolding fxhash64_append [of _ ?s] by (rule fold_forgets) simp
  then show ?thesis using 64 by (simp add: version_id_def take_bit_word_eq_self)
qed

section \<open>Clean symbol codes\<close>

text \<open>Codes as they should be: characters of codes, no two dashes together, none at either end.\<close>

fun single_dashes :: "string \<Rightarrow> bool" where
  "single_dashes (a # b # s) \<longleftrightarrow> \<not> (a = CHR ''-'' \<and> b = CHR ''-'') \<and> single_dashes (b # s)"
| "single_dashes s \<longleftrightarrow> True"

definition code_prefix :: "string \<Rightarrow> bool" where
  "code_prefix s \<longleftrightarrow> (\<forall>c \<in> set s. code_char c = Some c) \<and> single_dashes s \<and> (s = [] \<or> hd s \<noteq> CHR ''-'')"

definition clean_code :: "string \<Rightarrow> bool" where
  "clean_code s \<longleftrightarrow> code_prefix s \<and> (s = [] \<or> last s \<noteq> CHR ''-'')"

lemma single_dashes_snoc:
  "single_dashes (s @ [c]) \<longleftrightarrow> single_dashes s \<and> (s = [] \<or> \<not> (last s = CHR ''-'' \<and> c = CHR ''-''))"
  by (induction s rule: single_dashes.induct) auto

lemma code_prefix_snoc:
  "code_prefix (s @ [c]) \<longleftrightarrow> code_prefix s \<and> code_char c = Some c \<and> \<not> (c = CHR ''-'' \<and> (s = [] \<or> last s = CHR ''-''))"
  unfolding code_prefix_def single_dashes_snoc by (auto simp: hd_append)

lemma lowercase_idem: "to_ascii_lowercase (to_ascii_lowercase c) = to_ascii_lowercase c"
  by (auto simp: to_ascii_lowercase_def less_eq_char_def)

lemma code_char_idem: "code_char c = Some d \<Longrightarrow> code_char d = Some d"
proof -
  assume c: "code_char c = Some d"
  have dash: "code_char (CHR ''-'') = Some (CHR ''-'')"
    by (simp add: code_char_def code_letter_def to_ascii_lowercase_def less_eq_char_def Let_def)
  show "code_char d = Some d"
  proof (cases "code_letter (to_ascii_lowercase c)")
    case True
    then have "d = to_ascii_lowercase c" using c by (simp add: code_char_def Let_def)
    then show ?thesis using True by (simp add: code_char_def Let_def lowercase_idem)
  next
    case False
    then have "d = CHR ''-''" using c by (simp add: code_char_def Let_def split: if_splits)
    then show ?thesis using dash by simp
  qed
qed

lemma normalize_chars_prefix:
  "code_prefix out \<Longrightarrow> prev_dash = (out \<noteq> [] \<and> last out = CHR ''-'') \<or> out = [] \<Longrightarrow> code_prefix (normalize_chars s out prev_dash)"
proof (induction s out prev_dash rule: normalize_chars.induct)
  case (2 ch rest out prev_dash)
  show ?case
  proof (cases "code_char ch")
    case None
    then show ?thesis using 2 by simp
  next
    case (Some c)
    then show ?thesis using 2 code_char_idem [OF Some] by (auto simp: code_prefix_snoc)
  qed
qed simp

lemma normalize_chars_keep:
  "code_prefix (out @ s) \<Longrightarrow> prev_dash = (out \<noteq> [] \<and> last out = CHR ''-'') \<Longrightarrow> normalize_chars s out prev_dash = out @ s"
proof (induction s arbitrary: out prev_dash)
  case (Cons c s)
  have "code_prefix ((out @ [c]) @ s)" using Cons.prems(1) by simp
  then have p: "code_prefix (out @ [c])" unfolding code_prefix_def
    by (induction s rule: rev_induct) (auto simp: single_dashes_snoc hd_append simp flip: append_assoc split: if_splits)
  then have c: "code_char c = Some c" "c = CHR ''-'' \<longrightarrow> out \<noteq> [] \<and> last out \<noteq> CHR ''-''" by (auto simp: code_prefix_snoc)
  show ?case using Cons.IH [of "out @ [c]" "c = CHR ''-''"] Cons.prems c by auto
qed simp

lemma trim_dashes:
  "code_prefix s \<Longrightarrow> clean_code (rev (dropWhile (\<lambda>c. c = CHR ''-'') (rev s)))"
proof (induction s rule: rev_induct)
  case (snoc c s)
  then show ?case by (auto simp: code_prefix_snoc clean_code_def)
qed (simp add: clean_code_def)

text \<open>
  Property C40. Normalised symbol codes are clean and stay as they are: they consist of lower-case
  letters, digits, dots, underscores and dashes, with no two dashes together and none at either
  end, and normalising again changes nothing.
\<close>

theorem normalize_clean:
  "clean_code (normalize_symbol_code raw) \<and> normalize_symbol_code (normalize_symbol_code raw) = normalize_symbol_code raw"
proof -
  have c: "clean_code (normalize_symbol_code raw)"
    unfolding normalize_symbol_code_def by (rule trim_dashes) (rule normalize_chars_prefix, simp_all add: code_prefix_def)
  let ?s = "normalize_symbol_code raw"
  have "normalize_chars ?s [] False = ?s" using normalize_chars_keep [of "[]" ?s False] c by (simp add: clean_code_def)
  moreover have "rev (dropWhile (\<lambda>c. c = CHR ''-'') (rev ?s)) = ?s"
    using c by (cases ?s rule: rev_cases) (auto simp: clean_code_def)
  ultimately have "normalize_symbol_code ?s = ?s" by (simp add: normalize_symbol_code_def [of ?s])
  then show ?thesis using c by simp
qed

end
