(* ===== verification/Refinery.thy ===== *)
theory Refinery
  imports Replay_Engine Catalog
begin

text \<open>
  \<^verbatim>\<open>src/src/stream/etl/refinery.rs\<close>: a queue of book events is copied to another queue, with
  snapshots of the book put in between. The output queue has a writer of its own; what the writer
  observes at each append is given by the sequence number it is about to use.
\<close>

section \<open>The refinery\<close>

record refinery =
  rf_snapshot_interval_ns :: nat
  rf_last_snapshot_ns :: u64
  rf_active_symbol :: "symbol_version option"
  rf_active_market_id :: "u32 option"
  rf_active_venue_id :: "u16 option"

type_synonym 'a rf_io = "(refinery \<times> queue_writer \<times> queue, 'a) io"

definition refinery_new :: "nat \<Rightarrow> refinery" where
  "refinery_new interval_ns =
     \<lparr>rf_snapshot_interval_ns = as_u64 interval_ns, rf_last_snapshot_ns = 0, rf_active_symbol = None, rf_active_market_id = None,
      rf_active_venue_id = None\<rparr>"

text \<open>The input and the output queue are opened one after the other.\<close>

definition refinery_open ::
  "crc_fun \<Rightarrow> proc_fun \<Rightarrow> nat \<Rightarrow> (bool \<times> bool result) list \<Rightarrow> int \<Rightarrow> path \<Rightarrow> string \<Rightarrow> path \<Rightarrow> nat \<Rightarrow>
   (queue \<times> queue, queue_reader replay_engine \<times> refinery \<times> queue_writer) io" where
  "refinery_open crc proc self locks now input_path reader_name output_path interval_ns = (\<lambda>(iq, oq).
     case live_open crc now input_path reader_name ResumeStrict iq of
       (Inl err, iq') \<Rightarrow> (Inl err, iq', oq)
     | (Inr e, iq') \<Rightarrow>
         (case open_publisher crc proc self locks now output_path archive_config oq of
            (Inl err, oq') \<Rightarrow> (Inl err, iq', oq')
          | (Inr w, oq') \<Rightarrow> (Inr (e, refinery_new interval_ns, w), iq', oq')))"

definition extract_book_identity :: "replay_message \<Rightarrow> (u16 \<times> u32 \<times> u64) option" where
  "extract_book_identity msg =
     (case rp_book_event msg of
        None \<Rightarrow> None
      | Some event \<Rightarrow> Some (bh_venue_id (be_header event), bh_market_id (be_header event), bh_exchange_ts_ns (be_header event)))"

definition ensure_active_symbol :: "u16 \<Rightarrow> u32 \<Rightarrow> symbol_version \<Rightarrow> (refinery \<times> 's, unit) io" where
  "ensure_active_symbol venue_id market_id symbol =
     bind (get fst) (\<lambda>rf.
     case (rf_active_symbol rf, rf_active_market_id rf, rf_active_venue_id rf) of
       (None, None, None) \<Rightarrow>
         upd (\<lambda>rf. rf\<lparr>rf_active_symbol := Some symbol, rf_active_market_id := Some market_id, rf_active_venue_id := Some venue_id\<rparr>)
     | (Some existing, Some existing_market, Some existing_venue) \<Rightarrow>
         if existing_market \<noteq> market_id \<or> existing_venue \<noteq> venue_id then
           fail (Anyhow (''refinery only supports a single symbol per run (got venue_id='' @ dec_digits (unat venue_id) @
             '' market_id='' @ dec_digits (unat market_id) @ '', expected venue_id='' @ dec_digits (unat existing_venue) @
             '' market_id='' @ dec_digits (unat existing_market) @ '')''))
         else if sy_symbol_id existing \<noteq> sy_symbol_id symbol then
           fail (Anyhow (''symbol_id mismatch for venue_id='' @ dec_digits (unat venue_id) @ '' market_id='' @ dec_digits (unat market_id) @
             '': '' @ dec_digits (unat (sy_symbol_id existing)) @ '' vs '' @ dec_digits (unat (sy_symbol_id symbol))))
         else ret ()
     | _ \<Rightarrow> fail (Anyhow ''refinery active symbol state inconsistent''))"

text \<open>The closure that writes the snapshot into the payload buffer.\<close>

definition fill_snapshot :: "bytes \<times> bytes \<Rightarrow> l2_book \<Rightarrow> u64 \<Rightarrow> u16 \<Rightarrow> u32 \<Rightarrow> fill" where
  "fill_snapshot pad book timestamp_ns venue_id market_id = (\<lambda>buf.
     case write_l2_snapshot pad buf venue_id market_id timestamp_ns (lb_price_scale book) (lb_size_scale book)
            (rev (side_levels (lb_bids book))) (side_levels (lb_asks book)) of
       Inl e \<Rightarrow> (buf, Inl e)
     | Inr (_, buf') \<Rightarrow> (buf', Inr ()))"

definition inject_snapshot :: "crc_fun \<Rightarrow> wr_env \<Rightarrow> bytes \<times> bytes \<Rightarrow> l2_book \<Rightarrow> u64 \<Rightarrow> u16 \<Rightarrow> u32 \<Rightarrow> (queue_writer \<times> queue, unit) io" where
  "inject_snapshot crc env pad book timestamp_ns venue_id market_id =
     append_in_place_with_timestamp crc env (type_id_u16 BookEvent)
       (l2_snapshot_size (length (side_levels (lb_bids book))) (length (side_levels (lb_asks book)))) timestamp_ns
       (fill_snapshot pad book timestamp_ns venue_id market_id)"

definition wants_snapshot :: "nat \<Rightarrow> u64 \<Rightarrow> u64 \<Rightarrow> bool" where
  "wants_snapshot interval_ns last_ns ts \<longleftrightarrow> last_ns = 0 \<or> sat_sub64 (unat ts) (unat last_ns) \<ge> interval_ns"

definition refine_message ::
  "crc_fun \<Rightarrow> (u64 \<Rightarrow> wr_env) \<Rightarrow> bytes \<times> bytes \<Rightarrow> symbol_catalog \<Rightarrow> replay_message \<Rightarrow> u16 \<times> u32 \<times> u64 \<Rightarrow> unit rf_io" where
  "refine_message crc env pad cat msg = (\<lambda>(venue_id, market_id, event_ts_ns).
     case resolve_by_market_id cat venue_id market_id event_ts_ns of
       None \<Rightarrow> fail (Anyhow (''symbol not found for venue_id='' @ dec_digits (unat venue_id) @ '' market_id='' @ dec_digits (unat market_id) @
         '' event_ts_ns='' @ dec_digits (unat event_ts_ns)))
     | Some symbol \<Rightarrow>
         bind (ensure_active_symbol venue_id market_id symbol) (\<lambda>_.
         bind (get id) (\<lambda>(rf, w, _).
         bind (if wants_snapshot (rf_snapshot_interval_ns rf) (rf_last_snapshot_ns rf) event_ts_ns then
                 bind (on_fs (inject_snapshot crc (env (qw_seq w)) pad (rp_book msg) event_ts_ns venue_id market_id)) (\<lambda>_.
                 upd (\<lambda>rf. rf\<lparr>rf_last_snapshot_ns := event_ts_ns\<rparr>))
               else ret ()) (\<lambda>_.
         bind (get id) (\<lambda>(_, w, _).
         on_fs (append_with_timestamp crc (env (qw_seq w)) (msg_type_id (rp_msg msg)) (msg_payload (rp_msg msg))
           (msg_timestamp_ns (rp_msg msg))))))))"

text \<open>Saving the position leaves the reader where it is, so the loop ends with the input.\<close>

lemma rd_commit_left:
  assumes "rd_commit crc now (r, q) = (res, r', q')"
  shows "rd_left (r', q') = rd_left (r, q)"
  using assms
  by (auto simp: rd_commit_def bind_def upd_def lift_def get_def on_fs_def q_file_def rd_left_def split: prod.splits sum.splits option.splits)

lemma engine_next_message_progress:
  assumes "engine_next_message (rd_next crc proc now) (e, q) = (Inr (Some m), e', q')"
  shows "((en_reader e', q'), (en_reader e, q)) \<in> rd_order"
proof -
  obtain msg r1 q1 where n: "rd_next crc proc now (en_reader e, q) = (Inr (Some msg), r1, q1)" "en_reader e' = r1" "q' = q1"
    using assms by (auto simp: engine_next_message_def with_reader_def bind_def ret_def get_def engine_apply_def
        split: prod.splits sum.splits option.splits)
  then show ?thesis using rd_next_progress [OF n(1)] by simp
qed

function refinery_run ::
  "crc_fun \<Rightarrow> proc_fun \<Rightarrow> int \<Rightarrow> (u64 \<Rightarrow> wr_env) \<Rightarrow> bytes \<times> bytes \<Rightarrow> symbol_catalog \<Rightarrow>
   ((queue_reader replay_engine \<times> queue) \<times> refinery \<times> queue_writer \<times> queue, unit) io" where
  "refinery_run crc proc now env pad cat ((e, q), out) =
     (case engine_next_message (rd_next crc proc now) (e, q) of
        (Inl err, x) \<Rightarrow> (Inl err, x, out)
      | (Inr None, x) \<Rightarrow> (Inr (), x, out)
      | (Inr (Some msg), e', q') \<Rightarrow>
          (case (case extract_book_identity msg of None \<Rightarrow> (Inr (), out) | Some i \<Rightarrow> refine_message crc env pad cat msg i out) of
             (Inl err, out') \<Rightarrow> (Inl err, (e', q'), out')
           | (Inr _, out') \<Rightarrow>
               (case rd_commit crc now (en_reader e', q') of
                  (Inl err, r'', q'') \<Rightarrow> (Inl err, (e'\<lparr>en_reader := r''\<rparr>, q''), out')
                | (Inr _, r'', q'') \<Rightarrow> refinery_run crc proc now env pad cat ((e'\<lparr>en_reader := r''\<rparr>, q''), out'))))"
  by pat_completeness auto
termination
proof (relation "inv_image rd_order (\<lambda>(crc, proc, now, env, pad, cat, (e, q), out). (en_reader e, q))", goal_cases)
  case 1
  show ?case by (intro wf_inv_image wf_lex_prod wf_less_than)
next
  case (2 crc proc now env pad cat e q out x y z msg e' q' u v res out' w1 w2 r'' q'')
  then show ?case
    by (auto dest!: sym [of "(_, _)"] dest!: engine_next_message_progress rd_commit_left)
qed

declare refinery_run.simps [simp del]

section \<open>The snapshots it writes\<close>

abbreviation snapshot_len :: "l2_book \<Rightarrow> nat" where
  "snapshot_len b \<equiv> l2_snapshot_size (length (side_levels (lb_bids b))) (length (side_levels (lb_asks b)))"

definition snapshot_payload :: "bytes \<times> bytes \<Rightarrow> l2_book \<Rightarrow> u64 \<Rightarrow> u16 \<Rightarrow> u32 \<Rightarrow> bytes" where
  "snapshot_payload pad b ts v k = fst (fill_snapshot pad b ts v k (replicate (snapshot_len b) 0))"

lemma snapshot_payload_ok:
  assumes "gaps_ok pad"
  shows "fill_snapshot pad b ts v k (replicate (length (snapshot_payload pad b ts v k)) 0) = (snapshot_payload pad b ts v k, Inr ()) \<and>
    length (snapshot_payload pad b ts v k) = snapshot_len b \<and>
    (book_ok b \<longrightarrow> snapshot_len b \<le> MAX_PAYLOAD_LEN \<longrightarrow>
      (\<exists>a ev. apply_book_event (new_msg seq tm 0x1000 (snapshot_payload pad b ts v k)) any = (a, b) \<and> am_book_event a = Some ev \<and>
        bh_venue_id (be_header ev) = v \<and> bh_market_id (be_header ev) = k \<and> bh_exchange_ts_ns (be_header ev) = ts))"
proof -
  let ?bids = "rev (side_levels (lb_bids b))" and ?asks = "side_levels (lb_asks b)"
  let ?s = "\<lparr>ls_price_scale = lb_price_scale b, ls_size_scale = lb_size_scale b, ls_pad0 = 0,
    ls_bid_count = word_of_nat (length ?bids), ls_ask_count = word_of_nat (length ?asks)\<rparr>"
  obtain h where w: "write_l2_snapshot pad (replicate (snapshot_len b) 0) v k ts (lb_price_scale b) (lb_size_scale b) ?bids ?asks =
      Inr (snapshot_len b, book_event_header_bytes pad h @ l2_snapshot_bytes ?s @ levels_bytes ?bids @ levels_bytes ?asks)"
    "bh_event_type h = 1" "bh_book_mode h = 0" "bh_venue_id h = v" "bh_market_id h = k" "bh_exchange_ts_ns h = ts"
    using write_l2_snapshot_eq [OF assms, of ?bids ?asks "replicate (snapshot_len b) 0" v k ts "lb_price_scale b" "lb_size_scale b"] by auto
  have hl: "length (book_event_header_bytes pad h) = 64" by (rule header_bytes(1) [OF assms])
  have sl: "length (l2_snapshot_bytes ?s) = 12" by (rule l2_snapshot_pod.length_to)
  let ?p = "book_event_header_bytes pad h @ l2_snapshot_bytes ?s @ levels_bytes ?bids @ levels_bytes ?asks"
  have f: "fill_snapshot pad b ts v k (replicate (snapshot_len b) 0) = (?p, Inr ())" using w(1) by (simp add: fill_snapshot_def)
  then have p: "snapshot_payload pad b ts v k = ?p" by (simp add: snapshot_payload_def)
  have l: "length ?p = snapshot_len b" using hl sl by (simp add: l2_snapshot_size_def)
  have "\<exists>a ev. apply_book_event (new_msg seq tm 0x1000 ?p) any = (a, b) \<and> am_book_event a = Some ev \<and>
      bh_venue_id (be_header ev) = v \<and> bh_market_id (be_header ev) = k \<and> bh_exchange_ts_ns (be_header ev) = ts" if ok: "book_ok b" and "snapshot_len b \<le> MAX_PAYLOAD_LEN"
  proof -
    have n: "length ?bids + length ?asks \<le> 268435456" using that(2) by (simp add: l2_snapshot_size_def)
    have c: "unat (ls_bid_count ?s) = length ?bids" "unat (ls_ask_count ?s) = length ?asks"
      using n by (simp_all add: unsigned_of_nat take_bit_nat_eq_self)
    have rh: "read_header ?p 0 = Some h" using read_header_back [OF assms, of "[]" h] by simp
    have rs: "read_l2_snapshot ?p 64 = Some ?s"
      using l2_snapshot_pod.read_back [of "book_event_header_bytes pad h" ?s "levels_bytes ?bids @ levels_bytes ?asks"] hl by simp
    have l76: "length (book_event_header_bytes pad h @ l2_snapshot_bytes ?s) = 76" using hl sl by simp
    obtain lv where lv: "levels_view_new ?p 76 (length ?bids) (length ?asks) = Some lv"
      "bids_iter lv = map (\<lambda>(p, s). \<lparr>pu_price = p, pu_size = s\<rparr>) ?bids" "asks_iter lv = map (\<lambda>(p, s). \<lparr>pu_price = p, pu_size = s\<rparr>) ?asks"
      using levels_back [OF l76 n, of "[]"] by auto
    show ?thesis
      using rh rs lv c w(2-) apply_own_levels [OF ok, of ?s any] by (simp add: apply_book_event_def Let_def)
  qed
  then show ?thesis using f l p by simp
qed

section \<open>What it writes\<close>

text \<open>The appends that the messages of a run lead to: type, time and payload.\<close>

fun refined :: "bytes \<times> bytes \<Rightarrow> nat \<Rightarrow> u64 \<Rightarrow> message list \<Rightarrow> replay_state \<Rightarrow> (u16 \<times> u64 \<times> bytes) list" where
  "refined pad iv last_ns [] st = []"
| "refined pad iv last_ns (m # ms) st =
     (case l2_apply_message m st of
        (Inl _, _) \<Rightarrow> []
      | (Inr a, st') \<Rightarrow>
          (case am_book_event a of
             None \<Rightarrow> refined pad iv last_ns ms st'
           | Some ev \<Rightarrow>
               let h = be_header ev; ts = bh_exchange_ts_ns h; w = wants_snapshot iv last_ns ts in
               (if w then [(0x1000, ts, snapshot_payload pad (snd (snd st')) ts (bh_venue_id h) (bh_market_id h))] else []) @
               (msg_type_id m, msg_timestamp_ns m, msg_payload m) # refined pad iv (if w then ts else last_ns) ms st'))"

fun out_msg :: "u64 \<Rightarrow> u16 \<times> u64 \<times> bytes \<Rightarrow> message" where
  "out_msg n (t, ts, p) = new_msg n ts t p"

text \<open>The validator of a reader of the output expects the number \<open>n\<close> next.\<close>

definition expects :: "sequence_validator \<Rightarrow> u64 \<Rightarrow> bool" where
  "expects v n \<longleftrightarrow> (case sv_last_seq v of None \<Rightarrow> True | Some x \<Rightarrow> n = x + 1)"

lemma expects_apply:
  assumes "expects v (msg_seq m)"
  shows "l2_apply_message m (v, g, b) = (Inr (fst (apply_book_event m b)), v\<lparr>sv_last_seq := Some (msg_seq m)\<rparr>, g, snd (apply_book_event m b))"
  using assms by (auto simp: l2_apply_message_def expects_def sv_check_def split: option.splits prod.splits)

lemma expects_step: "expects (v\<lparr>sv_last_seq := Some n\<rparr>) (n + 1)"
  by (simp add: expects_def)

text \<open>A message that is applied to a book applies, whatever its number, time and the book, to any other.\<close>

lemma apply_event_payload:
  "msg_type_id m' = msg_type_id m \<Longrightarrow> msg_payload m' = msg_payload m \<Longrightarrow> snd (apply_book_event m' b) = snd (apply_book_event m b)"
  by (auto simp: apply_book_event_def Let_def split: option.splits)

lemma l2_apply_book:
  assumes "l2_apply_message m (v, g, b) = (Inr a, v', g', b')"
  shows "(am_book_event a = None \<longrightarrow> b' = b) \<and> (am_book_event a \<noteq> None \<longrightarrow> b' = snd (apply_book_event m b))"
  using assms apply_book_event_none [of m b]
  by (auto simp: l2_apply_message_def split: prod.splits sum.splits gap_detection.splits if_splits)

lemma refined_replay:
  assumes "gaps_ok pad" "l2_run ms (vi, gi, b) = (Inr as, vi', gi', b')" "book_ok b" "expects vo n"
    and "\<forall>(t, ts, p) \<in> set (refined pad iv last_ns ms (vi, gi, b)). length p \<le> MAX_PAYLOAD_LEN"
  shows "\<exists>cs vo'. l2_run (numbered out_msg n (refined pad iv last_ns ms (vi, gi, b))) (vo, g, b) = (Inr cs, vo', g, b')"
  using assms(2-)
proof (induction ms arbitrary: vi gi b as last_ns n vo)
  case (Cons m ms)
  obtain a as' v1 g1 b1 where 1: "as = a # as'" "l2_apply_message m (vi, gi, b) = (Inr a, v1, g1, b1)" "l2_run ms (v1, g1, b1) = (Inr as', vi', gi', b')"
    using Cons.prems(1) by (auto simp: l2_run_Cons_ok)
  have ok1: "book_ok b1" by (rule book_ok_message [OF Cons.prems(2) 1(2)])
  note ab = l2_apply_book [OF 1(2)]
  show ?case
  proof (cases "am_book_event a")
    case None
    then show ?thesis using Cons.IH [OF 1(3) ok1 Cons.prems(3), of last_ns] Cons.prems(4) 1(2) ab by simp
  next
    case (Some ev)
    let ?h = "be_header ev" and ?ts = "bh_exchange_ts_ns (be_header ev)"
    let ?w = "wants_snapshot iv last_ns ?ts"
    let ?rest = "refined pad iv (if ?w then ?ts else last_ns) ms (v1, g1, b1)"
    let ?sp = "snapshot_payload pad b1 ?ts (bh_venue_id ?h) (bh_market_id ?h)"
    let ?rs = "(msg_type_id m, msg_timestamp_ns m, msg_payload m) # ?rest"
    have all: "refined pad iv last_ns (m # ms) (vi, gi, b) = (if ?w then [(0x1000, ?ts, ?sp)] else []) @ ?rs"
      using 1(2) Some by (simp add: Let_def)
    have b1: "b1 = snd (apply_book_event m b)" using ab Some by simp
    have tail: "\<exists>cs vo'. l2_run (numbered out_msg n' ?rs) (v', g, c) = (Inr cs, vo', g, b')"
      if "expects v' n'" "c = b \<or> c = b1" for v' n' c
    proof -
      let ?m = "new_msg n' (msg_timestamp_ns m) (msg_type_id m) (msg_payload m)"
      have "snd (apply_book_event ?m c) = b1"
        using that(2) b1 apply_event_payload [of ?m m c] apply_book_event_idem [of m b] by auto
      then have ap: "l2_apply_message ?m (v', g, c) = (Inr (fst (apply_book_event ?m c)), v'\<lparr>sv_last_seq := Some n'\<rparr>, g, b1)"
        using expects_apply [of v' ?m g c] that(1) by simp
      have small: "\<forall>(t, ts, p) \<in> set ?rest. length p \<le> MAX_PAYLOAD_LEN"
        using Cons.prems(4) unfolding all by auto
      obtain cs vo' where "l2_run (numbered out_msg (n' + 1) ?rest) (v'\<lparr>sv_last_seq := Some n'\<rparr>, g, b1) = (Inr cs, vo', g, b')"
        using Cons.IH [OF 1(3) ok1 expects_step small] by blast
      then show ?thesis using ap by (auto simp: l2_run_Cons_ok)
    qed
    show ?thesis
    proof (cases ?w)
      case False
      then show ?thesis using tail [OF Cons.prems(3), of b] unfolding all by simp
    next
      case True
      let ?m = "new_msg n ?ts 0x1000 ?sp"
      have len: "length ?sp = snapshot_len b1" using snapshot_payload_ok [OF assms(1)] by blast
      have "length ?sp \<le> MAX_PAYLOAD_LEN" using Cons.prems(4) True unfolding all by simp
      then have "snd (apply_book_event ?m b) = b1"
        using snapshot_payload_ok [OF assms(1), of b1 ?ts "bh_venue_id ?h" "bh_market_id ?h" n ?ts b] ok1 len by auto
      then have ap: "l2_apply_message ?m (vo, g, b) = (Inr (fst (apply_book_event ?m b)), vo\<lparr>sv_last_seq := Some n\<rparr>, g, b1)"
        using expects_apply [of vo ?m g b] Cons.prems(3) by simp
      obtain cs vo' where "l2_run (numbered out_msg (n + 1) ?rs) (vo\<lparr>sv_last_seq := Some n\<rparr>, g, b1) = (Inr cs, vo', g, b')"
        using tail [OF expects_step, of b1] by blast
      then have "l2_run (?m # numbered out_msg (n + 1) ?rs) (vo, g, b) = (Inr (fst (apply_book_event ?m b) # cs), vo', g, b')"
        unfolding l2_run_Cons_ok using ap by blast
      then show ?thesis using True unfolding all by auto
    qed
  qed
qed simp

section \<open>The run\<close>

text \<open>The book events of a run are those of one market, whose symbol the catalog knows.\<close>

definition one_symbol :: "symbol_catalog \<Rightarrow> u16 \<Rightarrow> u32 \<Rightarrow> u64 \<Rightarrow> applied_message \<Rightarrow> bool" where
  "one_symbol cat v k i a \<longleftrightarrow>
     (case am_book_event a of
        None \<Rightarrow> True
      | Some ev \<Rightarrow> bh_venue_id (be_header ev) = v \<and> bh_market_id (be_header ev) = k \<and>
          map_option sy_symbol_id (resolve_by_market_id cat v k (bh_exchange_ts_ns (be_header ev))) = Some i)"

definition rf_ready :: "u16 \<Rightarrow> u32 \<Rightarrow> u64 \<Rightarrow> refinery \<Rightarrow> bool" where
  "rf_ready v k i rf \<longleftrightarrow>
     rf_active_symbol rf = None \<and> rf_active_market_id rf = None \<and> rf_active_venue_id rf = None \<or>
     map_option sy_symbol_id (rf_active_symbol rf) = Some i \<and> rf_active_market_id rf = Some k \<and> rf_active_venue_id rf = Some v"

lemma ensure_active_ok:
  assumes "rf_ready v k i rf" "sy_symbol_id symbol = i"
  shows "\<exists>rf'. ensure_active_symbol v k symbol (rf, x) = (Inr (), rf', x) \<and> rf_ready v k i rf' \<and>
    rf_snapshot_interval_ns rf' = rf_snapshot_interval_ns rf \<and> rf_last_snapshot_ns rf' = rf_last_snapshot_ns rf"
  using assms by (auto simp: ensure_active_symbol_def rf_ready_def bind_def get_def ret_def)

text \<open>The output: a store with room for the appends to come.\<close>

definition out_ok :: "crc_fun \<Rightarrow> nat \<Rightarrow> path \<Rightarrow> writer_config \<Rightarrow> nat \<Rightarrow> nat \<Rightarrow> queue_writer \<times> queue \<Rightarrow> message list \<Rightarrow> bool" where
  "out_ok crc base root config sz room x ms \<longleftrightarrow> queue_store crc base root config sz x ms \<and> room \<le> qw_room x"

lemma out_fill:
  assumes "out_ok crc base root config sz (Suc room) (w, q) ms" "queue_accepts config sz (env, t, ts, p)"
    and "f (replicate (length p) 0) = (p, Inr ())"
  shows "\<exists>w' q'. append_in_place_with_timestamp crc env t (length p) ts f (w, q) = (Inr (), w', q') \<and>
    out_ok crc base root config sz room (w', q') (ms @ [out_msg (qw_seq w) (t, ts, p)]) \<and> qw_seq w' = qw_seq w + 1"
proof -
  have st: "queue_store crc base root config sz (w, q) ms" and le: "Suc room \<le> qw_room (w, q)"
    using assms(1) unfolding out_ok_def by blast+
  have rm: "0 < qw_room (w, q)" using le by linarith
  obtain x' where "append_in_place_with_timestamp crc env t (length p) ts f (w, q) = (Inr (), x')"
    "queue_store crc base root config sz x' (ms @ [new_msg (qw_seq w) ts t p])" "qw_seq (fst x') = qw_seq w + 1" "qw_room (w, q) \<le> qw_room x' + 1"
    using queue_store_fill [where f = f and p = p, OF st assms(2) rm assms(3)] by blast
  then show ?thesis using le by (cases x') (auto simp: out_ok_def)
qed

lemma out_append:
  assumes "out_ok crc base root config sz (Suc room) (w, q) ms" "queue_accepts config sz (env, t, ts, p)"
  shows "\<exists>w' q'. append_with_timestamp crc env t p ts (w, q) = (Inr (), w', q') \<and>
    out_ok crc base root config sz room (w', q') (ms @ [out_msg (qw_seq w) (t, ts, p)]) \<and> qw_seq w' = qw_seq w + 1"
  unfolding append_with_timestamp_def by (rule out_fill [OF assms]) simp

lemma on_fs_ok: "m s = (Inr x, s') \<Longrightarrow> bind (on_fs m) f (w, s) = f x (w, s')"
  by (simp add: bind_on_fs)

lemma refine_message_ok:
  assumes "gaps_ok pad" "rf_ready v k i rf" "rp_book_event msg = Some ev"
    and "one_symbol cat v k i \<lparr>am_update = u, am_book_event = Some ev\<rparr>"
    and "ts = bh_exchange_ts_ns (be_header ev)" "w = wants_snapshot (rf_snapshot_interval_ns rf) (rf_last_snapshot_ns rf) ts"
    and "reqs = (if w then [(0x1000, ts, snapshot_payload pad (rp_book msg) ts v k)] else []) @
      [(msg_type_id (rp_msg msg), msg_timestamp_ns (rp_msg msg), msg_payload (rp_msg msg))]"
    and "\<forall>r \<in> set reqs. \<forall>n. queue_accepts config sz (env n, r)" "out_ok crc base root config sz (length reqs + room) (wr, q) ms"
  shows "\<exists>rf' wr' q'. refine_message crc env pad cat msg (v, k, ts) (rf, wr, q) = (Inr (), rf', wr', q') \<and> rf_ready v k i rf' \<and>
    rf_snapshot_interval_ns rf' = rf_snapshot_interval_ns rf \<and> rf_last_snapshot_ns rf' = (if w then ts else rf_last_snapshot_ns rf) \<and>
    out_ok crc base root config sz room (wr', q') (ms @ numbered out_msg (qw_seq wr) reqs) \<and> qw_seq wr' = qw_seq wr + word_of_nat (length reqs)"
proof -
  let ?m = "rp_msg msg"
  obtain symbol where sy: "resolve_by_market_id cat v k ts = Some symbol" "sy_symbol_id symbol = i"
    using assms(4,5) by (auto simp: one_symbol_def)
  obtain rf1 where r1: "ensure_active_symbol v k symbol (rf, wr, q) = (Inr (), rf1, wr, q)" "rf_ready v k i rf1"
    "rf_snapshot_interval_ns rf1 = rf_snapshot_interval_ns rf" "rf_last_snapshot_ns rf1 = rf_last_snapshot_ns rf"
    using ensure_active_ok [OF assms(2) sy(2), of "(wr, q)"] by blast
  show ?thesis
  proof (cases w)
    case False
    obtain wr' q' where a: "append_with_timestamp crc (env (qw_seq wr)) (msg_type_id ?m) (msg_payload ?m) (msg_timestamp_ns ?m) (wr, q) = (Inr (), wr', q')"
      "out_ok crc base root config sz room (wr', q') (ms @ [out_msg (qw_seq wr) (msg_type_id ?m, msg_timestamp_ns ?m, msg_payload ?m)])"
      "qw_seq wr' = qw_seq wr + 1"
      using out_append [of crc base root config sz room wr q ms "env (qw_seq wr)" "msg_type_id ?m" "msg_timestamp_ns ?m" "msg_payload ?m"]
        assms(7-9) False by auto
    then show ?thesis
      using sy r1 assms(6,7) False
      by (simp add: refine_message_def bind_ok [of "ensure_active_symbol v k symbol"] on_fs_def ret_def bind_def [of "ret ()"] get_def bind_def [of "get id"])
  next
    case True
    let ?p = "snapshot_payload pad (rp_book msg) ts v k"
    have f: "fill_snapshot pad (rp_book msg) ts v k (replicate (length ?p) 0) = (?p, Inr ())" and len: "length ?p = snapshot_len (rp_book msg)"
      using snapshot_payload_ok [OF assms(1)] by blast+
    have fits: "queue_accepts config sz (env (qw_seq wr), 0x1000, ts, ?p)" using assms(7,8) True by simp
    have ready: "out_ok crc base root config sz (Suc (Suc room)) (wr, q) ms" using assms(7,9) True by simp
    obtain w1 q1 where i1: "inject_snapshot crc (env (qw_seq wr)) pad (rp_book msg) ts v k (wr, q) = (Inr (), w1, q1)"
      "out_ok crc base root config sz (Suc room) (w1, q1) (ms @ [out_msg (qw_seq wr) (0x1000, ts, ?p)])" "qw_seq w1 = qw_seq wr + 1"
      using out_fill [where f = "fill_snapshot pad (rp_book msg) ts v k" and p = ?p, OF ready fits f] unfolding inject_snapshot_def len by auto
    obtain wr' q' where a: "append_with_timestamp crc (env (qw_seq w1)) (msg_type_id ?m) (msg_payload ?m) (msg_timestamp_ns ?m) (w1, q1) = (Inr (), wr', q')"
      "out_ok crc base root config sz room (wr', q')
        ((ms @ [out_msg (qw_seq wr) (0x1000, ts, ?p)]) @ [out_msg (qw_seq w1) (msg_type_id ?m, msg_timestamp_ns ?m, msg_payload ?m)])"
      "qw_seq wr' = qw_seq w1 + 1"
      using out_append [OF i1(2), of "env (qw_seq w1)" "msg_type_id ?m" "msg_timestamp_ns ?m" "msg_payload ?m"] assms(7,8) True by auto
    let ?rf = "rf1\<lparr>rf_last_snapshot_ns := ts\<rparr>"
    have "refine_message crc env pad cat msg (v, k, ts) (rf, wr, q) = (Inr (), ?rf, wr', q')"
      using sy r1 assms(6) True i1 a
      by (simp add: refine_message_def bind_ok [of "ensure_active_symbol v k symbol"] on_fs_def bind_def get_def upd_def)
    moreover have "rf_ready v k i ?rf" using r1(2) by (simp add: rf_ready_def)
    ultimately show ?thesis using a(2,3) i1(3) r1(3) True assms(7) by (auto simp: add.assoc)
  qed
qed

text \<open>One message of the input: it is read, and the position behind it saved.\<close>

definition rf_input :: "crc_fun \<Rightarrow> string \<Rightarrow> nat \<Rightarrow> entry list list \<Rightarrow> entry list \<Rightarrow> queue_reader \<times> queue \<Rightarrow> message list \<Rightarrow> bool" where
  "rf_input crc name base segs cur x ms \<longleftrightarrow>
     rd_pending crc base segs cur x ms \<and> rd_saved crc name x \<and> rm_generation (rd_meta (fst x)) + length ms \<le> u64_max"

lemma rf_input_next:
  assumes "rf_input crc name base segs cur (r, q) (m # ms)" "system_now_ns now = Inr t"
  shows "\<exists>r1 r2 q2. rd_next crc proc now (r, q) = (Inr (Some m), r1, q) \<and> rd_commit crc now (r1, q) = (Inr (), r2, q2) \<and>
    rf_input crc name base segs cur (r2, q2) ms"
proof -
  have in0: "rd_pending crc base segs cur (r, q) (m # ms)" "rd_saved crc name (r, q)" "rm_generation (rd_meta r) + Suc (length ms) \<le> u64_max"
    using assms(1) by (simp_all add: rf_input_def)
  obtain r1 where r1: "rd_next crc proc now (r, q) = (Inr (Some m), r1, q)" "rd_pending crc base segs cur (r1, q) ms" "same_reader r r1"
    using rd_next_pending [OF in0(1), of proc now] by auto
  have s1: "rd_saved crc name (r1, q)" "rd_meta r1 = rd_meta r" using in0(2) r1(3) by (auto simp: rd_saved_def same_reader_def)
  obtain k pre where at1: "rd_at crc base segs cur k pre (r1, q)" "messages (rd_rest segs cur k pre) = ms" "\<forall>m \<in> set ms. msg_type_id m \<noteq> PAD_TYPE_ID"
    using r1(2) by (auto simp: rd_pending_def)
  obtain mt s' where c: "rd_commit crc now (r1, q) = (Inr (), r1\<lparr>rd_meta := mt\<rparr>, q\<lparr>q_fs := s'\<rparr>)"
    "rd_at crc base segs cur k pre (r1\<lparr>rd_meta := mt\<rparr>, q\<lparr>q_fs := s'\<rparr>)" "rd_saved crc name (r1\<lparr>rd_meta := mt\<rparr>, q\<lparr>q_fs := s'\<rparr>)"
    "rm_generation mt = rm_generation (rd_meta r1) + 1"
    using rd_commit_ok [OF at1(1) s1(1) _ assms(2)] in0(3) s1(2) by auto
  have "rd_pending crc base segs cur (r1\<lparr>rd_meta := mt\<rparr>, q\<lparr>q_fs := s'\<rparr>) ms" using c(2) at1(2,3) unfolding rd_pending_def by blast
  then show ?thesis using r1(1) c(1,3,4) in0(3) s1(2) by (auto simp: rf_input_def)
qed

text \<open>A whole run, over an input that replays without an error.\<close>

lemma refinery_run_ok:
  assumes "gaps_ok pad" "system_now_ns now = Inr t"
    and "rf_input crc name base segs cur (en_reader e, q) ms" "l2_run ms (en_state e) = (Inr as, st)"
    and "\<forall>a \<in> set as. one_symbol cat v k i a" "rf_ready v k i rf"
    and "reqs = refined pad (rf_snapshot_interval_ns rf) (rf_last_snapshot_ns rf) ms (en_state e)"
    and "\<forall>r \<in> set reqs. \<forall>n. queue_accepts config sz (env n, r)" "out_ok crc obase root config sz (length reqs) (wr, oq) old"
  shows "\<exists>e' q' rf' wr' oq'. refinery_run crc proc now env pad cat ((e, q), rf, wr, oq) = (Inr (), (e', q'), rf', wr', oq') \<and>
    en_state e' = st \<and> rd_pending crc base segs cur (en_reader e', q') [] \<and>
    queue_store crc obase root config sz (wr', oq') (old @ numbered out_msg (qw_seq wr) reqs)"
  using assms(3-)
proof (induction ms arbitrary: e q as rf reqs wr oq old)
  case Nil
  then obtain r' where "rd_next crc proc now (en_reader e, q) = (Inr None, r', q)" "rd_pending crc base segs cur (r', q) []"
    using rd_next_pending [of crc base segs cur "en_reader e" q "[]" proc now] by (auto simp: rf_input_def)
  then show ?case using Nil
    by (auto simp: refinery_run.simps engine_next_message_def with_reader_ok ret_def out_ok_def intro!: exI [of _ "e\<lparr>en_reader := r'\<rparr>"])
next
  case (Cons m ms)
  obtain r1 r2 q2 where n: "rd_next crc proc now (en_reader e, q) = (Inr (Some m), r1, q)" "rd_commit crc now (r1, q) = (Inr (), r2, q2)"
    "rf_input crc name base segs cur (r2, q2) ms"
    using rf_input_next [OF Cons.prems(1) assms(2), of proc] by blast
  obtain a as' v1 g1 b1 where a: "as = a # as'" "l2_apply_message m (en_state e) = (Inr a, v1, g1, b1)" "l2_run ms (v1, g1, b1) = (Inr as', st)"
    using Cons.prems(2) by (auto simp: l2_run_Cons_ok)
  let ?e = "e\<lparr>en_reader := r1, en_sequencer := v1, en_last_gap := g1, en_l2_book := b1\<rparr>"
  let ?msg = "\<lparr>rp_msg = m, rp_update = am_update a, rp_book_event = am_book_event a, rp_book = b1\<rparr>"
  have nm: "engine_next_message (rd_next crc proc now) (e, q) = (Inr (Some ?msg), ?e, q)"
    using n(1) a(2) by (simp add: engine_next_message_def with_reader_def bind_def get_def ret_def engine_apply_def)
  have step: "refinery_run crc proc now env pad cat ((e, q), rf, wr, oq) =
      refinery_run crc proc now env pad cat ((?e\<lparr>en_reader := r2\<rparr>, q2), out)"
    if "(case extract_book_identity ?msg of None \<Rightarrow> (Inr (), rf, wr, oq) | Some i \<Rightarrow> refine_message crc env pad cat ?msg i (rf, wr, oq)) = (Inr (), out)" for out
    using that n(2) by (simp add: refinery_run.simps [of crc proc now env pad cat e] nm)
  have st2: "rf_input crc name base segs cur (en_reader (?e\<lparr>en_reader := r2\<rparr>), q2) ms"
    "l2_run ms (en_state (?e\<lparr>en_reader := r2\<rparr>)) = (Inr as', st)" "\<forall>a \<in> set as'. one_symbol cat v k i a"
    using n(3) a Cons.prems(3) by simp_all
  show ?case
  proof (cases "am_book_event a")
    case None
    then show ?thesis
      using step [of "(rf, wr, oq)"] Cons.IH [OF st2 Cons.prems(4) _ Cons.prems(6,7)] Cons.prems(5) a(2)
      by (simp add: extract_book_identity_def)
  next
    case (Some ev)
    let ?ts = "bh_exchange_ts_ns (be_header ev)"
    let ?w = "wants_snapshot (rf_snapshot_interval_ns rf) (rf_last_snapshot_ns rf) ?ts"
    let ?now = "(if ?w then [(0x1000, ?ts, snapshot_payload pad b1 ?ts v k)] else []) @ [(msg_type_id m, msg_timestamp_ns m, msg_payload m)]"
    let ?rest = "refined pad (rf_snapshot_interval_ns rf) (if ?w then ?ts else rf_last_snapshot_ns rf) ms (v1, g1, b1)"
    have sym: "one_symbol cat v k i \<lparr>am_update = am_update a, am_book_event = Some ev\<rparr>"
      and id: "extract_book_identity ?msg = Some (v, k, ?ts)" "bh_venue_id (be_header ev) = v" "bh_market_id (be_header ev) = k"
      using Cons.prems(3) a(1) Some by (simp_all add: one_symbol_def extract_book_identity_def)
    have reqs: "reqs = ?now @ ?rest" using Cons.prems(5) a(2) Some id(2,3) by (simp add: Let_def)
    have ev: "rp_book_event ?msg = Some ev"
      and now: "?now = (if ?w then [(0x1000, ?ts, snapshot_payload pad (rp_book ?msg) ?ts v k)] else []) @
        [(msg_type_id (rp_msg ?msg), msg_timestamp_ns (rp_msg ?msg), msg_payload (rp_msg ?msg))]"
      using Some by simp_all
    have acc_now: "\<forall>r \<in> set ?now. \<forall>n. queue_accepts config sz (env n, r)" using Cons.prems(6) unfolding reqs set_append by blast
    have room: "out_ok crc obase root config sz (length ?now + length ?rest) (wr, oq) old" using Cons.prems(7) unfolding reqs length_append .
    obtain rf' wr' oq' where r: "refine_message crc env pad cat ?msg (v, k, ?ts) (rf, wr, oq) = (Inr (), rf', wr', oq')" "rf_ready v k i rf'"
      "rf_snapshot_interval_ns rf' = rf_snapshot_interval_ns rf" "rf_last_snapshot_ns rf' = (if ?w then ?ts else rf_last_snapshot_ns rf)"
      "out_ok crc obase root config sz (length ?rest) (wr', oq') (old @ numbered out_msg (qw_seq wr) ?now)"
      "qw_seq wr' = qw_seq wr + word_of_nat (length ?now)"
      using refine_message_ok [where reqs = ?now and room = "length ?rest", OF assms(1) Cons.prems(4) ev sym refl refl now acc_now room] by blast
    have rest: "?rest = refined pad (rf_snapshot_interval_ns rf') (rf_last_snapshot_ns rf') ms (en_state (?e\<lparr>en_reader := r2\<rparr>))" using r(3,4) by simp
    have acc: "\<forall>r \<in> set ?rest. \<forall>n. queue_accepts config sz (env n, r)" using Cons.prems(6) reqs by simp
    have run: "refinery_run crc proc now env pad cat ((e, q), rf, wr, oq) =
        refinery_run crc proc now env pad cat ((?e\<lparr>en_reader := r2\<rparr>, q2), rf', wr', oq')"
      using step [of "(rf', wr', oq')"] id(1) r(1) by simp
    have num: "numbered out_msg (qw_seq wr) reqs = numbered out_msg (qw_seq wr) ?now @ numbered out_msg (qw_seq wr') ?rest"
      unfolding reqs numbered_append r(6) ..
    show ?thesis using Cons.IH [OF st2 r(2) rest acc r(5)] unfolding run num append_assoc .
  qed
qed

text \<open>
  Property C5. The output of the refinery stands for its input. Over an input queue that replays
  without an error, with the events of one known symbol, a run ends with the whole input read; the
  output holds what it held before and then, numbered on, the input's book events with snapshots
  in between; and an engine that replays the new messages, from the book the run began with, ends
  with the book of the input: no snapshot that is put in changes it.
\<close>

theorem refinery_preserves_book:
  assumes "gaps_ok pad" "system_now_ns now = Inr t" "rf_input crc name base segs cur (en_reader e, q) ms" "book_ok (en_l2_book e)"
    and run: "l2_run ms (en_state e) = (Inr as, vi, gi, b)"
    and "\<forall>a \<in> set as. one_symbol cat v k i a" "rf = refinery_new interval_ns"
    and reqs: "reqs = refined pad (rf_snapshot_interval_ns rf) 0 ms (en_state e)"
    and acc: "\<forall>r \<in> set reqs. \<forall>n. queue_accepts config sz (env n, r)" and "out_ok crc obase root config sz (length reqs) (wr, oq) old"
  shows "\<exists>e' q' rf' wr' oq' cs v'. refinery_run crc proc now env pad cat ((e, q), rf, wr, oq) = (Inr (), (e', q'), rf', wr', oq') \<and>
    en_l2_book e' = b \<and> rd_pending crc base segs cur (en_reader e', q') [] \<and>
    queue_store crc obase root config sz (wr', oq') (old @ numbered out_msg (qw_seq wr) reqs) \<and>
    l2_run (numbered out_msg (qw_seq wr) reqs) (sv_new policy, None, en_l2_book e) = (Inr cs, v', None, b)"
proof -
  have rf: "rf_ready v k i rf" "rf_last_snapshot_ns rf = 0" using assms(7) by (simp_all add: rf_ready_def refinery_new_def)
  have small: "\<forall>(t, ts, p) \<in> set reqs. length p \<le> MAX_PAYLOAD_LEN" using acc by fastforce
  have "\<exists>cs v'. l2_run (numbered out_msg (qw_seq wr) reqs) (sv_new policy, None, en_l2_book e) = (Inr cs, v', None, b)"
    unfolding reqs by (rule refined_replay [OF assms(1) run assms(4) _ small [unfolded reqs]]) (simp add: expects_def sv_new_def)
  then show ?thesis
    using refinery_run_ok [OF assms(1-3) run assms(6) rf(1) _ acc assms(10), of proc] reqs rf(2) by auto
qed

text \<open>A queue with one book event, the snapshot of a book with one bid, and a catalog that knows its symbol.\<close>

definition demo_bid :: l2_book where
  "demo_bid = l2_book_new\<lparr>lb_bids := Mapping.update 100 5 Mapping.empty\<rparr>"

definition demo_in :: message where
  "demo_in = new_msg 0 11 0x1000 (snapshot_payload ([0, 0], [0, 0, 0, 0]) demo_bid 9 1 2)"

definition demo_catalog :: symbol_catalog where
  "demo_catalog = Mapping.update (1, 2) [\<lparr>sy_symbol_id = 7, sy_symbol_code = ''A'', sy_exchange_symbol = ''A'', sy_exchange_id = 1, sy_asset_type = 0,
     sy_valid_from_us = 0, sy_valid_until_us = 100, sy_symbol_version_id = 1\<rparr>] Mapping.empty"

lemma demo_bid_ok: "book_ok demo_bid" "snapshot_len demo_bid = 92"
proof -
  have ok: "side_ok (Mapping.update 100 5 Mapping.empty :: (u64, u64) mapping)"
    by (auto simp: side_ok_def lookup_update')
  then show "book_ok demo_bid" by (simp add: demo_bid_def book_ok_def l2_book_new_def)
  let ?xs = "side_levels (Mapping.update 100 5 Mapping.empty :: (u64, u64) mapping)"
  have "map_of ?xs k = (if k = 100 then Some 5 else None)" for k using side_levels_props(3) [OF ok, of k] by (simp add: lookup_update')
  then have "(k, x) \<in> set ?xs \<longleftrightarrow> (k, x) = (100, 5)" for k x
    using map_of_eq_Some_iff [OF side_levels_props(1) [OF ok], of k x] by (cases "k = 100") auto
  then have "set ?xs = {(100, 5)}" by (intro set_eqI) (metis singleton_iff surj_pair)
  moreover have "distinct ?xs" using side_levels_props(1) [OF ok] by (simp add: distinct_map)
  ultimately have "length ?xs = 1" using distinct_card [of ?xs] by simp
  then show "snapshot_len demo_bid = 92" by (simp add: demo_bid_def l2_book_new_def l2_snapshot_size_def)
qed

lemma demo_in_props:
  "length (msg_payload demo_in) = 92"
  "\<exists>a ev. apply_book_event demo_in any = (a, demo_bid) \<and> am_book_event a = Some ev \<and>
     bh_venue_id (be_header ev) = 1 \<and> bh_market_id (be_header ev) = 2 \<and> bh_exchange_ts_ns (be_header ev) = 9"
  using snapshot_payload_ok [of "([0, 0], [0, 0, 0, 0])" demo_bid 9 1 2 0 11 any] demo_bid_ok
  by (simp_all add: demo_in_def gaps_ok_def)

lemma demo_input_ok: "rf_input (\<lambda>_. 5) ''a'' 5 [] [Msg demo_in] (one_reader, one_queue demo_in) [demo_in]"
  using one_queue_pending [of demo_in] one_queue_saved [of demo_in] demo_in_props(1)
  by (simp add: rf_input_def demo_reader_def) (simp add: demo_in_def)

theorem refinery_preserves_book_witness:
  "\<exists>e' x' out. refinery_run (\<lambda>_. 5) demo_proc 1000 (\<lambda>_. demo_env) ([0, 0], [0, 0, 0, 0]) demo_catalog
      ((engine_new [] one_reader, (one_queue demo_in)), refinery_new 0, demo_free, demo_queue) = (Inr (), (e', x'), out) \<and> en_l2_book e' = demo_bid"
proof -
  let ?pad = "([0, 0], [0, 0, 0, 0]) :: bytes \<times> bytes" and ?e = "engine_new [] one_reader"
  let ?st = "en_state ?e"
  have st: "?st = (sv_new GapPanic, None, l2_book_new)" by (simp add: engine_new_def)
  obtain a ev where a: "apply_book_event demo_in l2_book_new = (a, demo_bid)" "am_book_event a = Some ev"
    "bh_venue_id (be_header ev) = 1" "bh_market_id (be_header ev) = 2" "bh_exchange_ts_ns (be_header ev) = 9"
    using demo_in_props(2) by blast
  have ap: "l2_apply_message demo_in ?st = (Inr a, \<lparr>sv_last_seq = Some 0, sv_policy = GapPanic\<rparr>, None, demo_bid)"
    using expects_apply [of "sv_new GapPanic" demo_in None l2_book_new] a(1) unfolding st by (simp add: expects_def sv_new_def demo_in_def)
  then have run: "l2_run [demo_in] ?st = (Inr [a], \<lparr>sv_last_seq = Some 0, sv_policy = GapPanic\<rparr>, None, demo_bid)"
    by (simp add: l2_run.simps)
  let ?p = "snapshot_payload ?pad demo_bid 9 1 2"
  have reqs: "refined ?pad (rf_snapshot_interval_ns (refinery_new 0)) 0 [demo_in] ?st = [(0x1000, 9, ?p), (0x1000, 11, ?p)]"
    using ap a(2-) by (simp add: Let_def wants_snapshot_def demo_in_def)
  have len: "length ?p = 92" using demo_in_props(1) by (simp add: demo_in_def)
  have sym: "one_symbol demo_catalog 1 2 7 a"
    using a(2-) by (simp add: one_symbol_def resolve_by_market_id_def demo_catalog_def lookup_update')
  have out: "out_ok (\<lambda>_. 5) 0 [] default_writer_config 256 2 (demo_free, demo_queue) []"
    using demo_free_inv [of "\<lambda>_. 5"] by (auto simp: out_ok_def queue_store_def demo_free_def demo_writer_def queue_entries_def intro!: exI [of _ "[]"])
  have acc: "\<forall>r \<in> set [(0x1000, 9, ?p), (0x1000, 11, ?p)]. \<forall>n. queue_accepts default_writer_config 256 (demo_env, r)"
    using record_len_eq [of 92] len by (simp add: quiet_def default_writer_config_def demo_env_def)
  show ?thesis
    using refinery_preserves_book [where e = ?e, OF _ _ _ _ run _ refl reqs [symmetric] _ , of 1000 1000 "\<lambda>_. 5" "''a''" 5 "[]" "[Msg demo_in]" "one_queue demo_in"
      demo_catalog 1 2 7 default_writer_config 256 "\<lambda>_. demo_env" 0 "[]" demo_free demo_queue "[]" demo_proc] demo_input_ok sym out [unfolded numeral_2_eq_2] acc book_ok_new
    by (simp add: gaps_ok_def system_now_ns_def engine_new_def) blast
qed

end
