(* ===== verification/L3_Book.thy ===== *)
theory L3_Book
  imports Protocol Names "HOL-Library.Mapping" "HOL-Library.AList_Mapping"
begin

unbundle bit_operations_syntax

text \<open>
  \<^verbatim>\<open>src/src/venues/szse/l3/engine.rs\<close>, the order book: orders by number, and for each side the
  price levels with the sum of the quantities that rest there and the queue of order numbers.
\<close>

section \<open>Data\<close>

datatype unknown_order_policy = Fail_Unknown | Skip_Unknown

record l3_order =
  lo_side :: l3_side
  lo_price :: u64
  lo_qty :: u64
  lo_flags :: u32
  lo_ord_type :: u8
  lo_last_exchange_ts_ns :: u64

record price_level =
  plv_total_qty :: u64
  plv_queue :: "u64 list"

record l3_book =
  bk_orders :: "(u64, l3_order) mapping"
  bk_bids :: "(u64, price_level) mapping"
  bk_asks :: "(u64, price_level) mapping"
  bk_price_scale :: u8
  bk_size_scale :: u8

definition l3_book_new :: l3_book where
  "l3_book_new = \<lparr>bk_orders = Mapping.empty, bk_bids = Mapping.empty, bk_asks = Mapping.empty, bk_price_scale = 0, bk_size_scale = 0\<rparr>"

text \<open>\<open>saturating_add\<close> and \<open>saturating_sub\<close> of \<open>u64\<close>.\<close>

definition usat_add :: "u64 \<Rightarrow> u64 \<Rightarrow> u64" where
  "usat_add a b = (if unat a + unat b > u64_max then - 1 else a + b)"

definition usat_sub :: "u64 \<Rightarrow> u64 \<Rightarrow> u64" where
  "usat_sub a b = (if b \<le> a then a - b else 0)"

section \<open>Levels\<close>

definition level_default :: price_level where
  "level_default = \<lparr>plv_total_qty = 0, plv_queue = []\<rparr>"

definition level_add :: "u64 \<Rightarrow> u64 \<Rightarrow> price_level \<Rightarrow> price_level" where
  "level_add order_id qty l = l\<lparr>plv_queue := plv_queue l @ [order_id], plv_total_qty := usat_add (plv_total_qty l) qty\<rparr>"

definition level_remove_qty :: "u64 \<Rightarrow> u64 \<Rightarrow> price_level \<Rightarrow> price_level" where
  "level_remove_qty order_id qty l = l\<lparr>plv_total_qty := usat_sub (plv_total_qty l) qty, plv_queue := remove1 order_id (plv_queue l)\<rparr>"

text \<open>The map of a side, and its assignment; orders of an unknown side are in neither.\<close>

fun side_map :: "l3_side \<Rightarrow> l3_book \<Rightarrow> (u64, price_level) mapping" where
  "side_map Buy b = bk_bids b"
| "side_map Sell b = bk_asks b"
| "side_map SideUnknown b = Mapping.empty"

fun set_side :: "l3_side \<Rightarrow> (u64, price_level) mapping \<Rightarrow> l3_book \<Rightarrow> l3_book" where
  "set_side Buy m b = b\<lparr>bk_bids := m\<rparr>"
| "set_side Sell m b = b\<lparr>bk_asks := m\<rparr>"
| "set_side SideUnknown m b = b"

text \<open>\<open>entry(price).or_default()\<close> and an update of the level in place.\<close>

definition level_entry :: "l3_side \<Rightarrow> u64 \<Rightarrow> l3_book \<Rightarrow> price_level" where
  "level_entry side price b = (case Mapping.lookup (side_map side b) price of Some l \<Rightarrow> l | None \<Rightarrow> level_default)"

definition put_level :: "l3_side \<Rightarrow> u64 \<Rightarrow> price_level \<Rightarrow> l3_book \<Rightarrow> l3_book" where
  "put_level side price l b = set_side side (Mapping.update price l (side_map side b)) b"

definition add_to_level :: "l3_side \<Rightarrow> u64 \<Rightarrow> u64 \<Rightarrow> u64 \<Rightarrow> l3_book \<Rightarrow> l3_book" where
  "add_to_level side price order_id qty b =
     (if side = SideUnknown then b else put_level side price (level_add order_id qty (level_entry side price b)) b)"

definition remove_from_level :: "l3_side \<Rightarrow> u64 \<Rightarrow> u64 \<Rightarrow> u64 \<Rightarrow> l3_book \<Rightarrow> l3_book" where
  "remove_from_level side price order_id qty b =
     (case Mapping.lookup (side_map side b) price of
        None \<Rightarrow> b
      | Some l \<Rightarrow>
          let l = level_remove_qty order_id qty l in
          if plv_total_qty l = 0 then set_side side (Mapping.delete price (side_map side b)) b
          else put_level side price l b)"

section \<open>Events\<close>

definition side_of :: "u8 \<Rightarrow> l3_side" where
  "side_of x = (if x = l3_side_u8 Buy then Buy else if x = l3_side_u8 Sell then Sell else SideUnknown)"

abbreviation is_market :: "l3_event \<Rightarrow> bool" where
  "is_market e \<equiv> le_flags e AND PRICE_IS_MARKET \<noteq> 0"

abbreviation put_order :: "u64 \<Rightarrow> l3_order \<Rightarrow> l3_book \<Rightarrow> l3_book" where
  "put_order order_id order b \<equiv> b\<lparr>bk_orders := Mapping.update order_id order (bk_orders b)\<rparr>"

abbreviation drop_order :: "u64 \<Rightarrow> l3_book \<Rightarrow> l3_book" where
  "drop_order order_id b \<equiv> b\<lparr>bk_orders := Mapping.delete order_id (bk_orders b)\<rparr>"

definition on_order_add :: "book_event_header \<Rightarrow> l3_event \<Rightarrow> (l3_book, unit) io" where
  "on_order_add header event =
     (let order_id = le_order_id event; side = side_of (le_side event) in
      if order_id = 0 then fail (Anyhow ''order add missing order_id'')
      else bind (modify (put_order order_id
             \<lparr>lo_side = side, lo_price = le_price event, lo_qty = le_qty event, lo_flags = le_flags event,
              lo_ord_type = le_ord_type event, lo_last_exchange_ts_ns = bh_exchange_ts_ns header\<rparr>)) (\<lambda>_.
           if is_market event \<or> le_price event = 0 then ret ()
           else modify (add_to_level side (le_price event) order_id (le_qty event))))"

text \<open>What an unknown order means, by the policy; the message names the event.\<close>

definition unknown_order :: "string \<Rightarrow> unknown_order_policy \<Rightarrow> u64 \<Rightarrow> (l3_book, unit) io" where
  "unknown_order what policy order_id =
     (case policy of
        Fail_Unknown \<Rightarrow> fail (Anyhow (what @ '' unknown order '' @ dec_digits (unat order_id)))
      | Skip_Unknown \<Rightarrow> ret ())"

text \<open>A cancel and each side of a trade take a quantity off an order; zero stands for all of it.\<close>

definition reduce_order :: "string \<Rightarrow> book_event_header \<Rightarrow> u64 \<Rightarrow> u64 \<Rightarrow> unknown_order_policy \<Rightarrow> (l3_book, unit) io" where
  "reduce_order what header order_id qty policy =
     bind (get (\<lambda>b. Mapping.lookup (bk_orders b) order_id)) (\<lambda>found.
     case found of
       None \<Rightarrow> unknown_order what policy order_id
     | Some order \<Rightarrow>
         let taken = (if qty = 0 then lo_qty order else min qty (lo_qty order));
             order = order\<lparr>lo_last_exchange_ts_ns := bh_exchange_ts_ns header, lo_qty := usat_sub (lo_qty order) taken\<rparr>
         in bind (modify (drop_order order_id)) (\<lambda>_.
            bind (modify (remove_from_level (lo_side order) (lo_price order) order_id taken)) (\<lambda>_.
            if lo_qty order \<noteq> 0 then modify (put_order order_id order) else ret ())))"

definition on_order_cancel :: "book_event_header \<Rightarrow> l3_event \<Rightarrow> unknown_order_policy \<Rightarrow> (l3_book, unit) io" where
  "on_order_cancel header event policy =
     (if le_order_id event = 0 then ret ()
      else reduce_order ''cancel'' header (le_order_id event) (le_qty event) policy)"

definition decrement_order :: "book_event_header \<Rightarrow> u64 \<Rightarrow> u64 \<Rightarrow> unknown_order_policy \<Rightarrow> (l3_book, unit) io" where
  "decrement_order = reduce_order ''trade''"

text \<open>The levels when an order changes: it leaves them, moves to another price, or changes its size in place.\<close>

definition move_order :: "bool \<Rightarrow> u64 \<Rightarrow> l3_order \<Rightarrow> l3_order \<Rightarrow> l3_book \<Rightarrow> l3_book" where
  "move_order market order_id old order b =
     (if market \<or> lo_price order = 0 then
        (if lo_qty old \<noteq> 0 then remove_from_level (lo_side old) (lo_price old) order_id (lo_qty old) b else b)
      else if lo_price old \<noteq> lo_price order \<or> lo_side old \<noteq> lo_side order then
        add_to_level (lo_side order) (lo_price order) order_id (lo_qty order)
          (remove_from_level (lo_side old) (lo_price old) order_id (lo_qty old) b)
      else if lo_qty old \<noteq> lo_qty order \<and> lo_side order \<noteq> SideUnknown then
        let l = level_entry (lo_side order) (lo_price order) b in
        put_level (lo_side order) (lo_price order)
          (if lo_qty order > lo_qty old
           then l\<lparr>plv_total_qty := usat_add (plv_total_qty l) (lo_qty order - lo_qty old)\<rparr>
           else l\<lparr>plv_total_qty := usat_sub (plv_total_qty l) (lo_qty old - lo_qty order)\<rparr>) b
      else b)"

definition on_order_modify :: "book_event_header \<Rightarrow> l3_event \<Rightarrow> unknown_order_policy \<Rightarrow> (l3_book, unit) io" where
  "on_order_modify header event policy =
     (let order_id = le_order_id event in
      if order_id = 0 then ret ()
      else bind (get (\<lambda>b. Mapping.lookup (bk_orders b) order_id)) (\<lambda>found.
        case found of
          None \<Rightarrow> unknown_order ''modify'' policy order_id
        | Some old \<Rightarrow>
            let order = old\<lparr>lo_last_exchange_ts_ns := bh_exchange_ts_ns header,
                  lo_qty := (if le_qty event \<noteq> 0 then le_qty event else lo_qty old),
                  lo_price := (if le_price event \<noteq> 0 then le_price event else lo_price old)\<rparr>
            in bind (modify (drop_order order_id)) (\<lambda>_.
               bind (modify (move_order (is_market event) order_id old order)) (\<lambda>_.
               modify (put_order order_id order)))))"

definition on_trade :: "book_event_header \<Rightarrow> l3_event \<Rightarrow> unknown_order_policy \<Rightarrow> (l3_book, unit) io" where
  "on_trade header event policy =
     bind (if le_bid_order_id event \<noteq> 0 then decrement_order header (le_bid_order_id event) (le_qty event) policy else ret ()) (\<lambda>_.
     bind (if le_ask_order_id event \<noteq> 0 then decrement_order header (le_ask_order_id event) (le_qty event) policy else ret ()) (\<lambda>_.
     if le_bid_order_id event = 0 \<and> le_ask_order_id event = 0 \<and> le_order_id event \<noteq> 0
     then decrement_order header (le_order_id event) (le_qty event) policy else ret ()))"

definition apply_event :: "book_event_header \<Rightarrow> l3_event \<Rightarrow> unknown_order_policy \<Rightarrow> (l3_book, unit) io" where
  "apply_event header event policy =
     bind (modify (\<lambda>b. b\<lparr>bk_price_scale := le_price_scale event, bk_size_scale := le_size_scale event\<rparr>)) (\<lambda>_.
     if le_event_type event = l3_event_type_u8 OrderAdd then on_order_add header event
     else if le_event_type event = l3_event_type_u8 OrderCancel then on_order_cancel header event policy
     else if le_event_type event = l3_event_type_u8 OrderModify then on_order_modify header event policy
     else if le_event_type event = l3_event_type_u8 L3_Trade then on_trade header event policy
     else if le_event_type event = l3_event_type_u8 L3_Reset then
       modify (\<lambda>b. b\<lparr>bk_orders := Mapping.empty, bk_bids := Mapping.empty, bk_asks := Mapping.empty\<rparr>)
     else if le_event_type event = l3_event_type_u8 L3_Heartbeat then ret ()
     else fail (Anyhow (''unknown L3 event type '' @ dec_digits (unat (le_event_type event)))))"

text \<open>The hash of a book: its orders by number. The digest function is a parameter.\<close>

definition order_bytes :: "u64 \<times> l3_order \<Rightarrow> bytes" where
  "order_bytes = (\<lambda>(order_id, order). u64_to_le order_id @ [l3_side_u8 (lo_side order), lo_ord_type order] @ u64_to_le (lo_price order) @
     u64_to_le (lo_qty order) @ u32_to_le (lo_flags order) @ u64_to_le (lo_last_exchange_ts_ns order))"

definition book_hash :: "(bytes \<Rightarrow> bytes) \<Rightarrow> l3_book \<Rightarrow> bytes" where
  "book_hash blake3 b =
     take 16 (blake3 ([bk_price_scale b, bk_size_scale b] @ concat (map order_bytes (Mapping.ordered_entries (bk_orders b)))))"

section \<open>Levels and orders\<close>

text \<open>What rests at a price of a side: the sum over the orders.\<close>

definition weight :: "l3_side \<Rightarrow> u64 \<Rightarrow> l3_order \<Rightarrow> nat" where
  "weight s p ord = (if lo_side ord = s \<and> lo_price ord = p then unat (lo_qty ord) else 0)"

definition resting :: "l3_side \<Rightarrow> u64 \<Rightarrow> (u64, l3_order) mapping \<Rightarrow> nat" where
  "resting s p m = (\<Sum>k \<in> Mapping.keys m. case Mapping.lookup m k of Some ord \<Rightarrow> weight s p ord | None \<Rightarrow> 0)"

definition level_total :: "l3_side \<Rightarrow> u64 \<Rightarrow> l3_book \<Rightarrow> nat" where
  "level_total s p b = (case Mapping.lookup (side_map s b) p of Some l \<Rightarrow> unat (plv_total_qty l) | None \<Rightarrow> 0)"

text \<open>No level is empty, and there is none at price zero.\<close>

definition levels_ok :: "l3_book \<Rightarrow> bool" where
  "levels_ok b \<longleftrightarrow> (\<forall>s p l. Mapping.lookup (side_map s b) p = Some l \<longrightarrow> plv_total_qty l \<noteq> 0 \<and> p \<noteq> 0)"

definition l3_ok :: "l3_book \<Rightarrow> bool" where
  "l3_ok b \<longleftrightarrow> finite (Mapping.keys (bk_orders b)) \<and> (\<forall>k ord. Mapping.lookup (bk_orders b) k = Some ord \<longrightarrow> lo_qty ord \<noteq> 0) \<and>
     levels_ok b \<and> (\<forall>s p. s \<noteq> SideUnknown \<longrightarrow> p \<noteq> 0 \<longrightarrow> level_total s p b = resting s p (bk_orders b))"

lemma lookup_delete_if: "Mapping.lookup (Mapping.delete k m) j = (if j = k then None else Mapping.lookup m j)"
  by (simp add: lookup_delete_neq)

lemma resting_delete:
  assumes "finite (Mapping.keys m)" "Mapping.lookup m k = Some ord"
  shows "resting s p m = weight s p ord + resting s p (Mapping.delete k m)"
proof -
  have k: "k \<in> Mapping.keys m" using assms(2) by (simp add: keys_is_none_rep [symmetric] domIff keys_dom_lookup)
  have "(\<Sum>j \<in> Mapping.keys m - {k}. case Mapping.lookup m j of Some ord \<Rightarrow> weight s p ord | None \<Rightarrow> 0) = resting s p (Mapping.delete k m)"
    unfolding resting_def by (rule sum.cong) (auto simp: lookup_delete_neq)
  then show ?thesis
    unfolding resting_def [of s p m] by (subst sum.remove [OF assms(1) k]) (use assms(2) in simp)
qed

lemma resting_update:
  assumes "finite (Mapping.keys m)" "Mapping.lookup m k = None"
  shows "resting s p (Mapping.update k ord m) = weight s p ord + resting s p m"
proof -
  have "Mapping.delete k (Mapping.update k ord m) = m"
    using assms(2) by (intro mapping_eqI) (metis lookup_delete lookup_delete_neq lookup_update_neq)
  then show ?thesis using resting_delete [of "Mapping.update k ord m" k ord s p] assms(1) by simp
qed

lemma usat_add_ok: "unat a + unat b \<le> u64_max \<Longrightarrow> unat (usat_add a b) = unat a + unat b"
  by (simp add: usat_add_def unat_word_ariths)

lemma usat_sub_ok: "unat b \<le> unat a \<Longrightarrow> unat (usat_sub a b) = unat a - unat b"
  by (simp add: usat_sub_def word_le_nat_alt unat_sub)

lemma side_map_set [simp]:
  "side_map s' (set_side s m b) = (if s' = s \<and> s \<noteq> SideUnknown then m else side_map s' b)"
  by (cases s; cases s') auto

lemma bk_orders_set_side [simp]: "bk_orders (set_side s m b) = bk_orders b"
  by (cases s) auto

lemma side_map_orders [simp]: "side_map s (b\<lparr>bk_orders := x\<rparr>) = side_map s b"
  "side_map s (b\<lparr>bk_price_scale := c, bk_size_scale := d\<rparr>) = side_map s b"
  by (cases s; simp)+

lemma level_total_orders [simp]: "level_total s p (b\<lparr>bk_orders := x\<rparr>) = level_total s p b"
  "level_total s p (b\<lparr>bk_price_scale := c, bk_size_scale := d\<rparr>) = level_total s p b"
  by (simp_all add: level_total_def)

lemma levels_ok_orders [simp]: "levels_ok (b\<lparr>bk_orders := x\<rparr>) = levels_ok b"
  "levels_ok (b\<lparr>bk_price_scale := c, bk_size_scale := d\<rparr>) = levels_ok b"
  by (simp_all add: levels_ok_def)

lemma level_total_unknown [simp]: "level_total SideUnknown p b = 0"
  by (simp add: level_total_def)

lemma level_entry_total: "unat (plv_total_qty (level_entry s p b)) = level_total s p b"
  by (simp add: level_entry_def level_total_def level_default_def split: option.splits)

lemma put_level_spec:
  assumes "levels_ok b" "s \<noteq> SideUnknown" "p \<noteq> 0" "plv_total_qty l \<noteq> 0"
  shows "levels_ok (put_level s p l b)" "bk_orders (put_level s p l b) = bk_orders b"
    "level_total s' p' (put_level s p l b) = (if s' = s \<and> p' = p then unat (plv_total_qty l) else level_total s' p' b)"
  using assms by (auto simp: put_level_def levels_ok_def level_total_def lookup_update' split: if_splits)

lemma add_to_level_spec:
  assumes "levels_ok b" "p \<noteq> 0" "q \<noteq> 0" "level_total s p b + unat q \<le> u64_max"
  shows "levels_ok (add_to_level s p i q b)" "bk_orders (add_to_level s p i q b) = bk_orders b"
    "level_total s' p' (add_to_level s p i q b) =
       level_total s' p' b + (if s' = s \<and> s \<noteq> SideUnknown \<and> p' = p then unat q else 0)"
proof -
  let ?l = "level_add i q (level_entry s p b)"
  have t: "unat (plv_total_qty ?l) = level_total s p b + unat q"
    using usat_add_ok [of "plv_total_qty (level_entry s p b)" q] assms(4) by (simp add: level_add_def level_entry_total)
  then have "plv_total_qty ?l \<noteq> 0" using assms(3) by (metis add_is_0 unat_eq_zero)
  then show "levels_ok (add_to_level s p i q b)" "bk_orders (add_to_level s p i q b) = bk_orders b"
    "level_total s' p' (add_to_level s p i q b) = level_total s' p' b + (if s' = s \<and> s \<noteq> SideUnknown \<and> p' = p then unat q else 0)"
    using assms put_level_spec [of b s p ?l] t by (auto simp: add_to_level_def)
qed

lemma remove_from_level_spec:
  assumes "levels_ok b" "s \<noteq> SideUnknown \<Longrightarrow> p \<noteq> 0 \<Longrightarrow> unat q \<le> level_total s p b"
  shows "levels_ok (remove_from_level s p i q b)" "bk_orders (remove_from_level s p i q b) = bk_orders b"
    "level_total s' p' (remove_from_level s p i q b) =
       level_total s' p' b - (if s' = s \<and> s \<noteq> SideUnknown \<and> p' = p then unat q else 0)"
proof -
  have "levels_ok (remove_from_level s p i q b) \<and> bk_orders (remove_from_level s p i q b) = bk_orders b \<and>
    level_total s' p' (remove_from_level s p i q b) = level_total s' p' b - (if s' = s \<and> s \<noteq> SideUnknown \<and> p' = p then unat q else 0)"
  proof (cases "Mapping.lookup (side_map s b) p")
    case None
    then show ?thesis using assms by (auto simp: remove_from_level_def level_total_def)
  next
    case (Some l)
    then have s: "s \<noteq> SideUnknown" "p \<noteq> 0" using assms(1) by (cases s; auto simp: levels_ok_def)+
    let ?l = "level_remove_qty i q l"
    have q: "unat q \<le> unat (plv_total_qty l)" using assms(2) s Some by (simp add: level_total_def)
    have t: "unat (plv_total_qty ?l) = unat (plv_total_qty l) - unat q" using usat_sub_ok [OF q] by (simp add: level_remove_qty_def)
    show ?thesis
    proof (cases "plv_total_qty ?l = 0")
      case True
      then show ?thesis
        using assms(1) Some t s
        by (auto simp: remove_from_level_def Let_def levels_ok_def level_total_def lookup_delete_if split: if_splits)
    next
      case False
      then show ?thesis
        using put_level_spec [OF assms(1) s False] Some t s by (auto simp: remove_from_level_def Let_def level_total_def)
    qed
  qed
  then show "levels_ok (remove_from_level s p i q b)" "bk_orders (remove_from_level s p i q b) = bk_orders b"
    "level_total s' p' (remove_from_level s p i q b) =
       level_total s' p' b - (if s' = s \<and> s \<noteq> SideUnknown \<and> p' = p then unat q else 0)" by auto
qed

section \<open>Every event keeps the sums\<close>

lemma l3_okI:
  assumes "finite (Mapping.keys (bk_orders b))" "\<And>k ord. Mapping.lookup (bk_orders b) k = Some ord \<Longrightarrow> lo_qty ord \<noteq> 0" "levels_ok b"
    and "\<And>s p. s \<noteq> SideUnknown \<Longrightarrow> p \<noteq> 0 \<Longrightarrow> level_total s p b = resting s p (bk_orders b)"
  shows "l3_ok b"
  using assms by (auto simp: l3_ok_def)

lemma l3_okD:
  assumes "l3_ok b"
  shows "finite (Mapping.keys (bk_orders b))" "Mapping.lookup (bk_orders b) k = Some ord \<Longrightarrow> lo_qty ord \<noteq> 0" "levels_ok b"
    "s \<noteq> SideUnknown \<Longrightarrow> p \<noteq> 0 \<Longrightarrow> level_total s p b = resting s p (bk_orders b)"
  using assms by (auto simp: l3_ok_def)

lemma order_at_level:
  assumes "l3_ok b" "Mapping.lookup (bk_orders b) k = Some ord" "lo_side ord \<noteq> SideUnknown" "lo_price ord \<noteq> 0"
  shows "level_total (lo_side ord) (lo_price ord) b =
    unat (lo_qty ord) + resting (lo_side ord) (lo_price ord) (Mapping.delete k (bk_orders b))"
  using l3_okD(4) [OF assms(1,3,4)] resting_delete [OF l3_okD(1) [OF assms(1)] assms(2)] by (simp add: weight_def)

lemma reduce_order_ok:
  assumes "l3_ok b"
  shows "l3_ok (snd (reduce_order what header k qty policy b))"
proof (cases "Mapping.lookup (bk_orders b) k")
  case None
  then show ?thesis using assms by (simp add: reduce_order_def unknown_order_def bind_def get_def ret_def fail_def split: unknown_order_policy.splits)
next
  case (Some ord)
  note ok = l3_okD [OF assms]
  define taken where "taken = (if qty = 0 then lo_qty ord else min qty (lo_qty ord))"
  define ord' where "ord' = ord\<lparr>lo_last_exchange_ts_ns := bh_exchange_ts_ns header, lo_qty := usat_sub (lo_qty ord) taken\<rparr>"
  have le: "unat taken \<le> unat (lo_qty ord)" by (simp add: taken_def min_def word_le_nat_alt)
  have q': "unat (lo_qty ord') = unat (lo_qty ord) - unat taken" using usat_sub_ok [OF le] by (simp add: ord'_def)
  have o': "lo_side ord' = lo_side ord" "lo_price ord' = lo_price ord" by (simp_all add: ord'_def)
  let ?d = "Mapping.delete k (bk_orders b)"
  let ?b1 = "remove_from_level (lo_side ord) (lo_price ord) k taken (drop_order k b)"
  have rm: "unat taken \<le> level_total (lo_side ord) (lo_price ord) (drop_order k b)" if "lo_side ord \<noteq> SideUnknown" "lo_price ord \<noteq> 0"
    using order_at_level [OF assms Some that] le by simp
  have lok: "levels_ok (drop_order k b)" using ok(3) by simp
  note sp = remove_from_level_spec [OF lok rm]
  have tot: "level_total s p ?b1 = resting s p ?d + (weight s p ord - (if lo_side ord = s \<and> lo_price ord = p then unat taken else 0))"
    if "s \<noteq> SideUnknown" "p \<noteq> 0" for s p
    using sp(3) [of s p] ok(4) [OF that] resting_delete [OF ok(1) Some, of s p] le that by (auto simp: weight_def)
  define b' where "b' = (if lo_qty ord' \<noteq> 0 then put_order k ord' ?b1 else ?b1)"
  have "snd (reduce_order what header k qty policy b) = b'"
    by (simp add: reduce_order_def bind_def get_def modify_def Some Let_def taken_def [symmetric] ord'_def b'_def ret_def)
  moreover have "l3_ok b'"
  proof (cases "lo_qty ord' = 0")
    case True
    then have "unat taken = unat (lo_qty ord)" using q' le by simp
    then show ?thesis
      using True sp ok tot by (intro l3_okI) (auto simp: b'_def weight_def lookup_delete_if split: if_splits)
  next
    case False
    have "weight s p ord' = weight s p ord - (if lo_side ord = s \<and> lo_price ord = p then unat taken else 0)" for s p
      using q' by (simp add: weight_def o')
    then show ?thesis
      using False sp ok tot resting_update [where m = ?d and k = k]
      by (intro l3_okI) (auto simp: b'_def lookup_delete_if lookup_update' split: if_splits)
  qed
  ultimately show ?thesis by simp
qed

text \<open>
  Events that a well-formed feed sends: an added order is new, has a quantity, and a market order
  has no price; a modification does not turn an order into a market order; and no level
  outgrows 64 bits.
\<close>

definition clean_event :: "l3_book \<Rightarrow> l3_event \<Rightarrow> bool" where
  "clean_event b e \<longleftrightarrow>
     (le_event_type e = l3_event_type_u8 OrderAdd \<longrightarrow>
        Mapping.lookup (bk_orders b) (le_order_id e) = None \<and> le_qty e \<noteq> 0 \<and> (is_market e \<longrightarrow> le_price e = 0) \<and>
        level_total (side_of (le_side e)) (le_price e) b + unat (le_qty e) \<le> u64_max) \<and>
     (le_event_type e = l3_event_type_u8 OrderModify \<longrightarrow> \<not> is_market e \<and>
        (case Mapping.lookup (bk_orders b) (le_order_id e) of
           None \<Rightarrow> True
         | Some ord \<Rightarrow> level_total (lo_side ord) (if le_price e \<noteq> 0 then le_price e else lo_price ord) b +
             unat (if le_qty e \<noteq> 0 then le_qty e else lo_qty ord) \<le> u64_max))"

lemma on_order_add_ok:
  assumes "l3_ok b" "clean_event b e" "le_event_type e = l3_event_type_u8 OrderAdd"
  shows "l3_ok (snd (on_order_add h e b))"
proof (cases "le_order_id e = 0")
  case True
  then show ?thesis using assms(1) by (simp add: on_order_add_def fail_def)
next
  case False
  note ok = l3_okD [OF assms(1)]
  let ?s = "side_of (le_side e)" and ?p = "le_price e" and ?k = "le_order_id e"
  let ?o = "\<lparr>lo_side = ?s, lo_price = ?p, lo_qty = le_qty e, lo_flags = le_flags e, lo_ord_type = le_ord_type e,
    lo_last_exchange_ts_ns = bh_exchange_ts_ns h\<rparr>"
  let ?b1 = "put_order ?k ?o b"
  have c: "Mapping.lookup (bk_orders b) ?k = None" "le_qty e \<noteq> 0" "is_market e \<longrightarrow> ?p = 0" "level_total ?s ?p b + unat (le_qty e) \<le> u64_max"
    using assms(2,3) by (simp_all add: clean_event_def)
  have r: "resting s p (bk_orders ?b1) = (if s = ?s \<and> p = ?p then unat (le_qty e) else 0) + resting s p (bk_orders b)" for s p
    using resting_update [OF ok(1) c(1)] by (simp add: weight_def)
  have o1: "finite (Mapping.keys (bk_orders ?b1))" "Mapping.lookup (bk_orders ?b1) k = Some ord \<Longrightarrow> lo_qty ord \<noteq> 0" for k ord
    using ok(1,2) c(2) by (auto simp: lookup_update' split: if_splits)
  show ?thesis
  proof (cases "?p = 0")
    case True
    then have "snd (on_order_add h e b) = ?b1" using False by (simp add: on_order_add_def Let_def bind_def modify_def ret_def)
    moreover have "l3_ok ?b1" by (rule l3_okI) (use o1 ok r True in simp_all)
    ultimately show ?thesis by simp
  next
    case p: False
    then have "\<not> is_market e" using c(3) by blast
    then have "snd (on_order_add h e b) = add_to_level ?s ?p ?k (le_qty e) ?b1"
      using False p by (simp add: on_order_add_def Let_def bind_def modify_def)
    moreover have "l3_ok (add_to_level ?s ?p ?k (le_qty e) ?b1)"
    proof -
      have "levels_ok ?b1" "level_total ?s ?p ?b1 + unat (le_qty e) \<le> u64_max" using ok(3) c(4) by simp_all
      note sp = add_to_level_spec [OF this(1) p c(2) this(2), where i = ?k]
      show ?thesis by (rule l3_okI) (use sp o1 ok(4) r in auto)
    qed
    ultimately show ?thesis by simp
  qed
qed

lemma move_order_spec:
  assumes "l3_ok b" "Mapping.lookup (bk_orders b) k = Some old" "lo_side new = lo_side old" "lo_qty new \<noteq> 0"
    and "lo_price new = 0 \<Longrightarrow> lo_price old = 0" "level_total (lo_side old) (lo_price new) b + unat (lo_qty new) \<le> u64_max"
    and m: "b' = move_order False k old new (drop_order k b)"
  shows "levels_ok b' \<and> bk_orders b' = Mapping.delete k (bk_orders b) \<and>
    (\<forall>s p. s \<noteq> SideUnknown \<longrightarrow> p \<noteq> 0 \<longrightarrow> level_total s p b' = weight s p new + resting s p (Mapping.delete k (bk_orders b)))"
proof -
  note ok = l3_okD [OF assms(1)]
  let ?s = "lo_side old" and ?p = "lo_price old" and ?p' = "lo_price new"
  let ?d = "Mapping.delete k (bk_orders b)" and ?b0 = "drop_order k b"
  let ?b1 = "remove_from_level ?s ?p k (lo_qty old) ?b0"
  have rest: "resting s p (bk_orders b) = weight s p old + resting s p ?d" for s p by (rule resting_delete [OF ok(1) assms(2)])
  have lok: "levels_ok ?b0" using ok(3) by simp
  have rm: "unat (lo_qty old) \<le> level_total ?s ?p ?b0" if "?s \<noteq> SideUnknown" "?p \<noteq> 0"
    using order_at_level [OF assms(1,2) that] by simp
  note sp = remove_from_level_spec [OF lok rm]
  have t1: "level_total s p ?b1 = resting s p ?d" if "s \<noteq> SideUnknown" "p \<noteq> 0" for s p
    using sp(3) [of s p] ok(4) [OF that] rest [of s p] that by (auto simp: weight_def)
  have t0: "level_total s p ?b0 = weight s p old + resting s p ?d" if "s \<noteq> SideUnknown" "p \<noteq> 0" for s p
    using ok(4) [OF that] rest [of s p] by simp
  consider "?p' = 0" | "?p' \<noteq> 0" "?p \<noteq> ?p'" | "?p' \<noteq> 0" "?p = ?p'" "lo_qty old = lo_qty new \<or> ?s = SideUnknown"
    | "?p' \<noteq> 0" "?p = ?p'" "lo_qty old \<noteq> lo_qty new" "?s \<noteq> SideUnknown" by blast
  then show ?thesis
  proof cases
    case 1
    then have "b' = ?b1" using m ok(2) [OF assms(2)] by (simp add: move_order_def)
    then show ?thesis using sp t1 1 assms(3) by (auto simp: weight_def)
  next
    case 2
    then have b': "b' = add_to_level ?s ?p' k (lo_qty new) ?b1" using m assms(3) by (simp add: move_order_def)
    have "level_total ?s ?p' ?b1 + unat (lo_qty new) \<le> u64_max" using sp(3) [of ?s ?p'] assms(6) by simp
    note ad = add_to_level_spec [OF sp(1) 2(1) assms(4) this, where i = k]
    then show ?thesis using b' sp(2) t1 assms(3) by (auto simp: weight_def)
  next
    case 3
    then have "b' = ?b0" using m assms(3) by (auto simp: move_order_def)
    then show ?thesis using 3 lok t0 assms(3) by (auto simp: weight_def)
  next
    case 4
    let ?l = "level_entry ?s ?p ?b0"
    let ?l' = "if lo_qty new > lo_qty old then ?l\<lparr>plv_total_qty := usat_add (plv_total_qty ?l) (lo_qty new - lo_qty old)\<rparr>
      else ?l\<lparr>plv_total_qty := usat_sub (plv_total_qty ?l) (lo_qty old - lo_qty new)\<rparr>"
    have b': "b' = put_level ?s ?p ?l' ?b0" using m assms(3) 4 by (simp add: move_order_def Let_def)
    have le: "unat (plv_total_qty ?l) = level_total ?s ?p ?b0" by (rule level_entry_total)
    have tot: "level_total ?s ?p ?b0 = unat (lo_qty old) + resting ?s ?p ?d" using t0 4 by (simp add: weight_def)
    have fit: "level_total ?s ?p ?b0 + unat (lo_qty new) \<le> u64_max" using assms(6) 4 by simp
    have l': "unat (plv_total_qty ?l') = unat (lo_qty new) + resting ?s ?p ?d"
    proof (cases "lo_qty new > lo_qty old")
      case True
      then have "unat (lo_qty new - lo_qty old) = unat (lo_qty new) - unat (lo_qty old)" by (simp add: unat_sub)
      then show ?thesis
        using usat_add_ok [of "plv_total_qty ?l" "lo_qty new - lo_qty old"] True le tot fit by (simp add: word_less_nat_alt)
    next
      case False
      then have "unat (lo_qty old - lo_qty new) = unat (lo_qty old) - unat (lo_qty new)" by (simp add: unat_sub)
      then show ?thesis
        using usat_sub_ok [of "lo_qty old - lo_qty new" "plv_total_qty ?l"] False le tot by (simp add: word_less_nat_alt)
    qed
    then have nz: "plv_total_qty ?l' \<noteq> 0" using assms(4) by (metis add_is_0 unat_eq_zero)
    have p: "?p \<noteq> 0" using 4 by simp
    note pl = put_level_spec [OF lok 4(4) p nz]
    show ?thesis using pl b' l' t0 4 assms(3) by (auto simp: weight_def)
  qed
qed

lemma on_order_modify_ok:
  assumes "l3_ok b" "clean_event b e" "le_event_type e = l3_event_type_u8 OrderModify"
  shows "l3_ok (snd (on_order_modify h e policy b))"
proof (cases "Mapping.lookup (bk_orders b) (le_order_id e)")
  case None
  then show ?thesis
    using assms(1) by (simp add: on_order_modify_def Let_def unknown_order_def bind_def get_def ret_def fail_def split: unknown_order_policy.splits)
next
  case (Some old)
  note ok = l3_okD [OF assms(1)]
  let ?k = "le_order_id e"
  define new where "new = old\<lparr>lo_last_exchange_ts_ns := bh_exchange_ts_ns h,
    lo_qty := (if le_qty e \<noteq> 0 then le_qty e else lo_qty old), lo_price := (if le_price e \<noteq> 0 then le_price e else lo_price old)\<rparr>"
  have n: "lo_side new = lo_side old" "lo_qty new \<noteq> 0" "lo_price new = 0 \<Longrightarrow> lo_price old = 0"
    using ok(2) [OF Some] by (simp_all add: new_def split: if_splits)
  have c: "\<not> is_market e" "level_total (lo_side old) (lo_price new) b + unat (lo_qty new) \<le> u64_max"
    using assms(2,3) Some by (simp_all add: clean_event_def new_def)
  define b' where "b' = move_order False ?k old new (drop_order ?k b)"
  note sp = move_order_spec [OF assms(1) Some n c(2) b'_def]
  have "l3_ok (put_order ?k new b')"
    by (rule l3_okI)
      (use sp ok n resting_update [where m = "Mapping.delete ?k (bk_orders b)" and k = ?k] in
        \<open>auto simp: lookup_update' lookup_delete_if split: if_splits\<close>)
  moreover have "snd (on_order_modify h e policy b) = (if ?k = 0 then b else put_order ?k new b')"
    using c(1) by (simp add: on_order_modify_def Let_def bind_def get_def modify_def Some new_def [symmetric] b'_def ret_def)
  ultimately show ?thesis using assms(1) by simp
qed

lemma on_trade_ok: "l3_ok b \<Longrightarrow> l3_ok (snd (on_trade h e policy b))"
  using reduce_order_ok [of _ "''trade''" h _ "le_qty e" policy]
  by (auto simp: on_trade_def decrement_order_def bind_def ret_def split: prod.splits sum.splits) (metis snd_conv)+

lemma l3_ok_empty:
  assumes "bk_orders b = Mapping.empty" "bk_bids b = Mapping.empty" "bk_asks b = Mapping.empty"
  shows "l3_ok b"
proof -
  have "side_map s b = Mapping.empty" for s using assms by (cases s) simp_all
  then show ?thesis using assms(1) by (simp add: l3_ok_def levels_ok_def level_total_def resting_def)
qed

lemma apply_event_ok:
  assumes "l3_ok b" "clean_event b e"
  shows "l3_ok (snd (apply_event h e policy b))"
proof -
  let ?b = "b\<lparr>bk_price_scale := le_price_scale e, bk_size_scale := le_size_scale e\<rparr>"
  have ok: "l3_ok ?b" using assms(1) by (auto simp: l3_ok_def)
  have "clean_event ?b e" using assms(2) by (simp add: clean_event_def cong: option.case_cong)
  then show ?thesis
    using ok on_order_add_ok [OF ok] on_order_modify_ok [OF ok] on_trade_ok [OF ok] reduce_order_ok [OF ok]
    by (auto simp: apply_event_def bind_def modify_def ret_def fail_def on_order_cancel_def intro: l3_ok_empty)
qed

text \<open>A feed: the book after every event, whether it was accepted or not.\<close>

definition l3_feed :: "unknown_order_policy \<Rightarrow> (book_event_header \<times> l3_event) list \<Rightarrow> l3_book \<Rightarrow> l3_book" where
  "l3_feed policy = fold (\<lambda>(h, e) b. snd (apply_event h e policy b))"

fun clean_feed :: "unknown_order_policy \<Rightarrow> (book_event_header \<times> l3_event) list \<Rightarrow> l3_book \<Rightarrow> bool" where
  "clean_feed policy [] b \<longleftrightarrow> True"
| "clean_feed policy ((h, e) # es) b \<longleftrightarrow> clean_event b e \<and> clean_feed policy es (snd (apply_event h e policy b))"


definition demo_event :: "l3_event_type \<Rightarrow> u64 \<Rightarrow> u64 \<Rightarrow> u64 \<Rightarrow> l3_event" where
  "demo_event t i p q = \<lparr>le_event_type = l3_event_type_u8 t, le_side = 1, le_ord_type = 0, le_exec_type = 0, le_price_scale = 3, le_size_scale = 0,
     le_pad0 = 0, le_flags = 0, le_pad1 = 0, le_order_id = i, le_bid_order_id = 0, le_ask_order_id = 0, le_price = p, le_qty = q, le_amt = 0\<rparr>"

definition demo_bh :: book_event_header where
  "demo_bh = \<lparr>bh_schema_version = 3, bh_record_len = 128, bh_endianness = 0, bh_pad0 = 0, bh_venue_id = 0, bh_market_id = 1, bh_stream_id = 2011,
     bh_ingest_ts_ns = 0, bh_exchange_ts_ns = 1, bh_seq = 1, bh_native_seq = 1, bh_event_type = 2, bh_book_mode = 1, bh_flags = 0, bh_pad1 = 0\<rparr>"

text \<open>An order of five is added, and two are cancelled.\<close>

abbreviation demo_feed :: "(book_event_header \<times> l3_event) list" where
  "demo_feed \<equiv> [(demo_bh, demo_event OrderAdd 10 100 5), (demo_bh, demo_event OrderCancel 10 0 2)]"

lemmas l3_eval = apply_event_def on_order_add_def on_order_cancel_def reduce_order_def add_to_level_def remove_from_level_def
  put_level_def level_entry_def level_default_def level_add_def level_remove_qty_def usat_add_def usat_sub_def side_of_def
  demo_event_def demo_bh_def l3_book_new_def bind_def modify_def get_def ret_def Let_def

lemma demo_feed_book:
  "l3_feed Fail_Unknown demo_feed l3_book_new =
    \<lparr>bk_orders = Mapping.update 10 \<lparr>lo_side = Buy, lo_price = 100, lo_qty = 3, lo_flags = 0, lo_ord_type = 0, lo_last_exchange_ts_ns = 1\<rparr>
       (Mapping.delete 10 (Mapping.update 10 \<lparr>lo_side = Buy, lo_price = 100, lo_qty = 5, lo_flags = 0, lo_ord_type = 0, lo_last_exchange_ts_ns = 1\<rparr> Mapping.empty)),
     bk_bids = Mapping.update 100 \<lparr>plv_total_qty = 3, plv_queue = []\<rparr> (Mapping.update 100 \<lparr>plv_total_qty = 5, plv_queue = [10]\<rparr> Mapping.empty),
     bk_asks = Mapping.empty, bk_price_scale = 3, bk_size_scale = 0\<rparr>"
  by (simp add: l3_feed_def l3_eval)


text \<open>
  A partial fill takes the order out of the queue of its level. When a cancel or a
  trade takes a part of an order that is in the queue of its level once, the order stays in the
  book with the rest, its quantity stays in the total of the level, but its number is gone from
  the queue: the length of the queue no longer counts the orders resting at the price.
\<close>

lemma partial_fill_leaves_queue:
  assumes "Mapping.lookup (bk_orders b) k = Some ord" "lo_side ord \<noteq> SideUnknown"
    and "Mapping.lookup (side_map (lo_side ord) b) (lo_price ord) = Some l" "count_list (plv_queue l) k = 1"
    and "qty \<noteq> 0" "qty < lo_qty ord" "lo_qty ord \<le> plv_total_qty l"
  shows "\<exists>b' ord' l'. reduce_order what header k qty policy b = (Inr (), b') \<and> Mapping.lookup (bk_orders b') k = Some ord' \<and>
    lo_qty ord' = lo_qty ord - qty \<and> Mapping.lookup (side_map (lo_side ord) b') (lo_price ord) = Some l' \<and>
    plv_total_qty l' = plv_total_qty l - qty \<and> k \<notin> set (plv_queue l')"
proof -
  let ?o = "ord\<lparr>lo_last_exchange_ts_ns := bh_exchange_ts_ns header, lo_qty := lo_qty ord - qty\<rparr>"
  let ?l = "l\<lparr>plv_total_qty := plv_total_qty l - qty, plv_queue := remove1 k (plv_queue l)\<rparr>"
  have q: "qty \<le> lo_qty ord" "qty \<le> plv_total_qty l" "lo_qty ord - qty \<noteq> 0" "plv_total_qty l - qty \<noteq> 0"
    using assms(6,7) by auto
  have "count_list (remove1 k (plv_queue l)) k = 0" using assms(4) by (simp add: count_list_remove1)
  from iffD1 [OF count_list_0_iff this] have nk: "k \<notin> set (plv_queue ?l)" by simp
  let ?b1 = "put_level (lo_side ord) (lo_price ord) ?l (drop_order k b)"
  have "remove_from_level (lo_side ord) (lo_price ord) k qty (drop_order k b) = ?b1"
    using assms(3) q by (simp add: remove_from_level_def level_remove_qty_def usat_sub_def Let_def)
  then have "reduce_order what header k qty policy b = (Inr (), put_order k ?o ?b1)"
    using assms(1,5) q by (simp add: reduce_order_def bind_def get_def modify_def Let_def usat_sub_def min_def)
  moreover have "Mapping.lookup (side_map (lo_side ord) (put_order k ?o ?b1)) (lo_price ord) = Some ?l"
    using assms(2) by (simp add: put_level_def)
  ultimately show ?thesis using nk by (intro exI [of _ "put_order k ?o ?b1"] exI [of _ ?o] exI [of _ ?l]) simp
qed

end
