(* ===== verification/L3_Engine.thy ===== *)
theory L3_Engine
  imports L3_Book Sequencer Records
begin

text \<open>
  \<^verbatim>\<open>src/src/venues/szse/l3/engine.rs\<close>, the engine around the order books: decoding of messages,
  the distribution of symbols over workers, the checks of channel and sequence, and checkpoints.
  The hash of \<open>worker_index\<close> (the standard library leaves its algorithm open) and the digest
  function of the book hash are parameters.
\<close>

section \<open>Decoding\<close>

datatype decode_policy = Fail_Decode | SkipNonL3

record l3_message =
  lm_header :: book_event_header
  lm_event :: l3_event

definition not_l3 :: "decode_policy \<Rightarrow> string \<Rightarrow> nat \<Rightarrow> l3_message option result" where
  "not_l3 policy what n = (case policy of SkipNonL3 \<Rightarrow> Inr None | Fail_Decode \<Rightarrow> Inl (Anyhow (what @ dec_digits n)))"

definition decode_l3_message :: "message \<Rightarrow> decode_policy \<Rightarrow> l3_message option result" where
  "decode_l3_message msg policy =
     (if msg_type_id msg \<noteq> type_id_u16 BookEvent then not_l3 policy ''non-book event type '' (unat (msg_type_id msg))
      else let payload = msg_payload msg in
        case read_header payload 0 of
          None \<Rightarrow> Inl (Anyhow ''message too small for BookEventHeader'')
        | Some header \<Rightarrow>
            if bh_book_mode header \<noteq> book_mode_u8 L3 then not_l3 policy ''unsupported book mode '' (unat (bh_book_mode header))
            else if bh_event_type header \<noteq> book_event_type_u8 Diff_Event then
              not_l3 policy ''unsupported event type '' (unat (bh_event_type header))
            else if unat (bh_record_len header) \<noteq> 64 + 64 then
              Inl (Anyhow (''record_len mismatch: header='' @ dec_digits (unat (bh_record_len header)) @ '' expected='' @ dec_digits (64 + 64)))
            else if length payload < 64 + 64 then
              Inl (Anyhow (''payload too short: '' @ dec_digits (length payload) @ '' < '' @ dec_digits (64 + 64)))
            else case read_l3_event payload 64 of
                   None \<Rightarrow> Inl (Anyhow ''message too small for L3Event'')
                 | Some event \<Rightarrow> Inr (Some \<lparr>lm_header = header, lm_event = event\<rparr>))"

section \<open>Workers\<close>

type_synonym l3_worker = "(u32, l3_book) mapping"

definition book_mut :: "u32 \<Rightarrow> l3_worker \<Rightarrow> l3_book" where
  "book_mut symbol books = (case Mapping.lookup books symbol of Some b \<Rightarrow> b | None \<Rightarrow> l3_book_new)"

definition worker_apply_message :: "book_event_header \<Rightarrow> l3_event \<Rightarrow> unknown_order_policy \<Rightarrow> (l3_worker, unit) io" where
  "worker_apply_message header event policy = (\<lambda>books.
     case apply_event header event policy (book_mut (bh_market_id header) books) of
       (res, b) \<Rightarrow> (res, Mapping.update (bh_market_id header) b books))"

definition worker_index :: "(u32 \<Rightarrow> u64) \<Rightarrow> u32 \<Rightarrow> nat \<Rightarrow> nat" where
  "worker_index hash symbol worker_count = unat (hash symbol) mod worker_count"

definition dispatcher_new :: "nat \<Rightarrow> l3_worker list" where
  "dispatcher_new worker_count = replicate (if worker_count = 0 then 1 else worker_count) Mapping.empty"

definition route :: "(u32 \<Rightarrow> u64) \<Rightarrow> l3_message \<Rightarrow> unknown_order_policy \<Rightarrow> (l3_worker list, unit) io" where
  "route hash msg policy = (\<lambda>workers.
     let idx = worker_index hash (bh_market_id (lm_header msg)) (length workers) in
     case worker_apply_message (lm_header msg) (lm_event msg) policy (workers ! idx) of
       (res, books) \<Rightarrow> (res, workers[idx := books]))"

section \<open>The engine\<close>

datatype apply_status = Status_Applied | Status_Skipped

record reconstruct_policy =
  rc_gap :: gap_policy
  rc_decode :: decode_policy
  rc_unknown_order :: unknown_order_policy

record 'd l3_engine =
  eng_policy :: reconstruct_policy
  eng_sequencer :: sequence_validator
  eng_dispatcher :: 'd
  eng_channel_id :: "u32 option"

definition default_policy :: reconstruct_policy where
  "default_policy = \<lparr>rc_gap = GapPanic, rc_decode = Fail_Decode, rc_unknown_order = Fail_Unknown\<rparr>"

text \<open>\<open>apply_message\<close> uses its dispatcher only through \<open>route\<close>, an argument here.\<close>

definition l3_engine_with :: "'d \<Rightarrow> 'd l3_engine" where
  "l3_engine_with dispatcher =
     \<lparr>eng_policy = default_policy, eng_sequencer = sv_new GapPanic, eng_dispatcher = dispatcher, eng_channel_id = None\<rparr>"

definition l3_engine_new :: "nat \<Rightarrow> l3_worker list l3_engine" where
  "l3_engine_new worker_count = l3_engine_with (dispatcher_new worker_count)"

definition l3_set_policy :: "reconstruct_policy \<Rightarrow> ('d l3_engine, unit) io" where
  "l3_set_policy policy = modify (\<lambda>e. e\<lparr>eng_policy := policy\<rparr>)"

definition set_channel_id :: "u32 \<Rightarrow> ('d l3_engine, unit) io" where
  "set_channel_id channel_id = modify (\<lambda>e. e\<lparr>eng_channel_id := Some channel_id\<rparr>)"

definition check_channel :: "u32 \<Rightarrow> ('d l3_engine, unit) io" where
  "check_channel stream_id =
     bind (get eng_channel_id) (\<lambda>channel.
     case channel of
       Some expected \<Rightarrow>
         if stream_id \<noteq> expected then
           fail (Anyhow (''unexpected channel '' @ dec_digits (unat stream_id) @ '', expected '' @ dec_digits (unat expected)))
         else ret ()
     | None \<Rightarrow> modify (\<lambda>e. e\<lparr>eng_channel_id := Some stream_id\<rparr>))"

definition check_sequence :: "u64 \<Rightarrow> ('d l3_engine, unit) io" where
  "check_sequence seq = (\<lambda>e.
     case sv_check seq (sv_set_policy (rc_gap (eng_policy e)) (eng_sequencer e)) of
       (Inl gap, v) \<Rightarrow> (Inl (gap_error gap), e\<lparr>eng_sequencer := v\<rparr>)
     | (Inr _, v) \<Rightarrow> (Inr (), e\<lparr>eng_sequencer := v\<rparr>))"

definition l3_apply_message :: "(l3_message \<Rightarrow> unknown_order_policy \<Rightarrow> ('d, unit) io) \<Rightarrow> message \<Rightarrow> ('d l3_engine, apply_status) io" where
  "l3_apply_message rt msg =
     bind (get (\<lambda>e. decode_l3_message msg (rc_decode (eng_policy e)))) (\<lambda>decoded.
     bind (lift decoded) (\<lambda>l3.
     case l3 of
       None \<Rightarrow> ret Status_Skipped
     | Some l3 \<Rightarrow>
         bind (check_channel (bh_stream_id (lm_header l3))) (\<lambda>_.
         bind (check_sequence (bh_seq (lm_header l3))) (\<lambda>_.
         bind (\<lambda>e. case rt l3 (rc_unknown_order (eng_policy e)) (eng_dispatcher e) of (res, d) \<Rightarrow> (res, e\<lparr>eng_dispatcher := d\<rparr>)) (\<lambda>_.
         ret Status_Applied)))))"

text \<open>
  The symbols are sorted, and no two workers have the same one, so the order in which the maps are
  iterated does not matter.
\<close>

record channel_checkpoint =
  cc_channel :: u32
  cc_last_seq :: u64
  cc_symbols :: "(u32 \<times> bytes) list"

definition worker_symbols :: "(bytes \<Rightarrow> bytes) \<Rightarrow> l3_worker \<Rightarrow> (u32 \<times> bytes) list" where
  "worker_symbols blake3 books = map (\<lambda>(symbol, b). (symbol, book_hash blake3 b)) (Mapping.ordered_entries books)"

definition l3_checkpoint :: "('d \<Rightarrow> (u32 \<times> bytes) list) \<Rightarrow> 'd l3_engine \<Rightarrow> channel_checkpoint option" where
  "l3_checkpoint symbols e =
     (case (eng_channel_id e, sv_last_seq (eng_sequencer e)) of
        (Some channel, Some last_seq) \<Rightarrow>
          Some \<lparr>cc_channel = channel, cc_last_seq = last_seq, cc_symbols = sort_key fst (symbols (eng_dispatcher e))\<rparr>
      | _ \<Rightarrow> None)"

definition engine_checkpoint :: "(bytes \<Rightarrow> bytes) \<Rightarrow> l3_worker list l3_engine \<Rightarrow> channel_checkpoint option" where
  "engine_checkpoint blake3 = l3_checkpoint (\<lambda>workers. concat (map (worker_symbols blake3) workers))"

text \<open>A stream of messages, each with its result.\<close>

fun l3_stream :: "(l3_message \<Rightarrow> unknown_order_policy \<Rightarrow> ('d, unit) io) \<Rightarrow> message list \<Rightarrow> 'd l3_engine \<Rightarrow> apply_status result list \<times> 'd l3_engine" where
  "l3_stream rt [] e = ([], e)"
| "l3_stream rt (m # ms) e =
     (case l3_apply_message rt m e of (res, e') \<Rightarrow> case l3_stream rt ms e' of (rs, e'') \<Rightarrow> (res # rs, e''))"

section \<open>The reference: one map of books\<close>

text \<open>A single worker that has every symbol.\<close>

definition route_one :: "l3_message \<Rightarrow> unknown_order_policy \<Rightarrow> (l3_worker, unit) io" where
  "route_one msg = worker_apply_message (lm_header msg) (lm_event msg)"

definition split_over :: "(u32 \<Rightarrow> u64) \<Rightarrow> l3_worker list \<Rightarrow> l3_worker \<Rightarrow> bool" where
  "split_over hash ws books \<longleftrightarrow> ws \<noteq> [] \<and> finite (Mapping.keys books) \<and>
     (\<forall>i < length ws. \<forall>symbol. Mapping.lookup (ws ! i) symbol =
        (if i = worker_index hash symbol (length ws) then Mapping.lookup books symbol else None))"

lemma worker_index_less: "0 < n \<Longrightarrow> worker_index hash symbol n < n"
  by (simp add: worker_index_def)

lemma split_over_new: "split_over hash (dispatcher_new n) Mapping.empty"
  by (simp add: split_over_def dispatcher_new_def)

lemma split_over_route:
  assumes "split_over hash ws books"
  shows "fst (route hash m policy ws) = fst (route_one m policy books) \<and>
    split_over hash (snd (route hash m policy ws)) (snd (route_one m policy books))"
proof -
  let ?k = "bh_market_id (lm_header m)"
  let ?i = "worker_index hash ?k (length ws)"
  have i: "?i < length ws" using assms worker_index_less [of "length ws" hash ?k] by (cases ws) (auto simp: split_over_def)
  then have "book_mut ?k (ws ! ?i) = book_mut ?k books" using assms by (simp add: book_mut_def split_over_def)
  then show ?thesis
    using assms i by (auto simp: route_def route_one_def worker_apply_message_def Let_def split_over_def nth_list_update lookup_update' split: prod.splits)
qed

definition same_engine :: "(u32 \<Rightarrow> u64) \<Rightarrow> l3_worker list l3_engine \<Rightarrow> l3_worker l3_engine \<Rightarrow> bool" where
  "same_engine hash e f \<longleftrightarrow> eng_policy e = eng_policy f \<and> eng_sequencer e = eng_sequencer f \<and> eng_channel_id e = eng_channel_id f \<and>
     split_over hash (eng_dispatcher e) (eng_dispatcher f)"

text \<open>Two computations in step: the same result, and related states.\<close>

definition in_step :: "('s \<Rightarrow> 't \<Rightarrow> bool) \<Rightarrow> ('s, 'a) io \<Rightarrow> ('t, 'a) io \<Rightarrow> bool" where
  "in_step R m m' \<longleftrightarrow> (\<forall>s t. R s t \<longrightarrow> fst (m s) = fst (m' t) \<and> R (snd (m s)) (snd (m' t)))"

lemma in_step_basic [simp, intro]:
  "in_step R (ret x) (ret x)" "in_step R (fail e) (fail e)" "in_step R (lift r) (lift r)"
  by (auto simp: in_step_def ret_def fail_def lift_def split: sum.splits)

lemma in_step_bind:
  assumes "in_step R m m'" "\<And>x. in_step R (f x) (f' x)"
  shows "in_step R (bind m f) (bind m' f')"
  unfolding in_step_def
proof (intro allI impI)
  fix s t assume "R s t"
  then have 1: "fst (m s) = fst (m' t)" "R (snd (m s)) (snd (m' t))" using assms(1) by (auto simp: in_step_def)
  show "fst (bind m f s) = fst (bind m' f' t) \<and> R (snd (bind m f s)) (snd (bind m' f' t))"
    using 1 assms(2) by (cases "m s"; cases "m' t"; cases "fst (m s)") (auto simp: bind_def in_step_def)
qed

lemma in_step_get: "(\<And>s t. R s t \<Longrightarrow> g s = g' t) \<Longrightarrow> in_step R (get g) (get g')"
  by (simp add: in_step_def get_def)

lemma in_step_apply:
  "in_step (same_engine hash) (l3_apply_message (route hash) m) (l3_apply_message route_one m)"
proof -
  have ch: "in_step (same_engine hash) (check_channel i) (check_channel i)" for i
    unfolding check_channel_def
    by (rule in_step_bind [OF in_step_get])
      (auto simp: same_engine_def in_step_def modify_def ret_def fail_def split: option.splits)
  have sq: "in_step (same_engine hash) (check_sequence i) (check_sequence i)" for i
    by (auto simp: in_step_def check_sequence_def same_engine_def split: prod.splits sum.splits)
  have rt: "in_step (same_engine hash)
      (\<lambda>e. case route hash l3 (rc_unknown_order (eng_policy e)) (eng_dispatcher e) of (res, d) \<Rightarrow> (res, e\<lparr>eng_dispatcher := d\<rparr>))
      (\<lambda>e. case route_one l3 (rc_unknown_order (eng_policy e)) (eng_dispatcher e) of (res, d) \<Rightarrow> (res, e\<lparr>eng_dispatcher := d\<rparr>))" for l3
    unfolding in_step_def
  proof (intro allI impI)
    fix s t assume r: "same_engine hash s t"
    show "fst (case route hash l3 (rc_unknown_order (eng_policy s)) (eng_dispatcher s) of (res, d) \<Rightarrow> (res, s\<lparr>eng_dispatcher := d\<rparr>)) =
        fst (case route_one l3 (rc_unknown_order (eng_policy t)) (eng_dispatcher t) of (res, d) \<Rightarrow> (res, t\<lparr>eng_dispatcher := d\<rparr>)) \<and>
      same_engine hash (snd (case route hash l3 (rc_unknown_order (eng_policy s)) (eng_dispatcher s) of (res, d) \<Rightarrow> (res, s\<lparr>eng_dispatcher := d\<rparr>)))
        (snd (case route_one l3 (rc_unknown_order (eng_policy t)) (eng_dispatcher t) of (res, d) \<Rightarrow> (res, t\<lparr>eng_dispatcher := d\<rparr>)))"
      using r split_over_route [of hash "eng_dispatcher s" "eng_dispatcher t" l3 "rc_unknown_order (eng_policy s)"]
      by (auto simp: same_engine_def split: prod.splits)
  qed
  show ?thesis
    unfolding l3_apply_message_def
    by (intro in_step_bind in_step_get) (auto simp: same_engine_def intro!: in_step_bind ch sq rt split: option.splits)
qed

lemma stream_in_step:
  assumes "same_engine hash e f"
  shows "fst (l3_stream (route hash) ms e) = fst (l3_stream route_one ms f) \<and>
    same_engine hash (snd (l3_stream (route hash) ms e)) (snd (l3_stream route_one ms f))"
  using assms
proof (induction ms arbitrary: e f)
  case (Cons m ms)
  have "fst (l3_apply_message (route hash) m e) = fst (l3_apply_message route_one m f)"
    "same_engine hash (snd (l3_apply_message (route hash) m e)) (snd (l3_apply_message route_one m f))"
    using in_step_apply [of hash m] Cons.prems by (auto simp: in_step_def)
  then show ?case using Cons.IH by (simp add: case_prod_beta)
qed simp

text \<open>The symbols of the workers, sorted, are those of the one map.\<close>

lemma distinct_concat_keyed:
  "(\<And>i x. i < length xss \<Longrightarrow> x \<in> set (xss ! i) \<Longrightarrow> f x = n + i) \<Longrightarrow> (\<And>xs. xs \<in> set xss \<Longrightarrow> distinct xs) \<Longrightarrow> distinct (concat xss)"
proof (induction xss arbitrary: n)
  case (Cons xs xss)
  have "distinct (concat xss)"
  proof (rule Cons.IH [of "Suc n"])
    fix i x assume "i < length xss" "x \<in> set (xss ! i)"
    then show "f x = Suc n + i" using Cons.prems(1) [of "Suc i" x] by simp
  qed (use Cons.prems(2) in auto)
  moreover have "x \<notin> set ys" if xs: "x \<in> set xs" and ys: "ys \<in> set xss" for x ys
  proof
    assume "x \<in> set ys"
    obtain i where "i < length xss" "ys = xss ! i" using ys by (auto simp: in_set_conv_nth)
    then have "f x = n + Suc i" using Cons.prems(1) [of "Suc i" x] \<open>x \<in> set ys\<close> by simp
    moreover have "f x = n + 0" using Cons.prems(1) [of 0 x] xs by simp
    ultimately show False by simp
  qed
  ultimately show ?case using Cons.prems(2) [of xs] by auto
qed simp

lemma fst_worker_symbols: "map fst (worker_symbols blake3 books) = Mapping.ordered_keys books"
  by (simp add: worker_symbols_def comp_def case_prod_beta)

lemma checkpoint_symbols:
  assumes "split_over hash ws books"
  shows "sort_key fst (concat (map (worker_symbols blake3) ws)) = worker_symbols blake3 books"
proof (rule map_sorted_distinct_set_unique [where f = fst])
  let ?xs = "concat (map (worker_symbols blake3) ws)"
  have lk: "Mapping.lookup (ws ! i) symbol = (if i = worker_index hash symbol (length ws) then Mapping.lookup books symbol else None)"
    if "i < length ws" for i symbol using assms that by (simp add: split_over_def)
  have fin: "finite (Mapping.keys books)" using assms by (simp add: split_over_def)
  have finw: "finite (Mapping.keys w)" if "w \<in> set ws" for w
  proof -
    obtain i where "i < length ws" "w = ws ! i" using \<open>w \<in> set ws\<close> by (auto simp: in_set_conv_nth)
    then have "Mapping.keys w \<subseteq> Mapping.keys books" using lk by (auto simp: keys_dom_lookup split: if_splits)
    then show ?thesis using fin finite_subset by blast
  qed
  have mem: "(symbol, h) \<in> set (worker_symbols blake3 w) \<longleftrightarrow> (\<exists>b. Mapping.lookup w symbol = Some b \<and> h = book_hash blake3 b)"
    if "finite (Mapping.keys w)" for w symbol h
    using that by (auto simp: worker_symbols_def set_ordered_entries dest!: in_entriesD intro!: in_entriesI)
  have d: "distinct (map fst ?xs)"
    unfolding map_concat map_map
  proof (rule distinct_concat_keyed [where n = 0 and f = "\<lambda>symbol. worker_index hash symbol (length ws)"])
    fix i symbol assume i: "i < length (map (map fst \<circ> worker_symbols blake3) ws)" "symbol \<in> set (map (map fst \<circ> worker_symbols blake3) ws ! i)"
    then have "symbol \<in> Mapping.keys (ws ! i)" using finw by (simp add: fst_worker_symbols)
    then show "worker_index hash symbol (length ws) = 0 + i" using lk i(1) by (auto simp: keys_dom_lookup split: if_splits)
  qed (auto simp: fst_worker_symbols)
  show "distinct (map fst (sort_key fst ?xs))" using d by (simp add: distinct_map)
  show "distinct (map fst (worker_symbols blake3 books))" by (simp add: fst_worker_symbols)
  show "sorted (map fst (worker_symbols blake3 books))" by (simp add: fst_worker_symbols)
  have "set ?xs = set (worker_symbols blake3 books)"
  proof (rule set_eqI)
    fix x :: "u32 \<times> bytes"
    obtain symbol h where x: "x = (symbol, h)" by (cases x)
    have w: "worker_index hash symbol (length ws) < length ws" using assms by (auto simp: split_over_def intro!: worker_index_less)
    have "x \<in> set ?xs \<longleftrightarrow> (\<exists>v \<in> set ws. \<exists>b. Mapping.lookup v symbol = Some b \<and> h = book_hash blake3 b)" using mem finw by (auto simp: x)
    also have "\<dots> \<longleftrightarrow> (\<exists>i < length ws. \<exists>b. Mapping.lookup (ws ! i) symbol = Some b \<and> h = book_hash blake3 b)"
      by (metis in_set_conv_nth)
    also have "\<dots> \<longleftrightarrow> (\<exists>b. Mapping.lookup books symbol = Some b \<and> h = book_hash blake3 b)" using lk w by (auto split: if_splits)
    finally show "x \<in> set ?xs \<longleftrightarrow> x \<in> set (worker_symbols blake3 books)" using mem [OF fin] by (simp add: x)
  qed
  then show "set (sort_key fst ?xs) = set (worker_symbols blake3 books)" by simp
  have "inj_on fst (set ?xs)" using d by (simp add: distinct_map)
  then show "inj_on fst (set (sort_key fst ?xs) \<union> set (worker_symbols blake3 books))"
    using \<open>set ?xs = set (worker_symbols blake3 books)\<close> by simp
qed simp

lemma checkpoint_one:
  assumes "same_engine hash e f"
  shows "engine_checkpoint blake3 e = l3_checkpoint (worker_symbols blake3) f"
proof -
  have "sort_key fst (worker_symbols blake3 (eng_dispatcher f)) = worker_symbols blake3 (eng_dispatcher f)"
    by (rule sort_key_id_if_sorted) (simp add: fst_worker_symbols)
  then show ?thesis
    using assms checkpoint_symbols [of hash "eng_dispatcher e" "eng_dispatcher f" blake3]
    by (auto simp: engine_checkpoint_def l3_checkpoint_def same_engine_def split: option.splits)
qed

lemma same_engine_new: "same_engine hash (l3_engine_new n) (l3_engine_with Mapping.empty)"
  by (simp add: same_engine_def l3_engine_new_def l3_engine_with_def split_over_new)

text \<open>
  Property C21. Neither the number of workers nor the hash that assigns symbols to them is
  observable: on every stream of messages two engines return the same results, message by
  message, and in the end the same checkpoint.
\<close>

theorem worker_count_irrelevant:
  "fst (l3_stream (route hash) ms (l3_engine_new n)) = fst (l3_stream (route hash') ms (l3_engine_new n')) \<and>
   engine_checkpoint blake3 (snd (l3_stream (route hash) ms (l3_engine_new n))) =
     engine_checkpoint blake3 (snd (l3_stream (route hash') ms (l3_engine_new n')))"
proof -
  note a = stream_in_step [OF same_engine_new, of hash ms n] and b = stream_in_step [OF same_engine_new, of hash' ms n']
  show ?thesis using a b checkpoint_one [OF conjunct2 [OF a], of blake3] checkpoint_one [OF conjunct2 [OF b], of blake3] by simp
qed

section \<open>Decoding what is encoded\<close>

text \<open>
  An encoded level-3 event is decoded to itself, whatever stands in the gaps of the
  header and behind the event; a message of another kind is skipped or refused by the policy; a
  message that is cut short is refused under both policies.
\<close>

lemma l3_decode_round_trip:
  assumes "gaps_ok g" "bh_book_mode h = 1" "bh_event_type h = 2" "bh_record_len h = 128"
  shows "decode_l3_message (new_msg seq ts 0x1000 (book_event_header_bytes g h @ l3_event_bytes ev @ rest)) policy =
      Inr (Some \<lparr>lm_header = h, lm_event = ev\<rparr>) \<and>
    (t \<noteq> 0x1000 \<longrightarrow> decode_l3_message (new_msg seq ts t p) SkipNonL3 = Inr None \<and> (\<exists>e. decode_l3_message (new_msg seq ts t p) Fail_Decode = Inl e)) \<and>
    (k < 128 \<longrightarrow> (\<exists>e. decode_l3_message (new_msg seq ts 0x1000 (take k (book_event_header_bytes g h @ l3_event_bytes ev))) policy = Inl e))"
proof -
  let ?hb = "book_event_header_bytes g h" and ?eb = "l3_event_bytes ev"
  have len: "length ?hb = 64" "length ?eb = 64" using header_bytes(1) [OF assms(1)] l3_event_pod.length_to by simp_all
  have rh: "read_header (?hb @ x) 0 = Some h" for x using read_header_back [OF assms(1), of "[]" h x] by simp
  have re: "read_l3_event (?hb @ ?eb @ rest) 64 = Some ev" using l3_event_pod.read_back [of ?hb ev rest] len by simp
  have "\<exists>e. decode_l3_message (new_msg seq ts 0x1000 (take k (?hb @ ?eb))) policy = Inl e" if "k < 128"
  proof (cases "k < 64")
    case True
    then show ?thesis using len by (simp add: decode_l3_message_def read_copy_def Let_def)
  next
    case False
    then have "take k (?hb @ ?eb) = ?hb @ take (k - 64) ?eb" using len by simp
    then show ?thesis using rh [of "take (k - 64) ?eb"] that len assms(2-4) by (simp add: decode_l3_message_def Let_def)
  qed
  then show ?thesis using rh re len assms(2-4) by (simp add: decode_l3_message_def Let_def not_l3_def)
qed

end
