(* ===== verification/Time_Series.thy ===== *)
theory Time_Series
  imports Log Seek_Index
begin

text \<open>
  \<^verbatim>\<open>src/src/table/log.rs\<close>: a log whose segments have an index of times. The writer keeps an index
  builder next to a log writer; the reader uses the indexes to seek to a time. What \<open>elapsed\<close>
  observes at an append, and the standard library's binary search, which may return any one of
  several matches, are arguments.
\<close>

section \<open>The writer\<close>

record ts_writer =
  tw_dir :: path
  tw_writer :: log_writer
  tw_index :: seek_index_builder
  tw_segment_size :: nat

type_synonym 'a tw_io = "(ts_writer \<times> fs, 'a) io"

definition on_log :: "'a lw_io \<Rightarrow> 'a tw_io" where
  "on_log m = (\<lambda>(t, s). case m (tw_writer t, s) of (r, l, s') \<Rightarrow> (r, t\<lparr>tw_writer := l\<rparr>, s'))"

definition ts_open :: "path \<Rightarrow> nat \<Rightarrow> nat \<Rightarrow> (fs, ts_writer) io" where
  "ts_open dir segment_size index_stride =
     bind (log_open dir segment_size) (\<lambda>l.
     ret \<lparr>tw_dir = dir, tw_writer = l, tw_index = sb_new 0 segment_size 64 index_stride, tw_segment_size = segment_size\<rparr>)"

definition flush_ts_index :: "unit tw_io" where
  "flush_ts_index = bind (get fst) (\<lambda>t. on_fs (sb_flush (tw_dir t) (tw_index t)))"

definition ts_record_len :: "nat \<Rightarrow> nat" where
  "ts_record_len n = 64 + ((HEADER_SIZE + n + 64 - 1) div 64 * 64 - 64)"

definition ts_append :: "crc_fun \<Rightarrow> bool \<Rightarrow> bool \<Rightarrow> u16 \<Rightarrow> u64 \<Rightarrow> bytes \<Rightarrow> unit tw_io" where
  "ts_append crc renameat2_ok elapsed type_id timestamp_ns payload =
     bind (get fst) (\<lambda>t0.
     let seq = sw_seq (lw_writer (tw_writer t0));
         offset = sw_write_offset (lw_writer (tw_writer t0));
         segment_id = sw_segment_id (lw_writer (tw_writer t0));
         rlen = ts_record_len (length payload);
         will_roll = (offset + rlen > tw_segment_size t0)
     in bind (if will_roll then flush_ts_index else ret ()) (\<lambda>_.
        bind (on_log (log_append crc renameat2_ok type_id timestamp_ns payload)) (\<lambda>_.
        bind (if will_roll
              then upd (\<lambda>t. t\<lparr>tw_index := sb_reset (sw_segment_id (lw_writer (tw_writer t))) (tw_segment_size t) (tw_index t)\<rparr>)
              else ret ()) (\<lambda>_.
        bind (upd (\<lambda>t. t\<lparr>tw_index :=
               observe seq timestamp_ns
                 (word_of_nat (if sw_segment_id (lw_writer (tw_writer t)) \<noteq> segment_id then sw_write_offset (lw_writer (tw_writer t)) - rlen else offset))
                 (tw_index t)\<rparr>)) (\<lambda>_.
        if elapsed then flush_ts_index else ret ())))))"

definition ts_finish :: "bool \<Rightarrow> unit tw_io" where
  "ts_finish renameat2_ok = bind flush_ts_index (\<lambda>_. on_log (log_finish renameat2_ok))"

section \<open>The reader\<close>

datatype seek_result = Found | EndOfLog | BeforeStart

text \<open>The cursor and the payload buffer are those of a log reader, and \<open>next\<close> reads as that of the log does.\<close>

record ts_reader =
  tr_dir :: path
  tr_reader :: log_reader
  tr_segments :: "nat list"
  tr_current_segment_idx :: nat

definition ts_reader_open :: "path \<Rightarrow> (fs, ts_reader) io" where
  "ts_reader_open dir =
     bind (log_reader_open dir) (\<lambda>r.
     ret \<lparr>tr_dir = dir, tr_reader = r, tr_segments = sc_segments (lr_cursor r), tr_current_segment_idx = 0\<rparr>)"

definition ts_next :: "crc_fun \<Rightarrow> fs \<Rightarrow> ts_reader \<Rightarrow> message option result \<times> ts_reader" where
  "ts_next crc s r = (case log_next crc s (tr_reader r) of (res, l) \<Rightarrow> (res, r\<lparr>tr_reader := l\<rparr>))"

definition dummy_header :: "nat \<Rightarrow> seek_index_header" where
  "dummy_header segment_id =
     \<lparr>ih_magic = INDEX_MAGIC, ih_version = INDEX_VERSION, ih_header_len = INDEX_HEADER_LEN, ih_flags = 0,
      ih_segment_id = word_of_nat segment_id, ih_segment_size = word_of_nat DEFAULT_SEGMENT_SIZE, ih_data_offset = 64,
      ih_entry_stride = word_of_nat DEFAULT_INDEX_STRIDE_RECORDS, ih_min_seq = 0, ih_max_seq = - 1, ih_min_ts_ns = 0, ih_max_ts_ns = - 1,
      ih_entry_count = 0\<rparr>"

text \<open>The loop over the segments; \<open>best\<close> is \<open>target_segment\<close>, and the flag says that the target lies before the first segment.\<close>

fun find_segment :: "path \<Rightarrow> fs \<Rightarrow> u64 \<Rightarrow> nat list \<Rightarrow> (nat \<times> seek_index_header) option \<Rightarrow> ((nat \<times> seek_index_header) option \<times> bool) result" where
  "find_segment dir s target [] best = Inr (best, False)"
| "find_segment dir s target (i # is) best =
     (case fst (load_index_header dir i s) of
        Inl e \<Rightarrow> Inl e
      | Inr None \<Rightarrow> Inr (Some (i, dummy_header i), False)
      | Inr (Some header) \<Rightarrow>
          if target < ih_min_ts_ns header then
            (case best of None \<Rightarrow> Inr (Some (i, header), True) | Some _ \<Rightarrow> Inr (best, False))
          else if target \<le> ih_max_ts_ns header then Inr (Some (i, header), False)
          else find_segment dir s target is (Some (i, header)))"

type_synonym 'a tr_io = "ts_reader \<Rightarrow> 'a result \<times> ts_reader"

definition with_cursor :: "(segment_cursor \<Rightarrow> 'a result \<times> segment_cursor) \<Rightarrow> 'a tr_io" where
  "with_cursor m = (\<lambda>r. case m (lr_cursor (tr_reader r)) of (res, c) \<Rightarrow> (res, r\<lparr>tr_reader := (tr_reader r)\<lparr>lr_cursor := c\<rparr>\<rparr>))"

text \<open>Each record that the scan passes brings the cursor nearer to the end.\<close>

definition sc_left :: "segment_cursor \<Rightarrow> nat \<times> nat" where
  "sc_left c = (length (sc_segments c) - sc_idx c, case sc_mmap c of None \<Rightarrow> u64_max + 1 | Some m \<Rightarrow> u64_max - sc_offset c)"

abbreviation sc_order :: "(segment_cursor \<times> segment_cursor) set" where
  "sc_order \<equiv> inv_image (less_than <*lex*> less_than) sc_left"

lemma header_at_len: "header_at bs off = Inr (Some (r, rlen)) \<Longrightarrow> 0 < rlen"
  using record_len_eq by (auto simp: header_at_def rbind_def Let_def split: if_splits sum.splits)

lemma next_header_exhausted: "sc_mmap c = None \<Longrightarrow> length (sc_segments c) \<le> sc_idx c \<Longrightarrow> next_header s c = (Inr None, c)"
  by (subst next_header.simps) (simp add: load_next_segment.simps)

lemma next_header_progress:
  assumes "next_header s c = (Inr (Some r), c')"
  shows "(c', c) \<in> sc_order"
  using assms
proof (induction s c rule: next_header.induct)
  case (1 s c)
  obtain res1 c1 where st: "(case sc_mmap c of Some _ \<Rightarrow> (Inr True, c) | None \<Rightarrow> load_next_segment s c) = (res1, c1)" by fastforce
  have seg: "sc_segments c1 = sc_segments c" "sc_idx c \<le> sc_idx c1" "sc_mmap c \<noteq> None \<Longrightarrow> c1 = c" "sc_mmap c = None \<Longrightarrow> res1 = Inr True \<Longrightarrow> sc_idx c1 < length (sc_segments c)"
    using st load_next_segment_props [of s c res1 c1] by (auto split: option.splits)
  obtain m where m: "res1 = Inr True" "sc_mmap c1 = Some m"
    using 1(2) st by (subst (asm) next_header.simps) (auto split: sum.splits if_splits option.splits)
  consider "header_at (as_slice m s) (sc_offset c1) = Inr None" "next_header s (advance_segment c1) = (Inr (Some r), c')"
    | rlen off where "header_at (as_slice m s) (sc_offset c1) = Inr (Some (r, rlen))" "checked_add64 (sc_offset c1) rlen = Some off" "c' = c1\<lparr>sc_offset := off\<rparr>"
    using 1(2) st m by (subst (asm) next_header.simps) (auto split: sum.splits if_splits option.splits)
  then show ?case
  proof cases
    case h: 1
    have "(c', advance_segment c1) \<in> sc_order" using "1.IH" [OF st [symmetric] m(1) _ m(2) h(1) refl h(2)] by simp
    moreover have "sc_idx c1 < length (sc_segments c)"
      using next_header_exhausted [of "advance_segment c1" s] h(2) seg(1) by (fastforce simp: advance_segment_def)
    ultimately show ?thesis using seg(1,2) by (auto simp: sc_left_def advance_segment_def)
  next
    case 2
    have "0 < rlen" using header_at_len [OF 2(1)] .
    then show ?thesis using 2(2,3) seg m by (cases "sc_mmap c") (auto simp: sc_left_def checked_add64_def split: if_splits)
  qed
qed

function linear_scan :: "fs \<Rightarrow> u64 \<Rightarrow> segment_cursor \<Rightarrow> seek_result result \<times> segment_cursor" where
  "linear_scan s target c =
     (case next_header s c of
        (Inl e, c') \<Rightarrow> (Inl e, c')
      | (Inr None, c') \<Rightarrow> (Inr EndOfLog, c')
      | (Inr (Some r), c') \<Rightarrow>
          if mr_timestamp_ns r \<ge> target then
            (case current_segment_id c' of
               None \<Rightarrow> (Inl (Panic ''unwrap on None''), c')
             | Some i \<Rightarrow>
                 (case sc_seek_segment s i (mr_payload_offset r - HEADER_SIZE) c' of
                    (Inl e, c'') \<Rightarrow> (Inl e, c'')
                  | (Inr _, c'') \<Rightarrow> (Inr Found, c'')))
          else linear_scan s target c')"
  by pat_completeness auto
termination
proof (relation "inv_image sc_order (\<lambda>(s, target, c). c)", goal_cases)
  case 1
  show ?case by (intro wf_inv_image wf_lex_prod wf_less_than)
next
  case (2 s target c x c' y r)
  then show ?case using next_header_progress [of s c r c'] by simp
qed

declare linear_scan.simps [simp del]

text \<open>\<open>Ok i\<close> and \<open>Err i\<close> of the binary search.\<close>

datatype search_result = Match nat | Gap nat

type_synonym search_fun = "u64 list \<Rightarrow> u64 \<Rightarrow> search_result"

definition entry_index :: "search_fun \<Rightarrow> seek_index_entry list \<Rightarrow> u64 \<Rightarrow> nat" where
  "entry_index bsearch es target =
     (case bsearch (map ie_timestamp_ns es) target of Match i \<Rightarrow> i | Gap 0 \<Rightarrow> 0 | Gap (Suc i) \<Rightarrow> i)"

definition seek_and_scan :: "fs \<Rightarrow> u64 \<Rightarrow> nat \<Rightarrow> nat \<Rightarrow> seek_result tr_io" where
  "seek_and_scan s target segment_id offset = (\<lambda>r.
     case with_cursor (sc_seek_segment s segment_id offset) r of
       (Inl e, r') \<Rightarrow> (Inl e, r')
     | (Inr _, r') \<Rightarrow>
         with_cursor (linear_scan s target)
           (r'\<lparr>tr_current_segment_idx := (case position (tr_segments r') segment_id of None \<Rightarrow> 0 | Some k \<Rightarrow> k)\<rparr>))"

definition ts_seek_timestamp :: "search_fun \<Rightarrow> fs \<Rightarrow> u64 \<Rightarrow> seek_result tr_io" where
  "ts_seek_timestamp bsearch s target = (\<lambda>r.
     if tr_segments r = [] then (Inr EndOfLog, r)
     else case find_segment (tr_dir r) s target (tr_segments r) None of
            Inl e \<Rightarrow> (Inl e, r)
          | Inr (None, _) \<Rightarrow> (Inr EndOfLog, r)
          | Inr (Some (segment_id, header), before_first) \<Rightarrow>
              if before_first then
                (case with_cursor (sc_seek_segment s segment_id SEG_DATA_OFFSET) r of
                   (Inl e, r') \<Rightarrow> (Inl e, r')
                 | (Inr _, r') \<Rightarrow> (Inr BeforeStart, r'\<lparr>tr_current_segment_idx := 0\<rparr>))
              else (case (if ih_entry_count header > 0 then fst (load_index_entries (tr_dir r) header s) else Inr []) of
                      Inl e \<Rightarrow> (Inl e, r)
                    | Inr [] \<Rightarrow> seek_and_scan s target segment_id SEG_DATA_OFFSET r
                    | Inr es \<Rightarrow> seek_and_scan s target segment_id (unat (ie_offset (es ! entry_index bsearch es target))) r))"

definition ts_seek_segment :: "fs \<Rightarrow> nat \<Rightarrow> unit tr_io" where
  "ts_seek_segment s segment_id = with_cursor (sc_seek_segment s segment_id SEG_DATA_OFFSET)"

section \<open>Moving the cursor\<close>

text \<open>A cursor whose map is that of the file now in the directory.\<close>

definition sc_fixed :: "fs \<Rightarrow> segment_cursor \<Rightarrow> bool" where
  "sc_fixed s c \<longleftrightarrow> (\<forall>m. sc_mmap c = Some m \<longrightarrow> sc_idx c < length (sc_segments c) \<and>
     path_exists s (segment_path (sc_dir c) (sc_segments c ! sc_idx c)) \<and>
     fst (open_segment (sc_dir c) (sc_segments c ! sc_idx c) (sc_segment_size c) s) = Inr m)"

abbreviation same_cursor :: "segment_cursor \<Rightarrow> segment_cursor \<Rightarrow> bool" where
  "same_cursor c c' \<equiv> sc_segments c' = sc_segments c \<and> sc_dir c' = sc_dir c \<and> sc_segment_size c' = sc_segment_size c"

lemma load_next_segment_fixed:
  "load_next_segment s c = (res, c') \<Longrightarrow> sc_mmap c = None \<Longrightarrow> sc_fixed s c' \<and> same_cursor c c'"
proof (induction s c rule: load_next_segment.induct)
  case (1 s c)
  let ?i = "sc_segments c ! sc_idx c"
  consider "c' = c" | m where "sc_idx c < length (sc_segments c)" "path_exists s (segment_path (sc_dir c) ?i)"
      "fst (open_segment (sc_dir c) ?i (sc_segment_size c) s) = Inr m" "c' = c\<lparr>sc_mmap := Some m\<rparr>"
    | "\<not> length (sc_segments c) \<le> sc_idx c" "\<not> path_exists s (segment_path (sc_dir c) ?i)"
      "load_next_segment s (c\<lparr>sc_idx := sc_idx c + 1, sc_offset := SEG_DATA_OFFSET\<rparr>) = (res, c')"
    using 1(2) by (subst (asm) load_next_segment.simps) (auto simp: Let_def split: if_splits sum.splits)
  then show ?case
  proof cases
    case 3
    then show ?thesis using "1.IH" [OF 3(1) refl 3(2,3)] 1(3) by simp
  qed (use 1(3) in \<open>simp_all add: sc_fixed_def\<close>)
qed

lemma next_header_fixed:
  assumes "next_header s c = (res, c')" "sc_fixed s c"
  shows "sc_fixed s c' \<and> same_cursor c c'"
  using assms
proof (induction s c rule: next_header.induct)
  case (1 s c)
  obtain res1 c1 where st: "(case sc_mmap c of Some _ \<Rightarrow> (Inr True, c) | None \<Rightarrow> load_next_segment s c) = (res1, c1)" by fastforce
  have f: "sc_fixed s c1 \<and> same_cursor c c1"
  proof (cases "sc_mmap c")
    case None
    then show ?thesis using st load_next_segment_fixed [of s c res1 c1] by simp
  qed (use st 1(3) in simp)
  then have ad: "sc_fixed s (advance_segment c1)" "same_cursor c (advance_segment c1)" by (simp_all add: sc_fixed_def advance_segment_def)
  consider "c' = c1" | off where "c' = c1\<lparr>sc_offset := off\<rparr>"
    | m where "res1 = Inr True" "sc_mmap c1 = Some m" "header_at (as_slice m s) (sc_offset c1) = Inr None" "next_header s (advance_segment c1) = (res, c')"
    using 1(2) st by (subst (asm) next_header.simps) (auto split: sum.splits if_splits option.splits)
  then show ?case
  proof cases
    case 2
    have "sc_fixed s (c1\<lparr>sc_offset := off\<rparr>) = sc_fixed s c1" by (simp add: sc_fixed_def)
    then show ?thesis using f 2 by simp
  next
    case 3
    then show ?thesis using "1.IH" [OF st [symmetric] 3(1) _ 3(2,3) refl 3(4) ad(1)] ad(2) by simp
  qed (use f in simp)
qed

lemma position_nth: "distinct xs \<Longrightarrow> k < length xs \<Longrightarrow> position xs (xs ! k) = Some k"
  by (induction xs arbitrary: k) (auto simp: nth_Cons' split: if_splits)

text \<open>Back to a record that the cursor has just passed.\<close>

lemma seek_back:
  assumes "sc_fixed s c" "sc_mmap c = Some m" "distinct (sc_segments c)"
  shows "\<exists>i. current_segment_id c = Some i \<and> sc_seek_segment s i off c = (Inr (), c\<lparr>sc_offset := off\<rparr>)"
proof -
  let ?i = "sc_segments c ! sc_idx c"
  have f: "sc_idx c < length (sc_segments c)" "path_exists s (segment_path (sc_dir c) ?i)"
    "fst (open_segment (sc_dir c) ?i (sc_segment_size c) s) = Inr m" using assms(1,2) by (simp_all add: sc_fixed_def)
  then have "load_next_segment s (c\<lparr>sc_mmap := None, sc_offset := off\<rparr>) = (Inr True, c\<lparr>sc_offset := off\<rparr>)"
    using assms(2) by (simp add: load_next_segment.simps)
  then show ?thesis using f(1) position_nth [OF assms(3) f(1)] by (simp add: current_segment_id_def sc_seek_segment_def)
qed

text \<open>To a record of a segment.\<close>

lemma seek_to_record:
  assumes "sc_pending crc s L c any" "distinct (map fst L)" "k < length L" "L ! k = (i, ms)" "seg_file crc s (sc_dir c) (sc_segment_size c) i ms"
    and "j \<le> length ms"
  shows "\<exists>c'. sc_seek_segment s i (64 + entries_len (map Msg (take j ms))) c = (Inr (), c') \<and>
    sc_pending crc s L c' (drop j ms @ concat (map snd (drop (Suc k) L))) \<and> sc_fixed s c' \<and> same_cursor c c'"
proof -
  let ?off = "64 + entries_len (map Msg (take j ms))"
  have sg: "sc_segments c = map fst L" "sc_segment_size c + 64 \<le> u64_max" "\<forall>p \<in> set L. seg_avail crc s (sc_dir c) (sc_segment_size c) p"
    using assms(1) by (simp_all add: sc_pending_def)
  have pos: "position (sc_segments c) i = Some k" using position_nth [of "map fst L" k] assms(2-4) sg(1) by simp
  obtain m e where m: "path_exists s (segment_path (sc_dir c) i)" "open_segment (sc_dir c) i (sc_segment_size c) s = (Inr m, s)" "mm_ok m s"
    "mm_len m = sc_segment_size c" "64 \<le> sc_segment_size c" "chain crc (fs_data s (mm_ino m)) 64 (map Msg ms) e" "zeros_from (fs_data s (mm_ino m)) e"
    using seg_file_open [OF assms(5)] sg(2) by auto
  let ?c = "c\<lparr>sc_idx := k, sc_mmap := Some m, sc_offset := ?off\<rparr>"
  have "load_next_segment s (c\<lparr>sc_idx := k, sc_mmap := None, sc_offset := ?off\<rparr>) = (Inr True, ?c)"
    using m(1,2) sg(1) assms(3,4) by (simp add: load_next_segment.simps)
  then have sk: "sc_seek_segment s i ?off c = (Inr (), ?c)" using pos by (simp add: sc_seek_segment_def)
  have "map Msg ms = map Msg (take j ms) @ map Msg (drop j ms)" by (metis append_take_drop_id map_append)
  then obtain x where x: "chain crc (fs_data s (mm_ino m)) 64 (map Msg (take j ms)) x" "chain crc (fs_data s (mm_ino m)) x (map Msg (drop j ms)) e"
    using m(6) chain_append by metis
  have "x = ?off" using chain_end [OF x(1)] .
  moreover have "x \<le> sc_segment_size c" using chain_bound [OF x(1)] m(3-5) by (simp add: mm_ok_def)
  ultimately have "sc_pending crc s L ?c (drop j ms @ concat (map snd (drop (Suc k) L)))"
    using sg m(3,4,7) x(2) by (auto simp: sc_pending_def)
  moreover have "sc_fixed s ?c" using m(1,2) sg(1) assms(3,4) by (simp add: sc_fixed_def)
  ultimately show ?thesis using sk by auto
qed

lemma linear_scan_ok:
  assumes "sc_pending crc s L c ms" "sc_fixed s c" "distinct (sc_segments c)"
  shows "\<exists>c'. linear_scan s t c = (Inr (if \<exists>m \<in> set ms. t \<le> msg_timestamp_ns m then Found else EndOfLog), c') \<and>
    sc_pending crc s L c' (dropWhile (\<lambda>m. msg_timestamp_ns m < t) ms) \<and> same_cursor c c'"
  using assms
proof (induction ms arbitrary: c)
  case Nil
  obtain c' where "next_header s c = (Inr None, c')" "sc_pending crc s L c' []" using next_header_pending [OF Nil(1)] by auto
  then show ?case using next_header_fixed [of s c] Nil(2) by (auto simp: linear_scan.simps [of s t c])
next
  case (Cons m ms)
  obtain r c1 where n: "next_header s c = (Inr (Some r), c1)" "ref_of crc s c1 r m" "sc_pending crc s L c1 ms"
    "sc_pending crc s L (c1\<lparr>sc_offset := mr_payload_offset r - 64\<rparr>) (m # ms)"
    using next_header_pending [OF Cons.prems(1)] by auto
  have f: "sc_fixed s c1" "same_cursor c c1" using next_header_fixed [OF n(1) Cons.prems(2)] by simp_all
  have ts: "mr_timestamp_ns r = msg_timestamp_ns m" using n(2) by (simp add: ref_of_def)
  show ?case
  proof (cases "t \<le> msg_timestamp_ns m")
    case True
    obtain mm where mm: "sc_mmap c1 = Some mm"
      using n(2) by (auto simp: ref_of_def read_payload_def split: option.splits if_splits dest: spec [of _ "replicate (mr_payload_len r) 0"])
    obtain i where "current_segment_id c1 = Some i" "sc_seek_segment s i (mr_payload_offset r - 64) c1 = (Inr (), c1\<lparr>sc_offset := mr_payload_offset r - 64\<rparr>)"
      using seek_back [OF f(1) mm] Cons.prems(3) f(2) by auto
    then have "linear_scan s t c = (Inr Found, c1\<lparr>sc_offset := mr_payload_offset r - 64\<rparr>)"
      using n(1) ts True by (simp add: linear_scan.simps [of s t c])
    then show ?thesis using n(4) True f(2) by (auto simp: not_less)
  next
    case False
    then have "linear_scan s t c = linear_scan s t c1" using n(1) ts by (simp add: linear_scan.simps [of s t c])
    moreover have "(\<exists>x \<in> set (m # ms). t \<le> msg_timestamp_ns x) = (\<exists>x \<in> set ms. t \<le> msg_timestamp_ns x)"
      "dropWhile (\<lambda>m. msg_timestamp_ns m < t) (m # ms) = dropWhile (\<lambda>m. msg_timestamp_ns m < t) ms" using False by simp_all
    ultimately show ?thesis using Cons.IH [OF n(3) f(1)] Cons.prems(3) f(2) by simp
  qed
qed

end
