(* ===== verification/Time_Seek.thy ===== *)
theory Time_Seek
  imports Time_Series
begin

text \<open>
  What the time-series log of \<^verbatim>\<open>src/src/table/log.rs\<close> promises: a seek lands on the first message
  at or after a time, whichever of the indexes are there, and the indexes that a session of
  the writer leaves behind are such that this holds.
\<close>

section \<open>Seeking to a time\<close>

text \<open>
  The index file of a segment, when there is one: the header has the times of the first and the
  last message, the entries those of some of the messages, the first one among them, with the
  offsets of their records.
\<close>

definition header_of :: "path \<Rightarrow> fs \<Rightarrow> message list \<Rightarrow> seek_index_header \<Rightarrow> bool" where
  "header_of dir s ms h \<longleftrightarrow> ih_min_ts_ns h = msg_timestamp_ns (hd ms) \<and> ih_max_ts_ns h = msg_timestamp_ns (last ms) \<and> 0 < ih_entry_count h \<and>
     (\<exists>ks es. fst (load_index_entries dir h s) = Inr es \<and> ks \<noteq> [] \<and> hd ks = 0 \<and> sorted_wrt (<) ks \<and> (\<forall>k \<in> set ks. k < length ms) \<and>
        map ie_timestamp_ns es = map (\<lambda>k. msg_timestamp_ns (ms ! k)) ks \<and>
        map (unat \<circ> ie_offset) es = map (\<lambda>k. 64 + entries_len (map Msg (take k ms))) ks)"

definition index_ok :: "path \<Rightarrow> fs \<Rightarrow> nat \<times> message list \<Rightarrow> bool" where
  "index_ok dir s = (\<lambda>(i, ms). fst (load_index_header dir i s) = Inr None \<or>
     (\<exists>h. fst (load_index_header dir i s) = Inr (Some h) \<and> header_of dir s ms h))"

text \<open>What \<open>binary_search_by_key\<close> promises of a sorted slice.\<close>

definition search_ok :: "search_fun \<Rightarrow> bool" where
  "search_ok bsearch \<longleftrightarrow> (\<forall>xs t. sorted xs \<longrightarrow>
     (case bsearch xs t of
        Match i \<Rightarrow> i < length xs \<and> xs ! i = t
      | Gap i \<Rightarrow> i \<le> length xs \<and> (\<forall>j < i. xs ! j < t) \<and> (\<forall>j < length xs. i \<le> j \<longrightarrow> t < xs ! j)))"

abbreviation times :: "message list \<Rightarrow> u64 list" where
  "times ms \<equiv> map msg_timestamp_ns ms"

abbreviation before :: "u64 \<Rightarrow> message list \<Rightarrow> bool" where
  "before t ms \<equiv> \<forall>m \<in> set ms. msg_timestamp_ns m < t"

lemma entry_index_ok:
  assumes "search_ok bsearch" "sorted_wrt (<) (times ms)" "ks \<noteq> []" "hd ks = 0" "sorted_wrt (<) ks" "\<forall>k \<in> set ks. k < length ms"
    and es: "map ie_timestamp_ns es = map (\<lambda>k. msg_timestamp_ns (ms ! k)) ks"
  shows "entry_index bsearch es t < length ks \<and> before t (take (ks ! entry_index bsearch es t) ms)"
proof -
  let ?xs = "map (\<lambda>k. msg_timestamp_ns (ms ! k)) ks"
  have lt: "msg_timestamp_ns (ms ! a) < msg_timestamp_ns (ms ! b)" if "a < b" "b < length ms" for a b
    using assms(2) that by (simp add: sorted_wrt_iff_nth_less)
  have "sorted_wrt (\<le>) ?xs" using assms(5,6) lt by (auto simp: sorted_wrt_iff_nth_less intro!: less_imp_le)
  then have b: "case bsearch ?xs t of Match i \<Rightarrow> i < length ks \<and> ?xs ! i = t | Gap i \<Rightarrow> i \<le> length ks \<and> (\<forall>j < i. ?xs ! j < t)"
    using assms(1) unfolding search_ok_def by (fastforce split: search_result.splits)
  have up: "before t (take (ks ! i) ms)" if "i < length ks" "?xs ! i \<le> t" for i
  proof
    fix m assume "m \<in> set (take (ks ! i) ms)"
    then obtain a where "a < ks ! i" "m = ms ! a" by (auto simp: in_set_conv_nth)
    then show "msg_timestamp_ns m < t" using lt [of a "ks ! i"] that assms(6) by (auto dest: order_less_le_trans)
  qed
  show ?thesis
  proof (cases "bsearch ?xs t")
    case (Match i)
    then show ?thesis using b up [of i] es by (simp add: entry_index_def)
  next
    case (Gap i)
    then show ?thesis using b up [of "i - 1"] es assms(3,4) by (cases i) (auto simp: entry_index_def hd_conv_nth less_imp_le)
  qed
qed

lemma times_from:
  assumes "sorted_wrt (<) (times (m # ms))" "t < msg_timestamp_ns m" "x \<in> set (m # ms)"
  shows "t \<le> msg_timestamp_ns x"
  using assms by (auto dest: order_less_trans intro: less_imp_le)

lemma find_segment_ok:
  assumes "\<forall>p \<in> set (A @ B). index_ok dir s p \<and> snd p \<noteq> []" "sorted_wrt (<) (times (concat (map snd (A @ B))))" "A @ B \<noteq> []"
    and "before t (concat (map snd A))" "if A = [] then best = None else \<exists>h. best = Some (fst (last A), h) \<and> header_of dir s (snd (last A)) h"
  shows "\<exists>C i ms D h first. A @ B = C @ (i, ms) # D \<and> find_segment dir s t (map fst B) best = Inr (Some (i, h), first) \<and>
    before t (concat (map snd C)) \<and> (h = dummy_header i \<or> header_of dir s ms h) \<and>
    (first \<longrightarrow> C = [] \<and> (\<forall>m \<in> set (concat (map snd (A @ B))). t \<le> msg_timestamp_ns m))"
  using assms
proof (induction B arbitrary: A best)
  case Nil
  then have "A = butlast A @ [last A]" by simp
  moreover obtain h where "best = Some (fst (last A), h)" "header_of dir s (snd (last A)) h" using Nil(3,5) by auto
  moreover have "before t (concat (map snd (butlast A)))" using Nil(4) by (auto dest!: in_set_butlastD)
  ultimately show ?case by (metis append_Nil2 find_segment.simps(1) list.simps(8) prod.collapse)
next
  case (Cons p B)
  obtain i ms where p: "p = (i, ms)" by fastforce
  have ms: "index_ok dir s (i, ms)" "ms \<noteq> []" "sorted_wrt (<) (times ms)"
    using Cons.prems(1,2) p by (auto simp: sorted_wrt_append)
  show ?case
  proof (cases "fst (load_index_header dir i s)")
    case (Inl e)
    then show ?thesis using ms(1) by (simp add: index_ok_def)
  next
    case (Inr ho)
    show ?thesis
    proof (cases ho)
      case None
      then show ?thesis using Inr Cons.prems(4) p by auto
    next
      case (Some h)
      then have h: "header_of dir s ms h" using ms(1) Inr by (simp add: index_ok_def)
      consider "t < ih_min_ts_ns h" "A = []" | "t < ih_min_ts_ns h" "A \<noteq> []" | "\<not> t < ih_min_ts_ns h" "t \<le> ih_max_ts_ns h" | "\<not> t < ih_min_ts_ns h" "ih_max_ts_ns h < t"
        by fastforce
      then show ?thesis
      proof cases
        case 1
        obtain m us where us: "ms = m # us" using ms(2) by (cases ms) simp_all
        then have "t < msg_timestamp_ns m" using 1(1) h by (simp add: header_of_def)
        then have "\<forall>x \<in> set (concat (map snd (A @ p # B))). t \<le> msg_timestamp_ns x"
          using times_from [of m "us @ concat (map snd B)" t] Cons.prems(2) 1(2) p us by simp
        moreover have "find_segment dir s t (map fst (p # B)) best = Inr (Some (i, h), True)" using 1 Inr Some p Cons.prems(5) by simp
        ultimately show ?thesis using 1(2) p h by (intro exI [of _ "[]"] exI [of _ i] exI [of _ ms] exI [of _ B] exI [of _ h] exI [of _ True]) simp
      next
        case 2
        then obtain h' where b: "best = Some (fst (last A), h')" "header_of dir s (snd (last A)) h'" using Cons.prems(5) by auto
        have "A @ p # B = butlast A @ (fst (last A), snd (last A)) # p # B" using 2 by simp
        moreover have "before t (concat (map snd (butlast A)))" using Cons.prems(4) by (auto dest!: in_set_butlastD)
        ultimately show ?thesis using 2 Inr Some p b
          by (intro exI [of _ "butlast A"] exI [of _ "fst (last A)"] exI [of _ "snd (last A)"] exI [of _ "p # B"] exI [of _ h'] exI [of _ False]) simp
      next
        case 3
        then show ?thesis using Inr Some p Cons.prems(4) h by auto
      next
        case 4
        then have nle: "\<not> t \<le> ih_max_ts_ns h" by (simp add: not_le)
        have "before t ms" using ms(2,3) h 4
          by (cases ms rule: rev_cases) (auto simp: header_of_def sorted_wrt_append)
        then have "before t (concat (map snd (A @ [p])))" using Cons.prems(4) p by auto
        moreover have "find_segment dir s t (map fst (p # B)) best = find_segment dir s t (map fst B) (Some (i, h))"
          using 4(1) nle Inr Some p by simp
        ultimately show ?thesis using Cons.IH [of "A @ [p]" "Some (i, h)"] Cons.prems(1-3) p h by simp
      qed
    qed
  qed
qed

interpretation ts_src: record_source "\<lambda>r ms. sc_pending crc s L (lr_cursor (tr_reader r)) ms" "ts_next crc s" for crc s L
proof (unfold_locales, goal_cases)
  case (1 r)
  then show ?case using log_src.next_end [OF 1] by (auto simp: ts_next_def)
next
  case (2 r m ms)
  then show ?case using log_src.next_some [OF 2] by (auto simp: ts_next_def)
qed

text \<open>One seek and scan, and the whole of the seek, on a reader of a log.\<close>

lemma seek_and_scan_ok:
  assumes "sc_pending crc s L (lr_cursor (tr_reader r)) any" "distinct (map fst L)" "L = C @ (i, ms) # D"
    and "seg_file crc s (sc_dir (lr_cursor (tr_reader r))) (sc_segment_size (lr_cursor (tr_reader r))) i ms"
    and "before t (concat (map snd C))" "before t (take j ms)"
  shows "\<exists>r'. seek_and_scan s t i (64 + entries_len (map Msg (take j ms))) r =
      (Inr (if \<exists>m \<in> set (concat (map snd L)). t \<le> msg_timestamp_ns m then Found else EndOfLog), r') \<and>
    sc_pending crc s L (lr_cursor (tr_reader r')) (dropWhile (\<lambda>m. msg_timestamp_ns m < t) (concat (map snd L)))"
proof -
  let ?c = "lr_cursor (tr_reader r)" and ?off = "64 + entries_len (map Msg (take j ms))" and ?old = "concat (map snd C) @ take j ms"
  let ?rest = "drop j ms @ concat (map snd D)"
  have all: "concat (map snd L) = ?old @ ?rest" using assms(3) by simp
  have old: "before t ?old" using assms(5,6) by auto
  have len: "take (min j (length ms)) ms = take j ms" "drop (min j (length ms)) ms = drop j ms" by (simp_all add: min_def)
  obtain c1 where c1: "sc_seek_segment s i ?off ?c = (Inr (), c1)" "sc_pending crc s L c1 ?rest" "sc_fixed s c1" "same_cursor ?c c1"
    using seek_to_record [OF assms(1,2), of "length C" i ms "min j (length ms)"] assms(3,4) unfolding len by auto
  have "distinct (sc_segments c1)" using c1(2) assms(2) by (simp add: sc_pending_def)
  then obtain c2 where c2: "linear_scan s t c1 = (Inr (if \<exists>m \<in> set ?rest. t \<le> msg_timestamp_ns m then Found else EndOfLog), c2)"
    "sc_pending crc s L c2 (dropWhile (\<lambda>m. msg_timestamp_ns m < t) ?rest)"
    using linear_scan_ok [OF c1(2,3)] by blast
  have "(\<exists>m \<in> set (concat (map snd L)). t \<le> msg_timestamp_ns m) = (\<exists>m \<in> set ?rest. t \<le> msg_timestamp_ns m)"
    "dropWhile (\<lambda>m. msg_timestamp_ns m < t) (concat (map snd L)) = dropWhile (\<lambda>m. msg_timestamp_ns m < t) ?rest"
    unfolding all using old dropWhile_append2 [of ?old "\<lambda>m. msg_timestamp_ns m < t" ?rest] by (auto simp: not_less [symmetric])
  then show ?thesis using c1(1) c2 by (simp add: seek_and_scan_def with_cursor_def)
qed

lemma seek_timestamp_ok:
  assumes "sc_pending crc s L (lr_cursor (tr_reader r)) any" "distinct (map fst L)" "tr_segments r = map fst L" "L \<noteq> []"
    and "\<forall>p \<in> set L. seg_file crc s (sc_dir (lr_cursor (tr_reader r))) (sc_segment_size (lr_cursor (tr_reader r))) (fst p) (snd p)"
    and "\<forall>p \<in> set L. index_ok (tr_dir r) s p \<and> snd p \<noteq> []" "sorted_wrt (<) (times (concat (map snd L)))" "search_ok bsearch"
  shows "\<exists>res r'. ts_seek_timestamp bsearch s t r = (Inr res, r') \<and>
    (res = EndOfLog \<longleftrightarrow> before t (concat (map snd L))) \<and> (res = BeforeStart \<longrightarrow> (\<forall>m \<in> set (concat (map snd L)). t \<le> msg_timestamp_ns m)) \<and>
    sc_pending crc s L (lr_cursor (tr_reader r')) (dropWhile (\<lambda>m. msg_timestamp_ns m < t) (concat (map snd L)))"
proof -
  have "\<exists>C i ms D h first. L = C @ (i, ms) # D \<and> find_segment (tr_dir r) s t (map fst L) None = Inr (Some (i, h), first) \<and>
    before t (concat (map snd C)) \<and> (h = dummy_header i \<or> header_of (tr_dir r) s ms h) \<and>
    (first \<longrightarrow> C = [] \<and> (\<forall>m \<in> set (concat (map snd L)). t \<le> msg_timestamp_ns m))"
    using find_segment_ok [of "[]" L "tr_dir r" s t None] assms(4,6,7) unfolding append_Nil by simp
  then obtain C i ms D h first where f: "L = C @ (i, ms) # D" "find_segment (tr_dir r) s t (map fst L) None = Inr (Some (i, h), first)"
    "before t (concat (map snd C))" "h = dummy_header i \<or> header_of (tr_dir r) s ms h"
    "first \<longrightarrow> C = [] \<and> (\<forall>m \<in> set (concat (map snd L)). t \<le> msg_timestamp_ns m)"
    by blast
  have sf: "seg_file crc s (sc_dir (lr_cursor (tr_reader r))) (sc_segment_size (lr_cursor (tr_reader r))) i ms" "ms \<noteq> []" "sorted_wrt (<) (times ms)"
    using assms(5,6,7) f(1) by (auto simp: sorted_wrt_append)
  show ?thesis
  proof (cases first)
    case True
    then have C: "C = []" and ge: "\<forall>m \<in> set (concat (map snd L)). t \<le> msg_timestamp_ns m" using f(5) by simp_all
    obtain c where "sc_seek_segment s i 64 (lr_cursor (tr_reader r)) = (Inr (), c)" "sc_pending crc s L c (concat (map snd L))"
      using seek_to_record [OF assms(1,2), of 0 i ms 0] sf(1) f(1) C by auto
    moreover have "dropWhile (\<lambda>m. msg_timestamp_ns m < t) (concat (map snd L)) = concat (map snd L)"
      using ge hd_in_set [of "concat (map snd L)"] unfolding dropWhile_eq_self_iff by (meson not_less)
    moreover have "\<not> before t (concat (map snd L))" using ge sf(2) f(1) by (cases ms) fastforce+
    ultimately show ?thesis using f(2) True assms(3,4) ge by (simp add: ts_seek_timestamp_def with_cursor_def)
  next
    case False
    obtain j where j: "before t (take j ms)" "ts_seek_timestamp bsearch s t r = seek_and_scan s t i (64 + entries_len (map Msg (take j ms))) r"
    proof (cases "h = dummy_header i")
      case True
      then show ?thesis using that [of 0] f(2) False assms(3,4) by (simp add: ts_seek_timestamp_def dummy_header_def)
    next
      case nd: False
      then obtain ks es where e: "0 < ih_entry_count h" "fst (load_index_entries (tr_dir r) h s) = Inr es" "ks \<noteq> []" "hd ks = 0" "sorted_wrt (<) ks"
        "\<forall>k \<in> set ks. k < length ms" "map ie_timestamp_ns es = map (\<lambda>k. msg_timestamp_ns (ms ! k)) ks"
        "map (unat \<circ> ie_offset) es = map (\<lambda>k. 64 + entries_len (map Msg (take k ms))) ks"
        using f(4) by (auto simp: header_of_def)
      let ?i = "entry_index bsearch es t"
      have i: "?i < length ks" "before t (take (ks ! ?i) ms)" using entry_index_ok [OF assms(8) sf(3) e(3-7)] by auto
      have "length es = length ks" using arg_cong [OF e(8), of length] by simp
      then have es: "es \<noteq> []" and off: "unat (ie_offset (es ! ?i)) = 64 + entries_len (map Msg (take (ks ! ?i) ms))"
        using e(3) i(1) arg_cong [OF e(8), of "\<lambda>l. l ! ?i"] by auto
      then show ?thesis using that [OF i(2)] f(2) False assms(3,4) e(1,2) es
        by (cases es) (simp_all add: ts_seek_timestamp_def)
    qed
    have ex: "(\<exists>m \<in> set (concat (map snd L)). t \<le> msg_timestamp_ns m) = (\<not> before t (concat (map snd L)))" by (auto simp: not_less)
    show ?thesis using seek_and_scan_ok [OF assms(1,2) f(1) sf(1) f(3) j(1)] j(2) unfolding ex by (auto split: if_splits)
  qed
qed

lemma reader_starts:
  assumes "log_holds crc dir sz s L" "sz + 64 \<le> u64_max" "\<forall>i \<in> fst ` set L. i < 1000000000"
  shows "\<exists>r. ts_reader_open dir s = (Inr r, s) \<and> tr_dir r = dir \<and> tr_segments r = map fst L \<and>
    sc_dir (lr_cursor (tr_reader r)) = dir \<and> (L \<noteq> [] \<longrightarrow> sc_segment_size (lr_cursor (tr_reader r)) = sz) \<and>
    sc_pending crc s L (lr_cursor (tr_reader r)) (concat (map snd L))"
proof -
  let ?sz = "if L = [] then DEFAULT_SEGMENT_SIZE else sz"
  have "\<forall>p \<in> set L. seg_avail crc s dir ?sz p" using assms(1) by (auto simp: log_holds_def seg_avail_def)
  then have "sc_pending crc s L (sc_open dir (map fst L) ?sz) (concat (map snd L))" using sc_pending_open [of L crc s dir ?sz] assms(2) by auto
  then show ?thesis using log_reader_open_eq [OF assms(1,3)] by (simp add: ts_reader_open_def bind_ok ret_def sc_open_def)
qed

text \<open>The seek is exact, whichever of the indexes are missing.\<close>

lemma seek_exact:
  assumes "log_holds crc dir sz s L" "sz + 64 \<le> u64_max" "\<forall>i \<in> fst ` set L. i < 1000000000"
    and "\<forall>p \<in> set L. index_ok dir s p \<and> snd p \<noteq> []" "sorted_wrt (<) (map msg_timestamp_ns (concat (map snd L)))" "search_ok bsearch"
  shows "\<exists>r res r'. ts_reader_open dir s = (Inr r, s) \<and> ts_seek_timestamp bsearch s t r = (Inr res, r') \<and>
    (res = EndOfLog \<longleftrightarrow> (\<forall>m \<in> set (concat (map snd L)). msg_timestamp_ns m < t)) \<and>
    reads (ts_next crc s) r' (dropWhile (\<lambda>m. msg_timestamp_ns m < t) (concat (map snd L)))"
proof -
  obtain r where r: "ts_reader_open dir s = (Inr r, s)" "tr_dir r = dir" "tr_segments r = map fst L" "sc_dir (lr_cursor (tr_reader r)) = dir"
    "L \<noteq> [] \<longrightarrow> sc_segment_size (lr_cursor (tr_reader r)) = sz" "sc_pending crc s L (lr_cursor (tr_reader r)) (concat (map snd L))"
    using reader_starts [OF assms(1-3)] by blast
  show ?thesis
  proof (cases "L = []")
    case True
    then show ?thesis using r(1,3) ts_src.reads_pending [OF r(6)] by (simp add: ts_seek_timestamp_def)
  next
    case False
    have d: "distinct (map fst L)" and sf: "\<forall>p \<in> set L. seg_file crc s dir sz (fst p) (snd p)"
      using assms(1) by (auto simp: log_holds_def)
    obtain res r' where "ts_seek_timestamp bsearch s t r = (Inr res, r')" "res = EndOfLog \<longleftrightarrow> before t (concat (map snd L))"
      "sc_pending crc s L (lr_cursor (tr_reader r')) (dropWhile (\<lambda>m. msg_timestamp_ns m < t) (concat (map snd L)))"
      using seek_timestamp_ok [OF r(6) d r(3) False _ _ assms(5,6), of t] sf assms(4) r(2,4,5) False by auto
    then show ?thesis using r(1) ts_src.reads_pending by blast
  qed
qed

section \<open>The indexes that a session leaves\<close>

lemma ts_record_len_eq: "n \<le> MAX_PAYLOAD_LEN \<Longrightarrow> ts_record_len n = record_len n"
proof -
  assume "n \<le> MAX_PAYLOAD_LEN"
  then have "record_len n = 64 + (n + 63) div 64 * 64" by (intro record_len_eq) simp
  moreover have "(HEADER_SIZE + n + 64 - 1) div 64 * 64 = 64 + (n + 63) div 64 * 64" using div_mult_self1 [of 64 "n + 63" 1] by simp
  ultimately show ?thesis by (simp add: ts_record_len_def)
qed

text \<open>What the builder observes of the messages of a segment, and the builder then.\<close>

definition seg_records :: "message list \<Rightarrow> (u64 \<times> u64 \<times> u64) list" where
  "seg_records ms = map (\<lambda>k. (msg_seq (ms ! k), msg_timestamp_ns (ms ! k), word_of_nat (64 + entries_len (map Msg (take k ms))))) [0..<length ms]"

definition seg_builder :: "nat \<Rightarrow> nat \<Rightarrow> nat \<Rightarrow> message list \<Rightarrow> seek_index_builder" where
  "seg_builder sz stride i ms = observe_all (seg_records ms) (sb_new i sz 64 stride)"

lemma length_seg_records [simp]: "length (seg_records ms) = length ms"
  by (simp add: seg_records_def)

lemma seg_records_snoc: "seg_records (ms @ [m]) = seg_records ms @ [(msg_seq m, msg_timestamp_ns m, word_of_nat (64 + entries_len (map Msg ms)))]"
  by (simp add: seg_records_def nth_append)

lemma seg_builder_snoc:
  "observe (msg_seq m) (msg_timestamp_ns m) (word_of_nat (64 + entries_len (map Msg ms))) (seg_builder sz stride i ms) = seg_builder sz stride i (ms @ [m])"
  by (simp add: seg_builder_def seg_records_snoc observe_all_snoc)

lemma observe_keeps:
  "sb_segment_id (observe q t off b) = sb_segment_id b" "sb_data_offset (observe q t off b) = sb_data_offset b" "sb_entry_stride (observe q t off b) = sb_entry_stride b"
  by (simp_all add: observe_def Let_def)

lemma seg_builder_keeps:
  "sb_segment_id (seg_builder sz stride i ms) = i" "sb_data_offset (seg_builder sz stride i ms) = 64" "sb_entry_stride (seg_builder sz stride i ms) = max stride 1"
proof (induction ms rule: rev_induct)
  case Nil
  case 1 show ?case by (simp add: seg_builder_def observe_all_def seg_records_def sb_new_def)
  case 2 show ?case by (simp add: seg_builder_def observe_all_def seg_records_def sb_new_def)
  case 3 show ?case by (simp add: seg_builder_def observe_all_def seg_records_def sb_new_def)
next
  case (snoc m ms)
  case 1 show ?case using snoc(1) by (simp add: seg_builder_snoc [symmetric] observe_keeps)
  case 2 show ?case using snoc(2) by (simp add: seg_builder_snoc [symmetric] observe_keeps)
  case 3 show ?case using snoc(3) by (simp add: seg_builder_snoc [symmetric] observe_keeps)
qed

lemma seg_builder_reset: "sb_reset j sz (seg_builder sz stride i ms) = seg_builder sz stride j []"
  using seg_builder_keeps [of sz stride i ms]
  by (simp add: sb_reset_def seg_builder_def [of sz stride j] observe_all_def seg_records_def sb_new_def)

lemma every_nth_map: "every_nth n k (map f xs) = map f (every_nth n k xs)"
  by (induction xs arbitrary: k) auto

lemma every_nth_sorted:
  assumes "sorted_wrt P xs"
  shows "sorted_wrt P (every_nth n k xs) \<and> set (every_nth n k xs) \<subseteq> set xs"
  using assms
proof (induction xs arbitrary: k)
  case (Cons x xs)
  then show ?case using Cons.IH [of "n - 1"] Cons.IH [of "k - 1"] by (auto dest: subsetD)
qed simp

text \<open>The index of a segment as the writer leaves it.\<close>

definition indexed :: "path \<Rightarrow> nat \<Rightarrow> nat \<Rightarrow> fs \<Rightarrow> nat \<times> message list \<Rightarrow> bool" where
  "indexed dir sz stride s = (\<lambda>(i, ms). let b = seg_builder sz stride i ms in
     fst (load_index_header dir i s) = Inr (Some (sb_header b)) \<and> fst (load_index_entries dir (sb_header b) s) = Inr (sb_entries b))"

lemma read_entries_cong: "fs_data s' i = fs_data s i \<Longrightarrow> fst (read_entries i pos n s') = fst (read_entries i pos n s)"
proof (induction n arbitrary: pos)
  case (Suc n)
  obtain r x y where "read_entries i (pos + 24) n s' = (r, x)" "read_entries i (pos + 24) n s = (r, y)"
    using Suc.IH [OF Suc.prems, of "pos + 24"] by (metis prod.collapse)
  then show ?case using Suc.prems by (cases r) (simp_all add: bind_def read_exact_def ret_def)
qed (simp add: ret_def)

lemma load_header_cong:
  assumes "lookup_path s' (index_path dir i) = lookup_path s (index_path dir i)" "\<And>j. lookup_path s (index_path dir i) = Some j \<Longrightarrow> fs_data s' j = fs_data s j"
  shows "fst (load_index_header dir i s') = fst (load_index_header dir i s)"
  using assms by (cases "lookup_path s (index_path dir i)")
    (simp_all add: load_index_header_def bind_def attempt_def open_read_def read_exact_def lift_def ret_def fail_def split: sum.split)

lemma indexed_kept:
  assumes "indexed dir sz stride s (i, ms)" "i \<le> u64_max" "lookup_path s' (index_path dir i) = lookup_path s (index_path dir i)"
    "\<And>j. lookup_path s (index_path dir i) = Some j \<Longrightarrow> fs_data s' j = fs_data s j"
  shows "indexed dir sz stride s' (i, ms)"
proof -
  let ?b = "seg_builder sz stride i ms"
  have id: "unat (ih_segment_id (sb_header ?b)) = i" using assms(2) by (simp add: sb_header_def seg_builder_keeps unat_of_nat)
  have "fst (load_index_header dir i s') = fst (load_index_header dir i s)" using assms(3,4) by (rule load_header_cong)
  moreover have "fst (load_index_entries dir (sb_header ?b) s') = fst (load_index_entries dir (sb_header ?b) s)"
    using assms(3,4) read_entries_cong [of s' _ s] by (cases "lookup_path s (index_path dir i)") (simp_all add: load_index_entries_def id bind_def open_read_def)
  ultimately show ?thesis using assms(1) by (simp add: indexed_def Let_def)
qed

lemma seg_builder_entries:
  assumes "0 < stride" "length ms + stride \<le> u64_max"
  shows "sb_entries (seg_builder sz stride i ms) = map (\<lambda>k. entry_of (seg_records ms ! k)) (every_nth stride 0 [0..<length ms])"
proof -
  have "map entry_of (seg_records ms) = map (\<lambda>k. entry_of (seg_records ms ! k)) [0..<length ms]"
    by (intro nth_equalityI) simp_all
  then show ?thesis using observe_all_state [OF assms(1), of "seg_records ms" i sz 64] assms(2)
    by (simp add: seg_builder_def Let_def every_nth_map)
qed

lemma sorted_range:
  fixes xs :: "'a :: linorder list"
  assumes "sorted_wrt (<) xs" "xs \<noteq> []"
  shows "Min (set xs) = hd xs" "Max (set xs) = last xs"
proof -
  have "\<forall>x \<in> set xs. hd xs \<le> x" using assms by (cases xs) auto
  then show "Min (set xs) = hd xs" using assms(2) by (intro Min_eqI) auto
  have "\<forall>x \<in> set xs. x \<le> last xs" using assms by (cases xs rule: rev_cases) (auto simp: sorted_wrt_append)
  then show "Max (set xs) = last xs" using assms(2) by (intro Max_eqI) auto
qed

lemma every_nth_length: "length (every_nth n k xs) \<le> length xs"
  by (induction xs arbitrary: k) (auto simp: le_SucI)

lemma indexed_ok:
  assumes "indexed dir sz stride s (i, ms)" "0 < stride" "length ms + stride \<le> u64_max" "ms \<noteq> []"
    and "sorted_wrt (<) (times ms)" "64 + entries_len (map Msg ms) \<le> u64_max"
  shows "index_ok dir s (i, ms)"
proof -
  let ?b = "seg_builder sz stride i ms" and ?ks = "every_nth stride 0 [0..<length ms]"
  have es: "sb_entries ?b = map (\<lambda>k. entry_of (seg_records ms ! k)) ?ks" by (rule seg_builder_entries [OF assms(2,3)])
  have ks: "sorted_wrt (<) ?ks" "\<forall>k \<in> set ?ks. k < length ms" using every_nth_sorted [of "(<)" "[0..<length ms]" stride 0] by auto
  have hd: "?ks \<noteq> []" "hd ?ks = 0" using assms(4) by (simp_all add: upt_conv_Cons)
  have tms: "map (fst \<circ> snd) (seg_records ms) = times ms" by (intro nth_equalityI) (simp_all add: seg_records_def)
  have rng: "Min (set (times ms)) = msg_timestamp_ns (hd ms)" "Max (set (times ms)) = msg_timestamp_ns (last ms)"
    using sorted_range [of "times ms"] assms(4,5) by (simp_all add: hd_map last_map)
  have ne: "seg_records ms \<noteq> []" using assms(4) length_seg_records [of ms] by (metis length_0_conv)
  have st: "sb_min_ts_ns ?b = option_of (\<lambda>ys. Min (set (map (fst \<circ> snd) ys))) (seg_records ms)"
    "sb_max_ts_ns ?b = option_of (\<lambda>ys. Max (set (map (fst \<circ> snd) ys))) (seg_records ms)"
    using observe_all_state [of stride "seg_records ms" i sz 64, OF assms(2)] assms(3) unfolding Let_def seg_builder_def length_seg_records by blast+
  have "ih_min_ts_ns (sb_header ?b) = msg_timestamp_ns (hd ms)" "ih_max_ts_ns (sb_header ?b) = msg_timestamp_ns (last ms)"
    using st unfolding option_of_def tms rng if_not_P [OF ne] by (simp_all add: sb_header_def map_or_def)
  moreover have len: "length (sb_entries ?b) \<le> u64_max" "sb_entries ?b \<noteq> []"
    using every_nth_length [of stride 0 "[0..<length ms]"] assms(3) hd(1) es by simp_all
  then have "0 < ih_entry_count (sb_header ?b)"
    by (simp add: sb_header_def word_gt_0 word_of_nat_eq_0_iff) (use len in \<open>auto dest: dvd_imp_le\<close>)
  moreover have "unat (ie_offset (entry_of (seg_records ms ! k))) = 64 + entries_len (map Msg (take k ms))" if "k < length ms" for k
  proof -
    have "entries_len (map Msg ms) = entries_len (map Msg (take k ms)) + entries_len (map Msg (drop k ms))"
      by (metis append_take_drop_id map_append sum_list_append)
    then have "64 + entries_len (map Msg (take k ms)) \<le> u64_max" using assms(6) by linarith
    then have "unat (word_of_nat (64 + entries_len (map Msg (take k ms))) :: u64) = 64 + entries_len (map Msg (take k ms))"
      by (subst unat_of_nat) simp
    moreover have "ie_offset (entry_of (seg_records ms ! k)) = word_of_nat (64 + entries_len (map Msg (take k ms)))"
      using that by (simp add: entry_of_def seg_records_def)
    ultimately show ?thesis by simp
  qed
  moreover have "ie_timestamp_ns (entry_of (seg_records ms ! k)) = msg_timestamp_ns (ms ! k)" if "k < length ms" for k
    using that by (simp add: entry_of_def seg_records_def)
  ultimately have "header_of dir s ms (sb_header ?b)"
    using assms(1) ks hd es unfolding header_of_def indexed_def Let_def prod.case by (intro conjI exI [of _ ?ks] exI [of _ "sb_entries ?b"]) auto
  then show ?thesis using assms(1) by (auto simp: index_ok_def indexed_def Let_def)
qed

text \<open>The writer's invariant: that of the log, the builder of the open segment, and the indexes of the published ones.\<close>

definition ts_inv :: "crc_fun \<Rightarrow> path \<Rightarrow> nat \<Rightarrow> nat \<Rightarrow> (nat \<times> message list) list \<Rightarrow> message list \<Rightarrow> ts_writer \<times> fs \<Rightarrow> bool" where
  "ts_inv crc dir sz stride L cur = (\<lambda>(t, s).
     log_inv crc L cur (tw_writer t, s) \<and> sw_dir (lw_writer (tw_writer t)) = dir \<and> tw_dir t = dir \<and>
     lw_segment_size (tw_writer t) = sz \<and> tw_segment_size t = sz \<and>
     tw_index t = seg_builder sz stride (sw_segment_id (lw_writer (tw_writer t))) cur \<and>
     (\<forall>p \<in> set L. snd p \<noteq> [] \<and> indexed dir sz stride s p))"

lemma chain_count: "chain crc bs off es e \<Longrightarrow> length es \<le> entries_len es"
proof (induction es arbitrary: off)
  case (Cons x xs)
  then have "length (entry_payload x) \<le> MAX_PAYLOAD_LEN" by (auto simp: entry_at_def)
  then have "64 \<le> entry_len x" using entry_len_bounds(1) by blast
  then show ?case using Cons by fastforce
qed simp

lemma log_inv_offset:
  assumes "log_inv crc L cur (l, s)"
  shows "sw_write_offset (lw_writer l) = 64 + entries_len (map Msg cur)" "64 + entries_len (map Msg cur) \<le> lw_segment_size l" "length cur \<le> lw_segment_size l"
proof -
  have inv: "sw_inv crc L cur (lw_writer l, s)" "lw_segment_size l = sw_segment_size (lw_writer l)" using assms by (simp_all add: log_inv_def)
  show off: "sw_write_offset (lw_writer l) = 64 + entries_len (map Msg cur)"
    using inv(1) by (auto simp: sw_inv_def seg_holds_def dest!: chain_end split: option.splits)
  show le: "64 + entries_len (map Msg cur) \<le> lw_segment_size l"
    using inv off by (auto simp: sw_inv_def seg_holds_def dest!: chain_bound split: option.splits)
  have "length cur \<le> entries_len (map Msg cur)"
    using inv(1) by (auto simp: sw_inv_def seg_holds_def dest!: chain_count split: option.splits)
  then show "length cur \<le> lw_segment_size l" using le by linarith
qed

text \<open>A change to one index file only.\<close>

lemma log_inv_frame:
  assumes "log_inv crc L cur (l, s)" "fs_wf s'" "is_dir s' = is_dir s"
    and fr: "\<And>p. p \<noteq> index_path (sw_dir (lw_writer l)) n \<Longrightarrow> lookup_path s' p = lookup_path s p \<and> (\<forall>j. lookup_path s p = Some j \<longrightarrow> fs_data s' j = fs_data s j)"
  shows "log_inv crc L cur (l, s')"
proof -
  let ?w = "lw_writer l"
  have lh: "log_holds crc (sw_dir ?w) (sw_segment_size ?w) s L" using assms(1) by (simp add: log_inv_def sw_inv_def)
  have "log_holds crc (sw_dir ?w) (sw_segment_size ?w) s' L" using fr by (intro log_holds_frame [OF lh assms(2,3)]) (simp, metis paths_distinct(3))
  moreover have "lookup_path s' (segment_temp_path (sw_dir ?w) i) = lookup_path s (segment_temp_path (sw_dir ?w) i)"
    "lookup_path s (segment_temp_path (sw_dir ?w) i) = Some j \<Longrightarrow> fs_data s' j = fs_data s j" for i j
    using fr [OF temp_index_distinct(1), of i] by auto
  ultimately show ?thesis using assms(1) by (auto simp: log_inv_def sw_inv_def mm_ok_def split: option.splits)
qed

lemma index_path_inj: "index_path root m = index_path root n \<Longrightarrow> m = n"
  by (simp add: index_path_def index_filename_def fmt09_inject)

lemma flush_ts_index_ok:
  assumes "ts_inv crc dir sz stride L cur (t, s)" "0 < stride" "sz + stride \<le> u64_max" "sw_segment_id (lw_writer (tw_writer t)) \<le> u64_max"
  shows "\<exists>s'. flush_ts_index (t, s) = (Inr (), t, s') \<and> ts_inv crc dir sz stride L cur (t, s') \<and>
    (cur \<noteq> [] \<longrightarrow> indexed dir sz stride s' (sw_segment_id (lw_writer (tw_writer t)), cur))"
proof (cases "cur = []")
  case True
  then have "sb_entries (tw_index t) = []" using assms(1) by (simp add: ts_inv_def seg_builder_def observe_all_def seg_records_def sb_new_def)
  then show ?thesis using assms(1) True by (simp add: flush_ts_index_def bind_def get_def on_fs_def sb_flush_def ret_def)
next
  case False
  let ?n = "sw_segment_id (lw_writer (tw_writer t))" and ?b = "tw_index t"
  have inv: "log_inv crc L cur (tw_writer t, s)" "sw_dir (lw_writer (tw_writer t)) = dir" "tw_dir t = dir" "lw_segment_size (tw_writer t) = sz"
    "?b = seg_builder sz stride ?n cur" "\<forall>p \<in> set L. snd p \<noteq> [] \<and> indexed dir sz stride s p" using assms(1) by (simp_all add: ts_inv_def)
  have n: "length cur + stride \<le> u64_max" using log_inv_offset(3) [OF inv(1)] inv(4) assms(3) by linarith
  have wf: "fs_wf s" "is_dir s dir" "\<forall>i \<in> fst ` set L. i < ?n"
    using inv(1,2) by (simp_all add: log_inv_def sw_inv_def log_holds_def dir_ok_def)
  have es: "sb_entries ?b = map (\<lambda>k. entry_of (seg_records cur ! k)) (every_nth stride 0 [0..<length cur])"
    unfolding inv(5) by (rule seg_builder_entries [OF assms(2) n])
  then have b: "sb_entries ?b \<noteq> []" "sb_segment_id ?b = ?n" "length (sb_entries ?b) \<le> u64_max"
    using every_nth_length [of stride 0 "[0..<length cur]"] False n inv(5) by (simp_all add: upt_conv_Cons seg_builder_keeps)
  obtain s' where s': "sb_flush dir ?b s = (Inr (), s')" "load_index_header dir ?n s' = (Inr (Some (sb_header ?b)), s')"
    "load_index_entries dir (sb_header ?b) s' = (Inr (sb_entries ?b), s')" "is_dir s' = is_dir s" "fs_wf s'"
    and fr: "\<And>p. p \<noteq> index_path dir ?n \<Longrightarrow> lookup_path s' p = lookup_path s p \<and> (\<forall>j. lookup_path s p = Some j \<longrightarrow> fs_data s' j = fs_data s j)"
    using sb_flush_loads [OF b(1) wf(2)] b(2,3) assms(4) wf(1) by auto
  have "log_inv crc L cur (tw_writer t, s')" using fr inv(2) by (intro log_inv_frame [OF inv(1) s'(5,4)]) simp
  moreover have "indexed dir sz stride s' p" if "p \<in> set L" for p
  proof -
    have p: "fst p < ?n" "indexed dir sz stride s (fst p, snd p)" using that wf(3) inv(6) by auto
    have "indexed dir sz stride s' (fst p, snd p)"
      using p(1) assms(4) fr [of "index_path dir (fst p)"] index_path_inj [of dir "fst p" ?n] by (intro indexed_kept [OF p(2)]) auto
    then show ?thesis by simp
  qed
  moreover have "indexed dir sz stride s' (?n, cur)" using s'(2,3) inv(5) by (simp add: indexed_def Let_def)
  ultimately show ?thesis using s'(1) assms(1) inv(3) by (auto simp: ts_inv_def flush_ts_index_def bind_def get_def on_fs_def)
qed

text \<open>One append: the flush before a roll, the append to the log, the observation, and the flush when the interval has passed.\<close>

lemma indexed_log_kept:
  assumes "\<forall>p \<in> set L. snd p \<noteq> [] \<and> indexed dir sz stride s p" "others_kept dir s s'" "\<forall>i \<in> fst ` set L. i \<le> u64_max"
  shows "\<forall>p \<in> set L. snd p \<noteq> [] \<and> indexed dir sz stride s' p"
proof
  fix p assume p: "p \<in> set L"
  then have "indexed dir sz stride s (fst p, snd p)" "fst p \<le> u64_max" "snd p \<noteq> []" using assms(1,3) by auto
  then show "snd p \<noteq> [] \<and> indexed dir sz stride s' p"
    using indexed_kept [of dir sz stride s "fst p" "snd p" s'] others_kept_index [OF assms(2)] by simp
qed

lemma ts_log_append_ok:
  assumes inv: "ts_inv crc dir sz stride L cur (t, s)" and fit: "fits sz (ty, ts, p)" and id: "sw_segment_id (lw_writer (tw_writer t)) < u64_max"
    and ix: "needs_roll (lw_writer (tw_writer t)) (record_len (length p)) \<Longrightarrow> cur \<noteq> [] \<and> indexed dir sz stride s (sw_segment_id (lw_writer (tw_writer t)), cur)"
  shows "\<exists>l s' L' cur'. let w = lw_writer (tw_writer t); w' = lw_writer l; m = new_msg (sw_seq w) ts ty p; r = record_len (length p) in
    on_log (log_append crc ok2 ty ts p) (t, s) = (Inr (), t\<lparr>tw_writer := l\<rparr>, s') \<and>
    all_msgs L' cur' = all_msgs L cur @ [m] \<and> sw_seq w' = sw_seq w + 1 \<and> sw_segment_id w' \<le> sw_segment_id w + 1 \<and>
    ts_inv crc dir sz stride L' cur' (t\<lparr>tw_writer := l, tw_index := seg_builder sz stride (sw_segment_id w') cur'\<rparr>, s') \<and>
    (if needs_roll w r then cur' = [m] \<and> sw_segment_id w' = sw_segment_id w + 1 \<and> sw_write_offset w' = 64 + r
     else cur' = cur @ [m] \<and> sw_segment_id w' = sw_segment_id w)"
proof -
  let ?w = "lw_writer (tw_writer t)"
  have i: "log_inv crc L cur (tw_writer t, s)" "sw_dir ?w = dir" "lw_segment_size (tw_writer t) = sz" "\<forall>p \<in> set L. snd p \<noteq> [] \<and> indexed dir sz stride s p"
    using inv by (simp_all add: ts_inv_def)
  obtain l s' L' cur' where a: "log_append crc ok2 ty ts p (tw_writer t, s) = (Inr (), l, s')" "log_inv crc L' cur' (l, s')"
    "all_msgs L' cur' = all_msgs L cur @ [new_msg (sw_seq ?w) ts ty p]" "sw_seq (lw_writer l) = sw_seq ?w + 1" "sw_segment_id (lw_writer l) \<le> sw_segment_id ?w + 1"
    "sw_dir (lw_writer l) = dir" "lw_segment_size l = sz" "others_kept dir s s'"
    and rl: "if needs_roll ?w (record_len (length p))
     then L' = publish_cur L (sw_segment_id ?w) cur \<and> cur' = [new_msg (sw_seq ?w) ts ty p] \<and>
       sw_segment_id (lw_writer l) = sw_segment_id ?w + 1 \<and> sw_write_offset (lw_writer l) = 64 + record_len (length p)
     else L' = L \<and> cur' = cur @ [new_msg (sw_seq ?w) ts ty p] \<and> sw_segment_id (lw_writer l) = sw_segment_id ?w"
    using log_append_ok [OF i(1), of ty ts p ok2] fit id i(2,3) by auto
  have "\<forall>p \<in> set L'. snd p \<noteq> [] \<and> indexed dir sz stride s p" using rl ix i(4) by (auto simp: publish_cur_def split: if_splits)
  moreover have "\<forall>j \<in> fst ` set L'. j \<le> u64_max" using a(2,5) id by (fastforce simp: log_inv_def sw_inv_def)
  ultimately have "\<forall>p \<in> set L'. snd p \<noteq> [] \<and> indexed dir sz stride s' p" using indexed_log_kept a(8) by blast
  then show ?thesis using a rl inv by (intro exI [of _ l] exI [of _ s'] exI [of _ L'] exI [of _ cur']) (auto simp: on_log_def ts_inv_def Let_def)
qed

lemma ts_append_ok:
  assumes inv: "ts_inv crc dir sz stride L cur (t, s)" and fit: "fits sz (ty, ts, p)" and id: "sw_segment_id (lw_writer (tw_writer t)) < u64_max"
    and st: "0 < stride" "sz + stride \<le> u64_max"
  shows "\<exists>t' s' L' cur'. ts_append crc ok2 elapsed ty ts p (t, s) = (Inr (), t', s') \<and> ts_inv crc dir sz stride L' cur' (t', s') \<and>
    all_msgs L' cur' = all_msgs L cur @ [new_msg (sw_seq (lw_writer (tw_writer t))) ts ty p] \<and>
    sw_seq (lw_writer (tw_writer t')) = sw_seq (lw_writer (tw_writer t)) + 1 \<and>
    sw_segment_id (lw_writer (tw_writer t')) \<le> sw_segment_id (lw_writer (tw_writer t)) + 1"
proof -
  let ?w = "lw_writer (tw_writer t)" and ?r = "record_len (length p)" and ?m = "new_msg (sw_seq (lw_writer (tw_writer t))) ts ty p"
  let ?roll = "needs_roll ?w ?r"
  have i: "log_inv crc L cur (tw_writer t, s)" "lw_segment_size (tw_writer t) = sz" "tw_segment_size t = sz" "tw_index t = seg_builder sz stride (sw_segment_id ?w) cur"
    using inv by (simp_all add: ts_inv_def)
  have off: "sw_write_offset ?w = 64 + entries_len (map Msg cur)" and sz: "sw_segment_size ?w = sz" "128 \<le> sz"
    using log_inv_offset(1) [OF i(1)] i(1,2) by (simp_all add: log_inv_def sw_inv_def)
  have r: "ts_record_len (length p) = ?r" "?r \<le> sz - 64" using fit ts_record_len_eq by (simp_all add: fits_def)
  have wr: "(sw_write_offset ?w + ?r > tw_segment_size t) = ?roll" using i(3) sz(1) by (simp add: needs_roll_def)
  have cur: "cur \<noteq> []" if ?roll using that off r(2) sz by (auto simp: needs_roll_def)
  obtain s1 where s1: "(if ?roll then flush_ts_index else ret ()) (t, s) = (Inr (), t, s1)" "ts_inv crc dir sz stride L cur (t, s1)"
    "?roll \<Longrightarrow> indexed dir sz stride s1 (sw_segment_id ?w, cur)"
    using flush_ts_index_ok [OF inv st] id inv cur by (cases ?roll) (auto simp: ret_def)
  obtain l s2 L' cur' where a: "on_log (log_append crc ok2 ty ts p) (t, s1) = (Inr (), t\<lparr>tw_writer := l\<rparr>, s2)" "all_msgs L' cur' = all_msgs L cur @ [?m]"
    "sw_seq (lw_writer l) = sw_seq ?w + 1" "sw_segment_id (lw_writer l) \<le> sw_segment_id ?w + 1"
    "ts_inv crc dir sz stride L' cur' (t\<lparr>tw_writer := l, tw_index := seg_builder sz stride (sw_segment_id (lw_writer l)) cur'\<rparr>, s2)"
    "if ?roll then cur' = [?m] \<and> sw_segment_id (lw_writer l) = sw_segment_id ?w + 1 \<and> sw_write_offset (lw_writer l) = 64 + ?r
     else cur' = cur @ [?m] \<and> sw_segment_id (lw_writer l) = sw_segment_id ?w"
    using ts_log_append_ok [OF s1(2) fit id, of ok2] cur s1(3) unfolding Let_def by blast
  let ?t2 = "t\<lparr>tw_writer := l, tw_index := seg_builder sz stride (sw_segment_id (lw_writer l)) cur'\<rparr>"
  note b1 = bind_ok [where m = "if ?roll then flush_ts_index else ret ()" and s = "(t, s)", OF s1(1)]
    and b2 = bind_ok [where m = "on_log (log_append crc ok2 ty ts p)" and s = "(t, s1)", OF a(1)]
  have "ts_append crc ok2 elapsed ty ts p (t, s) = (if elapsed then flush_ts_index else ret ()) (?t2, s2)"
  proof (cases ?roll)
    case True
    have "observe (sw_seq ?w) ts 64 (sb_reset (sw_segment_id (lw_writer l)) sz (tw_index t)) = seg_builder sz stride (sw_segment_id (lw_writer l)) cur'"
      using a(6) True seg_builder_snoc [of ?m "[]" sz stride "sw_segment_id (lw_writer l)"] by (simp add: i(4) seg_builder_reset)
    then show ?thesis unfolding ts_append_def bind_simps(3) fst_conv Let_def r(1) wr b1 b2
      using True a(6) by (simp add: i(3))
  next
    case False
    have "observe (sw_seq ?w) ts (word_of_nat (sw_write_offset ?w)) (tw_index t) = seg_builder sz stride (sw_segment_id (lw_writer l)) cur'"
      using a(6) False seg_builder_snoc [of ?m cur sz stride "sw_segment_id ?w"] by (simp add: i(4) off)
    then show ?thesis unfolding ts_append_def bind_simps(3) fst_conv Let_def r(1) wr b1 b2
      using False a(6) by simp
  qed
  moreover have "\<exists>s3. (if elapsed then flush_ts_index else ret ()) (?t2, s2) = (Inr (), ?t2, s3) \<and> ts_inv crc dir sz stride L' cur' (?t2, s3)"
    using flush_ts_index_ok [OF a(5) st] a(4,5) id by (auto simp: ret_def)
  ultimately show ?thesis using a(2-4) by fastforce
qed

text \<open>The time-series writer is a store, too, and keeps all the messages appended to it.\<close>

fun ts_item :: "u64 \<Rightarrow> bool \<times> u16 \<times> u64 \<times> bytes \<Rightarrow> message" where
  "ts_item q (elapsed, ty, ts, p) = new_msg q ts ty p"

definition ts_store :: "crc_fun \<Rightarrow> path \<Rightarrow> nat \<Rightarrow> nat \<Rightarrow> ts_writer \<times> fs \<Rightarrow> message list \<Rightarrow> bool" where
  "ts_store crc dir sz stride x ms \<longleftrightarrow> 0 < stride \<and> sz + stride \<le> u64_max \<and> (\<exists>L cur. ts_inv crc dir sz stride L cur x \<and> all_msgs L cur = ms)"

interpretation ts_st: record_store "ts_store crc dir sz stride" "\<lambda>(elapsed, ty, ts, p). ts_append crc ok2 elapsed ty ts p" "\<lambda>_ r. fits sz (snd r)"
  ts_item "\<lambda>(t, s). sw_seq (lw_writer (tw_writer t))" "\<lambda>(t, s). u64_max - sw_segment_id (lw_writer (tw_writer t))"
  for crc dir sz stride ok2
proof (unfold_locales, goal_cases)
  case (1 x ms r)
  obtain t s where x: "x = (t, s)" by fastforce
  obtain el ty ts p where r: "r = (el, ty, ts, p)" by (metis prod_cases4)
  obtain L cur where l: "ts_inv crc dir sz stride L cur (t, s)" "all_msgs L cur = ms" "0 < stride" "sz + stride \<le> u64_max"
    using 1(1) x by (auto simp: ts_store_def)
  then obtain t' s' L' cur' where "ts_append crc ok2 el ty ts p (t, s) = (Inr (), t', s')" "ts_inv crc dir sz stride L' cur' (t', s')"
    "all_msgs L' cur' = ms @ [new_msg (sw_seq (lw_writer (tw_writer t))) ts ty p]"
    "sw_seq (lw_writer (tw_writer t')) = sw_seq (lw_writer (tw_writer t)) + 1" "sw_segment_id (lw_writer (tw_writer t')) \<le> sw_segment_id (lw_writer (tw_writer t)) + 1"
    using ts_append_ok [OF l(1), of ty ts p ok2 el] 1(2,3) x r by auto
  then show ?case using x r l(3,4) by (auto simp: ts_store_def)
qed

abbreviation ts_append_all :: "crc_fun \<Rightarrow> bool \<Rightarrow> (bool \<times> u16 \<times> u64 \<times> bytes) list \<Rightarrow> unit tw_io" where
  "ts_append_all crc ok2 \<equiv> run_all (\<lambda>(elapsed, ty, ts, p). ts_append crc ok2 elapsed ty ts p)"

definition ts_session :: "crc_fun \<Rightarrow> bool \<Rightarrow> path \<Rightarrow> nat \<Rightarrow> nat \<Rightarrow> (bool \<times> u16 \<times> u64 \<times> bytes) list \<Rightarrow> (fs, unit) io" where
  "ts_session crc ok2 dir sz stride rs =
     bind (ts_open dir sz stride) (\<lambda>t s.
       case bind (ts_append_all crc ok2 rs) (\<lambda>_. ts_finish ok2) (t, s) of (r, _, s') \<Rightarrow> (r, s'))"

lemma ts_finish_ok:
  assumes "ts_inv crc dir sz stride L cur (t, s)" "0 < stride" "sz + stride \<le> u64_max" "sw_segment_id (lw_writer (tw_writer t)) \<le> u64_max"
  shows "\<exists>t' s'. let L' = publish_cur L (sw_segment_id (lw_writer (tw_writer t))) cur in
    ts_finish ok2 (t, s) = (Inr (), t', s') \<and> log_holds crc dir sz s' L' \<and> (\<forall>p \<in> set L'. snd p \<noteq> [] \<and> indexed dir sz stride s' p)"
proof -
  let ?w = "lw_writer (tw_writer t)"
  let ?L = "publish_cur L (sw_segment_id ?w) cur"
  obtain s1 where s1: "flush_ts_index (t, s) = (Inr (), t, s1)" "ts_inv crc dir sz stride L cur (t, s1)" "cur \<noteq> [] \<longrightarrow> indexed dir sz stride s1 (sw_segment_id ?w, cur)"
    using flush_ts_index_ok [OF assms] by blast
  then have inv: "sw_inv crc L cur (?w, s1)" "sw_dir ?w = dir" "sw_segment_size ?w = sz" "\<forall>p \<in> set L. snd p \<noteq> [] \<and> indexed dir sz stride s1 p"
    by (auto simp: ts_inv_def log_inv_def)
  obtain w' s' where f: "sw_finish ok2 (?w, s1) = (Inr (), w', s')" "log_holds crc dir sz s' ?L" "others_kept dir s1 s'"
    using sw_finish_ok [OF inv(1), of ok2] inv(2,3) by auto
  have "\<forall>p \<in> set ?L. snd p \<noteq> [] \<and> indexed dir sz stride s1 p" using inv(4) s1(3) by (auto simp: publish_cur_def)
  moreover have "\<forall>i \<in> fst ` set ?L. i \<le> u64_max" using inv(1) assms(4) by (fastforce simp: sw_inv_def publish_cur_def)
  ultimately have "\<forall>p \<in> set ?L. snd p \<noteq> [] \<and> indexed dir sz stride s' p" using indexed_log_kept f(3) by blast
  moreover have "\<exists>t'. ts_finish ok2 (t, s) = (Inr (), t', s')" using s1(1) f(1) by (simp add: ts_finish_def bind_ok on_log_def log_finish_def on_writer_def)
  ultimately show ?thesis using f(2) by (auto simp: Let_def)
qed

lemma ts_session_ok:
  assumes "log_holds crc dir sz s []" "128 \<le> sz" "0 < stride" "sz + stride \<le> u64_max" "\<forall>r \<in> set rs. fits sz (snd r)" "length rs < 1000000000"
  shows "\<exists>s' L. ts_session crc ok2 dir sz stride rs s = (Inr (), s') \<and> log_holds crc dir sz s' L \<and> (\<forall>i \<in> fst ` set L. i < 1000000000) \<and>
    concat (map snd L) = numbered ts_item 0 rs \<and> (\<forall>p \<in> set L. snd p \<noteq> [] \<and> indexed dir sz stride s' p)"
proof -
  obtain l s1 where o1: "log_open dir sz s = (Inr l, s1)" "log_inv crc [] [] (l, s1)" "lw_segment_size l = sz"
    "sw_dir (lw_writer l) = dir" "sw_segment_id (lw_writer l) = 0" "sw_seq (lw_writer l) = 0"
    using log_open_ok [OF assms(1,2)] assms(4) by (auto simp: next_id_def)
  let ?t = "\<lparr>tw_dir = dir, tw_writer = l, tw_index = sb_new 0 sz 64 stride, tw_segment_size = sz\<rparr>"
  have op: "ts_open dir sz stride s = (Inr ?t, s1)" using o1(1) by (simp add: ts_open_def bind_ok ret_def)
  have "ts_inv crc dir sz stride [] [] (?t, s1)"
    using o1(2-5) by (simp add: ts_inv_def seg_builder_def observe_all_def seg_records_def)
  then have "ts_store crc dir sz stride (?t, s1) []" using assms(3,4) by (auto simp: ts_store_def all_msgs_def)
  then obtain t2 s2 where st: "ts_append_all crc ok2 rs (?t, s1) = (Inr (), t2, s2)" "ts_store crc dir sz stride (t2, s2) (numbered ts_item 0 rs)"
    "u64_max \<le> u64_max - sw_segment_id (lw_writer (tw_writer t2)) + length rs"
    using ts_st.append_all [of crc dir sz stride "(?t, s1)" "[]" rs ok2] o1(5,6) assms(5,6) by auto
  then obtain L cur where i: "ts_inv crc dir sz stride L cur (t2, s2)" "all_msgs L cur = numbered ts_item 0 rs" by (auto simp: ts_store_def)
  let ?n = "sw_segment_id (lw_writer (tw_writer t2))"
  let ?L = "publish_cur L ?n cur"
  have n: "?n \<le> length rs" using st(3) assms(6) by linarith
  obtain t3 s3 where f: "ts_finish ok2 (t2, s2) = (Inr (), t3, s3)" "log_holds crc dir sz s3 ?L" "\<forall>p \<in> set ?L. snd p \<noteq> [] \<and> indexed dir sz stride s3 p"
    using ts_finish_ok [OF i(1) assms(3,4), of ok2] n assms(6) by (auto simp: Let_def)
  have "ts_session crc ok2 dir sz stride rs s = (Inr (), s3)" using op st(1) f(1) by (simp add: ts_session_def bind_ok)
  moreover have "concat (map snd ?L) = numbered ts_item 0 rs" using i(2) by (cases "cur = []") (simp_all add: all_msgs_def publish_cur_def)
  moreover have "\<forall>i \<in> fst ` set ?L. i < 1000000000"
    using i(1) n assms(6) by (fastforce simp: ts_inv_def log_inv_def sw_inv_def publish_cur_def)
  ultimately show ?thesis using f(2,3) by blast
qed

lemma session_index_ok:
  assumes "log_holds crc dir sz s L" "p \<in> set L" "indexed dir sz stride s p" "snd p \<noteq> []" "0 < stride" "sz + stride \<le> u64_max"
    and "sorted_wrt (<) (times (concat (map snd L)))"
  shows "index_ok dir s p"
proof -
  obtain i ms where p: "p = (i, ms)" by fastforce
  obtain ino e where c: "chain crc (fs_data s ino) 64 (map Msg ms) e" "length (fs_data s ino) = sz"
    using assms(1,2) p by (fastforce simp: log_holds_def seg_file_def seg_holds_def)
  have "e = 64 + entries_len (map Msg ms)" "e \<le> sz \<or> sz < 64" "length ms \<le> entries_len (map Msg ms)"
    using chain_end [OF c(1)] chain_bound [OF c(1)] chain_count [OF c(1)] c(2) by auto
  moreover have "64 \<le> sz" using c assms(4) p by (cases ms) (auto simp: entry_at_def)
  ultimately have "64 + entries_len (map Msg ms) \<le> u64_max" "length ms + stride \<le> u64_max" using assms(6) by linarith+
  moreover have "sorted_wrt (<) (times ms)"
    using assms(2,7) p by (auto simp: sorted_wrt_append dest!: split_list)
  ultimately show ?thesis using indexed_ok assms(3-5) p by simp
qed

section \<open>Properties of the time-series log\<close>

text \<open>A binary search for the examples: it returns the first position that is not before the target.\<close>

definition first_search :: search_fun where
  "first_search xs t = (let n = length (takeWhile (\<lambda>x. x < t) xs) in if t \<in> set xs then Match n else Gap n)"

lemma first_search_ok: "search_ok first_search"
proof -
  have "case first_search xs t of Match i \<Rightarrow> i < length xs \<and> xs ! i = t
      | Gap i \<Rightarrow> i \<le> length xs \<and> (\<forall>j < i. xs ! j < t) \<and> (\<forall>j < length xs. i \<le> j \<longrightarrow> t < xs ! j)" if "sorted xs" for xs t
  proof -
    let ?n = "length (takeWhile (\<lambda>x. x < t) xs)"
    have lo: "xs ! j < t" if "j < ?n" for j using that nth_mem [of j "takeWhile (\<lambda>x. x < t) xs"] by (auto simp: takeWhile_nth dest!: set_takeWhileD)
    have hi: "t \<le> xs ! j" if "?n \<le> j" "j < length xs" for j
      using that nth_length_takeWhile [of "\<lambda>x. x < t" xs] sorted_nth_mono [OF \<open>sorted xs\<close> that] by auto
    show ?thesis
    proof (cases "t \<in> set xs")
      case True
      then obtain k where k: "k < length xs" "xs ! k = t" by (auto simp: in_set_conv_nth)
      then have nk: "?n \<le> k" using lo [of k] by fastforce
      then have "xs ! ?n = t" using hi [of ?n] sorted_nth_mono [OF that nk] k by simp
      then show ?thesis using True nk k(1) by (simp add: first_search_def)
    next
      case False
      have "t < xs ! j" if "?n \<le> j" "j < length xs" for j
        using hi [OF that] False nth_mem [OF that(2)] by (metis order_le_less)
      then show ?thesis using False lo length_takeWhile_le [of "\<lambda>x. x < t" xs] by (simp add: first_search_def)
    qed
  qed
  then show ?thesis unfolding search_ok_def by blast
qed



text \<open>A writer that opens a log which already has segments: its builder stands for segment 0 all the same.\<close>

lemma ts_reopen_session:
  assumes "log_holds crc dir sz s L" "128 \<le> sz" "sz \<le> u64_max" "fits sz (ty, ts, p)" "next_id L < 1000000000"
  defines "m \<equiv> new_msg 0 ts ty p"
  shows "\<exists>s' h. ts_session crc ok2 dir sz stride [(elapsed, ty, ts, p)] s = (Inr (), s') \<and> log_holds crc dir sz s' (L @ [(next_id L, [m])]) \<and>
    fst (load_index_header dir 0 s') = Inr (Some h) \<and> ih_min_ts_ns h = ts"
proof -
  obtain l s1 where o1: "log_open dir sz s = (Inr l, s1)" "log_inv crc L [] (l, s1)" "lw_segment_size l = sz"
    "sw_dir (lw_writer l) = dir" "sw_segment_id (lw_writer l) = next_id L" "sw_seq (lw_writer l) = 0"
    using log_open_ok [OF assms(1-3)] assms(5) by auto
  let ?b = "observe 0 ts 64 (sb_new 0 sz 64 stride)" and ?r = "record_len (length p)"
  let ?t = "\<lparr>tw_dir = dir, tw_writer = l, tw_index = sb_new 0 sz 64 stride, tw_segment_size = sz\<rparr>"
  have r: "ts_record_len (length p) = ?r" "?r \<le> sz - 64" using assms(4) ts_record_len_eq by (simp_all add: fits_def)
  have off: "sw_write_offset (lw_writer l) = 64" "sw_segment_size (lw_writer l) = sz"
    using log_inv_offset(1) [OF o1(2)] o1(2,3) by (simp_all add: log_inv_def)
  then have nr: "\<not> needs_roll (lw_writer l) ?r" "\<not> sz < 64 + ?r" using r(2) assms(2) by (auto simp: needs_roll_def)
  obtain l2 s2 where a: "log_append crc ok2 ty ts p (l, s1) = (Inr (), l2, s2)" "log_inv crc L [m] (l2, s2)"
    "sw_segment_id (lw_writer l2) = next_id L" "sw_dir (lw_writer l2) = dir" "lw_segment_size l2 = sz"
    using log_append_ok [OF o1(2), of ty ts p ok2] assms(4,5) o1(3-6) nr(1) by (auto simp: m_def)
  let ?t2 = "?t\<lparr>tw_writer := l2, tw_index := ?b\<rparr>"
  have b: "sb_entries ?b = [\<lparr>ie_seq = 0, ie_timestamp_ns = ts, ie_offset = 64\<rparr>]" "sb_segment_id ?b = 0" "ih_min_ts_ns (sb_header ?b) = ts"
    by (simp_all add: observe_def sb_new_def sb_header_def map_or_def)
  have ts: "ts_open dir sz stride s = (Inr ?t, s1)" using o1(1) by (simp add: ts_open_def bind_ok ret_def)
  have ap: "ts_append crc ok2 elapsed ty ts p (?t, s1) = (if elapsed then flush_ts_index else ret ()) (?t2, s2)"
    using a(1,3) o1(5,6) off nr(2) unfolding ts_append_def Let_def by (simp add: bind_ok on_log_def r(1))
  have fl: "\<exists>s'. flush_ts_index (?t2, x) = (Inr (), ?t2, s') \<and> log_inv crc L [m] (l2, s') \<and> fst (load_index_header dir 0 s') = Inr (Some (sb_header ?b))"
    if "log_inv crc L [m] (l2, x)" for x
  proof -
    have wf: "fs_wf x" "is_dir x dir" using that a(4) by (simp_all add: log_inv_def sw_inv_def log_holds_def dir_ok_def)
    obtain s' where "sb_flush dir ?b x = (Inr (), s')" "load_index_header dir 0 s' = (Inr (Some (sb_header ?b)), s')" "is_dir s' = is_dir x" "fs_wf s'"
      "\<forall>q. q \<noteq> index_path dir 0 \<longrightarrow> lookup_path s' q = lookup_path x q \<and> (\<forall>j. lookup_path x q = Some j \<longrightarrow> fs_data s' j = fs_data x j)"
      using sb_flush_loads [of ?b x dir] wf b(1,2) by auto
    then show ?thesis using log_inv_frame [OF that, of s' 0] a(4) by (auto simp: flush_ts_index_def bind_def get_def on_fs_def)
  qed
  obtain s3 where s3: "(if elapsed then flush_ts_index else ret ()) (?t2, s2) = (Inr (), ?t2, s3)" "log_inv crc L [m] (l2, s3)"
    using fl [OF a(2)] a(2) by (cases elapsed) (auto simp: ret_def)
  obtain s4 where s4: "flush_ts_index (?t2, s3) = (Inr (), ?t2, s4)" "log_inv crc L [m] (l2, s4)" "fst (load_index_header dir 0 s4) = Inr (Some (sb_header ?b))"
    using fl [OF s3(2)] by blast
  then have w: "sw_inv crc L [m] (lw_writer l2, s4)" "sw_segment_size (lw_writer l2) = sz" using a(5) by (simp_all add: log_inv_def)
  obtain w s5 where s5: "sw_finish ok2 (lw_writer l2, s4) = (Inr (), w, s5)" "log_holds crc dir sz s5 (L @ [(next_id L, [m])])" "others_kept dir s4 s5"
    using sw_finish_ok [OF w(1), of ok2] a(3,4) w(2) by (auto simp: publish_cur_def)
  have "ts_session crc ok2 dir sz stride [(elapsed, ty, ts, p)] s = (Inr (), s5)"
    using ts ap s3(1) s4(1) s5(1) by (simp add: ts_session_def bind_ok ts_finish_def on_log_def log_finish_def on_writer_def ret_def)
  moreover have "fst (load_index_header dir 0 s5) = Inr (Some (sb_header ?b))"
    using others_kept_index [OF s5(3)] s4(3) load_header_cong [of s5 dir 0 s4] by simp
  ultimately show ?thesis using s5(2) b(3) by blast
qed

text \<open>
  Property C27. A second session spoils the seek. A writer that opens a log which already has
  segments gives its first index to segment 0 instead of the segment it writes: after a session
  with one record the index of segment 0 has the time of that record, so that a seek to any
  earlier time says that it is before the start and leaves the reader at the very first
  message, although messages of the first session may lie before the target.
\<close>

theorem ts_reopen_spoils_seek:
  assumes "log_holds crc dir sz s L" "L \<noteq> []" "fst (hd L) = 0" "128 \<le> sz" "sz + 64 \<le> u64_max" "fits sz (ty, ts, p)" "next_id L < 1000000000" "t < ts"
  shows "\<exists>s' r r'. ts_session crc ok2 dir sz stride [(elapsed, ty, ts, p)] s = (Inr (), s') \<and> ts_reader_open dir s' = (Inr r, s') \<and>
    ts_seek_timestamp bsearch s' t r = (Inr BeforeStart, r') \<and> reads (ts_next crc s') r' (concat (map snd L) @ [new_msg 0 ts ty p])"
proof -
  let ?L = "L @ [(next_id L, [new_msg 0 ts ty p])]"
  obtain s' h where s': "ts_session crc ok2 dir sz stride [(elapsed, ty, ts, p)] s = (Inr (), s')" "log_holds crc dir sz s' ?L"
    "fst (load_index_header dir 0 s') = Inr (Some h)" "ih_min_ts_ns h = ts"
    using ts_reopen_session [OF assms(1,4) _ assms(6,7), of ok2 stride elapsed] assms(5) by auto
  obtain ms K where L: "L = (0, ms) # K" using assms(2,3) by (cases L) (auto simp: prod_eq_iff)
  have "\<forall>i \<in> fst ` set L. i < next_id L" using next_id_bound assms(1) by (auto simp: log_holds_def)
  then have ids: "\<forall>i \<in> fst ` set ?L. i < 1000000000" using assms(7) by auto
  obtain r where r: "ts_reader_open dir s' = (Inr r, s')" "tr_dir r = dir" "tr_segments r = map fst ?L" "sc_dir (lr_cursor (tr_reader r)) = dir"
    "sc_segment_size (lr_cursor (tr_reader r)) = sz" "sc_pending crc s' ?L (lr_cursor (tr_reader r)) (concat (map snd ?L))"
    using reader_starts [OF s'(2) assms(5) ids] by auto
  have d: "distinct (map fst ?L)" "seg_file crc s' dir sz 0 ms" using s'(2) L by (auto simp: log_holds_def)
  obtain c where c: "sc_seek_segment s' 0 64 (lr_cursor (tr_reader r)) = (Inr (), c)" "sc_pending crc s' ?L c (concat (map snd ?L))"
    using seek_to_record [OF r(6) d(1), of 0 0 ms 0] d(2) r(4,5) L by auto
  let ?r = "r\<lparr>tr_reader := (tr_reader r)\<lparr>lr_cursor := c\<rparr>, tr_current_segment_idx := 0\<rparr>"
  have "find_segment dir s' t (tr_segments r) None = Inr (Some (0, h), True)" using s'(3,4) assms(8) L r(3) by simp
  then have "ts_seek_timestamp bsearch s' t r = (Inr BeforeStart, ?r)" using c(1) r(2,3) L by (simp add: ts_seek_timestamp_def with_cursor_def)
  moreover have "reads (ts_next crc s') ?r (concat (map snd ?L))" using c(2) by (intro ts_src.reads_pending) simp
  ultimately show ?thesis using s'(1) r(1) by auto
qed

theorem ts_reopen_spoils_seek_witness:
  "\<exists>s s' r r'. ts_session (\<lambda>_. 5) True [] 256 2 [(False, 1, 10, [])] fs_empty = (Inr (), s) \<and>
    ts_session (\<lambda>_. 5) True [] 256 2 [(False, 1, 20, [])] s = (Inr (), s') \<and> ts_reader_open [] s' = (Inr r, s') \<and>
    ts_seek_timestamp first_search s' 15 r = (Inr BeforeStart, r') \<and> reads (ts_next (\<lambda>_. 5) s') r' [new_msg 0 10 1 [], new_msg 0 20 1 []]"
proof -
  have "log_holds (\<lambda>_. 5) [] 256 fs_empty []"
    by (rule log_holds_empty)
      (simp_all add: dir_ok_def is_dir_def fs_wf_empty lookup_path_def, simp_all add: fs_empty_def segment_path_def)
  moreover have fit: "fits 256 (1, x, [])" for x using record_len_eq [of 0] by (simp add: fits_def)
  ultimately obtain s where s: "ts_session (\<lambda>_. 5) True [] 256 2 [(False, 1, 10, [])] fs_empty = (Inr (), s)"
    "log_holds (\<lambda>_. 5) [] 256 s [(0, [new_msg 0 10 1 []])]"
    using ts_reopen_session [of "\<lambda>_. 5" "[]" 256 fs_empty "[]" 1 10 "[]" True 2 False] by (auto simp: next_id_def)
  then show ?thesis
    using ts_reopen_spoils_seek [OF s(2), of 1 20 "[]" 15 True 2 False first_search] fit by (simp add: next_id_def)
qed

end
