(* ===== verification/Partition.thy ===== *)
theory Partition
  imports Names "HOL-Library.Mapping" "HOL-Library.List_Lexorder" "HOL-Library.Char_ord"
begin

text \<open>
  \<^verbatim>\<open>src/src/table/partition.rs\<close>: the keys of a partitioned table, the values of a partition, their
  validation, and the paths they stand for; and the filters of \<^verbatim>\<open>src/src/table/table_reader.rs\<close>.
\<close>

section \<open>Keys, values and schemes\<close>

datatype partition_key =
    String_Key (pk_name: string)
  | Int_Key (pk_name: string)
  | Date_Key (pk_name: string) string (pk_timezone: "string option")
  | Hour_Key (pk_name: string) (pk_timezone: "string option")
  | Minute_Key (pk_name: string) (pk_timezone: "string option")

datatype partition_value = Str_Value string | Int_Value int

type_synonym partition_scheme = "partition_key list"
type_synonym partition_values = "(string, partition_value) mapping"

text \<open>A name between single quotes, as the messages have it.\<close>

abbreviation quoted :: "string \<Rightarrow> string" where
  "quoted s \<equiv> CHR 0x27 # s @ [CHR 0x27]"

text \<open>The message of a type mismatch goes on with the debug forms of the key and the value.\<close>

fun validate_value :: "partition_key \<Rightarrow> partition_value \<Rightarrow> unit result" where
  "validate_value (Int_Key name) (Int_Value i) = Inr ()"
| "validate_value (Int_Key name) (Str_Value s) = Inl (InvalidPartition (''Type mismatch for key '' @ quoted name))"
| "validate_value key (Str_Value s) = Inr ()"
| "validate_value key (Int_Value i) = Inl (InvalidPartition (''Type mismatch for key '' @ quoted (pk_name key)))"

definition scheme_new :: partition_scheme where
  "scheme_new = []"

definition add_string :: "string \<Rightarrow> partition_scheme \<Rightarrow> partition_scheme" where
  "add_string name keys = keys @ [String_Key name]"

definition add_int :: "string \<Rightarrow> partition_scheme \<Rightarrow> partition_scheme" where
  "add_int name keys = keys @ [Int_Key name]"

definition add_date :: "string \<Rightarrow> string option \<Rightarrow> partition_scheme \<Rightarrow> partition_scheme" where
  "add_date name tz keys = keys @ [Date_Key name ''YYYY-MM-DD'' tz]"

definition add_hour :: "string \<Rightarrow> string option \<Rightarrow> partition_scheme \<Rightarrow> partition_scheme" where
  "add_hour name tz keys = keys @ [Hour_Key name tz]"

definition add_minute :: "string \<Rightarrow> string option \<Rightarrow> partition_scheme \<Rightarrow> partition_scheme" where
  "add_minute name tz keys = keys @ [Minute_Key name tz]"

fun check_keys :: "partition_values \<Rightarrow> partition_scheme \<Rightarrow> unit result" where
  "check_keys values [] = Inr ()"
| "check_keys values (key # keys) =
     (case Mapping.lookup values (pk_name key) of
        None \<Rightarrow> Inl (InvalidPartition (''Missing key '' @ quoted (pk_name key)))
      | Some v \<Rightarrow> (case validate_value key v of Inl e \<Rightarrow> Inl e | Inr _ \<Rightarrow> check_keys values keys))"

text \<open>Of several unknown keys the code reports the one that its hash map yields first; here it is the least.\<close>

definition validate :: "partition_scheme \<Rightarrow> partition_values \<Rightarrow> unit result" where
  "validate keys values =
     (case check_keys values keys of
        Inl e \<Rightarrow> Inl e
      | Inr _ \<Rightarrow>
          (case filter (\<lambda>name. \<not> list_ex (\<lambda>k. pk_name k = name) keys) (Mapping.ordered_keys values) of
             [] \<Rightarrow> Inr ()
           | name # _ \<Rightarrow> Inl (InvalidPartition (''Unknown partition key '' @ quoted name))))"

section \<open>Paths\<close>

fun fmt_value :: "partition_value \<Rightarrow> string" where
  "fmt_value (Str_Value s) = s"
| "fmt_value (Int_Value i) = (if i < 0 then CHR ''-'' # dec_digits (nat (- i)) else dec_digits (nat i))"

fun join :: "string \<Rightarrow> string list \<Rightarrow> string" where
  "join sep [] = []"
| "join sep [s] = s"
| "join sep (s # t # ts) = s @ sep @ join sep (t # ts)"

text \<open>\<open>str::split\<close> at a character, and \<open>split_once\<close>.\<close>

fun split_at :: "char \<Rightarrow> string \<Rightarrow> string list" where
  "split_at c [] = [[]]"
| "split_at c (x # xs) = (if x = c then [] # split_at c xs else case split_at c xs of [] \<Rightarrow> [[x]] | p # ps \<Rightarrow> (x # p) # ps)"

fun split_once :: "char \<Rightarrow> string \<Rightarrow> (string \<times> string) option" where
  "split_once c [] = None"
| "split_once c (x # xs) = (if x = c then Some ([], xs) else map_option (\<lambda>(a, b). (x # a, b)) (split_once c xs))"

definition key_part :: "string \<Rightarrow> partition_value \<Rightarrow> string" where
  "key_part name v = name @ CHR ''='' # fmt_value v"

definition path_parts :: "partition_scheme \<Rightarrow> partition_values \<Rightarrow> string list" where
  "path_parts keys values = List.map_filter (\<lambda>key. map_option (key_part (pk_name key)) (Mapping.lookup values (pk_name key))) keys"

definition to_path :: "partition_scheme \<Rightarrow> partition_values \<Rightarrow> string" where
  "to_path keys values = join ''/'' (path_parts keys values)"

definition to_path_string :: "partition_values \<Rightarrow> string" where
  "to_path_string values = join ''/'' (map (\<lambda>(k, v). key_part k v) (Mapping.ordered_entries values))"

fun parse_parts :: "string list \<Rightarrow> partition_values \<Rightarrow> partition_values result" where
  "parse_parts [] values = Inr values"
| "parse_parts (part # parts) values =
     (if part = [] then parse_parts parts values
      else case split_once CHR ''='' part of
             None \<Rightarrow> Inl (InvalidPartition (''Invalid partition path segment: '' @ quoted part))
           | Some (key, v) \<Rightarrow> parse_parts parts (Mapping.update key (Str_Value v) values))"

definition from_path :: "string \<Rightarrow> partition_values result" where
  "from_path p = parse_parts (split_at CHR ''/'' p) Mapping.empty"

text \<open>\<open>str::parse::<i64>\<close>: an optional sign, then digits.\<close>

definition parse_i64 :: "string \<Rightarrow> int option" where
  "parse_i64 s =
     (let (neg, ds) = (case s of [] \<Rightarrow> (False, []) | c # r \<Rightarrow> if c = CHR ''-'' then (True, r) else if c = CHR ''+'' then (False, r) else (False, s))
      in if ds = [] then None
         else case dec_value 0 ds of
                None \<Rightarrow> None
              | Some n \<Rightarrow>
                  let i = (if neg then - int n else int n) in if - (2 ^ 63) \<le> i \<and> i < 2 ^ 63 then Some i else None)"

definition parse_partition_value :: "partition_scheme \<Rightarrow> string \<Rightarrow> string \<Rightarrow> nat \<Rightarrow> partition_value result" where
  "parse_partition_value keys key v depth =
     (if length keys \<le> depth then Inl (InvalidPartition (''Unexpected partition key: '' @ key))
      else let key_def = keys ! depth in
        if pk_name key_def \<noteq> key then
          Inl (InvalidPartition (''Expected key '' @ quoted (pk_name key_def) @ '' at depth '' @ dec_digits depth @ '', found '' @ quoted key))
        else case key_def of
               Int_Key _ \<Rightarrow> (case parse_i64 v of None \<Rightarrow> Inl (InvalidPartition (''Invalid integer value: '' @ v)) | Some i \<Rightarrow> Inr (Int_Value i))
             | _ \<Rightarrow> Inr (Str_Value v))"

section \<open>Filters\<close>

datatype partition_filter =
    All_Partitions
  | Exact partition_values
  | In_Set string "string list"
  | Range string string string
  | And "partition_filter list"

fun matches :: "partition_filter \<Rightarrow> partition_values \<Rightarrow> bool" where
  "matches All_Partitions p = True"
| "matches (Exact values) p = (p = values)"
| "matches (In_Set key values) p = (case Mapping.lookup p key of None \<Rightarrow> False | Some v \<Rightarrow> fmt_value v \<in> set values)"
| "matches (Range key lo hi) p = (case Mapping.lookup p key of None \<Rightarrow> False | Some v \<Rightarrow> lo \<le> fmt_value v \<and> fmt_value v \<le> hi)"
| "matches (And filters) p = list_all (\<lambda>f. matches f p) filters"

section \<open>Round trips\<close>

lemma split_once_key: "c \<notin> set k \<Longrightarrow> split_once c (k @ c # v) = Some (k, v)"
  by (induction k) auto

lemma split_at_none: "c \<notin> set s \<Longrightarrow> split_at c s = [s]"
  by (induction s) auto

lemma split_at_cons: "c \<notin> set s \<Longrightarrow> split_at c (s @ c # t) = s # split_at c t"
  by (induction s) auto

lemma split_join:
  assumes "ps \<noteq> []" "\<forall>p \<in> set ps. c \<notin> set p"
  shows "split_at c (join [c] ps) = ps"
  using assms by (induction "[c]" ps rule: join.induct) (simp_all add: split_at_none split_at_cons)

lemma parse_i64_fmt:
  assumes "- (2 ^ 63) \<le> i" "i < 2 ^ 63"
  shows "parse_i64 (fmt_value (Int_Value i)) = Some i"
proof -
  have digit: "\<exists>c r. dec_digits n = c # r \<and> c \<noteq> CHR ''-'' \<and> c \<noteq> CHR ''+''" for n
    using dec_digits_ascii [of n] by (cases "dec_digits n") (auto simp: is_ascii_digit_def dest: arg_cong [of _ _ dec_digits])
  show ?thesis
  proof (cases "i < 0")
    case True
    then show ?thesis using assms by (simp add: parse_i64_def dec_value_digits Let_def)
  next
    case False
    obtain c r where "dec_digits (nat i) = c # r" "c \<noteq> CHR ''-''" "c \<noteq> CHR ''+''" using digit by blast
    then show ?thesis using assms False dec_value_digits [of "nat i"] by (simp add: parse_i64_def Let_def)
  qed
qed

text \<open>The values of a partition that a path can carry.\<close>

definition plain_value :: "partition_value \<Rightarrow> bool" where
  "plain_value v = (case v of Str_Value s \<Rightarrow> CHR ''/'' \<notin> set s | Int_Value i \<Rightarrow> - (2 ^ 63) \<le> i \<and> i < 2 ^ 63)"

definition plain_scheme :: "partition_scheme \<Rightarrow> bool" where
  "plain_scheme keys \<longleftrightarrow> distinct (map pk_name keys) \<and> (\<forall>k \<in> set keys. CHR ''/'' \<notin> set (pk_name k) \<and> CHR ''='' \<notin> set (pk_name k))"

lemma parse_value_back:
  assumes "depth < length keys" "validate_value (keys ! depth) v = Inr ()" "plain_value v"
  shows "parse_partition_value keys (pk_name (keys ! depth)) (fmt_value v) depth = Inr v"
  using assms parse_i64_fmt
  by (cases "keys ! depth"; cases v) (auto simp: parse_partition_value_def Let_def plain_value_def simp del: fmt_value.simps(2))

end
