(* ===== verification/Rollers.thy ===== *)
theory Rollers
  imports Partition "HOL-Library.Product_Lexorder"
begin

text \<open>
  \<^verbatim>\<open>src/src/table/rollers.rs\<close>: the partition of a record from its time. The calendar that the code
  computes with two loops is shown to be the Gregorian one, given in closed form.
\<close>

section \<open>Time zones\<close>

datatype timezone = UTC | AsiaShanghai | AsiaTokyo | AmericaNewYork | Custom int

text \<open>
  The offset is parsed from the characters 1 to 2 and 3 to 4; slicing a shorter text panics. Two
  characters make no number outside the range of an \<open>i32\<close>.
\<close>

definition parse_offset :: "string \<Rightarrow> string \<Rightarrow> int result" where
  "parse_offset s part = (case parse_i64 part of None \<Rightarrow> Inl (InvalidPartition (''Invalid timezone offset: '' @ s)) | Some i \<Rightarrow> Inr i)"

definition timezone_from_str :: "string \<Rightarrow> timezone result" where
  "timezone_from_str s =
     (if s = ''UTC'' then Inr UTC
      else if s = ''Asia/Shanghai'' then Inr AsiaShanghai
      else if s = ''Asia/Tokyo'' then Inr AsiaTokyo
      else if s = ''America/New_York'' then Inr AmericaNewYork
      else if s \<noteq> [] \<and> (hd s = CHR ''+'' \<or> hd s = CHR ''-'') then
        if length s < 3 then Inl (Panic ''slice index out of range'')
        else case parse_offset s (take 2 (drop 1 s)) of
               Inl e \<Rightarrow> Inl e
             | Inr hours \<Rightarrow>
                 if length s < 5 then Inl (Panic ''slice index out of range'')
                 else case parse_offset s (take 2 (drop 3 s)) of
                        Inl e \<Rightarrow> Inl e
                      | Inr minutes \<Rightarrow>
                          let sign = (if hd s = CHR ''-'' then - 1 else 1) in Inr (Custom (sign * (hours * 3600 + minutes * 60)))
      else Inl (InvalidPartition (''Unknown timezone: '' @ s)))"

fun offset_seconds :: "timezone \<Rightarrow> int" where
  "offset_seconds UTC = 0"
| "offset_seconds AsiaShanghai = 8 * 3600"
| "offset_seconds AsiaTokyo = 9 * 3600"
| "offset_seconds AmericaNewYork = - 5 * 3600"
| "offset_seconds (Custom offset) = offset"

definition apply_offset :: "timezone \<Rightarrow> u64 \<Rightarrow> u64" where
  "apply_offset tz timestamp_ns = timestamp_ns + word_of_int (offset_seconds tz * 1000000000)"

section \<open>The calendar\<close>

definition is_leap_year :: "int \<Rightarrow> bool" where
  "is_leap_year year \<longleftrightarrow> year mod 4 = 0 \<and> year mod 100 \<noteq> 0 \<or> year mod 400 = 0"

abbreviation days_in_year :: "int \<Rightarrow> int" where
  "days_in_year year \<equiv> (if is_leap_year year then 366 else 365)"

text \<open>The two loops; the year fits an \<open>i32\<close> for every number of days that 64 bits of nanoseconds hold.\<close>

function year_loop :: "int \<Rightarrow> int \<Rightarrow> int \<times> int" where
  "year_loop days year = (if days < days_in_year year then (year, days) else year_loop (days - days_in_year year) (year + 1))"
  by pat_completeness auto
termination by (relation "measure (\<lambda>(days, _). nat days)") (auto split: if_splits)

declare year_loop.simps [simp del]

fun month_loop :: "int list \<Rightarrow> int \<Rightarrow> int \<Rightarrow> int \<times> int" where
  "month_loop [] days month = (month, days)"
| "month_loop (n # ns) days month = (if days < n then (month, days) else month_loop ns (days - n) (month + 1))"

definition days_in_months :: "int \<Rightarrow> int list" where
  "days_in_months year =
     (if is_leap_year year then [31, 29, 31, 30, 31, 30, 31, 31, 30, 31, 30, 31]
      else [31, 28, 31, 30, 31, 30, 31, 31, 30, 31, 30, 31])"

definition days_since_epoch_to_ymd :: "int \<Rightarrow> int \<times> int \<times> int" where
  "days_since_epoch_to_ymd days =
     (let (year, rest) = year_loop days 1970; (month, rest) = month_loop (days_in_months year) rest 1
      in (year, month, (rest + 1) mod 256))"

section \<open>The rollers\<close>

text \<open>\<open>format!("{:0w}", n)\<close> of a number that is not negative.\<close>

definition zero_pad :: "nat \<Rightarrow> nat \<Rightarrow> string" where
  "zero_pad w n = (let ds = dec_digits n in replicate (w - length ds) (digit_char 0) @ ds)"

record roller =
  rl_key :: string
  rl_timezone :: timezone
  rl_static :: partition_values

definition local_secs :: "timezone \<Rightarrow> u64 \<Rightarrow> nat" where
  "local_secs tz timestamp_ns = unat (apply_offset tz timestamp_ns) div 1000000000"

definition date_str :: "nat \<Rightarrow> string" where
  "date_str days =
     (let (year, month, day) = days_since_epoch_to_ymd (int days)
      in zero_pad 4 (nat year) @ CHR ''-'' # zero_pad 2 (nat month) @ CHR ''-'' # zero_pad 2 (nat day))"

definition date_partition :: "roller \<Rightarrow> u64 \<Rightarrow> partition_values" where
  "date_partition r timestamp_ns =
     (let ts_secs = local_secs (rl_timezone r) timestamp_ns
      in Mapping.update (rl_key r) (Str_Value (date_str (ts_secs div 86400))) (rl_static r))"

definition hour_partition :: "roller \<Rightarrow> u64 \<Rightarrow> partition_values" where
  "hour_partition r timestamp_ns =
     (let ts_secs = local_secs (rl_timezone r) timestamp_ns; hour = ts_secs mod 86400 div 3600
      in Mapping.update (rl_key r) (Str_Value (date_str (ts_secs div 86400) @ CHR ''-'' # zero_pad 2 hour)) (rl_static r))"

definition minute_partition :: "roller \<Rightarrow> u64 \<Rightarrow> partition_values" where
  "minute_partition r timestamp_ns =
     (let ts_secs = local_secs (rl_timezone r) timestamp_ns; seconds_in_day = ts_secs mod 86400;
          hour = seconds_in_day div 3600; minute = seconds_in_day mod 3600 div 60
      in Mapping.update (rl_key r) (Str_Value (date_str (ts_secs div 86400) @ CHR ''-'' # zero_pad 2 hour @ CHR ''-'' # zero_pad 2 minute)) (rl_static r))"

section \<open>The Gregorian calendar\<close>

text \<open>Days from the first of January 1970 to the first of January of a year, and to the first of a month, in closed form.\<close>

definition days_before_year :: "int \<Rightarrow> int" where
  "days_before_year year = 365 * (year - 1970) + (year - 1) div 4 - (year - 1) div 100 + (year - 1) div 400 - 477"

definition days_before_month :: "int \<Rightarrow> nat \<Rightarrow> int" where
  "days_before_month year month = sum_list (take (month - 1) (days_in_months year))"

definition valid_date :: "int \<times> int \<times> int \<Rightarrow> bool" where
  "valid_date = (\<lambda>(y, m, d). 1970 \<le> y \<and> 1 \<le> m \<and> m \<le> 12 \<and> 1 \<le> d \<and> d \<le> days_in_months y ! nat (m - 1))"

definition date_to_days :: "int \<times> int \<times> int \<Rightarrow> int" where
  "date_to_days = (\<lambda>(y, m, d). days_before_year y + days_before_month y (nat m) + d - 1)"

lemma div_step:
  fixes y n :: int
  assumes "0 < n"
  shows "y div n = (y - 1) div n + (if y mod n = 0 then 1 else 0)"
proof (cases "y mod n = 0")
  case True
  have "y - 1 = n * (y div n - 1) + (n - 1)" using True mult_div_mod_eq [of n y] by (simp add: algebra_simps)
  then have "(y - 1) div n = y div n - 1" by (rule int_div_pos_eq) (use assms in simp_all)
  then show ?thesis using True by simp
next
  case False
  then have "0 < y mod n" using pos_mod_sign [OF assms, of y] by simp
  moreover have "y - 1 = n * (y div n) + (y mod n - 1)" using mult_div_mod_eq [of n y] by simp
  then have "(y - 1) div n = y div n" by (rule int_div_pos_eq) (use calculation pos_mod_bound [OF assms, of y] in simp_all)
  then show ?thesis using False by simp
qed

lemma days_before_next: "days_before_year (year + 1) = days_before_year year + days_in_year year"
proof -
  have "year mod 4 = 0" if "year mod 100 = 0" using that dvd_trans [of 4 100 year] by (simp add: dvd_eq_mod_eq_0)
  moreover have "year mod 100 = 0" if "year mod 400 = 0" using that dvd_trans [of 100 400 year] by (simp add: dvd_eq_mod_eq_0)
  ultimately have leap: "(if is_leap_year year then 1 else 0) =
      (if year mod 4 = 0 then 1 else 0) - (if year mod 100 = 0 then 1 else 0) + (if year mod 400 = 0 then 1 else (0::int))"
    by (auto simp: is_leap_year_def)
  have count: "365 * (e - 1970) + 365 + a - b + c - 477 = 365 * (e - 1970) + a' - b' + c' - 477 + (365 + l)"
    if "a = a' + x" "b = b' + y" "c = c' + z" "l = x - y + z" for a a' b b' c c' e l x y z :: int
    using that by simp
  have "days_before_year (year + 1) = 365 * (year - 1970) + 365 + year div 4 - year div 100 + year div 400 - 477"
    by (simp add: days_before_year_def)
  also have "\<dots> = days_before_year year + (365 + (if is_leap_year year then 1 else 0))"
    unfolding days_before_year_def by (rule count [OF div_step div_step div_step leap]) simp_all
  also have "\<dots> = days_before_year year + days_in_year year" by simp
  finally show ?thesis .
qed

lemma year_loop_ok:
  assumes "0 \<le> days" "year_loop days year = (y, rest)"
  shows "year \<le> y \<and> 0 \<le> rest \<and> rest < days_in_year y \<and> days_before_year year + days = days_before_year y + rest"
  using assms
proof (induction days year rule: year_loop.induct)
  case (1 days year)
  show ?case
  proof (cases "days < days_in_year year")
    case True
    then show ?thesis using 1(2,3) by (simp add: year_loop.simps [of days year])
  next
    case False
    then have "year_loop (days - days_in_year year) (year + 1) = (y, rest)" using 1(3) by (simp add: year_loop.simps [of days year])
    then show ?thesis using 1(1) [OF False] False days_before_next [of year] by auto
  qed
qed

lemma month_loop_ok:
  assumes "0 \<le> days" "days < sum_list ns" "\<forall>n \<in> set ns. 0 \<le> n"
  shows "\<exists>k rest. month_loop ns days month = (month + int k, rest) \<and> k < length ns \<and> 0 \<le> rest \<and> rest < ns ! k \<and> days = sum_list (take k ns) + rest"
  using assms
proof (induction ns days month rule: month_loop.induct)
  case (2 n ns days month)
  show ?case
  proof (cases "days < n")
    case True
    then show ?thesis using 2 by (auto intro!: exI [of _ 0])
  next
    case False
    then obtain k rest where "month_loop ns (days - n) (month + 1) = (month + 1 + int k, rest)" "k < length ns" "0 \<le> rest" "rest < ns ! k"
      "days - n = sum_list (take k ns) + rest"
      using 2 by auto
    then show ?thesis using False by (auto intro!: exI [of _ "Suc k"])
  qed
qed simp

lemma sum_days_in_months: "sum_list (days_in_months year) = days_in_year year"
  by (simp add: days_in_months_def)

lemma gregorian:
  assumes "0 \<le> days"
  shows "valid_date (days_since_epoch_to_ymd days) \<and> date_to_days (days_since_epoch_to_ymd days) = days"
proof -
  obtain y rest where y: "year_loop days 1970 = (y, rest)" by (cases "year_loop days 1970")
  note yl = year_loop_ok [OF assms y]
  have r: "0 \<le> rest" "rest < sum_list (days_in_months y)" using yl by (simp_all add: sum_days_in_months)
  have pos: "\<forall>n \<in> set (days_in_months y). 0 \<le> n \<and> n \<le> 31" by (auto simp: days_in_months_def)
  obtain k rest' where m: "month_loop (days_in_months y) rest 1 = (1 + int k, rest')" "k < length (days_in_months y)" "0 \<le> rest'"
    "rest' < days_in_months y ! k" "rest = sum_list (take k (days_in_months y)) + rest'"
    using month_loop_ok [OF r, of 1] pos by blast
  have "rest' < 31" using m(2,4) pos nth_mem by fastforce
  then have "days_since_epoch_to_ymd days = (y, 1 + int k, rest' + 1)" using y m(1,3) by (simp add: days_since_epoch_to_ymd_def Let_def)
  moreover have "k < 12" using m(2) by (simp add: days_in_months_def split: if_splits)
  moreover have "days_before_year 1970 = 0" by (simp add: days_before_year_def)
  ultimately show ?thesis
    using m yl by (simp add: valid_date_def date_to_days_def days_before_month_def nat_add_distrib)
qed

text \<open>
  Property C25. The calendar is the Gregorian one. For every number of days since the epoch the
  loops give a valid date, and the closed formula for the day number of that date gives the
  days back; so different days have different dates.
\<close>

theorem date_is_gregorian:
  assumes "0 \<le> days"
  shows "valid_date (days_since_epoch_to_ymd days) \<and> date_to_days (days_since_epoch_to_ymd days) = days"
  by (rule gregorian [OF assms])

theorem date_is_gregorian_witness: "valid_date (days_since_epoch_to_ymd 20482) \<and> date_to_days (days_since_epoch_to_ymd 20482) = 20482"
  by (rule date_is_gregorian) simp

section \<open>The order of dates\<close>

lemma days_before_year_mono: "y < y' \<Longrightarrow> days_before_year y + days_in_year y \<le> days_before_year y'"
proof (induction "nat (y' - y)" arbitrary: y')
  case (Suc n)
  show ?case
  proof (cases "y + 1 = y'")
    case True
    then show ?thesis using days_before_next [of y] by simp
  next
    case False
    then have "days_before_year y + days_in_year y \<le> days_before_year (y' - 1)" using Suc by (intro Suc.hyps(1)) auto
    then show ?thesis using days_before_next [of "y' - 1"] by (simp split: if_splits)
  qed
qed simp

lemma take_sum_mono:
  fixes ns :: "int list"
  assumes "\<forall>n \<in> set ns. 0 \<le> n" "i < j" "j \<le> length ns"
  shows "sum_list (take i ns) + ns ! i \<le> sum_list (take j ns)"
proof -
  have "sum_list (take i ns) + ns ! i = sum_list (take (Suc i) ns)" using assms(2,3) by (simp add: take_Suc_conv_app_nth)
  moreover have "take j ns = take (Suc i) ns @ take (j - Suc i) (drop (Suc i) ns)" using assms(2) by (metis Suc_leI le_add_diff_inverse take_add)
  moreover have "0 \<le> sum_list (take (j - Suc i) (drop (Suc i) ns))" using assms(1) by (intro sum_list_nonneg) (meson in_set_dropD in_set_takeD)
  ultimately show ?thesis by simp
qed

lemma date_to_days_mono:
  assumes "valid_date (y, m, d)" "valid_date (y', m', d')" "(y, m, d) < (y', m', d')"
  shows "date_to_days (y, m, d) < date_to_days (y', m', d')"
proof -
  have len: "length (days_in_months x) = 12" and pos: "\<forall>n \<in> set (days_in_months x). 0 \<le> n" for x by (simp_all add: days_in_months_def)
  have v: "1 \<le> m" "m \<le> 12" "1 \<le> d" "d \<le> days_in_months y ! nat (m - 1)" "1 \<le> m'" "m' \<le> 12" "1 \<le> d'"
    using assms(1,2) by (simp_all add: valid_date_def)
  have i: "nat (m - 1) = nat m - 1" "nat (m' - 1) = nat m' - 1" "nat m - 1 < 12" using v by simp_all
  consider "y < y'" | "y = y'" "m < m'" | "y = y'" "m = m'" "d < d'" using assms(3) by (auto simp: le_less)
  then show ?thesis
  proof cases
    case 1
    have "days_before_month y (nat m) + d \<le> sum_list (days_in_months y)"
      using take_sum_mono [OF pos i(3), of y] v(4) len by (simp add: days_before_month_def i(1))
    moreover have "0 \<le> days_before_month y' (nat m')"
      using pos [of y'] unfolding days_before_month_def by (intro sum_list_nonneg) (meson in_set_takeD)
    ultimately show ?thesis using days_before_year_mono [OF 1] v(7) by (simp add: date_to_days_def sum_days_in_months)
  next
    case 2
    have "nat m - 1 < nat m' - 1" "nat m' - 1 \<le> length (days_in_months y)" using v 2 len by simp_all
    then have "days_before_month y (nat m) + d \<le> days_before_month y (nat m')"
      using take_sum_mono [OF pos] v(4) by (fastforce simp: days_before_month_def i(1))
    then show ?thesis using 2 v(7) by (simp add: date_to_days_def)
  next
    case 3
    then show ?thesis by (simp add: date_to_days_def)
  qed
qed

section \<open>The order of their texts\<close>

lemma less_append: "length a = length b \<Longrightarrow> (a @ x < b @ y) = (a < b \<or> a = b \<and> x < y)" for a b :: "'a :: linorder list"
  by (induction a b rule: list_induct2) auto

text \<open>Digits of a fixed width.\<close>

fun fixed :: "nat \<Rightarrow> nat \<Rightarrow> string" where
  "fixed 0 n = []"
| "fixed (Suc w) n = fixed w (n div 10) @ [digit_char (n mod 10)]"

lemma length_fixed [simp]: "length (fixed w n) = w"
  by (induction w arbitrary: n) simp_all

lemma fixed_0: "fixed w 0 = replicate w (digit_char 0)"
  by (induction w) (simp_all add: replicate_append_same)

lemma zero_pad_fixed: "0 < w \<Longrightarrow> n < 10 ^ w \<Longrightarrow> zero_pad w n = fixed w n"
proof (induction w arbitrary: n)
  case (Suc w)
  show ?case
  proof (cases "n < 10")
    case True
    then show ?thesis by (simp add: zero_pad_def dec_digits.simps [of n] fixed_0)
  next
    case False
    then have "0 < w" using Suc.prems(2) by (cases w) auto
    then have "zero_pad w (n div 10) = fixed w (n div 10)" using Suc.IH [of "n div 10"] Suc.prems(2) by (simp add: less_mult_imp_div_less mult.commute)
    then show ?thesis using False by (simp add: zero_pad_def dec_digits.simps [of n] Let_def)
  qed
qed simp

lemma digit_char_less: "i < 10 \<Longrightarrow> j < 10 \<Longrightarrow> (digit_char i < digit_char j) = (i < j)"
  by (simp add: digit_char_def less_char_def)

lemma digit_char_eq: "i < 10 \<Longrightarrow> j < 10 \<Longrightarrow> (digit_char i = digit_char j) = (i = j)"
  using digit_char_less [of i j] digit_char_less [of j i] by (metis less_irrefl linorder_neqE_nat)

lemma fixed_less_eq: "n < 10 ^ w \<Longrightarrow> m < 10 ^ w \<Longrightarrow> (fixed w n < fixed w m \<longleftrightarrow> n < m) \<and> (fixed w n = fixed w m \<longleftrightarrow> n = m)"
proof (induction w arbitrary: n m)
  case (Suc w)
  have "n div 10 < 10 ^ w" "m div 10 < 10 ^ w" using Suc.prems by (simp_all add: less_mult_imp_div_less mult.commute)
  note IH = Suc.IH [OF this]
  have "10 * a + r < 10 * b + s \<longleftrightarrow> a < b \<or> a = b \<and> r < s" "10 * a + r = 10 * b + s \<longleftrightarrow> a = b \<and> r = s"
    if "r < 10" "s < 10" for a b r s :: nat
    using that by presburger+
  from this [of "n mod 10" "m mod 10" "n div 10" "m div 10"]
  have "n < m \<longleftrightarrow> n div 10 < m div 10 \<or> n div 10 = m div 10 \<and> n mod 10 < m mod 10"
    and "n = m \<longleftrightarrow> n div 10 = m div 10 \<and> n mod 10 = m mod 10" by simp_all
  then show ?case using IH by (simp add: less_append digit_char_less digit_char_eq)
qed simp

lemma zero_pad_less_eq:
  "0 < w \<Longrightarrow> n < 10 ^ w \<Longrightarrow> m < 10 ^ w \<Longrightarrow>
    length (zero_pad w n) = w \<and> (zero_pad w n < zero_pad w m \<longleftrightarrow> n < m) \<and> (zero_pad w n = zero_pad w m \<longleftrightarrow> n = m)"
  using fixed_less_eq by (simp add: zero_pad_fixed)

text \<open>The last day that 64 bits of nanoseconds reach is number 213503, in the year 2554.\<close>

lemma date_str_less:
  assumes "a \<le> 213503" "b \<le> 213503"
  shows "(date_str a < date_str b) = (a < b)" "(date_str a = date_str b) = (a = b)"
proof -
  have date: "\<exists>y m d. days_since_epoch_to_ymd (int n) = (int y, int m, int d) \<and> y < 10 ^ 4 \<and> m < 10 ^ 2 \<and> d < 10 ^ 2 \<and>
      valid_date (int y, int m, int d) \<and> date_to_days (int y, int m, int d) = int n" if "n \<le> 213503" for n
  proof -
    obtain y m d where ymd: "days_since_epoch_to_ymd (int n) = (y, m, d)" by (metis prod_cases3)
    then have v: "valid_date (y, m, d)" "date_to_days (y, m, d) = int n" using gregorian [of "int n"] by simp_all
    have "days_in_months y ! nat (m - 1) \<in> set (days_in_months y)" using v(1) by (intro nth_mem) (auto simp: valid_date_def days_in_months_def)
    then have "d \<le> 31" using v(1) by (auto simp: valid_date_def days_in_months_def split: if_splits)
    moreover have "y < 10000"
    proof (rule ccontr)
      assume "\<not> y < 10000"
      then have "date_to_days (9999, 1, 1) < date_to_days (y, m, d)"
        by (intro date_to_days_mono v(1)) (auto simp: valid_date_def days_in_months_def)
      then show False using v(2) that by (simp add: date_to_days_def days_before_year_def days_before_month_def)
    qed
    moreover have "0 \<le> y" "0 \<le> m" "m \<le> 12" "0 \<le> d" using v(1) by (simp_all add: valid_date_def)
    ultimately show ?thesis using ymd v by (intro exI [of _ "nat y"] exI [of _ "nat m"] exI [of _ "nat d"]) auto
  qed
  obtain y m d where A: "days_since_epoch_to_ymd (int a) = (int y, int m, int d)" "y < 10 ^ 4" "m < 10 ^ 2" "d < 10 ^ 2"
    "valid_date (int y, int m, int d)" "date_to_days (int y, int m, int d) = int a" using date [OF assms(1)] by blast
  obtain y' m' d' where B: "days_since_epoch_to_ymd (int b) = (int y', int m', int d')" "y' < 10 ^ 4" "m' < 10 ^ 2" "d' < 10 ^ 2"
    "valid_date (int y', int m', int d')" "date_to_days (int y', int m', int d') = int b" using date [OF assms(2)] by blast
  note z = zero_pad_less_eq [of 4 y y'] zero_pad_less_eq [of 2 m m'] zero_pad_less_eq [of 2 d d'] zero_pad_less_eq [of 4 y' y] zero_pad_less_eq [of 2 m' m]
  have str: "date_str a < date_str b \<longleftrightarrow> (y, m, d) < (y', m', d')" "date_str a = date_str b \<longleftrightarrow> (y, m, d) = (y', m', d')"
    using z A(1-4) B(1-4) by (auto simp: date_str_def less_append)
  have "(int y, int m, int d) < (int y', int m', int d') \<longleftrightarrow> a < b"
    using date_to_days_mono [OF A(5) B(5)] date_to_days_mono [OF B(5) A(5)] A(6) B(6) by (metis linorder_neqE not_less_iff_gr_or_eq of_nat_less_iff)
  then show "(date_str a < date_str b) = (a < b)" using str(1) by simp
  show "(date_str a = date_str b) = (a = b)" using str(2) A B by auto
qed

section \<open>Partitions by date\<close>

lemma local_day_bound: "local_secs tz t div 86400 \<le> 213503"
  using unsigned_less [of "apply_offset tz t", where ?'a = nat] by (simp add: local_secs_def div_mult2_eq [symmetric])

text \<open>
  Property C26. Dates partition by the day and filters select by it. Two records fall into the
  same partition of a date roller exactly if they lie in the same local day; and a range filter
  between two dates, which compares texts, selects exactly the partitions of the days from the
  first to the last.
\<close>

theorem date_partition_exact:
  assumes "lo \<le> 213503" "hi \<le> 213503"
  shows "(date_partition r t = date_partition r t' \<longleftrightarrow> local_secs (rl_timezone r) t div 86400 = local_secs (rl_timezone r) t' div 86400) \<and>
    (matches (Range (rl_key r) (date_str lo) (date_str hi)) (date_partition r t) \<longleftrightarrow>
      lo \<le> local_secs (rl_timezone r) t div 86400 \<and> local_secs (rl_timezone r) t div 86400 \<le> hi)"
proof -
  let ?d = "\<lambda>t. local_secs (rl_timezone r) t div 86400"
  have lk: "Mapping.lookup (date_partition r t) (rl_key r) = Some (Str_Value (date_str (?d t)))" for t
    by (simp add: date_partition_def Let_def lookup_update')
  have "?d t = ?d t'" if "date_partition r t = date_partition r t'"
    using lk [of t] lk [of t'] that date_str_less(2) [OF local_day_bound local_day_bound] by simp
  moreover have "date_partition r t = date_partition r t'" if "?d t = ?d t'" using that by (simp add: date_partition_def Let_def)
  moreover have "date_str a \<le> date_str b \<longleftrightarrow> a \<le> b" if "a \<le> 213503" "b \<le> 213503" for a b
    using date_str_less [OF that] by (auto simp: le_less)
  ultimately show ?thesis using assms lk [of t] local_day_bound by auto
qed

definition demo_roller :: roller where
  "demo_roller = \<lparr>rl_key = ''date'', rl_timezone = AsiaShanghai, rl_static = Mapping.empty\<rparr>"

text \<open>Seventeen hours after the start of the epoch it is already the second day in Shanghai.\<close>

theorem date_partition_exact_witness:
  "(date_partition demo_roller (17 * 3600 * 1000000000) = date_partition demo_roller 0 \<longleftrightarrow> (1 :: nat) = 0) \<and>
   (matches (Range ''date'' (date_str 1) (date_str 5)) (date_partition demo_roller (17 * 3600 * 1000000000)) \<longleftrightarrow> (1 :: nat) \<le> 1 \<and> (1 :: nat) \<le> 5)"
  using date_partition_exact [of 1 5 demo_roller "17 * 3600 * 1000000000" 0]
  by (simp add: demo_roller_def local_secs_def apply_offset_def)

text \<open>
  West of Greenwich the first hours of the epoch lie in the year 2554. The offset is
  added modulo \<open>2\<^sup>6\<^sup>4\<close>, so a time smaller than the offset wraps around, and its date is that of the
  end of the range of nanoseconds.
\<close>

lemma western_offset_wraps:
  assumes "offset_seconds tz = - int k" "0 < k" "k \<le> 86400" "unat t < k * 1000000000"
  shows "213502 \<le> local_secs tz t div 86400"
proof -
  have "int (unat t) < int (k * 1000000000)" using assms(4) by (simp only: of_nat_less_iff)
  then have t: "0 \<le> uint t" "uint t < int k * 1000000000" by (simp_all only: of_nat_mult of_nat_numeral uint_nat of_nat_0_le_iff)
  have k: "int k \<le> 86400" using assms(3) by simp
  have "uint (word_of_nat k :: u64) = int k" using assms(3) by (simp add: uint_nat unsigned_of_nat take_bit_nat_eq_self)
  then have "uint (apply_offset tz t) = (uint t - int k * 1000000000) mod 18446744073709551616"
    by (simp add: apply_offset_def assms(1) uint_word_ariths mod_simps)
  also have "\<dots> = (uint t - int k * 1000000000 + 18446744073709551616) mod 18446744073709551616" by simp
  also have "\<dots> = uint t - int k * 1000000000 + 18446744073709551616"
    using t k by (intro mod_pos_pos_trivial) linarith+
  finally have "18446572800000000000 \<le> uint (apply_offset tz t)" using k t(1) by linarith
  then have "int 18446572800000000000 \<le> int (unat (apply_offset tz t))" by (simp only: of_nat_numeral uint_nat)
  then have "18446572800000000000 \<le> unat (apply_offset tz t)" by (simp only: of_nat_le_iff)
  then have "18446572800000000000 div 86400000000000 \<le> unat (apply_offset tz t) div 86400000000000" by (rule div_le_mono)
  then show ?thesis by (simp add: local_secs_def div_mult2_eq [symmetric])
qed

end
