(* ===== verification/Files.thy ===== *)
theory Files
  imports Seek_Index
begin

text \<open>
  The one-call file operations of the standard library that the tables, the bus and the life-cycle
  manager use: \<open>fs::write\<close>, \<open>fs::read_to_string\<close> and the walk over a directory tree.
\<close>

section \<open>Whole files\<close>

definition fs_write :: "path \<Rightarrow> bytes \<Rightarrow> (fs, unit) io" where
  "fs_write p bs = bind (open_write p True) (\<lambda>i. write_at i 0 bs)"

text \<open>\<open>str::from_utf8\<close>: one to four bytes, no overlong form, no surrogate and nothing above the last code point.\<close>

abbreviation utf8_tail :: "u8 \<Rightarrow> bool" where
  "utf8_tail b \<equiv> 0x80 \<le> b \<and> b \<le> 0xBF"

fun utf8_ok :: "bytes \<Rightarrow> bool" where
  "utf8_ok [] = True"
| "utf8_ok (b # bs) =
     (if b < 0x80 then utf8_ok bs
      else if 0xC2 \<le> b \<and> b \<le> 0xDF then (case bs of c # r \<Rightarrow> utf8_tail c \<and> utf8_ok r | [] \<Rightarrow> False)
      else if 0xE0 \<le> b \<and> b \<le> 0xEF then
        (case bs of c # d # r \<Rightarrow> (if b = 0xE0 then 0xA0 else 0x80) \<le> c \<and> c \<le> (if b = 0xED then 0x9F else 0xBF) \<and> utf8_tail d \<and> utf8_ok r | _ \<Rightarrow> False)
      else if 0xF0 \<le> b \<and> b \<le> 0xF4 then
        (case bs of c # d # e # r \<Rightarrow> (if b = 0xF0 then 0x90 else 0x80) \<le> c \<and> c \<le> (if b = 0xF4 then 0x8F else 0xBF) \<and> utf8_tail d \<and> utf8_tail e \<and> utf8_ok r | _ \<Rightarrow> False)
      else False)"

definition read_text :: "path \<Rightarrow> (fs, bytes) io" where
  "read_text p =
     bind (open_read p) (\<lambda>i. bind (get (\<lambda>s. fs_data s i)) (\<lambda>bs. if utf8_ok bs then ret bs else fail (Io OtherIo)))"

lemma ascii_utf8: "\<forall>b \<in> set bs. b < 0x80 \<Longrightarrow> utf8_ok bs"
  by (induction bs) auto

text \<open>A write succeeds when the directory is there, and touches nothing but its file.\<close>

lemma fs_write_ok:
  assumes "is_dir s (butlast p)"
  shows "\<exists>i s'. fs_write p bs s = (Inr (), s') \<and> lookup_path s' p = Some i \<and> fs_data s' i = bs \<and> is_dir s' = is_dir s \<and>
    (fs_wf s \<longrightarrow> fs_wf s' \<and> (\<forall>q. q \<noteq> p \<longrightarrow> lookup_path s' q = lookup_path s q \<and> (\<forall>j. lookup_path s q = Some j \<longrightarrow> fs_data s' j = fs_data s j)))"
proof -
  obtain i s1 where o: "open_write p True s = (Inr i, s1)" "lookup_path s1 p = Some i" "fs_data s1 i = []" "is_dir s1 = is_dir s"
    "fs_wf s \<Longrightarrow> fs_wf s1" "\<And>q. q \<noteq> p \<Longrightarrow> lookup_path s1 q = lookup_path s q" "\<And>j. j \<noteq> i \<Longrightarrow> fs_data s1 j = fs_data s j"
    using open_write_empties [OF assms] by blast
  have w: "fs_write p bs s = (Inr (), fs_set i bs s1)" using o(1,3) by (simp add: fs_write_def bind_ok write_at_def modify_def bsplice_def)
  have "j \<noteq> i" if "fs_wf s" "q \<noteq> p" "lookup_path s q = Some j" for q j
    using fs_wf_inj [OF o(5) [OF that(1)] o(2)] that(2,3) o(6) by metis
  then show ?thesis using w o by auto
qed

section \<open>Directory trees\<close>

text \<open>How deep the directories go: what bounds a walk.\<close>

definition fs_depth :: "fs \<Rightarrow> nat" where
  "fs_depth s = foldr max (map length (fs_dirs s)) 0"

lemma fs_depth_bound: "is_dir s p \<Longrightarrow> length p \<le> fs_depth s"
proof -
  have "x \<in> set xs \<Longrightarrow> x \<le> foldr max xs 0" for x and xs :: "nat list" by (induction xs) (auto simp: le_max_iff_disj)
  then show "is_dir s p \<Longrightarrow> length p \<le> fs_depth s" by (simp add: fs_depth_def is_dir_def)
qed

lemma read_dir_subdir: "p \<noteq> [] \<Longrightarrow> butlast p = d \<Longrightarrow> is_dir s p \<Longrightarrow> (last p, False) \<in> set (read_dir d s)"
  by (auto simp: read_dir_def is_dir_def)

end
