(* ===== verification/Table.thy ===== *)
theory Table
  imports Time_Seek Rollers Files
begin

text \<open>
  Tables: \<^verbatim>\<open>src/src/table/metadata.rs\<close>, \<^verbatim>\<open>src/src/table/config.rs\<close> and \<^verbatim>\<open>src/src/table/table.rs\<close>. A table is
  a directory with a metadata file and a time-series log for each partition, under the path
  that spells the partition's values. The conversion of the metadata to and from JSON
  (\<open>serde_json\<close>) is a pair of arguments, and so is the time of creation.
\<close>

section \<open>Configuration and metadata\<close>

datatype compression_policy =
    Never
  | Idle_After nat bool
  | Age_After nat
  | Immediate
  | Size_Threshold nat

record table_config =
  tc_segment_size :: nat
  tc_index_stride :: nat
  tc_validate_partition_order :: bool
  tc_compression_policy :: compression_policy
  tc_compression_level :: int
  tc_compression_block_size :: nat
  tc_track_access :: bool

definition default_table_config :: table_config where
  "default_table_config =
     \<lparr>tc_segment_size = 64 * 1024 * 1024, tc_index_stride = 100, tc_validate_partition_order = True,
      tc_compression_policy = Idle_After 7 True, tc_compression_level = 3, tc_compression_block_size = 1024 * 1024, tc_track_access = True\<rparr>"

record table_metadata =
  md_version :: u32
  md_created_at :: u64
  md_scheme :: partition_scheme

abbreviation METADATA_VERSION :: u32 where
  "METADATA_VERSION \<equiv> 1"

type_synonym to_json = "table_metadata \<Rightarrow> bytes option"
type_synonym from_json = "bytes \<Rightarrow> table_metadata option"

definition metadata_new :: "u64 \<Rightarrow> partition_scheme \<Rightarrow> table_metadata" where
  "metadata_new now scheme = \<lparr>md_version = METADATA_VERSION, md_created_at = now, md_scheme = scheme\<rparr>"

definition metadata_path :: "path \<Rightarrow> path" where
  "metadata_path root = root @ [''_table'', ''metadata.json'']"

definition metadata_save :: "to_json \<Rightarrow> path \<Rightarrow> table_metadata \<Rightarrow> (fs, unit) io" where
  "metadata_save json root md =
     bind (modify (create_dir_all (root @ [''_table'']))) (\<lambda>_.
     case json md of
       None \<Rightarrow> fail (Io OtherIo)
     | Some text \<Rightarrow> fs_write (metadata_path root) text)"

definition metadata_load :: "from_json \<Rightarrow> path \<Rightarrow> (fs, table_metadata) io" where
  "metadata_load unjson root =
     bind (get (\<lambda>s. path_exists s (metadata_path root))) (\<lambda>ex.
     if \<not> ex then fail (Io NotFound)
     else bind (read_text (metadata_path root)) (\<lambda>text.
          case unjson text of
            None \<Rightarrow> fail (Corrupt ''invalid metadata JSON'')
          | Some md \<Rightarrow> if md_version md \<noteq> METADATA_VERSION then fail (UnsupportedVersion (md_version md)) else ret md))"

definition metadata_exists :: "path \<Rightarrow> fs \<Rightarrow> bool" where
  "metadata_exists root s = path_exists s (metadata_path root)"

section \<open>The table\<close>

record table =
  tb_root :: path
  tb_metadata :: table_metadata
  tb_config :: table_config

abbreviation tb_keys :: "table \<Rightarrow> partition_scheme" where
  "tb_keys t \<equiv> md_scheme (tb_metadata t)"

definition table_create :: "to_json \<Rightarrow> u64 \<Rightarrow> path \<Rightarrow> partition_scheme \<Rightarrow> table_config \<Rightarrow> (fs, table) io" where
  "table_create json now root scheme config =
     bind (get (metadata_exists root)) (\<lambda>ex.
     if ex then fail (Io AlreadyExists)
     else bind (modify (create_dir_all root)) (\<lambda>_.
          let metadata = metadata_new now scheme in
          bind (metadata_save json root metadata) (\<lambda>_.
          ret \<lparr>tb_root = root, tb_metadata = metadata, tb_config = config\<rparr>)))"

definition table_open :: "from_json \<Rightarrow> path \<Rightarrow> table_config \<Rightarrow> (fs, table) io" where
  "table_open unjson root config =
     bind (metadata_load unjson root) (\<lambda>metadata. ret \<lparr>tb_root = root, tb_metadata = metadata, tb_config = config\<rparr>)"

text \<open>
  \<open>Path::join\<close> with a string: its components are appended, empty ones dropped, and a leading
  slash makes it absolute. Components \<open>.\<close> and \<open>..\<close> are ordinary names here.
\<close>

definition path_join :: "path \<Rightarrow> string \<Rightarrow> path" where
  "path_join root s = (if s \<noteq> [] \<and> hd s = CHR ''/'' then [] else root) @ filter (\<lambda>c. c \<noteq> []) (split_at CHR ''/'' s)"

definition partition_path :: "table \<Rightarrow> partition_values \<Rightarrow> path" where
  "partition_path t p = path_join (tb_root t) (to_path (tb_keys t) p)"

text \<open>The writer of a partition only wraps the time-series writer; \<open>table_writer\<close> is both \<open>writer\<close> and \<open>create_ts_writer\<close>.\<close>

definition table_writer :: "table \<Rightarrow> partition_values \<Rightarrow> (fs, ts_writer) io" where
  "table_writer t p =
     bind (lift (validate (tb_keys t) p)) (\<lambda>_.
     bind (modify (create_dir_all (partition_path t p))) (\<lambda>_.
     ts_open (partition_path t p) (tc_segment_size (tb_config t)) (tc_index_stride (tb_config t))))"

definition table_reader :: "table \<Rightarrow> partition_values \<Rightarrow> (fs, ts_reader) io" where
  "table_reader t p =
     bind (lift (validate (tb_keys t) p)) (\<lambda>_. ts_reader_open (partition_path t p))"

section \<open>Listing the partitions\<close>

type_synonym partition_info = "partition_values \<times> path"

text \<open>
  \<open>scan_entries\<close> is the loop over the entries of a directory; \<open>depth\<close> is the number of values
  when it was entered, and each value is removed again after its subdirectory.
\<close>

definition scan_left :: "(partition_scheme \<times> fs \<times> path \<times> partition_values \<times> partition_info list) +
    (partition_scheme \<times> fs \<times> path \<times> nat \<times> (string \<times> bool) list \<times> partition_values \<times> partition_info list) \<Rightarrow> nat \<times> nat" where
  "scan_left x =
     (case x of
        Inl (keys, s, dir, values, acc) \<Rightarrow> (Suc (fs_depth s) - length dir, Suc (length (read_dir dir s)))
      | Inr (keys, s, dir, depth, es, values, acc) \<Rightarrow> (Suc (fs_depth s) - length dir, length es))"

function scan_partitions :: "partition_scheme \<Rightarrow> fs \<Rightarrow> path \<Rightarrow> partition_values \<Rightarrow> partition_info list \<Rightarrow> partition_info list result"
  and scan_entries :: "partition_scheme \<Rightarrow> fs \<Rightarrow> path \<Rightarrow> nat \<Rightarrow> (string \<times> bool) list \<Rightarrow> partition_values \<Rightarrow> partition_info list \<Rightarrow> partition_info list result" where
  "scan_partitions keys s dir values acc =
     (let depth = Mapping.size values in
      if depth = length keys then Inr (acc @ [(values, dir)])
      else if \<not> is_dir s dir then Inl (Io NotFound)
      else scan_entries keys s dir depth (read_dir dir s) values acc)"
| "scan_entries keys s dir depth [] values acc = Inr acc"
| "scan_entries keys s dir depth (e # es) values acc =
     (let path = dir @ [fst e] in
      if fst e = ''_table'' \<or> \<not> is_dir s path then scan_entries keys s dir depth es values acc
      else case split_once CHR ''='' (fst e) of
             None \<Rightarrow> scan_entries keys s dir depth es values acc
           | Some (key, v) \<Rightarrow>
               (case parse_partition_value keys key v depth of
                  Inl err \<Rightarrow> Inl err
                | Inr pv \<Rightarrow>
                    (case scan_partitions keys s path (Mapping.update key pv values) acc of
                       Inl err \<Rightarrow> Inl err
                     | Inr acc' \<Rightarrow> scan_entries keys s dir depth es (Mapping.delete key values) acc')))"
  by pat_completeness auto
termination
proof (relation "inv_image (less_than <*lex*> less_than) scan_left", goal_cases)
  case (5 keys s dir depth e)
  then have "length dir < fs_depth s" using fs_depth_bound [of s "dir @ [fst e]"] by simp
  then show ?case using 5(1) by (simp add: scan_left_def Suc_diff_le)
qed (auto simp: scan_left_def)

declare scan_partitions.simps [simp del]

definition table_partitions :: "table \<Rightarrow> fs \<Rightarrow> partition_info list result" where
  "table_partitions t s = scan_partitions (tb_keys t) s (tb_root t) Mapping.empty []"

section \<open>The tree of a table\<close>

text \<open>The part of the path for each key; and values that fit the scheme and can be written in a path: without a slash, and without a NUL, which the system refuses.\<close>

definition part_of :: "partition_values \<Rightarrow> partition_key \<Rightarrow> string" where
  "part_of v k = key_part (pk_name k) (the (Mapping.lookup v (pk_name k)))"

definition partition_ok :: "partition_scheme \<Rightarrow> partition_values \<Rightarrow> bool" where
  "partition_ok keys v \<longleftrightarrow> finite (Mapping.keys v) \<and> validate keys v = Inr () \<and>
     (\<forall>k \<in> set keys. \<forall>x. Mapping.lookup v (pk_name k) = Some x \<longrightarrow> plain_value x) \<and> CHR 0x00 \<notin> set (concat (map (part_of v) keys))"

lemma validate_iff:
  "validate keys v = Inr () \<longleftrightarrow> (\<forall>k \<in> set keys. \<exists>x. Mapping.lookup v (pk_name k) = Some x \<and> validate_value k x = Inr ()) \<and>
     set (Mapping.ordered_keys v) \<subseteq> pk_name ` set keys"
proof -
  have "check_keys v keys = Inr () \<longleftrightarrow> (\<forall>k \<in> set keys. \<exists>x. Mapping.lookup v (pk_name k) = Some x \<and> validate_value k x = Inr ())"
    by (induction keys) (auto split: option.splits sum.splits)
  moreover have "(filter (\<lambda>name. \<not> list_ex (\<lambda>k. pk_name k = name) keys) (Mapping.ordered_keys v) = []) = (set (Mapping.ordered_keys v) \<subseteq> pk_name ` set keys)"
    by (auto simp: filter_empty_conv list_ex_iff image_iff)
  ultimately show ?thesis by (auto simp: validate_def split: sum.splits list.splits)
qed

text \<open>The values of the first keys.\<close>

definition first_values :: "partition_scheme \<Rightarrow> nat \<Rightarrow> partition_values \<Rightarrow> partition_values" where
  "first_values keys n v = fold (\<lambda>k. Mapping.update (pk_name k) (the (Mapping.lookup v (pk_name k)))) (take n keys) Mapping.empty"

lemma first_values_lookup:
  "Mapping.lookup (first_values keys n v) x = (if x \<in> pk_name ` set (take n keys) then Some (the (Mapping.lookup v x)) else None)"
proof -
  have "Mapping.lookup (fold (\<lambda>k. Mapping.update (pk_name k) (the (Mapping.lookup v (pk_name k)))) ks m) x =
    (if x \<in> pk_name ` set ks then Some (the (Mapping.lookup v x)) else Mapping.lookup m x)" for ks m
    by (induction ks arbitrary: m) (auto simp: lookup_update')
  then show ?thesis by (simp add: first_values_def)
qed

lemma first_values_keys: "Mapping.keys (first_values keys n v) = pk_name ` set (take n keys)"
  by (auto simp: keys_dom_lookup first_values_lookup split: if_splits)

lemma first_values_Suc:
  assumes "n < length keys"
  shows "first_values keys (Suc n) v = Mapping.update (pk_name (keys ! n)) (the (Mapping.lookup v (pk_name (keys ! n)))) (first_values keys n v)"
  using assms by (simp add: first_values_def take_Suc_conv_app_nth)

lemma first_values_all:
  assumes "partition_ok keys v"
  shows "first_values keys (length keys) v = v"
proof (rule mapping_eqI)
  fix x
  have "\<forall>k \<in> set keys. \<exists>y. Mapping.lookup v (pk_name k) = Some y" "Mapping.keys v \<subseteq> pk_name ` set keys"
    using assms by (auto simp: partition_ok_def validate_iff)
  then show "Mapping.lookup (first_values keys (length keys) v) x = Mapping.lookup v x"
    by (cases "Mapping.lookup v x") (auto simp: first_values_lookup keys_dom_lookup)
qed

lemma size_first_values:
  assumes "plain_scheme keys" "Mapping.keys m = pk_name ` set (take n keys)" "n \<le> length keys"
  shows "Mapping.size m = n"
proof -
  have "distinct (take n (map pk_name keys))" using assms(1) distinct_take unfolding plain_scheme_def by blast
  then have "card (set (take n (map pk_name keys))) = n" using assms(3) by (simp add: distinct_card)
  then show ?thesis using assms(2) by (simp add: Mapping.size_def take_map)
qed

text \<open>The name of a directory determines the value of its key.\<close>

lemma part_parse:
  assumes "plain_scheme keys" "partition_ok keys v" "n < length keys"
  shows "split_once CHR ''='' (part_of v (keys ! n)) = Some (pk_name (keys ! n), fmt_value (the (Mapping.lookup v (pk_name (keys ! n)))))"
    "parse_partition_value keys (pk_name (keys ! n)) (fmt_value (the (Mapping.lookup v (pk_name (keys ! n))))) n = Inr (the (Mapping.lookup v (pk_name (keys ! n))))"
    "part_of v (keys ! n) \<noteq> ''_table''"
proof -
  let ?k = "keys ! n"
  have k: "?k \<in> set keys" using assms(3) by simp
  then have c: "CHR ''='' \<notin> set (pk_name ?k)" using assms(1) by (simp add: plain_scheme_def)
  obtain x where x: "Mapping.lookup v (pk_name ?k) = Some x" "validate_value ?k x = Inr ()" "plain_value x"
    using assms(2) k by (auto simp: partition_ok_def validate_iff)
  show "split_once CHR ''='' (part_of v ?k) = Some (pk_name ?k, fmt_value (the (Mapping.lookup v (pk_name ?k))))"
    using split_once_key [OF c] by (simp add: part_of_def key_part_def)
  show "parse_partition_value keys (pk_name ?k) (fmt_value (the (Mapping.lookup v (pk_name ?k)))) n = Inr (the (Mapping.lookup v (pk_name ?k)))"
    using parse_value_back [OF assms(3) x(2,3)] x(1) by simp
  have "CHR ''='' \<in> set (part_of v ?k)" by (simp add: part_of_def key_part_def)
  then show "part_of v ?k \<noteq> ''_table''" by auto
qed

text \<open>A tree that holds exactly the partitions of a set: below the root there are the directories on their paths and no others.\<close>

definition table_tree :: "table \<Rightarrow> fs \<Rightarrow> partition_values set \<Rightarrow> bool" where
  "table_tree t s V \<longleftrightarrow> (let keys = tb_keys t; root = tb_root t in
     plain_scheme keys \<and> keys \<noteq> [] \<and> (\<forall>v \<in> V. partition_ok keys v) \<and> is_dir s root \<and>
     (\<forall>v \<in> V. \<forall>n \<le> length keys. is_dir s (root @ map (part_of v) (take n keys))) \<and>
     (\<forall>d. is_dir s (root @ d) \<and> d \<noteq> [] \<and> hd d \<noteq> ''_table'' \<and> length d \<le> length keys \<longrightarrow>
        (\<exists>v \<in> V. d = map (part_of v) (take (length d) keys))))"

text \<open>The partitions below a directory, and the step from there to its subdirectories.\<close>

abbreviation below :: "partition_scheme \<Rightarrow> path \<Rightarrow> partition_values set \<Rightarrow> path \<Rightarrow> (partition_values \<times> path) set" where
  "below keys root V ps \<equiv> {(v, root @ map (part_of v) keys) | v. v \<in> V \<and> map (part_of v) (take (length ps) keys) = ps}"

lemma scan_entries_exact:
  assumes tree: "table_tree t s V" and keys: "keys = tb_keys t" "root = tb_root t" and n: "n < length keys" "length ps = n"
    and here: "ps = [] \<or> hd ps \<noteq> ''_table''" and vals: "Mapping.keys vals = pk_name ` set (take n keys)"
    and uniq: "\<forall>v \<in> V. map (part_of v) (take n keys) = ps \<longrightarrow> first_values keys n v = vals"
    and sub: "\<And>name v acc. v \<in> V \<Longrightarrow> ps @ [name] = map (part_of v) (take (Suc n) keys) \<Longrightarrow>
      \<exists>infos. scan_partitions keys s (root @ ps @ [name]) (first_values keys (Suc n) v) acc = Inr (acc @ infos) \<and> set infos = below keys root V (ps @ [name])"
  shows "\<exists>infos. scan_entries keys s (root @ ps) n es vals acc = Inr (acc @ infos) \<and> set infos = (\<Union>e \<in> set es. below keys root V (ps @ [fst e]))"
proof (induction es arbitrary: acc)
  case (Cons e es)
  let ?name = "fst e" and ?k = "keys ! n"
  have ps: "plain_scheme keys" "\<forall>v \<in> V. partition_ok keys v" using tree keys by (simp_all add: table_tree_def Let_def)
  show ?case
  proof (cases "\<exists>v \<in> V. ps @ [?name] = map (part_of v) (take (Suc n) keys)")
    case False
    then have none: "below keys root V (ps @ [?name]) = {}" using n(2) by fastforce
    have "?name = ''_table'' \<or> \<not> is_dir s (root @ ps @ [?name])"
    proof (rule ccontr)
      assume "\<not> (?name = ''_table'' \<or> \<not> is_dir s (root @ ps @ [?name]))"
      moreover have "hd (ps @ [?name]) \<noteq> ''_table''" using here calculation by (cases ps) auto
      ultimately have "\<exists>v \<in> V. ps @ [?name] = map (part_of v) (take (length (ps @ [?name])) keys)"
        using tree keys n unfolding table_tree_def Let_def by (metis Suc_leI append_is_Nil_conv length_append_singleton list.distinct(1))
      then show False using False n(2) by simp
    qed
    then have "scan_entries keys s (root @ ps) n (e # es) vals acc = scan_entries keys s (root @ ps) n es vals acc" by simp
    moreover have "(\<Union>x \<in> set (e # es). below keys root V (ps @ [fst x])) = (\<Union>x \<in> set es. below keys root V (ps @ [fst x]))" using none by auto
    ultimately show ?thesis using Cons by presburger
  next
    case True
    then obtain v where v: "v \<in> V" "ps @ [?name] = map (part_of v) (take (Suc n) keys)" by blast
    then have nm: "?name = part_of v ?k" "map (part_of v) (take n keys) = ps" using n by (simp_all add: take_Suc_conv_app_nth)
    note p = part_parse [OF ps(1) ps(2) [rule_format, OF v(1)] n(1)]
    have dir: "is_dir s (root @ ps @ [?name])"
      using tree keys v n unfolding table_tree_def Let_def by (metis Suc_leI)
    obtain infos where i: "scan_partitions keys s (root @ ps @ [?name]) (first_values keys (Suc n) v) acc = Inr (acc @ infos)"
      "set infos = below keys root V (ps @ [?name])" using sub [OF v] by blast
    have "pk_name ?k \<notin> Mapping.keys vals"
      using ps(1) n(1) unfolding vals plain_scheme_def by (auto simp: in_set_conv_nth distinct_conv_nth)
    then have del: "Mapping.delete (pk_name ?k) vals = vals" by (rule Mapping_delete_if_notin_keys)
    have "first_values keys (Suc n) v = Mapping.update (pk_name ?k) (the (Mapping.lookup v (pk_name ?k))) vals"
      using first_values_Suc [OF n(1)] uniq v(1) nm(2) by simp
    then have "scan_entries keys s (root @ ps) n (e # es) vals acc = scan_entries keys s (root @ ps) n es vals (acc @ infos)"
      using p dir i(1) del nm(1) by (simp add: Let_def)
    then show ?thesis using Cons [of "acc @ infos"] i(2) by auto
  qed
qed simp

lemma first_values_inj:
  assumes "plain_scheme keys" "partition_ok keys w" "partition_ok keys v" "n \<le> length keys"
    and "map (part_of w) (take n keys) = map (part_of v) (take n keys)"
  shows "first_values keys n w = first_values keys n v"
proof (rule mapping_eqI)
  have "the (Mapping.lookup w (pk_name k)) = the (Mapping.lookup v (pk_name k))" if k: "k \<in> set (take n keys)" for k
  proof -
    obtain i where i: "i < n" "k = keys ! i" using k assms(4) by (auto simp: in_set_conv_nth)
    then have "part_of w k = part_of v k" using arg_cong [OF assms(5), of "\<lambda>l. l ! i"] assms(4) by simp
    then show ?thesis using part_parse(1,2) [OF assms(1,2), of i] part_parse(1,2) [OF assms(1,3), of i] i assms(4) by auto
  qed
  then show "Mapping.lookup (first_values keys n w) x = Mapping.lookup (first_values keys n v) x" for x
    by (auto simp: first_values_lookup)
qed

lemma scan_exact:
  assumes tree: "table_tree t s V" and keys: "keys = tb_keys t" "root = tb_root t" and n: "n \<le> length keys" "length ps = n"
    and here: "ps = [] \<and> vals = Mapping.empty \<or> (\<exists>v \<in> V. ps = map (part_of v) (take n keys) \<and> vals = first_values keys n v)"
  shows "\<exists>infos. scan_partitions keys s (root @ ps) vals acc = Inr (acc @ infos) \<and> set infos = below keys root V ps"
  using n here
proof (induction "length keys - n" arbitrary: n ps vals acc)
  case 0
  have tr: "keys \<noteq> []" "plain_scheme keys" "\<forall>v \<in> V. partition_ok keys v" using tree keys by (simp_all add: table_tree_def Let_def)
  then obtain v where v: "v \<in> V" "ps = map (part_of v) keys" "vals = v" using 0 first_values_all by auto
  have "w = v" if "w \<in> V" "map (part_of w) keys = map (part_of v) keys" for w
    using first_values_inj [OF tr(2), of w v "length keys"] first_values_all tr(3) v(1) that by simp
  then have "below keys root V ps = {(v, root @ ps)}" using v by auto
  moreover have "Mapping.size v = length keys"
    using size_first_values [OF tr(2), of v "length keys"] first_values_all [of keys v] first_values_keys [of keys "length keys" v] tr(3) v(1) by simp
  ultimately show ?case using v(3) by (simp add: scan_partitions.simps)
next
  case (Suc x)
  have tr: "plain_scheme keys" "\<forall>v \<in> V. partition_ok keys v" "is_dir s root"
    and dirs: "\<And>v m. v \<in> V \<Longrightarrow> m \<le> length keys \<Longrightarrow> is_dir s (root @ map (part_of v) (take m keys))"
    using tree keys by (simp_all add: table_tree_def Let_def)
  have n: "n < length keys" using Suc(2) by simp
  have dir: "is_dir s (root @ ps)" using Suc.prems(3) tr(3) dirs n by fastforce
  have vk: "Mapping.keys vals = pk_name ` set (take n keys)" using Suc.prems(2,3) first_values_keys by auto
  have uniq: "\<forall>v \<in> V. map (part_of v) (take n keys) = ps \<longrightarrow> first_values keys n v = vals"
  proof (intro ballI impI)
    fix v assume v: "v \<in> V" "map (part_of v) (take n keys) = ps"
    show "first_values keys n v = vals"
    proof (cases "ps = [] \<and> vals = Mapping.empty")
      case True
      then show ?thesis using Suc.prems(2) by (simp add: first_values_def)
    next
      case False
      then obtain w where "w \<in> V" "ps = map (part_of w) (take n keys)" "vals = first_values keys n w" using Suc.prems(3) by blast
      then show ?thesis using first_values_inj [OF tr(1), of v w n] tr(2) n v by simp
    qed
  qed
  have "part_of v (hd keys) \<noteq> ''_table''" if "v \<in> V" for v using part_parse(3) [OF tr(1), of v 0] tr(2) that n by (cases keys) auto
  then have hd: "ps = [] \<or> hd ps \<noteq> ''_table''" using Suc.prems(3) n by (cases keys; cases n) auto
  have sub: "\<exists>infos. scan_partitions keys s (root @ ps @ [name]) (first_values keys (Suc n) v) acc = Inr (acc @ infos) \<and> set infos = below keys root V (ps @ [name])"
    if "v \<in> V" "ps @ [name] = map (part_of v) (take (Suc n) keys)" for name v acc
  proof (rule Suc.hyps(1))
    show "x = length keys - Suc n" "Suc n \<le> length keys" "length (ps @ [name]) = Suc n" using Suc.hyps(2) Suc.prems(2) n by simp_all
    show "ps @ [name] = [] \<and> first_values keys (Suc n) v = Mapping.empty \<or>
      (\<exists>w \<in> V. ps @ [name] = map (part_of w) (take (Suc n) keys) \<and> first_values keys (Suc n) v = first_values keys (Suc n) w)"
      using that by blast
  qed
  have "\<exists>infos. scan_entries keys s (root @ ps) n (read_dir (root @ ps) s) vals acc = Inr (acc @ infos) \<and>
      set infos = (\<Union>e \<in> set (read_dir (root @ ps) s). below keys root V (ps @ [fst e]))"
    by (rule scan_entries_exact [OF tree keys n Suc.prems(2) hd vk uniq], rule sub)
  then obtain infos where i: "scan_entries keys s (root @ ps) n (read_dir (root @ ps) s) vals acc = Inr (acc @ infos)"
    "set infos = (\<Union>e \<in> set (read_dir (root @ ps) s). below keys root V (ps @ [fst e]))"
    by blast
  have "(\<Union>e \<in> set (read_dir (root @ ps) s). below keys root V (ps @ [fst e])) = below keys root V ps"
  proof (intro equalityI subsetI)
    fix y assume "y \<in> below keys root V ps"
    then obtain v where v: "v \<in> V" "map (part_of v) (take n keys) = ps" "y = (v, root @ map (part_of v) keys)" using Suc.prems(2) by auto
    have "is_dir s (root @ ps @ [part_of v (keys ! n)])" using dirs [OF v(1), of "Suc n"] n v(2) by (simp add: take_Suc_conv_app_nth)
    then have "(part_of v (keys ! n), False) \<in> set (read_dir (root @ ps) s)" using read_dir_subdir [of "root @ ps @ [part_of v (keys ! n)]"] by (simp add: butlast_append)
    moreover have "y \<in> below keys root V (ps @ [part_of v (keys ! n)])" using v n Suc.prems(2) by (auto simp: take_Suc_conv_app_nth)
    ultimately show "y \<in> (\<Union>e \<in> set (read_dir (root @ ps) s). below keys root V (ps @ [fst e]))" by force
  qed (use n Suc.prems(2) in \<open>auto simp: take_Suc_conv_app_nth\<close>)
  then show ?case using i dir n size_first_values [OF tr(1) vk] by (simp add: scan_partitions.simps Let_def)
qed

section \<open>Paths and new partitions\<close>

lemma fmt_value_plain: "plain_value x \<Longrightarrow> CHR ''/'' \<notin> set (fmt_value x)"
proof -
  have "CHR ''/'' \<notin> set (dec_digits n)" for n using dec_digits_ascii [of n] by (fastforce simp: list_all_iff is_ascii_digit_def)
  then show "plain_value x \<Longrightarrow> CHR ''/'' \<notin> set (fmt_value x)" by (cases x) (simp_all add: plain_value_def)
qed

lemma part_plain:
  assumes "plain_scheme keys" "partition_ok keys v" "k \<in> set keys"
  shows "CHR ''/'' \<notin> set (part_of v k)" "part_of v k \<noteq> []" "Mapping.lookup v (pk_name k) \<noteq> None"
  using assms fmt_value_plain by (fastforce simp: plain_scheme_def partition_ok_def validate_iff part_of_def key_part_def)+

lemma path_parts_eq:
  assumes "plain_scheme keys" "partition_ok keys v"
  shows "path_parts keys v = map (part_of v) keys"
proof -
  have "List.map_filter (\<lambda>key. map_option (key_part (pk_name key)) (Mapping.lookup v (pk_name key))) ks = map (part_of v) ks" if "set ks \<subseteq> set keys" for ks
    using that part_plain(3) [OF assms] by (induction ks) (fastforce simp: map_filter_simps part_of_def)+
  then show ?thesis by (simp add: path_parts_def)
qed

lemma hd_join: "ps \<noteq> [] \<Longrightarrow> hd ps \<noteq> [] \<Longrightarrow> join sep ps \<noteq> [] \<and> hd (join sep ps) = hd (hd ps)"
  by (cases "(sep, ps)" rule: join.cases) auto

lemma partition_path_eq:
  assumes "plain_scheme (tb_keys t)" "tb_keys t \<noteq> []" "partition_ok (tb_keys t) v"
  shows "partition_path t v = tb_root t @ map (part_of v) (tb_keys t)"
proof -
  let ?ps = "map (part_of v) (tb_keys t)"
  have ps: "\<forall>p \<in> set ?ps. CHR ''/'' \<notin> set p" "\<forall>p \<in> set ?ps. p \<noteq> []" using part_plain [OF assms(1,3)] by auto
  have "split_at CHR ''/'' (join ''/'' ?ps) = ?ps" using split_join [of ?ps "CHR ''/''"] ps(1) assms(2) by simp
  moreover have "hd ?ps \<noteq> []" "hd ?ps \<in> set ?ps" using ps(2) assms(2) by (cases "tb_keys t"; simp)+
  then have "hd (join ''/'' ?ps) \<noteq> CHR ''/''" using hd_join [of ?ps "''/''"] ps(1) assms(2) by (metis hd_in_set map_is_Nil_conv)
  moreover have "filter (\<lambda>c. c \<noteq> []) ?ps = ?ps" using ps(2) by (simp add: filter_id_conv)
  ultimately show ?thesis using path_parts_eq [OF assms(1,3)] by (simp add: partition_path_def path_join_def to_path_def)
qed

lemma table_tree_create:
  assumes "table_tree t s V" "partition_ok (tb_keys t) v"
  shows "table_tree t (create_dir_all (partition_path t v) s) (insert v V)"
proof -
  let ?keys = "tb_keys t" and ?root = "tb_root t"
  let ?p = "?root @ map (part_of v) ?keys"
  have tr: "plain_scheme ?keys" "?keys \<noteq> []" "\<forall>v \<in> V. partition_ok ?keys v" "is_dir s ?root"
    "\<forall>v \<in> V. \<forall>n \<le> length ?keys. is_dir s (?root @ map (part_of v) (take n ?keys))"
    "\<And>d. is_dir s (?root @ d) \<Longrightarrow> d \<noteq> [] \<Longrightarrow> hd d \<noteq> ''_table'' \<Longrightarrow> length d \<le> length ?keys \<Longrightarrow> \<exists>v \<in> V. d = map (part_of v) (take (length d) ?keys)"
    using assms(1) by (auto simp: table_tree_def Let_def)
  have pp: "partition_path t v = ?p" by (rule partition_path_eq [OF tr(1,2) assms(2)])
  have dir: "is_dir (create_dir_all ?p s) d \<longleftrightarrow> is_dir s d \<or> (\<exists>n. d = take n ?p)" for d by (rule is_dir_create_dir_all)
  have "is_dir (create_dir_all ?p s) (?root @ map (part_of v) (take n ?keys))" for n
    unfolding dir by (intro disjI2 exI [of _ "length ?root + n"]) (simp add: take_map)
  moreover have "\<exists>w \<in> insert v V. d = map (part_of w) (take (length d) ?keys)"
    if d: "is_dir (create_dir_all ?p s) (?root @ d)" "d \<noteq> []" "hd d \<noteq> ''_table''" "length d \<le> length ?keys" for d
  proof (cases "is_dir s (?root @ d)")
    case True
    then show ?thesis using tr(6) d by blast
  next
    case False
    then obtain n where "?root @ d = take n ?p" using d(1) dir by blast
    then have "?root @ d = take n ?root @ take (n - length ?root) (map (part_of v) ?keys)" by simp
    then have "d = take (n - length ?root) (map (part_of v) ?keys)"
      using d(2) by (cases "n \<le> length ?root") (auto dest!: arg_cong [of "tb_root t @ d" "take n (tb_root t)" length])
    then have "d = map (part_of v) (take (n - length ?root) ?keys)" by (simp add: take_map)
    then have "d = map (part_of v) (take (length d) ?keys)" by (metis length_map length_take take_map take_take min.idem take_all_iff nle_le min_def)
    then show ?thesis by blast
  qed
  ultimately show ?thesis using tr assms(2) unfolding pp table_tree_def Let_def dir by auto
qed

lemma table_partitions_ok:
  assumes "table_tree t s V"
  shows "\<exists>infos. table_partitions t s = Inr infos \<and> set infos = (\<lambda>v. (v, partition_path t v)) ` V"
proof -
  have tr: "plain_scheme (tb_keys t)" "tb_keys t \<noteq> []" "\<forall>v \<in> V. partition_ok (tb_keys t) v" using assms by (simp_all add: table_tree_def Let_def)
  obtain infos where "scan_partitions (tb_keys t) s (tb_root t) Mapping.empty [] = Inr infos" "set infos = below (tb_keys t) (tb_root t) V []"
    using scan_exact [OF assms refl refl, of 0 "[]" Mapping.empty "[]"] by auto
  moreover have "below (tb_keys t) (tb_root t) V [] = (\<lambda>v. (v, partition_path t v)) ` V" using partition_path_eq [OF tr(1,2)] tr(3) by auto
  ultimately show ?thesis by (simp add: table_partitions_def)
qed

text \<open>Opening a writer only creates directories.\<close>

lemma table_writer_ok:
  assumes "validate (tb_keys t) v = Inr ()" "128 \<le> tc_segment_size (tb_config t)" "tc_segment_size (tb_config t) \<le> u64_max"
  shows "\<exists>w s'. table_writer t v s = (Inr w, s') \<and> is_dir s' = is_dir (create_dir_all (partition_path t v) s) \<and>
    lookup_path s' = lookup_path s \<and> fs_data s' = fs_data s"
proof -
  let ?p = "partition_path t v"
  let ?s = "create_dir_all ?p (create_dir_all ?p s)"
  obtain segs where "discover_segments ?p ?s = (Inr segs, ?s)" by (auto simp: discover_segments_def get_def)
  then have "\<exists>w. table_writer t v s = (Inr w, ?s)"
    using assms by (simp add: table_writer_def ts_open_def log_open_def validate_segment_size_def next_segment_id_def bind_ok ret_def)
  moreover have "is_dir ?s = is_dir (create_dir_all ?p s)" by (auto simp: fun_eq_iff is_dir_create_dir_all)
  ultimately show ?thesis by auto
qed

abbreviation open_writers :: "table \<Rightarrow> partition_values list \<Rightarrow> (fs, unit) io" where
  "open_writers t \<equiv> run_all (\<lambda>v. bind (table_writer t v) (\<lambda>_. ret ()))"

lemma table_tree_dirs: "is_dir s' = is_dir s \<Longrightarrow> table_tree t s' V = table_tree t s V"
  by (simp add: table_tree_def)

lemma open_writers_ok:
  assumes "table_tree t s V" "\<forall>v \<in> set vs. partition_ok (tb_keys t) v" "128 \<le> tc_segment_size (tb_config t)" "tc_segment_size (tb_config t) \<le> u64_max"
  shows "\<exists>s'. open_writers t vs s = (Inr (), s') \<and> table_tree t s' (V \<union> set vs) \<and> lookup_path s' = lookup_path s \<and> fs_data s' = fs_data s"
  using assms(1,2)
proof (induction vs arbitrary: s V)
  case (Cons v vs)
  have v: "partition_ok (tb_keys t) v" using Cons.prems(2) by simp
  then obtain w s1 where s1: "table_writer t v s = (Inr w, s1)" "is_dir s1 = is_dir (create_dir_all (partition_path t v) s)" "lookup_path s1 = lookup_path s" "fs_data s1 = fs_data s"
    using table_writer_ok [of t v s] assms(3,4) by (auto simp: partition_ok_def)
  have "table_tree t s1 (insert v V)" using table_tree_create [OF Cons.prems(1) v] table_tree_dirs [OF s1(2)] by simp
  then show ?case using Cons.IH [of s1 "insert v V"] Cons.prems(2) s1 by (auto simp: bind_ok ret_def)
qed (simp add: ret_def)

lemma table_create_ok:
  assumes "\<not> metadata_exists root s" "json (metadata_new now keys) = Some js" "\<forall>d. d \<noteq> [] \<longrightarrow> \<not> is_dir s (root @ d)" "plain_scheme keys" "keys \<noteq> []"
    and t_def: "t = \<lparr>tb_root = root, tb_metadata = metadata_new now keys, tb_config = config\<rparr>"
  shows "\<exists>s' i. table_create json now root keys config s = (Inr t, s') \<and> table_tree t s' {} \<and> lookup_path s' (metadata_path root) = Some i \<and> fs_data s' i = js \<and>
    (\<forall>d. is_dir s' (root @ d) \<longrightarrow> d = [] \<or> hd d = ''_table'') \<and> (fs_wf s \<longrightarrow> fs_wf s' \<and> (\<forall>q. q \<noteq> metadata_path root \<longrightarrow> lookup_path s' q = lookup_path s q))"
proof -
  let ?s = "create_dir_all (root @ [''_table'']) (create_dir_all root s)"
  have m: "butlast (metadata_path root) = root @ [''_table'']" by (simp add: metadata_path_def butlast_append)
  have d: "is_dir ?s p \<longleftrightarrow> is_dir s p \<or> (\<exists>n. p = take n (root @ [''_table'']))" for p
  proof -
    have "\<exists>m. take n root = take m (root @ [''_table''])" for n by (intro exI [of _ "min n (length root)"]) (simp add: min_def)
    then show ?thesis unfolding is_dir_create_dir_all by blast
  qed
  have "is_dir ?s (butlast (metadata_path root))" unfolding m d by (intro disjI2 exI [of _ "Suc (length root)"]) simp
  then obtain i s' where w: "fs_write (metadata_path root) js ?s = (Inr (), s')" "lookup_path s' (metadata_path root) = Some i" "fs_data s' i = js" "is_dir s' = is_dir ?s"
    "fs_wf s \<Longrightarrow> fs_wf s' \<and> (\<forall>q. q \<noteq> metadata_path root \<longrightarrow> lookup_path s' q = lookup_path s q)"
    using fs_write_ok [of ?s "metadata_path root" js] by auto
  have cr: "table_create json now root keys config s = (Inr t, s')"
    using assms(1,2) w(1) by (simp add: table_create_def metadata_save_def Let_def bind_ok ret_def t_def)
  have "is_dir ?s root" unfolding d by (intro disjI2 exI [of _ "length root"]) simp
  moreover have "hd p = ''_table''" if p: "is_dir ?s (root @ p)" "p \<noteq> []" for p
  proof -
    have "\<not> is_dir s (root @ p)" using p(2) assms(3) by simp
    then obtain n where "root @ p = take n (root @ [''_table''])" using p(1) unfolding d by blast
    from arg_cong [OF this, of "drop (length root)"] have "p = take (n - length root) [''_table'']" unfolding drop_take by simp
    then show ?thesis using p(2) by (cases "n - length root") simp_all
  qed
  ultimately have "table_tree t s' {}" "\<forall>d. is_dir s' (root @ d) \<longrightarrow> d = [] \<or> hd d = ''_table''"
    using w(4) assms(4,5) by (auto simp: table_tree_def t_def metadata_new_def)
  then show ?thesis using cr w(2,3,5) by blast
qed

section \<open>Properties of the table\<close>

text \<open>
  Property C28. A table knows its partitions. On a directory without a table, with a JSON
  conversion that reads back the metadata it writes, a table with a usable scheme is created, writers
  are opened for any partitions whose values fit the scheme and have no slash in them, and the
  table is opened again as it was created; listing its partitions then returns exactly the
  values that were written to, each with the directory of its log.
\<close>

theorem table_lists_partitions:
  assumes "\<not> metadata_exists root s" "\<forall>d. d \<noteq> [] \<longrightarrow> \<not> is_dir s (root @ d)" "plain_scheme keys" "keys \<noteq> []"
    and "json (metadata_new now keys) = Some js" "utf8_ok js" "unjson js = Some (metadata_new now keys)"
    and "128 \<le> tc_segment_size config" "tc_segment_size config \<le> u64_max" "\<forall>v \<in> set vs. partition_ok keys v"
  shows "\<exists>t s1 s2 infos. table_create json now root keys config s = (Inr t, s1) \<and> open_writers t vs s1 = (Inr (), s2) \<and>
    table_open unjson root config s2 = (Inr t, s2) \<and> table_partitions t s2 = Inr infos \<and> set infos = (\<lambda>v. (v, partition_path t v)) ` set vs"
proof -
  let ?t = "\<lparr>tb_root = root, tb_metadata = metadata_new now keys, tb_config = config\<rparr>"
  have k: "tb_keys ?t = keys" "md_version (metadata_new now keys) = METADATA_VERSION" by (simp_all add: metadata_new_def)
  note j = assms(5-7)
  obtain s1 i where s1: "table_create json now root keys config s = (Inr ?t, s1)" "table_tree ?t s1 {}" "lookup_path s1 (metadata_path root) = Some i" "fs_data s1 i = js"
    using table_create_ok [where t = ?t and json = json and now = now and keys = keys, OF assms(1) j(1) assms(2-4) refl] by blast
  obtain s2 where s2: "open_writers ?t vs s1 = (Inr (), s2)" "table_tree ?t s2 (set vs)" "lookup_path s2 = lookup_path s1" "fs_data s2 = fs_data s1"
    using open_writers_ok [OF s1(2), of vs] assms(8-10) k(1) by auto
  have "read_text (metadata_path root) s2 = (Inr js, s2)"
    using s1(3,4) s2(3,4) j(2) by (simp add: read_text_def open_read_def bind_ok ret_def)
  then have "table_open unjson root config s2 = (Inr ?t, s2)"
    using s1(3) s2(3) j(3) k(2) by (simp add: table_open_def metadata_load_def path_exists_def bind_ok ret_def)
  then show ?thesis using s1(1) s2(1) table_partitions_ok [OF s2(2)] by blast
qed

definition demo_keys :: partition_scheme where
  "demo_keys = add_date ''date'' None (add_int ''channel'' scheme_new)"

definition demo_day :: "string \<Rightarrow> partition_values" where
  "demo_day d = Mapping.update ''date'' (Str_Value d) (Mapping.update ''channel'' (Int_Value 101) Mapping.empty)"

abbreviation demo_partition :: partition_values where
  "demo_partition \<equiv> demo_day ''2026-01-29''"

lemma demo_partition_ok: "plain_scheme demo_keys" "CHR ''/'' \<notin> set d \<Longrightarrow> CHR 0x00 \<notin> set d \<Longrightarrow> partition_ok demo_keys (demo_day d)"
proof -
  have l: "Mapping.lookup (demo_day d) k = (if k = ''date'' then Some (Str_Value d) else if k = ''channel'' then Some (Int_Value 101) else None)" for k
    by (simp add: demo_day_def lookup_update')
  have ks: "Mapping.keys (demo_day d) = {''date'', ''channel''}" by (auto simp: keys_dom_lookup l split: if_splits)
  show "plain_scheme demo_keys" by (simp add: plain_scheme_def demo_keys_def add_date_def add_int_def scheme_new_def)
  show "CHR ''/'' \<notin> set d \<Longrightarrow> CHR 0x00 \<notin> set d \<Longrightarrow> partition_ok demo_keys (demo_day d)"
    unfolding partition_ok_def validate_iff by (simp add: ks l demo_keys_def add_date_def add_int_def scheme_new_def plain_value_def part_of_def key_part_def dec_digits.simps digit_char_def char_of_def)
qed

theorem table_lists_partitions_witness:
  "\<exists>t s1 s2 infos. table_create (\<lambda>_. Some [0x7B]) 5 [''t''] demo_keys default_table_config fs_empty = (Inr t, s1) \<and>
     open_writers t [demo_partition] s1 = (Inr (), s2) \<and>
     table_open (\<lambda>_. Some (metadata_new 5 demo_keys)) [''t''] default_table_config s2 = (Inr t, s2) \<and>
     table_partitions t s2 = Inr infos \<and> set infos = (\<lambda>v. (v, partition_path t v)) ` set [demo_partition]"
proof (rule table_lists_partitions)
  show "\<not> metadata_exists [''t''] fs_empty" by (simp add: metadata_exists_def metadata_path_def fs_empty_def path_exists_def lookup_path_def is_dir_def)
  show "\<forall>d. d \<noteq> [] \<longrightarrow> \<not> is_dir fs_empty ([''t''] @ d)" by (simp add: fs_empty_def is_dir_def)
  show "plain_scheme demo_keys" by (rule demo_partition_ok)
  show "demo_keys \<noteq> []" by (simp add: demo_keys_def add_date_def add_int_def scheme_new_def)
  show "\<forall>v \<in> set [demo_partition]. partition_ok demo_keys v" by (simp add: demo_partition_ok)
  show "utf8_ok [0x7B]" by (rule ascii_utf8) simp
qed (simp_all add: default_table_config_def)

section \<open>A value with a slash\<close>

text \<open>
  Nothing keeps a slash out of a string value. A writer for the value \<open>a/b\<close> is opened like any
  other, but its log lies one directory below the partition \<open>a\<close>: the listing then has a partition
  \<open>a\<close>, which nobody has written to, and not \<open>a/b\<close>.
\<close>

lemma slash_value_misfiled:
  assumes "table_tree t s {}" "tb_keys t = [String_Key k]" "CHR ''/'' \<notin> set a" "CHR ''/'' \<notin> set b" "b \<noteq> []" "CHR 0x00 \<notin> set (k @ a @ b)"
    and "128 \<le> tc_segment_size (tb_config t)" "tc_segment_size (tb_config t) \<le> u64_max"
  shows "\<exists>w s' infos. table_writer t (Mapping.update k (Str_Value (a @ CHR ''/'' # b)) Mapping.empty) s = (Inr w, s') \<and>
    table_partitions t s' = Inr infos \<and> set infos = {(Mapping.update k (Str_Value a) Mapping.empty, tb_root t @ [key_part k (Str_Value a)])}"
proof -
  let ?v = "\<lambda>x. Mapping.update k (Str_Value x) Mapping.empty :: partition_values" and ?ab = "a @ CHR ''/'' # b"
  let ?p = "tb_root t @ [key_part k (Str_Value a), b]"
  have sc: "plain_scheme [String_Key k]" "is_dir s (tb_root t)" using assms(1,2) by (simp_all add: table_tree_def Let_def)
  then have k: "CHR ''/'' \<notin> set k" by (simp add: plain_scheme_def)
  have ok: "validate [String_Key k] (?v x) = Inr ()" for x by (simp add: validate_iff)
  have "CHR ''/'' \<notin> set (k @ CHR ''='' # a)" using k assms(3) by simp
  from split_at_cons [OF this, of b] have "split_at CHR ''/'' (k @ CHR ''='' # ?ab) = [k @ CHR ''='' # a, b]" using split_at_none [OF assms(4)] by simp
  moreover have "hd (k @ CHR ''='' # ?ab) \<noteq> CHR ''/''" using k by (cases k) auto
  ultimately have pp: "partition_path t (?v ?ab) = ?p"
    using assms(2,5) by (simp add: partition_path_def path_join_def to_path_def path_parts_def map_filter_simps key_part_def)
  obtain w s' where w: "table_writer t (?v ?ab) s = (Inr w, s')" "is_dir s' = is_dir (create_dir_all ?p s)"
    using table_writer_ok [of t "?v ?ab" s] ok assms(2,7,8) pp by auto
  have dir: "is_dir s' d \<longleftrightarrow> is_dir s d \<or> (\<exists>n. d = take n ?p)" for d unfolding w(2) by (rule is_dir_create_dir_all)
  have va: "partition_ok [String_Key k] (?v a)" using ok assms(3,6) by (simp add: partition_ok_def plain_value_def part_of_def key_part_def)
  have pa: "part_of (?v a) (String_Key k) = key_part k (Str_Value a)" by (simp add: part_of_def)
  have "is_dir s' (tb_root t @ [key_part k (Str_Value a)])" unfolding dir by (intro disjI2 exI [of _ "Suc (length (tb_root t))"]) simp
  moreover have "d = [key_part k (Str_Value a)]" if d: "is_dir s' (tb_root t @ d)" "d \<noteq> []" "hd d \<noteq> ''_table''" "length d \<le> 1" for d
  proof -
    have "\<not> is_dir s (tb_root t @ d)" using assms(1,2) d(2-4) by (auto simp: table_tree_def Let_def)
    then obtain n where "tb_root t @ d = take n ?p" using d(1) unfolding dir by blast
    from arg_cong [OF this, of "drop (length (tb_root t))"] have "d = take (n - length (tb_root t)) [key_part k (Str_Value a), b]" unfolding drop_take by simp
    then show ?thesis using d(2,4) by (cases "n - length (tb_root t)"; cases "n - length (tb_root t) - 1") auto
  qed
  moreover have "is_dir s' (tb_root t)" using dir sc(2) by blast
  moreover have "n \<le> 1 \<Longrightarrow> n = 0 \<or> n = 1" for n :: nat by linarith
  ultimately have "table_tree t s' {?v a}"
    unfolding table_tree_def Let_def assms(2) using sc(1) va by (fastforce simp: pa)
  then have "\<exists>infos. table_partitions t s' = Inr infos \<and> set infos = {(?v a, partition_path t (?v a))}" using table_partitions_ok [of t s' "{?v a}"] by simp
  moreover have "partition_path t (?v a) = tb_root t @ [key_part k (Str_Value a)]"
    using partition_path_eq [of t "?v a"] assms(2) sc(1) va pa by simp
  ultimately show ?thesis using w(1) by auto
qed

end
