(* ===== verification/Rolling.thy ===== *)
theory Rolling
  imports Table
begin

text \<open>
  \<^verbatim>\<open>src/src/table/rolling.rs\<close>, and the constructors of \<^verbatim>\<open>src/src/table/table.rs\<close> for it: a writer that sends
  each record to the partition a roller names, and moves from log to log as the partitions
  change. The roller, a trait object, is an argument.
\<close>

section \<open>The writer\<close>

record rolling_stats =
  st_messages_written :: nat
  st_partition_rolls :: nat
  st_partitions_written :: nat

text \<open>Of the callback there is whether it is set, and the pairs of partitions it has been called with.\<close>

record rolling_writer =
  rw_table :: table
  rw_current_partition :: "partition_values option"
  rw_current_writer :: "ts_writer option"
  rw_stats :: rolling_stats
  rw_on_roll_callback :: "(partition_values \<times> partition_values) list option"

type_synonym roller_fun = "u64 \<Rightarrow> bytes \<Rightarrow> partition_values result"
type_synonym 'a rw_io = "(rolling_writer \<times> fs, 'a) io"

definition rolling_new :: "table \<Rightarrow> rolling_writer" where
  "rolling_new t =
     \<lparr>rw_table = t, rw_current_partition = None, rw_current_writer = None,
      rw_stats = \<lparr>st_messages_written = 0, st_partition_rolls = 0, st_partitions_written = 0\<rparr>, rw_on_roll_callback = None\<rparr>"

definition on_partition_roll :: "rolling_writer \<Rightarrow> rolling_writer" where
  "on_partition_roll w = w\<lparr>rw_on_roll_callback := Some []\<rparr>"

text \<open>Takes the writer out and finishes it; it is gone when that fails, too.\<close>

definition finish_current :: "bool \<Rightarrow> unit rw_io" where
  "finish_current renameat2_ok = (\<lambda>(w, s).
     case rw_current_writer w of
       None \<Rightarrow> (Inr (), w, s)
     | Some t \<Rightarrow> (case ts_finish renameat2_ok (t, s) of (res, _, s') \<Rightarrow> (res, w\<lparr>rw_current_writer := None\<rparr>, s')))"

definition roll_to_partition :: "bool \<Rightarrow> partition_values \<Rightarrow> unit rw_io" where
  "roll_to_partition renameat2_ok new_partition =
     bind (finish_current renameat2_ok) (\<lambda>_.
     bind (upd (\<lambda>w. case rw_current_partition w of
              None \<Rightarrow> w
            | Some old \<Rightarrow> w\<lparr>rw_on_roll_callback := map_option (\<lambda>calls. calls @ [(old, new_partition)]) (rw_on_roll_callback w)\<rparr>)) (\<lambda>_.
     bind (get fst) (\<lambda>w.
     bind (on_fs (table_writer (rw_table w) new_partition)) (\<lambda>t.
     upd (\<lambda>w. w\<lparr>rw_stats := (if rw_current_partition w = None then rw_stats w
                             else (rw_stats w)\<lparr>st_partition_rolls := st_partition_rolls (rw_stats w) + 1\<rparr>),
                rw_current_writer := Some t, rw_current_partition := Some new_partition\<rparr>)))))"

definition on_current :: "ts_writer \<Rightarrow> 'a tw_io \<Rightarrow> 'a rw_io" where
  "on_current t m = (\<lambda>(w, s). case m (t, s) of (res, t', s') \<Rightarrow> (res, w\<lparr>rw_current_writer := Some t'\<rparr>, s'))"

definition rolling_append :: "crc_fun \<Rightarrow> bool \<Rightarrow> roller_fun \<Rightarrow> bool \<Rightarrow> u16 \<Rightarrow> u64 \<Rightarrow> bytes \<Rightarrow> unit rw_io" where
  "rolling_append crc renameat2_ok roller elapsed type_id timestamp_ns payload =
     bind (lift (roller timestamp_ns payload)) (\<lambda>target.
     bind (get fst) (\<lambda>w.
     bind (if rw_current_partition w = Some target then ret () else roll_to_partition renameat2_ok target) (\<lambda>_.
     bind (get fst) (\<lambda>w.
     case rw_current_writer w of
       None \<Rightarrow> ret ()
     | Some t \<Rightarrow>
         bind (on_current t (ts_append crc renameat2_ok elapsed type_id timestamp_ns payload)) (\<lambda>_.
         upd (\<lambda>w. w\<lparr>rw_stats := (rw_stats w)\<lparr>st_messages_written := st_messages_written (rw_stats w) + 1\<rparr>\<rparr>))))))"

definition rolling_finish :: "bool \<Rightarrow> rolling_stats rw_io" where
  "rolling_finish renameat2_ok =
     bind (finish_current renameat2_ok) (\<lambda>_.
     bind (get fst) (\<lambda>w.
     ret ((rw_stats w)\<lparr>st_partitions_written := (if rw_current_partition w = None then 0 else st_partition_rolls (rw_stats w) + 1)\<rparr>)))"

definition table_rolling_writer :: "table \<Rightarrow> rolling_writer" where
  "table_rolling_writer t = rolling_new t"

text \<open>The roller of \<open>rolling_writer_by_date\<close> and its writer.\<close>

definition rolling_writer_by_date :: "table \<Rightarrow> string \<Rightarrow> partition_values \<Rightarrow> (roller_fun \<times> rolling_writer) result" where
  "rolling_writer_by_date t date_key static_values =
     (case List.find (\<lambda>k. pk_name k = date_key) (tb_keys t) of
        None \<Rightarrow> Inl (InvalidPartition (''Date key '' @ quoted date_key @ '' not found in scheme''))
      | Some (Date_Key _ _ tz) \<Rightarrow>
          (case timezone_from_str (case tz of None \<Rightarrow> ''UTC'' | Some z \<Rightarrow> z) of
             Inl e \<Rightarrow> Inl e
           | Inr zone \<Rightarrow>
               Inr (\<lambda>ts _. Inr (date_partition \<lparr>rl_key = date_key, rl_timezone = zone, rl_static = static_values\<rparr> ts), table_rolling_writer t))
      | Some _ \<Rightarrow> Inl (InvalidPartition (''Key '' @ quoted date_key @ '' is not a Date partition key'')))"

section \<open>Any writer of a time-series log\<close>

text \<open>
  A second writer of a log has an index builder that stands for the wrong segment, but its log is
  sound: the facts on sessions for a writer with any builder.
\<close>

definition inside :: "path \<Rightarrow> fs \<Rightarrow> fs \<Rightarrow> bool" where
  "inside dir s s' \<longleftrightarrow> is_dir s' = is_dir s \<and> fs_wf s' \<and>
     (\<forall>p. butlast p \<noteq> dir \<longrightarrow> lookup_path s' p = lookup_path s p \<and> (\<forall>ino. lookup_path s p = Some ino \<longrightarrow> fs_data s' ino = fs_data s ino))"

lemma insideI:
  assumes "is_dir s' = is_dir s" "fs_wf s'"
    and "\<And>p. butlast p \<noteq> dir \<Longrightarrow> lookup_path s' p = lookup_path s p \<and> (\<forall>ino. lookup_path s p = Some ino \<longrightarrow> fs_data s' ino = fs_data s ino)"
  shows "inside dir s s'"
  using assms by (simp add: inside_def)

lemma inside_trans: "inside dir s s1 \<Longrightarrow> inside dir s1 s2 \<Longrightarrow> inside dir s s2"
  by (simp add: inside_def)

lemma others_inside:
  assumes "others_kept dir s s'" "fs_wf s'"
  shows "inside dir s s'"
proof (rule insideI)
  fix p assume "butlast p \<noteq> dir"
  then have "\<forall>i. p \<noteq> segment_path dir i \<and> p \<noteq> segment_temp_path dir i" by (auto simp: segment_path_def segment_temp_path_def)
  then show "lookup_path s' p = lookup_path s p \<and> (\<forall>ino. lookup_path s p = Some ino \<longrightarrow> fs_data s' ino = fs_data s ino)"
    using assms(1) unfolding others_kept_def by blast
qed (use assms in \<open>simp_all add: others_kept_def\<close>)

definition ts_log :: "crc_fun \<Rightarrow> path \<Rightarrow> nat \<Rightarrow> (nat \<times> message list) list \<Rightarrow> message list \<Rightarrow> ts_writer \<times> fs \<Rightarrow> bool" where
  "ts_log crc dir sz L cur = (\<lambda>(t, s).
     log_inv crc L cur (tw_writer t, s) \<and> sw_dir (lw_writer (tw_writer t)) = dir \<and> tw_dir t = dir \<and>
     lw_segment_size (tw_writer t) = sz \<and> tw_segment_size t = sz)"

lemma sb_flush_inside:
  assumes "is_dir s root" "fs_wf s"
  shows "\<exists>s'. sb_flush root b s = (Inr (), s') \<and> fs_wf s' \<and> is_dir s' = is_dir s \<and>
    (\<forall>p. p \<noteq> index_path root (sb_segment_id b) \<longrightarrow> lookup_path s' p = lookup_path s p \<and> (\<forall>j. lookup_path s p = Some j \<longrightarrow> fs_data s' j = fs_data s j))"
proof (cases "sb_entries b = []")
  case True
  then show ?thesis using assms(2) by (simp add: sb_flush_def ret_def)
next
  case False
  let ?p = "index_path root (sb_segment_id b)"
  obtain i s1 where op: "open_write ?p True s = (Inr i, s1)" "lookup_path s1 ?p = Some i" "fs_data s1 i = []"
    "is_dir s1 = is_dir s" "fs_wf s1" "\<And>p. p \<noteq> ?p \<Longrightarrow> lookup_path s1 p = lookup_path s p" "\<And>j. j \<noteq> i \<Longrightarrow> fs_data s1 j = fs_data s j"
    using open_write_empties [of s ?p] assms by (auto simp: index_path_def)
  have fl: "\<exists>bs. sb_flush root b s = (Inr (), fs_set i bs s1)"
    using False op write_all_at_ok [of s1 i "[]" 0 "encode_header (sb_header b) # map encode_entry (sb_entries b)"]
    by (auto simp: sb_flush_def bind_ok simp del: write_all_at.simps)
  have "j \<noteq> i" if "p \<noteq> ?p" "lookup_path s p = Some j" for p j
    using fs_wf_inj [OF op(5,2)] that op(6) by metis
  then show ?thesis using fl op by auto
qed

lemma flush_any_ok:
  assumes "ts_log crc dir sz L cur (t, s)"
  shows "\<exists>s'. flush_ts_index (t, s) = (Inr (), t, s') \<and> ts_log crc dir sz L cur (t, s') \<and> inside dir s s'"
proof -
  have l: "log_inv crc L cur (tw_writer t, s)" "sw_dir (lw_writer (tw_writer t)) = dir" "tw_dir t = dir" using assms by (simp_all add: ts_log_def)
  then have wf: "fs_wf s" "is_dir s dir" by (simp_all add: log_inv_def sw_inv_def log_holds_def dir_ok_def)
  obtain s' where s': "sb_flush dir (tw_index t) s = (Inr (), s')" "fs_wf s'" "is_dir s' = is_dir s"
    "\<And>p. p \<noteq> index_path dir (sb_segment_id (tw_index t)) \<Longrightarrow> lookup_path s' p = lookup_path s p \<and> (\<forall>j. lookup_path s p = Some j \<longrightarrow> fs_data s' j = fs_data s j)"
    using sb_flush_inside [OF wf(2,1)] by blast
  have "log_inv crc L cur (tw_writer t, s')" by (rule log_inv_frame [OF l(1) s'(2,3)]) (use s'(4) l(2) in blast)
  moreover have "inside dir s s'" by (rule insideI [OF s'(3,2)], rule s'(4)) (auto simp: index_path_def)
  ultimately show ?thesis using assms s'(1) l(3) by (auto simp: ts_log_def flush_ts_index_def bind_def get_def on_fs_def)
qed

lemma append_any_ok:
  assumes inv: "ts_log crc dir sz L cur (t, s)" and fit: "fits sz (ty, ts, p)" and id: "sw_segment_id (lw_writer (tw_writer t)) < u64_max"
  shows "\<exists>t' s' L' cur' q. ts_append crc ok2 elapsed ty ts p (t, s) = (Inr (), t', s') \<and> ts_log crc dir sz L' cur' (t', s') \<and>
    all_msgs L' cur' = all_msgs L cur @ [new_msg q ts ty p] \<and>
    sw_segment_id (lw_writer (tw_writer t')) \<le> sw_segment_id (lw_writer (tw_writer t)) + 1 \<and> inside dir s s'"
proof -
  let ?w = "lw_writer (tw_writer t)" and ?n = "ts_record_len (length p)"
  let ?roll = "sw_write_offset ?w + ?n > tw_segment_size t"
  obtain s1 where s1: "(if ?roll then flush_ts_index else ret ()) (t, s) = (Inr (), t, s1)" "ts_log crc dir sz L cur (t, s1)" "?roll \<Longrightarrow> inside dir s s1" "\<not> ?roll \<Longrightarrow> s1 = s"
    using flush_any_ok [OF inv] inv by (cases ?roll) (auto simp: ret_def)
  have l1: "log_inv crc L cur (tw_writer t, s1)" "sw_dir ?w = dir" "lw_segment_size (tw_writer t) = sz" using s1(2) by (simp_all add: ts_log_def)
  obtain l s2 L' cur' where a: "log_append crc ok2 ty ts p (tw_writer t, s1) = (Inr (), l, s2)" "log_inv crc L' cur' (l, s2)"
    "all_msgs L' cur' = all_msgs L cur @ [new_msg (sw_seq ?w) ts ty p]" "sw_segment_id (lw_writer l) \<le> sw_segment_id ?w + 1"
    "sw_dir (lw_writer l) = dir" "lw_segment_size l = sz" "others_kept dir s1 s2"
    using log_append_ok [OF l1(1), of ty ts p ok2] fit id l1(2,3) by auto
  have wf: "fs_wf s" "fs_wf s2" using inv a(2) by (simp_all add: ts_log_def log_inv_def sw_inv_def log_holds_def)
  have i2: "inside dir s s2" using others_inside [OF a(7) wf(2)] s1(3,4) inside_trans by (cases ?roll) blast+
  define t2 where "t2 = t\<lparr>tw_writer := l\<rparr>"
  obtain b where ap: "ts_append crc ok2 elapsed ty ts p (t, s) = (if elapsed then flush_ts_index else ret ()) (t2\<lparr>tw_index := b\<rparr>, s2)"
    unfolding ts_append_def bind_simps(3) fst_conv Let_def bind_ok [where m = "if ?roll then flush_ts_index else ret ()" and s = "(t, s)", OF s1(1)]
    using a(1) by (cases ?roll) (auto simp: bind_ok on_log_def ret_def t2_def)
  have "ts_log crc dir sz L' cur' (t2\<lparr>tw_index := b\<rparr>, s2)" using a(2,5,6) inv by (simp add: ts_log_def t2_def)
  then obtain s3 where "(if elapsed then flush_ts_index else ret ()) (t2\<lparr>tw_index := b\<rparr>, s2) = (Inr (), t2\<lparr>tw_index := b\<rparr>, s3)"
      "ts_log crc dir sz L' cur' (t2\<lparr>tw_index := b\<rparr>, s3)" "inside dir s s3"
    using flush_any_ok [of crc dir sz L' cur' "t2\<lparr>tw_index := b\<rparr>" s2] i2 inside_trans by (cases elapsed) (auto simp: ret_def)
  then show ?thesis using ap a(3,4)
    by (intro exI [of _ "t2\<lparr>tw_index := b\<rparr>"] exI [of _ s3] exI [of _ L'] exI [of _ cur'] exI [of _ "sw_seq ?w"]) (simp add: t2_def)
qed

lemma finish_any_ok:
  assumes "ts_log crc dir sz L cur (t, s)"
  shows "\<exists>t' s'. ts_finish ok2 (t, s) = (Inr (), t', s') \<and> log_holds crc dir sz s' (publish_cur L (sw_segment_id (lw_writer (tw_writer t))) cur) \<and> inside dir s s'"
proof -
  let ?w = "lw_writer (tw_writer t)"
  obtain s1 where s1: "flush_ts_index (t, s) = (Inr (), t, s1)" "ts_log crc dir sz L cur (t, s1)" "inside dir s s1"
    using flush_any_ok [OF assms] by blast
  then have i: "sw_inv crc L cur (?w, s1)" "sw_dir ?w = dir" "sw_segment_size ?w = sz" by (simp_all add: ts_log_def log_inv_def)
  obtain w' s' where f: "sw_finish ok2 (?w, s1) = (Inr (), w', s')" "log_holds crc dir sz s' (publish_cur L (sw_segment_id ?w) cur)" "others_kept dir s1 s'"
    using sw_finish_ok [OF i(1), of ok2] i(2,3) by auto
  have "\<exists>t'. ts_finish ok2 (t, s) = (Inr (), t', s')" using s1(1) f(1) by (simp add: ts_finish_def bind_ok on_log_def log_finish_def on_writer_def)
  moreover have "inside dir s s'" using inside_trans [OF s1(3) others_inside [OF f(3)]] f(2) by (simp add: log_holds_def)
  ultimately show ?thesis using f(2) by blast
qed

section \<open>The logs of the partitions\<close>

definition rec_of :: "message \<Rightarrow> u16 \<times> u64 \<times> bytes" where
  "rec_of m = (msg_type_id m, msg_timestamp_ns m, msg_payload m)"

abbreviation tb_size :: "table \<Rightarrow> nat" where
  "tb_size t \<equiv> tc_segment_size (tb_config t)"

text \<open>Once its directory is there, the log of the partition holds these records, in segments numbered below \<open>k\<close>.\<close>

definition part_ready :: "crc_fun \<Rightarrow> table \<Rightarrow> nat \<Rightarrow> fs \<Rightarrow> partition_values \<Rightarrow> (u16 \<times> u64 \<times> bytes) list \<Rightarrow> bool" where
  "part_ready crc t k s v rs \<longleftrightarrow> (\<exists>L. log_holds crc (partition_path t v) (tb_size t) (create_dir_all (partition_path t v) s) L \<and>
     (\<forall>i \<in> fst ` set L. i < k) \<and> map rec_of (concat (map snd L)) = rs)"

definition part_open :: "crc_fun \<Rightarrow> table \<Rightarrow> nat \<Rightarrow> fs \<Rightarrow> partition_values \<Rightarrow> ts_writer \<Rightarrow> (u16 \<times> u64 \<times> bytes) list \<Rightarrow> bool" where
  "part_open crc t k s v tw rs \<longleftrightarrow> (\<exists>L cur. ts_log crc (partition_path t v) (tb_size t) L cur (tw, s) \<and>
     sw_segment_id (lw_writer (tw_writer tw)) \<le> k \<and> map rec_of (all_msgs L cur) = rs)"

lemma partition_path_inj:
  assumes "plain_scheme (tb_keys t)" "tb_keys t \<noteq> []" "partition_ok (tb_keys t) v" "partition_ok (tb_keys t) w" "partition_path t v = partition_path t w"
  shows "v = w"
proof -
  have "map (part_of v) (tb_keys t) = map (part_of w) (tb_keys t)" using assms partition_path_eq by auto
  then show ?thesis using first_values_inj [OF assms(1,3,4), of "length (tb_keys t)"] first_values_all assms(3,4) by simp
qed

lemma log_holds_dirs:
  assumes "log_holds crc dir sz s L" "lookup_path s' = lookup_path s" "fs_data s' = fs_data s" "fs_wf s'" "is_dir s' dir" "\<And>i. \<not> is_dir s' (segment_path dir i)"
  shows "log_holds crc dir sz s' L"
  using assms by (auto simp: log_holds_def dir_ok_def seg_file_def)

lemma part_ready_inside:
  assumes "part_ready crc t k s v rs" "inside dir s s'" "dir \<noteq> partition_path t v"
  shows "part_ready crc t k s' v rs"
proof -
  let ?d = "partition_path t v"
  obtain L where L: "log_holds crc ?d (tb_size t) (create_dir_all ?d s) L" "\<forall>i \<in> fst ` set L. i < k" "map rec_of (concat (map snd L)) = rs"
    using assms(1) by (auto simp: part_ready_def)
  have "butlast (segment_path ?d i) \<noteq> dir" for i using assms(3) by (simp add: segment_path_def)
  then have "lookup_path s' (segment_path ?d i) = lookup_path s (segment_path ?d i)"
    "lookup_path s (segment_path ?d i) = Some ino \<Longrightarrow> fs_data s' ino = fs_data s ino" for i ino
    using assms(2) unfolding inside_def by blast+
  then have "log_holds crc ?d (tb_size t) (create_dir_all ?d s') L"
    using assms(2) by (intro log_holds_frame [OF L(1)]) (simp_all add: inside_def fun_eq_iff is_dir_create_dir_all)
  then show ?thesis using L(2,3) by (auto simp: part_ready_def)
qed

lemma part_ready_dirs:
  assumes "part_ready crc t k s v rs" "length dir \<le> length (partition_path t v)" "fs_wf s'"
    and "is_dir s' = is_dir (create_dir_all dir s)" "lookup_path s' = lookup_path s" "fs_data s' = fs_data s"
  shows "part_ready crc t k s' v rs"
proof -
  let ?d = "partition_path t v"
  obtain L where L: "log_holds crc ?d (tb_size t) (create_dir_all ?d s) L" "\<forall>i \<in> fst ` set L. i < k" "map rec_of (concat (map snd L)) = rs"
    using assms(1) by (auto simp: part_ready_def)
  have "segment_path ?d i \<noteq> take n dir" for i n
  proof
    assume "segment_path ?d i = take n dir"
    then have "Suc (length ?d) \<le> length dir" by (metis length_append_singleton length_take min.cobounded2 min.commute segment_path_def)
    then show False using assms(2) by simp
  qed
  then have "\<not> is_dir (create_dir_all ?d s') (segment_path ?d i)" for i
    using L(1) assms(4) by (auto simp: log_holds_def dir_ok_def is_dir_create_dir_all)
  then have "log_holds crc ?d (tb_size t) (create_dir_all ?d s') L"
    using assms(3,5,6) by (intro log_holds_dirs [OF L(1)]) (auto simp: is_dir_create_dir_all intro: exI [of _ "length ?d"])
  then show ?thesis using L(2,3) by (auto simp: part_ready_def)
qed

lemma part_open_ok:
  assumes "part_ready crc t k s v rs" "validate (tb_keys t) v = Inr ()" "128 \<le> tb_size t" "tb_size t \<le> u64_max" "k \<le> 1000000000"
  shows "\<exists>tw s'. table_writer t v s = (Inr tw, s') \<and> part_open crc t k s' v tw rs \<and> fs_wf s' \<and>
    is_dir s' = is_dir (create_dir_all (partition_path t v) s) \<and> lookup_path s' = lookup_path s \<and> fs_data s' = fs_data s"
proof -
  let ?d = "partition_path t v"
  obtain L where L: "log_holds crc ?d (tb_size t) (create_dir_all ?d s) L" "\<forall>i \<in> fst ` set L. i < k" "map rec_of (concat (map snd L)) = rs"
    using assms(1) by (auto simp: part_ready_def)
  have k: "next_id L \<le> k" using L(2) by (cases L rule: rev_cases) (auto simp: next_id_def)
  obtain l s1 where o1: "log_open ?d (tb_size t) (create_dir_all ?d s) = (Inr l, s1)" "log_inv crc L [] (l, s1)" "lw_segment_size l = tb_size t"
    "sw_dir (lw_writer l) = ?d" "sw_segment_id (lw_writer l) = next_id L"
    using log_open_ok [OF L(1) assms(3,4)] k assms(5) by auto
  let ?t = "\<lparr>tw_dir = ?d, tw_writer = l, tw_index = sb_new 0 (tb_size t) 64 (tc_index_stride (tb_config t)), tw_segment_size = tb_size t\<rparr>"
  have w: "table_writer t v s = (Inr ?t, s1)"
    using o1(1) assms(2) by (simp add: table_writer_def ts_open_def bind_ok ret_def)
  moreover have "part_open crc t k s1 v ?t rs"
    using o1 k L(3) unfolding part_open_def by (intro exI [of _ L] exI [of _ "[]"]) (simp add: ts_log_def all_msgs_def)
  moreover have "fs_wf s1" using o1(2) by (simp add: log_inv_def sw_inv_def log_holds_def)
  ultimately show ?thesis using table_writer_ok [OF assms(2-4), of s] by auto
qed

lemma part_append_ok:
  assumes "part_open crc t k s v tw rs" "fits (tb_size t) (ty, ts, p)" "k < u64_max"
  shows "\<exists>tw' s'. ts_append crc ok2 elapsed ty ts p (tw, s) = (Inr (), tw', s') \<and> part_open crc t (k + 1) s' v tw' (rs @ [(ty, ts, p)]) \<and>
    inside (partition_path t v) s s'"
proof -
  obtain L cur where L: "ts_log crc (partition_path t v) (tb_size t) L cur (tw, s)" "sw_segment_id (lw_writer (tw_writer tw)) \<le> k" "map rec_of (all_msgs L cur) = rs"
    using assms(1) by (auto simp: part_open_def)
  obtain tw' s' L' cur' q where a: "ts_append crc ok2 elapsed ty ts p (tw, s) = (Inr (), tw', s')" "ts_log crc (partition_path t v) (tb_size t) L' cur' (tw', s')"
    "all_msgs L' cur' = all_msgs L cur @ [new_msg q ts ty p]" "sw_segment_id (lw_writer (tw_writer tw')) \<le> sw_segment_id (lw_writer (tw_writer tw)) + 1"
    "inside (partition_path t v) s s'"
    using append_any_ok [OF L(1) assms(2), of ok2 elapsed] L(2) assms(3) by auto
  have "part_open crc t (k + 1) s' v tw' (rs @ [(ty, ts, p)])"
    unfolding part_open_def using a(2-4) L(2,3) by (intro exI [of _ L'] exI [of _ cur']) (simp add: rec_of_def)
  then show ?thesis using a(1,5) by blast
qed

lemma part_finish_ok:
  assumes "part_open crc t k s v tw rs"
  shows "\<exists>tw' s'. ts_finish ok2 (tw, s) = (Inr (), tw', s') \<and> part_ready crc t (k + 1) s' v rs \<and> inside (partition_path t v) s s'"
proof -
  let ?d = "partition_path t v"
  obtain L cur where L: "ts_log crc ?d (tb_size t) L cur (tw, s)" "sw_segment_id (lw_writer (tw_writer tw)) \<le> k" "map rec_of (all_msgs L cur) = rs"
    using assms(1) by (auto simp: part_open_def)
  let ?L = "publish_cur L (sw_segment_id (lw_writer (tw_writer tw))) cur"
  obtain tw' s' where f: "ts_finish ok2 (tw, s) = (Inr (), tw', s')" "log_holds crc ?d (tb_size t) s' ?L" "inside ?d s s'"
    using finish_any_ok [OF L(1), of ok2] by blast
  have "\<forall>i \<in> fst ` set ?L. i < k + 1" using L(1,2) by (fastforce simp: ts_log_def log_inv_def sw_inv_def publish_cur_def)
  moreover have "concat (map snd ?L) = all_msgs L cur" by (cases "cur = []") (simp_all add: all_msgs_def publish_cur_def)
  ultimately have "part_ready crc t (k + 1) s' v rs" using create_dir_all_log [OF f(2)] L(3) by (auto simp: part_ready_def)
  then show ?thesis using f(1,3) by blast
qed

lemma table_tree_dir:
  assumes "table_tree t s V" "v \<in> V"
  shows "is_dir s (partition_path t v)"
proof -
  have "is_dir s (tb_root t @ map (part_of v) (take (length (tb_keys t)) (tb_keys t)))" using assms unfolding table_tree_def Let_def by blast
  then show ?thesis using partition_path_eq [of t v] assms by (simp add: table_tree_def Let_def)
qed

section \<open>The rolling writer\<close>

text \<open>
  \<open>V\<close> are the partitions that have a directory and \<open>G\<close> gives the records of each partition; the one
  that is being written has its records in the open writer.
\<close>

definition rw_others :: "crc_fun \<Rightarrow> table \<Rightarrow> nat \<Rightarrow> partition_values option \<Rightarrow> (partition_values \<Rightarrow> (u16 \<times> u64 \<times> bytes) list) \<Rightarrow> fs \<Rightarrow> bool" where
  "rw_others crc t k cur G s \<longleftrightarrow> (\<forall>v. partition_ok (tb_keys t) v \<and> cur \<noteq> Some v \<longrightarrow> part_ready crc t k s v (G v))"

definition rw_inv :: "crc_fun \<Rightarrow> table \<Rightarrow> nat \<Rightarrow> partition_values set \<Rightarrow> (partition_values \<Rightarrow> (u16 \<times> u64 \<times> bytes) list) \<Rightarrow> rolling_writer \<times> fs \<Rightarrow> bool" where
  "rw_inv crc t k V G = (\<lambda>(w, s). rw_table w = t \<and> table_tree t s V \<and> fs_wf s \<and> rw_others crc t k (rw_current_partition w) G s \<and>
     (case rw_current_partition w of
        None \<Rightarrow> rw_current_writer w = None
      | Some v \<Rightarrow> v \<in> V \<and> (\<exists>tw. rw_current_writer w = Some tw \<and> part_open crc t k s v tw (G v))))"

lemma part_ready_mono: "part_ready crc t k s v rs \<Longrightarrow> k \<le> k' \<Longrightarrow> part_ready crc t k' s v rs"
  by (fastforce simp: part_ready_def)

lemma rw_others_mono: "rw_others crc t k cur G s \<Longrightarrow> k \<le> k' \<Longrightarrow> rw_others crc t k' cur G s"
  by (auto simp: rw_others_def intro: part_ready_mono)

lemma rw_others_inside:
  assumes "rw_others crc t k (Some v) G s" "inside (partition_path t v) s s'" "table_tree t s V" "v \<in> V"
  shows "rw_others crc t k (Some v) G s'"
proof -
  have "plain_scheme (tb_keys t)" "tb_keys t \<noteq> []" "partition_ok (tb_keys t) v" using assms(3,4) by (simp_all add: table_tree_def Let_def)
  then have "partition_path t v \<noteq> partition_path t u" if "partition_ok (tb_keys t) u" "u \<noteq> v" for u using partition_path_inj that by blast
  then show ?thesis using assms(1,2) part_ready_inside unfolding rw_others_def by blast
qed

lemma table_tree_inside: "inside d s s' \<Longrightarrow> table_tree t s' V = table_tree t s V"
  by (simp add: inside_def table_tree_def)

lemma finish_current_ok:
  assumes "rw_inv crc t k V G (w, s)"
  shows "\<exists>s'. finish_current ok2 (w, s) = (Inr (), w\<lparr>rw_current_writer := None\<rparr>, s') \<and> table_tree t s' V \<and> fs_wf s' \<and> rw_others crc t (k + 1) None G s'"
proof (cases "rw_current_partition w")
  case None
  then have "rw_current_writer w = None" "rw_others crc t k None G s" using assms by (simp_all add: rw_inv_def)
  then show ?thesis using assms rw_others_mono [of crc t k None G s "k + 1"] by (simp add: finish_current_def rw_inv_def)
next
  case (Some v)
  then obtain tw where tw: "rw_current_writer w = Some tw" "part_open crc t k s v tw (G v)" "v \<in> V" "table_tree t s V" "rw_others crc t k (Some v) G s"
    using assms by (auto simp: rw_inv_def)
  obtain tw' s' where f: "ts_finish ok2 (tw, s) = (Inr (), tw', s')" "part_ready crc t (k + 1) s' v (G v)" "inside (partition_path t v) s s'"
    using part_finish_ok [OF tw(2)] by blast
  have "rw_others crc t (k + 1) (Some v) G s'" using rw_others_inside [OF tw(5) f(3) tw(4,3)] rw_others_mono by (metis le_add1)
  then have "rw_others crc t (k + 1) None G s'" using f(2) unfolding rw_others_def by (metis option.inject)
  then show ?thesis using f(1,3) tw(1,4) table_tree_inside [OF f(3)] by (simp add: finish_current_def inside_def)
qed

abbreviation rw_rolls :: "rolling_writer \<Rightarrow> partition_values \<Rightarrow> nat" where
  "rw_rolls w v \<equiv> (if rw_current_partition w = None \<or> rw_current_partition w = Some v then 0 else 1)"

lemma roll_to_ok:
  assumes "rw_inv crc t k V G (w, s)" "partition_ok (tb_keys t) v" "128 \<le> tb_size t" "tb_size t \<le> u64_max" "k + 1 \<le> 1000000000" "rw_current_partition w \<noteq> Some v"
  shows "\<exists>w' s'. roll_to_partition ok2 v (w, s) = (Inr (), w', s') \<and> rw_inv crc t (k + 1) (insert v V) G (w', s') \<and> rw_current_partition w' = Some v \<and>
    st_messages_written (rw_stats w') = st_messages_written (rw_stats w) \<and> st_partition_rolls (rw_stats w') = st_partition_rolls (rw_stats w) + rw_rolls w v"
proof -
  obtain s1 where s1: "finish_current ok2 (w, s) = (Inr (), w\<lparr>rw_current_writer := None\<rparr>, s1)" "table_tree t s1 V" "fs_wf s1" "rw_others crc t (k + 1) None G s1"
    using finish_current_ok [OF assms(1)] by blast
  have v: "validate (tb_keys t) v = Inr ()" "part_ready crc t (k + 1) s1 v (G v)" using assms(2) s1(4) by (simp_all add: partition_ok_def rw_others_def)
  obtain tw s2 where s2: "table_writer t v s1 = (Inr tw, s2)" "part_open crc t (k + 1) s2 v tw (G v)" "fs_wf s2"
    "is_dir s2 = is_dir (create_dir_all (partition_path t v) s1)" "lookup_path s2 = lookup_path s1" "fs_data s2 = fs_data s1"
    using part_open_ok [OF v(2,1) assms(3,4)] assms(5) by blast
  have tree: "table_tree t s2 (insert v V)" using table_tree_create [OF s1(2) assms(2)] table_tree_dirs [OF s2(4)] by simp
  have "plain_scheme (tb_keys t)" "tb_keys t \<noteq> []" using s1(2) by (simp_all add: table_tree_def Let_def)
  then have "length (partition_path t v) \<le> length (partition_path t u)" if "partition_ok (tb_keys t) u" for u
    using partition_path_eq [of t] that assms(2) by simp
  then have oth: "rw_others crc t (k + 1) (Some v) G s2"
    using s1(4) part_ready_dirs [OF _ _ s2(3-6)] unfolding rw_others_def by blast
  have tb: "rw_table w = t" using assms(1) by (simp add: rw_inv_def)
  obtain w' where w': "roll_to_partition ok2 v (w, s) = (Inr (), w', s2)" "rw_table w' = t" "rw_current_partition w' = Some v" "rw_current_writer w' = Some tw"
    "st_messages_written (rw_stats w') = st_messages_written (rw_stats w)" "st_partition_rolls (rw_stats w') = st_partition_rolls (rw_stats w) + rw_rolls w v"
    using s1(1) s2(1) tb assms(6) by (cases "rw_current_partition w") (simp_all add: roll_to_partition_def bind_ok on_fs_def upd_def)
  then have "rw_inv crc t (k + 1) (insert v V) G (w', s2)" using tree s2(2,3) oth by (simp add: rw_inv_def)
  then show ?thesis using w' by blast
qed

lemma rolling_append_ok:
  assumes "rw_inv crc t k V G (w, s)" "roller ts p = Inr v" "partition_ok (tb_keys t) v" "128 \<le> tb_size t" "tb_size t \<le> u64_max" "k + 2 \<le> 1000000000" "fits (tb_size t) (ty, ts, p)"
  shows "\<exists>w' s'. rolling_append crc ok2 roller elapsed ty ts p (w, s) = (Inr (), w', s') \<and>
    rw_inv crc t (k + 2) (insert v V) (G(v := G v @ [(ty, ts, p)])) (w', s') \<and> rw_current_partition w' = Some v \<and>
    st_messages_written (rw_stats w') = st_messages_written (rw_stats w) + 1 \<and> st_partition_rolls (rw_stats w') = st_partition_rolls (rw_stats w) + rw_rolls w v"
proof -
  let ?m = "if rw_current_partition w = Some v then ret () else roll_to_partition ok2 v"
  obtain w1 s1 where s1: "?m (w, s) = (Inr (), w1, s1)" "rw_inv crc t (k + 1) (insert v V) G (w1, s1)" "rw_current_partition w1 = Some v"
    "st_messages_written (rw_stats w1) = st_messages_written (rw_stats w)" "st_partition_rolls (rw_stats w1) = st_partition_rolls (rw_stats w) + rw_rolls w v"
  proof (cases "rw_current_partition w = Some v")
    case True
    have "part_open crc t k s v tw (G v) \<Longrightarrow> part_open crc t (k + 1) s v tw (G v)" for tw by (fastforce simp: part_open_def)
    then have "rw_inv crc t (k + 1) (insert v V) G (w, s)"
      using assms(1) True rw_others_mono [of crc t k "Some v" G s "k + 1"] by (auto simp: rw_inv_def insert_absorb)
    then show ?thesis using that [of w s] True by (simp add: ret_def)
  next
    case False
    then show ?thesis using roll_to_ok [OF assms(1,3-5) _ False, of ok2] that assms(6) by auto
  qed
  obtain tw where tw: "rw_current_writer w1 = Some tw" "part_open crc t (k + 1) s1 v tw (G v)" "rw_others crc t (k + 1) (Some v) G s1"
    "table_tree t s1 (insert v V)" "rw_table w1 = t" using s1(2,3) by (auto simp: rw_inv_def)
  obtain tw' s2 where a: "ts_append crc ok2 elapsed ty ts p (tw, s1) = (Inr (), tw', s2)" "part_open crc t (k + 2) s2 v tw' (G v @ [(ty, ts, p)])"
    "inside (partition_path t v) s1 s2" using part_append_ok [OF tw(2) assms(7), of ok2 elapsed] assms(6) by auto
  let ?w = "w1\<lparr>rw_current_writer := Some tw', rw_stats := (rw_stats w1)\<lparr>st_messages_written := st_messages_written (rw_stats w1) + 1\<rparr>\<rparr>"
  have ap: "rolling_append crc ok2 roller elapsed ty ts p (w, s) = (Inr (), ?w, s2)"
    using assms(2) tw(1) a(1) s1(1) by (cases "rw_current_partition w = Some v") (simp_all add: rolling_append_def bind_def get_def lift_def on_current_def upd_def ret_def)
  have "rw_others crc t (k + 2) (Some v) G s2" using rw_others_inside [OF tw(3) a(3) tw(4)] rw_others_mono [of _ _ "k + 1" _ _ _ "k + 2"] by simp
  then have "rw_others crc t (k + 2) (Some v) (G(v := G v @ [(ty, ts, p)])) s2" by (simp add: rw_others_def)
  then have "rw_inv crc t (k + 2) (insert v V) (G(v := G v @ [(ty, ts, p)])) (?w, s2)"
    using a(2,3) tw(4,5) s1(3) table_tree_inside [OF a(3)] by (simp add: rw_inv_def inside_def)
  then show ?thesis using ap s1(3-5) by (intro exI [of _ ?w] exI [of _ s2]) simp
qed

text \<open>A session: all the records, then \<open>finish\<close>.\<close>

definition rolling_session :: "crc_fun \<Rightarrow> bool \<Rightarrow> roller_fun \<Rightarrow> (bool \<times> u16 \<times> u64 \<times> bytes) list \<Rightarrow> rolling_stats rw_io" where
  "rolling_session crc ok2 roller rs =
     bind (run_all (\<lambda>(elapsed, ty, ts, p). rolling_append crc ok2 roller elapsed ty ts p) rs) (\<lambda>_. rolling_finish ok2)"

fun changes :: "partition_values option \<Rightarrow> partition_values list \<Rightarrow> nat" where
  "changes cur [] = 0"
| "changes cur (v # vs) = (if cur = None \<or> cur = Some v then 0 else 1) + changes (Some v) vs"

lemma rolling_appends:
  assumes "rw_inv crc t k V G (w, s)" "128 \<le> tb_size t" "tb_size t \<le> u64_max" "k + 2 * length rs \<le> 1000000000"
    and "\<forall>r \<in> set rs. fits (tb_size t) (snd r)" "\<forall>r \<in> set rs. partition_ok (tb_keys t) (target r)"
    and "\<forall>(e, ty, ts, p) \<in> set rs. roller ts p = Inr (target (e, ty, ts, p))"
  shows "\<exists>w' s' k'. run_all (\<lambda>(elapsed, ty, ts, p). rolling_append crc ok2 roller elapsed ty ts p) rs (w, s) = (Inr (), w', s') \<and>
    rw_inv crc t k' (V \<union> target ` set rs) (\<lambda>v. G v @ map snd (filter (\<lambda>r. target r = v) rs)) (w', s') \<and> k' = k + 2 * length rs \<and>
    st_messages_written (rw_stats w') = st_messages_written (rw_stats w) + length rs \<and>
    st_partition_rolls (rw_stats w') = st_partition_rolls (rw_stats w) + changes (rw_current_partition w) (map target rs) \<and>
    rw_current_partition w' = (if rs = [] then rw_current_partition w else Some (target (last rs)))"
  using assms
proof (induction rs arbitrary: k V G w s)
  case (Cons r rs)
  obtain e ty ts p where r: "r = (e, ty, ts, p)" by (metis prod_cases4)
  let ?G = "G(target r := G (target r) @ [(ty, ts, p)])"
  obtain w1 s1 where s1: "rolling_append crc ok2 roller e ty ts p (w, s) = (Inr (), w1, s1)" "rw_inv crc t (k + 2) (insert (target r) V) ?G (w1, s1)"
    "rw_current_partition w1 = Some (target r)" "st_messages_written (rw_stats w1) = st_messages_written (rw_stats w) + 1"
    "st_partition_rolls (rw_stats w1) = st_partition_rolls (rw_stats w) + rw_rolls w (target r)"
    using rolling_append_ok [OF Cons.prems(1), of roller ts p "target r" ty ok2 e] Cons.prems(2-7) r by auto
  have G: "(\<lambda>v. ?G v @ map snd (filter (\<lambda>r. target r = v) rs)) = (\<lambda>v. G v @ map snd (filter (\<lambda>r. target r = v) (r # rs)))" using r by auto
  have V: "insert (target r) V \<union> target ` set rs = V \<union> target ` set (r # rs)" by auto
  obtain w2 s2 where s2: "run_all (\<lambda>(elapsed, ty, ts, p). rolling_append crc ok2 roller elapsed ty ts p) rs (w1, s1) = (Inr (), w2, s2)"
    "rw_inv crc t (k + 2 + 2 * length rs) (V \<union> target ` set (r # rs)) (\<lambda>v. G v @ map snd (filter (\<lambda>r. target r = v) (r # rs))) (w2, s2)"
    "st_messages_written (rw_stats w2) = st_messages_written (rw_stats w1) + length rs"
    "st_partition_rolls (rw_stats w2) = st_partition_rolls (rw_stats w1) + changes (Some (target r)) (map target rs)"
    "rw_current_partition w2 = (if rs = [] then Some (target r) else Some (target (last rs)))"
    using Cons.IH [OF s1(2)] Cons.prems(2-7) s1(3) unfolding G V by auto
  show ?case using s1 s2 r by (intro exI [of _ w2] exI [of _ s2]) (simp add: bind_ok algebra_simps)
qed (simp add: ret_def)

text \<open>A table that has just been created and has no files in it.\<close>

lemma new_table_inv:
  assumes "table_tree t s {}" "fs_wf s" "CHR 0x00 \<notin> set (concat (tb_root t))" "\<And>v p. partition_ok (tb_keys t) v \<Longrightarrow> butlast p = partition_path t v \<Longrightarrow> lookup_path s p = None \<and> \<not> is_dir s p"
  shows "rw_inv crc t 0 {} (\<lambda>_. []) (rolling_new t, s)"
proof -
  have "part_ready crc t 0 s v []" if v: "partition_ok (tb_keys t) v" for v
  proof -
    let ?d = "partition_path t v"
    have "?d = tb_root t @ map (part_of v) (tb_keys t)" using partition_path_eq [of t v] assms(1) v by (simp add: table_tree_def Let_def)
    then have nul: "CHR 0x00 \<notin> set (concat ?d)" using v assms(3) by (simp add: partition_ok_def)
    have none: "lookup_path s (segment_path ?d i) = None" "\<not> is_dir s (segment_path ?d i)" for i using assms(4) [OF v, of "segment_path ?d i"] by (simp_all add: segment_path_def)
    moreover have "segment_path ?d i \<noteq> take n ?d" for i n
      by (metis Suc_n_not_le_n length_append_singleton length_take min.cobounded1 segment_path_def)
    ultimately have "log_holds crc ?d (tb_size t) (create_dir_all ?d s) []"
      using nul assms(2) by (auto simp: log_holds_def dir_ok_def is_dir_create_dir_all intro: exI [of _ "length ?d"])
    then show ?thesis by (auto simp: part_ready_def)
  qed
  then show ?thesis using assms(1,2) by (simp add: rw_inv_def rolling_new_def rw_others_def)
qed

lemma part_reads:
  assumes "part_ready crc t k s v rs" "is_dir s (partition_path t v)" "validate (tb_keys t) v = Inr ()" "tb_size t + 64 \<le> u64_max" "k \<le> 1000000000" "fs_wf s"
  shows "\<exists>L. log_holds crc (partition_path t v) (tb_size t) s L \<and> (\<forall>i \<in> fst ` set L. i < 1000000000) \<and> map rec_of (concat (map snd L)) = rs"
    "\<exists>r ms. table_reader t v s = (Inr r, s) \<and> reads (ts_next crc s) r ms \<and> map rec_of ms = rs"
proof -
  let ?d = "partition_path t v"
  obtain L where L: "log_holds crc ?d (tb_size t) (create_dir_all ?d s) L" "\<forall>i \<in> fst ` set L. i < k" "map rec_of (concat (map snd L)) = rs"
    using assms(1) by (auto simp: part_ready_def)
  have h: "log_holds crc ?d (tb_size t) s L"
    using L(1) assms(2,6) by (intro log_holds_dirs [OF L(1)]) (auto simp: log_holds_def dir_ok_def is_dir_create_dir_all)
  have n: "\<forall>i \<in> fst ` set L. i < 1000000000" using L(2) assms(5) by fastforce
  then show "\<exists>L. log_holds crc ?d (tb_size t) s L \<and> (\<forall>i \<in> fst ` set L. i < 1000000000) \<and> map rec_of (concat (map snd L)) = rs" using h L(3) by blast
  obtain r where r: "ts_reader_open ?d s = (Inr r, s)" "sc_pending crc s L (lr_cursor (tr_reader r)) (concat (map snd L))"
    using reader_starts [OF h assms(4) n] by blast
  have "reads (ts_next crc s) r (concat (map snd L))" using ts_src.reads_pending r(2) by blast
  then show "\<exists>r ms. table_reader t v s = (Inr r, s) \<and> reads (ts_next crc s) r ms \<and> map rec_of ms = rs"
    using r(1) L(3) assms(3) by (auto simp: table_reader_def bind_ok lift_def bind_def)
qed

lemma rolling_session_ok:
  assumes "rw_inv crc t 0 {} (\<lambda>_. []) (rolling_new t, s)" "128 \<le> tb_size t" "tb_size t + 64 \<le> u64_max" "length rs < 500000000"
    and "\<forall>r \<in> set rs. fits (tb_size t) (snd r)" "\<forall>r \<in> set rs. partition_ok (tb_keys t) (target r)"
    and "\<forall>(e, ty, ts, p) \<in> set rs. roller ts p = Inr (target (e, ty, ts, p))"
  shows "\<exists>w' s'. rolling_session crc ok2 roller rs (rolling_new t, s) = (Inr \<lparr>st_messages_written = length rs, st_partition_rolls = changes None (map target rs),
      st_partitions_written = (if rs = [] then 0 else changes None (map target rs) + 1)\<rparr>, w', s') \<and>
    table_tree t s' (target ` set rs) \<and> fs_wf s' \<and> rw_others crc t 1000000000 None (\<lambda>v. map snd (filter (\<lambda>r. target r = v) rs)) s'"
proof -
  obtain w1 s1 where s1: "run_all (\<lambda>(elapsed, ty, ts, p). rolling_append crc ok2 roller elapsed ty ts p) rs (rolling_new t, s) = (Inr (), w1, s1)"
    "rw_inv crc t (2 * length rs) (target ` set rs) (\<lambda>v. map snd (filter (\<lambda>r. target r = v) rs)) (w1, s1)"
    "st_messages_written (rw_stats w1) = length rs" "st_partition_rolls (rw_stats w1) = changes None (map target rs)"
    "rw_current_partition w1 = (if rs = [] then None else Some (target (last rs)))"
    using rolling_appends [OF assms(1,2) _ _ assms(5-7), of ok2] assms(3,4) by (auto simp: rolling_new_def)
  obtain s2 where s2: "finish_current ok2 (w1, s1) = (Inr (), w1\<lparr>rw_current_writer := None\<rparr>, s2)" "table_tree t s2 (target ` set rs)" "fs_wf s2"
    "rw_others crc t (2 * length rs + 1) None (\<lambda>v. map snd (filter (\<lambda>r. target r = v) rs)) s2"
    using finish_current_ok [OF s1(2)] by blast
  have "rw_others crc t 1000000000 None (\<lambda>v. map snd (filter (\<lambda>r. target r = v) rs)) s2" using rw_others_mono [OF s2(4)] assms(4) by simp
  then show ?thesis using s1 s2(1-3) by (simp add: rolling_session_def bind_ok rolling_finish_def ret_def)
qed

lemma create_then_roll:
  assumes "\<forall>d. d \<noteq> [] \<longrightarrow> \<not> path_exists s (root @ d)" "fs_wf s" "CHR 0x00 \<notin> set (concat root)" "plain_scheme keys" "keys \<noteq> []"
    and "json (metadata_new now keys) = Some js" "t = \<lparr>tb_root = root, tb_metadata = metadata_new now keys, tb_config = config\<rparr>"
  shows "\<exists>s1. table_create json now root keys config s = (Inr t, s1) \<and> rw_inv crc t 0 {} (\<lambda>_. []) (rolling_new t, s1)"
proof -
  let ?t = "\<lparr>tb_root = root, tb_metadata = metadata_new now keys, tb_config = config\<rparr>"
  have k: "tb_keys ?t = keys" by (simp add: metadata_new_def)
  have e: "\<not> metadata_exists root s" "\<forall>d. d \<noteq> [] \<longrightarrow> \<not> is_dir s (root @ d)" "\<And>d. d \<noteq> [] \<Longrightarrow> lookup_path s (root @ d) = None"
    using assms(1) by (auto simp: path_exists_def metadata_exists_def metadata_path_def)
  obtain s1 where s1: "table_create json now root keys config s = (Inr ?t, s1)" "table_tree ?t s1 {}" "fs_wf s1"
    "\<And>d. is_dir s1 (root @ d) \<Longrightarrow> d = [] \<or> hd d = ''_table''" "\<And>q. q \<noteq> metadata_path root \<Longrightarrow> lookup_path s1 q = lookup_path s q"
    using table_create_ok [where t = ?t and json = json and now = now and keys = keys, OF e(1) assms(6) e(2) assms(4,5) refl] assms(2) by auto
  have "lookup_path s1 p = None \<and> \<not> is_dir s1 p" if v: "partition_ok keys v" and p: "butlast p = partition_path ?t v" for v p
  proof -
    obtain x where x: "p = (root @ map (part_of v) keys) @ [x]"
      using p partition_path_eq [of ?t v] k assms(4,5) v by (cases p rule: rev_cases) auto
    have "part_of v (hd keys) \<noteq> ''_table''" using part_parse(3) [OF assms(4) v, of 0] assms(5) by (cases keys) auto
    then have "hd (map (part_of v) keys @ [x]) \<noteq> ''_table''" using assms(5) by (cases keys) auto
    moreover from this have "p \<noteq> metadata_path root" using x by (auto simp: metadata_path_def)
    ultimately show ?thesis using s1(4) [of "map (part_of v) keys @ [x]"] s1(5) [of p] e(3) [of "map (part_of v) keys @ [x]"] x by auto
  qed
  then show ?thesis unfolding assms(7) using s1(1) new_table_inv [OF s1(2,3)] assms(3) k by auto
qed

section \<open>Properties of the rolling writer\<close>

text \<open>
  Property C7. A rolling writer sorts its records into the partitions. On an empty directory a
  table is created, and a session of the rolling writer appends any records that fit, in any
  order of partitions, and finishes. The table then has exactly the partitions that the roller
  named; a reader of each returns exactly its records, in the order in which they were appended;
  and the statistics count the records and the changes of partition.
\<close>

theorem rolling_sorts_records:
  assumes "\<forall>d. d \<noteq> [] \<longrightarrow> \<not> path_exists s (root @ d)" "fs_wf s" "CHR 0x00 \<notin> set (concat root)" "plain_scheme keys" "keys \<noteq> []"
    and "json (metadata_new now keys) = Some js" "128 \<le> tc_segment_size config" "tc_segment_size config + 64 \<le> u64_max" "length rs < 500000000"
    and "\<forall>r \<in> set rs. fits (tc_segment_size config) (snd r)" "\<forall>r \<in> set rs. partition_ok keys (target r)"
    and "\<forall>(e, ty, ts, p) \<in> set rs. roller ts p = Inr (target (e, ty, ts, p))"
  shows "\<exists>t s1 stats w s2 infos. table_create json now root keys config s = (Inr t, s1) \<and>
    rolling_session crc ok2 roller rs (table_rolling_writer t, s1) = (Inr stats, w, s2) \<and>
    table_partitions t s2 = Inr infos \<and> set infos = (\<lambda>v. (v, partition_path t v)) ` target ` set rs \<and>
    (\<forall>v \<in> target ` set rs. \<exists>r ms. table_reader t v s2 = (Inr r, s2) \<and> reads (ts_next crc s2) r ms \<and>
       map rec_of ms = map snd (filter (\<lambda>r. target r = v) rs)) \<and>
    st_messages_written stats = length rs \<and> st_partition_rolls stats = changes None (map target rs)"
proof -
  let ?t = "\<lparr>tb_root = root, tb_metadata = metadata_new now keys, tb_config = config\<rparr>"
  have k: "tb_keys ?t = keys" "tb_size ?t = tc_segment_size config" by (simp_all add: metadata_new_def)
  obtain s1 where s1: "table_create json now root keys config s = (Inr ?t, s1)" "rw_inv crc ?t 0 {} (\<lambda>_. []) (rolling_new ?t, s1)"
    using create_then_roll [of s root keys json now js ?t config crc] assms(1-6) by auto
  obtain w s2 stats where s2: "rolling_session crc ok2 roller rs (rolling_new ?t, s1) = (Inr stats, w, s2)" "st_messages_written stats = length rs"
    "st_partition_rolls stats = changes None (map target rs)" "table_tree ?t s2 (target ` set rs)" "fs_wf s2"
    "rw_others crc ?t 1000000000 None (\<lambda>v. map snd (filter (\<lambda>r. target r = v) rs)) s2"
    using rolling_session_ok [of crc ?t s1 rs target roller ok2] assms(7-12) k s1(2) by auto
  obtain infos where i: "table_partitions ?t s2 = Inr infos" "set infos = (\<lambda>v. (v, partition_path ?t v)) ` target ` set rs"
    using table_partitions_ok [OF s2(4)] by blast
  have "\<exists>r ms. table_reader ?t v s2 = (Inr r, s2) \<and> reads (ts_next crc s2) r ms \<and> map rec_of ms = map snd (filter (\<lambda>r. target r = v) rs)"
    if v: "v \<in> target ` set rs" for v
  proof -
    have ok: "partition_ok keys v" using v assms(11) by auto
    then have "is_dir s2 (partition_path ?t v)" using table_tree_dir [OF s2(4) v] by simp
    then show ?thesis using part_reads(2) [of crc ?t 1000000000 s2 v] s2(5,6) ok assms(8) k by (auto simp: rw_others_def partition_ok_def)
  qed
  then show ?thesis using s1(1) s2(1-3) i unfolding table_rolling_writer_def by blast
qed

text \<open>Two days, and back to the first.\<close>

definition demo_roller_fun :: roller_fun where
  "demo_roller_fun ts p = Inr (if ts = 20 then demo_day ''2026-01-30'' else demo_partition)"

abbreviation demo_target :: "bool \<times> u16 \<times> u64 \<times> bytes \<Rightarrow> partition_values" where
  "demo_target r \<equiv> (case r of (e, ty, ts, p) \<Rightarrow> if ts = 20 then demo_day ''2026-01-30'' else demo_partition)"

theorem rolling_sorts_records_witness:
  "\<exists>t s1 stats w s2 infos. table_create (\<lambda>_. Some []) 5 [''t''] demo_keys default_table_config fs_empty = (Inr t, s1) \<and>
    rolling_session (\<lambda>_. 5) True demo_roller_fun [(True, 1, 10, [7]), (False, 1, 20, [8]), (False, 1, 30, [])] (table_rolling_writer t, s1) = (Inr stats, w, s2) \<and>
    table_partitions t s2 = Inr infos \<and> set infos = {(demo_partition, partition_path t demo_partition), (demo_day ''2026-01-30'', partition_path t (demo_day ''2026-01-30''))} \<and>
    (\<exists>r ms. table_reader t demo_partition s2 = (Inr r, s2) \<and> reads (ts_next (\<lambda>_. 5) s2) r ms \<and> map rec_of ms = [(1, 10, [7]), (1, 30, [])]) \<and>
    (\<exists>r ms. table_reader t (demo_day ''2026-01-30'') s2 = (Inr r, s2) \<and> reads (ts_next (\<lambda>_. 5) s2) r ms \<and> map rec_of ms = [(1, 20, [8])]) \<and>
    st_messages_written stats = 3 \<and> st_partition_rolls stats = 2"
proof -
  let ?rs = "[(True, 1, 10, [7]), (False, 1, 20, [8]), (False, 1, 30, [])] :: (bool \<times> u16 \<times> u64 \<times> bytes) list"
  have "Mapping.lookup (demo_day x) ''date'' = Some (Str_Value x)" for x by (simp add: demo_day_def)
  from this [of "''2026-01-30''"] this [of "''2026-01-29''"] have d: "demo_day ''2026-01-30'' \<noteq> demo_partition" by auto
  have "\<forall>r \<in> set ?rs. partition_ok demo_keys (demo_target r)" using demo_partition_ok(2) by simp
  moreover have "\<forall>r \<in> set ?rs. fits (tc_segment_size default_table_config) (snd r)"
    using record_len_eq [of 0] record_len_eq [of 1] by (simp add: fits_def default_table_config_def)
  moreover have "demo_keys \<noteq> []" by (simp add: demo_keys_def add_int_def add_date_def)
  ultimately have "\<exists>t s1 stats w s2 infos. table_create (\<lambda>_. Some []) 5 [''t''] demo_keys default_table_config fs_empty = (Inr t, s1) \<and>
    rolling_session (\<lambda>_. 5) True demo_roller_fun ?rs (table_rolling_writer t, s1) = (Inr stats, w, s2) \<and>
    table_partitions t s2 = Inr infos \<and> set infos = (\<lambda>v. (v, partition_path t v)) ` demo_target ` set ?rs \<and>
    (\<forall>v \<in> demo_target ` set ?rs. \<exists>r ms. table_reader t v s2 = (Inr r, s2) \<and> reads (ts_next (\<lambda>_. 5) s2) r ms \<and>
       map rec_of ms = map snd (filter (\<lambda>r. demo_target r = v) ?rs)) \<and>
    st_messages_written stats = length ?rs \<and> st_partition_rolls stats = changes None (map demo_target ?rs)"
    by (intro rolling_sorts_records)
      (simp_all add: fs_empty_def path_exists_def lookup_path_def is_dir_def default_table_config_def demo_partition_ok fs_wf_empty [unfolded fs_empty_def] demo_roller_fun_def)
  then show ?thesis using d by (simp add: insert_commute flip: numeral_2_eq_2 numeral_3_eq_3)
qed

text \<open>
  Property C30. After a failed change of partition records are dropped without an error. The
  writer of the old partition is finished and gone before the new one is opened, but the current
  partition stays the old one. When opening fails, the next record of the old partition needs no
  roll, finds no writer and is reported as written, although nothing changes.
\<close>

theorem failed_roll_drops:
  assumes "rw_inv crc t k V G (w, s)" "rw_current_partition w = Some v"
    and "roller ts1 p1 = Inr v1" "validate (tb_keys t) v1 = Inl e" "roller ts2 p2 = Inr v"
  shows "\<exists>w1 s1. rolling_append crc ok2 roller el1 ty1 ts1 p1 (w, s) = (Inl e, w1, s1) \<and>
    rolling_append crc ok2 roller el2 ty2 ts2 p2 (w1, s1) = (Inr (), w1, s1)"
proof -
  have "v \<in> V" "table_tree t s V" "rw_table w = t" using assms(1,2) by (simp_all add: rw_inv_def)
  then have "validate (tb_keys t) v = Inr ()" by (auto simp: table_tree_def Let_def partition_ok_def)
  then have v: "rw_current_partition w \<noteq> Some v1" using assms(2,4) by auto
  obtain s1 where s1: "finish_current ok2 (w, s) = (Inr (), w\<lparr>rw_current_writer := None\<rparr>, s1)" using finish_current_ok [OF assms(1)] by blast
  have "table_writer t v1 s1 = (Inl e, s1)" using assms(4) by (simp add: table_writer_def bind_def lift_def fail_def)
  then have "\<exists>w1. rolling_append crc ok2 roller el1 ty1 ts1 p1 (w, s) = (Inl e, w1, s1) \<and> rw_current_writer w1 = None \<and> rw_current_partition w1 = Some v"
    using s1 assms(2,3) v \<open>rw_table w = t\<close>
    by (simp add: rolling_append_def roll_to_partition_def bind_def lift_def get_def upd_def on_fs_def)
  then obtain w1 where w1: "rolling_append crc ok2 roller el1 ty1 ts1 p1 (w, s) = (Inl e, w1, s1)" "rw_current_writer w1 = None" "rw_current_partition w1 = Some v" by blast
  have "rolling_append crc ok2 roller el2 ty2 ts2 p2 (w1, s1) = (Inr (), w1, s1)"
    using assms(5) w1(2,3) by (simp add: rolling_append_def bind_def lift_def get_def ret_def)
  then show ?thesis using w1(1) by blast
qed

text \<open>A roller that once leaves the date out.\<close>

definition demo_bad_roller :: roller_fun where
  "demo_bad_roller ts p = Inr (if ts = 20 then Mapping.empty else demo_partition)"

theorem failed_roll_drops_witness:
  "\<exists>t s w0 s0 e w1 s1. table_create (\<lambda>_. Some []) 5 [''t''] demo_keys default_table_config fs_empty = (Inr t, s) \<and>
     rolling_append (\<lambda>_. 5) True demo_bad_roller False 1 10 [7] (table_rolling_writer t, s) = (Inr (), w0, s0) \<and>
     rolling_append (\<lambda>_. 5) True demo_bad_roller False 1 20 [8] (w0, s0) = (Inl e, w1, s1) \<and>
     rolling_append (\<lambda>_. 5) True demo_bad_roller False 1 30 [9] (w1, s1) = (Inr (), w1, s1)"
proof -
  let ?t = "\<lparr>tb_root = [''t''], tb_metadata = metadata_new 5 demo_keys, tb_config = default_table_config\<rparr>"
  have k: "tb_keys ?t = demo_keys" "demo_keys \<noteq> []" by (simp_all add: metadata_new_def demo_keys_def add_date_def)
  have "\<exists>s1. table_create (\<lambda>_. Some []) 5 [''t''] demo_keys default_table_config fs_empty = (Inr ?t, s1) \<and> rw_inv (\<lambda>_. 5) ?t 0 {} (\<lambda>_. []) (rolling_new ?t, s1)"
    by (rule create_then_roll) (simp_all add: demo_partition_ok k(2), simp_all add: path_exists_def lookup_path_def is_dir_def fs_empty_def fs_wf_empty [unfolded fs_empty_def])
  then obtain s where s: "table_create (\<lambda>_. Some []) 5 [''t''] demo_keys default_table_config fs_empty = (Inr ?t, s)"
    "rw_inv (\<lambda>_. 5) ?t 0 {} (\<lambda>_. []) (rolling_new ?t, s)" by blast
  have "fits (tb_size ?t) (1, 10, [7])" using record_len_eq [of 1] by (simp add: fits_def default_table_config_def)
  then obtain w0 s0 where w0: "rolling_append (\<lambda>_. 5) True demo_bad_roller False 1 10 [7] (rolling_new ?t, s) = (Inr (), w0, s0)"
    "rw_inv (\<lambda>_. 5) ?t 2 {demo_partition} ((\<lambda>_. [])(demo_partition := [(1, 10, [7])])) (w0, s0)" "rw_current_partition w0 = Some demo_partition"
    using rolling_append_ok [OF s(2), of demo_bad_roller 10 "[7]" demo_partition 1 True False] demo_partition_ok(2) [of "''2026-01-29''"] k(1)
    by (auto simp: demo_bad_roller_def default_table_config_def simp flip: numeral_2_eq_2)
  have bad: "\<exists>e. validate (tb_keys ?t) Mapping.empty = Inl e" unfolding k(1) by (simp add: validate_def demo_keys_def add_int_def add_date_def scheme_new_def)
  then obtain e where e: "validate (tb_keys ?t) Mapping.empty = Inl e" by blast
  have "\<exists>w1 s1. rolling_append (\<lambda>_. 5) True demo_bad_roller False 1 20 [8] (w0, s0) = (Inl e, w1, s1) \<and>
     rolling_append (\<lambda>_. 5) True demo_bad_roller False 1 30 [9] (w1, s1) = (Inr (), w1, s1)"
    by (rule failed_roll_drops [OF w0(2,3) _ e]) (simp_all add: demo_bad_roller_def)
  then show ?thesis using s(1) w0(1) unfolding table_rolling_writer_def by blast
qed

end
