(* ===== verification/Merge.thy ===== *)
theory Merge
  imports Store Records "HOL-Library.Product_Lexorder" "HOL-Library.Multiset"
begin

text \<open>
  Merging several sources by time. The fan-in of \<^verbatim>\<open>src/src/ipc/fanin.rs\<close>, which scans the messages
  it holds, and the table reader of \<^verbatim>\<open>src/src/table/table_reader.rs\<close>, which keeps a heap, return the
  same sequence: the reference here, with what it promises, and the interface \<open>merge_source\<close> that
  both implement.
\<close>

section \<open>The reference\<close>

text \<open>A run is what one source has still to give. The next message is the head with the least time, from the first run that has it.\<close>

definition run_heads :: "message list list \<Rightarrow> (u64 \<times> nat) set" where
  "run_heads runs = {(msg_timestamp_ns (hd (runs ! i)), i) | i. i < length runs \<and> runs ! i \<noteq> []}"

definition merge_pick :: "message list list \<Rightarrow> nat option" where
  "merge_pick runs = (if run_heads runs = {} then None else Some (snd (Min (run_heads runs))))"

lemma finite_run_heads [simp]: "finite (run_heads runs)"
  by (simp add: run_heads_def)

lemma run_headsI: "i < length runs \<Longrightarrow> runs ! i = m # ms \<Longrightarrow> (msg_timestamp_ns m, i) \<in> run_heads runs"
  by (force simp: run_heads_def)

lemma run_headsE:
  assumes "(t, i) \<in> run_heads runs"
  obtains m ms where "i < length runs" "runs ! i = m # ms" "t = msg_timestamp_ns m"
  using assms by (cases "runs ! i") (auto simp: run_heads_def)

lemma merge_pick_None: "merge_pick runs = None \<longleftrightarrow> (\<forall>r \<in> set runs. r = [])"
  by (auto simp: merge_pick_def run_heads_def all_set_conv_all_nth)

lemma merge_pickI:
  assumes "i < length runs" "runs ! i = m # ms"
    and "\<And>j x xs. j < length runs \<Longrightarrow> runs ! j = x # xs \<Longrightarrow> (msg_timestamp_ns m, i) \<le> (msg_timestamp_ns x, j)"
  shows "merge_pick runs = Some i"
proof -
  have "(msg_timestamp_ns m, i) \<in> run_heads runs" by (rule run_headsI [OF assms(1,2)])
  moreover have "Min (run_heads runs) = (msg_timestamp_ns m, i)"
    by (rule Min_eqI) (use assms(3) calculation in \<open>auto elim!: run_headsE\<close>)
  ultimately show ?thesis by (auto simp: merge_pick_def)
qed

lemma merge_pickE:
  assumes "merge_pick runs = Some i"
  obtains m ms where "i < length runs" "runs ! i = m # ms"
    "\<And>j x xs. j < length runs \<Longrightarrow> runs ! j = x # xs \<Longrightarrow> (msg_timestamp_ns m, i) \<le> (msg_timestamp_ns x, j)"
proof -
  have ne: "run_heads runs \<noteq> {}" and i: "i = snd (Min (run_heads runs))" using assms by (auto simp: merge_pick_def split: if_splits)
  have "(fst (Min (run_heads runs)), i) \<in> run_heads runs" using Min_in [OF _ ne] i by simp
  then obtain m ms where m: "i < length runs" "runs ! i = m # ms" "fst (Min (run_heads runs)) = msg_timestamp_ns m" by (rule run_headsE)
  have "(msg_timestamp_ns m, i) \<le> (msg_timestamp_ns x, j)" if "j < length runs" "runs ! j = x # xs" for j x xs
    using Min_le [OF _ run_headsI [OF that]] m(3) i by (metis finite_run_heads prod.collapse)
  with m(1,2) show thesis by (rule that)
qed

function merge_runs :: "message list list \<Rightarrow> (nat \<times> message) list" where
  "merge_runs runs =
     (case merge_pick runs of None \<Rightarrow> [] | Some i \<Rightarrow> (i, hd (runs ! i)) # merge_runs (runs[i := tl (runs ! i)]))"
  by pat_completeness auto
termination
proof (relation "measure (\<lambda>runs. sum_list (map length runs))", goal_cases)
  case (2 runs i)
  obtain m ms where m: "i < length runs" "runs ! i = m # ms" by (rule merge_pickE [OF 2])
  have "runs[i := ms] = take i runs @ ms # drop (Suc i) runs" using m(1) by (rule upd_conv_take_nth_drop)
  moreover have "runs = take i runs @ (m # ms) # drop (Suc i) runs" using id_take_nth_drop [OF m(1)] m(2) by simp
  then have "sum_list (map length runs) = sum_list (map length (take i runs @ (m # ms) # drop (Suc i) runs))"
    by (rule arg_cong [where f = "\<lambda>runs. sum_list (map length runs)"])
  ultimately have "sum_list (map length (runs[i := ms])) < sum_list (map length runs)" by simp
  then show ?case using m by simp
qed simp

declare merge_runs.simps [simp del]

lemma merge_runs_induct [case_names Done Pick]:
  assumes "\<And>runs. merge_pick runs = None \<Longrightarrow> P runs"
    and "\<And>runs i m ms. merge_pick runs = Some i \<Longrightarrow> i < length runs \<Longrightarrow> runs ! i = m # ms \<Longrightarrow> P (runs[i := ms]) \<Longrightarrow> P runs"
  shows "P runs"
proof (induction runs rule: merge_runs.induct)
  case (1 runs)
  show ?case
  proof (cases "merge_pick runs")
    case None
    then show ?thesis by (rule assms(1))
  next
    case (Some i)
    obtain m ms where "i < length runs" "runs ! i = m # ms" by (rule merge_pickE [OF Some])
    then show ?thesis using 1 [OF Some] assms(2) [OF Some] by simp
  qed
qed

lemma merge_runs_simps:
  "merge_pick runs = None \<Longrightarrow> merge_runs runs = []"
  "merge_pick runs = Some i \<Longrightarrow> runs ! i = m # ms \<Longrightarrow> merge_runs runs = (i, m) # merge_runs (runs[i := ms])"
  by (simp_all add: merge_runs.simps [of runs])

section \<open>What the reference promises\<close>

text \<open>Every message of every run comes once, those of one run in their order.\<close>

lemma merge_runs_source:
  assumes "i < length runs"
  shows "map snd (filter (\<lambda>(j, _). j = i) (merge_runs runs)) = runs ! i"
  using assms
proof (induction runs rule: merge_runs_induct)
  case (Done runs)
  then show ?case by (simp add: merge_runs_simps merge_pick_None all_set_conv_all_nth)
next
  case (Pick runs j m ms)
  then show ?case by (cases "i = j") (simp_all add: merge_runs_simps(2) [of runs j m ms])
qed

lemma merge_runs_index: "(i, m) \<in> set (merge_runs runs) \<Longrightarrow> i < length runs \<and> m \<in> set (runs ! i)"
proof (induction runs rule: merge_runs_induct)
  case (Done runs)
  then show ?case by (simp add: merge_runs_simps)
next
  case (Pick runs j k ms)
  then show ?case by (cases "i = j") (auto simp: merge_runs_simps(2) [of runs j k ms])
qed

text \<open>When every run is in order of time, so is the result; of equal times the first source comes first.\<close>

abbreviation in_time :: "message list \<Rightarrow> bool" where
  "in_time ms \<equiv> sorted (map msg_timestamp_ns ms)"

abbreviation merge_order :: "(nat \<times> message) list \<Rightarrow> bool" where
  "merge_order \<equiv> sorted_wrt (\<lambda>(i, m) (j, k). (msg_timestamp_ns m, i) \<le> (msg_timestamp_ns k, j))"

lemma merge_runs_sorted:
  assumes "\<forall>r \<in> set runs. in_time r"
  shows "merge_order (merge_runs runs)"
  using assms
proof (induction runs rule: merge_runs_induct)
  case (Done runs)
  then show ?case by (simp add: merge_runs_simps)
next
  case (Pick runs i m ms)
  have srt: "\<forall>r \<in> set (runs[i := ms]). in_time r"
    using Pick.prems Pick.hyps(2,3) nth_mem [OF Pick.hyps(2)] by (auto dest!: set_update_subset_insert [THEN subsetD])
  have least: "(msg_timestamp_ns m, i) \<le> (msg_timestamp_ns k, j)" if "(j, k) \<in> set (merge_runs (runs[i := ms]))" for j k
  proof -
    have j: "j < length runs" "k \<in> set (runs[i := ms] ! j)" using merge_runs_index [OF that] by simp_all
    show ?thesis
    proof (cases "j = i")
      case True
      have "in_time (m # ms)" using Pick.prems nth_mem [OF Pick.hyps(2)] Pick.hyps(3) by metis
      then show ?thesis using True j by auto
    next
      case False
      then have k: "k \<in> set (runs ! j)" using j by simp
      then obtain x xs where x: "runs ! j = x # xs" by (cases "runs ! j") auto
      have "in_time (x # xs)" using Pick.prems nth_mem [OF j(1)] x by metis
      then have "msg_timestamp_ns x \<le> msg_timestamp_ns k" using k x by auto
      then have "(msg_timestamp_ns x, j) \<le> (msg_timestamp_ns k, j)" by simp
      moreover have "(msg_timestamp_ns m, i) \<le> (msg_timestamp_ns x, j)"
        by (rule merge_pickE [OF Pick.hyps(1)]) (use j(1) x Pick.hyps(3) in \<open>simp del: less_eq_prod_simp\<close>)
      ultimately show ?thesis by (rule order_trans [rotated])
    qed
  qed
  show ?case using Pick.IH [OF srt] least by (auto simp: merge_runs_simps(2) [OF Pick.hyps(1,3)])
qed

section \<open>The interface\<close>

text \<open>\<open>holds s runs\<close>: what the merger in state \<open>s\<close> has still to return of each source.\<close>

locale merge_source =
  fixes holds :: "'s \<Rightarrow> message list list \<Rightarrow> bool"
    and pull :: "('s, 'm option) io"
    and out :: "nat \<times> message \<Rightarrow> 'm"
  assumes pull_end: "holds s runs \<Longrightarrow> merge_pick runs = None \<Longrightarrow> \<exists>s'. pull s = (Inr None, s')"
    and pull_some: "holds s runs \<Longrightarrow> merge_pick runs = Some i \<Longrightarrow> runs ! i = m # ms \<Longrightarrow>
      \<exists>s'. pull s = (Inr (Some (out (i, m))), s') \<and> holds s' (runs[i := ms])"
begin

lemma reads_merge: "holds s runs \<Longrightarrow> reads pull s (map out (merge_runs runs))"
proof (induction runs arbitrary: s rule: merge_runs_induct)
  case (Done runs)
  then show ?case using pull_end [OF Done(2,1)] by (auto simp: merge_runs_simps)
next
  case (Pick runs i m ms)
  obtain s' where "pull s = (Inr (Some (out (i, m))), s')" "holds s' (runs[i := ms])"
    using pull_some [OF Pick(5,1,3)] by blast
  then show ?case using Pick(4) by (simp add: merge_runs_simps(2) [OF Pick(1,3)])
qed

end

section \<open>Sources by index\<close>

text \<open>
  What each source has to give depends on where it reads, so the contract of a reader is stated with
  an index; it says in addition that a reader at the end stays there.
\<close>

locale source_family =
  fixes pend :: "nat \<Rightarrow> 's \<Rightarrow> message list \<Rightarrow> bool"
    and recv :: "('s, message option) io"
  assumes recv_end: "pend i s [] \<Longrightarrow> \<exists>s'. recv s = (Inr None, s') \<and> pend i s' []"
    and recv_some: "pend i s (m # ms) \<Longrightarrow> \<exists>s'. recv s = (Inr (Some m), s') \<and> pend i s' ms"

text \<open>A source with one message read ahead, or none.\<close>

definition slot_holds :: "('s \<Rightarrow> message list \<Rightarrow> bool) \<Rightarrow> message option \<Rightarrow> 's \<Rightarrow> message list \<Rightarrow> bool" where
  "slot_holds pnd p s r = (case p of None \<Rightarrow> pnd s r | Some m \<Rightarrow> \<exists>ms. r = m # ms \<and> pnd s ms)"

end
