(* ===== verification/Table_Reader.thy ===== *)
theory Table_Reader
  imports Rolling Merge
begin

text \<open>
  \<^verbatim>\<open>src/src/table/table_reader.rs\<close>: a query reads the partitions that pass a filter, either merged by
  time with a heap or one after the other. The readers of the partitions are a parameter of the
  operations, so that they share the interface of \<open>Merge\<close> with the fan-in.
\<close>

section \<open>The reader\<close>

datatype merge_strategy = TimestampOrdered | PartitionSequential

text \<open>
  An entry of the heap: the time, the index of the partition and the sequence number, compared in
  this order. No two entries are equal, so the heap is the list of its entries in order.
\<close>

type_synonym heap_entry = "u64 \<times> nat \<times> u64"

definition heap_push :: "heap_entry \<Rightarrow> heap_entry list \<Rightarrow> heap_entry list" where
  "heap_push e heap = insort e heap"

definition heap_pop :: "heap_entry list \<Rightarrow> (heap_entry \<times> heap_entry list) option" where
  "heap_pop heap = (case heap of [] \<Rightarrow> None | e # rest \<Rightarrow> Some (e, rest))"

record 's partition_reader =
  pr_reader :: 's
  pr_info :: partition_info
  pr_buffered :: "message option"

record 's multi_reader =
  mr_readers :: "'s partition_reader list"
  mr_strategy :: merge_strategy
  mr_heap :: "heap_entry list option"
  mr_current_partition :: nat
  mr_msg_buffer :: "message option"

definition heap_entry_of :: "nat \<Rightarrow> message \<Rightarrow> heap_entry" where
  "heap_entry_of idx msg = (msg_timestamp_ns msg, idx, msg_seq msg)"

text \<open>The loop of \<open>init_heap\<close>; \<open>idx\<close> is the index of the head of the list.\<close>

fun init_loop :: "('s, message option) io \<Rightarrow> nat \<Rightarrow> 's partition_reader list \<Rightarrow> heap_entry list \<Rightarrow> heap_entry list result \<times> 's partition_reader list" where
  "init_loop recv idx [] heap = (Inr heap, [])"
| "init_loop recv idx (p # ps) heap =
     (case recv (pr_reader p) of
        (Inl err, r) \<Rightarrow> (Inl err, p\<lparr>pr_reader := r\<rparr> # ps)
      | (Inr None, r) \<Rightarrow>
          (case init_loop recv (idx + 1) ps heap of (res, ps') \<Rightarrow> (res, p\<lparr>pr_reader := r\<rparr> # ps'))
      | (Inr (Some msg), r) \<Rightarrow>
          (case init_loop recv (idx + 1) ps (heap_push (heap_entry_of idx msg) heap) of
             (res, ps') \<Rightarrow> (res, p\<lparr>pr_reader := r, pr_buffered := Some msg\<rparr> # ps')))"

definition init_heap :: "('s, message option) io \<Rightarrow> ('s multi_reader, unit) io" where
  "init_heap recv = (\<lambda>t.
     case init_loop recv 0 (mr_readers t) [] of
       (Inl err, ps) \<Rightarrow> (Inl err, t\<lparr>mr_readers := ps\<rparr>)
     | (Inr heap, ps) \<Rightarrow> (Inr (), t\<lparr>mr_readers := ps, mr_heap := Some heap\<rparr>))"

definition next_ordered :: "('s, message option) io \<Rightarrow> ('s multi_reader, message option) io" where
  "next_ordered recv = (\<lambda>t.
     case mr_heap t of
       None \<Rightarrow> (Inl (Panic ''unwrap on None''), t)
     | Some heap \<Rightarrow>
         (case heap_pop heap of
            None \<Rightarrow> (Inr None, t)
          | Some ((_, i, _), heap') \<Rightarrow>
              if length (mr_readers t) \<le> i then (Inl (Panic ''index out of bounds''), t\<lparr>mr_heap := Some heap'\<rparr>)
              else let p = mr_readers t ! i in
                (case pr_buffered p of
                   None \<Rightarrow> (Inl (Panic ''unwrap on None''), t\<lparr>mr_heap := Some heap'\<rparr>)
                 | Some msg \<Rightarrow>
                     (case recv (pr_reader p) of
                        (Inl err, r) \<Rightarrow>
                          (Inl err, t\<lparr>mr_heap := Some heap', mr_msg_buffer := Some msg,
                             mr_readers := (mr_readers t)[i := p\<lparr>pr_reader := r, pr_buffered := None\<rparr>]\<rparr>)
                      | (Inr None, r) \<Rightarrow>
                          (Inr (Some msg), t\<lparr>mr_heap := Some heap', mr_msg_buffer := Some msg,
                             mr_readers := (mr_readers t)[i := p\<lparr>pr_reader := r, pr_buffered := None\<rparr>]\<rparr>)
                      | (Inr (Some next_msg), r) \<Rightarrow>
                          (Inr (Some msg), t\<lparr>mr_heap := Some (heap_push (heap_entry_of i next_msg) heap'), mr_msg_buffer := Some msg,
                             mr_readers := (mr_readers t)[i := p\<lparr>pr_reader := r, pr_buffered := Some next_msg\<rparr>]\<rparr>)))))"

function next_sequential :: "('s, message option) io \<Rightarrow> ('s multi_reader, message option) io" where
  "next_sequential recv t =
     (if length (mr_readers t) \<le> mr_current_partition t then (Inr None, t)
      else let i = mr_current_partition t; p = mr_readers t ! i in
        (case recv (pr_reader p) of
           (Inl err, r) \<Rightarrow> (Inl err, t\<lparr>mr_readers := (mr_readers t)[i := p\<lparr>pr_reader := r\<rparr>]\<rparr>)
         | (Inr (Some msg), r) \<Rightarrow> (Inr (Some msg), t\<lparr>mr_readers := (mr_readers t)[i := p\<lparr>pr_reader := r\<rparr>], mr_msg_buffer := Some msg\<rparr>)
         | (Inr None, r) \<Rightarrow>
             next_sequential recv (t\<lparr>mr_readers := (mr_readers t)[i := p\<lparr>pr_reader := r\<rparr>], mr_current_partition := i + 1\<rparr>)))"
  by pat_completeness auto
termination
  by (relation "measure (\<lambda>(recv, t). length (mr_readers t) - mr_current_partition t)") auto

declare next_sequential.simps [simp del]

definition mr_next :: "('s, message option) io \<Rightarrow> ('s multi_reader, message option) io" where
  "mr_next recv = (\<lambda>t. case mr_strategy t of TimestampOrdered \<Rightarrow> next_ordered recv t | PartitionSequential \<Rightarrow> next_sequential recv t)"

fun open_partitions :: "partition_info list \<Rightarrow> (fs, ts_reader partition_reader list) io" where
  "open_partitions [] = ret []"
| "open_partitions (info # infos) =
     bind (ts_reader_open (snd info)) (\<lambda>r.
     bind (open_partitions infos) (\<lambda>ps.
     ret (\<lparr>pr_reader = r, pr_info = info, pr_buffered = None\<rparr> # ps)))"

text \<open>The result is a reader of the files as they are when it is used.\<close>

definition multi_reader_new :: "crc_fun \<Rightarrow> table \<Rightarrow> partition_filter \<Rightarrow> merge_strategy \<Rightarrow> (fs, ts_reader multi_reader) io" where
  "multi_reader_new crc t flt strategy =
     bind (get id) (\<lambda>s.
     bind (lift (table_partitions t s)) (\<lambda>all_partitions.
     bind (open_partitions (filter (\<lambda>p. matches flt (fst p)) all_partitions)) (\<lambda>readers.
     let r = \<lparr>mr_readers = readers, mr_strategy = strategy, mr_heap = None, mr_current_partition = 0, mr_msg_buffer = None\<rparr> in
     if strategy = TimestampOrdered then
       (case init_heap (ts_next crc s) r of (Inl err, _) \<Rightarrow> fail err | (Inr _, r') \<Rightarrow> ret r')
     else ret r)))"

definition query :: "crc_fun \<Rightarrow> table \<Rightarrow> partition_filter \<Rightarrow> (fs, ts_reader multi_reader) io" where
  "query crc t flt = multi_reader_new crc t flt TimestampOrdered"

definition query_with_strategy :: "crc_fun \<Rightarrow> table \<Rightarrow> partition_filter \<Rightarrow> merge_strategy \<Rightarrow> (fs, ts_reader multi_reader) io" where
  "query_with_strategy crc t flt strategy = multi_reader_new crc t flt strategy"

definition partition_count :: "'s multi_reader \<Rightarrow> nat" where
  "partition_count r = length (mr_readers r)"

definition mr_partitions :: "'s multi_reader \<Rightarrow> partition_info list" where
  "mr_partitions r = map pr_info (mr_readers r)"

section \<open>The heap\<close>

text \<open>The entries that the heap must have when \<open>runs\<close> are still to be returned.\<close>

definition run_entries :: "message list list \<Rightarrow> heap_entry set" where
  "run_entries runs = {heap_entry_of i m | i m ms. i < length runs \<and> runs ! i = m # ms}"

lemma run_entries_mem: "(t, i, q) \<in> run_entries runs \<longleftrightarrow> (\<exists>m ms. i < length runs \<and> runs ! i = m # ms \<and> t = msg_timestamp_ns m \<and> q = msg_seq m)"
  by (auto simp: run_entries_def heap_entry_of_def)

lemma heap_push_facts: "sorted (heap_push e h) = sorted h" "set (heap_push e h) = insert e (set h)" "distinct (heap_push e h) \<longleftrightarrow> e \<notin> set h \<and> distinct h"
  by (simp_all add: heap_push_def sorted_insort set_insort_key distinct_insort)

lemma run_entries_pick:
  assumes "i < length runs" "runs ! i = m # ms"
  shows "run_entries (runs[i := ms]) = run_entries runs - {heap_entry_of i m} \<union> (case ms of [] \<Rightarrow> {} | x # _ \<Rightarrow> {heap_entry_of i x})"
proof -
  have "(t, j, q) \<in> run_entries (runs[i := ms]) \<longleftrightarrow> (t, j, q) \<in> run_entries runs - {heap_entry_of i m} \<union> (case ms of [] \<Rightarrow> {} | x # _ \<Rightarrow> {heap_entry_of i x})" for t j q
    using assms by (cases "j = i"; cases ms) (auto simp: run_entries_mem heap_entry_of_def)
  then show ?thesis by auto
qed

text \<open>The least entry is that of the run to pick.\<close>

lemma heap_least:
  assumes "sorted (e # h)" "set (e # h) = run_entries runs"
  obtains i m ms where "e = heap_entry_of i m" "i < length runs" "runs ! i = m # ms" "merge_pick runs = Some i"
proof -
  have "e \<in> run_entries runs" using assms(2) by auto
  then obtain i m ms where e: "e = heap_entry_of i m" "i < length runs" "runs ! i = m # ms" by (auto simp: run_entries_def)
  have "(msg_timestamp_ns m, i) \<le> (msg_timestamp_ns x, j)" if "j < length runs" "runs ! j = x # xs" for j x xs
  proof -
    have "heap_entry_of j x \<in> set (e # h)" using that unfolding assms(2) by (auto simp: run_entries_def)
    then have "e \<le> heap_entry_of j x" using assms(1) by auto
    then show ?thesis using e(1) by (auto simp: heap_entry_of_def)
  qed
  then have "merge_pick runs = Some i" using merge_pickI [OF e(2,3)] by blast
  then show thesis using that e by blast
qed

definition mr_holds :: "(nat \<Rightarrow> 's \<Rightarrow> message list \<Rightarrow> bool) \<Rightarrow> 's multi_reader \<Rightarrow> message list list \<Rightarrow> bool" where
  "mr_holds pend t runs \<longleftrightarrow> mr_strategy t = TimestampOrdered \<and> length (mr_readers t) = length runs \<and>
     (\<exists>h. mr_heap t = Some h \<and> sorted h \<and> distinct h \<and> set h = run_entries runs) \<and>
     (\<forall>i < length runs. pr_buffered (mr_readers t ! i) = (case runs ! i of [] \<Rightarrow> None | m # _ \<Rightarrow> Some m) \<and>
        pend i (pr_reader (mr_readers t ! i)) (tl (runs ! i)))"

context source_family
begin

lemma next_ordered_some:
  assumes "mr_holds pend t runs" "merge_pick runs = Some i" "runs ! i = m # ms"
  shows "\<exists>t'. next_ordered recv t = (Inr (Some m), t') \<and> mr_holds pend t' (runs[i := ms])"
proof -
  obtain h where h: "mr_heap t = Some h" "sorted h" "distinct h" "set h = run_entries runs" and len: "length (mr_readers t) = length runs"
    using assms(1) by (auto simp: mr_holds_def)
  have i: "i < length runs" using assms(2) by (auto elim: merge_pickE)
  have "heap_entry_of i m \<in> set h" using i assms(3) unfolding h(4) run_entries_def by blast
  then obtain e h' where eh: "h = e # h'" by (cases h) auto
  have "sorted (e # h')" "set (e # h') = run_entries runs" using h(2,4) eh by simp_all
  then obtain j x xs where "e = heap_entry_of j x" "runs ! j = x # xs" "merge_pick runs = Some j" by (rule heap_least)
  then have e: "e = heap_entry_of i m" using assms(2,3) by simp
  let ?p = "mr_readers t ! i"
  have b: "pr_buffered ?p = Some m" "pend i (pr_reader ?p) ms" using assms(1,3) i by (auto simp: mr_holds_def)
  have h': "sorted h'" "distinct h'" "set h' = run_entries runs - {heap_entry_of i m}" "heap_entry_of i x \<notin> set h'" for x
  proof -
    show s: "sorted h'" "distinct h'" "set h' = run_entries runs - {heap_entry_of i m}" using h eh e by auto
    show "heap_entry_of i x \<notin> set h'" using assms(3) unfolding s(3) by (auto simp: run_entries_mem heap_entry_of_def)
  qed
  have others: "pr_buffered (mr_readers t ! j) = (case runs ! j of [] \<Rightarrow> None | m # _ \<Rightarrow> Some m)"
      "pend j (pr_reader (mr_readers t ! j)) (tl (runs ! j))" if "j < length runs" for j
    using assms(1) that by (auto simp: mr_holds_def)
  have st: "mr_strategy t = TimestampOrdered" using assms(1) by (simp add: mr_holds_def)
  show ?thesis
  proof (cases ms)
    case Nil
    obtain r where r: "recv (pr_reader ?p) = (Inr None, r)" "pend i r []" using recv_end b(2) Nil by blast
    let ?t = "t\<lparr>mr_heap := Some h', mr_msg_buffer := Some m, mr_readers := (mr_readers t)[i := ?p\<lparr>pr_reader := r, pr_buffered := None\<rparr>]\<rparr>"
    have "next_ordered recv t = (Inr (Some m), ?t)"
      using h(1) eh e i len b(1) r(1) by (simp add: next_ordered_def heap_pop_def heap_entry_of_def Let_def)
    moreover have "mr_holds pend ?t (runs[i := ms])"
      using h' others len st r(2) i run_entries_pick [OF i assms(3)] Nil by (auto simp: mr_holds_def nth_list_update)
    ultimately show ?thesis by blast
  next
    case (Cons y ys)
    obtain r where r: "recv (pr_reader ?p) = (Inr (Some y), r)" "pend i r ys" using recv_some b(2) Cons by blast
    let ?t = "t\<lparr>mr_heap := Some (heap_push (heap_entry_of i y) h'), mr_msg_buffer := Some m, mr_readers := (mr_readers t)[i := ?p\<lparr>pr_reader := r, pr_buffered := Some y\<rparr>]\<rparr>"
    have "next_ordered recv t = (Inr (Some m), ?t)"
      using h(1) eh e i len b(1) r(1) by (simp add: next_ordered_def heap_pop_def heap_entry_of_def [of i m] Let_def)
    moreover have "mr_holds pend ?t (runs[i := ms])"
      using h' others len st r(2) i run_entries_pick [OF i assms(3)] Cons by (auto simp: mr_holds_def nth_list_update heap_push_facts)
    ultimately show ?thesis by blast
  qed
qed

lemma next_ordered_end:
  assumes "mr_holds pend t runs" "merge_pick runs = None"
  shows "next_ordered recv t = (Inr None, t)"
proof -
  have "run_entries runs = {}" using assms(2) by (auto simp: merge_pick_None run_entries_def all_set_conv_all_nth)
  then have "mr_heap t = Some []" using assms(1) by (auto simp: mr_holds_def)
  then show ?thesis by (simp add: next_ordered_def heap_pop_def)
qed

sublocale ordered: merge_source "mr_holds pend" "mr_next recv" snd
proof (unfold_locales, goal_cases)
  case (1 t runs)
  then show ?case using next_ordered_end [OF 1] by (simp add: mr_next_def mr_holds_def)
next
  case (2 t runs i m ms)
  then show ?case using next_ordered_some [OF 2] by (simp add: mr_next_def mr_holds_def)
qed

text \<open>The heap is filled with the heads of the runs.\<close>

lemma init_loop_ok:
  assumes "length ps = length runs" "\<forall>i < length runs. pr_buffered (ps ! i) = None \<and> pend (k + i) (pr_reader (ps ! i)) (runs ! i)"
    and "sorted h" "distinct h" "\<forall>(t, j, q) \<in> set h. j < k"
  shows "\<exists>h' ps'. init_loop recv k ps h = (Inr h', ps') \<and> length ps' = length runs \<and> sorted h' \<and> distinct h' \<and>
    set h' = set h \<union> (\<lambda>(t, j, q). (t, k + j, q)) ` run_entries runs \<and>
    (\<forall>i < length runs. pr_buffered (ps' ! i) = (case runs ! i of [] \<Rightarrow> None | m # _ \<Rightarrow> Some m) \<and> pend (k + i) (pr_reader (ps' ! i)) (tl (runs ! i)))"
  using assms
proof (induction runs arbitrary: ps k h)
  case Nil
  then show ?case by (simp add: run_entries_def)
next
  case (Cons r rs)
  obtain p ps1 where ps: "ps = p # ps1" using Cons.prems(1) by (cases ps) auto
  have hd: "pr_buffered p = None" "pend k (pr_reader p) r" using Cons.prems(2) ps by (auto dest: spec [of _ 0])
  have tl: "\<forall>i < length rs. pr_buffered (ps1 ! i) = None \<and> pend (Suc k + i) (pr_reader (ps1 ! i)) (rs ! i)"
    using Cons.prems(2) ps by (auto dest: spec [of _ "Suc _"])
  have ent: "run_entries (r # rs) = (case r of [] \<Rightarrow> {} | m # _ \<Rightarrow> {heap_entry_of 0 m}) \<union> (\<lambda>(t, j, q). (t, Suc j, q)) ` run_entries rs"
    by (auto simp: run_entries_def heap_entry_of_def less_Suc_eq_0_disj image_iff split: list.splits)
  define h1 where "h1 = (case r of [] \<Rightarrow> h | m # _ \<Rightarrow> heap_push (heap_entry_of k m) h)"
  have h1: "sorted h1" "distinct h1" "\<forall>(t, j, q) \<in> set h1. j < Suc k"
    using Cons.prems(3-5) by (auto simp: h1_def heap_entry_of_def heap_push_facts split: list.splits)
  obtain h' ps' where ih: "init_loop recv (Suc k) ps1 h1 = (Inr h', ps')" "length ps' = length rs" "sorted h'" "distinct h'"
    "set h' = set h1 \<union> (\<lambda>(t, j, q). (t, Suc k + j, q)) ` run_entries rs"
    "\<forall>i < length rs. pr_buffered (ps' ! i) = (case rs ! i of [] \<Rightarrow> None | m # _ \<Rightarrow> Some m) \<and> pend (Suc k + i) (pr_reader (ps' ! i)) (tl (rs ! i))"
    using Cons.IH [of ps1 "Suc k" h1] Cons.prems(1) ps tl h1 by auto
  have set: "set h' = set h \<union> (\<lambda>(t, j, q). (t, k + j, q)) ` run_entries (r # rs)"
    unfolding ih(5) ent by (auto simp: h1_def heap_push_facts image_Un image_image case_prod_beta heap_entry_of_def split: list.splits)
  show ?case
  proof (cases r)
    case Nil
    obtain x where "recv (pr_reader p) = (Inr None, x)" "pend k x []" using recv_end hd(2) Nil by blast
    then show ?thesis using ih set ps Nil hd(1) by (auto simp: h1_def less_Suc_eq_0_disj)
  next
    case (Cons m ms)
    obtain x where "recv (pr_reader p) = (Inr (Some m), x)" "pend k x ms" using recv_some hd(2) Cons by blast
    then show ?thesis using ih set ps Cons hd(1) by (auto simp: h1_def less_Suc_eq_0_disj)
  qed
qed

lemma init_heap_ok:
  assumes "length (mr_readers t) = length runs" "\<forall>i < length runs. pr_buffered (mr_readers t ! i) = None \<and> pend i (pr_reader (mr_readers t ! i)) (runs ! i)"
    and "mr_strategy t = TimestampOrdered"
  shows "\<exists>t'. init_heap recv t = (Inr (), t') \<and> mr_holds pend t' runs"
proof -
  obtain h ps where "init_loop recv 0 (mr_readers t) [] = (Inr h, ps)" "length ps = length runs" "sorted h" "distinct h" "set h = run_entries runs"
    "\<forall>i < length runs. pr_buffered (ps ! i) = (case runs ! i of [] \<Rightarrow> None | m # _ \<Rightarrow> Some m) \<and> pend i (pr_reader (ps ! i)) (tl (runs ! i))"
    using init_loop_ok [of "mr_readers t" runs 0 "[]"] assms(1,2) by auto
  then show ?thesis using assms(3) by (simp add: init_heap_def mr_holds_def)
qed

end

section \<open>One partition after the other\<close>

definition sq_pending :: "(nat \<Rightarrow> 's \<Rightarrow> message list \<Rightarrow> bool) \<Rightarrow> 's multi_reader \<Rightarrow> message list \<Rightarrow> bool" where
  "sq_pending pend t ms \<longleftrightarrow> mr_strategy t = PartitionSequential \<and>
     (\<exists>runs. length (mr_readers t) = length runs \<and> ms = concat (drop (mr_current_partition t) runs) \<and>
        (\<forall>i < length runs. mr_current_partition t \<le> i \<longrightarrow> pend i (pr_reader (mr_readers t ! i)) (runs ! i)))"

context source_family
begin

lemma next_sequential_pending:
  assumes "sq_pending pend t ms"
  shows "case ms of
      [] \<Rightarrow> \<exists>t'. next_sequential recv t = (Inr None, t') \<and> sq_pending pend t' []
    | m # ms' \<Rightarrow> \<exists>t'. next_sequential recv t = (Inr (Some m), t') \<and> sq_pending pend t' ms'"
  using assms
proof (induction "length (mr_readers t) - mr_current_partition t" arbitrary: t)
  case 0
  then have "ms = []" by (auto simp: sq_pending_def)
  then show ?case using 0 by (simp add: next_sequential.simps [of recv t])
next
  case (Suc n)
  let ?i = "mr_current_partition t"
  let ?p = "mr_readers t ! ?i"
  let ?t = "\<lambda>r. t\<lparr>mr_readers := (mr_readers t)[?i := ?p\<lparr>pr_reader := r\<rparr>]\<rparr>"
  obtain runs where st: "mr_strategy t = PartitionSequential" "length (mr_readers t) = length runs" "ms = concat (drop ?i runs)"
    "\<forall>i < length runs. ?i \<le> i \<longrightarrow> pend i (pr_reader (mr_readers t ! i)) (runs ! i)"
    using Suc.prems by (auto simp: sq_pending_def)
  have i: "?i < length runs" using Suc.hyps(2) st(2) by simp
  then have ms: "ms = runs ! ?i @ concat (drop (Suc ?i) runs)" using st(3) by (simp add: Cons_nth_drop_Suc [symmetric])
  have pe: "pend ?i (pr_reader ?p) (runs ! ?i)" using st(4) i by simp
  show ?case
  proof (cases "runs ! ?i")
    case Nil
    obtain r where r: "recv (pr_reader ?p) = (Inr None, r)" using recv_end pe Nil by metis
    let ?t' = "(?t r)\<lparr>mr_current_partition := ?i + 1\<rparr>"
    have "next_sequential recv t = next_sequential recv ?t'" using r i st(2) by (simp add: next_sequential.simps [of recv t] Let_def)
    moreover have "sq_pending pend ?t' ms" unfolding sq_pending_def using st ms Nil by (auto intro!: exI [of _ runs])
    moreover have "n = length (mr_readers ?t') - mr_current_partition ?t'" using Suc.hyps(2) by simp
    ultimately show ?thesis using Suc.hyps(1) [of ?t'] by presburger
  next
    case (Cons m us)
    obtain r where r: "recv (pr_reader ?p) = (Inr (Some m), r)" "pend ?i r us" using recv_some pe Cons by metis
    have "next_sequential recv t = (Inr (Some m), (?t r)\<lparr>mr_msg_buffer := Some m\<rparr>)" using r i st(2) by (simp add: next_sequential.simps [of recv t] Let_def)
    moreover have "sq_pending pend ((?t r)\<lparr>mr_msg_buffer := Some m\<rparr>) (us @ concat (drop (Suc ?i) runs))"
      unfolding sq_pending_def using st i r(2) by (auto intro!: exI [of _ "runs[?i := us]"] simp: nth_list_update Cons_nth_drop_Suc [symmetric])
    ultimately show ?thesis using ms Cons by auto
  qed
qed

sublocale sequential: record_source "sq_pending pend" "mr_next recv"
proof (unfold_locales, goal_cases)
  case (1 t)
  then show ?case using next_sequential_pending [OF 1] by (auto simp: mr_next_def sq_pending_def)
next
  case (2 t m ms)
  then show ?case using next_sequential_pending [OF 2] by (auto simp: mr_next_def sq_pending_def)
qed

end

text \<open>
  When the read ahead of the next message fails, the message that was due has left the heap and
  the buffer of its partition: the error is returned in its place, and later calls do not look at
  that partition any more.
\<close>

lemma ordered_error_drops:
  assumes "mr_heap t = Some ((ts, i, q) # h)" "i < length (mr_readers t)" "pr_buffered (mr_readers t ! i) = Some m"
    and "recv (pr_reader (mr_readers t ! i)) = (Inl e, r)"
  shows "\<exists>t'. next_ordered recv t = (Inl e, t') \<and> pr_buffered (mr_readers t' ! i) = None \<and> mr_heap t' = Some h"
  using assms by (simp add: next_ordered_def heap_pop_def Let_def)

section \<open>Queries\<close>

lemma ts_next_end:
  assumes "sc_pending crc s L (lr_cursor (tr_reader r)) []"
  shows "\<exists>r'. ts_next crc s r = (Inr None, r') \<and> sc_pending crc s L (lr_cursor (tr_reader r')) []"
  using next_header_pending [OF assms] by (auto simp: ts_next_def log_next_def)

lemma ts_next_some:
  assumes "sc_pending crc s L (lr_cursor (tr_reader r)) (m # ms)"
  shows "\<exists>r'. ts_next crc s r = (Inr (Some m), r') \<and> sc_pending crc s L (lr_cursor (tr_reader r')) ms"
  using log_next_pending [OF assms] by (auto simp: ts_next_def)

interpretation table_family: source_family "\<lambda>i r. sc_pending crc s (Ls i) (lr_cursor (tr_reader r))" "ts_next crc s" for crc s Ls
  by unfold_locales (rule ts_next_end ts_next_some; assumption)+

text \<open>\<open>part_log\<close>: a directory whose log holds the messages, in segments whose numbers fit their names.\<close>

definition part_log :: "crc_fun \<Rightarrow> nat \<Rightarrow> fs \<Rightarrow> path \<Rightarrow> message list \<Rightarrow> bool" where
  "part_log crc sz s dir ms \<longleftrightarrow> (\<exists>L. log_holds crc dir sz s L \<and> (\<forall>i \<in> fst ` set L. i < 1000000000) \<and> ms = concat (map snd L))"

lemma open_partitions_ok:
  assumes "sz + 64 \<le> u64_max" "\<forall>x \<in> set infos. part_log crc sz s (snd x) (msgs x)"
  shows "\<exists>ps Ls. open_partitions infos s = (Inr ps, s) \<and> length ps = length infos \<and>
    (\<forall>i < length infos. pr_buffered (ps ! i) = None \<and> pr_info (ps ! i) = infos ! i \<and>
       sc_pending crc s (Ls i) (lr_cursor (tr_reader (pr_reader (ps ! i)))) (msgs (infos ! i)))"
  using assms(2)
proof (induction infos)
  case (Cons x infos)
  obtain L where L: "log_holds crc (snd x) sz s L" "\<forall>i \<in> fst ` set L. i < 1000000000" "msgs x = concat (map snd L)"
    using Cons.prems by (auto simp: part_log_def)
  obtain r where r: "ts_reader_open (snd x) s = (Inr r, s)" "sc_pending crc s L (lr_cursor (tr_reader r)) (msgs x)"
    using reader_starts [OF L(1) assms(1) L(2)] L(3) by auto
  obtain ps Ls where ih: "open_partitions infos s = (Inr ps, s)" "length ps = length infos"
    "\<forall>i < length infos. pr_buffered (ps ! i) = None \<and> pr_info (ps ! i) = infos ! i \<and>
       sc_pending crc s (Ls i) (lr_cursor (tr_reader (pr_reader (ps ! i)))) (msgs (infos ! i))"
    using Cons by auto
  show ?case
    using r ih by (intro exI [of _ "\<lparr>pr_reader = r, pr_info = x, pr_buffered = None\<rparr> # ps"] exI [of _ "case_nat L Ls"])
      (auto simp: bind_ok ret_def less_Suc_eq_0_disj)
qed (simp add: ret_def)

lemma init_heap_info:
  assumes "init_heap recv t = (Inr (), t')"
  shows "map pr_info (mr_readers t') = map pr_info (mr_readers t)"
proof -
  have "init_loop recv k ps h = (res, ps') \<Longrightarrow> map pr_info ps' = map pr_info ps" for k ps h res ps'
    by (induction ps arbitrary: k h res ps') (auto split: prod.splits sum.splits option.splits)
  then show ?thesis using assms by (auto simp: init_heap_def split: prod.splits sum.splits)
qed

lemma merge_times:
  assumes "\<forall>r \<in> set runs. in_time r"
  shows "in_time (map snd (merge_runs runs))"
proof -
  have "sorted_wrt (\<lambda>x y. msg_timestamp_ns (snd x) \<le> msg_timestamp_ns (snd y)) (merge_runs runs)"
    by (rule sorted_wrt_mono_rel [OF _ merge_runs_sorted [OF assms]]) auto
  then show ?thesis by (simp add: sorted_wrt_map)
qed

text \<open>
  Property C8. A query returns what its partitions hold. When every partition of a table that
  passes the filter has a complete log, a query opens, and reading it to the end returns, in the
  order of time, the reference merge of those logs; or one log after the other, when the query
  asks for that. Merging keeps the order of each log, and logs that are in order of time give a
  result in order of time.
\<close>

theorem query_reads:
  assumes "table_partitions t s = Inr infos" "sz + 64 \<le> u64_max"
    and "\<forall>x \<in> set infos. matches flt (fst x) \<longrightarrow> part_log crc sz s (snd x) (msgs x)"
    and runs: "runs = map msgs (filter (\<lambda>x. matches flt (fst x)) infos)"
  shows "(\<exists>r. query crc t flt s = (Inr r, s) \<and> mr_partitions r = filter (\<lambda>x. matches flt (fst x)) infos \<and>
      reads (mr_next (ts_next crc s)) r (map snd (merge_runs runs))) \<and>
    (\<exists>r. query_with_strategy crc t flt PartitionSequential s = (Inr r, s) \<and> reads (mr_next (ts_next crc s)) r (concat runs)) \<and>
    (\<forall>i < length runs. map snd (filter (\<lambda>(j, _). j = i) (merge_runs runs)) = runs ! i) \<and>
    ((\<forall>r \<in> set runs. in_time r) \<longrightarrow> in_time (map snd (merge_runs runs)))"
proof -
  let ?fs = "filter (\<lambda>x. matches flt (fst x)) infos"
  obtain ps Ls where ps: "open_partitions ?fs s = (Inr ps, s)" "length ps = length runs"
    "\<forall>i < length runs. pr_buffered (ps ! i) = None \<and> pr_info (ps ! i) = ?fs ! i \<and> sc_pending crc s (Ls i) (lr_cursor (tr_reader (pr_reader (ps ! i)))) (runs ! i)"
    using open_partitions_ok [of sz ?fs crc s msgs] assms(2,3) runs by auto
  have info: "map pr_info ps = ?fs" using ps(2,3) runs by (auto intro: nth_equalityI)
  let ?r = "\<lambda>st. \<lparr>mr_readers = ps, mr_strategy = st, mr_heap = None, mr_current_partition = 0, mr_msg_buffer = None\<rparr>"
  obtain r where r: "init_heap (ts_next crc s) (?r TimestampOrdered) = (Inr (), r)"
    "mr_holds (\<lambda>i r. sc_pending crc s (Ls i) (lr_cursor (tr_reader r))) r runs"
    using table_family.init_heap_ok [of "?r TimestampOrdered" runs crc s Ls] ps(2,3) by auto
  have "mr_partitions r = ?fs" using init_heap_info [OF r(1)] info by (simp add: mr_partitions_def)
  moreover have "query crc t flt s = (Inr r, s)"
    using assms(1) ps(1) r(1) by (simp add: query_def multi_reader_new_def bind_def get_def lift_def ret_def Let_def)
  moreover have "query_with_strategy crc t flt PartitionSequential s = (Inr (?r PartitionSequential), s)"
    using assms(1) ps(1) by (simp add: query_with_strategy_def multi_reader_new_def bind_def get_def lift_def ret_def Let_def)
  moreover have "sq_pending (\<lambda>i r. sc_pending crc s (Ls i) (lr_cursor (tr_reader r))) (?r PartitionSequential) (concat runs)"
    using ps(2,3) by (auto simp: sq_pending_def)
  ultimately show ?thesis
    using table_family.ordered.reads_merge [OF r(2)] table_family.sequential.reads_pending merge_runs_source merge_times by blast
qed

lemma merge_runs_set: "set (map snd (merge_runs runs)) = \<Union> (set ` set runs)"
proof (intro equalityI subsetI)
  fix m assume "m \<in> \<Union> (set ` set runs)"
  then obtain r where "r \<in> set runs" "m \<in> set r" by blast
  then obtain i where i: "i < length runs" "m \<in> set (runs ! i)" by (metis in_set_conv_nth)
  then have "m \<in> set (map snd (filter (\<lambda>(j, _). j = i) (merge_runs runs)))" using merge_runs_source by metis
  then show "m \<in> set (map snd (merge_runs runs))" by auto
qed (use merge_runs_index in \<open>fastforce simp: in_set_conv_nth\<close>)

lemma merge_runs_const: "xs \<noteq> [] \<Longrightarrow> set (map snd (merge_runs (map (\<lambda>_. ms) xs))) = set ms"
  unfolding merge_runs_set by simp

lemma rolled_part_log:
  assumes "table_tree t s V" "v \<in> V" "fs_wf s" "rw_others crc t 1000000000 None G s" "tb_size t + 64 \<le> u64_max"
  shows "\<exists>ms. part_log crc (tb_size t) s (partition_path t v) ms \<and> map rec_of ms = G v"
proof -
  have "partition_ok (tb_keys t) v" using assms(1,2) by (simp add: table_tree_def Let_def)
  then have "part_ready crc t 1000000000 s v (G v)" "validate (tb_keys t) v = Inr ()" using assms(4) by (simp_all add: rw_others_def partition_ok_def)
  from part_reads(1) [OF this(1) table_tree_dir [OF assms(1,2)] this(2) assms(5) order_refl assms(3)] show ?thesis by (auto simp: part_log_def)
qed

theorem query_reads_witness:
  "\<exists>t s1 stats w s2 r ms. table_create (\<lambda>_. Some []) 5 [''t''] demo_keys default_table_config fs_empty = (Inr t, s1) \<and>
    rolling_session (\<lambda>_. 5) True demo_roller_fun [(True, 1, 10, [7]), (False, 1, 20, [8]), (False, 1, 30, [])] (table_rolling_writer t, s1) = (Inr stats, w, s2) \<and>
    query (\<lambda>_. 5) t (Exact demo_partition) s2 = (Inr r, s2) \<and> mr_partitions r \<noteq> [] \<and> reads (mr_next (ts_next (\<lambda>_. 5) s2)) r ms \<and>
    set (map rec_of ms) = {(1, 10, [7]), (1, 30, [])}"
proof -
  let ?rs = "[(True, 1, 10, [7]), (False, 1, 20, [8]), (False, 1, 30, [])] :: (bool \<times> u16 \<times> u64 \<times> bytes) list"
  let ?t = "\<lparr>tb_root = [''t''], tb_metadata = metadata_new 5 demo_keys, tb_config = default_table_config\<rparr>"
  let ?G = "\<lambda>v. map snd (filter (\<lambda>r. demo_target r = v) ?rs)"
  have k: "tb_keys ?t = demo_keys" "demo_keys \<noteq> []" by (simp_all add: metadata_new_def demo_keys_def add_date_def)
  have "\<exists>s1. table_create (\<lambda>_. Some []) 5 [''t''] demo_keys default_table_config fs_empty = (Inr ?t, s1) \<and> rw_inv (\<lambda>_. 5) ?t 0 {} (\<lambda>_. []) (rolling_new ?t, s1)"
    by (rule create_then_roll) (simp_all add: demo_partition_ok k(2), simp_all add: path_exists_def lookup_path_def is_dir_def fs_empty_def fs_wf_empty [unfolded fs_empty_def])
  then obtain s1 where s1: "table_create (\<lambda>_. Some []) 5 [''t''] demo_keys default_table_config fs_empty = (Inr ?t, s1)"
    "rw_inv (\<lambda>_. 5) ?t 0 {} (\<lambda>_. []) (rolling_new ?t, s1)" by blast
  have "\<forall>r \<in> set ?rs. partition_ok (tb_keys ?t) (demo_target r)" using demo_partition_ok(2) k(1) by simp
  moreover have "\<forall>r \<in> set ?rs. fits (tb_size ?t) (snd r)" using record_len_eq [of 0] record_len_eq [of 1] by (simp add: fits_def default_table_config_def)
  moreover have "\<forall>(e, ty, ts, p) \<in> set ?rs. demo_roller_fun ts p = Inr (demo_target (e, ty, ts, p))" by (simp add: demo_roller_fun_def)
  moreover have sz: "128 \<le> tb_size ?t" "tb_size ?t + 64 \<le> u64_max" by (simp_all add: default_table_config_def)
  ultimately obtain stats w s2 where s2: "rolling_session (\<lambda>_. 5) True demo_roller_fun ?rs (rolling_new ?t, s1) = (Inr stats, w, s2)"
    "table_tree ?t s2 (demo_target ` set ?rs)" "fs_wf s2" "rw_others (\<lambda>_. 5) ?t 1000000000 None ?G s2"
    using rolling_session_ok [OF s1(2), of ?rs demo_target demo_roller_fun True] by auto
  obtain infos where i: "table_partitions ?t s2 = Inr infos" "set infos = (\<lambda>v. (v, partition_path ?t v)) ` demo_target ` set ?rs"
    using table_partitions_ok [OF s2(2)] by blast
  obtain ms where ms: "part_log (\<lambda>_. 5) (tb_size ?t) s2 (partition_path ?t demo_partition) ms" "map rec_of ms = ?G demo_partition"
    using rolled_part_log [OF s2(2) _ s2(3,4) sz(2), of demo_partition] by auto
  let ?in = "filter (\<lambda>x. matches (Exact demo_partition) (fst x)) infos"
  have "\<forall>x \<in> set infos. matches (Exact demo_partition) (fst x) \<longrightarrow> part_log (\<lambda>_. 5) (tb_size ?t) s2 (snd x) ms" using i(2) ms(1) by auto
  then obtain r where r: "query (\<lambda>_. 5) ?t (Exact demo_partition) s2 = (Inr r, s2)" "mr_partitions r = ?in"
    "reads (mr_next (ts_next (\<lambda>_. 5) s2)) r (map snd (merge_runs (map (\<lambda>_. ms) ?in)))"
    using query_reads [OF i(1) sz(2), of "Exact demo_partition" "\<lambda>_. 5" "\<lambda>_. ms"] by blast
  have "(demo_partition, partition_path ?t demo_partition) \<in> set ?in" using i(2) by auto
  then have "?in \<noteq> []" by (metis empty_iff empty_set)
  moreover from this have "set (map snd (merge_runs (map (\<lambda>_. ms) ?in))) = set ms" by (rule merge_runs_const)
  then have "rec_of ` set (map snd (merge_runs (map (\<lambda>_. ms) ?in))) = set (?G demo_partition)" using ms(2) by (metis list.set_map)
  moreover have "Mapping.lookup (demo_day x) ''date'' = Some (Str_Value x)" for x by (simp add: demo_day_def)
  from this [of "''2026-01-30''"] this [of "''2026-01-29''"] have "demo_day ''2026-01-30'' \<noteq> demo_partition" by auto
  ultimately have "mr_partitions r \<noteq> []" "set (map rec_of (map snd (merge_runs (map (\<lambda>_. ms) ?in)))) = {(1, 10, [7]), (1, 30, [])}"
    using r(2) by (simp_all add: image_image)
  then show ?thesis using s1(1) s2(1) r(1,3) unfolding table_rolling_writer_def by blast
qed

end
