(* ===== verification/Compression.thy ===== *)
theory Compression
  imports Log Files Retention
begin

text \<open>
  \<^verbatim>\<open>src/src/core/compression/\<close>: segments compressed block by block, the index of the blocks, and the
  reader for plain and compressed segments. The two functions of the zstd library are arguments;
  a read of a regular file returns as many bytes as fit and are there.
\<close>

section \<open>The index of the blocks\<close>

definition ZSTD_INDEX_MAGIC :: bytes where
  "ZSTD_INDEX_MAGIC = [81, 90, 83, 84, 73, 68, 88, 49]"

abbreviation (input) ZSTD_INDEX_VERSION :: u16 where "ZSTD_INDEX_VERSION \<equiv> 1"
abbreviation (input) ZSTD_INDEX_HEADER_LEN :: u16 where "ZSTD_INDEX_HEADER_LEN \<equiv> 24"

record zstd_seek_header =
  zh_magic :: bytes
  zh_version :: u16
  zh_header_len :: u16
  zh_block_size :: u32
  zh_frame_count :: u64

record zstd_seek_entry =
  ze_uncompressed_offset :: u64
  ze_compressed_offset :: u64
  ze_compressed_size :: u32
  ze_uncompressed_size :: u32

record zstd_seek_index =
  zi_block_size :: u32
  zi_entries :: "zstd_seek_entry list"

text \<open>The binary search of \<open>entry_for_offset\<close>.\<close>

function entry_search :: "zstd_seek_entry list \<Rightarrow> nat \<Rightarrow> nat \<Rightarrow> nat \<Rightarrow> zstd_seek_entry option" where
  "entry_search es offset lo hi =
     (if lo < hi then
        let mid = (lo + hi) div 2; entry = es ! mid;
            end' = sat_add64 (unat (ze_uncompressed_offset entry)) (unat (ze_uncompressed_size entry))
        in if offset < unat (ze_uncompressed_offset entry) then entry_search es offset lo mid
           else if offset \<ge> end' then entry_search es offset (mid + 1) hi
           else Some entry
      else None)"
  by pat_completeness auto
termination
  by (relation "measure (\<lambda>(es, offset, lo, hi). hi - lo)") auto

declare entry_search.simps [simp del]

definition entry_for_offset :: "zstd_seek_index \<Rightarrow> nat \<Rightarrow> zstd_seek_entry option" where
  "entry_for_offset ix offset = (if zi_entries ix = [] then None else entry_search (zi_entries ix) offset 0 (length (zi_entries ix)))"

definition zstd_encode_header :: "zstd_seek_header \<Rightarrow> bytes" where
  "zstd_encode_header h =
     (let buf = replicate 24 0;
          buf = bsplice buf 0 (zh_magic h);
          buf = bsplice buf 8 (u16_to_le (zh_version h));
          buf = bsplice buf 10 (u16_to_le (zh_header_len h));
          buf = bsplice buf 12 (u32_to_le (zh_block_size h))
      in bsplice buf 16 (u64_to_le (zh_frame_count h)))"

definition zstd_decode_header :: "bytes \<Rightarrow> zstd_seek_header result" where
  "zstd_decode_header buf =
     (if length buf < 24 then Inl (Corrupt ''zstd seek index header too small'')
      else if bslice buf 0 8 \<noteq> ZSTD_INDEX_MAGIC then Inl (Corrupt ''zstd seek index magic mismatch'')
      else let version = u16_from_le (bslice buf 8 10) in
        if version \<noteq> ZSTD_INDEX_VERSION then Inl (UnsupportedVersion (ucast version))
        else let header_len = u16_from_le (bslice buf 10 12) in
          if header_len \<noteq> ZSTD_INDEX_HEADER_LEN then Inl (Corrupt ''zstd seek index header length mismatch'')
          else Inr \<lparr>zh_magic = ZSTD_INDEX_MAGIC, zh_version = version, zh_header_len = header_len,
                    zh_block_size = u32_from_le (bslice buf 12 16), zh_frame_count = u64_from_le (bslice buf 16 24)\<rparr>)"

definition zstd_encode_entry :: "zstd_seek_entry \<Rightarrow> bytes" where
  "zstd_encode_entry e =
     (let buf = replicate 24 0;
          buf = bsplice buf 0 (u64_to_le (ze_uncompressed_offset e));
          buf = bsplice buf 8 (u64_to_le (ze_compressed_offset e));
          buf = bsplice buf 16 (u32_to_le (ze_compressed_size e))
      in bsplice buf 20 (u32_to_le (ze_uncompressed_size e)))"

definition zstd_decode_entry :: "bytes \<Rightarrow> zstd_seek_entry" where
  "zstd_decode_entry buf =
     \<lparr>ze_uncompressed_offset = u64_from_le (bslice buf 0 8), ze_compressed_offset = u64_from_le (bslice buf 8 16),
      ze_compressed_size = u32_from_le (bslice buf 16 20), ze_uncompressed_size = u32_from_le (bslice buf 20 24)\<rparr>"

definition write_seek_index :: "path \<Rightarrow> u32 \<Rightarrow> zstd_seek_entry list \<Rightarrow> (fs, unit) io" where
  "write_seek_index p block_size es =
     (let header = \<lparr>zh_magic = ZSTD_INDEX_MAGIC, zh_version = ZSTD_INDEX_VERSION, zh_header_len = ZSTD_INDEX_HEADER_LEN,
                     zh_block_size = block_size, zh_frame_count = word_of_nat (length es)\<rparr>
      in bind (open_write p True) (\<lambda>i. write_all_at i 0 (zstd_encode_header header # map zstd_encode_entry es)))"

fun read_zstd_entries :: "inode \<Rightarrow> nat \<Rightarrow> nat \<Rightarrow> (fs, zstd_seek_entry list) io" where
  "read_zstd_entries i pos 0 = ret []"
| "read_zstd_entries i pos (Suc n) =
     bind (read_exact i pos 24) (\<lambda>buf.
     bind (read_zstd_entries i (pos + 24) n) (\<lambda>es. ret (zstd_decode_entry buf # es)))"

definition read_seek_index :: "path \<Rightarrow> (fs, zstd_seek_index) io" where
  "read_seek_index p =
     bind (open_read p) (\<lambda>i.
     bind (read_exact i 0 24) (\<lambda>header_buf.
     bind (lift (zstd_decode_header header_buf)) (\<lambda>header.
     bind (read_zstd_entries i 24 (unat (zh_frame_count header))) (\<lambda>es.
     ret \<lparr>zi_block_size = zh_block_size header, zi_entries = es\<rparr>))))"

section \<open>Compressing a file\<close>

type_synonym zstd_fun = "bytes \<Rightarrow> bytes option"

text \<open>The loop over the blocks of the input; \<open>pos\<close> is the position in the output, to which the offsets in the index saturate.\<close>

function compress_loop :: "zstd_fun \<Rightarrow> nat \<Rightarrow> inode \<Rightarrow> bytes \<Rightarrow> nat \<Rightarrow> nat \<Rightarrow> nat \<Rightarrow> (fs, zstd_seek_entry list) io" where
  "compress_loop enc block_size out input pos uncompressed_offset compressed_offset =
     (if input = [] \<or> block_size = 0 then ret []
      else let block = take block_size input in
        case enc block of
          None \<Rightarrow> fail (Anyhow ''compress block'')
        | Some compressed \<Rightarrow>
            if length compressed > u32_max then fail (Anyhow ''compressed block exceeds u32 limit'')
            else if length block > u32_max then fail (Anyhow ''uncompressed block exceeds u32 limit'')
            else bind (write_at out pos compressed) (\<lambda>_.
                 bind (compress_loop enc block_size out (drop block_size input) (pos + length compressed)
                         (sat_add64 uncompressed_offset (length block)) (sat_add64 compressed_offset (length compressed))) (\<lambda>es.
                 ret (\<lparr>ze_uncompressed_offset = word_of_nat uncompressed_offset, ze_compressed_offset = word_of_nat compressed_offset,
                       ze_compressed_size = word_of_nat (length compressed), ze_uncompressed_size = word_of_nat (length block)\<rparr> # es))))"
  by pat_completeness auto
termination
  by (relation "measure (\<lambda>(enc, bs, out, input, pos, u, c). length input)") auto

declare compress_loop.simps [simp del]

text \<open>\<open>with_context\<close> wraps an error of the system.\<close>

definition with_context :: "string \<Rightarrow> ('s, 'a) io \<Rightarrow> ('s, 'a) io" where
  "with_context msg m s = (case m s of (Inl _, s') \<Rightarrow> (Inl (Anyhow msg), s') | (Inr x, s') \<Rightarrow> (Inr x, s'))"

definition compress_q_to_zst :: "zstd_fun \<Rightarrow> path \<Rightarrow> path \<Rightarrow> path \<Rightarrow> nat \<Rightarrow> (fs, zstd_seek_index) io" where
  "compress_q_to_zst enc input_path output_zst output_idx block_size =
     (if block_size = 0 then fail (Anyhow ''block_size must be > 0'')
      else bind (with_context ''open input'' (open_read input_path)) (\<lambda>i.
           bind (with_context ''create'' (open_write output_zst True)) (\<lambda>out.
           bind (get (\<lambda>s. fs_data s i)) (\<lambda>input.
           bind (compress_loop enc block_size out input 0 0 0) (\<lambda>es.
           bind (write_seek_index output_idx (word_of_nat block_size) es) (\<lambda>_.
           ret \<lparr>zi_block_size = word_of_nat block_size, zi_entries = es\<rparr>))))))"

section \<open>Reading\<close>

record zstd_block_reader =
  zr_file :: inode
  zr_index :: zstd_seek_index

definition block_reader_open :: "path \<Rightarrow> path \<Rightarrow> (fs, zstd_block_reader) io" where
  "block_reader_open zst_path idx_path =
     bind (with_context ''open'' (open_read zst_path)) (\<lambda>i.
     bind (read_seek_index idx_path) (\<lambda>ix. ret \<lparr>zr_file = i, zr_index = ix\<rparr>))"

definition read_block_at :: "zstd_fun \<Rightarrow> zstd_block_reader \<Rightarrow> nat \<Rightarrow> (fs, bytes) io" where
  "read_block_at dec r uncompressed_offset =
     (case entry_for_offset (zr_index r) uncompressed_offset of
        None \<Rightarrow> fail (Anyhow ''offset out of range'')
      | Some entry \<Rightarrow>
          bind (read_exact (zr_file r) (unat (ze_compressed_offset entry)) (unat (ze_compressed_size entry))) (\<lambda>compressed.
          case dec compressed of
            None \<Rightarrow> fail (Anyhow ''decompress block'')
          | Some decompressed \<Rightarrow>
              if length decompressed \<noteq> unat (ze_uncompressed_size entry) then fail (Anyhow ''decompressed size mismatch'')
              else ret decompressed))"

text \<open>\<open>Path::with_extension\<close>: the part of the name behind its last dot is replaced; a dot in front is part of the stem.\<close>

definition file_stem :: "string \<Rightarrow> string" where
  "file_stem name = (case extension name of None \<Rightarrow> name | Some ext \<Rightarrow> take (length name - length ext - 1) name)"

definition with_extension :: "path \<Rightarrow> string \<Rightarrow> path" where
  "with_extension p ext = butlast p @ [file_stem (last p) @ CHR ''.'' # ext]"

datatype reader_inner =
    Hot mmap_file
  | Cold zstd_block_reader nat "(nat \<times> bytes) option"

definition unified_open :: "path \<Rightarrow> nat \<Rightarrow> (fs, reader_inner) io" where
  "unified_open dir segment_id =
     (let q_path = segment_path dir segment_id;
          zst_path = with_extension q_path ''q.zst'';
          idx_path = with_extension q_path ''q.zst.idx''
      in bind (get (\<lambda>s. path_exists s q_path)) (\<lambda>hot.
         if hot then bind (mmap_open q_path) (\<lambda>m. ret (Hot m))
         else bind (get (\<lambda>s. path_exists s zst_path \<and> path_exists s idx_path)) (\<lambda>cold.
              if cold then
                bind (attempt (block_reader_open zst_path idx_path)) (\<lambda>r.
                case r of Inl _ \<Rightarrow> fail (Io OtherIo) | Inr reader \<Rightarrow> ret (Cold reader (1024 * 1024) None))
              else fail (Io NotFound))))"

text \<open>\<open>read_at\<close> with a buffer of \<open>len\<close> bytes returns the bytes that it puts into the buffer.\<close>

definition read_at :: "zstd_fun \<Rightarrow> nat \<Rightarrow> nat \<Rightarrow> fs \<Rightarrow> reader_inner \<Rightarrow> bytes result \<times> reader_inner" where
  "read_at dec offset len s r =
     (case r of
        Hot m \<Rightarrow>
          (if offset \<ge> mm_len m then (Inr [], r)
           else (Inr (take (min len (mm_len m - offset)) (drop offset (as_slice m s))), r))
      | Cold reader block_size cached \<Rightarrow>
          let block_offset = offset div block_size * block_size;
              need_reload = (case cached of None \<Rightarrow> True | Some (o', _) \<Rightarrow> o' \<noteq> block_offset)
          in case (if need_reload then fst (read_block_at dec reader block_offset s) else Inr (snd (the cached))) of
               Inl _ \<Rightarrow> (Inl (Io OtherIo), r)
             | Inr block_data \<Rightarrow>
                 let r' = Cold reader block_size (Some (block_offset, block_data)); offset_in_block = offset - block_offset in
                 if offset_in_block \<ge> length block_data then (Inr [], r')
                 else (Inr (take (min len (length block_data - offset_in_block)) (drop offset_in_block block_data)), r'))"

definition slice_at :: "nat \<Rightarrow> nat \<Rightarrow> fs \<Rightarrow> reader_inner \<Rightarrow> bytes option result" where
  "slice_at offset len s r =
     (case r of
        Hot m \<Rightarrow>
          (case checked_add64 offset len of
             None \<Rightarrow> Inl (Panic ''attempt to add with overflow'')
           | Some e \<Rightarrow> Inr (if e \<le> mm_len m then Some (bslice (as_slice m s) offset e) else None))
      | Cold _ _ _ \<Rightarrow> Inr None)"

definition is_hot :: "reader_inner \<Rightarrow> bool" where
  "is_hot r = (case r of Hot _ \<Rightarrow> True | Cold _ _ _ \<Rightarrow> False)"

definition is_cold :: "reader_inner \<Rightarrow> bool" where
  "is_cold r = (case r of Hot _ \<Rightarrow> False | Cold _ _ _ \<Rightarrow> True)"

section \<open>Blocks\<close>

text \<open>The blocks of the input, and what the compressed file and the index hold for them.\<close>

function blocks :: "nat \<Rightarrow> bytes \<Rightarrow> bytes list" where
  "blocks n d = (if d = [] \<or> n = 0 then [] else take n d # blocks n (drop n d))"
  by pat_completeness auto
termination
  by (relation "measure (\<lambda>(n, d). length d)") auto

declare blocks.simps [simp del]

lemma blocks_step: "blocks n [] = []" "0 < n \<Longrightarrow> d \<noteq> [] \<Longrightarrow> blocks n d = take n d # blocks n (drop n d)"
  by (simp_all add: blocks.simps [of n])

lemma blocks_nth:
  assumes "0 < n"
  shows "k < length (blocks n d) \<longleftrightarrow> k * n < length d" "k * n < length d \<Longrightarrow> blocks n d ! k = take n (drop (k * n) d)"
proof -
  have "(k < length (blocks n d) \<longleftrightarrow> k * n < length d) \<and> (k * n < length d \<longrightarrow> blocks n d ! k = take n (drop (k * n) d))"
  proof (induction k arbitrary: d)
    case 0
    then show ?case using assms by (cases "d = []") (simp_all add: blocks_step)
  next
    case (Suc k)
    show ?case
    proof (cases "d = []")
      case False
      have "Suc k * n < length d \<longleftrightarrow> k * n < length (drop n d)" by auto
      then show ?thesis using Suc [of "drop n d"] False assms by (auto simp: blocks_step add.commute)
    qed (simp add: blocks_step)
  qed
  then show "k < length (blocks n d) \<longleftrightarrow> k * n < length d" "k * n < length d \<Longrightarrow> blocks n d ! k = take n (drop (k * n) d)" by auto
qed

definition block_code :: "zstd_fun \<Rightarrow> bytes list \<Rightarrow> bytes list" where
  "block_code enc bs = map (\<lambda>b. the (enc b)) bs"

fun block_entries :: "zstd_fun \<Rightarrow> nat \<Rightarrow> nat \<Rightarrow> bytes list \<Rightarrow> zstd_seek_entry list" where
  "block_entries enc u c [] = []"
| "block_entries enc u c (b # bs) =
     \<lparr>ze_uncompressed_offset = word_of_nat u, ze_compressed_offset = word_of_nat c,
      ze_compressed_size = word_of_nat (length (the (enc b))), ze_uncompressed_size = word_of_nat (length b)\<rparr> #
     block_entries enc (u + length b) (c + length (the (enc b))) bs"

text \<open>What the code relies on: a block is compressed to something that is decompressed to it.\<close>

definition zstd_ok :: "zstd_fun \<Rightarrow> zstd_fun \<Rightarrow> bytes list \<Rightarrow> bool" where
  "zstd_ok enc dec bs \<longleftrightarrow> (\<forall>b \<in> set bs. \<exists>c. enc b = Some c \<and> dec c = Some b \<and> length c \<le> u32_max)"

lemma compress_loop_ok:
  assumes "0 < n" "n \<le> u32_max" "zstd_ok enc dec (blocks n d)" "fs_data s out = pre" "length pre = pos"
    and "u + length d \<le> u64_max" "c + length (concat (block_code enc (blocks n d))) \<le> u64_max"
  shows "compress_loop enc n out d pos u c s = (Inr (block_entries enc u c (blocks n d)), fs_set out (pre @ concat (block_code enc (blocks n d))) s)"
  using assms
proof (induction "length d" arbitrary: d s pre pos u c rule: less_induct)
  case less
  show ?case
  proof (cases "d = []")
    case True
    then show ?thesis using less.prems(4) by (auto simp: compress_loop.simps [of enc] blocks_step block_code_def ret_def fs_set_def)
  next
    case False
    let ?b = "take n d" and ?d = "drop n d"
    have bl: "blocks n d = ?b # blocks n ?d" using blocks_step(2) less.prems(1) False by blast
    obtain z where z: "enc ?b = Some z" "length z \<le> u32_max" using less.prems(3) bl by (auto simp: zstd_ok_def)
    have zs: "block_code enc (blocks n d) = z # block_code enc (blocks n ?d)" using z(1) bl by (simp add: block_code_def)
    let ?s = "fs_set out (pre @ z) s"
    have w: "write_at out pos z s = (Inr (), ?s)" using less.prems(4,5) by (simp add: write_at_def modify_def bsplice_def)
    have sat: "sat_add64 u (length ?b) = u + length ?b" "sat_add64 c (length z) = c + length z"
      using less.prems(6,7) zs by (simp_all add: sat_add64_exact)
    have "compress_loop enc n out ?d (pos + length z) (u + length ?b) (c + length z) ?s =
        (Inr (block_entries enc (u + length ?b) (c + length z) (blocks n ?d)), fs_set out ((pre @ z) @ concat (block_code enc (blocks n ?d))) ?s)"
      using False less.prems zs bl by (intro less.hyps) (auto simp: zstd_ok_def)
    then show ?thesis
      using False less.prems(1,2) z w sat bl zs by (simp add: compress_loop.simps [of enc n out d] bind_ok ret_def Let_def fs_set_def)
  qed
qed

lemma block_entries_nth:
  assumes "k < length bs"
  shows "block_entries enc u c bs ! k =
    \<lparr>ze_uncompressed_offset = word_of_nat (u + length (concat (take k bs))), ze_compressed_offset = word_of_nat (c + length (concat (take k (block_code enc bs)))),
     ze_compressed_size = word_of_nat (length (the (enc (bs ! k)))), ze_uncompressed_size = word_of_nat (length (bs ! k))\<rparr>"
  using assms
proof (induction bs arbitrary: u c k)
  case (Cons b bs)
  then show ?case by (cases k) (simp_all add: block_code_def add.assoc)
qed simp

lemma unat_of_nat_u32 [simp]: "n \<le> u32_max \<Longrightarrow> unat (word_of_nat n :: u32) = n"
  by (simp add: unat_of_nat)

lemma length_block_entries [simp]: "length (block_entries enc u c bs) = length bs"
  by (induction bs arbitrary: u c) simp_all

lemma concat_blocks:
  assumes "0 < n" "k * n < length d"
  shows "length (concat (take k (blocks n d))) = k * n"
  using assms(2)
proof (induction k arbitrary: d)
  case (Suc k)
  then have "d \<noteq> []" "n \<le> length d" "k * n < length (drop n d)" by auto
  then show ?case using Suc.IH [of "drop n d"] assms(1) by (simp add: blocks_step)
qed simp

text \<open>The search finds the block of the offset.\<close>

lemma entry_search_finds:
  assumes "0 < n" "off < length d" "length d \<le> u64_max" "n \<le> u32_max" "lo \<le> off div n" "off div n < hi" "hi \<le> length (blocks n d)"
  shows "entry_search (block_entries enc 0 0 (blocks n d)) off lo hi = Some (block_entries enc 0 0 (blocks n d) ! (off div n))"
  using assms(5-7)
proof (induction "hi - lo" arbitrary: lo hi rule: less_induct)
  case less
  let ?es = "block_entries enc 0 0 (blocks n d)" and ?k = "off div n" and ?m = "(lo + hi) div 2"
  have m: "lo \<le> ?m" "?m < hi" using less.prems by auto
  have mb1: "?m < length (blocks n d)" using m less.prems(3) by linarith
  then have mb: "?m < length (blocks n d)" "?m * n < length d" using blocks_nth(1) [OF assms(1), of ?m d] by simp_all
  have en: "unat (ze_uncompressed_offset (?es ! ?m)) = ?m * n" "unat (ze_uncompressed_size (?es ! ?m)) = min n (length d - ?m * n)"
    using mb assms(3,4) blocks_nth(2) [OF assms(1) mb(2)] concat_blocks [OF assms(1) mb(2)] by (simp_all add: block_entries_nth min.commute del: of_nat_mult)
  have "sat_add64 (?m * n) (min n (length d - ?m * n)) = ?m * n + min n (length d - ?m * n)" using mb(2) assms(3) by (intro sat_add64_exact) linarith
  moreover have lt: "off < ?m * n \<longleftrightarrow> ?k < ?m" by (simp add: div_less_iff_less_mult assms(1))
  moreover have "?m * n + min n (length d - ?m * n) \<le> off \<longleftrightarrow> ?m < ?k"
  proof -
    have "?m * n + min n (length d - ?m * n) \<le> off \<longleftrightarrow> Suc ?m * n \<le> off" using assms(2) mb(2) by auto
    then show ?thesis using less_eq_div_iff_mult_less_eq [OF assms(1), of "Suc ?m" off] by (simp add: Suc_le_eq)
  qed
  ultimately have "entry_search ?es off lo hi =
      (if ?k < ?m then entry_search ?es off lo ?m else if ?m < ?k then entry_search ?es off (?m + 1) hi else Some (?es ! ?m))"
    using less.prems en by (simp add: entry_search.simps [of _ off lo hi] Let_def)
  then show ?case using less.hyps [of ?m lo] less.hyps [of hi "?m + 1"] less.prems m by (cases "?k = ?m") auto
qed

lemma read_block_ok:
  assumes "0 < n" "n \<le> u32_max" "zstd_ok enc dec (blocks n d)" "off < length d" "length d \<le> u64_max"
    and "fs_data s i = concat (block_code enc (blocks n d))" "length (fs_data s i) \<le> u64_max"
    and "zi_entries ix = block_entries enc 0 0 (blocks n d)"
  shows "read_block_at dec \<lparr>zr_file = i, zr_index = ix\<rparr> off s = (Inr (take n (drop (off div n * n) d)), s)"
proof -
  let ?bs = "blocks n d" and ?k = "off div n"
  let ?zs = "block_code enc ?bs"
  have kd: "?k * n < length d" using assms(4) by (meson div_times_less_eq_dividend le_less_trans)
  then have k: "?k < length ?bs" "?bs ! ?k = take n (drop (?k * n) d)" using blocks_nth [OF assms(1)] by auto
  obtain c where c: "enc (?bs ! ?k) = Some c" "dec c = Some (?bs ! ?k)" "length c \<le> u32_max" using assms(3) k(1) by (fastforce simp: zstd_ok_def)
  have zs: "?zs ! ?k = c" "length ?zs = length ?bs" using c(1) k(1) by (simp_all add: block_code_def)
  then have spl: "concat ?zs = concat (take ?k ?zs) @ c @ concat (drop (Suc ?k) ?zs)"
    using id_take_nth_drop [of ?k ?zs] k(1) by (metis concat.simps(2) concat_append)
  let ?o = "length (concat (take ?k ?zs))"
  have o: "?o + length c \<le> length (fs_data s i)" using assms(6) spl by simp
  have "length (zi_entries ix) = length ?bs" using assms(8) by simp
  then have "zi_entries ix \<noteq> []" using k(1) by fastforce
  then have "entry_for_offset ix off = Some (block_entries enc 0 0 ?bs ! ?k)"
    using entry_search_finds [OF assms(1,4,5,2), of 0 "length ?bs" enc] k(1) assms(8) by (simp add: entry_for_offset_def)
  moreover have "unat (word_of_nat ?o :: u64) = ?o" "unat (word_of_nat (length c) :: u32) = length c" "unat (word_of_nat (length (?bs ! ?k)) :: u32) = length (?bs ! ?k)"
    using o assms(2,7) c(3) k(2) by simp_all
  moreover have "read_exact i ?o (length c) s = (Inr c, s)" using o assms(6) spl by (simp add: read_exact_def bslice_def)
  ultimately show ?thesis using c k by (simp add: read_block_at_def block_entries_nth bind_ok ret_def)
qed

section \<open>The files\<close>

definition index_bytes :: "nat \<Rightarrow> zstd_seek_entry list \<Rightarrow> bytes" where
  "index_bytes n es = zstd_encode_header \<lparr>zh_magic = ZSTD_INDEX_MAGIC, zh_version = ZSTD_INDEX_VERSION, zh_header_len = ZSTD_INDEX_HEADER_LEN,
     zh_block_size = word_of_nat n, zh_frame_count = word_of_nat (length es)\<rparr> @ concat (map zstd_encode_entry es)"

lemma zstd_decode_encode:
  "length (zstd_encode_header \<lparr>zh_magic = ZSTD_INDEX_MAGIC, zh_version = v, zh_header_len = l, zh_block_size = b, zh_frame_count = c\<rparr>) = 24"
  "zstd_decode_header (zstd_encode_header \<lparr>zh_magic = ZSTD_INDEX_MAGIC, zh_version = ZSTD_INDEX_VERSION, zh_header_len = ZSTD_INDEX_HEADER_LEN,
     zh_block_size = b, zh_frame_count = c\<rparr>) =
   Inr \<lparr>zh_magic = ZSTD_INDEX_MAGIC, zh_version = ZSTD_INDEX_VERSION, zh_header_len = ZSTD_INDEX_HEADER_LEN, zh_block_size = b, zh_frame_count = c\<rparr>"
  "length (zstd_encode_entry e) = 24" "zstd_decode_entry (zstd_encode_entry e) = e"
proof -
  have m: "length ZSTD_INDEX_MAGIC = 8" by (simp add: ZSTD_INDEX_MAGIC_def)
  then show l: "length (zstd_encode_header \<lparr>zh_magic = ZSTD_INDEX_MAGIC, zh_version = v, zh_header_len = l, zh_block_size = b, zh_frame_count = c\<rparr>) = 24" for v l
    by (simp add: zstd_encode_header_def)
  show "zstd_decode_header (zstd_encode_header \<lparr>zh_magic = ZSTD_INDEX_MAGIC, zh_version = ZSTD_INDEX_VERSION, zh_header_len = ZSTD_INDEX_HEADER_LEN,
     zh_block_size = b, zh_frame_count = c\<rparr>) =
   Inr \<lparr>zh_magic = ZSTD_INDEX_MAGIC, zh_version = ZSTD_INDEX_VERSION, zh_header_len = ZSTD_INDEX_HEADER_LEN, zh_block_size = b, zh_frame_count = c\<rparr>"
    using m by (simp add: zstd_decode_header_def zstd_encode_header_def bytes_simps)
  show "length (zstd_encode_entry e) = 24" "zstd_decode_entry (zstd_encode_entry e) = e"
    by (simp_all add: zstd_encode_entry_def zstd_decode_entry_def bytes_simps)
qed

lemma read_zstd_entries_ok:
  assumes "fs_data s i = pre @ concat (map zstd_encode_entry es) @ post" "length pre = pos"
  shows "read_zstd_entries i pos (length es) s = (Inr es, s)"
  using assms
proof (induction es arbitrary: pre pos)
  case (Cons e es)
  have "read_exact i pos 24 s = (Inr (zstd_encode_entry e), s)"
    using Cons.prems by (simp add: read_exact_def bslice_def zstd_decode_encode)
  moreover have "read_zstd_entries i (pos + 24) (length es) s = (Inr es, s)"
    using Cons.prems by (intro Cons.IH [of "pre @ zstd_encode_entry e"]) (simp_all add: zstd_decode_encode)
  ultimately show ?case by (simp add: bind_ok ret_def zstd_decode_encode)
qed (simp add: ret_def)

lemma read_seek_index_ok:
  assumes "lookup_path s p = Some i" "fs_data s i = index_bytes n es" "length es \<le> u64_max"
  shows "read_seek_index p s = (Inr \<lparr>zi_block_size = word_of_nat n, zi_entries = es\<rparr>, s)"
proof -
  let ?h = "zstd_encode_header \<lparr>zh_magic = ZSTD_INDEX_MAGIC, zh_version = ZSTD_INDEX_VERSION, zh_header_len = ZSTD_INDEX_HEADER_LEN,
     zh_block_size = word_of_nat n, zh_frame_count = word_of_nat (length es)\<rparr>"
  have "read_exact i 0 24 s = (Inr ?h, s)" using assms(2) by (simp add: read_exact_def bslice_def index_bytes_def zstd_decode_encode)
  moreover have "read_zstd_entries i 24 (length es) s = (Inr es, s)"
    using assms(2) by (intro read_zstd_entries_ok [where pre = ?h and post = "[]"]) (simp_all add: index_bytes_def zstd_decode_encode)
  ultimately show ?thesis using assms(1,3) by (simp add: read_seek_index_def bind_ok open_read_def ret_def zstd_decode_encode lift_def)
qed

text \<open>A compressed file and its index.\<close>

definition zst_pair :: "zstd_fun \<Rightarrow> nat \<Rightarrow> bytes \<Rightarrow> fs \<Rightarrow> path \<Rightarrow> path \<Rightarrow> bool" where
  "zst_pair enc n d s z ix \<longleftrightarrow> (\<exists>i j. lookup_path s z = Some i \<and> fs_data s i = concat (block_code enc (blocks n d)) \<and>
     lookup_path s ix = Some j \<and> fs_data s j = index_bytes n (block_entries enc 0 0 (blocks n d)))"

lemma blocks_length: "length (blocks n d) \<le> length d"
proof (induction n d rule: blocks.induct)
  case (1 n d)
  then show ?case by (cases "d = [] \<or> n = 0") (auto simp: blocks.simps [of n d] Suc_le_eq intro: le_less_trans)
qed

lemma pair_opens:
  assumes "zst_pair enc n d s z ix" "length d \<le> u64_max"
  shows "\<exists>i. block_reader_open z ix s = (Inr \<lparr>zr_file = i, zr_index = \<lparr>zi_block_size = word_of_nat n, zi_entries = block_entries enc 0 0 (blocks n d)\<rparr>\<rparr>, s) \<and>
    fs_data s i = concat (block_code enc (blocks n d))"
proof -
  obtain i j where p: "lookup_path s z = Some i" "fs_data s i = concat (block_code enc (blocks n d))"
    "lookup_path s ix = Some j" "fs_data s j = index_bytes n (block_entries enc 0 0 (blocks n d))" using assms(1) by (auto simp: zst_pair_def)
  have "length (block_entries enc 0 0 (blocks n d)) \<le> u64_max" using blocks_length [of n d] assms(2) by simp
  from read_seek_index_ok [OF p(3,4) this] show ?thesis
    using p(1,2) by (simp add: block_reader_open_def with_context_def open_read_def bind_def ret_def)
qed

section \<open>Changes to given files\<close>

definition only :: "path set \<Rightarrow> fs \<Rightarrow> fs \<Rightarrow> bool" where
  "only P s s' \<longleftrightarrow> is_dir s' = is_dir s \<and> fs_wf s' \<and>
     (\<forall>p. p \<notin> P \<longrightarrow> lookup_path s' p = lookup_path s p \<and> (\<forall>j. lookup_path s p = Some j \<longrightarrow> fs_data s' j = fs_data s j))"

lemma only_refl: "fs_wf s \<Longrightarrow> only P s s"
  by (simp add: only_def)

lemma only_trans: "only P s s1 \<Longrightarrow> only P s1 s2 \<Longrightarrow> only P s s2"
  by (simp add: only_def)

lemma only_mono: "only P s s' \<Longrightarrow> P \<subseteq> Q \<Longrightarrow> only Q s s'"
  by (auto simp: only_def)

lemma only_set: "fs_wf s \<Longrightarrow> lookup_path s p = Some i \<Longrightarrow> only {p} s (fs_set i bs s)"
  using fs_wf_inj by (fastforce simp: only_def)

lemma only_remove: "fs_wf s \<Longrightarrow> only {p} s (snd (remove_file p s))"
  by (auto simp: only_def remove_file_def fs_wf_unlink split: option.splits)

lemma only_open_write:
  assumes "fs_wf s" "open_write p True s = (r, s')"
  shows "only {p} s s'" "r = Inr i \<Longrightarrow> lookup_path s' p = Some i"
proof -
  show "r = Inr i \<Longrightarrow> lookup_path s' p = Some i" using assms(2) by (auto simp: open_write_def fs_creat_def Let_def split: option.splits if_splits)
  show "only {p} s s'"
  proof (cases "lookup_path s p")
    case (Some j)
    then show ?thesis using assms only_set by (auto simp: open_write_def)
  next
    case None
    have "j \<noteq> fs_next s" if "lookup_path s q = Some j" for q j using fs_wf_less [OF assms(1) that] by simp
    then show ?thesis using assms None fs_wf_creat [OF assms(1), of p] only_refl by (auto simp: open_write_def fs_creat_def only_def Let_def split: if_splits)
  qed
qed

lemma only_rename:
  assumes "fs_wf s"
  shows "only {p, q} s (snd (rename p q s))"
  using assms fs_wf_rename by (auto simp: rename_def only_def split: option.splits)

lemma fs_set_same: "\<exists>bs. s = fs_set i bs s"
  by (intro exI [of _ "fs_data s i"]) (simp add: fs_set_def)

lemma write_all_at_set: "\<exists>bs. snd (write_all_at i pos xs s) = fs_set i bs s"
proof (induction xs arbitrary: pos s)
  case Nil
  then show ?case using fs_set_same by (simp add: ret_def)
next
  case (Cons x xs)
  let ?s = "snd (write_at i pos x s)"
  obtain bs where "snd (write_all_at i (pos + length x) xs ?s) = fs_set i bs ?s" using Cons by blast
  then show ?case by (auto simp: bind_def write_at_def modify_def fs_set_def)
qed

lemma compress_loop_set: "\<exists>bs. snd (compress_loop enc n out d pos u c s) = fs_set out bs s"
proof (induction "length d" arbitrary: d pos u c s rule: less_induct)
  case less
  note same = fs_set_same [of s out]
  show ?case
  proof (cases "d = [] \<or> n = 0")
    case True
    then show ?thesis using same by (auto simp: compress_loop.simps [of enc] ret_def)
  next
    case False
    let ?b = "take n d"
    consider "enc ?b = None" | z where "enc ?b = Some z" "\<not> (length z \<le> u32_max \<and> length ?b \<le> u32_max)"
      | z where "enc ?b = Some z" "length z \<le> u32_max" "length ?b \<le> u32_max" by (cases "enc ?b") blast+
    then show ?thesis
    proof cases
      case 3
      let ?s = "snd (write_at out pos z s)"
      obtain bs where b: "snd (compress_loop enc n out (drop n d) (pos + length z) (sat_add64 u (length ?b)) (sat_add64 c (length z)) ?s) = fs_set out bs ?s"
        using less False by (metis diff_less length_drop length_greater_0_conv neq0_conv)
      then have "snd (compress_loop enc n out d pos u c s) = fs_set out bs ?s"
        using 3 False by (auto simp: compress_loop.simps [of enc n out d] Let_def bind_def write_at_def modify_def ret_def split: prod.splits sum.splits)
      then show ?thesis by (auto simp: write_at_def modify_def fs_set_def)
    qed (use False same in \<open>auto simp: compress_loop.simps [of enc n out d] fail_def Let_def\<close>)
  qed
qed

end
