(* ===== verification/Lifecycle.thy ===== *)
theory Lifecycle
  imports Compression Table
begin

text \<open>
  \<^verbatim>\<open>src/src/lifecycle/\<close>: the policy that says which segments are compressed, the record of accesses, the
  compression of a segment file and the manager that walks over the directories. Times are
  nanoseconds since 1970, and the clock and the times of the files are arguments.
\<close>

section \<open>Segments and the policy\<close>

record segment_info =
  si_path :: path
  si_segment_id :: nat
  si_size_bytes :: nat
  si_created_at :: int
  si_modified_at :: int
  si_last_accessed_at :: "int option"
  si_is_sealed :: bool
  si_read_count :: nat

definition si_age :: "int \<Rightarrow> segment_info \<Rightarrow> nat" where
  "si_age now i = nat (now - si_created_at i)"

definition time_since_modified :: "int \<Rightarrow> segment_info \<Rightarrow> nat" where
  "time_since_modified now i = nat (now - si_modified_at i)"

definition time_since_accessed :: "int \<Rightarrow> segment_info \<Rightarrow> nat option" where
  "time_since_accessed now i =
     (case si_last_accessed_at i of None \<Rightarrow> None | Some t \<Rightarrow> if now < t then None else Some (nat (now - t)))"

definition is_idle :: "int \<Rightarrow> nat \<Rightarrow> segment_info \<Rightarrow> bool" where
  "is_idle now duration i =
     (case time_since_accessed now i of Some idle \<Rightarrow> idle \<ge> duration | None \<Rightarrow> time_since_modified now i \<ge> duration)"

definition is_compressed :: "segment_info \<Rightarrow> bool" where
  "is_compressed i \<longleftrightarrow> si_path i \<noteq> [] \<and> extension (last (si_path i)) = Some ''zst''"

definition compression_savings :: "segment_info \<Rightarrow> nat" where
  "compression_savings i = si_size_bytes i div 2"

abbreviation days_ns :: "nat \<Rightarrow> nat" where
  "days_ns d \<equiv> d * 86400 * 1000000000"

definition should_compress :: "int \<Rightarrow> compression_policy \<Rightarrow> segment_info \<Rightarrow> bool" where
  "should_compress now policy i =
     (if \<not> si_is_sealed i then False
      else if is_compressed i then False
      else case policy of
             Never \<Rightarrow> False
           | Idle_After days track_reads \<Rightarrow>
               if track_reads then
                 (case time_since_accessed now i of
                    Some idle_time \<Rightarrow> idle_time \<ge> days_ns days
                  | None \<Rightarrow> time_since_modified now i \<ge> days_ns days)
               else time_since_modified now i \<ge> days_ns days
           | Age_After days \<Rightarrow> si_age now i \<ge> days_ns days
           | Immediate \<Rightarrow> True
           | Size_Threshold bytes \<Rightarrow> si_size_bytes i \<ge> bytes)"

section \<open>The access log\<close>

record access_tracker =
  at_dir :: path
  at_cache :: "(nat, int) mapping"
  at_enabled :: bool

definition str_bytes :: "string \<Rightarrow> bytes" where
  "str_bytes s = map of_char s"

definition bytes_str :: "bytes \<Rightarrow> string" where
  "bytes_str bs = map (\<lambda>b. char_of (unat b)) bs"

text \<open>\<open>BufRead::lines\<close>: without the newline, and without a carriage return in front of it.\<close>

definition text_lines :: "string \<Rightarrow> string list" where
  "text_lines s =
     (let ls = split_at CHR 0x0A s; ls = (if last ls = [] then butlast ls else ls)
      in map (\<lambda>l. if l \<noteq> [] \<and> last l = CHR 0x0D then butlast l else l) ls)"

text \<open>The time of a line that is too large for the clock's type is a panic of the addition.\<close>

fun load_lines :: "string list \<Rightarrow> (nat, int) mapping \<Rightarrow> (nat, int) mapping result" where
  "load_lines [] cache = Inr cache"
| "load_lines (line # ls) cache =
     (case split_at CHR '','' line of
        [a, b] \<Rightarrow>
          (case (parse_u64 a, parse_u64 b) of
             (Some segment_id, Some timestamp) \<Rightarrow>
               if timestamp \<ge> 2 ^ 63 then Inl (Panic ''overflow when adding duration to instant'')
               else load_lines ls (Mapping.update segment_id (int timestamp * 1000000000) cache)
           | _ \<Rightarrow> load_lines ls cache)
      | _ \<Rightarrow> load_lines ls cache)"

definition load_log :: "path \<Rightarrow> (fs, (nat, int) mapping) io" where
  "load_log dir =
     bind (get (\<lambda>s. path_exists s (dir @ [''.access_log'']))) (\<lambda>ex.
     if \<not> ex then ret Mapping.empty
     else bind (read_text (dir @ [''.access_log''])) (\<lambda>bs. lift (load_lines (text_lines (bytes_str bs)) Mapping.empty)))"

definition tracker_new :: "path \<Rightarrow> bool \<Rightarrow> (fs, access_tracker) io" where
  "tracker_new dir enabled =
     (if enabled then
        bind (attempt (load_log dir)) (\<lambda>r.
        case r of
          Inr log \<Rightarrow> ret \<lparr>at_dir = dir, at_cache = log, at_enabled = enabled\<rparr>
        | Inl (Panic m) \<Rightarrow> fail (Panic m)
        | Inl _ \<Rightarrow> ret \<lparr>at_dir = dir, at_cache = Mapping.empty, at_enabled = enabled\<rparr>)
      else ret \<lparr>at_dir = dir, at_cache = Mapping.empty, at_enabled = enabled\<rparr>)"

definition record_access :: "int \<Rightarrow> nat \<Rightarrow> access_tracker \<Rightarrow> access_tracker" where
  "record_access now segment_id t = (if \<not> at_enabled t then t else t\<lparr>at_cache := Mapping.update segment_id now (at_cache t)\<rparr>)"

definition last_access :: "nat \<Rightarrow> access_tracker \<Rightarrow> int option" where
  "last_access segment_id t = (if \<not> at_enabled t then None else Mapping.lookup (at_cache t) segment_id)"

definition at_read_count :: "nat \<Rightarrow> access_tracker \<Rightarrow> nat" where
  "at_read_count segment_id t = (if Mapping.lookup (at_cache t) segment_id \<noteq> None then 1 else 0)"

definition access_secs :: "int \<Rightarrow> nat" where
  "access_secs t = nat (t div 1000000000)"

definition access_line :: "nat \<times> int \<Rightarrow> string" where
  "access_line e = dec_digits (fst e) @ CHR '','' # dec_digits (access_secs (snd e)) @ [CHR 0x0A]"

text \<open>The lines come in the order of the hash map; here it is that of the numbers.\<close>

definition tracker_flush :: "access_tracker \<Rightarrow> (fs, unit) io" where
  "tracker_flush t =
     (if \<not> at_enabled t \<or> Mapping.is_empty (at_cache t) then ret ()
      else bind (open_write (at_dir t @ [''.access_log.tmp'']) True) (\<lambda>i.
           bind (write_all_at i 0 (map (\<lambda>e. str_bytes (access_line e)) (Mapping.ordered_entries (at_cache t)))) (\<lambda>_.
           rename (at_dir t @ [''.access_log.tmp'']) (at_dir t @ [''.access_log'']))))"

section \<open>Compressing a segment\<close>

definition as_other :: "('s, 'a) io \<Rightarrow> ('s, 'a) io" where
  "as_other m s = (case m s of (Inl _, s') \<Rightarrow> (Inl (Io OtherIo), s') | (Inr x, s') \<Rightarrow> (Inr x, s'))"

definition file_len :: "path \<Rightarrow> (fs, nat) io" where
  "file_len p = bind (open_read p) (\<lambda>i. get (\<lambda>s. length (fs_data s i)))"

definition verify_compressed_file :: "zstd_fun \<Rightarrow> path \<Rightarrow> path \<Rightarrow> (fs, unit) io" where
  "verify_compressed_file dec zst_path idx_path =
     bind (as_other (block_reader_open zst_path idx_path)) (\<lambda>reader.
     bind (as_other (read_block_at dec reader 0)) (\<lambda>_. ret ()))"

definition compress_segment :: "zstd_fun \<Rightarrow> zstd_fun \<Rightarrow> path \<Rightarrow> nat \<Rightarrow> int \<Rightarrow> (fs, nat) io" where
  "compress_segment enc dec q_path block_size compression_level =
     (let zst_path = with_extension q_path ''q.zst'';
          idx_path = with_extension q_path ''q.zst.idx'';
          zst_tmp = with_extension q_path ''q.zst.tmp'';
          idx_tmp = with_extension q_path ''q.zst.idx.tmp''
      in bind (attempt (remove_file zst_tmp)) (\<lambda>_.
         bind (attempt (remove_file idx_tmp)) (\<lambda>_.
         bind (as_other (compress_q_to_zst enc q_path zst_tmp idx_tmp block_size)) (\<lambda>_.
         bind (verify_compressed_file dec zst_tmp idx_tmp) (\<lambda>_.
         bind (file_len zst_tmp) (\<lambda>compressed_size.
         bind (rename zst_tmp zst_path) (\<lambda>_.
         bind (rename idx_tmp idx_path) (\<lambda>_.
         bind (remove_file q_path) (\<lambda>_.
         ret compressed_size)))))))))"

section \<open>The manager\<close>

record lifecycle_stats =
  ls_scanned_count :: nat
  ls_compressed_count :: nat
  ls_bytes_saved :: nat
  ls_error_count :: nat
  ls_errors :: "(path \<times> error) list"
  ls_duration :: nat

definition stats_new :: lifecycle_stats where
  "stats_new = \<lparr>ls_scanned_count = 0, ls_compressed_count = 0, ls_bytes_saved = 0, ls_error_count = 0, ls_errors = [], ls_duration = 0\<rparr>"

definition record_compression :: "nat \<Rightarrow> nat \<Rightarrow> lifecycle_stats \<Rightarrow> lifecycle_stats" where
  "record_compression original_size compressed_size st =
     st\<lparr>ls_compressed_count := ls_compressed_count st + 1, ls_bytes_saved := ls_bytes_saved st + sat_sub64 original_size compressed_size\<rparr>"

definition record_error :: "path \<times> error \<Rightarrow> lifecycle_stats \<Rightarrow> lifecycle_stats" where
  "record_error e st = st\<lparr>ls_error_count := ls_error_count st + 1, ls_errors := ls_errors st @ [e]\<rparr>"

definition has_errors :: "lifecycle_stats \<Rightarrow> bool" where
  "has_errors st \<longleftrightarrow> ls_error_count st > 0"

record lifecycle_config =
  lc_policy :: compression_policy
  lc_compression_level :: int
  lc_block_size :: nat
  lc_parallel_workers :: nat

definition default_lifecycle_config :: lifecycle_config where
  "default_lifecycle_config = \<lparr>lc_policy = Idle_After 7 True, lc_compression_level = 3, lc_block_size = 1024 * 1024, lc_parallel_workers = 1\<rparr>"

record lifecycle_manager =
  lm_root :: path
  lm_config :: lifecycle_config
  lm_access_tracker :: access_tracker

definition manager_new :: "path \<Rightarrow> lifecycle_config \<Rightarrow> (fs, lifecycle_manager) io" where
  "manager_new root config =
     (let track_access = (case lc_policy config of Idle_After _ True \<Rightarrow> True | _ \<Rightarrow> False)
      in bind (tracker_new root track_access) (\<lambda>t. ret \<lparr>lm_root = root, lm_config = config, lm_access_tracker = t\<rparr>))"

text \<open>What the system says of a file: when it was created and modified, if it knows.\<close>

record file_times =
  ft_created :: "path \<Rightarrow> int option"
  ft_modified :: "path \<Rightarrow> int option"

definition get_segment_info :: "file_times \<Rightarrow> int \<Rightarrow> lifecycle_manager \<Rightarrow> path \<Rightarrow> (fs, segment_info) io" where
  "get_segment_info ft now m q_path =
     bind (file_len q_path) (\<lambda>len.
     let segment_id = (case parse_u64 (file_stem (last q_path)) of None \<Rightarrow> 0 | Some i \<Rightarrow> i) in
     bind (attempt (read_segment_flags q_path)) (\<lambda>flags.
     ret \<lparr>si_path = q_path, si_segment_id = segment_id, si_size_bytes = len,
          si_created_at = (case ft_created ft q_path of None \<Rightarrow> now | Some t \<Rightarrow> t),
          si_modified_at = (case ft_modified ft q_path of None \<Rightarrow> now | Some t \<Rightarrow> t),
          si_last_accessed_at = last_access segment_id (lm_access_tracker m),
          si_is_sealed = (case flags of Inl _ \<Rightarrow> False | Inr f \<Rightarrow> f AND SEG_FLAG_SEALED \<noteq> 0),
          si_read_count = at_read_count segment_id (lm_access_tracker m)\<rparr>))"

type_synonym 'a ls_io = "(lifecycle_stats \<times> fs, 'a) io"

definition process_segment :: "zstd_fun \<Rightarrow> zstd_fun \<Rightarrow> file_times \<Rightarrow> int \<Rightarrow> lifecycle_manager \<Rightarrow> path \<Rightarrow> unit ls_io" where
  "process_segment enc dec ft now m q_path =
     bind (on_fs (get_segment_info ft now m q_path)) (\<lambda>info.
     if \<not> should_compress now (lc_policy (lm_config m)) info then ret ()
     else bind (on_fs (compress_segment enc dec q_path (lc_block_size (lm_config m)) (lc_compression_level (lm_config m)))) (\<lambda>compressed_size.
          upd (record_compression (si_size_bytes info) compressed_size)))"

fun process_all :: "zstd_fun \<Rightarrow> zstd_fun \<Rightarrow> file_times \<Rightarrow> int \<Rightarrow> lifecycle_manager \<Rightarrow> path list \<Rightarrow> unit ls_io" where
  "process_all enc dec ft now m [] = ret ()"
| "process_all enc dec ft now m (q # qs) =
     bind (attempt (process_segment enc dec ft now m q)) (\<lambda>r.
     bind (case r of Inr _ \<Rightarrow> ret () | Inl e \<Rightarrow> upd (record_error (q, e))) (\<lambda>_.
     process_all enc dec ft now m qs))"

function collect_q_files :: "fs \<Rightarrow> path \<Rightarrow> path list \<Rightarrow> path list result"
  and collect_entries :: "fs \<Rightarrow> path \<Rightarrow> (string \<times> bool) list \<Rightarrow> path list \<Rightarrow> path list result" where
  "collect_q_files s dir acc =
     (if \<not> path_exists s dir then Inr acc
      else if \<not> is_dir s dir then Inl (Io OtherIo)
      else collect_entries s dir (read_dir dir s) acc)"
| "collect_entries s dir [] acc = Inr acc"
| "collect_entries s dir ((name, is_file) # es) acc =
     (if \<not> is_file then
        (if is_dir s (dir @ [name]) then
           (case collect_q_files s (dir @ [name]) acc of Inl e \<Rightarrow> Inl e | Inr acc' \<Rightarrow> collect_entries s dir es acc')
         else collect_entries s dir es acc)
      else collect_entries s dir es (if ends_with name ''.q'' \<and> \<not> ends_with name ''.q.tmp'' then acc @ [dir @ [name]] else acc))"
  by pat_completeness auto
termination
proof (relation "inv_image (less_than <*lex*> less_than) (\<lambda>x. case x of
      Inl (s, dir, acc) \<Rightarrow> (Suc (fs_depth s) - length dir, Suc (length (read_dir dir s)))
    | Inr (s, dir, es, acc) \<Rightarrow> (Suc (fs_depth s) - length dir, length es))", goal_cases)
  case (3 s dir name is_file)
  then have "length dir < fs_depth s" using fs_depth_bound [of s "dir @ [name]"] by simp
  then show ?case by (simp add: Suc_diff_le)
qed auto

declare collect_q_files.simps [simp del]

definition manage_dir :: "zstd_fun \<Rightarrow> zstd_fun \<Rightarrow> file_times \<Rightarrow> int \<Rightarrow> nat \<Rightarrow> lifecycle_manager \<Rightarrow> path \<Rightarrow> (fs, lifecycle_stats) io" where
  "manage_dir enc dec ft now elapsed m dir = (\<lambda>s.
     case collect_q_files s dir [] of
       Inl e \<Rightarrow> (Inl e, s)
     | Inr q_files \<Rightarrow>
         (case process_all enc dec ft now m q_files (stats_new\<lparr>ls_scanned_count := length q_files\<rparr>, s) of
            (Inl e, _, s1) \<Rightarrow> (Inl e, s1)
          | (Inr _, stats, s1) \<Rightarrow>
              (case tracker_flush (lm_access_tracker m) s1 of
                 (Inl e, s2) \<Rightarrow> (Inl e, s2)
               | (Inr _, s2) \<Rightarrow> (Inr (stats\<lparr>ls_duration := elapsed\<rparr>), s2))))"

definition run_once :: "zstd_fun \<Rightarrow> zstd_fun \<Rightarrow> file_times \<Rightarrow> int \<Rightarrow> nat \<Rightarrow> lifecycle_manager \<Rightarrow> (fs, lifecycle_stats) io" where
  "run_once enc dec ft now elapsed m = manage_dir enc dec ft now elapsed m (lm_root m)"

definition compress_partition :: "zstd_fun \<Rightarrow> zstd_fun \<Rightarrow> file_times \<Rightarrow> int \<Rightarrow> nat \<Rightarrow> lifecycle_manager \<Rightarrow> path \<Rightarrow> (fs, lifecycle_stats) io" where
  "compress_partition enc dec ft now elapsed m dir = manage_dir enc dec ft now elapsed m dir"

section \<open>What a compression touches\<close>

lemma only_bindI:
  assumes "only P s (snd (m s))" "\<And>x s1. m s = (Inr x, s1) \<Longrightarrow> fs_wf s1 \<Longrightarrow> only P s1 (snd (f x s1))"
  shows "only P s (snd (bind m f s))"
proof (cases "m s")
  case (Pair r s1)
  then have "only P s s1" "fs_wf s1" using assms(1) by (simp_all add: only_def)
  then show ?thesis using assms(2) only_trans Pair by (cases r) (auto simp: bind_def)
qed

lemma only_pure:
  "fs_wf s \<Longrightarrow> only P s (snd (get f s))" "fs_wf s \<Longrightarrow> only P s (snd (ret x s))" "fs_wf s \<Longrightarrow> only P s (snd (fail e s))"
  "fs_wf s \<Longrightarrow> only P s (snd (open_read p s))" "fs_wf s \<Longrightarrow> only P s (snd (lift r s))" "fs_wf s \<Longrightarrow> only P s (snd (read_exact i k n s))"
  by (auto simp: get_def ret_def fail_def open_read_def lift_def read_exact_def only_refl split: option.splits)

lemma only_wrap:
  "snd (attempt m s) = snd (m s)" "snd (as_other m s) = snd (m s)" "snd (with_context msg m s) = snd (m s)"
  by (simp_all add: attempt_def as_other_def with_context_def split: prod.splits sum.splits)

text \<open>Reading leaves the files alone.\<close>

lemma read_zstd_same: "snd (read_zstd_entries i pos n s) = s"
proof (induction n arbitrary: pos)
  case (Suc n)
  then show ?case using Suc [of "pos + 24"] by (cases "read_zstd_entries i (pos + 24) n s") (auto simp: ret_def bind_def read_exact_def split: sum.splits)
qed (simp add: ret_def)

lemma readers_same:
  "snd (read_seek_index p s) = s" "snd (block_reader_open z ix s) = s" "snd (read_block_at dec r off s) = s" "snd (file_len p s) = s"
  "snd (verify_compressed_file dec z ix s) = s" "snd (read_segment_flags p s) = s" "snd (get_segment_info ft now m p s) = s"
proof -
  show ix: "snd (read_seek_index p s) = s" for p
    using read_zstd_same by (auto simp: read_seek_index_def bind_def open_read_def read_exact_def lift_def ret_def split: option.splits prod.splits sum.splits) (metis sndI)+
  show op: "snd (block_reader_open z ix s) = s"
    using ix [of ix] by (auto simp: block_reader_open_def bind_def with_context_def open_read_def ret_def split: option.splits prod.splits sum.splits)
  show rb: "snd (read_block_at dec r off s) = s" for r off
    by (auto simp: read_block_at_def bind_def read_exact_def fail_def ret_def split: option.splits prod.splits sum.splits)
  show fl: "snd (file_len p s) = s" by (auto simp: file_len_def bind_def open_read_def get_def split: option.splits)
  show "snd (verify_compressed_file dec z ix s) = s"
    using op rb by (auto simp: verify_compressed_file_def bind_def as_other_def ret_def split: prod.splits sum.splits) (metis sndI)+
  show rf: "snd (read_segment_flags p s) = s"
    by (auto simp: read_segment_flags_def bind_def open_read_def read_exact_def fail_def ret_def Let_def split: option.splits)
  show "snd (get_segment_info ft now m p s) = s"
    using fl rf by (auto simp: get_segment_info_def bind_def attempt_def ret_def Let_def split: prod.splits sum.splits)
qed

lemma only_open_out: "fs_wf s \<Longrightarrow> p \<in> P \<Longrightarrow> only P s (snd (open_write p True s))"
  using only_open_write(1) [of s p "fst (open_write p True s)" "snd (open_write p True s)"] only_mono [of "{p}" s _ P] by simp

lemma only_set_in: "fs_wf s \<Longrightarrow> lookup_path s p = Some i \<Longrightarrow> p \<in> P \<Longrightarrow> only P s (fs_set i bs s)"
  using only_set only_mono by (metis empty_subsetI insert_subset)

lemma only_write_index:
  assumes "fs_wf s" "p \<in> P"
  shows "only P s (snd (write_seek_index p n es s))"
  unfolding write_seek_index_def Let_def
proof (rule only_bindI)
  fix i s1 assume o: "open_write p True s = (Inr i, s1)" "fs_wf s1"
  have "lookup_path s1 p = Some i" using only_open_write(2) [OF assms(1) o(1)] by simp
  then show "only P s1 (snd (write_all_at i 0 xs s1))" for xs using write_all_at_set [of i 0 xs s1] only_set_in o(2) assms(2) by metis
qed (rule only_open_out [OF assms])

lemma only_compress_file:
  assumes "fs_wf s" "zt \<in> P" "it \<in> P"
  shows "only P s (snd (compress_q_to_zst enc q zt it n s))"
proof (cases "n = 0")
  case True
  then show ?thesis using assms(1) by (simp add: compress_q_to_zst_def only_pure)
next
  case False
  have loop: "only P s1 (snd (compress_loop enc n out d 0 0 0 s1))" if "lookup_path s1 zt = Some out" "fs_wf s1" for s1 out d
    using compress_loop_set [of enc n out d 0 0 0 s1] only_set_in [OF that(2,1) assms(2)] by auto
  have inner: "only P s1 (snd (bind (get (\<lambda>s. fs_data s i)) (\<lambda>input. bind (compress_loop enc n out input 0 0 0) (\<lambda>es.
      bind (write_seek_index it (word_of_nat n) es) (\<lambda>_. ret \<lparr>zi_block_size = word_of_nat n, zi_entries = es\<rparr>))) s1))"
    if "lookup_path s1 zt = Some out" "fs_wf s1" for s1 out i
    by (rule only_bindI, simp add: only_pure that, rule only_bindI, simp add: get_def, rule loop, use that in \<open>simp add: get_def\<close>, use that in \<open>simp add: get_def\<close>)
      (rule only_bindI, rule only_write_index, simp_all add: assms only_pure)
  show ?thesis unfolding compress_q_to_zst_def if_not_P [OF False]
  proof (rule only_bindI)
    show "only P s (snd (with_context ''open input'' (open_read q) s))" using assms(1) by (simp add: only_wrap only_pure)
    fix i s1 assume s1: "with_context ''open input'' (open_read q) s = (Inr i, s1)" "fs_wf s1"
    show "only P s1 (snd (bind (with_context ''create'' (open_write zt True)) (\<lambda>out. bind (get (\<lambda>s. fs_data s i)) (\<lambda>input. bind (compress_loop enc n out input 0 0 0) (\<lambda>es.
      bind (write_seek_index it (word_of_nat n) es) (\<lambda>_. ret \<lparr>zi_block_size = word_of_nat n, zi_entries = es\<rparr>)))) s1))"
    proof (rule only_bindI)
      show "only P s1 (snd (with_context ''create'' (open_write zt True) s1))" using only_open_out [OF s1(2) assms(2)] by (simp add: only_wrap)
      fix out s2 assume s2: "with_context ''create'' (open_write zt True) s1 = (Inr out, s2)" "fs_wf s2"
      then have "open_write zt True s1 = (Inr out, s2)" by (auto simp: with_context_def split: prod.splits sum.splits)
      then have "lookup_path s2 zt = Some out" using only_open_write(2) [OF s1(2)] by blast
      from inner [OF this s2(2)] show "only P s2 (snd (bind (get (\<lambda>s. fs_data s i)) (\<lambda>input. bind (compress_loop enc n out input 0 0 0) (\<lambda>es.
        bind (write_seek_index it (word_of_nat n) es) (\<lambda>_. ret \<lparr>zi_block_size = word_of_nat n, zi_entries = es\<rparr>))) s2))" .
    qed
  qed
qed

text \<open>The names beside that of the segment file.\<close>

abbreviation side_files :: "path \<Rightarrow> path set" where
  "side_files q \<equiv> with_extension q ` {''q.zst'', ''q.zst.idx'', ''q.zst.tmp'', ''q.zst.idx.tmp''}"

lemma bind_assoc: "bind (bind m f) g = bind m (\<lambda>x. bind (f x) g)"
  by (rule ext) (simp add: bind_def split: prod.splits sum.splits)

text \<open>Everything before the segment file is removed.\<close>

definition compress_beside :: "zstd_fun \<Rightarrow> zstd_fun \<Rightarrow> path \<Rightarrow> nat \<Rightarrow> (fs, nat) io" where
  "compress_beside enc dec q n =
     bind (attempt (remove_file (with_extension q ''q.zst.tmp''))) (\<lambda>_.
     bind (attempt (remove_file (with_extension q ''q.zst.idx.tmp''))) (\<lambda>_.
     bind (as_other (compress_q_to_zst enc q (with_extension q ''q.zst.tmp'') (with_extension q ''q.zst.idx.tmp'') n)) (\<lambda>_.
     bind (verify_compressed_file dec (with_extension q ''q.zst.tmp'') (with_extension q ''q.zst.idx.tmp'')) (\<lambda>_.
     bind (file_len (with_extension q ''q.zst.tmp'')) (\<lambda>k.
     bind (rename (with_extension q ''q.zst.tmp'') (with_extension q ''q.zst'')) (\<lambda>_.
     bind (rename (with_extension q ''q.zst.idx.tmp'') (with_extension q ''q.zst.idx'')) (\<lambda>_.
     ret k)))))))"

lemma ret_bind [simp]: "bind (ret x) f = f x"
  by (rule ext) (simp add: bind_def ret_def)

lemma compress_segment_eq: "compress_segment enc dec q n l = bind (compress_beside enc dec q n) (\<lambda>k. bind (remove_file q) (\<lambda>_. ret k))"
  by (simp add: compress_segment_def compress_beside_def bind_assoc Let_def)

lemma only_remove_in: "fs_wf s \<Longrightarrow> p \<in> P \<Longrightarrow> only P s (snd (remove_file p s))"
  using only_remove only_mono by (metis empty_subsetI insert_subset)

lemma only_rename_in: "fs_wf s \<Longrightarrow> p \<in> P \<Longrightarrow> q \<in> P \<Longrightarrow> only P s (snd (rename p q s))"
  using only_rename only_mono by (metis empty_subsetI insert_subset)

lemma only_compress_beside: "fs_wf s \<Longrightarrow> only (side_files q) s (snd (compress_beside enc dec q n s))"
  unfolding compress_beside_def
  by (intro only_bindI) (simp_all add: only_wrap only_remove_in only_compress_file only_rename_in readers_same only_refl only_pure)

lemma only_compress_segment:
  assumes "fs_wf s" "compress_segment enc dec q n l s = (r, s')"
  shows "only (insert q (side_files q)) s s'" "r = Inl e \<Longrightarrow> only (side_files q) s s'"
proof -
  obtain r1 s1 where s1: "compress_beside enc dec q n s = (r1, s1)" by fastforce
  then have o: "only (side_files q) s s1" using only_compress_beside [OF assms(1), of q enc dec n] by simp
  then have wf: "fs_wf s1" by (simp add: only_def)
  have "s' = s1 \<or> s' = snd (remove_file q s1)" using assms(2) s1 by (auto simp: compress_segment_eq bind_def ret_def split: sum.splits prod.splits)
  then show "only (insert q (side_files q)) s s'"
    using only_mono [OF o, of "insert q (side_files q)"] only_trans only_remove_in [OF wf, of q "insert q (side_files q)"] by auto
  have "r = Inl e \<Longrightarrow> s' = s1" using assms(2) s1 by (auto simp: compress_segment_eq bind_def ret_def remove_file_def split: sum.splits prod.splits option.splits)
  then show "r = Inl e \<Longrightarrow> only (side_files q) s s'" using o by simp
qed

section \<open>A compression that succeeds\<close>

text \<open>A file of the given contents, a usable block size and a compression that works on its blocks.\<close>

definition compressible :: "zstd_fun \<Rightarrow> zstd_fun \<Rightarrow> nat \<Rightarrow> bytes \<Rightarrow> bool" where
  "compressible enc dec n d \<longleftrightarrow> 0 < n \<and> n \<le> u32_max \<and> d \<noteq> [] \<and> length d \<le> u64_max \<and> zstd_ok enc dec (blocks n d) \<and>
     length (concat (block_code enc (blocks n d))) \<le> u64_max"

definition file_holds :: "fs \<Rightarrow> path \<Rightarrow> bytes \<Rightarrow> bool" where
  "file_holds s p d \<longleftrightarrow> (\<exists>i. lookup_path s p = Some i \<and> fs_data s i = d)"

lemma file_holds_only: "file_holds s p d \<Longrightarrow> only P s s' \<Longrightarrow> p \<notin> P \<Longrightarrow> file_holds s' p d"
  by (auto simp: file_holds_def only_def)

lemma zst_pair_holds: "zst_pair enc n d s z ix \<longleftrightarrow>
  file_holds s z (concat (block_code enc (blocks n d))) \<and> file_holds s ix (index_bytes n (block_entries enc 0 0 (blocks n d)))"
  by (auto simp: zst_pair_def file_holds_def)

lemma write_index_ok:
  assumes "fs_wf s" "is_dir s (butlast p)"
  shows "\<exists>s'. write_seek_index p (word_of_nat n) es s = (Inr (), s') \<and> file_holds s' p (index_bytes n es) \<and> only {p} s s'"
proof -
  obtain i s1 where o: "open_write p True s = (Inr i, s1)" "lookup_path s1 p = Some i" "fs_data s1 i = []" using open_write_empties [OF assms(2)] by blast
  have "write_seek_index p (word_of_nat n) es s = (Inr (), fs_set i (index_bytes n es) s1)"
    using o write_all_at_ok [of s1 i "[]" 0] by (simp add: write_seek_index_def Let_def bind_ok index_bytes_def del: write_all_at.simps)
  then show ?thesis using o(2) only_write_index [OF assms(1), of p "{p}" "word_of_nat n" es] by (auto simp: file_holds_def)
qed

lemma compress_file_ok:
  assumes "fs_wf s" "file_holds s q d" "compressible enc dec n d" "is_dir s (butlast zt)" "is_dir s (butlast it)" "q \<noteq> zt" "zt \<noteq> it"
  shows "\<exists>ix s'. compress_q_to_zst enc q zt it n s = (Inr ix, s') \<and> zst_pair enc n d s' zt it"
proof -
  have c: "0 < n" "n \<le> u32_max" "length d \<le> u64_max" "zstd_ok enc dec (blocks n d)" "length (concat (block_code enc (blocks n d))) \<le> u64_max"
    using assms(3) by (simp_all add: compressible_def)
  obtain i where i: "lookup_path s q = Some i" "fs_data s i = d" using assms(2) by (auto simp: file_holds_def)
  obtain out s1 where o: "open_write zt True s = (Inr out, s1)" "lookup_path s1 zt = Some out" "fs_data s1 out = []" "is_dir s1 = is_dir s"
    using open_write_empties [OF assms(4)] by blast
  have s1: "only {zt} s s1" "fs_wf s1" using only_open_write(1) [OF assms(1) o(1)] by (simp_all add: only_def)
  then have d: "fs_data s1 i = d" using i assms(6) by (auto simp: only_def)
  let ?es = "block_entries enc 0 0 (blocks n d)" and ?zd = "concat (block_code enc (blocks n d))"
  have lp: "compress_loop enc n out d 0 0 0 s1 = (Inr ?es, fs_set out ?zd s1)"
    using compress_loop_ok [OF c(1,2,4) o(3)] c(3,5) by simp
  have s2: "fs_wf (fs_set out ?zd s1)" "file_holds (fs_set out ?zd s1) zt ?zd" using s1(2) o(2) by (simp_all add: file_holds_def)
  have d2: "is_dir (fs_set out ?zd s1) (butlast it)" using assms(5) o(4) by simp
  obtain s3 where s3: "write_seek_index it (word_of_nat n) ?es (fs_set out ?zd s1) = (Inr (), s3)" "file_holds s3 it (index_bytes n ?es)" "only {it} (fs_set out ?zd s1) s3"
    using write_index_ok [OF s2(1) d2, of n ?es] by blast
  have "zst_pair enc n d s3 zt it" using s3(2) file_holds_only [OF s2(2) s3(3)] assms(7) by (simp add: zst_pair_holds)
  moreover have "\<exists>ix. compress_q_to_zst enc q zt it n s = (Inr ix, s3)"
    using c(1) i(1) o(1) d lp s3(1) by (simp add: compress_q_to_zst_def bind_def with_context_def open_read_def get_def ret_def)
  ultimately show ?thesis by blast
qed

lemma side_distinct:
  "with_extension q ''q.zst'' \<noteq> with_extension q ''q.zst.idx''" "with_extension q ''q.zst'' \<noteq> with_extension q ''q.zst.tmp''"
  "with_extension q ''q.zst'' \<noteq> with_extension q ''q.zst.idx.tmp''" "with_extension q ''q.zst.idx'' \<noteq> with_extension q ''q.zst.tmp''"
  "with_extension q ''q.zst.idx'' \<noteq> with_extension q ''q.zst.idx.tmp''" "with_extension q ''q.zst.tmp'' \<noteq> with_extension q ''q.zst.idx.tmp''"
  by (simp_all add: with_extension_def)

lemma side_not_q: "p \<in> side_files q \<Longrightarrow> \<not> ends_with (last p) ''.q'' \<and> butlast p = butlast q \<and> p \<noteq> []"
proof -
  have "\<not> ends_with (x @ CHR ''.'' # e) ''.q''" if "e \<in> {''q.zst'', ''q.zst.idx'', ''q.zst.tmp'', ''q.zst.idx.tmp''}" for x e
    using ends_with_last [of "x @ CHR ''.'' # e" "''.q''"] that by auto
  then show "p \<in> side_files q \<Longrightarrow> \<not> ends_with (last p) ''.q'' \<and> butlast p = butlast q \<and> p \<noteq> []" by (auto simp: with_extension_def)
qed

lemma rename_holds:
  assumes "file_holds s p d" "fs_wf s"
  shows "\<exists>s'. rename p q s = (Inr (), s') \<and> file_holds s' q d \<and> only {p, q} s s'"
  using assms only_rename [OF assms(2), of p q] by (auto simp: file_holds_def rename_def)

lemma compress_beside_ok:
  assumes "fs_wf s" "file_holds s q d" "compressible enc dec n d" "is_dir s (butlast q)" "ends_with (last q) ''.q''"
  shows "\<exists>k s'. compress_beside enc dec q n s = (Inr k, s') \<and> zst_pair enc n d s' (with_extension q ''q.zst'') (with_extension q ''q.zst.idx'')"
proof -
  let ?z = "with_extension q ''q.zst''" and ?ix = "with_extension q ''q.zst.idx''" and ?zt = "with_extension q ''q.zst.tmp''" and ?it = "with_extension q ''q.zst.idx.tmp''"
  define s1 where "s1 = snd (remove_file ?zt s)"
  define s2 where "s2 = snd (remove_file ?it s1)"
  have o1: "only (side_files q) s s1" "fs_wf s1" using only_remove_in [OF assms(1), of ?zt "side_files q"] by (simp_all add: s1_def only_def)
  have o2: "only (side_files q) s s2" "fs_wf s2" using only_trans [OF o1(1) only_remove_in [OF o1(2), of ?it "side_files q"]] by (simp_all add: s2_def only_def)
  have nq: "q \<notin> side_files q" using side_not_q [of q q] assms(5) by blast
  have q2: "file_holds s2 q d" "is_dir s2 (butlast q)" using file_holds_only [OF assms(2) o2(1) nq] o2(1) assms(4) by (simp_all add: only_def)
  have dirs: "butlast ?zt = butlast q" "butlast ?it = butlast q" by (simp_all add: with_extension_def)
  obtain ix s3 where s3: "compress_q_to_zst enc q ?zt ?it n s2 = (Inr ix, s3)" "zst_pair enc n d s3 ?zt ?it"
    using compress_file_ok [OF o2(2) q2(1) assms(3), of ?zt ?it] q2(2) dirs nq side_distinct(6) by auto
  have w3: "fs_wf s3" using only_compress_file [OF o2(2), of ?zt UNIV ?it enc q n] s3(1) by (simp add: only_def)
  have c: "0 < n" "n \<le> u32_max" "0 < length d" "length d \<le> u64_max" "zstd_ok enc dec (blocks n d)" "length (concat (block_code enc (blocks n d))) \<le> u64_max"
    using assms(3) by (simp_all add: compressible_def)
  obtain i where op: "block_reader_open ?zt ?it s3 = (Inr \<lparr>zr_file = i, zr_index = \<lparr>zi_block_size = word_of_nat n, zi_entries = block_entries enc 0 0 (blocks n d)\<rparr>\<rparr>, s3)"
    "fs_data s3 i = concat (block_code enc (blocks n d))" using pair_opens [OF s3(2) c(4)] by blast
  have v: "verify_compressed_file dec ?zt ?it s3 = (Inr (), s3)"
    using op read_block_ok [OF c(1,2,5,3,4) op(2)] c(6) by (simp add: verify_compressed_file_def bind_def as_other_def ret_def)
  have h3: "file_holds s3 ?zt (concat (block_code enc (blocks n d)))" "file_holds s3 ?it (index_bytes n (block_entries enc 0 0 (blocks n d)))"
    using s3(2) by (simp_all add: zst_pair_holds)
  then obtain k where k: "file_len ?zt s3 = (Inr k, s3)" by (auto simp: file_holds_def file_len_def bind_def open_read_def get_def)
  obtain s4 where s4: "rename ?zt ?z s3 = (Inr (), s4)" "file_holds s4 ?z (concat (block_code enc (blocks n d)))" "only {?zt, ?z} s3 s4"
    using rename_holds [OF h3(1) w3] by blast
  have h4: "file_holds s4 ?it (index_bytes n (block_entries enc 0 0 (blocks n d)))" "fs_wf s4"
    using file_holds_only [OF h3(2) s4(3)] s4(3) side_distinct [of q] by (auto simp: only_def)
  obtain s5 where s5: "rename ?it ?ix s4 = (Inr (), s5)" "file_holds s5 ?ix (index_bytes n (block_entries enc 0 0 (blocks n d)))" "only {?it, ?ix} s4 s5"
    using rename_holds [OF h4] by blast
  have "zst_pair enc n d s5 ?z ?ix" using s5(2) file_holds_only [OF s4(2) s5(3)] side_distinct [of q] by (auto simp: zst_pair_holds)
  moreover have "compress_beside enc dec q n s = (Inr k, s5)"
    using s3(1) v k s4(1) s5(1) unfolding compress_beside_def s2_def s1_def
    by (simp add: bind_def attempt_def as_other_def ret_def split_beta)
  ultimately show ?thesis by blast
qed


lemma compress_segment_ok:
  assumes "fs_wf s" "file_holds s q d" "compressible enc dec n d" "is_dir s (butlast q)" "ends_with (last q) ''.q''" "\<not> is_dir s q"
  shows "\<exists>k s'. compress_segment enc dec q n l s = (Inr k, s') \<and> \<not> path_exists s' q \<and>
    zst_pair enc n d s' (with_extension q ''q.zst'') (with_extension q ''q.zst.idx'')"
proof -
  let ?z = "with_extension q ''q.zst''" and ?ix = "with_extension q ''q.zst.idx''"
  obtain k s1 where s1: "compress_beside enc dec q n s = (Inr k, s1)" "zst_pair enc n d s1 ?z ?ix" using compress_beside_ok [OF assms(1-5)] by blast
  have o1: "only (side_files q) s s1" "fs_wf s1" using only_compress_beside [OF assms(1), of q enc dec n] s1(1) by (simp_all add: only_def)
  have nq: "q \<notin> side_files q" using side_not_q [of q q] assms(5) by blast
  obtain i where i: "lookup_path s1 q = Some i" using file_holds_only [OF assms(2) o1(1) nq] by (auto simp: file_holds_def)
  then have r: "remove_file q s1 = (Inr (), fs_unlink q s1)" by (simp add: remove_file_def)
  have "only {q} s1 (fs_unlink q s1)" using only_remove [OF o1(2), of q] r by simp
  moreover have "?z \<noteq> q" "?ix \<noteq> q" using nq by auto
  ultimately have "zst_pair enc n d (fs_unlink q s1) ?z ?ix" using s1(2) file_holds_only by (auto simp: zst_pair_holds)
  moreover have "\<not> path_exists (fs_unlink q s1) q" using assms(6) o1(1) by (simp add: path_exists_def only_def)
  ultimately show ?thesis using s1(1) r by (simp add: compress_segment_eq bind_def ret_def)
qed

section \<open>Reading a compressed segment\<close>

text \<open>Several reads with one reader, which keeps the block it decompressed last.\<close>

fun read_many :: "zstd_fun \<Rightarrow> fs \<Rightarrow> (nat \<times> nat) list \<Rightarrow> reader_inner \<Rightarrow> bytes result list" where
  "read_many dec s [] r = []"
| "read_many dec s ((off, len) # rs) r = (case read_at dec off len s r of (x, r') \<Rightarrow> x # read_many dec s rs r')"

definition cold_reader :: "zstd_fun \<Rightarrow> nat \<Rightarrow> bytes \<Rightarrow> fs \<Rightarrow> zstd_block_reader \<Rightarrow> bool" where
  "cold_reader enc n d s r \<longleftrightarrow> fs_data s (zr_file r) = concat (block_code enc (blocks n d)) \<and> zi_entries (zr_index r) = block_entries enc 0 0 (blocks n d)"

lemma cold_block:
  assumes "cold_reader enc n d s r" "compressible enc dec n d" "off < length d"
  shows "fst (read_block_at dec r off s) = Inr (take n (drop (off div n * n) d))"
  using assms read_block_ok [of n enc dec d off s "zr_file r" "zr_index r"] by (cases r) (simp add: cold_reader_def compressible_def)

lemma unified_open_cold:
  assumes "zst_pair enc n d s (with_extension (segment_path dir i) ''q.zst'') (with_extension (segment_path dir i) ''q.zst.idx'')"
    and "\<not> path_exists s (segment_path dir i)" "length d \<le> u64_max"
  shows "\<exists>r. unified_open dir i s = (Inr (Cold r (1024 * 1024) None), s) \<and> cold_reader enc n d s r"
proof -
  have "path_exists s (with_extension (segment_path dir i) ''q.zst'')" "path_exists s (with_extension (segment_path dir i) ''q.zst.idx'')"
    using assms(1) by (auto simp: zst_pair_def path_exists_def)
  then show ?thesis using pair_opens [OF assms(1,3)] assms(2)
    by (auto simp: unified_open_def Let_def bind_def get_def attempt_def ret_def cold_reader_def)
qed

lemma read_at_cold:
  assumes "cold_reader enc n d s r" "compressible enc dec n d" "off < length d"
    and "cached = None \<or> (\<exists>o'. cached = Some (o', take n (drop o' d)))"
  shows "read_at dec off len s (Cold r n cached) =
    (Inr (take (min len (n - off mod n)) (drop off d)), Cold r n (Some (off div n * n, take n (drop (off div n * n) d))))"
proof -
  let ?b = "off div n * n"
  have n: "0 < n" using assms(2) by (simp add: compressible_def)
  have b: "?b \<le> off" "off - ?b = off mod n" "?b div n * n = ?b" using n by (simp_all add: minus_div_mult_eq_mod)
  have m: "off mod n < n" using n by simp
  have blk: "fst (read_block_at dec r ?b s) = Inr (take n (drop ?b d))" using cold_block [OF assms(1,2), of ?b] assms(3) b by simp
  have lt: "off mod n < length d - ?b" using b(1,2) assms(3) by linarith
  then have len: "off mod n < length (take n (drop ?b d))" using m by simp
  have dr: "drop (off mod n) (take n (drop ?b d)) = take (n - off mod n) (drop off d)" using b(1,2) by (simp add: drop_take)
  have "length d - off = length d - ?b - off mod n" using b(1,2) by linarith
  moreover have "min a c - e = min (c - e) (a - e)" for a c e :: nat by (simp add: min_def) linarith?
  ultimately have "length (take n (drop ?b d)) - off mod n = min (n - off mod n) (length (drop off d))" by simp
  moreover have "take (min len (min k (length xs))) (take k xs) = take (min len k) xs" for k and xs :: bytes by (simp add: min_def)
  ultimately have res: "take (min len (length (take n (drop ?b d)) - off mod n)) (drop (off mod n) (take n (drop ?b d))) = take (min len (n - off mod n)) (drop off d)"
    using dr by (simp only:)
  have "(if (case cached of None \<Rightarrow> True | Some (o', _) \<Rightarrow> o' \<noteq> ?b) then fst (read_block_at dec r ?b s) else Inr (snd (the cached))) = Inr (take n (drop ?b d))"
    using assms(4) blk by auto
  then show ?thesis unfolding read_at_def Let_def reader_inner.case res [symmetric] b(2) using len by (simp del: length_take)
qed

lemma read_many_cold:
  assumes "cold_reader enc n d s r" "compressible enc dec n d" "\<forall>(off, len) \<in> set rs. off < length d"
    and "cached = None \<or> (\<exists>o'. cached = Some (o', take n (drop o' d)))"
  shows "read_many dec s rs (Cold r n cached) = map (\<lambda>(off, len). Inr (take (min len (n - off mod n)) (drop off d))) rs"
  using assms(3,4)
proof (induction rs arbitrary: cached)
  case (Cons q rs)
  then show ?case using read_at_cold [OF assms(1,2), of "fst q" cached "snd q"] by (cases q) auto
qed simp

lemma compressed_opens:
  assumes "fs_wf s" "dir_ok s dir" "file_holds s (segment_path dir i) d" "compressible enc dec n d"
  shows "\<exists>k s' r. compress_segment enc dec (segment_path dir i) n l s = (Inr k, s') \<and> \<not> path_exists s' (segment_path dir i) \<and>
    unified_open dir i s' = (Inr (Cold r (1024 * 1024) None), s') \<and> cold_reader enc n d s' r"
proof -
  let ?q = "segment_path dir i"
  have q: "is_dir s (butlast ?q)" "ends_with (last ?q) ''.q''" "\<not> is_dir s ?q"
    using assms(2) by (simp_all add: dir_ok_def segment_path_def segment_filename_def)
  obtain k s' where k: "compress_segment enc dec ?q n l s = (Inr k, s')" "\<not> path_exists s' ?q"
    "zst_pair enc n d s' (with_extension ?q ''q.zst'') (with_extension ?q ''q.zst.idx'')" using compress_segment_ok [OF assms(1,3,4) q] by blast
  then show ?thesis using unified_open_cold [OF k(3,2)] assms(4) by (auto simp: compressible_def)
qed

text \<open>A library that stores the blocks as they are, and a directory with one segment file.\<close>

lemma concat_blocks_all: "0 < n \<Longrightarrow> concat (blocks n d) = d"
proof (induction n d rule: blocks.induct)
  case (1 n d)
  then show ?case by (cases "d = []") (simp_all add: blocks_step)
qed

lemma stored_compressible:
  assumes "0 < n" "n \<le> u32_max" "d \<noteq> []" "length d \<le> u64_max"
  shows "compressible Some Some n d"
proof -
  have "length b \<le> u32_max" if "b \<in> set (blocks n d)" for b
  proof -
    obtain k where k: "k < length (blocks n d)" "b = blocks n d ! k" using \<open>b \<in> set (blocks n d)\<close> by (metis in_set_conv_nth)
    then have "b = take n (drop (k * n) d)" using blocks_nth [OF assms(1), of k d] by simp
    then show ?thesis using assms(2) by simp
  qed
  then show ?thesis using assms by (simp add: compressible_def zstd_ok_def block_code_def concat_blocks_all)
qed

lemma one_segment: "\<exists>s. fs_wf s \<and> dir_ok s [] \<and> file_holds s (segment_path [] i) d"
proof -
  have dirs: "is_dir fs_empty (butlast (segment_path [] i))" "dir_ok fs_empty []"
    by (simp_all add: dir_ok_def is_dir_def fs_empty_def segment_path_def)
  obtain j s where s: "lookup_path s (segment_path [] i) = Some j" "is_dir s = is_dir fs_empty" "fs_wf s"
    using open_write_empties [OF dirs(1)] fs_wf_empty by blast
  then have "fs_wf (fs_set j d s) \<and> dir_ok (fs_set j d s) [] \<and> file_holds (fs_set j d s) (segment_path [] i) d"
    using dirs(2) by (simp add: dir_ok_def file_holds_def)
  then show ?thesis by blast
qed

text \<open>
  Property C10. Compressing a segment loses nothing. On a usable directory, a segment with any
  contents is compressed in blocks of one megabyte, given that the library decompresses what it
  compressed; the segment file is removed, no file but it and those beside it changes, and the
  unified reader then opens the compressed one. Whatever is asked of this reader, in any order
  and with the last block kept in between, each read inside the segment returns the bytes at its
  offset, up to the length asked for or to the end of the block.
\<close>

theorem compress_then_read:
  assumes "fs_wf s" "dir_ok s dir" "file_holds s (segment_path dir i) d" "compressible enc dec (1024 * 1024) d"
    and "\<forall>(off, len) \<in> set rs. off < length d"
  shows "\<exists>k s' r. compress_segment enc dec (segment_path dir i) (1024 * 1024) level s = (Inr k, s') \<and>
    \<not> path_exists s' (segment_path dir i) \<and> only (insert (segment_path dir i) (side_files (segment_path dir i))) s s' \<and>
    unified_open dir i s' = (Inr r, s') \<and> is_cold r \<and>
    read_many dec s' rs r = map (\<lambda>(off, len). Inr (take (min len (1024 * 1024 - off mod (1024 * 1024))) (drop off d))) rs"
proof -
  obtain k s' r where k: "compress_segment enc dec (segment_path dir i) (1024 * 1024) level s = (Inr k, s')" "\<not> path_exists s' (segment_path dir i)"
    "unified_open dir i s' = (Inr (Cold r (1024 * 1024) None), s')" "cold_reader enc (1024 * 1024) d s' r"
    using compressed_opens [OF assms(1-4)] by blast
  have "is_cold (Cold r (1024 * 1024) None)" by (simp add: is_cold_def)
  then show ?thesis using k only_compress_segment(1) [OF assms(1) k(1)] read_many_cold [OF k(4) assms(4,5)] by blast
qed

theorem compress_then_read_witness:
  "\<exists>s k s' r. fs_wf s \<and> dir_ok s [] \<and> file_holds s (segment_path [] 4) [1, 2, 3] \<and>
    compress_segment Some Some (segment_path [] 4) (1024 * 1024) 3 s = (Inr k, s') \<and> \<not> path_exists s' (segment_path [] 4) \<and>
    unified_open [] 4 s' = (Inr r, s') \<and> is_cold r \<and> read_many Some s' [(1, 1), (0, 2), (2, 5)] r = [Inr [2], Inr [1, 2], Inr [3]]"
proof -
  obtain s where s: "fs_wf s" "dir_ok s []" "file_holds s (segment_path [] 4) [1, 2, 3]" using one_segment by blast
  have "compressible Some Some (1024 * 1024) [1, 2, 3]" by (rule stored_compressible) simp_all
  from compress_then_read [OF s this, of "[(1, 1), (0, 2), (2, 5)]" 3] obtain k s' r where
    "compress_segment Some Some (segment_path [] 4) (1024 * 1024) 3 s = (Inr k, s')" "\<not> path_exists s' (segment_path [] 4)"
    "unified_open [] 4 s' = (Inr r, s')" "is_cold r" "read_many Some s' [(1, 1), (0, 2), (2, 5)] r = [Inr [2], Inr [1, 2], Inr [3]]" by auto
  then show ?thesis using s by blast
qed

text \<open>
  The unified reader does not read the block size from the index but takes it to be
  one megabyte. When a segment was compressed with smaller blocks, which the settings of a table
  and of the manager allow, a read at an offset of the first megabyte behind the first block
  returns no byte, as at the end of the segment, although the segment has bytes there.
\<close>

lemma block_size_hides_data:
  assumes "fs_wf s" "dir_ok s dir" "file_holds s (segment_path dir i) d" "compressible enc dec n d"
    and "n \<le> off" "off < 1024 * 1024" "off < length d"
  shows "\<exists>k s' r. compress_segment enc dec (segment_path dir i) n level s = (Inr k, s') \<and>
    unified_open dir i s' = (Inr r, s') \<and> fst (read_at dec off len s' r) = Inr []"
proof -
  obtain k s' r where k: "compress_segment enc dec (segment_path dir i) n level s = (Inr k, s')"
    "unified_open dir i s' = (Inr (Cold r (1024 * 1024) None), s')" "cold_reader enc n d s' r"
    using compressed_opens [OF assms(1-4)] by blast
  have "fst (read_block_at dec r 0 s') = Inr (take n d)" using cold_block [OF k(3) assms(4), of 0] assms(7) by (cases d) simp_all
  then have "fst (read_at dec off len s' (Cold r (1024 * 1024) None)) = Inr []" using assms(5,6) by (simp add: read_at_def Let_def)
  then show ?thesis using k by blast
qed

section \<open>Compressing a segment of a log\<close>

lemma side_not_segment: "segment_path dir j \<notin> side_files q"
  using side_not_q [of "segment_path dir j" q] by (auto simp: segment_path_def segment_filename_def)

lemma log_holds_compressed:
  assumes "log_holds crc dir sz s L" "compress_segment enc dec (segment_path dir i) n level s = (Inr k, s')"
  shows "log_holds crc dir sz s' (filter (\<lambda>p. fst p \<noteq> i) L)"
proof -
  have wf: "fs_wf s" using assms(1) by (simp add: log_holds_def)
  have o: "only (insert (segment_path dir i) (side_files (segment_path dir i))) s s'" by (rule only_compress_segment(1) [OF wf assms(2)])
  have gone: "lookup_path s' (segment_path dir i) = None"
    using assms(2) by (auto simp: compress_segment_eq bind_def ret_def remove_file_def split: sum.splits prod.splits option.splits)
  have same: "lookup_path s' (segment_path dir j) = lookup_path s (segment_path dir j) \<and>
      (\<forall>a. lookup_path s (segment_path dir j) = Some a \<longrightarrow> fs_data s' a = fs_data s a)" if "j \<noteq> i" for j
  proof -
    have "segment_path dir j \<notin> insert (segment_path dir i) (side_files (segment_path dir i))" using that side_not_segment by (simp add: segment_path_def)
    then show ?thesis using o unfolding only_def by blast
  qed
  have "dir_ok s' dir" "fs_wf s'" using o assms(1) by (simp_all add: only_def log_holds_def dir_ok_def)
  moreover have "sorted (map fst (filter (\<lambda>p. fst p \<noteq> i) L))" "distinct (map fst (filter (\<lambda>p. fst p \<noteq> i) L))"
    using assms(1) by (simp_all add: log_holds_def sorted_filter distinct_map_filter)
  moreover have "lookup_path s' (segment_path dir j) \<noteq> None \<longleftrightarrow> j \<in> fst ` set (filter (\<lambda>p. fst p \<noteq> i) L)" for j
  proof (cases "j = i")
    case False
    then have "lookup_path s' (segment_path dir j) \<noteq> None \<longleftrightarrow> j \<in> fst ` set L" using same assms(1) by (simp add: log_holds_def)
    then show ?thesis using False by (auto simp: image_iff) force
  qed (use gone in auto)
  moreover have "seg_file crc s' dir sz j ms" if "(j, ms) \<in> set L" "j \<noteq> i" for j ms
  proof -
    have "seg_file crc s dir sz j ms" using that(1) assms(1) by (auto simp: log_holds_def)
    then obtain a fl e where a: "lookup_path s (segment_path dir j) = Some a" "sealed fl" "seg_holds crc (fs_data s a) (word_of_nat j) fl sz ms e"
      unfolding seg_file_def by blast
    then have "lookup_path s' (segment_path dir j) = Some a" "fs_data s' a = fs_data s a" using same [OF that(2)] by simp_all
    then show ?thesis using a(2,3) unfolding seg_file_def by metis
  qed
  ultimately show ?thesis by (auto simp: log_holds_def)
qed

text \<open>
  Property C32. The reader of a log does not look for compressed segments. When a segment of a log
  is compressed, which succeeds where the library decompresses what it compressed, a reader that
  is opened afterwards returns the messages of the other segments and then the end of the log,
  with no error for the ones that are missing.
\<close>

theorem compressed_segment_unread:
  assumes "log_holds crc dir sz s L" "sz + 64 \<le> u64_max" "\<forall>j \<in> fst ` set L. j < 1000000000"
    and "file_holds s (segment_path dir i) d" "compressible enc dec n d"
  shows "\<exists>k s' r. compress_segment enc dec (segment_path dir i) n level s = (Inr k, s') \<and>
    log_reader_open dir s' = (Inr r, s') \<and> log_reads crc s' r (concat (map snd (filter (\<lambda>p. fst p \<noteq> i) L)))"
proof -
  have "fs_wf s" "dir_ok s dir" using assms(1) by (simp_all add: log_holds_def)
  then obtain k s' where k: "compress_segment enc dec (segment_path dir i) n level s = (Inr k, s')" using compressed_opens [OF _ _ assms(4,5)] by blast
  have "\<forall>j \<in> fst ` set (filter (\<lambda>p. fst p \<noteq> i) L). j < 1000000000" using assms(3) by auto
  from log_reader_ok [OF log_holds_compressed [OF assms(1) k] assms(2) this] show ?thesis using k by blast
qed

theorem compressed_segment_unread_witness:
  "\<exists>s L k s' r. log_holds (\<lambda>_. 5) [] 256 s L \<and> concat (map snd L) = [new_msg 0 10 1 []] \<and>
    compress_segment Some Some (segment_path [] (fst (hd L))) 64 3 s = (Inr k, s') \<and>
    log_reader_open [] s' = (Inr r, s') \<and> log_reads (\<lambda>_. 5) s' r (concat (map snd (filter (\<lambda>p. fst p \<noteq> fst (hd L)) L)))"
proof -
  have "log_holds (\<lambda>_. 5) [] 256 fs_empty []"
    by (rule log_holds_empty)
      (simp_all add: dir_ok_def is_dir_def fs_wf_empty lookup_path_def, simp_all add: fs_empty_def segment_path_def)
  then obtain s L where sl: "log_holds (\<lambda>_. 5) [] 256 s L" "concat (map snd L) = [new_msg 0 10 1 []]"
    "\<forall>i \<in> fst ` set L. i < 1000000000"
    using log_session_ok [of "\<lambda>_. 5" "[]" 256 fs_empty "[]" "[(1, 10, [])]" True] record_len_eq [of 0]
    by (auto simp: fits_def next_id_def)
  let ?i = "fst (hd L)"
  have "L \<noteq> []" using sl(2) by auto
  then have "(?i, snd (hd L)) \<in> set L" by (cases L) auto
  then have "seg_file (\<lambda>_. 5) s [] 256 ?i (snd (hd L))" using sl(1) by (auto simp: log_holds_def)
  then obtain d where d: "file_holds s (segment_path [] ?i) d" "length d = 256" unfolding seg_file_def seg_holds_def file_holds_def by blast
  then have "compressible Some Some 64 d" by (intro stored_compressible) auto
  from compressed_segment_unread [OF sl(1) _ sl(3) d(1) this, of 3] show ?thesis using sl(1,2) by fastforce
qed

section \<open>A run of the manager\<close>

text \<open>The contents of a sealed segment file.\<close>

definition sealed_contents :: "bytes \<Rightarrow> bool" where
  "sealed_contents d \<longleftrightarrow> 64 \<le> length d \<and> u32_from_le (bslice d 0 4) = SEG_MAGIC \<and> u32_from_le (bslice d 4 8) = SEG_VERSION \<and>
     u32_from_le (bslice d 12 16) AND SEG_FLAG_SEALED \<noteq> 0"

text \<open>A segment file with its contents, or in its place the compressed file and the index.\<close>

definition kept :: "zstd_fun \<Rightarrow> nat \<Rightarrow> fs \<Rightarrow> path \<Rightarrow> bytes \<Rightarrow> bool" where
  "kept enc n s q d \<longleftrightarrow> file_holds s q d \<or>
     sealed_contents d \<and> lookup_path s q = None \<and> zst_pair enc n d s (with_extension q ''q.zst'') (with_extension q ''q.zst.idx'')"

lemma kept_only:
  assumes "kept enc n s q d" "only P s s'" "q \<notin> P" "with_extension q ''q.zst'' \<notin> P" "with_extension q ''q.zst.idx'' \<notin> P"
  shows "kept enc n s' q d"
proof -
  have "lookup_path s' q = lookup_path s q" using assms(2,3) by (simp add: only_def)
  then show ?thesis using assms(1) file_holds_only [OF _ assms(2)] assms(3-5) by (auto simp: kept_def zst_pair_holds)
qed

lemma segment_info_sealed:
  assumes "file_holds s q d"
  shows "\<exists>info. get_segment_info ft now m q s = (Inr info, s) \<and> si_is_sealed info = sealed_contents d"
proof -
  obtain i where i: "lookup_path s q = Some i" "fs_data s i = d" using assms by (auto simp: file_holds_def)
  obtain f where f: "read_segment_flags q s = (f, s)" "(case f of Inl _ \<Rightarrow> False | Inr f \<Rightarrow> f AND SEG_FLAG_SEALED \<noteq> 0) = sealed_contents d"
  proof (cases "64 \<le> length d")
    case True
    have sl: "bslice (bslice d 0 64) 0 4 = bslice d 0 4" "bslice (bslice d 0 64) 4 8 = bslice d 4 8" "bslice (bslice d 0 64) 12 16 = bslice d 12 16"
      by (simp_all add: bslice_def drop_take)
    have "read_exact i 0 64 s = (Inr (bslice d 0 64), s)" using True i(2) by (simp add: read_exact_def)
    then have "read_segment_flags q s = (if u32_from_le (bslice d 0 4) \<noteq> SEG_MAGIC then Inl (Corrupt ''segment magic mismatch'')
        else if u32_from_le (bslice d 4 8) \<noteq> SEG_VERSION then Inl (UnsupportedVersion (u32_from_le (bslice d 4 8))) else Inr (u32_from_le (bslice d 12 16)), s)"
      using i(1) sl by (simp add: read_segment_flags_def bind_def open_read_def fail_def ret_def Let_def)
    from that [OF this] show ?thesis using True by (auto simp: sealed_contents_def)
  next
    case False
    then show ?thesis using that i by (auto simp: read_segment_flags_def bind_def open_read_def read_exact_def sealed_contents_def)
  qed
  then show ?thesis using i by (simp add: get_segment_info_def file_len_def open_read_def bind_def get_def attempt_def ret_def Let_def)
qed

lemma stem_of_q:
  assumes "ends_with name ''.q''"
  shows "file_stem name @ ''.q'' = name \<or> file_stem name = ''.q''"
proof -
  obtain x where x: "name = x @ ''.q''" using assms by (metis append_take_drop_id ends_with_def)
  then show ?thesis by (cases "x = []") (simp_all add: file_stem_def extension_def Let_def)
qed

lemma segment_stem: "file_stem (segment_filename i) = fmt09 i"
  by (simp add: segment_filename_def file_stem_def extension_def Let_def)

lemma fmt09_no_dot: "CHR ''.'' \<notin> set (fmt09 i)"
  using fmt09_ascii [of i] by (auto simp: list_all_iff is_ascii_digit_def)


text \<open>The files of a segment are not touched when another segment file is compressed.\<close>

lemma side_apart:
  assumes "ends_with (last q1) ''.q''" "q1 \<noteq> []" "q1 \<noteq> segment_path dir i" "e \<in> {''q.zst'', ''q.zst.idx''}"
  shows "with_extension (segment_path dir i) e \<notin> insert q1 (side_files q1)"
proof
  assume in1: "with_extension (segment_path dir i) e \<in> insert q1 (side_files q1)"
  have "with_extension (segment_path dir i) e \<in> side_files (segment_path dir i)" using assms(4) by auto
  then have "with_extension (segment_path dir i) e \<noteq> q1" using side_not_q assms(1) by blast
  then obtain e1 where e1: "with_extension (segment_path dir i) e = with_extension q1 e1" "e1 \<in> {''q.zst'', ''q.zst.idx'', ''q.zst.tmp'', ''q.zst.idx.tmp''}"
    using in1 by blast
  then have d: "butlast q1 = dir" "fmt09 i @ CHR ''.'' # e = file_stem (last q1) @ CHR ''.'' # e1" by (simp_all add: with_extension_def segment_path_def segment_stem)
  then have "last (CHR ''.'' # e) = last (CHR ''.'' # e1)" by (metis last_appendR list.distinct(1))
  then have "e = e1 \<or> e = ''q.zst'' \<and> e1 = ''q.zst.idx'' \<or> e = ''q.zst.idx'' \<and> e1 = ''q.zst''" using assms(4) e1(2) by auto
  then have "file_stem (last q1) = fmt09 i" using d(2) by auto
  then have "last q1 = segment_filename i" using stem_of_q [OF assms(1)] fmt09_no_dot [of i] by (auto simp: segment_filename_def)
  then show False using d(1) assms(2,3) by (metis append_butlast_last_id segment_path_def)
qed


lemma only_process:
  assumes "fs_wf s"
  shows "only (insert q (side_files q)) s (snd (snd (process_segment enc dec ft now m q (w, s))))"
proof -
  obtain r s1 where c: "compress_segment enc dec q (lc_block_size (lm_config m)) (lc_compression_level (lm_config m)) s = (r, s1)" by fastforce
  have "snd (snd (process_segment enc dec ft now m q (w, s))) \<in> {s, s1}"
    using readers_same(7) [of ft now m q s] c by (auto simp: process_segment_def bind_on_fs ret_def upd_def split: prod.splits sum.splits)
  then show ?thesis using only_compress_segment(1) [OF assms c] only_refl [OF assms] by auto
qed

lemma process_keeps:
  assumes "fs_wf s" "dir_ok s dir" "kept enc n s (segment_path dir i) d" "sealed_contents d \<Longrightarrow> compressible enc dec n d" "n = lc_block_size (lm_config m)"
    and "ends_with (last q) ''.q''" "q \<noteq> []"
  shows "kept enc n (snd (snd (process_segment enc dec ft now m q (w, s)))) (segment_path dir i) d"
proof (cases "q = segment_path dir i")
  case False
  have "segment_path dir i \<notin> insert q (side_files q)" using False side_not_segment by simp
  then show ?thesis using kept_only [OF assms(3) only_process [OF assms(1)]] side_apart [OF assms(6,7) False] by blast
next
  case True
  let ?z = "with_extension q ''q.zst''" and ?ix = "with_extension q ''q.zst.idx''"
  show ?thesis
  proof (cases "file_holds s q d")
    case False
    then have "lookup_path s q = None" using assms(3) True by (simp add: kept_def)
    then have "\<exists>e. get_segment_info ft now m q s = (Inl e, s)" by (simp add: get_segment_info_def file_len_def open_read_def bind_def)
    then have "snd (snd (process_segment enc dec ft now m q (w, s))) = s" by (auto simp: process_segment_def bind_on_fs)
    then show ?thesis using assms(3) by simp
  next
    case fh: True
    obtain info where info: "get_segment_info ft now m q s = (Inr info, s)" "si_is_sealed info = sealed_contents d" using segment_info_sealed [OF fh] by blast
    have nq: "q \<notin> side_files q" using side_not_q [of q q] assms(6) by blast
    obtain r s1 where c: "compress_segment enc dec q n (lc_compression_level (lm_config m)) s = (r, s1)" by fastforce
    have dirs: "is_dir s (butlast q)" "\<not> is_dir s q" using assms(2) True by (simp_all add: dir_ok_def segment_path_def)
    have "kept enc n s1 q d" if "sealed_contents d"
      using compress_segment_ok [OF assms(1) fh assms(4) [OF that] dirs(1) assms(6) dirs(2), of "lc_compression_level (lm_config m)"] c that
      by (auto simp: kept_def path_exists_def)
    moreover have "kept enc n s q d" using fh by (simp add: kept_def)
    moreover have "snd (snd (process_segment enc dec ft now m q (w, s))) = (if should_compress now (lc_policy (lm_config m)) info then s1 else s)"
      using info(1) c assms(5) by (auto simp: process_segment_def bind_on_fs ret_def upd_def split: sum.splits)
    moreover have "should_compress now (lc_policy (lm_config m)) info \<Longrightarrow> sealed_contents d" using info(2) by (simp add: should_compress_def split: if_splits)
    ultimately show ?thesis using True by (metis (full_types))
  qed
qed

lemma process_all_keeps:
  assumes "fs_wf s" "dir_ok s dir" "kept enc n s (segment_path dir i) d" "sealed_contents d \<Longrightarrow> compressible enc dec n d" "n = lc_block_size (lm_config m)"
    and "\<forall>q \<in> set qs. ends_with (last q) ''.q'' \<and> q \<noteq> []"
  shows "\<exists>w' s'. process_all enc dec ft now m qs (w, s) = (Inr (), w', s') \<and> fs_wf s' \<and> is_dir s' = is_dir s \<and> kept enc n s' (segment_path dir i) d"
  using assms(1-3,6)
proof (induction qs arbitrary: w s)
  case (Cons q qs)
  obtain r w1 s1 where p: "process_segment enc dec ft now m q (w, s) = (r, w1, s1)" by (metis prod_cases3)
  have s1: "fs_wf s1" "is_dir s1 = is_dir s" using only_process [OF Cons.prems(1), of q enc dec ft now m w] p by (simp_all add: only_def)
  then have "dir_ok s1 dir" using Cons.prems(2) by (simp add: dir_ok_def)
  moreover have "kept enc n s1 (segment_path dir i) d" using process_keeps [OF Cons.prems(1-3) assms(4,5), of q ft now w] Cons.prems(4) p by simp
  ultimately have ih: "\<exists>w' s'. process_all enc dec ft now m qs (v, s1) = (Inr (), w', s') \<and> fs_wf s' \<and> is_dir s' = is_dir s1 \<and> kept enc n s' (segment_path dir i) d" for v
    using Cons.IH s1(1) Cons.prems(4) by simp
  have "\<exists>v. process_all enc dec ft now m (q # qs) (w, s) = process_all enc dec ft now m qs (v, s1)"
    using p by (cases r) (auto simp: bind_def attempt_def ret_def upd_def)
  then show ?case using ih s1(2) by metis
qed (simp add: ret_def)

definition q_paths :: "path list \<Rightarrow> bool" where
  "q_paths qs \<longleftrightarrow> (\<forall>q \<in> set qs. ends_with (last q) ''.q'' \<and> q \<noteq> [])"

lemma q_paths_snoc: "q_paths (acc @ [dir @ [name]]) \<longleftrightarrow> q_paths acc \<and> ends_with name ''.q''"
  by (auto simp: q_paths_def)

lemma collect_ends:
  "collect_q_files s dir acc = Inr qs \<Longrightarrow> q_paths acc \<Longrightarrow> q_paths qs"
  "collect_entries s dir es acc = Inr qs \<Longrightarrow> q_paths acc \<Longrightarrow> q_paths qs"
proof (induction s dir acc and s dir es acc arbitrary: qs and qs rule: collect_q_files_collect_entries.induct)
  case (1 s dir acc)
  then show ?case by (simp add: collect_q_files.simps [of s dir acc] split: if_splits)
next
  case (3 s dir name is_file es acc)
  then show ?case by (auto simp: q_paths_snoc split: if_splits sum.splits)
qed simp

lemma only_flush:
  assumes "fs_wf s"
  shows "only {at_dir t @ [''.access_log.tmp''], at_dir t @ [''.access_log'']} s (snd (tracker_flush t s))"
proof (cases "\<not> at_enabled t \<or> Mapping.is_empty (at_cache t)")
  case False
  show ?thesis unfolding tracker_flush_def if_not_P [OF False]
  proof (rule only_bindI)
    fix i s1 assume o: "open_write (at_dir t @ [''.access_log.tmp'']) True s = (Inr i, s1)" "fs_wf s1"
    then have "lookup_path s1 (at_dir t @ [''.access_log.tmp'']) = Some i" using only_open_write(2) [OF assms] by blast
    then have "only {at_dir t @ [''.access_log.tmp''], at_dir t @ [''.access_log'']} s1 (snd (write_all_at i 0 xs s1))" for xs
      using write_all_at_set [of i 0 xs s1] only_set_in [OF o(2)] by (metis insertI1)
    then show "only {at_dir t @ [''.access_log.tmp''], at_dir t @ [''.access_log'']} s1 (snd (bind (write_all_at i 0 (map (\<lambda>e. str_bytes (access_line e)) (Mapping.ordered_entries (at_cache t))))
        (\<lambda>_. rename (at_dir t @ [''.access_log.tmp'']) (at_dir t @ [''.access_log''])) s1))"
      by (intro only_bindI) (simp_all add: only_rename_in)
  qed (simp add: only_open_out assms)
qed (use assms in \<open>auto simp: tracker_flush_def only_pure\<close>)

text \<open>
  Property C24. A run of the manager loses no segment. Whatever the policy, the clock, the times of
  the files and the rest of the directory tree are, and whatever the run reports, a segment file
  that is not sealed has its contents afterwards; a sealed one has them too or, where the library
  decompresses what it compressed, is replaced by the compressed file and its index.
\<close>

theorem run_keeps_segments:
  assumes "fs_wf s" "dir_ok s dir" "file_holds s (segment_path dir i) d"
    and "sealed_contents d \<longrightarrow> compressible enc dec (lc_block_size (lm_config m)) d" "run_once enc dec ft now elapsed m s = (r, s')"
  shows "file_holds s' (segment_path dir i) d \<or> sealed_contents d \<and> lookup_path s' (segment_path dir i) = None \<and>
    zst_pair enc (lc_block_size (lm_config m)) d s' (with_extension (segment_path dir i) ''q.zst'') (with_extension (segment_path dir i) ''q.zst.idx'')"
proof -
  let ?n = "lc_block_size (lm_config m)" and ?q = "segment_path dir i"
  have k: "kept enc ?n s ?q d" using assms(3) by (simp add: kept_def)
  have "kept enc ?n s' ?q d"
  proof (cases "collect_q_files s (lm_root m) []")
    case (Inl e)
    then show ?thesis using assms(5) k by (simp add: run_once_def manage_dir_def)
  next
    case (Inr qs)
    then have qs: "\<forall>q \<in> set qs. ends_with (last q) ''.q'' \<and> q \<noteq> []" using collect_ends(1) by (simp add: q_paths_def)
    obtain w1 s1 where p: "process_all enc dec ft now m qs (stats_new\<lparr>ls_scanned_count := length qs\<rparr>, s) = (Inr (), w1, s1)" "fs_wf s1" "kept enc ?n s1 ?q d"
      using process_all_keeps [OF assms(1,2) k _ refl qs] assms(4) by blast
    have "s' = snd (tracker_flush (lm_access_tracker m) s1)" using assms(5) Inr p(1) by (auto simp: run_once_def manage_dir_def split: prod.splits sum.splits)
    then have o: "only {at_dir (lm_access_tracker m) @ [''.access_log.tmp''], at_dir (lm_access_tracker m) @ [''.access_log'']} s1 s'" using only_flush [OF p(2)] by simp
    show ?thesis
    proof (rule kept_only [OF p(3) o])
      have "last ?q = fmt09 i @ ''.q''" by (simp add: segment_path_def segment_filename_def)
      then have "last (last ?q) = CHR ''q''" by simp
      then show "?q \<notin> {at_dir (lm_access_tracker m) @ [''.access_log.tmp''], at_dir (lm_access_tracker m) @ [''.access_log'']}" by auto
      have "last (last (with_extension ?q ''q.zst'')) = CHR ''t''" "last (last (with_extension ?q ''q.zst.idx'')) = CHR ''x''" by (simp_all add: with_extension_def)
      then show "with_extension ?q ''q.zst'' \<notin> {at_dir (lm_access_tracker m) @ [''.access_log.tmp''], at_dir (lm_access_tracker m) @ [''.access_log'']}"
        "with_extension ?q ''q.zst.idx'' \<notin> {at_dir (lm_access_tracker m) @ [''.access_log.tmp''], at_dir (lm_access_tracker m) @ [''.access_log'']}" by auto
    qed
  qed
  then show ?thesis by (simp add: kept_def)
qed

text \<open>A sealed segment of one header, under the policy that compresses at once.\<close>

theorem run_keeps_segments_witness:
  "\<exists>s m r s'. sealed_contents (bsplice (replicate 128 0) 0 (segment_header_bytes 4 SEG_FLAG_SEALED)) \<and>
    file_holds s (segment_path [] 4) (bsplice (replicate 128 0) 0 (segment_header_bytes 4 SEG_FLAG_SEALED)) \<and>
    lc_policy (lm_config m) = Immediate \<and> run_once Some Some \<lparr>ft_created = \<lambda>_. None, ft_modified = \<lambda>_. None\<rparr> 0 0 m s = (r, s') \<and>
    (file_holds s' (segment_path [] 4) (bsplice (replicate 128 0) 0 (segment_header_bytes 4 SEG_FLAG_SEALED)) \<or>
     lookup_path s' (segment_path [] 4) = None \<and>
     zst_pair Some 64 (bsplice (replicate 128 0) 0 (segment_header_bytes 4 SEG_FLAG_SEALED)) s' (with_extension (segment_path [] 4) ''q.zst'') (with_extension (segment_path [] 4) ''q.zst.idx''))"
proof -
  let ?d = "bsplice (replicate 128 0) 0 (segment_header_bytes 4 SEG_FLAG_SEALED)" and ?ft = "\<lparr>ft_created = \<lambda>_. None, ft_modified = \<lambda>_. None\<rparr>"
  have "seg_hdr ?d 4 SEG_FLAG_SEALED" by (rule seg_hdr_splice) simp
  then have se: "sealed_contents ?d" "64 \<le> length ?d" by (simp_all add: sealed_contents_def seg_hdr_def)
  obtain s where s: "fs_wf s" "dir_ok s []" "file_holds s (segment_path [] 4) ?d" using one_segment by blast
  define m where "m = \<lparr>lm_root = [], lm_config = default_lifecycle_config\<lparr>lc_policy := Immediate, lc_block_size := 64\<rparr>,
    lm_access_tracker = \<lparr>at_dir = [], at_cache = Mapping.empty, at_enabled = False\<rparr>\<rparr>"
  have n: "lc_block_size (lm_config m) = 64" "lc_policy (lm_config m) = Immediate" by (simp_all add: m_def)
  have "length ?d \<le> u64_max" "?d \<noteq> []" using se(2) by (auto simp: bsplice_def segment_header_bytes_def)
  then have c: "sealed_contents ?d \<longrightarrow> compressible Some Some (lc_block_size (lm_config m)) ?d" using n by (simp add: stored_compressible)
  obtain r s' where r: "run_once Some Some ?ft 0 0 m s = (r, s')" by fastforce
  from run_keeps_segments [OF s c r] show ?thesis using s(3) se(1) n r by auto
qed

end
