(* ===== verification/Ipc.thy ===== *)
theory Ipc
  imports Merge Reader_Open Reader_Seek
begin

text \<open>
  \<^verbatim>\<open>src/src/ipc/\<close>: publishers and subscribers, the two-way channel, and the fan-in of several
  subscribers by time. A subscriber is a queue reader together with the queue it reads.
\<close>

section \<open>Publishers and subscribers\<close>

definition publish :: "crc_fun \<Rightarrow> wr_env \<Rightarrow> u64 \<Rightarrow> u16 \<Rightarrow> bytes \<Rightarrow> (queue_writer \<times> queue, unit) io" where
  "publish crc env timestamp_ns type_id payload = append_with_timestamp crc env type_id payload timestamp_ns"

definition sub_recv :: "crc_fun \<Rightarrow> proc_fun \<Rightarrow> int \<Rightarrow> (queue_reader \<times> queue, message option) io" where
  "sub_recv crc proc now = rd_next crc proc now"

definition sub_commit :: "crc_fun \<Rightarrow> int \<Rightarrow> (queue_reader \<times> queue, unit) io" where
  "sub_commit crc now = rd_commit crc now"

section \<open>The two-way channel\<close>

text \<open>The state: the channel, the queue it sends to and the queue it receives from.\<close>

record bidirectional =
  bc_inbox :: queue_reader
  bc_outbox :: queue_writer

type_synonym 'a bc_io = "(bidirectional \<times> queue \<times> queue, 'a) io"

definition on_outbox :: "(queue_writer \<times> queue, 'a) io \<Rightarrow> 'a bc_io" where
  "on_outbox m = (\<lambda>(c, oq, iq). case m (bc_outbox c, oq) of (res, w, oq') \<Rightarrow> (res, c\<lparr>bc_outbox := w\<rparr>, oq', iq))"

definition on_inbox :: "(queue_reader \<times> queue, 'a) io \<Rightarrow> 'a bc_io" where
  "on_inbox m = (\<lambda>(c, oq, iq). case m (bc_inbox c, iq) of (res, r, iq') \<Rightarrow> (res, c\<lparr>bc_inbox := r\<rparr>, oq, iq'))"

definition bc_open ::
  "crc_fun \<Rightarrow> proc_fun \<Rightarrow> nat \<Rightarrow> (bool \<times> bool result) list \<Rightarrow> int \<Rightarrow> path \<Rightarrow> path \<Rightarrow> string \<Rightarrow> writer_config \<Rightarrow> start_mode \<Rightarrow>
   (queue \<times> queue, bidirectional) io" where
  "bc_open crc proc self locks now outbox_path inbox_path reader_name config mode = (\<lambda>(oq, iq).
     case open_publisher crc proc self locks now outbox_path config oq of
       (Inl err, oq') \<Rightarrow> (Inl err, oq', iq)
     | (Inr w, oq') \<Rightarrow>
         (case open_subscriber crc now inbox_path reader_name mode iq of
            (Inl err, iq') \<Rightarrow> (Inl err, oq', iq')
          | (Inr r, iq') \<Rightarrow> (Inr \<lparr>bc_inbox = r, bc_outbox = w\<rparr>, oq', iq')))"

text \<open>The inbox comes first here, and the outbox is only created once there is one.\<close>

definition bc_try_open ::
  "crc_fun \<Rightarrow> proc_fun \<Rightarrow> nat \<Rightarrow> (bool \<times> bool result) list \<Rightarrow> int \<Rightarrow> path \<Rightarrow> path \<Rightarrow> string \<Rightarrow> writer_config \<Rightarrow> start_mode \<Rightarrow>
   (queue \<times> queue, bidirectional option) io" where
  "bc_try_open crc proc self locks now outbox_path inbox_path reader_name config mode = (\<lambda>(oq, iq).
     case try_open_subscriber crc now inbox_path reader_name mode iq of
       (Inl err, iq') \<Rightarrow> (Inl err, oq, iq')
     | (Inr None, iq') \<Rightarrow> (Inr None, oq, iq')
     | (Inr (Some r), iq') \<Rightarrow>
         (case open_publisher crc proc self locks now outbox_path config oq of
            (Inl err, oq') \<Rightarrow> (Inl err, oq', iq')
          | (Inr w, oq') \<Rightarrow> (Inr (Some \<lparr>bc_inbox = r, bc_outbox = w\<rparr>), oq', iq')))"

definition send_outbound :: "crc_fun \<Rightarrow> wr_env \<Rightarrow> u64 \<Rightarrow> u16 \<Rightarrow> bytes \<Rightarrow> unit bc_io" where
  "send_outbound crc env timestamp_ns type_id payload = on_outbox (append_with_timestamp crc env type_id payload timestamp_ns)"

definition recv_inbound :: "crc_fun \<Rightarrow> proc_fun \<Rightarrow> int \<Rightarrow> message option bc_io" where
  "recv_inbound crc proc now = on_inbox (rd_next crc proc now)"

definition commit_inbound :: "crc_fun \<Rightarrow> int \<Rightarrow> unit bc_io" where
  "commit_inbound crc now = on_inbox (rd_commit crc now)"

section \<open>The fan-in\<close>

text \<open>The sources and, for each, the message that has been read and not yet returned.\<close>

record 's fan_in =
  fi_sources :: "'s list"
  fi_pending :: "message option list"

record merged_message =
  mm_source :: nat
  mm_message :: message

definition fi_new :: "'s list \<Rightarrow> 's fan_in result" where
  "fi_new sources =
     (if sources = [] then Inl (Unsupported ''fan-in requires at least one source'')
      else Inr \<lparr>fi_sources = sources, fi_pending = map (\<lambda>_. None) sources\<rparr>)"

definition fi_add_source :: "'s \<Rightarrow> 's fan_in \<Rightarrow> 's fan_in" where
  "fi_add_source source f = f\<lparr>fi_sources := fi_sources f @ [source], fi_pending := fi_pending f @ [None]\<rparr>"

text \<open>The first loop of \<open>next\<close> fills the empty places, and stops at the first error with what it has filled.\<close>

fun fill_pending :: "('s, message option) io \<Rightarrow> 's list \<Rightarrow> message option list \<Rightarrow> unit result \<times> 's list \<times> message option list" where
  "fill_pending recv [] ps = (Inr (), [], ps)"
| "fill_pending recv (s # ss) [] = (Inl (Panic ''index out of bounds''), s # ss, [])"
| "fill_pending recv (s # ss) (Some m # ps) =
     (case fill_pending recv ss ps of (res, ss', ps') \<Rightarrow> (res, s # ss', Some m # ps'))"
| "fill_pending recv (s # ss) (None # ps) =
     (case recv s of
        (Inl err, s') \<Rightarrow> (Inl err, s' # ss, None # ps)
      | (Inr p, s') \<Rightarrow> (case fill_pending recv ss ps of (res, ss', ps') \<Rightarrow> (res, s' # ss', p # ps')))"

text \<open>The second loop looks for the earliest; \<open>index\<close> is that of the head of the list.\<close>

fun find_earliest :: "nat \<Rightarrow> message option list \<Rightarrow> (nat \<times> u64) option \<Rightarrow> (nat \<times> u64) option" where
  "find_earliest index [] best = best"
| "find_earliest index (None # ps) best = find_earliest (index + 1) ps best"
| "find_earliest index (Some msg # ps) best =
     (let timestamp = msg_timestamp_ns msg in
      find_earliest (index + 1) ps
        (case best of
           None \<Rightarrow> Some (index, timestamp)
         | Some (best_index, best_ts) \<Rightarrow>
             if timestamp < best_ts \<or> timestamp = best_ts \<and> index < best_index then Some (index, timestamp) else best))"

definition fi_next :: "('s, message option) io \<Rightarrow> ('s fan_in, merged_message option) io" where
  "fi_next recv = (\<lambda>f.
     case fill_pending recv (fi_sources f) (fi_pending f) of
       (Inl err, ss, ps) \<Rightarrow> (Inl err, \<lparr>fi_sources = ss, fi_pending = ps\<rparr>)
     | (Inr _, ss, ps) \<Rightarrow>
         (case find_earliest 0 ps None of
            None \<Rightarrow> (Inr None, \<lparr>fi_sources = ss, fi_pending = ps\<rparr>)
          | Some (source_idx, _) \<Rightarrow>
              (case ps ! source_idx of
                 None \<Rightarrow> (Inl (Corrupt ''pending message missing''), \<lparr>fi_sources = ss, fi_pending = ps\<rparr>)
               | Some msg \<Rightarrow>
                   (Inr (Some \<lparr>mm_source = source_idx, mm_message = msg\<rparr>),
                    \<lparr>fi_sources = ss, fi_pending = ps[source_idx := None]\<rparr>))))"

definition fi_commit :: "('s, unit) io \<Rightarrow> nat \<Rightarrow> ('s fan_in, unit) io" where
  "fi_commit commit source = (\<lambda>f.
     if source < length (fi_sources f) then
       (case commit (fi_sources f ! source) of (res, s') \<Rightarrow> (res, f\<lparr>fi_sources := (fi_sources f)[source := s']\<rparr>))
     else (Inl (Unsupported ''invalid fan-in source index''), f))"

fun commit_each :: "('s, unit) io \<Rightarrow> ('s list, unit) io" where
  "commit_each commit [] = (Inr (), [])"
| "commit_each commit (s # ss) =
     (case commit s of
        (Inl err, s') \<Rightarrow> (Inl err, s' # ss)
      | (Inr _, s') \<Rightarrow> (case commit_each commit ss of (res, ss') \<Rightarrow> (res, s' # ss')))"

definition fi_commit_all :: "('s, unit) io \<Rightarrow> ('s fan_in, unit) io" where
  "fi_commit_all commit = (\<lambda>f. case commit_each commit (fi_sources f) of (res, ss) \<Rightarrow> (res, f\<lparr>fi_sources := ss\<rparr>))"

definition pending_count :: "'s fan_in \<Rightarrow> nat" where
  "pending_count f = length (filter (\<lambda>p. p \<noteq> None) (fi_pending f))"

section \<open>The search for the earliest\<close>

fun heads_from :: "nat \<Rightarrow> message option list \<Rightarrow> (u64 \<times> nat) list" where
  "heads_from k [] = []"
| "heads_from k (None # ps) = heads_from (k + 1) ps"
| "heads_from k (Some m # ps) = (msg_timestamp_ns m, k) # heads_from (k + 1) ps"

definition earliest_of :: "(u64 \<times> nat) list \<Rightarrow> (nat \<times> u64) option" where
  "earliest_of xs = (if xs = [] then None else Some (prod.swap (Min (set xs))))"

lemma find_earliest_eq:
  assumes "\<And>i t. best = Some (i, t) \<Longrightarrow> i < k"
  shows "find_earliest k ps best = earliest_of ((case best of None \<Rightarrow> [] | Some (i, t) \<Rightarrow> [(t, i)]) @ heads_from k ps)"
  using assms
proof (induction k ps best rule: find_earliest.induct)
  case (1 k best)
  then show ?case by (cases best) (auto simp: earliest_of_def)
next
  case (2 k ps best)
  then show ?case by (simp add: less_Suc_eq)
next
  case (3 k m ps best)
  let ?t = "msg_timestamp_ns m"
  show ?case
  proof (cases best)
    case None
    then show ?thesis using "3.IH" [OF refl] by (simp add: Let_def)
  next
    case (Some b)
    obtain i t where b: "b = (i, t)" by (cases b)
    have "i < k" using "3.prems" Some b by blast
    let ?best = "if ?t < t \<or> ?t = t \<and> k < i then Some (k, ?t) else best"
    have "find_earliest k (Some m # ps) best = find_earliest (k + 1) ps ?best" using Some b by (simp add: Let_def)
    also have "\<dots> = earliest_of ([min (t, i) (?t, k)] @ heads_from (k + 1) ps)"
    proof (cases "?t < t")
      case True
      then have "?best = Some (k, ?t)" "min (t, i) (?t, k) = (?t, k)" by (auto simp: min_def)
      then show ?thesis using "3.IH" [OF refl] True Some b by (simp add: Let_def)
    next
      case False
      then have "?best = best" "min (t, i) (?t, k) = (t, i)" using \<open>i < k\<close> by (auto simp: min_def)
      then show ?thesis using "3.IH" [OF refl] False \<open>i < k\<close> Some b by (simp add: Let_def)
    qed
    also have "\<dots> = earliest_of ((t, i) # (?t, k) # heads_from (k + 1) ps)"
      by (cases "heads_from (k + 1) ps = []") (simp_all add: earliest_of_def min.assoc)
    finally show ?thesis using Some b by simp
  qed
qed

abbreviation head_of :: "message list \<Rightarrow> message option" where
  "head_of r \<equiv> (case r of [] \<Rightarrow> None | m # _ \<Rightarrow> Some m)"

lemma set_heads_from: "set (heads_from k (map head_of runs)) = (\<lambda>(t, i). (t, k + i)) ` run_heads runs"
proof (induction runs arbitrary: k)
  case Nil
  then show ?case by (simp add: run_heads_def)
next
  case (Cons r runs)
  have "run_heads (r # runs) = (case r of [] \<Rightarrow> {} | m # _ \<Rightarrow> {(msg_timestamp_ns m, 0)}) \<union> (\<lambda>(t, i). (t, Suc i)) ` run_heads runs"
    by (auto simp: run_heads_def less_Suc_eq_0_disj image_iff split: list.splits)
  then show ?case using Cons [of "k + 1"] by (simp add: image_image image_Un case_prod_beta split: list.splits)
qed

lemma find_earliest_pick:
  "find_earliest 0 (map head_of runs) None = map_option (\<lambda>i. (i, msg_timestamp_ns (hd (runs ! i)))) (merge_pick runs)"
proof -
  let ?xs = "heads_from 0 (map head_of runs)"
  have xs: "set ?xs = run_heads runs" using set_heads_from [of 0 runs] by (simp add: image_iff)
  have e: "find_earliest 0 (map head_of runs) None = earliest_of ?xs" using find_earliest_eq [of None 0] by simp
  show ?thesis
  proof (cases "merge_pick runs")
    case None
    then have "?xs = []" using xs by (auto simp: merge_pick_def split: if_splits)
    then show ?thesis using None e by (simp add: earliest_of_def)
  next
    case (Some i)
    then have ne: "run_heads runs \<noteq> {}" "i = snd (Min (run_heads runs))" by (auto simp: merge_pick_def split: if_splits)
    obtain t where t: "Min (run_heads runs) = (t, i)" using ne(2) by (metis prod.collapse)
    then have "t = msg_timestamp_ns (hd (runs ! i))" using Min_in [OF finite_run_heads ne(1)] by (auto elim!: run_headsE)
    then show ?thesis using e xs ne(1) t Some by (auto simp: earliest_of_def)
  qed
qed

section \<open>What a fan-in holds\<close>

definition fi_holds :: "(nat \<Rightarrow> 's \<Rightarrow> message list \<Rightarrow> bool) \<Rightarrow> 's fan_in \<Rightarrow> message list list \<Rightarrow> bool" where
  "fi_holds pend f runs \<longleftrightarrow> length (fi_sources f) = length runs \<and> length (fi_pending f) = length runs \<and>
     (\<forall>i < length runs. slot_holds (pend i) (fi_pending f ! i) (fi_sources f ! i) (runs ! i))"

context source_family
begin

lemma fill_slot:
  assumes "slot_holds (pend i) None s r"
  shows "\<exists>s'. recv s = (Inr (head_of r), s') \<and> pend i s' (tl r)"
  using assms recv_end [of i s] recv_some [of i s] by (cases r) (auto simp: slot_holds_def)

lemma fill_pending_ok:
  assumes "length ss = length runs" "length ps = length runs"
    and "\<forall>i < length runs. slot_holds (pend (k + i)) (ps ! i) (ss ! i) (runs ! i)"
  shows "\<exists>ss'. fill_pending recv ss ps = (Inr (), ss', map head_of runs) \<and> length ss' = length runs \<and>
    (\<forall>i < length runs. pend (k + i) (ss' ! i) (tl (runs ! i)))"
  using assms
proof (induction runs arbitrary: ss ps k)
  case (Cons r rs)
  obtain s ss1 p ps1 where l: "ss = s # ss1" "ps = p # ps1" using Cons.prems(1,2) by (cases ss; cases ps) auto
  have hd: "slot_holds (pend k) p s r" using Cons.prems(3) l by (auto dest: spec [of _ 0])
  have "\<forall>i < length rs. slot_holds (pend (Suc k + i)) (ps1 ! i) (ss1 ! i) (rs ! i)" using Cons.prems(3) l by (auto dest: spec [of _ "Suc _"])
  then obtain ss' where ss': "fill_pending recv ss1 ps1 = (Inr (), ss', map head_of rs)" "length ss' = length rs"
    "\<forall>i < length rs. pend (Suc k + i) (ss' ! i) (tl (rs ! i))"
    using Cons.IH [of ss1 ps1 "Suc k"] Cons.prems(1,2) l by auto
  show ?case
  proof (cases p)
    case None
    obtain s' where "recv s = (Inr (head_of r), s')" "pend k s' (tl r)" using fill_slot [of k s r] hd None by blast
    then show ?thesis using ss' l None by (auto simp: less_Suc_eq_0_disj)
  next
    case (Some m)
    then show ?thesis using hd ss' l by (auto simp: less_Suc_eq_0_disj slot_holds_def)
  qed
qed simp

lemma fi_next_ok:
  assumes "fi_holds pend f runs"
  shows "case merge_pick runs of
      None \<Rightarrow> \<exists>f'. fi_next recv f = (Inr None, f') \<and> fi_holds pend f' runs
    | Some i \<Rightarrow> \<exists>f'. fi_next recv f = (Inr (Some \<lparr>mm_source = i, mm_message = hd (runs ! i)\<rparr>), f') \<and> fi_holds pend f' (runs[i := tl (runs ! i)]) \<and>
        (\<forall>j < length runs. pend j (fi_sources f' ! j) (tl (runs ! j)))"
proof -
  obtain ss where ss: "fill_pending recv (fi_sources f) (fi_pending f) = (Inr (), ss, map head_of runs)" "length ss = length runs"
    "\<forall>i < length runs. pend i (ss ! i) (tl (runs ! i))"
    using fill_pending_ok [of "fi_sources f" runs "fi_pending f" 0] assms by (auto simp: fi_holds_def)
  have slot: "slot_holds (pend j) (head_of (runs ! j)) (ss ! j) (runs ! j)" if "j < length runs" for j
    using ss(3) that by (cases "runs ! j") (auto simp: slot_holds_def dest: spec [of _ j])
  show ?thesis
  proof (cases "merge_pick runs")
    case None
    then show ?thesis using ss slot by (auto simp: fi_next_def find_earliest_pick fi_holds_def)
  next
    case (Some i)
    obtain m ms where m: "i < length runs" "runs ! i = m # ms" by (rule merge_pickE [OF Some])
    let ?f = "\<lparr>fi_sources = ss, fi_pending = (map head_of runs)[i := None]\<rparr>"
    have "fi_next recv f = (Inr (Some \<lparr>mm_source = i, mm_message = m\<rparr>), ?f)"
      using ss(1) Some m by (simp add: fi_next_def find_earliest_pick)
    moreover have "fi_holds pend ?f (runs[i := ms])"
      using ss(2,3) slot m by (auto simp: fi_holds_def nth_list_update slot_holds_def dest: spec [of _ i])
    ultimately show ?thesis using Some m ss(3) by auto
  qed
qed

sublocale merge_source "fi_holds pend" "fi_next recv" "\<lambda>(i, m). \<lparr>mm_source = i, mm_message = m\<rparr>"
proof (unfold_locales, goal_cases)
  case (1 s runs)
  then show ?case using fi_next_ok [OF 1(1)] by auto
next
  case (2 s runs i m ms)
  then show ?case using fi_next_ok [OF 2(1)] by auto
qed

lemma fi_new_holds:
  assumes "fi_new ss = Inr f" "length ss = length runs" "\<forall>i < length runs. pend i (ss ! i) (runs ! i)"
  shows "fi_holds pend f runs"
  using assms by (auto simp: fi_new_def fi_holds_def slot_holds_def split: if_splits)

end

interpretation queue_family: source_family "\<lambda>i. rd_pending crc (bases i) (segss i) (curs i)" "sub_recv crc proc now" for crc bases segss curs proc now
proof (unfold_locales, goal_cases)
  case (1 i x)
  then show ?case using rd_next_pending [of crc "bases i" "segss i" "curs i" "fst x" "snd x" "[]" proc now] by (auto simp: sub_recv_def)
next
  case (2 i x m ms)
  then show ?case using rd_next_pending [of crc "bases i" "segss i" "curs i" "fst x" "snd x" "m # ms" proc now] by (auto simp: sub_recv_def)
qed

section \<open>The fan-in of queues\<close>

abbreviation merged :: "nat \<times> message \<Rightarrow> merged_message" where
  "merged \<equiv> \<lambda>(i, m). \<lparr>mm_source = i, mm_message = m\<rparr>"

text \<open>
  Property C9. The fan-in merges its sources. Over queues that have still to return the messages
  \<open>runs ! 0\<close>, \<open>runs ! 1\<close>, and so on, successive calls of \<open>next\<close> return the reference merge and then
  nothing: each message once with the number of its source, those of one source in their order;
  and when every queue is in order of time, so is the result, with the lower source first among
  equal times.
\<close>

theorem fan_in_merges:
  assumes "fi_new xs = Inr f" "length xs = length runs"
    and "\<forall>i < length runs. rd_pending crc (bases i) (segss i) (curs i) (xs ! i) (runs ! i)"
  shows "reads (fi_next (sub_recv crc proc now)) f (map merged (merge_runs runs)) \<and>
    (\<forall>i < length runs. map snd (filter (\<lambda>(j, _). j = i) (merge_runs runs)) = runs ! i) \<and>
    ((\<forall>r \<in> set runs. in_time r) \<longrightarrow> merge_order (merge_runs runs))"
  using queue_family.reads_merge [OF queue_family.fi_new_holds [OF assms], of proc now] merge_runs_source merge_runs_sorted by blast

definition demo_late :: message where
  "demo_late = \<lparr>msg_seq = 0, msg_timestamp_ns = 12, msg_type_id = 7, msg_payload = [4]\<rparr>"

lemma demo_runs: "merge_runs [[demo_late], [demo_msg]] = [(1, demo_msg), (0, demo_late)]"
proof -
  have a: "merge_pick [[demo_late], [demo_msg]] = Some 1"
    by (rule merge_pickI [where m = demo_msg]) (auto simp: demo_msg_def demo_late_def less_Suc_eq nth_Cons')
  have b: "merge_pick [[demo_late], []] = Some 0"
    by (rule merge_pickI [where m = demo_late]) (auto simp: less_Suc_eq nth_Cons' split: if_splits)
  have c: "merge_pick [[], []] = None" by (simp add: merge_pick_None)
  show ?thesis using merge_runs_simps(2) [OF a] merge_runs_simps(2) [OF b] merge_runs_simps(1) [OF c] by simp
qed

theorem fan_in_merges_witness:
  "\<exists>f. fi_new [(one_reader, one_queue demo_late), (one_reader, one_queue demo_msg)] = Inr f \<and>
     reads (fi_next (sub_recv (\<lambda>_. 5) demo_proc 0)) f [merged (1, demo_msg), merged (0, demo_late)]"
proof -
  let ?xs = "[(one_reader, one_queue demo_late), (one_reader, one_queue demo_msg)]" and ?runs = "[[demo_late], [demo_msg]]"
  obtain f where f: "fi_new ?xs = Inr f" by (simp add: fi_new_def)
  have "\<forall>i < length ?runs. rd_pending (\<lambda>_. 5) 5 [] (map Msg (?runs ! i)) (?xs ! i) (?runs ! i)"
    using one_queue_pending [of demo_late] one_queue_pending [of demo_msg]
    by (simp add: less_Suc_eq nth_Cons') (simp add: demo_late_def demo_msg_def)
  then show ?thesis
    using fan_in_merges [OF f, of ?runs "\<lambda>_. 5" "\<lambda>_. 5" "\<lambda>_. []" "\<lambda>i. map Msg (?runs ! i)" demo_proc 0] f demo_runs by simp
qed

section \<open>Saving the positions\<close>

text \<open>
  Property C31. Saving the positions of a fan-in skips messages. A fan-in of two queues that has
  returned the message of the first one holds back that of the second. \<open>commit_all\<close> then saves for
  the second queue the position behind that message, although it was never returned: a reader
  that resumes there does not return it any more.
\<close>

theorem fan_in_commit_skips:
  assumes "fi_new [(r0, q0), (r1, q1)] = Inr f" "msg_timestamp_ns m0 \<le> msg_timestamp_ns m1" "name1 \<noteq> []"
    and p0: "rd_pending crc base0 segs0 cur0 (r0, q0) (m0 # ms0)" and p1: "rd_pending crc base1 segs1 cur1 (r1, q1) (m1 # ms1)"
    and s0: "rd_saved crc name0 (r0, q0)" and s1: "rd_saved crc name1 (r1, q1)"
    and g: "rm_generation (rd_meta r0) + 1 < u64_max" "rm_generation (rd_meta r1) + 1 < u64_max"
    and c: "q_ctrl q1 = Some b" "wait_ready b = Inr ()" and n: "system_now_ns now = Inr t" "system_now_ns now2 = Inr t2"
  shows "\<exists>f1 f2 r2 q2. fi_next (sub_recv crc proc now) f = (Inr (Some (merged (0, m0))), f1) \<and>
    fi_commit_all (sub_commit crc now) f1 = (Inr (), f2) \<and>
    open_subscriber crc now2 (rd_path r1) name1 ResumeStrict (snd (fi_sources f2 ! 1)) = (Inr r2, q2) \<and>
    rd_pending crc base1 segs1 cur1 (r2, q2) ms1"
proof -
  have f: "f = \<lparr>fi_sources = [(r0, q0), (r1, q1)], fi_pending = [None, None]\<rparr>" using assms(1) by (simp add: fi_new_def)
  obtain r0' where n0: "rd_next crc proc now (r0, q0) = (Inr (Some m0), r0', q0)" "rd_pending crc base0 segs0 cur0 (r0', q0) ms0" "same_reader r0 r0'"
    using rd_next_pending [OF p0, of proc now] by auto
  obtain r1' where n1: "rd_next crc proc now (r1, q1) = (Inr (Some m1), r1', q1)" "rd_pending crc base1 segs1 cur1 (r1', q1) ms1" "same_reader r1 r1'"
    using rd_next_pending [OF p1, of proc now] by auto
  let ?f1 = "\<lparr>fi_sources = [(r0', q0), (r1', q1)], fi_pending = [None, Some m1]\<rparr>"
  have next0: "fi_next (sub_recv crc proc now) f = (Inr (Some (merged (0, m0))), ?f1)"
    using n0(1) n1(1) assms(2) by (simp add: fi_next_def f sub_recv_def Let_def)
  have v: "rd_saved crc name0 (r0', q0)" "rd_meta r0' = rd_meta r0" "rd_saved crc name1 (r1', q1)" "rd_meta r1' = rd_meta r1" "rd_path r1' = rd_path r1"
    using s0 s1 n0(3) n1(3) by (auto simp: rd_saved_def same_reader_def)
  obtain k pre where "rd_at crc base0 segs0 cur0 k pre (r0', q0)" using n0(2) by (auto simp: rd_pending_def)
  then obtain x0 where c0: "rd_commit crc now (r0', q0) = (Inr (), x0)" using rd_commit_ok [OF _ v(1) _ n(1)] g(1) v(2) by fastforce
  have g1: "rm_generation (rd_meta r1') + 1 < u64_max" using g(2) v(4) by simp
  obtain r3 q3 r2 q2 where c1: "rd_commit crc now (r1', q1) = (Inr (), r3, q3)" "open_subscriber crc now2 (rd_path r1') name1 ResumeStrict q3 = (Inr r2, q2)"
    "rd_pending crc base1 segs1 cur1 (r2, q2) ms1"
    using commit_resumes [OF n1(2) v(3) g1 assms(3) c n, of ResumeStrict] by auto
  have "fi_commit_all (sub_commit crc now) ?f1 = (Inr (), ?f1\<lparr>fi_sources := [x0, (r3, q3)]\<rparr>)"
    using c0 c1(1) by (simp add: fi_commit_all_def sub_commit_def)
  then show ?thesis using next0 c1(2,3) v(5) by (intro exI [of _ ?f1] exI [of _ "?f1\<lparr>fi_sources := [x0, (r3, q3)]\<rparr>"] exI [of _ r2] exI [of _ q2]) simp
qed

theorem fan_in_commit_skips_witness:
  "\<exists>f f1 f2 r2 q2. fi_new [(one_reader, one_queue demo_msg), (one_reader, one_queue demo_late)] = Inr f \<and>
     fi_next (sub_recv (\<lambda>_. 5) demo_proc 1000) f = (Inr (Some (merged (0, demo_msg))), f1) \<and> fi_commit_all (sub_commit (\<lambda>_. 5) 1000) f1 = (Inr (), f2) \<and>
     open_subscriber (\<lambda>_. 5) 2000 [] ''a'' ResumeStrict (snd (fi_sources f2 ! 1)) = (Inr r2, q2) \<and> rd_pending (\<lambda>_. 5) 5 [] [Msg demo_late] (r2, q2) []"
proof -
  obtain f where f: "fi_new [(one_reader, one_queue demo_msg), (one_reader, one_queue demo_late)] = Inr f" by (simp add: fi_new_def)
  have p: "rd_pending (\<lambda>_. 5) 5 [] [Msg demo_msg] (one_reader, one_queue demo_msg) [demo_msg]"
    "rd_pending (\<lambda>_. 5) 5 [] [Msg demo_late] (one_reader, one_queue demo_late) [demo_late]"
    by (rule one_queue_pending, simp_all add: demo_late_def demo_msg_def)+
  show ?thesis
    using fan_in_commit_skips [OF f _ _ p(1,2) one_queue_saved one_queue_saved _ _ _ _ _ _, of "cb_create 5 (64 + entry_len (Msg demo_late)) 3 256" 1000 1000 2000 2000 demo_proc]
      f p
    by (simp add: demo_reader_def system_now_ns_def wait_ready_def cb_create_def one_queue_def) (simp add: demo_msg_def demo_late_def)
qed

end
