(* ===== verification/Bus.thy ===== *)
theory Bus
  imports Ipc Table
begin

text \<open>
  \<^verbatim>\<open>src/src/bus/\<close>: leases, the markers by which an endpoint says that it is ready, the registration of
  readers, and the subscriber that polls for its queue.
\<close>

section \<open>Marker files\<close>

definition write_lease :: "path \<Rightarrow> bytes \<Rightarrow> (fs, unit) io" where
  "write_lease endpoint_dir payload =
     bind (modify (create_dir_all endpoint_dir)) (\<lambda>_. fs_write (endpoint_dir @ [''LEASE'']) payload)"

definition mark_ready :: "path \<Rightarrow> (fs, unit) io" where
  "mark_ready endpoint_dir =
     bind (modify (create_dir_all endpoint_dir)) (\<lambda>_.
     bind (fs_write (endpoint_dir @ [''READY.tmp'']) []) (\<lambda>_.
     rename (endpoint_dir @ [''READY.tmp'']) (endpoint_dir @ [''READY''])))"

definition is_ready :: "path \<Rightarrow> fs \<Rightarrow> bool" where
  "is_ready endpoint_dir s \<longleftrightarrow> lookup_path s (endpoint_dir @ [''READY'']) \<noteq> None"

section \<open>Registration of a reader\<close>

record reader_registration =
  rr_reader_name :: string
  rr_meta_path :: path

definition register :: "path \<Rightarrow> string \<Rightarrow> (fs, reader_registration) io" where
  "register queue_dir reader_name =
     (if reader_name = [] then fail (Io OtherIo)
      else let readers_dir = queue_dir @ [''readers''] in
           bind (modify (create_dir_all readers_dir)) (\<lambda>_.
           ret \<lparr>rr_reader_name = reader_name, rr_meta_path = path_join readers_dir (reader_name @ ''.meta'')\<rparr>))"

definition rr_drop :: "reader_registration \<Rightarrow> (fs, unit) io" where
  "rr_drop r = bind (attempt (remove_file (rr_meta_path r))) (\<lambda>_. ret ())"

section \<open>Waiting for a queue\<close>

text \<open>Times are nanoseconds; \<open>now\<close> is the reading of the monotonic clock.\<close>

record subscriber_config =
  su_poll_interval :: nat
  su_writer_ttl :: nat
  su_start_mode :: start_mode

definition default_subscriber_config :: subscriber_config where
  "default_subscriber_config = \<lparr>su_poll_interval = 500000000, su_writer_ttl = 5000000000, su_start_mode = ResumeStrict\<rparr>"

datatype subscriber_event = Connected queue_reader | Disconnected disconnect_reason | Waiting

record subscriber_discovery =
  sd_path :: path
  sd_reader :: string
  sd_config :: subscriber_config
  sd_last_poll :: "nat option"

definition sd_new :: "path \<Rightarrow> string \<Rightarrow> subscriber_config \<Rightarrow> subscriber_discovery" where
  "sd_new p reader config = \<lparr>sd_path = p, sd_reader = reader, sd_config = config, sd_last_poll = None\<rparr>"

definition should_poll :: "nat \<Rightarrow> subscriber_discovery \<Rightarrow> bool" where
  "should_poll now d =
     (if su_poll_interval (sd_config d) = 0 then True
      else case sd_last_poll d of None \<Rightarrow> True | Some last_poll \<Rightarrow> now - last_poll \<ge> su_poll_interval (sd_config d))"

definition sd_poll ::
  "crc_fun \<Rightarrow> proc_fun \<Rightarrow> int \<Rightarrow> nat \<Rightarrow> queue_reader option \<Rightarrow> (subscriber_discovery \<times> queue, subscriber_event list) io" where
  "sd_poll crc proc system_now now current = (\<lambda>(d, q).
     if \<not> should_poll now d then (Inr [], d, q)
     else let d = d\<lparr>sd_last_poll := Some now\<rparr> in
       case current of
         Some reader \<Rightarrow>
           (case detect_disconnect proc system_now (su_writer_ttl (sd_config d)) (reader, q) of
              (Inl e, _, q') \<Rightarrow> (Inl e, d, q')
            | (Inr None, _, q') \<Rightarrow> (Inr [], d, q')
            | (Inr (Some reason), _, q') \<Rightarrow> (Inr [Disconnected reason], d, q'))
       | None \<Rightarrow>
           (case try_open_subscriber crc system_now (sd_path d) (sd_reader d) (su_start_mode (sd_config d)) q of
              (Inl e, q') \<Rightarrow> (Inl e, d, q')
            | (Inr (Some reader), q') \<Rightarrow> (Inr [Connected reader], d, q')
            | (Inr None, q') \<Rightarrow> (Inr [Waiting], d, q')))"

section \<open>Lemmas\<close>

text \<open>Marking ready makes the directory and the marker, and touches no other file than the marker and its temporary.\<close>

lemma mark_ready_ok:
  assumes "fs_wf s"
  shows "\<exists>s'. mark_ready dir s = (Inr (), s') \<and> is_ready dir s' \<and> fs_wf s' \<and> (\<forall>d. is_dir s' d \<longleftrightarrow> is_dir s d \<or> (\<exists>n. d = take n dir)) \<and>
    (\<forall>p. p \<noteq> dir @ [''READY''] \<longrightarrow> p \<noteq> dir @ [''READY.tmp''] \<longrightarrow> lookup_path s' p = lookup_path s p)"
proof -
  let ?s = "create_dir_all dir s" and ?t = "dir @ [''READY.tmp'']" and ?r = "dir @ [''READY'']"
  have "is_dir ?s (butlast ?t)" by (auto simp: is_dir_create_dir_all intro: exI [of _ "length dir"])
  from fs_write_ok [OF this, of "[]"] assms obtain i s1 where s1: "fs_write ?t [] ?s = (Inr (), s1)" "lookup_path s1 ?t = Some i" "is_dir s1 = is_dir ?s"
    "fs_wf s1" "\<And>q. q \<noteq> ?t \<Longrightarrow> lookup_path s1 q = lookup_path ?s q" by auto
  then have "mark_ready dir s = (Inr (), fs_link ?r i (fs_unlink ?t s1))" by (simp add: mark_ready_def bind_def modify_def rename_def)
  moreover have "fs_wf (fs_link ?r i (fs_unlink ?t s1))" using fs_wf_rename [OF s1(4) s1(2)] by simp
  moreover have "is_dir (fs_link ?r i (fs_unlink ?t s1)) d \<longleftrightarrow> is_dir s d \<or> (\<exists>n. d = take n dir)" for d
    using s1(3) by (simp add: is_dir_create_dir_all)
  moreover have "is_ready dir (fs_link ?r i (fs_unlink ?t s1))" by (simp add: is_ready_def)
  moreover have "p \<noteq> ?r \<Longrightarrow> p \<noteq> ?t \<Longrightarrow> lookup_path (fs_link ?r i (fs_unlink ?t s1)) p = lookup_path s p" for p using s1(5) by simp
  ultimately show ?thesis by blast
qed

end
