(* ===== verification/Trading.thy ===== *)
theory Trading
  imports Bus
begin

text \<open>
  \<^verbatim>\<open>src/src/trading/\<close>: the layout of the directories, the discovery of strategies by a router, and the
  channels between the two. A channel's state is the channel and its two queues.
\<close>

section \<open>Paths\<close>

datatype path_error = EmptyComponent string | InvalidComponent string string

definition validate_component :: "string \<Rightarrow> string \<Rightarrow> path_error + unit" where
  "validate_component field v =
     (if v = [] then Inl (EmptyComponent field)
      else if v = ''.'' \<or> v = ''..'' \<or> CHR ''/'' \<in> set v \<or> CHR 0x5C \<in> set v then Inl (InvalidComponent field v)
      else if CHR 0x00 \<in> set v then Inl (InvalidComponent field v)
      else Inr ())"

definition strategy_orders_out_path :: "path \<Rightarrow> string \<Rightarrow> path_error + path" where
  "strategy_orders_out_path root strategy_id =
     (case validate_component ''strategy_id'' strategy_id of
        Inl e \<Rightarrow> Inl e
      | Inr _ \<Rightarrow> Inr (path_join (path_join (path_join (path_join root ''orders'') ''queue'') strategy_id) ''orders_out''))"

definition strategy_orders_in_path :: "path \<Rightarrow> string \<Rightarrow> path_error + path" where
  "strategy_orders_in_path root strategy_id =
     (case validate_component ''strategy_id'' strategy_id of
        Inl e \<Rightarrow> Inl e
      | Inr _ \<Rightarrow> Inr (path_join (path_join (path_join (path_join root ''orders'') ''queue'') strategy_id) ''orders_in''))"

definition orders_root_path :: "path \<Rightarrow> path" where
  "orders_root_path root = path_join (path_join root ''orders'') ''queue''"

definition raw_feed_path :: "path \<Rightarrow> string \<Rightarrow> path_error + path" where
  "raw_feed_path root venue =
     (case validate_component ''venue'' venue of
        Inl e \<Rightarrow> Inl e
      | Inr _ \<Rightarrow> Inr (path_join (path_join (path_join (path_join root ''streams'') ''raw'') venue) ''queue''))"

definition clean_stream_path :: "path \<Rightarrow> string \<Rightarrow> string \<Rightarrow> string \<Rightarrow> path_error + path" where
  "clean_stream_path root venue symbol stream =
     (case validate_component ''venue'' venue of
        Inl e \<Rightarrow> Inl e
      | Inr _ \<Rightarrow>
     (case validate_component ''symbol'' symbol of
        Inl e \<Rightarrow> Inl e
      | Inr _ \<Rightarrow>
     (case validate_component ''stream'' stream of
        Inl e \<Rightarrow> Inl e
      | Inr _ \<Rightarrow> Inr (path_join (path_join (path_join (path_join (path_join (path_join root ''streams'') ''clean'') venue) symbol) stream) ''queue''))))"

section \<open>Discovery\<close>

record strategy_endpoints =
  se_strategy_id :: string
  se_orders_out :: path
  se_orders_in :: path

datatype discovery_event = Added string path | Removed string

record router_discovery =
  di_root :: path
  di_known :: "string set"
  di_poll_interval :: nat

definition di_new :: "path \<Rightarrow> router_discovery" where
  "di_new root = \<lparr>di_root = root, di_known = {}, di_poll_interval = 100000000\<rparr>"

definition di_set_interval :: "nat \<Rightarrow> router_discovery \<Rightarrow> router_discovery" where
  "di_set_interval interval d = d\<lparr>di_poll_interval := interval\<rparr>"

definition ready_names :: "path \<Rightarrow> fs \<Rightarrow> (string \<times> bool) list \<Rightarrow> string set" where
  "ready_names orders_queue s entries =
     set (List.map_filter (\<lambda>(name, _). let p = orders_queue @ [name] in
       if \<not> is_dir s p then None else if is_ready (p @ [''orders_out'']) s then Some name else None) entries)"

definition scan_ready_strategies :: "path \<Rightarrow> fs \<Rightarrow> string set result" where
  "scan_ready_strategies root s =
     (let orders_queue = orders_root_path root in
      if \<not> path_exists s orders_queue then Inr {}
      else if \<not> is_dir s orders_queue then Inl (Io OtherIo)
      else Inr (ready_names orders_queue s (read_dir orders_queue s)))"

text \<open>The order in which a hash set is walked is an argument.\<close>

definition di_poll :: "(string set \<Rightarrow> string list) \<Rightarrow> fs \<Rightarrow> router_discovery \<Rightarrow> discovery_event list result \<times> router_discovery" where
  "di_poll walk s d =
     (case scan_ready_strategies (di_root d) s of
        Inl e \<Rightarrow> (Inl e, d)
      | Inr current \<Rightarrow>
          (Inr (map (\<lambda>strategy. Added strategy (path_join (path_join (orders_root_path (di_root d)) strategy) ''orders_out''))
                  (filter (\<lambda>strategy. strategy \<notin> di_known d) (walk current)) @
                map Removed (filter (\<lambda>strategy. strategy \<notin> current) (walk (di_known d)))),
           d\<lparr>di_known := current\<rparr>))"

definition get_strategy_endpoints :: "router_discovery \<Rightarrow> string \<Rightarrow> strategy_endpoints result" where
  "get_strategy_endpoints d strategy_id =
     (if strategy_id = [] \<or> strategy_id = ''.'' \<or> strategy_id = ''..'' \<or> CHR ''/'' \<in> set strategy_id \<or> CHR 0x5C \<in> set strategy_id
      then Inl (Io OtherIo)
      else let base = path_join (orders_root_path (di_root d)) strategy_id in
           Inr \<lparr>se_strategy_id = strategy_id, se_orders_out = path_join base ''orders_out'', se_orders_in = path_join base ''orders_in''\<rparr>)"

section \<open>Channels\<close>

abbreviation (input) TYPE_ORDER :: u16 where "TYPE_ORDER \<equiv> 0x2000"
abbreviation (input) TYPE_FILL :: u16 where "TYPE_FILL \<equiv> 0x2001"

record strategy_channel =
  st_inner :: bidirectional
  st_strategy_id :: string

record router_channel =
  rt_inner :: bidirectional
  rt_strategy_id :: string

text \<open>The default configurations of the writer and of the reader.\<close>

definition strategy_connect ::
  "crc_fun \<Rightarrow> proc_fun \<Rightarrow> nat \<Rightarrow> (bool \<times> bool result) list \<Rightarrow> int \<Rightarrow> path \<Rightarrow> string \<Rightarrow> (queue \<times> queue, strategy_channel) io" where
  "strategy_connect crc proc self locks now root strategy_id =
     (case strategy_orders_out_path root strategy_id of
        Inl _ \<Rightarrow> fail (Unsupported ''invalid strategy_id'')
      | Inr orders_out \<Rightarrow>
          (case strategy_orders_in_path root strategy_id of
             Inl _ \<Rightarrow> fail (Unsupported ''invalid strategy_id'')
           | Inr orders_in \<Rightarrow>
               bind (bc_open crc proc self locks now orders_out orders_in strategy_id default_writer_config ResumeStrict) (\<lambda>inner.
               ret \<lparr>st_inner = inner, st_strategy_id = strategy_id\<rparr>)))"

definition router_connect ::
  "crc_fun \<Rightarrow> proc_fun \<Rightarrow> nat \<Rightarrow> (bool \<times> bool result) list \<Rightarrow> int \<Rightarrow> path \<Rightarrow> string \<Rightarrow> (queue \<times> queue, router_channel) io" where
  "router_connect crc proc self locks now root strategy_id =
     (case strategy_orders_out_path root strategy_id of
        Inl _ \<Rightarrow> fail (Unsupported ''invalid strategy_id'')
      | Inr orders_out \<Rightarrow>
          (case strategy_orders_in_path root strategy_id of
             Inl _ \<Rightarrow> fail (Unsupported ''invalid strategy_id'')
           | Inr orders_in \<Rightarrow>
               bind (bc_open crc proc self locks now orders_in orders_out ''router'' default_writer_config ResumeStrict) (\<lambda>inner.
               ret \<lparr>rt_inner = inner, rt_strategy_id = strategy_id\<rparr>)))"

definition router_try_connect ::
  "crc_fun \<Rightarrow> proc_fun \<Rightarrow> nat \<Rightarrow> (bool \<times> bool result) list \<Rightarrow> int \<Rightarrow> path \<Rightarrow> string \<Rightarrow> (queue \<times> queue, router_channel option) io" where
  "router_try_connect crc proc self locks now root strategy_id =
     (case strategy_orders_out_path root strategy_id of
        Inl _ \<Rightarrow> fail (Unsupported ''invalid strategy_id'')
      | Inr orders_out \<Rightarrow>
          (case strategy_orders_in_path root strategy_id of
             Inl _ \<Rightarrow> fail (Unsupported ''invalid strategy_id'')
           | Inr orders_in \<Rightarrow>
               bind (bc_try_open crc proc self locks now orders_in orders_out ''router'' default_writer_config ResumeStrict) (\<lambda>inner.
               ret (case inner of None \<Rightarrow> None | Some i \<Rightarrow> Some \<lparr>rt_inner = i, rt_strategy_id = strategy_id\<rparr>))))"

definition on_strategy :: "'a bc_io \<Rightarrow> (strategy_channel \<times> queue \<times> queue, 'a) io" where
  "on_strategy m = (\<lambda>(c, qs). case m (st_inner c, qs) of (res, i, qs') \<Rightarrow> (res, c\<lparr>st_inner := i\<rparr>, qs'))"

definition on_router :: "'a bc_io \<Rightarrow> (router_channel \<times> queue \<times> queue, 'a) io" where
  "on_router m = (\<lambda>(c, qs). case m (rt_inner c, qs) of (res, i, qs') \<Rightarrow> (res, c\<lparr>rt_inner := i\<rparr>, qs'))"

definition send_order :: "crc_fun \<Rightarrow> wr_env \<Rightarrow> u64 \<Rightarrow> bytes \<Rightarrow> (strategy_channel \<times> queue \<times> queue, unit) io" where
  "send_order crc env timestamp_ns order = on_strategy (send_outbound crc env timestamp_ns TYPE_ORDER order)"

definition recv_fill :: "crc_fun \<Rightarrow> proc_fun \<Rightarrow> int \<Rightarrow> (strategy_channel \<times> queue \<times> queue, message option) io" where
  "recv_fill crc proc now = on_strategy (recv_inbound crc proc now)"

definition commit_fill :: "crc_fun \<Rightarrow> int \<Rightarrow> (strategy_channel \<times> queue \<times> queue, unit) io" where
  "commit_fill crc now = on_strategy (commit_inbound crc now)"

definition send_fill :: "crc_fun \<Rightarrow> wr_env \<Rightarrow> u64 \<Rightarrow> bytes \<Rightarrow> (router_channel \<times> queue \<times> queue, unit) io" where
  "send_fill crc env timestamp_ns fill = on_router (send_outbound crc env timestamp_ns TYPE_FILL fill)"

definition recv_order :: "crc_fun \<Rightarrow> proc_fun \<Rightarrow> int \<Rightarrow> (router_channel \<times> queue \<times> queue, message option) io" where
  "recv_order crc proc now = on_router (recv_inbound crc proc now)"

definition commit_order :: "crc_fun \<Rightarrow> int \<Rightarrow> (router_channel \<times> queue \<times> queue, unit) io" where
  "commit_order crc now = on_router (commit_inbound crc now)"

section \<open>Discovery follows the markers\<close>

lemma join_plain: "v \<noteq> [] \<Longrightarrow> CHR ''/'' \<notin> set v \<Longrightarrow> path_join p v = p @ [v]"
  using split_at_none [of "CHR ''/''" v] by (cases v) (auto simp: path_join_def)

lemma orders_root_eq: "orders_root_path root = root @ [''orders'', ''queue'']"
  by (simp add: orders_root_path_def join_plain)

lemma valid_component: "validate_component f v = Inr () \<longleftrightarrow>
  v \<noteq> [] \<and> v \<noteq> ''.'' \<and> v \<noteq> ''..'' \<and> CHR ''/'' \<notin> set v \<and> CHR 0x5C \<notin> set v \<and> CHR 0x00 \<notin> set v"
  by (simp add: validate_component_def)

lemma orders_paths:
  "strategy_orders_out_path root x = Inr p \<longleftrightarrow> validate_component ''strategy_id'' x = Inr () \<and> p = root @ [''orders'', ''queue'', x, ''orders_out'']"
  "strategy_orders_in_path root x = Inr p \<longleftrightarrow> validate_component ''strategy_id'' x = Inr () \<and> p = root @ [''orders'', ''queue'', x, ''orders_in'']"
proof -
  consider e where "validate_component ''strategy_id'' x = Inl e" | "validate_component ''strategy_id'' x = Inr ()" by (cases "validate_component ''strategy_id'' x") auto
  then have "(strategy_orders_out_path root x = Inr p \<longleftrightarrow> validate_component ''strategy_id'' x = Inr () \<and> p = root @ [''orders'', ''queue'', x, ''orders_out'']) \<and>
    (strategy_orders_in_path root x = Inr p \<longleftrightarrow> validate_component ''strategy_id'' x = Inr () \<and> p = root @ [''orders'', ''queue'', x, ''orders_in''])"
  proof cases
    case 2
    then have "x \<noteq> []" "CHR ''/'' \<notin> set x" by (simp_all add: valid_component)
    then show ?thesis using 2 by (auto simp: strategy_orders_out_path_def strategy_orders_in_path_def join_plain)
  qed (simp add: strategy_orders_out_path_def strategy_orders_in_path_def)
  then show "strategy_orders_out_path root x = Inr p \<longleftrightarrow> validate_component ''strategy_id'' x = Inr () \<and> p = root @ [''orders'', ''queue'', x, ''orders_out'']"
    "strategy_orders_in_path root x = Inr p \<longleftrightarrow> validate_component ''strategy_id'' x = Inr () \<and> p = root @ [''orders'', ''queue'', x, ''orders_in'']" by blast+
qed

text \<open>The strategies with a marker.\<close>

definition ready_strategies :: "path \<Rightarrow> fs \<Rightarrow> string set" where
  "ready_strategies root s = {x. is_dir s (root @ [''orders'', ''queue'', x]) \<and> is_ready (root @ [''orders'', ''queue'', x, ''orders_out'']) s}"

lemma ready_names_eq: "ready_names (root @ [''orders'', ''queue'']) s (read_dir (root @ [''orders'', ''queue'']) s) = ready_strategies root s"
proof -
  let ?o = "root @ [''orders'', ''queue'']"
  have "(x, False) \<in> set (read_dir ?o s)" if "is_dir s (root @ [''orders'', ''queue'', x])" for x
    using read_dir_subdir [of "?o @ [x]" ?o s] that by (simp only: butlast_snoc last_snoc) simp
  then have "x \<in> ready_names ?o s (read_dir ?o s) \<longleftrightarrow> x \<in> ready_strategies root s" for x
    by (simp add: ready_names_def ready_strategies_def in_map_filter Let_def) (force split: if_splits)
  then show ?thesis by blast
qed

lemma scan_ready: "is_dir s (orders_root_path root) \<Longrightarrow> scan_ready_strategies root s = Inr (ready_strategies root s)"
  using ready_names_eq [of root s] by (simp add: scan_ready_strategies_def orders_root_eq path_exists_def Let_def)

lemma scan_finite: "scan_ready_strategies root s = Inr C \<Longrightarrow> finite C"
  by (auto simp: scan_ready_strategies_def ready_names_def Let_def split: if_splits)

text \<open>Several polls, and what a router that keeps the set of strategies makes of their events; one that does not fit the set is refused.\<close>

fun poll_all :: "(string set \<Rightarrow> string list) \<Rightarrow> fs list \<Rightarrow> router_discovery \<Rightarrow> discovery_event list \<times> router_discovery" where
  "poll_all walk [] d = ([], d)"
| "poll_all walk (s # ss) d =
     (case di_poll walk s d of (r, d') \<Rightarrow> case poll_all walk ss d' of (es, d'') \<Rightarrow> ((case r of Inl _ \<Rightarrow> [] | Inr es' \<Rightarrow> es') @ es, d''))"

fun follow :: "string set \<Rightarrow> discovery_event list \<Rightarrow> string set option" where
  "follow K [] = Some K"
| "follow K (Added x p # es) = (if x \<in> K then None else follow (insert x K) es)"
| "follow K (Removed x # es) = (if x \<in> K then follow (K - {x}) es else None)"

definition walks :: "(string set \<Rightarrow> string list) \<Rightarrow> bool" where
  "walks walk \<longleftrightarrow> (\<forall>S. finite S \<longrightarrow> set (walk S) = S \<and> distinct (walk S))"

lemma follow_append: "follow K (es @ es') = (case follow K es of None \<Rightarrow> None | Some K' \<Rightarrow> follow K' es')"
  by (induction K es rule: follow.induct) simp_all

lemma follow_added: "distinct xs \<Longrightarrow> set xs \<inter> K = {} \<Longrightarrow> follow K (map (\<lambda>x. Added x (f x)) xs) = Some (K \<union> set xs)"
  by (induction xs arbitrary: K) (auto simp: insert_commute)

lemma follow_removed: "distinct xs \<Longrightarrow> set xs \<subseteq> K \<Longrightarrow> follow K (map Removed xs) = Some (K - set xs)"
proof (induction xs arbitrary: K)
  case (Cons x xs)
  then have "follow (K - {x}) (map Removed xs) = Some (K - {x} - set xs)" by (intro Cons.IH) auto
  moreover have "K - {x} - set xs = K - set (x # xs)" by auto
  ultimately show ?case using Cons.prems by simp
qed simp


lemma poll_follows:
  assumes "walks walk" "finite (di_known d)" "di_poll walk s d = (Inr es, d')"
  shows "follow (di_known d) es = Some (di_known d')"
proof -
  obtain C where C: "scan_ready_strategies (di_root d) s = Inr C" "di_known d' = C" "es = map (\<lambda>x. Added x (path_join (path_join (orders_root_path (di_root d)) x) ''orders_out''))
      (filter (\<lambda>x. x \<notin> di_known d) (walk C)) @ map Removed (filter (\<lambda>x. x \<notin> C) (walk (di_known d)))"
    using assms(3) by (auto simp: di_poll_def split: sum.splits)
  let ?K = "di_known d"
  have w: "set (walk C) = C" "distinct (walk C)" "set (walk ?K) = ?K" "distinct (walk ?K)" using assms(1,2) scan_finite [OF C(1)] by (simp_all add: walks_def)
  have "follow ?K (map (\<lambda>x. Added x (path_join (path_join (orders_root_path (di_root d)) x) ''orders_out'')) (filter (\<lambda>x. x \<notin> ?K) (walk C))) = Some (?K \<union> C)"
    by (subst follow_added) (use w in auto)
  moreover have "follow (?K \<union> C) (map Removed (filter (\<lambda>x. x \<notin> C) (walk ?K))) = Some C" by (subst follow_removed) (use w in auto)
  ultimately show ?thesis unfolding C(2,3) follow_append by simp
qed

lemma poll_keeps:
  assumes "finite (di_known d)" "di_poll walk s d = (r, d')"
  shows "finite (di_known d') \<and> di_root d' = di_root d \<and> (\<forall>e. r = Inl e \<longrightarrow> d' = d)"
  using assms scan_finite by (auto simp: di_poll_def split: sum.splits)

lemma poll_all_follows:
  assumes "walks walk" "finite (di_known d)"
  shows "follow (di_known d) (fst (poll_all walk ss d)) = Some (di_known (snd (poll_all walk ss d))) \<and> di_root (snd (poll_all walk ss d)) = di_root d \<and>
    finite (di_known (snd (poll_all walk ss d)))"
  using assms(2)
proof (induction ss arbitrary: d)
  case (Cons s ss)
  obtain r d1 where r: "di_poll walk s d = (r, d1)" by fastforce
  note k = poll_keeps [OF Cons.prems r]
  have "follow (di_known d) (case r of Inl _ \<Rightarrow> [] | Inr es \<Rightarrow> es) = Some (di_known d1)"
    using k poll_follows [OF assms(1) Cons.prems] r by (cases r) auto
  then show ?case using r k Cons.IH [of d1] by (simp add: follow_append split_beta)
qed simp

lemma poll_all_append: "poll_all walk (ss @ ts) d =
  (fst (poll_all walk ss d) @ fst (poll_all walk ts (snd (poll_all walk ss d))), snd (poll_all walk ts (snd (poll_all walk ss d))))"
  by (induction ss arbitrary: d) (simp_all add: split_beta)

lemma poll_all_added:
  "Added x p \<in> set (fst (poll_all walk ss d)) \<Longrightarrow> p = path_join (path_join (orders_root_path (di_root d)) x) ''orders_out''"
proof (induction ss arbitrary: d)
  case (Cons s ss)
  obtain r d1 where r: "di_poll walk s d = (r, d1)" by fastforce
  then have "di_root d1 = di_root d" by (auto simp: di_poll_def split: sum.splits)
  moreover have "Added x p \<in> set (case r of Inl _ \<Rightarrow> [] | Inr es \<Rightarrow> es) \<Longrightarrow> p = path_join (path_join (orders_root_path (di_root d)) x) ''orders_out''"
    using r by (auto simp: di_poll_def split: sum.splits)
  moreover have "Added x p \<in> set (case r of Inl _ \<Rightarrow> [] | Inr es \<Rightarrow> es) \<or> Added x p \<in> set (fst (poll_all walk ss d1))"
    using Cons.prems r by (simp add: split_beta)
  ultimately show ?case using Cons.IH [of d1] by metis
qed simp

text \<open>
  Property C29. A router that polls knows the strategies that are ready. Whatever happened to the
  directories before, between the polls and during failed ones, the events since the start,
  applied to the empty set, fit together (nothing is added twice or removed without having been
  added) and give after a poll exactly the strategies whose marker is there; and the queue that
  an event names is the one that a strategy with a valid name uses.
\<close>

theorem discovery_tracks_ready:
  assumes "walks walk" "is_dir s (orders_root_path root)" "poll_all walk (ss @ [s]) (di_new root) = (es, d)"
  shows "follow {} es = Some (ready_strategies root s) \<and> di_known d = ready_strategies root s \<and>
    (\<forall>x p q. Added x p \<in> set es \<longrightarrow> strategy_orders_out_path root x = Inr q \<longrightarrow> p = q)"
proof -
  let ?d = "snd (poll_all walk ss (di_new root))"
  have n: "di_known (di_new root) = {}" "di_root (di_new root) = root" by (simp_all add: di_new_def)
  have "snd (di_poll walk s ?d) = d" using assms(3) poll_all_append [of walk ss "[s]" "di_new root"] by (simp add: split_beta)
  moreover have "di_root ?d = root" using poll_all_follows [OF assms(1), of "di_new root" ss] n by simp
  ultimately have k: "di_known d = ready_strategies root s" using scan_ready [OF assms(2)] by (auto simp: di_poll_def)
  have "follow {} es = Some (di_known d)" using poll_all_follows [OF assms(1), of "di_new root" "ss @ [s]"] n assms(3) by simp
  moreover have "p = q" if "Added x p \<in> set es" "strategy_orders_out_path root x = Inr q" for x p q
  proof -
    have "p = path_join (path_join (orders_root_path root) x) ''orders_out''" using poll_all_added [of x p walk "ss @ [s]" "di_new root"] that(1) assms(3) n by simp
    then show ?thesis using that(2) by (simp add: orders_paths valid_component orders_root_eq join_plain)
  qed
  ultimately show ?thesis using k by simp
qed

text \<open>A strategy that marks its queue is among the ready ones, and the others stay as they are.\<close>

lemma mark_ready_strategy:
  assumes "fs_wf s" "strategy_orders_out_path root x = Inr p"
  shows "\<exists>s'. mark_ready p s = (Inr (), s') \<and> is_dir s' (orders_root_path root) \<and> ready_strategies root s' = insert x (ready_strategies root s)"
proof -
  have p: "p = root @ [''orders'', ''queue'', x, ''orders_out'']" using assms(2) by (simp add: orders_paths)
  obtain s' where s': "mark_ready p s = (Inr (), s')" "is_ready p s'" "\<And>d. is_dir s' d \<longleftrightarrow> is_dir s d \<or> (\<exists>n. d = take n p)"
    "\<And>q. q \<noteq> p @ [''READY''] \<Longrightarrow> q \<noteq> p @ [''READY.tmp''] \<Longrightarrow> lookup_path s' q = lookup_path s q"
    using mark_ready_ok [OF assms(1), of p] by blast
  have tk: "take (length root + 2) p = root @ [''orders'', ''queue'']" "take (length root + 3) p = root @ [''orders'', ''queue'', x]" using p by simp_all
  have dirs: "is_dir s' (root @ [''orders'', ''queue''])" "is_dir s' (root @ [''orders'', ''queue'', x])" using s'(3) tk by metis+
  have "y = x" if "root @ [''orders'', ''queue'', y] = take n p" for y n
  proof -
    have "length (take n p) = length root + 3" using arg_cong [OF that, of length] by simp
    then have "take n p = take (length root + 3) p" by (simp add: min_def take_all_iff split: if_splits)
    then show ?thesis using that tk(2) by simp
  qed
  then have d: "is_dir s' (root @ [''orders'', ''queue'', y]) \<longleftrightarrow> is_dir s (root @ [''orders'', ''queue'', y]) \<or> y = x" for y using s'(3) dirs(2) by blast
  have r: "is_ready (root @ [''orders'', ''queue'', y, ''orders_out'']) s' \<longleftrightarrow> is_ready (root @ [''orders'', ''queue'', y, ''orders_out'']) s" if "y \<noteq> x" for y
    using s'(4) [of "root @ [''orders'', ''queue'', y, ''orders_out'', ''READY'']"] p that by (simp add: is_ready_def)
  have "ready_strategies root s' = insert x (ready_strategies root s)"
  proof (rule set_eqI)
    fix y
    show "y \<in> ready_strategies root s' \<longleftrightarrow> y \<in> insert x (ready_strategies root s)"
      using d [of y] r [of y] s'(2) p by (cases "y = x") (simp_all add: ready_strategies_def)
  qed
  then show ?thesis using s'(1) dirs(1) by (simp add: orders_root_eq)
qed

theorem discovery_tracks_ready_witness:
  "\<exists>s walk es d. walks walk \<and> mark_ready [''bus'', ''orders'', ''queue'', ''alpha'', ''orders_out''] fs_empty = (Inr (), s) \<and>
    poll_all walk [fs_empty, s] (di_new [''bus'']) = (es, d) \<and> follow {} es = Some {''alpha''} \<and> di_known d = {''alpha''}"
proof -
  have "strategy_orders_out_path [''bus''] ''alpha'' = Inr [''bus'', ''orders'', ''queue'', ''alpha'', ''orders_out'']" by (simp add: orders_paths valid_component)
  from mark_ready_strategy [OF fs_wf_empty this] obtain s where s: "mark_ready [''bus'', ''orders'', ''queue'', ''alpha'', ''orders_out''] fs_empty = (Inr (), s)"
    "is_dir s (orders_root_path [''bus''])" "ready_strategies [''bus''] s = insert ''alpha'' (ready_strategies [''bus''] fs_empty)" by auto
  have "ready_strategies [''bus''] fs_empty = {}" by (simp add: ready_strategies_def is_ready_def lookup_path_def fs_empty_def)
  then have r: "ready_strategies [''bus''] s = {''alpha''}" using s(3) by simp
  obtain walk where w: "walks walk" unfolding walks_def using finite_distinct_list by metis
  obtain es d where p: "poll_all walk ([fs_empty] @ [s]) (di_new [''bus'']) = (es, d)" by fastforce
  from discovery_tracks_ready [OF w s(2) p] r show ?thesis using s(1) w p by auto
qed

section \<open>Orders and fills\<close>

text \<open>The calls of both sides, on the queue of the orders and the queue of the fills.\<close>

datatype trade_action = Send_Order wr_env u64 bytes | Recv_Order int | Send_Fill wr_env u64 bytes | Recv_Fill int

type_synonym trade_state = "strategy_channel \<times> router_channel \<times> queue \<times> queue"

fun trade_do :: "crc_fun \<Rightarrow> proc_fun \<Rightarrow> trade_action \<Rightarrow> (trade_state, message option list) io" where
  "trade_do crc proc (Send_Order env ts p) (s, r, oq, iq) =
     (case send_order crc env ts p (s, oq, iq) of (res, s', oq', iq') \<Rightarrow> (map_sum id (\<lambda>_. []) res, s', r, oq', iq'))"
| "trade_do crc proc (Recv_Order now) (s, r, oq, iq) =
     (case recv_order crc proc now (r, iq, oq) of (res, r', iq', oq') \<Rightarrow> (map_sum id (\<lambda>m. [m]) res, s, r', oq', iq'))"
| "trade_do crc proc (Send_Fill env ts p) (s, r, oq, iq) =
     (case send_fill crc env ts p (r, iq, oq) of (res, r', iq', oq') \<Rightarrow> (map_sum id (\<lambda>_. []) res, s, r', oq', iq'))"
| "trade_do crc proc (Recv_Fill now) (s, r, oq, iq) =
     (case recv_fill crc proc now (s, oq, iq) of (res, s', oq', iq') \<Rightarrow> (map_sum id (\<lambda>m. [m]) res, s', r, oq', iq'))"

fun trade_run :: "crc_fun \<Rightarrow> proc_fun \<Rightarrow> trade_action list \<Rightarrow> (trade_state, message option list) io" where
  "trade_run crc proc [] = ret []"
| "trade_run crc proc (a # as) = bind (trade_do crc proc a) (\<lambda>xs. bind (trade_run crc proc as) (\<lambda>ys. ret (xs @ ys)))"

text \<open>What it means: two first-in first-out queues, of orders and of fills.\<close>

fun trade_spec :: "trade_action \<Rightarrow> (u64 \<times> message list) \<times> u64 \<times> message list \<Rightarrow> message option list \<times> (u64 \<times> message list) \<times> u64 \<times> message list" where
  "trade_spec (Send_Order env ts p) (orders, fills) = ([], (fst orders + 1, snd orders @ [new_msg (fst orders) ts TYPE_ORDER p]), fills)"
| "trade_spec (Recv_Order now) (orders, fills) = ([case snd orders of [] \<Rightarrow> None | m # _ \<Rightarrow> Some m], (fst orders, tl (snd orders)), fills)"
| "trade_spec (Send_Fill env ts p) (orders, fills) = ([], orders, fst fills + 1, snd fills @ [new_msg (fst fills) ts TYPE_FILL p])"
| "trade_spec (Recv_Fill now) (orders, fills) = ([case snd fills of [] \<Rightarrow> None | m # _ \<Rightarrow> Some m], orders, fst fills, tl (snd fills))"

fun trade_specs :: "trade_action list \<Rightarrow> (u64 \<times> message list) \<times> u64 \<times> message list \<Rightarrow> message option list \<times> (u64 \<times> message list) \<times> u64 \<times> message list" where
  "trade_specs [] x = ([], x)"
| "trade_specs (a # as) x = (case trade_spec a x of (xs, x') \<Rightarrow> case trade_specs as x' of (ys, x'') \<Rightarrow> (xs @ ys, x''))"

definition trade_sim :: "crc_fun \<Rightarrow> nat \<Rightarrow> nat \<Rightarrow> nat \<Rightarrow> nat \<Rightarrow> trade_state \<Rightarrow> (u64 \<times> message list) \<times> u64 \<times> message list \<Rightarrow> bool" where
  "trade_sim crc b c sz room = (\<lambda>(s, r, oq, iq) (orders, fills).
     rw_sim crc b default_writer_config sz room (bc_outbox (st_inner s), bc_inbox (rt_inner r), oq) orders \<and>
     rw_sim crc c default_writer_config sz room (bc_outbox (rt_inner r), bc_inbox (st_inner s), iq) fills)"

fun trade_ok :: "nat \<Rightarrow> trade_action \<Rightarrow> bool" where
  "trade_ok sz (Send_Order env ts p) \<longleftrightarrow> queue_accepts default_writer_config sz (env, TYPE_ORDER, ts, p)"
| "trade_ok sz (Send_Fill env ts p) \<longleftrightarrow> queue_accepts default_writer_config sz (env, TYPE_FILL, ts, p)"
| "trade_ok sz _ \<longleftrightarrow> True"

lemma rw_sim_less: "rw_sim crc b config sz (Suc room) x f \<Longrightarrow> rw_sim crc b config sz room x f"
  unfolding rw_sim_def by (auto simp: split_beta) (metis Suc_lessD add_Suc_right)?

text \<open>Sending and receiving on one of the queues.\<close>

lemma rw_append:
  assumes "rw_sim crc b config sz (Suc room) (w, r, q) (n, ms)" "queue_accepts config sz (env, t, ts, p)" "t \<noteq> PAD_TYPE_ID"
  shows "\<exists>w' q'. append_with_timestamp crc env t p ts (w, q) = (Inr (), w', q') \<and> rw_sim crc b config sz room (w', r, q') (n + 1, ms @ [new_msg n ts t p])"
  using rw_do_sim [OF assms(1), of "Append env t ts p" undefined] assms(2,3) by (auto split: prod.splits sum.splits)

lemma rw_next:
  assumes "rw_sim crc b config sz (Suc room) (w, r, q) (n, ms)"
  shows "\<exists>r' q'. rd_next crc proc now (r, q) = (Inr (case ms of [] \<Rightarrow> None | m # _ \<Rightarrow> Some m), r', q') \<and> rw_sim crc b config sz room (w, r', q') (n, tl ms)"
  using rw_do_sim [OF assms, of "Next now" proc] by (cases ms) (auto split: prod.splits sum.splits)

lemma trade_do_sim:
  assumes "trade_sim crc b c sz (Suc room) x f" "trade_ok sz a"
  shows "\<exists>x'. trade_do crc proc a x = (Inr (fst (trade_spec a f)), x') \<and> trade_sim crc b c sz room x' (snd (trade_spec a f))"
proof -
  obtain s r oq iq where x: "x = (s, r, oq, iq)" by (metis prod_cases4)
  obtain n ms k ns where f: "f = ((n, ms), k, ns)" by (metis surj_pair)
  have o: "rw_sim crc b default_writer_config sz (Suc room) (bc_outbox (st_inner s), bc_inbox (rt_inner r), oq) (n, ms)"
    and i: "rw_sim crc c default_writer_config sz (Suc room) (bc_outbox (rt_inner r), bc_inbox (st_inner s), iq) (k, ns)"
    using assms(1) x f by (simp_all add: trade_sim_def)
  note unf = send_order_def recv_order_def send_fill_def recv_fill_def on_strategy_def on_router_def send_outbound_def recv_inbound_def on_outbox_def on_inbox_def
    trade_sim_def x f
  show ?thesis
  proof (cases a)
    case (Send_Order env ts p)
    then show ?thesis using rw_append [OF o, of env TYPE_ORDER ts p] rw_sim_less [OF i] assms(2) by (auto simp: unf)
  next
    case (Recv_Order now)
    then show ?thesis using rw_next [OF o, of proc now] rw_sim_less [OF i] by (auto simp: unf)
  next
    case (Send_Fill env ts p)
    then show ?thesis using rw_append [OF i, of env TYPE_FILL ts p] rw_sim_less [OF o] assms(2) by (auto simp: unf)
  next
    case (Recv_Fill now)
    then show ?thesis using rw_next [OF i, of proc now] rw_sim_less [OF o] by (auto simp: unf)
  qed
qed

text \<open>
  Property C11. A strategy and a router that are connected exchange orders and fills over two
  first-in first-out queues. Whatever the order of their calls, a run of orders and fills that the
  writers take and of receives on both sides returns what the two abstract queues return: the
  router gets every order once, in order and as an order, the strategy every fill, and neither
  sees what it sent itself.
\<close>

theorem trading_refines_queues:
  assumes "trade_sim crc b c sz (length as) x f" "\<forall>a \<in> set as. trade_ok sz a"
  shows "\<exists>x'. trade_run crc proc as x = (Inr (fst (trade_specs as f)), x') \<and> trade_sim crc b c sz 0 x' (snd (trade_specs as f))"
  using assms
proof (induction as arbitrary: x f)
  case (Cons a as)
  obtain x1 where a: "trade_do crc proc a x = (Inr (fst (trade_spec a f)), x1)" "trade_sim crc b c sz (length as) x1 (snd (trade_spec a f))"
    using trade_do_sim [of crc b c sz "length as" x f a proc] Cons.prems by auto
  obtain x2 where b: "trade_run crc proc as x1 = (Inr (fst (trade_specs as (snd (trade_spec a f)))), x2)"
    "trade_sim crc b c sz 0 x2 (snd (trade_specs as (snd (trade_spec a f))))"
    using Cons.IH [OF a(2)] Cons.prems(2) by auto
  show ?case using a b by (simp add: bind_ok ret_def split_beta)
qed (simp add: ret_def)

theorem trading_refines_queues_witness:
  "\<exists>x'. trade_run (\<lambda>_. 5) demo_proc [Send_Order demo_env 10 [66], Recv_Order 0, Recv_Fill 0]
      (\<lparr>st_inner = \<lparr>bc_inbox = demo_reader, bc_outbox = demo_free\<rparr>, st_strategy_id = ''a''\<rparr>,
       \<lparr>rt_inner = \<lparr>bc_inbox = demo_reader, bc_outbox = demo_free\<rparr>, rt_strategy_id = ''a''\<rparr>, demo_queue, demo_queue) =
    (Inr [Some (new_msg 0 10 0x2000 [66]), None], x')"
proof -
  let ?as = "[Send_Order demo_env 10 [66], Recv_Order 0, Recv_Fill 0]"
  have sim: "trade_sim (\<lambda>_. 5) 0 0 256 (length ?as) (\<lparr>st_inner = \<lparr>bc_inbox = demo_reader, bc_outbox = demo_free\<rparr>, st_strategy_id = ''a''\<rparr>,
       \<lparr>rt_inner = \<lparr>bc_inbox = demo_reader, bc_outbox = demo_free\<rparr>, rt_strategy_id = ''a''\<rparr>, demo_queue, demo_queue) ((0, []), 0, [])"
    using demo_sim [of "length ?as"] by (simp add: trade_sim_def)
  have "record_len 1 = 128" using record_len_eq [of 1] by simp
  then have "\<forall>a \<in> set ?as. trade_ok 256 a" by (simp add: quiet_def default_writer_config_def demo_env_def)
  from trading_refines_queues [OF sim this, of demo_proc] show ?thesis by (auto simp del: trade_run.simps)
qed

text \<open>
  Neither side can be the first to connect with \<open>connect\<close>: as long as the queue it receives from
  has no control file, the call fails, after it has opened the queue it sends to.
\<close>

lemma first_connect_fails:
  assumes "q_ctrl iq = None"
  shows "\<exists>e. fst (strategy_connect crc proc self locks now root strategy_id (oq, iq)) = Inl e"
    "\<exists>e. fst (router_connect crc proc self locks now root strategy_id (oq, iq)) = Inl e"
proof -
  have "\<exists>e. fst (bc_open crc proc self locks now p q name config mode (oq, iq)) = Inl e" for p q name config mode
    using assms by (auto simp: bc_open_def open_subscriber_def q_block_def bind_def split: prod.splits sum.splits)
  then show "\<exists>e. fst (strategy_connect crc proc self locks now root strategy_id (oq, iq)) = Inl e"
    "\<exists>e. fst (router_connect crc proc self locks now root strategy_id (oq, iq)) = Inl e"
    by (auto simp: strategy_connect_def router_connect_def bind_def fail_def split: prod.splits sum.splits) (metis fst_conv sum.distinct(1))+
qed

end
