(* ===== verification/Pipeline.thy ===== *)
theory Pipeline
  imports Replay_Engine
begin

text \<open>
  \<^verbatim>\<open>src/src/stream/replay/transform.rs\<close>, \<^verbatim>\<open>sink.rs\<close> and \<^verbatim>\<open>pipeline.rs\<close>: filters that are applied to each
  message of a source, and the loop that hands what is left to a sink. A transform with a state
  of its own is a value of the datatype; the source and the sink are the operations that the
  loop calls.
\<close>

section \<open>Transforms\<close>

datatype transform =
    Identity
  | TimeRangeFilter u64 u64
  | TypeFilter "u16 set"
  | Sampler nat nat
  | TransformChain "transform list"

fun transform_msg :: "transform \<Rightarrow> message \<Rightarrow> message option result \<times> transform"
  and transform_chain :: "transform list \<Rightarrow> message \<Rightarrow> message option result \<times> transform list" where
  "transform_msg Identity m = (Inr (Some m), Identity)"
| "transform_msg (TimeRangeFilter start_ns end_ns) m =
     (Inr (if msg_timestamp_ns m \<ge> start_ns \<and> msg_timestamp_ns m < end_ns then Some m else None), TimeRangeFilter start_ns end_ns)"
| "transform_msg (TypeFilter types) m = (Inr (if msg_type_id m \<in> types then Some m else None), TypeFilter types)"
| "transform_msg (Sampler interval cnt) m =
     (case checked_add64 cnt 1 of
        None \<Rightarrow> (Inl (Panic ''attempt to add with overflow''), Sampler interval cnt)
      | Some cnt \<Rightarrow>
          if interval = 0 then (Inl (Panic ''attempt to calculate the remainder with a divisor of zero''), Sampler interval cnt)
          else (Inr (if cnt mod interval = 0 then Some m else None), Sampler interval cnt))"
| "transform_msg (TransformChain ts) m = (case transform_chain ts m of (r, ts') \<Rightarrow> (r, TransformChain ts'))"
| "transform_chain [] m = (Inr (Some m), [])"
| "transform_chain (t # ts) m =
     (case transform_msg t m of
        (Inl e, t') \<Rightarrow> (Inl e, t' # ts)
      | (Inr None, t') \<Rightarrow> (Inr None, t' # ts)
      | (Inr (Some m'), t') \<Rightarrow> (case transform_chain ts m' of (r, ts') \<Rightarrow> (r, t' # ts')))"

section \<open>Sinks\<close>

definition queue_sink_write :: "crc_fun \<Rightarrow> (message \<Rightarrow> wr_env) \<Rightarrow> (message \<Rightarrow> u64) \<Rightarrow> message \<Rightarrow> (queue_writer \<times> queue, unit) io" where
  "queue_sink_write crc env now m = append_with_timestamp crc (env m) (msg_type_id m) (msg_payload m) (now m)"

definition null_sink_write :: "message \<Rightarrow> ('k, unit) io" where
  "null_sink_write m = ret ()"

definition vec_sink_write :: "message \<Rightarrow> ((u64 \<times> u64 \<times> u16 \<times> bytes) list, unit) io" where
  "vec_sink_write m = modify (\<lambda>messages. messages @ [(msg_seq m, msg_timestamp_ns m, msg_type_id m, msg_payload m)])"

section \<open>The pipeline\<close>

record replay_stats =
  ps_messages_read :: nat
  ps_messages_written :: nat
  ps_messages_filtered :: nat

record 'r pipeline =
  pl_source :: 'r
  pl_transforms :: "transform list"

definition from_source :: "'r \<Rightarrow> 'r pipeline" where
  "from_source source = \<lparr>pl_source = source, pl_transforms = []\<rparr>"

definition filter_time_range :: "u64 \<Rightarrow> u64 \<Rightarrow> 'r pipeline \<Rightarrow> 'r pipeline" where
  "filter_time_range start_ns end_ns p = p\<lparr>pl_transforms := pl_transforms p @ [TimeRangeFilter start_ns end_ns]\<rparr>"

definition filter_types :: "u16 list \<Rightarrow> 'r pipeline \<Rightarrow> 'r pipeline" where
  "filter_types types p = p\<lparr>pl_transforms := pl_transforms p @ [TypeFilter (set types)]\<rparr>"

definition sample :: "nat \<Rightarrow> 'r pipeline \<Rightarrow> 'r pipeline" where
  "sample interval p = p\<lparr>pl_transforms := pl_transforms p @ [Sampler interval 0]\<rparr>"

definition add_transform :: "transform \<Rightarrow> 'r pipeline \<Rightarrow> 'r pipeline" where
  "add_transform t p = p\<lparr>pl_transforms := pl_transforms p @ [t]\<rparr>"

text \<open>\<open>seek_seq\<close> and \<open>seek_timestamp\<close>: the seek of the source, whose answer is not looked at.\<close>

definition pipeline_seek :: "('r, bool) io \<Rightarrow> 'r pipeline \<Rightarrow> 'r pipeline result" where
  "pipeline_seek seek p = (case seek (pl_source p) of (Inl e, _) \<Rightarrow> Inl e | (Inr _, r') \<Rightarrow> Inr (p\<lparr>pl_source := r'\<rparr>))"

text \<open>
  The loop of \<open>run\<close>, with or without a sink; it ends when the source does, which a source need
  not do. The counters are as large as the number of messages and do not overflow.
\<close>

partial_function (option) pipe_loop ::
  "('r \<Rightarrow> message option result \<times> 'r) \<Rightarrow> (message \<Rightarrow> ('k, unit) io) option \<Rightarrow> replay_stats \<Rightarrow> transform list \<Rightarrow> 'r \<Rightarrow> 'k \<Rightarrow>
   (replay_stats result \<times> 'r \<times> 'k) option" where
  "pipe_loop source_next sink stats ts r k =
     (case source_next r of
        (Inl e, r') \<Rightarrow> Some (Inl e, r', k)
      | (Inr None, r') \<Rightarrow> Some (Inr stats, r', k)
      | (Inr (Some m), r') \<Rightarrow>
          let stats = stats\<lparr>ps_messages_read := ps_messages_read stats + 1\<rparr> in
          (case transform_chain ts m of
             (Inl e, ts') \<Rightarrow> Some (Inl e, r', k)
           | (Inr None, ts') \<Rightarrow> pipe_loop source_next sink (stats\<lparr>ps_messages_filtered := ps_messages_filtered stats + 1\<rparr>) ts' r' k
           | (Inr (Some m'), ts') \<Rightarrow>
               (case sink of
                  None \<Rightarrow> pipe_loop source_next sink stats ts' r' k
                | Some write \<Rightarrow>
                    (case write m' k of
                       (Inl e, k') \<Rightarrow> Some (Inl e, r', k')
                     | (Inr _, k') \<Rightarrow> pipe_loop source_next sink (stats\<lparr>ps_messages_written := ps_messages_written stats + 1\<rparr>) ts' r' k'))))"

definition pipeline_run ::
  "('r \<Rightarrow> message option result \<times> 'r) \<Rightarrow> (message \<Rightarrow> ('k, unit) io) option \<Rightarrow> ('k, unit) io \<Rightarrow> 'r pipeline \<Rightarrow> 'k \<Rightarrow>
   (replay_stats result \<times> 'r \<times> 'k) option" where
  "pipeline_run source_next sink flush p k =
     (case pipe_loop source_next sink \<lparr>ps_messages_read = 0, ps_messages_written = 0, ps_messages_filtered = 0\<rparr> (pl_transforms p) (pl_source p) k of
        None \<Rightarrow> None
      | Some (Inl e, r', k') \<Rightarrow> Some (Inl e, r', k')
      | Some (Inr stats, r', k') \<Rightarrow>
          (if sink = None then Some (Inr stats, r', k')
           else case flush k' of (Inl e, k'') \<Rightarrow> Some (Inl e, r', k'') | (Inr _, k'') \<Rightarrow> Some (Inr stats, r', k'')))"

section \<open>The reference: whole lists\<close>

definition sampled :: "nat \<Rightarrow> nat \<Rightarrow> message list \<Rightarrow> message list" where
  "sampled n c ms = map snd (filter (\<lambda>p. fst p mod n = 0) (enumerate (Suc c) ms))"

fun stage :: "transform \<Rightarrow> message list \<Rightarrow> message list"
  and stages :: "transform list \<Rightarrow> message list \<Rightarrow> message list" where
  "stage Identity ms = ms"
| "stage (TimeRangeFilter a b) ms = filter (\<lambda>m. a \<le> msg_timestamp_ns m \<and> msg_timestamp_ns m < b) ms"
| "stage (TypeFilter types) ms = filter (\<lambda>m. msg_type_id m \<in> types) ms"
| "stage (Sampler n c) ms = sampled n c ms"
| "stage (TransformChain ts) ms = stages ts ms"
| "stages [] ms = ms"
| "stages (t # ts) ms = stages ts (stage t ms)"

text \<open>The samplers have an interval and do not overflow for that many messages.\<close>

fun stage_ok :: "nat \<Rightarrow> transform \<Rightarrow> bool" where
  "stage_ok k (Sampler n c) \<longleftrightarrow> 0 < n \<and> c + k \<le> u64_max"
| "stage_ok k (TransformChain ts) \<longleftrightarrow> (\<forall>t \<in> set ts. stage_ok k t)"
| "stage_ok k _ \<longleftrightarrow> True"

text \<open>A transform and a chain, fed with one message after the other.\<close>

fun feed :: "('t \<Rightarrow> message \<Rightarrow> message option result \<times> 't) \<Rightarrow> 't \<Rightarrow> message list \<Rightarrow> message list result \<times> 't" where
  "feed tr t [] = (Inr [], t)"
| "feed tr t (m # ms) =
     (case tr t m of
        (Inl e, t') \<Rightarrow> (Inl e, t')
      | (Inr x, t') \<Rightarrow> (case feed tr t' ms of (Inl e, t'') \<Rightarrow> (Inl e, t'') | (Inr xs, t'') \<Rightarrow> (Inr ((case x of None \<Rightarrow> [] | Some y \<Rightarrow> [y]) @ xs), t'')))"

lemma feed_chain_Cons:
  "feed transform_msg t ms = (Inr xs, t') \<Longrightarrow> feed transform_chain ts xs = (Inr ys, ts') \<Longrightarrow> feed transform_chain (t # ts) ms = (Inr ys, t' # ts')"
proof (induction ms arbitrary: t ts xs ys)
  case (Cons m ms)
  obtain x t1 where x: "transform_msg t m = (Inr x, t1)" using Cons.prems(1) by (auto split: prod.splits sum.splits)
  then obtain zs where z: "feed transform_msg t1 ms = (Inr zs, t')" "xs = (case x of None \<Rightarrow> [] | Some y \<Rightarrow> [y]) @ zs"
    using Cons.prems(1) by (auto split: prod.splits sum.splits)
  show ?case
  proof (cases x)
    case None
    then show ?thesis using x z Cons.prems(2) Cons.IH [OF z(1)] by simp
  next
    case (Some y)
    then obtain w ts1 vs where w: "transform_chain ts y = (Inr w, ts1)" "feed transform_chain ts1 zs = (Inr vs, ts')" "ys = (case w of None \<Rightarrow> [] | Some y \<Rightarrow> [y]) @ vs"
      using Cons.prems(2) z(2) by (auto split: prod.splits sum.splits)
    then show ?thesis using x Some Cons.IH [OF z(1) w(2)] by simp
  qed
qed simp

lemma feed_nil: "feed transform_chain [] ms = (Inr ms, [])"
  by (induction ms) simp_all

lemma feed_of_chain: "feed transform_msg (TransformChain ts) ms = (case feed transform_chain ts ms of (r, ts') \<Rightarrow> (r, TransformChain ts'))"
  by (induction ms arbitrary: ts) (auto split: prod.splits sum.splits)

lemma feed_filter:
  "feed transform_msg Identity ms = (Inr ms, Identity)"
  "feed transform_msg (TimeRangeFilter a b) ms = (Inr (filter (\<lambda>m. a \<le> msg_timestamp_ns m \<and> msg_timestamp_ns m < b) ms), TimeRangeFilter a b)"
  "feed transform_msg (TypeFilter types) ms = (Inr (filter (\<lambda>m. msg_type_id m \<in> types) ms), TypeFilter types)"
  by (induction ms) simp_all

lemma feed_sampler: "0 < n \<Longrightarrow> c + length ms \<le> u64_max \<Longrightarrow> feed transform_msg (Sampler n c) ms = (Inr (sampled n c ms), Sampler n (c + length ms))"
  by (induction ms arbitrary: c) (auto simp: sampled_def checked_add64_def)

lemma stage_length: "length (stage t ms) \<le> length ms" "length (stages ts ms) \<le> length ms"
proof (induction t ms and ts ms rule: stage_stages.induct)
  case (4 n c ms)
  have "length (filter P (enumerate (Suc c) ms)) \<le> length (enumerate (Suc c) ms)" for P by (rule length_filter_le)
  then show ?case by (simp add: sampled_def)
qed (auto intro: order_trans)

lemma stage_ok_mono: "stage_ok k t \<Longrightarrow> j \<le> k \<Longrightarrow> stage_ok j t"
  by (induction k t rule: stage_ok.induct) auto

lemma feed_stage:
  "stage_ok (length ms) t \<Longrightarrow> \<exists>t'. feed transform_msg t ms = (Inr (stage t ms), t')"
  "\<forall>t \<in> set ts. stage_ok (length ms) t \<Longrightarrow> \<exists>ts'. feed transform_chain ts ms = (Inr (stages ts ms), ts')"
proof (induction t ms and ts ms rule: stage_stages.induct)
  case (7 t ts ms)
  then obtain t' where t': "feed transform_msg t ms = (Inr (stage t ms), t')" by auto
  have "\<forall>u \<in> set ts. stage_ok (length (stage t ms)) u" using 7(3) stage_ok_mono stage_length(1) by (metis list.set_intros(2))
  then obtain ts' where "feed transform_chain ts (stage t ms) = (Inr (stages ts (stage t ms)), ts')" using 7(2) by blast
  then show ?case using feed_chain_Cons [OF t'] by auto
qed (auto simp: feed_filter feed_sampler feed_of_chain feed_nil)

section \<open>The loop\<close>

lemma pipe_loop_ok:
  assumes "reads source_next r ms" "feed transform_chain ts ms = (Inr xs, ts')" "run_all write xs k = (Inr (), k')"
  shows "\<exists>r'. pipe_loop source_next (Some write) stats ts r k =
    Some (Inr \<lparr>ps_messages_read = ps_messages_read stats + length ms, ps_messages_written = ps_messages_written stats + length xs,
               ps_messages_filtered = ps_messages_filtered stats + (length ms - length xs), \<dots> = replay_stats.more stats\<rparr>, r', k') \<and> length xs \<le> length ms"
  using assms
proof (induction ms arbitrary: r ts xs k stats)
  case Nil
  then obtain r' where "source_next r = (Inr None, r')" by (cases "source_next r") auto
  then show ?case using Nil by (simp add: pipe_loop.simps ret_def)
next
  case (Cons m ms)
  obtain r1 where r1: "source_next r = (Inr (Some m), r1)" "reads source_next r1 ms" using Cons.prems(1) by (cases "source_next r") auto
  obtain x ts1 ys where x: "transform_chain ts m = (Inr x, ts1)" "feed transform_chain ts1 ms = (Inr ys, ts')" "xs = (case x of None \<Rightarrow> [] | Some y \<Rightarrow> [y]) @ ys"
    using Cons.prems(2) by (auto split: prod.splits sum.splits)
  show ?case
  proof (cases x)
    case None
    then show ?thesis using r1 x Cons.IH [OF r1(2) x(2), of k "stats\<lparr>ps_messages_read := ps_messages_read stats + 1, ps_messages_filtered := ps_messages_filtered stats + 1\<rparr>"] Cons.prems(3)
      by (auto simp: pipe_loop.simps [of source_next _ stats] Let_def Suc_diff_le)
  next
    case (Some y)
    then obtain k1 where k1: "write y k = (Inr (), k1)" "run_all write ys k1 = (Inr (), k')"
      using Cons.prems(3) x(3) by (auto simp: bind_def split: prod.splits sum.splits)
    then show ?thesis using Some r1 x Cons.IH [OF r1(2) x(2), of k1 "stats\<lparr>ps_messages_read := ps_messages_read stats + 1, ps_messages_written := ps_messages_written stats + 1\<rparr>"]
      by (auto simp: pipe_loop.simps [of source_next _ stats] Let_def)
  qed
qed

lemma pipeline_run_ok:
  assumes "reads source_next (pl_source p) ms" "\<forall>t \<in> set (pl_transforms p). stage_ok (length ms) t"
    and "run_all write (stages (pl_transforms p) ms) k = (Inr (), k1)" "flush k1 = (Inr (), k2)"
  shows "\<exists>r'. pipeline_run source_next (Some write) flush p k =
    Some (Inr \<lparr>ps_messages_read = length ms, ps_messages_written = length (stages (pl_transforms p) ms),
               ps_messages_filtered = length ms - length (stages (pl_transforms p) ms)\<rparr>, r', k2)"
proof -
  obtain ts' where "feed transform_chain (pl_transforms p) ms = (Inr (stages (pl_transforms p) ms), ts')" using feed_stage(2) [OF assms(2)] by blast
  from pipe_loop_ok [OF assms(1) this assms(3), of "\<lparr>ps_messages_read = 0, ps_messages_written = 0, ps_messages_filtered = 0\<rparr>"]
  show ?thesis using assms(4) by (auto simp: pipeline_run_def)
qed

text \<open>The arguments of the append that the sink makes of a message.\<close>

abbreviation sink_record :: "(message \<Rightarrow> wr_env) \<Rightarrow> (message \<Rightarrow> u64) \<Rightarrow> message \<Rightarrow> wr_env \<times> u16 \<times> u64 \<times> bytes" where
  "sink_record env now m \<equiv> (env m, msg_type_id m, now m, msg_payload m)"

lemma run_queue_sink: "run_all (queue_sink_write crc env now) xs = run_all (queue_append crc) (map (sink_record env now) xs)"
  by (induction xs) (simp_all add: queue_sink_write_def)

lemma stage_subset: "set (stage t ms) \<subseteq> set ms" "set (stages ts ms) \<subseteq> set ms"
proof (induction t ms and ts ms rule: stage_stages.induct)
  case (4 n c ms)
  have "set (filter P (enumerate (Suc c) ms)) \<subseteq> set (enumerate (Suc c) ms)" for P by (rule filter_is_subset)
  then show ?case using in_set_enumerate_eq [of _ "Suc c" ms] by (fastforce simp: sampled_def)
qed auto

text \<open>
  Property C12. A pipeline from a queue to a queue is the composition of its filters. On a reader
  with any messages left, with any chain of time ranges, type filters, samplers with an interval
  and chains of these, the run ends, although its filters see one message at a time and keep
  counters in between, with exactly the messages appended, in order, that the filters leave when
  each is applied to the whole list that the one before it leaves; the sink gives them its own
  sequence numbers and times. The statistics count what was read, written and left out.
\<close>

theorem pipeline_is_composition:
  assumes "rd_pending crc base segs cur (pl_source p) ms" "\<forall>t \<in> set (pl_transforms p). stage_ok (length ms) t"
    and "queue_store crc b root config sz (w, oq) old" "\<forall>m \<in> set ms. queue_accepts config sz (sink_record env now m)" "length ms \<le> qw_room (w, oq)"
  shows "\<exists>r' k'. pipeline_run (rd_next crc proc time) (Some (queue_sink_write crc env now)) (ret ()) p (w, oq) =
      Some (Inr \<lparr>ps_messages_read = length ms, ps_messages_written = length (stages (pl_transforms p) ms),
                 ps_messages_filtered = length ms - length (stages (pl_transforms p) ms)\<rparr>, r', k') \<and>
    queue_store crc b root config sz k' (old @ numbered queue_item (qw_seq w) (map (sink_record env now) (stages (pl_transforms p) ms)))"
proof -
  let ?xs = "stages (pl_transforms p) ms"
  have r: "reads (rd_next crc proc time) (pl_source p) ms" by (rule queue_src.reads_pending [OF assms(1)])
  have "\<forall>x \<in> set (map (sink_record env now) ?xs). queue_accepts config sz x" using assms(4) stage_subset(2) [of "pl_transforms p" ms] by auto
  moreover have "length (map (sink_record env now) ?xs) \<le> qw_room (w, oq)" using assms(5) stage_length(2) [of "pl_transforms p" ms] by simp
  ultimately obtain k' where k: "run_all (queue_append crc) (map (sink_record env now) ?xs) (w, oq) = (Inr (), k')"
    "queue_store crc b root config sz k' (old @ numbered queue_item (qw_seq w) (map (sink_record env now) ?xs))"
    using queue_st.append_all [OF assms(3), of "map (sink_record env now) ?xs"] by auto
  then have s: "run_all (queue_sink_write crc env now) ?xs (w, oq) = (Inr (), k')" by (simp only: run_queue_sink)
  have f: "ret () k' = (Inr (), k')" by (simp add: ret_def)
  from pipeline_run_ok [where p = p and flush = "ret ()", OF r assms(2) s f] obtain r' where
    "pipeline_run (rd_next crc proc time) (Some (queue_sink_write crc env now)) (ret ()) p (w, oq) =
      Some (Inr \<lparr>ps_messages_read = length ms, ps_messages_written = length ?xs, ps_messages_filtered = length ms - length ?xs\<rparr>, r', k')" ..
  from conjI [OF this k(2)] show ?thesis by (rule exI [of _ r', OF exI [of _ k']])
qed

text \<open>A filter by time and one by type, on a queue of one message that both let through.\<close>

theorem pipeline_is_composition_witness:
  "\<exists>r' k'. pipeline_run (rd_next (\<lambda>_. 5) demo_proc 0) (Some (queue_sink_write (\<lambda>_. 5) (\<lambda>_. demo_env) (\<lambda>_. 99))) (ret ())
      (filter_types [7] (filter_time_range 11 12 (from_source (one_reader, one_queue demo_msg)))) (demo_free, demo_queue) =
      Some (Inr \<lparr>ps_messages_read = 1, ps_messages_written = 1, ps_messages_filtered = 0\<rparr>, r', k') \<and>
    queue_store (\<lambda>_. 5) 0 [] default_writer_config 256 k' [new_msg 0 99 7 [1, 2, 3]]"
proof -
  let ?p = "filter_types [7] (filter_time_range 11 12 (from_source (one_reader, one_queue demo_msg)))"
  have ts: "pl_transforms ?p = [TimeRangeFilter 11 12, TypeFilter {7}]" "pl_source ?p = (one_reader, one_queue demo_msg)"
    by (simp_all add: filter_types_def filter_time_range_def from_source_def)
  have m: "msg_timestamp_ns demo_msg = 11" "msg_type_id demo_msg = 7" "msg_payload demo_msg = [1, 2, 3]" by (simp_all add: demo_msg_def)
  have out: "stages (pl_transforms ?p) [demo_msg] = [demo_msg]" using m by (simp add: ts)
  have pend: "rd_pending (\<lambda>_. 5) 5 [] [Msg demo_msg] (pl_source ?p) [demo_msg]" unfolding ts(2) by (rule one_queue_pending) (simp_all add: m)
  have ok: "\<forall>t \<in> set (pl_transforms ?p). stage_ok (length [demo_msg]) t" by (simp add: ts)
  have st: "queue_store (\<lambda>_. 5) 0 [] default_writer_config 256 (demo_free, demo_queue) []"
    using demo_free_inv [of "\<lambda>_. 5"] by (auto simp: queue_store_def demo_free_def demo_writer_def queue_entries_def intro!: exI [of _ "[]"])
  have "record_len 3 = 128" using record_len_eq [of 3] by simp
  then have acc: "\<forall>m \<in> set [demo_msg]. queue_accepts default_writer_config 256 (sink_record (\<lambda>_. demo_env) (\<lambda>_. 99) m)"
    by (simp add: m quiet_def default_writer_config_def demo_env_def)
  have room: "length [demo_msg] \<le> qw_room (demo_free, demo_queue)" by (simp add: demo_free_def demo_writer_def)
  have seq: "qw_seq demo_free = 0" by (simp add: demo_free_def demo_writer_def)
  from pipeline_is_composition [where p = ?p, OF pend ok st acc room, of demo_proc 0] show ?thesis unfolding out seq by (simp add: m)
qed

end
