(* ===== verification/Parallel.thy ===== *)
theory Parallel
  imports Pipeline
begin

text \<open>
  \<^verbatim>\<open>src/src/stream/replay/parallel.rs\<close>: a replay that hands every message to a worker chosen by its
  symbol, where a handler of that symbol takes it. A channel keeps the order of its messages, so a
  worker is a function of what was sent to it; what the threads decide by their timing, whether a
  channel is found closed when a message is sent, is an argument. The hash of a symbol and the
  handlers are arguments, too.
\<close>

section \<open>Symbols\<close>

definition extract_symbol :: "message \<Rightarrow> string result" where
  "extract_symbol m =
     (if msg_type_id m = type_id_u16 BookEvent then
        (if length (msg_payload m) < 64 then Inl (Anyhow ''payload too short for BookEventHeader'')
         else Inr (''MARKET_'' @ dec_digits (unat (bh_market_id (book_event_header_of (msg_payload m))))))
      else Inr (''TYPE_'' @ dec_digits (unat (msg_type_id m))))"

definition hash_symbol_to_worker :: "(string \<Rightarrow> nat) \<Rightarrow> string \<Rightarrow> nat \<Rightarrow> nat result" where
  "hash_symbol_to_worker hash symbol worker_count =
     (if worker_count = 0 then Inl (Panic ''attempt to calculate the remainder with a divisor of zero'') else Inr (hash symbol mod worker_count))"

section \<open>A worker\<close>

record worker_stats =
  ws_messages_processed :: nat
  ws_symbols_processed :: nat

text \<open>The handlers that were created, as a list with one entry for each symbol.\<close>

type_synonym 'h handlers = "(string \<times> 'h) list"

fun worker_loop :: "(string \<Rightarrow> 'h) \<Rightarrow> (message \<Rightarrow> ('h, unit) io) \<Rightarrow> message list \<Rightarrow> nat \<Rightarrow> 'h handlers \<Rightarrow> nat result \<times> 'h handlers" where
  "worker_loop factory handle [] processed hs = (Inr processed, hs)"
| "worker_loop factory handle (m # ms) processed hs =
     (case extract_symbol m of
        Inl e \<Rightarrow> (Inl e, hs)
      | Inr symbol \<Rightarrow>
          (case handle m (case map_of hs symbol of None \<Rightarrow> factory symbol | Some h \<Rightarrow> h) of
             (Inl e, h') \<Rightarrow> (Inl e, AList.update symbol h' hs)
           | (Inr _, h') \<Rightarrow> worker_loop factory handle ms (processed + 1) (AList.update symbol h' hs)))"

fun flush_handlers :: "('h, unit) io \<Rightarrow> 'h handlers \<Rightarrow> unit result \<times> 'h handlers" where
  "flush_handlers flush [] = (Inr (), [])"
| "flush_handlers flush ((symbol, h) # hs) =
     (case flush h of
        (Inl e, h') \<Rightarrow> (Inl e, (symbol, h') # hs)
      | (Inr _, h') \<Rightarrow> (case flush_handlers flush hs of (r, hs') \<Rightarrow> (r, (symbol, h') # hs')))"

definition worker_run ::
  "(string \<Rightarrow> 'h) \<Rightarrow> (message \<Rightarrow> ('h, unit) io) \<Rightarrow> ('h, unit) io \<Rightarrow> message list \<Rightarrow> worker_stats result \<times> 'h handlers" where
  "worker_run factory handle flush ms =
     (case worker_loop factory handle ms 0 [] of
        (Inl e, hs) \<Rightarrow> (Inl e, hs)
      | (Inr processed, hs) \<Rightarrow>
          (case flush_handlers flush hs of
             (Inl e, hs') \<Rightarrow> (Inl e, hs')
           | (Inr _, hs') \<Rightarrow> (Inr \<lparr>ws_messages_processed = processed, ws_symbols_processed = length hs'\<rparr>, hs')))"

section \<open>The dispatcher\<close>

text \<open>\<open>inboxes\<close> is what was sent to each worker; \<open>gone k w\<close>: the channel of worker \<open>w\<close> is found closed when message number \<open>k\<close> is sent.\<close>

partial_function (option) dispatch_loop ::
  "('r \<Rightarrow> message option result \<times> 'r) \<Rightarrow> (string \<Rightarrow> nat) \<Rightarrow> (nat \<Rightarrow> nat \<Rightarrow> bool) \<Rightarrow> nat \<Rightarrow> nat \<Rightarrow> message list list \<Rightarrow> 'r \<Rightarrow>
   (nat result \<times> message list list \<times> 'r) option" where
  "dispatch_loop source_next hash gone worker_count sent inboxes r =
     (case source_next r of
        (Inl e, r') \<Rightarrow> Some (Inl e, inboxes, r')
      | (Inr None, r') \<Rightarrow> Some (Inr sent, inboxes, r')
      | (Inr (Some m), r') \<Rightarrow>
          (case extract_symbol m of
             Inl e \<Rightarrow> Some (Inl e, inboxes, r')
           | Inr symbol \<Rightarrow>
               (case hash_symbol_to_worker hash symbol worker_count of
                  Inl e \<Rightarrow> Some (Inl e, inboxes, r')
                | Inr worker_id \<Rightarrow>
                    if gone sent worker_id then Some (Inl (Anyhow ''Failed to send message to worker''), inboxes, r')
                    else dispatch_loop source_next hash gone worker_count (sent + 1)
                           (inboxes[worker_id := inboxes ! worker_id @ [m]]) r')))"

record multi_replay_stats =
  mr_total_messages :: nat
  mr_worker_stats :: "worker_stats list"

fun join_all :: "worker_stats result list \<Rightarrow> worker_stats list result" where
  "join_all [] = Inr []"
| "join_all (r # rs) = (case r of Inl e \<Rightarrow> Inl e | Inr st \<Rightarrow> (case join_all rs of Inl e \<Rightarrow> Inl e | Inr sts \<Rightarrow> Inr (st # sts)))"

text \<open>A dispatcher that returns early drops the channels; the workers still take what was sent to them.\<close>

definition multi_run ::
  "('r \<Rightarrow> message option result \<times> 'r) \<Rightarrow> (string \<Rightarrow> nat) \<Rightarrow> (nat \<Rightarrow> nat \<Rightarrow> bool) \<Rightarrow> (string \<Rightarrow> 'h) \<Rightarrow> (message \<Rightarrow> ('h, unit) io) \<Rightarrow> ('h, unit) io \<Rightarrow>
   nat \<Rightarrow> 'r \<Rightarrow> (multi_replay_stats result \<times> 'h handlers list \<times> 'r) option" where
  "multi_run source_next hash gone factory handle flush worker_count r =
     (case dispatch_loop source_next hash gone worker_count 0 (replicate worker_count []) r of
        None \<Rightarrow> None
      | Some (res, inboxes, r') \<Rightarrow>
          let workers = map (worker_run factory handle flush) inboxes in
          Some (case res of
                  Inl e \<Rightarrow> Inl e
                | Inr sent \<Rightarrow>
                    (case join_all (map fst workers) of
                       Inl e \<Rightarrow> Inl e
                     | Inr sts \<Rightarrow> Inr \<lparr>mr_total_messages = sent, mr_worker_stats = sts\<rparr>),
                map snd workers, r'))"

section \<open>Lemmas\<close>

text \<open>Handlers that do not fail, as functions, and the symbol of a message that has one.\<close>

definition symbol_of :: "message \<Rightarrow> string" where
  "symbol_of m = (case extract_symbol m of Inl _ \<Rightarrow> [] | Inr s \<Rightarrow> s)"

definition has_sym :: "message \<Rightarrow> bool" where
  "has_sym m \<longleftrightarrow> extract_symbol m = Inr (symbol_of m)"

definition handled :: "(string \<Rightarrow> 'h) \<Rightarrow> (message \<Rightarrow> 'h \<Rightarrow> 'h) \<Rightarrow> message list \<Rightarrow> string \<Rightarrow> 'h option" where
  "handled factory step ms s = (if s \<in> symbol_of ` set ms then Some (fold step (filter (\<lambda>m. symbol_of m = s) ms) (factory s)) else None)"

lemma worker_loop_ok:
  assumes "\<And>m h. handle m h = (Inr (), step m h)" "\<forall>m \<in> set ms. has_sym m" "map_of hs = handled factory step pre" "distinct (map fst hs)"
  shows "\<exists>hs'. worker_loop factory handle ms k hs = (Inr (k + length ms), hs') \<and> map_of hs' = handled factory step (pre @ ms) \<and> distinct (map fst hs')"
  using assms(2-4)
proof (induction ms arbitrary: k hs pre)
  case (Cons m ms)
  let ?h = "step m (case map_of hs (symbol_of m) of None \<Rightarrow> factory (symbol_of m) | Some h \<Rightarrow> h)"
  have "map_of (AList.update (symbol_of m) ?h hs) s = handled factory step (pre @ [m]) s" for s
  proof (cases "s = symbol_of m")
    case True
    have "filter (\<lambda>x. symbol_of x = symbol_of m) pre = []" if "symbol_of m \<notin> symbol_of ` set pre" using that by (metis (mono_tags, lifting) filter_False imageI)
    then show ?thesis using True Cons.prems(2) by (auto simp: handled_def update_conv' split: if_splits)
  qed (use Cons.prems(2) in \<open>simp add: handled_def update_conv'\<close>)
  then have "map_of (AList.update (symbol_of m) ?h hs) = handled factory step (pre @ [m])" by blast
  moreover have "distinct (map fst (AList.update (symbol_of m) ?h hs))" using Cons.prems(3) by (rule distinct_update)
  ultimately show ?case using Cons.IH [of "AList.update (symbol_of m) ?h hs" "pre @ [m]" "k + 1"] Cons.prems(1) assms(1) by (auto simp: has_sym_def)
qed simp

lemma flush_ok:
  assumes "\<And>h. flush h = (Inr (), fin h)"
  shows "flush_handlers flush hs = (Inr (), map (\<lambda>(s, h). (s, fin h)) hs)"
  by (induction hs) (auto simp: assms)

lemma worker_run_ok:
  assumes "\<And>m h. handle m h = (Inr (), step m h)" "\<And>h. flush h = (Inr (), fin h)" "\<forall>m \<in> set ms. has_sym m"
  shows "\<exists>st hs. worker_run factory handle flush ms = (Inr st, hs) \<and> ws_messages_processed st = length ms \<and>
    map_of hs = (\<lambda>s. map_option fin (handled factory step ms s))"
proof -
  have "map_of [] = handled factory step []" by (auto simp: handled_def)
  from worker_loop_ok [OF assms(1,3) this, of 0] obtain hs where hs: "worker_loop factory handle ms 0 [] = (Inr (length ms), hs)" "map_of hs = handled factory step ms" by auto
  have "map_of (map (\<lambda>(s, h). (s, fin h)) hs) = (\<lambda>s. map_option fin (handled factory step ms s))" unfolding hs(2) [symmetric] by (rule ext) (simp add: map_of_map)
  then show ?thesis using hs(1) flush_ok [of flush fin, OF assms(2)] by (simp add: worker_run_def)
qed

lemma dispatch_ok:
  assumes "reads source_next r ms" "0 < n" "\<forall>m \<in> set ms. has_sym m" "\<And>k w. \<not> gone k w" "length inboxes = n"
  shows "\<exists>r'. dispatch_loop source_next hash gone n k inboxes r =
    Some (Inr (k + length ms), map (\<lambda>w. inboxes ! w @ filter (\<lambda>m. hash (symbol_of m) mod n = w) ms) [0..<n], r')"
  using assms(1,3,5)
proof (induction ms arbitrary: r k inboxes)
  case Nil
  then obtain r' where "source_next r = (Inr None, r')" by (cases "source_next r") auto
  moreover have "map (\<lambda>w. inboxes ! w) [0..<n] = inboxes" using Nil.prems(3) by (metis map_nth)
  ultimately show ?case by (simp add: dispatch_loop.simps)
next
  case (Cons m ms)
  let ?w = "hash (symbol_of m) mod n"
  let ?in = "inboxes[?w := inboxes ! ?w @ [m]]"
  obtain r1 where r1: "source_next r = (Inr (Some m), r1)" "reads source_next r1 ms" using Cons.prems(1) by (cases "source_next r") auto
  have w: "?w < n" using assms(2) by simp
  have st: "dispatch_loop source_next hash gone n k inboxes r = dispatch_loop source_next hash gone n (k + 1) ?in r1"
    using r1(1) Cons.prems(2) assms(2,4) by (simp add: dispatch_loop.simps [of source_next _ _ _ k] has_sym_def hash_symbol_to_worker_def)
  have mp: "map (\<lambda>w. ?in ! w @ filter (\<lambda>m. hash (symbol_of m) mod n = w) ms) [0..<n] = map (\<lambda>w. inboxes ! w @ filter (\<lambda>m. hash (symbol_of m) mod n = w) (m # ms)) [0..<n]"
    using w Cons.prems(3) by (auto simp: nth_list_update)
  show ?case unfolding st mp [symmetric] using Cons.IH [OF r1(2), of ?in "k + 1"] Cons.prems(2,3) by simp
qed

lemma join_all_ok: "\<forall>w \<in> set ws. \<exists>st. f w = Inr st \<Longrightarrow> join_all (map f ws) = Inr (map (\<lambda>w. projr (f w)) ws)"
  by (induction ws) auto

text \<open>
  Property C13. How the messages are spread over workers makes no difference to the handlers. With
  any positive number of workers and any hash, when no handler fails and no worker goes away, the
  replay of a source ends; the worker of a symbol has, for each symbol of the source, one handler,
  which has taken exactly the messages of that symbol in their order and has then been flushed;
  no other worker has one; and every message is counted once.
\<close>

theorem parallel_by_symbol:
  assumes "reads source_next r ms" "0 < n" "\<forall>m \<in> set ms. has_sym m" "\<And>k w. \<not> gone k w"
    and "\<And>m h. handle m h = (Inr (), step m h)" "\<And>h. flush h = (Inr (), fin h)"
  shows "\<exists>st hss r'. multi_run source_next hash gone factory handle flush n r = Some (Inr st, hss, r') \<and> length hss = n \<and>
    mr_total_messages st = length ms \<and> sum_list (map ws_messages_processed (mr_worker_stats st)) = length ms \<and>
    (\<forall>w < n. \<forall>s. map_of (hss ! w) s =
       (if s \<in> symbol_of ` set ms \<and> hash s mod n = w then Some (fin (fold step (filter (\<lambda>m. symbol_of m = s) ms) (factory s))) else None))"
proof -
  let ?in = "\<lambda>w. filter (\<lambda>m. hash (symbol_of m) mod n = w) ms"
  let ?run = "\<lambda>w. worker_run factory handle flush (?in w)"
  have e: "map (\<lambda>w. replicate n [] ! w @ ?in w) [0..<n] = map ?in [0..<n]" by simp
  obtain r' where d: "dispatch_loop source_next hash gone n 0 (replicate n []) r = Some (Inr (length ms), map ?in [0..<n], r')"
    using dispatch_ok [where hash = hash and k = 0 and inboxes = "replicate n []" and gone = gone, OF assms(1-4)] unfolding e by auto
  have run: "\<exists>st hs. ?run w = (Inr st, hs) \<and> ws_messages_processed st = length (?in w) \<and> map_of hs = (\<lambda>s. map_option fin (handled factory step (?in w) s))" for w
    using worker_run_ok [of handle step flush fin "?in w" factory] assms(3,5,6) by auto
  have j: "join_all (map (\<lambda>w. fst (?run w)) [0..<n]) = Inr (map (\<lambda>w. projr (fst (?run w))) [0..<n])" using run by (intro join_all_ok) (metis fst_conv)
  let ?st = "\<lparr>mr_total_messages = length ms, mr_worker_stats = map (\<lambda>w. projr (fst (?run w))) [0..<n]\<rparr>"
  have m: "multi_run source_next hash gone factory handle flush n r = Some (Inr ?st, map (\<lambda>w. snd (?run w)) [0..<n], r')"
    using d j by (simp add: multi_run_def Let_def comp_def)
  have "ws_messages_processed (projr (fst (?run w))) = length (?in w)" for w using run [of w] by auto
  then have c: "sum_list (map ws_messages_processed (mr_worker_stats ?st)) = sum_list (map (\<lambda>w. length (?in w)) [0..<n])" by (simp add: comp_def)
  have "sum_list (map (\<lambda>w. length (filter (\<lambda>m. hash (symbol_of m) mod n = w) xs)) [0..<n]) = length xs" for xs
  proof (induction xs)
    case (Cons x xs)
    have "sum_list (map (\<lambda>w. if v = w then 1 else 0 :: nat) [0..<n]) = 1" if "v < n" for v
      using that by (simp add: interv_sum_list_conv_sum_set_nat)
    moreover have "length (filter (\<lambda>m. hash (symbol_of m) mod n = w) (x # xs)) =
        (if hash (symbol_of x) mod n = w then 1 else 0) + length (filter (\<lambda>m. hash (symbol_of m) mod n = w) xs)" for w by simp
    ultimately show ?case using Cons assms(2) by (simp add: sum_list_addf)
  qed simp
  moreover have "map_of (snd (?run w)) s =
      (if s \<in> symbol_of ` set ms \<and> hash s mod n = w then Some (fin (fold step (filter (\<lambda>m. symbol_of m = s) ms) (factory s))) else None)" for w s
  proof -
    have "filter (\<lambda>m. symbol_of m = s) (?in w) = filter (\<lambda>m. symbol_of m = s) ms" if "hash s mod n = w" using that by (auto intro: filter_cong)
    then show ?thesis using run [of w] by (auto simp: handled_def)
  qed
  ultimately show ?thesis using m c by (intro exI [of _ ?st] exI [of _ "map (\<lambda>w. snd (?run w)) [0..<n]"] exI [of _ r']) auto
qed

text \<open>Two workers, the lengths of the symbols as hash, and handlers that collect the sequence numbers and are marked when flushed.\<close>

theorem parallel_by_symbol_witness:
  "\<exists>st hss r'. multi_run (rd_next (\<lambda>_. 5) demo_proc 0) length (\<lambda>_ _. False) (\<lambda>_. ([], False)) (\<lambda>m h. (Inr (), fst h @ [msg_seq m], False))
      (\<lambda>h. (Inr (), fst h, True)) 2 (one_reader, one_queue demo_msg) = Some (Inr st, hss, r') \<and>
    mr_total_messages st = 1 \<and> map_of (hss ! 0) ''TYPE_7'' = Some ([0], True) \<and> map_of (hss ! 1) ''TYPE_7'' = None"
proof -
  have m: "msg_type_id demo_msg = 7" "msg_payload demo_msg = [1, 2, 3]" "msg_seq demo_msg = 0" by (simp_all add: demo_msg_def)
  have "rd_pending (\<lambda>_. 5) 5 [] [Msg demo_msg] (one_reader, one_queue demo_msg) [demo_msg]" by (rule one_queue_pending) (simp_all add: m)
  then have r: "reads (rd_next (\<lambda>_. 5) demo_proc 0) (one_reader, one_queue demo_msg) [demo_msg]" by (rule queue_src.reads_pending)
  have "dec_digits 7 = ''7''" by (simp add: dec_digits.simps digit_char_def) code_simp
  then have s: "symbol_of demo_msg = ''TYPE_7''" "has_sym demo_msg" using m by (simp_all add: symbol_of_def has_sym_def extract_symbol_def)
  then have h: "\<forall>m \<in> set [demo_msg]. has_sym m" by simp
  have "\<exists>st hss r'. multi_run (rd_next (\<lambda>_. 5) demo_proc 0) length (\<lambda>_ _. False) (\<lambda>_. ([], False)) (\<lambda>m h. (Inr (), fst h @ [msg_seq m], False))
      (\<lambda>h. (Inr (), fst h, True)) 2 (one_reader, one_queue demo_msg) = Some (Inr st, hss, r') \<and> length hss = 2 \<and>
    mr_total_messages st = length [demo_msg] \<and> sum_list (map ws_messages_processed (mr_worker_stats st)) = length [demo_msg] \<and>
    (\<forall>w < 2. \<forall>s. map_of (hss ! w) s =
       (if s \<in> symbol_of ` set [demo_msg] \<and> length s mod 2 = w
        then Some ((\<lambda>h. (fst h, True)) (fold (\<lambda>m h. (fst h @ [msg_seq m], False)) (filter (\<lambda>m. symbol_of m = s) [demo_msg]) ([], False))) else None))"
    by (rule parallel_by_symbol [OF r _ h]) simp_all
  then show ?thesis using s(1) m(3) by fastforce
qed

end
