(* ===== verification/Spec2Isabelle.thy ===== *)
theory Spec2Isabelle
  imports Log Wait_Protocol Refinery L3_Engine Table_Reader Lifecycle Trading Parallel
begin

text \<open>
  A verification of Chronicle, a persistent message queue and log on memory-mapped segment
  files.

  \<^bold>\<open>The program.\<close> A queue is a directory. Its records lie in numbered segment files
  (\<open>000000000.q\<close>, \<open>000000001.q\<close>, ...); a record is a header of 64 bytes and a payload, padded to
  64 bytes, and is committed when its commit word, the first four bytes of the header, is not
  zero. One writer (\<^verbatim>\<open>src/src/core/writer.rs\<close>) holds the lock file and appends; when a segment is
  full it rolls to the next one, which a worker may have prepared, and seals the old one. The
  control file is shared memory: the current segment and offset under a sequence lock, the
  writer's heartbeat, and a futex word for sleeping readers. Readers (\<^verbatim>\<open>src/src/core/reader.rs\<close>)
  map the segments, follow the commit words, and save their positions in two-slot metadata files,
  from which the writer computes back-pressure and what may be deleted
  (\<^verbatim>\<open>src/src/core/retention.rs\<close>). The log (\<^verbatim>\<open>src/src/core/log.rs\<close>) is the archival variant: a
  segment is written to a temporary file and published by a rename when it is complete. The
  time-series log (\<^verbatim>\<open>src/src/table/log.rs\<close>) adds an index of times to each of its segments, and
  tables are directories of such logs, one for each partition, such as a day
  (\<^verbatim>\<open>src/src/table/table.rs\<close>), chosen by a rolling writer from the time of each record
  (\<^verbatim>\<open>src/src/table/rolling.rs\<close>) and queried together (\<^verbatim>\<open>src/src/table/table_reader.rs\<close>). The patterns of
  \<^verbatim>\<open>src/src/ipc\<close> put queues together: publishers and subscribers, channels of two queues, and
  readers of many queues in the order of time; on them stand the channels between strategies and
  routers (\<^verbatim>\<open>src/src/trading\<close>), which find each other by marker files (\<^verbatim>\<open>src/src/bus\<close>). The life-cycle manager (\<^verbatim>\<open>src/src/lifecycle\<close>) replaces
  old segments by compressed files (\<^verbatim>\<open>src/src/core/compression\<close>).

  On top of the queue stands market data. Book events (\<^verbatim>\<open>src/src/protocol/mod.rs\<close>) are plain
  structs copied into payloads. The replay engine (\<^verbatim>\<open>src/src/stream/replay/mod.rs\<close>) applies
  those of a queue to a level-2 book and can start from a snapshot file
  (\<^verbatim>\<open>src/src/stream/replay/snapshot.rs\<close>) in place of the first record; pipelines
  (\<^verbatim>\<open>src/src/stream/replay/pipeline.rs\<close>, \<^verbatim>\<open>parallel.rs\<close>) filter a queue into another or hand its messages
  to workers. The refinery
  (\<^verbatim>\<open>src/src/stream/etl/refinery.rs\<close>) copies a queue with snapshots put in between, after a look
  into the symbol catalog (\<^verbatim>\<open>src/src/stream/etl/catalog.rs\<close>). The level-3 engine
  (\<^verbatim>\<open>src/src/venues/szse/l3/engine.rs\<close>) keeps every order of many symbols, which it distributes
  over workers.

  \<^bold>\<open>The theories.\<close>
  \<^item> \<open>Prelude\<close>: results and the state-and-error functions \<open>bind\<close>, \<open>get\<close>, \<open>attempt\<close>, saturating
    arithmetic at 64 bits, slices and little-endian words. \<open>Fs\<close>: files, directories and mapped
    files (\<^verbatim>\<open>core/mmap.rs\<close>). \<open>Header\<close> (\<^verbatim>\<open>core/header.rs\<close>) and \<open>Records\<close>: the record header, and
    what it means that a chain of records lies in a segment.
  \<^item> \<open>Names\<close>, \<open>Segment\<close>, \<open>Reader_Meta\<close> (\<^verbatim>\<open>core/segment_store.rs\<close>, \<^verbatim>\<open>core/segment.rs\<close>): file names
    and the three parsers for them, creation, sealing and repair of segments, the metadata files.
  \<^item> \<open>Store\<close>: the interfaces \<open>record_store\<close> (appends keep the order and number the records) and
    \<open>record_source\<close> (reads return what is pending), with the lemmas on whole sessions and scans;
    interpreted in \<open>Log\<close>, \<open>Writer\<close>, \<open>Reader_Queue\<close> and \<open>Time_Seek\<close>.
  \<^item> \<open>Segment_Writer\<close>, \<open>Segment_Cursor\<close>, \<open>Log\<close> (\<^verbatim>\<open>core/segment_writer.rs\<close>,
    \<^verbatim>\<open>core/segment_cursor.rs\<close>, \<^verbatim>\<open>core/log.rs\<close>): the log. A session of appends is read back in order; readers skip deleted
    segments; what is returned is a committed record with a matching checksum.
  \<^item> \<open>Seek_Index\<close>, \<open>Sequencer\<close>, \<open>Retention\<close>, \<open>Control\<close>, \<open>Writer_Lock\<close>: the index files, gap
    detection, cleanup and reader positions, the control block with its sequence lock as an
    interleaving of single accesses, and the lock file.
  \<^item> \<open>Queue_World\<close>, \<open>Writer\<close>, \<open>Writer_Open\<close>: the queue as files and control block; appending,
    back-pressure, rolling; opening and recovery after a crash.
  \<^item> \<open>Reader\<close>, \<open>Reader_Queue\<close>, \<open>Reader_Open\<close>, \<open>Reader_Seek\<close>: the queue reader, its behaviour on
    a queue that a writer maintains, where it starts, and seeking. \<open>Wait_Protocol\<close>: sleeping and
    waking as an interleaving of single steps of one writer and many readers.
  \<^item> \<open>Protocol\<close>: the enumerations and structs of the book events with their layouts; the locale
    \<open>pod\<close>, interpreted for each struct, gives that what is copied out is read back. \<open>L2_Replay\<close>:
    the level-2 book and what a message does to it. \<open>Snapshot\<close>: the planner, the files, the
    searches and the retention of snapshots. \<open>Replay_Engine\<close>: the engine on a queue reader and its
    warm starts, which replace the replay of what lies before the snapshot.
  \<^item> \<open>Catalog\<close>: the symbol catalog from the rows of its table, the lookups and hashes. \<open>Refinery\<close>:
    the run of the refinery; its output replays to the book of its input.
  \<^item> \<open>L3_Book\<close>, \<open>L3_Engine\<close>: the order book, whose levels are the sums of the orders, and the
    engine, for which the number of workers makes no difference.
  \<^item> \<open>Merge\<close>, \<open>Ipc\<close>: the stable merge of runs of messages by time, as a function and as the
    interface \<open>merge_source\<close> of everything that implements it; the patterns over queues, of which
    the fan-in reader does.
  \<^item> \<open>Partition\<close>, \<open>Rollers\<close>: partition keys, values, paths and filters; time zones, the calendar
    and the choice of the partition for a time, exact with respect to the Gregorian calendar.
  \<^item> \<open>Time_Series\<close>, \<open>Time_Seek\<close>: the time-series log, and that what a session writes is what a
    reader finds from any time on.
  \<^item> \<open>Files\<close>, \<open>Table\<close>, \<open>Rolling\<close>, \<open>Table_Reader\<close> (\<^verbatim>\<open>table/metadata.rs\<close>, \<^verbatim>\<open>table/config.rs\<close>,
    \<^verbatim>\<open>table/table.rs\<close>, \<^verbatim>\<open>table/rolling.rs\<close>, \<^verbatim>\<open>table/table_reader.rs\<close>): tables. What is written through a
    rolling writer lies in the partitions the roller names, the table lists them, and a query
    returns the merge of their logs, by the same interface as the fan-in reader.
  \<^item> \<open>Bus\<close>, \<open>Trading\<close>: leases, markers and registration of readers; the paths, the discovery, whose
    events always add up to the strategies that are ready, and the channels, which are two
    first-in first-out queues.
  \<^item> \<open>Pipeline\<close>, \<open>Parallel\<close>: filters that see one message at a time compute what they compute on whole
    lists; the handlers of a parallel replay do not depend on the number of workers.
  \<^item> \<open>Compression\<close>, \<open>Lifecycle\<close>: the compression of a segment block by block, the index of the blocks and
    the reader for both kinds of files, which returns what was compressed; the policies, the log of
    accesses and the manager, which loses no segment. The relation \<open>only\<close> says which files a
    computation may change.

  \<^bold>\<open>Conventions.\<close> Fields of file formats are words. Offsets and counters of type \<open>usize\<close> and
  \<open>u64\<close> are natural numbers with the saturating, checked or wrapping operation that the code
  uses written out; an addition that the code leaves unchecked and that could overflow is a
  branch that returns \<open>Panic\<close>. A call that waits is given what it observes as a list and returns
  \<open>Blocked\<close> when the list ends before it does. An operation takes the state and returns the
  result with the new state also when it fails, since what was written stays written. The CRC,
  the hash functions of the level-3 engine, the system clock, the process table, the modification
  times of files, whether the kernel has \<open>renameat2\<close>, the conversions to and from JSON and the
  functions of the zstd library are arguments. Paths have no NUL character, which the system refuses. Ordered and hash maps are
  mappings with linearly ordered keys; where the code iterates over a hash map, it sorts what it
  gets. The bytes that the compiler leaves between the fields of a struct are an argument, too.

  \<^bold>\<open>Loops and bounds.\<close> There is no fuel: the walks over a segment end because every record is at
  least 64 bytes, the reader's loop because every pass takes it nearer to the end of its segment
  or one segment nearer to the writer's, the binary search because its interval shrinks; each has
  its termination proof. Waiting loops recurse over their observations. The loops of the pipelines
  over an arbitrary source may not end; they are partial functions, and that they end on a source
  that does is part of what is proved of them.

  \<^bold>\<open>Not modelled.\<close> Failures of the device, \<open>mlock\<close> and \<open>msync\<close>; the weak memory order of the
  commit word (release and acquire are taken as sequential consistency); directory notifications;
  the feature extraction with its Parquet files and floating-point sums, and the command line.
\<close>

end
